(* ===== verification/Kernel_Prelude.thy ===== *)
theory Kernel_Prelude
  imports Main "HOL-Library.Word"
begin

text \<open>
  Shared vocabulary of the development: fixed-width integers, addresses, the outcome of a
  kernel call that may not return normally, and generic lemmas on lists, options and words
  that several components use.

  A kernel routine is a function into \<open>fault + 'a\<close>: \<open>Inr\<close> is a normal return, \<open>Inl\<close> says why
  the call did not return. The model is the DEBUG build: a failing \<open>ASSERT\<close> panics as a
  failing \<open>VERIFY\<close> does, so a theorem that a routine returns \<open>Inr\<close> also says that every
  assertion on the path holds.
\<close>

unbundle bit_operations_syntax

section \<open>Types\<close>

type_synonym u8 = "8 word"
type_synonym u16 = "16 word"
type_synonym u32 = "32 word"
type_synonym u64 = "64 word"

text \<open>A non-NULL pointer is an \<open>addr\<close>; a pointer that may be NULL is an \<open>addr option\<close>.\<close>

type_synonym addr = nat

datatype fault =
    NullDeref
  | Diverges
  | AssertFailed
  | VerifyFailed
  | Panic string
  | OutOfBounds

type_synonym 'a res = "fault + 'a"

section \<open>Outcomes\<close>

primrec rbind :: "'a res \<Rightarrow> ('a \<Rightarrow> 'b res) \<Rightarrow> 'b res" where
  "rbind (Inl e) k = Inl e"
| "rbind (Inr x) k = k x"

primrec deref :: "'a option \<Rightarrow> 'a res" where
  "deref None = Inl NullDeref"
| "deref (Some x) = Inr x"

primrec of_loop :: "'a option \<Rightarrow> 'a res" where
  "of_loop None = Inl Diverges"
| "of_loop (Some x) = Inr x"

definition ASSERT :: "bool \<Rightarrow> 'a res \<Rightarrow> 'a res" where
  "ASSERT b k = (if b then k else Inl AssertFailed)"

definition VERIFY :: "bool \<Rightarrow> 'a res \<Rightarrow> 'a res" where
  "VERIFY b k = (if b then k else Inl VerifyFailed)"

text \<open>Do not rewrite a continuation before the call it waits for has been evaluated.\<close>

lemma rbind_cong_weak [cong]: "m = m' \<Longrightarrow> rbind m k = rbind m' k"
  by simp

lemma ASSERT_True [simp]: "ASSERT True k = k"
  and ASSERT_False [simp]: "ASSERT False k = Inl AssertFailed"
  by (simp_all add: ASSERT_def)

lemma VERIFY_True [simp]: "VERIFY True k = k"
  and VERIFY_False [simp]: "VERIFY False k = Inl VerifyFailed"
  by (simp_all add: VERIFY_def)

lemma ASSERT_Inr_iff [simp]: "ASSERT b k = Inr x \<longleftrightarrow> b \<and> k = Inr x"
  by (simp add: ASSERT_def)

lemma VERIFY_Inr_iff [simp]: "VERIFY b k = Inr x \<longleftrightarrow> b \<and> k = Inr x"
  by (simp add: VERIFY_def)

lemma rbind_Inr_iff: "rbind m k = Inr y \<longleftrightarrow> (\<exists>x. m = Inr x \<and> k x = Inr y)"
  by (cases m) auto

lemma of_loop_Inr_iff [simp]: "of_loop m = Inr x \<longleftrightarrow> m = Some x"
  by (cases m) auto

lemma deref_Inr_iff [simp]: "deref m = Inr x \<longleftrightarrow> m = Some x"
  by (cases m) auto

end
