(* ===== verification/Avl_Tree.thy ===== *)
theory Avl_Tree
  imports Kernel_Prelude
begin

text \<open>
  The kernel's generic AVL tree (\<open>common/avl/avl.c\<close>, \<open>uts/common/sys/avl_impl.h\<close>), translated
  at the level of its pointers. A tree is the record \<open>avl_tree\<close> and the memory of the
  \<open>avl_node_t\<close> structures embedded in the caller's objects. Offsets between an object and its
  embedded node are left out: an object and its node have the same address. Child indices
  0 and 1 are \<open>False\<close> and \<open>True\<close>, so \<open>1 - left\<close> is \<open>\<not> left\<close>. Each \<open>for\<close>, \<open>while\<close> and \<open>do\<close> loop is a
  \<open>partial_function\<close>: not returning is the value \<open>None\<close>, turned into the fault \<open>Diverges\<close>.
\<close>

section \<open>Nodes and trees\<close>

record avl_node =
  avl_child :: "bool \<Rightarrow> addr option"
  avl_parent :: "addr option"
  avl_child_index :: bool
  avl_balance :: int

record avl_tree =
  avl_root :: "addr option"
  avl_numnodes_of :: nat
  avl_mem :: "addr \<Rightarrow> avl_node"

text \<open>\<open>avl_index_t\<close>: the node below which a new node goes, and on which side.\<close>

type_synonym avl_index = "addr option \<times> bool"

definition AVL_MKINDEX :: "addr option \<Rightarrow> bool \<Rightarrow> avl_index" where
  "AVL_MKINDEX n c = (n, c)"

definition AVL_INDEX2NODE :: "avl_index \<Rightarrow> addr option" where
  "AVL_INDEX2NODE x = fst x"

definition AVL_INDEX2CHILD :: "avl_index \<Rightarrow> bool" where
  "AVL_INDEX2CHILD x = snd x"

definition AVL_BEFORE :: bool where
  "AVL_BEFORE = False"

definition AVL_AFTER :: bool where
  "AVL_AFTER = True"

definition avl_child2balance :: "bool \<Rightarrow> int" where
  "avl_child2balance c = (if c then 1 else -1)"

definition avl_balance2child :: "int \<Rightarrow> bool" where
  "avl_balance2child i = (i = 2)"

definition node_child :: "avl_tree \<Rightarrow> addr \<Rightarrow> bool \<Rightarrow> addr option" where
  "node_child t n i = avl_child (avl_mem t n) i"

definition AVL_XPARENT :: "avl_tree \<Rightarrow> addr \<Rightarrow> addr option" where
  "AVL_XPARENT t n = avl_parent (avl_mem t n)"

definition AVL_XCHILD :: "avl_tree \<Rightarrow> addr \<Rightarrow> bool" where
  "AVL_XCHILD t n = avl_child_index (avl_mem t n)"

definition AVL_XBALANCE :: "avl_tree \<Rightarrow> addr \<Rightarrow> int" where
  "AVL_XBALANCE t n = avl_balance (avl_mem t n)"

definition set_node :: "addr \<Rightarrow> avl_node \<Rightarrow> avl_tree \<Rightarrow> avl_tree" where
  "set_node n v t = t\<lparr>avl_mem := (avl_mem t)(n := v)\<rparr>"

definition set_child :: "addr \<Rightarrow> bool \<Rightarrow> addr option \<Rightarrow> avl_tree \<Rightarrow> avl_tree" where
  "set_child n i p t =
     set_node n ((avl_mem t n)\<lparr>avl_child := (avl_child (avl_mem t n))(i := p)\<rparr>) t"

definition AVL_SETPARENT :: "addr \<Rightarrow> addr option \<Rightarrow> avl_tree \<Rightarrow> avl_tree" where
  "AVL_SETPARENT n p t = set_node n ((avl_mem t n)\<lparr>avl_parent := p\<rparr>) t"

definition AVL_SETCHILD :: "addr \<Rightarrow> bool \<Rightarrow> avl_tree \<Rightarrow> avl_tree" where
  "AVL_SETCHILD n c t = set_node n ((avl_mem t n)\<lparr>avl_child_index := c\<rparr>) t"

definition AVL_SETBALANCE :: "addr \<Rightarrow> int \<Rightarrow> avl_tree \<Rightarrow> avl_tree" where
  "AVL_SETBALANCE n b t = set_node n ((avl_mem t n)\<lparr>avl_balance := b\<rparr>) t"

section \<open>Walking and searching\<close>

text \<open>Follow one child index as far as it goes (the inner \<open>for\<close> and \<open>while\<close> loops).\<close>

partial_function (option) avl_descend :: "avl_tree \<Rightarrow> bool \<Rightarrow> addr \<Rightarrow> addr option" where
  "avl_descend t dir node =
     (case node_child t node dir of None \<Rightarrow> Some node | Some c \<Rightarrow> avl_descend t dir c)"

text \<open>Return through parents until coming from child \<open>right\<close>; \<open>None\<close> inside is NULL.\<close>

partial_function (option) avl_ascend :: "avl_tree \<Rightarrow> bool \<Rightarrow> addr \<Rightarrow> addr option option" where
  "avl_ascend t right node =
     (let was_child = AVL_XCHILD t node
      in case AVL_XPARENT t node of
           None \<Rightarrow> Some None
         | Some p \<Rightarrow> if was_child = right then Some (Some p) else avl_ascend t right p)"

definition avl_walk :: "avl_tree \<Rightarrow> addr option \<Rightarrow> bool \<Rightarrow> addr option res" where
  "avl_walk t oldnode left =
     (let right = (\<not> left)
      in case oldnode of
           None \<Rightarrow> Inr None
         | Some node \<Rightarrow>
             (case node_child t node left of
                Some c \<Rightarrow> rbind (of_loop (avl_descend t right c)) (\<lambda>n. Inr (Some n))
              | None \<Rightarrow> of_loop (avl_ascend t right node)))"

definition AVL_NEXT :: "avl_tree \<Rightarrow> addr \<Rightarrow> addr option res" where
  "AVL_NEXT t n = avl_walk t (Some n) AVL_AFTER"

definition AVL_PREV :: "avl_tree \<Rightarrow> addr \<Rightarrow> addr option res" where
  "AVL_PREV t n = avl_walk t (Some n) AVL_BEFORE"

partial_function (option) avl_end_loop ::
  "avl_tree \<Rightarrow> bool \<Rightarrow> addr option \<Rightarrow> addr option \<Rightarrow> addr option option" where
  "avl_end_loop t dir node prev =
     (case node of None \<Rightarrow> Some prev | Some n \<Rightarrow> avl_end_loop t dir (node_child t n dir) (Some n))"

definition avl_first :: "avl_tree \<Rightarrow> addr option res" where
  "avl_first t = of_loop (avl_end_loop t False (avl_root t) None)"

definition avl_last :: "avl_tree \<Rightarrow> addr option res" where
  "avl_last t = of_loop (avl_end_loop t True (avl_root t) None)"

definition avl_nearest :: "avl_tree \<Rightarrow> avl_index \<Rightarrow> bool \<Rightarrow> addr option res" where
  "avl_nearest t where direction =
     (let child = AVL_INDEX2CHILD where
      in case AVL_INDEX2NODE where of
           None \<Rightarrow> ASSERT (avl_root t = None) (Inr None)
         | Some node \<Rightarrow>
             if child \<noteq> direction then Inr (Some node)
             else avl_walk t (Some node) direction)"

text \<open>
  The argument \<open>compar\<close> of a search is \<open>tree->avl_compar(value, _)\<close>: the comparison of the
  value searched for with the object at an address.
\<close>

partial_function (option) avl_find_loop ::
  "(addr \<Rightarrow> int) \<Rightarrow> avl_tree \<Rightarrow> addr option \<Rightarrow> addr option \<Rightarrow> bool
     \<Rightarrow> (addr option \<times> avl_index) res option" where
  "avl_find_loop compar t node prev child =
     (case node of
        None \<Rightarrow> Some (Inr (None, AVL_MKINDEX prev child))
      | Some n \<Rightarrow>
          (let diff = compar n
           in if \<not> (-1 \<le> diff \<and> diff \<le> 1) then Some (Inl AssertFailed)
              else if diff = 0 then Some (Inr (Some n, (None, False)))
              else (let child = avl_balance2child (1 + diff)
                    in avl_find_loop compar t (node_child t n child) (Some n) child)))"

definition avl_find :: "(addr \<Rightarrow> int) \<Rightarrow> avl_tree \<Rightarrow> (addr option \<times> avl_index) res" where
  "avl_find compar t = rbind (of_loop (avl_find_loop compar t (avl_root t) None False)) id"

section \<open>Rotation\<close>

definition relink :: "addr option \<Rightarrow> bool \<Rightarrow> addr \<Rightarrow> avl_tree \<Rightarrow> avl_tree" where
  "relink parent which_child n t =
     (case parent of
        Some p \<Rightarrow> set_child p which_child (Some n) t
      | None \<Rightarrow> t\<lparr>avl_root := Some n\<rparr>)"

definition adopt :: "addr option \<Rightarrow> addr \<Rightarrow> bool \<Rightarrow> avl_tree \<Rightarrow> avl_tree" where
  "adopt c n i t =
     (case c of
        None \<Rightarrow> t
      | Some k \<Rightarrow> AVL_SETCHILD k i (AVL_SETPARENT k (Some n) t))"

definition avl_rotation :: "avl_tree \<Rightarrow> addr \<Rightarrow> int \<Rightarrow> (avl_tree \<times> bool) res" where
  "avl_rotation t node balance =
     (let left = (\<not> balance < 0);
          right = (\<not> left);
          left_heavy = balance div 2;
          right_heavy = - left_heavy;
          parent = AVL_XPARENT t node;
          which_child = AVL_XCHILD t node
      in rbind (deref (node_child t node left)) (\<lambda>child.
         let child_bal = AVL_XBALANCE t child
         in if child_bal \<noteq> right_heavy then
              let child_bal = child_bal + right_heavy;
                  cright = node_child t child right;
                  t = set_child node left cright t;
                  t = adopt cright node left t;
                  t = set_child child right (Some node) t;
                  t = AVL_SETBALANCE node (- child_bal) t;
                  t = AVL_SETCHILD node right t;
                  t = AVL_SETPARENT node (Some child) t;
                  t = AVL_SETBALANCE child child_bal t;
                  t = AVL_SETCHILD child which_child t;
                  t = AVL_SETPARENT child parent t;
                  t = relink parent which_child child t
              in Inr (t, child_bal = 0)
            else
              rbind (deref (node_child t child right)) (\<lambda>gchild.
              let gleft = node_child t gchild left;
                  gright = node_child t gchild right;
                  t = set_child node left gright t;
                  t = adopt gright node left t;
                  t = set_child child right gleft t;
                  t = adopt gleft child right t;
                  balance = AVL_XBALANCE t gchild;
                  t = set_child gchild left (Some child) t;
                  t = AVL_SETBALANCE child (if balance = right_heavy then left_heavy else 0) t;
                  t = AVL_SETPARENT child (Some gchild) t;
                  t = AVL_SETCHILD child left t;
                  t = set_child gchild right (Some node) t;
                  t = AVL_SETBALANCE node (if balance = left_heavy then right_heavy else 0) t;
                  t = AVL_SETPARENT node (Some gchild) t;
                  t = AVL_SETCHILD node right t;
                  t = AVL_SETBALANCE gchild 0 t;
                  t = AVL_SETPARENT gchild parent t;
                  t = AVL_SETCHILD gchild which_child t;
                  t = relink parent which_child gchild t
              in Inr (t, True))))"

section \<open>Insertion\<close>

text \<open>
  Back up the tree from the insertion point. \<open>Some (node, new_balance)\<close> in the result asks
  for a rotation at \<open>node\<close> (the \<open>break\<close> of the loop).
\<close>

partial_function (option) avl_insert_loop ::
  "avl_tree \<Rightarrow> addr option \<Rightarrow> bool \<Rightarrow> (avl_tree \<times> (addr \<times> int) option) option" where
  "avl_insert_loop t parent which_child =
     (case parent of
        None \<Rightarrow> Some (t, None)
      | Some node \<Rightarrow>
          (let old_balance = AVL_XBALANCE t node;
               new_balance = old_balance + avl_child2balance which_child
           in if new_balance = 0 then Some (AVL_SETBALANCE node 0 t, None)
              else if old_balance \<noteq> 0 then Some (t, Some (node, new_balance))
              else (let t' = AVL_SETBALANCE node new_balance t
                    in avl_insert_loop t' (AVL_XPARENT t' node) (AVL_XCHILD t' node))))"

definition avl_insert :: "avl_tree \<Rightarrow> addr \<Rightarrow> avl_index \<Rightarrow> avl_tree res" where
  "avl_insert t new_data where =
     (let parent = AVL_INDEX2NODE where;
          which_child = AVL_INDEX2CHILD where;
          node = new_data;
          t = t\<lparr>avl_numnodes_of := avl_numnodes_of t + 1\<rparr>;
          t = set_child node False None t;
          t = set_child node True None t;
          t = AVL_SETCHILD node which_child t;
          t = AVL_SETBALANCE node 0 t;
          t = AVL_SETPARENT node parent t
      in rbind (case parent of
                  Some p \<Rightarrow> ASSERT (node_child t p which_child = None)
                              (Inr (set_child p which_child (Some node) t))
                | None \<Rightarrow> ASSERT (avl_root t = None) (Inr (t\<lparr>avl_root := Some node\<rparr>)))
         (\<lambda>t. rbind (of_loop (avl_insert_loop t parent which_child))
         (\<lambda>(t, rot).
            case rot of
              None \<Rightarrow> Inr t
            | Some (n, b) \<Rightarrow> rbind (avl_rotation t n b) (\<lambda>(t, _). Inr t))))"

text \<open>
  \<open>avl_insert_here\<close> checks at every step, in a DEBUG kernel, that the new object is ordered
  with respect to the node it passes; \<open>compar\<close> is \<open>tree->avl_compar(new_data, _)\<close>.
\<close>

definition here_ok :: "(addr \<Rightarrow> int) \<Rightarrow> addr \<Rightarrow> bool \<Rightarrow> bool" where
  "here_ok compar node child =
     (let diff = compar node
      in -1 \<le> diff \<and> diff \<le> 1 \<and> diff \<noteq> 0 \<and> (if diff > 0 then child else \<not> child))"

partial_function (option) avl_here_loop ::
  "(addr \<Rightarrow> int) \<Rightarrow> avl_tree \<Rightarrow> addr \<Rightarrow> bool \<Rightarrow> addr res option" where
  "avl_here_loop compar t node child =
     (if \<not> here_ok compar node child then Some (Inl AssertFailed)
      else case node_child t node child of
             None \<Rightarrow> Some (Inr node)
           | Some c \<Rightarrow> avl_here_loop compar t c child)"

definition avl_insert_here ::
  "(addr \<Rightarrow> int) \<Rightarrow> avl_tree \<Rightarrow> addr \<Rightarrow> addr \<Rightarrow> bool \<Rightarrow> avl_tree res" where
  "avl_insert_here compar t new_data here direction =
     ASSERT (here_ok compar here direction)
       (rbind (case node_child t here direction of
                 None \<Rightarrow> Inr (here, direction)
               | Some node \<Rightarrow>
                   rbind (rbind (of_loop (avl_here_loop compar t node (\<not> direction))) id)
                     (\<lambda>n. Inr (n, \<not> direction)))
         (\<lambda>(node, child).
            ASSERT (node_child t node child = None)
              (avl_insert t new_data (AVL_MKINDEX (Some node) child))))"

definition avl_add :: "(addr \<Rightarrow> int) \<Rightarrow> avl_tree \<Rightarrow> addr \<Rightarrow> avl_tree res" where
  "avl_add compar t new_node =
     rbind (avl_find compar t) (\<lambda>(found, where).
       if found \<noteq> None then Inl (Panic ''avl_find() succeeded inside avl_add()'')
       else avl_insert t new_node where)"

section \<open>Removal\<close>

text \<open>
  The stack variable \<open>tmp\<close> of \<open>avl_remove\<close> lives at address 0, which is never the address of
  an object.
\<close>

definition avl_tmp :: addr where
  "avl_tmp = 0"

partial_function (option) avl_remove_loop ::
  "avl_tree \<Rightarrow> addr \<Rightarrow> bool \<Rightarrow> avl_tree res option" where
  "avl_remove_loop t node which_child =
     (let old_balance = AVL_XBALANCE t node;
          new_balance = old_balance - avl_child2balance which_child;
          parent = AVL_XPARENT t node;
          which_child' = AVL_XCHILD t node
      in if old_balance = 0 then Some (Inr (AVL_SETBALANCE node new_balance t))
         else
           (case (if new_balance = 0 then Inr (AVL_SETBALANCE node new_balance t, True)
                  else avl_rotation t node new_balance) of
              Inl e \<Rightarrow> Some (Inl e)
            | Inr (t', shrunk) \<Rightarrow>
                if \<not> shrunk then Some (Inr t')
                else (case parent of
                        None \<Rightarrow> Some (Inr t')
                      | Some p \<Rightarrow> avl_remove_loop t' p which_child')))"

text \<open>Swap a node that has two children with its neighbour in the taller subtree.\<close>

definition avl_remove_swap :: "avl_tree \<Rightarrow> addr \<Rightarrow> avl_tree res" where
  "avl_remove_swap t delete =
     (let old_balance = AVL_XBALANCE t delete;
          left = avl_balance2child (old_balance + 1);
          right = (\<not> left)
      in rbind (deref (node_child t delete left)) (\<lambda>c.
         rbind (of_loop (avl_descend t right c)) (\<lambda>node.
         let t = set_node avl_tmp (avl_mem t node) t;
             t = set_node node (avl_mem t delete) t;
             t = (if node_child t node left = Some node
                  then set_child node left (Some avl_tmp) t else t);
             t = relink (AVL_XPARENT t node) (AVL_XCHILD t node) node t
         in rbind (deref (node_child t node left)) (\<lambda>cl.
            let t = AVL_SETPARENT cl (Some node) t
            in rbind (deref (node_child t node right)) (\<lambda>cr.
            let t = AVL_SETPARENT cr (Some node) t
            in rbind (deref (AVL_XPARENT t avl_tmp)) (\<lambda>parent.
            let t = set_child parent (AVL_XCHILD t avl_tmp) (Some avl_tmp) t;
                which_child = (node_child t avl_tmp True \<noteq> None)
            in Inr (case node_child t avl_tmp which_child of
                      None \<Rightarrow> t
                    | Some k \<Rightarrow> AVL_SETPARENT k (Some avl_tmp) t)))))))"

definition avl_remove :: "avl_tree \<Rightarrow> addr \<Rightarrow> avl_tree res" where
  "avl_remove t data =
     rbind (if node_child t data False \<noteq> None \<and> node_child t data True \<noteq> None
            then rbind (avl_remove_swap t data) (\<lambda>t. Inr (t, avl_tmp))
            else Inr (t, data))
     (\<lambda>(t, delete).
       ASSERT (avl_numnodes_of t > 0)
         (let t = t\<lparr>avl_numnodes_of := avl_numnodes_of t - 1\<rparr>;
              parent = AVL_XPARENT t delete;
              which_child = AVL_XCHILD t delete;
              node = (if node_child t delete False \<noteq> None then node_child t delete False
                      else node_child t delete True);
              t = (case node of
                     None \<Rightarrow> t
                   | Some n \<Rightarrow> AVL_SETCHILD n which_child (AVL_SETPARENT n parent t))
          in case parent of
               None \<Rightarrow> Inr (t\<lparr>avl_root := node\<rparr>)
             | Some p \<Rightarrow>
                 rbind (of_loop (avl_remove_loop (set_child p which_child node t) p which_child))
                   id))"

section \<open>Re-sorting, creation and bookkeeping\<close>

definition AVL_REINSERT :: "(addr \<Rightarrow> int) \<Rightarrow> avl_tree \<Rightarrow> addr \<Rightarrow> avl_tree res" where
  "AVL_REINSERT compar t obj = rbind (avl_remove t obj) (\<lambda>t. avl_add compar t obj)"

definition avl_update_lt :: "(addr \<Rightarrow> int) \<Rightarrow> avl_tree \<Rightarrow> addr \<Rightarrow> (avl_tree \<times> bool) res" where
  "avl_update_lt compar t obj =
     rbind (AVL_NEXT t obj) (\<lambda>nx.
     ASSERT (case nx of None \<Rightarrow> True | Some neighbor \<Rightarrow> compar neighbor \<le> 0)
     (rbind (AVL_PREV t obj) (\<lambda>neighbor.
        if (case neighbor of None \<Rightarrow> False | Some n \<Rightarrow> compar n < 0)
        then rbind (AVL_REINSERT compar t obj) (\<lambda>t. Inr (t, True))
        else Inr (t, False))))"

definition avl_update_gt :: "(addr \<Rightarrow> int) \<Rightarrow> avl_tree \<Rightarrow> addr \<Rightarrow> (avl_tree \<times> bool) res" where
  "avl_update_gt compar t obj =
     rbind (AVL_PREV t obj) (\<lambda>pv.
     ASSERT (case pv of None \<Rightarrow> True | Some neighbor \<Rightarrow> compar neighbor \<ge> 0)
     (rbind (AVL_NEXT t obj) (\<lambda>neighbor.
        if (case neighbor of None \<Rightarrow> False | Some n \<Rightarrow> compar n > 0)
        then rbind (AVL_REINSERT compar t obj) (\<lambda>t. Inr (t, True))
        else Inr (t, False))))"

definition avl_update :: "(addr \<Rightarrow> int) \<Rightarrow> avl_tree \<Rightarrow> addr \<Rightarrow> (avl_tree \<times> bool) res" where
  "avl_update compar t obj =
     rbind (AVL_PREV t obj) (\<lambda>neighbor.
       if (case neighbor of None \<Rightarrow> False | Some n \<Rightarrow> compar n < 0)
       then rbind (AVL_REINSERT compar t obj) (\<lambda>t. Inr (t, True))
       else rbind (AVL_NEXT t obj) (\<lambda>neighbor.
         if (case neighbor of None \<Rightarrow> False | Some n \<Rightarrow> compar n > 0)
         then rbind (AVL_REINSERT compar t obj) (\<lambda>t. Inr (t, True))
         else Inr (t, False)))"

definition avl_create :: "(addr \<Rightarrow> avl_node) \<Rightarrow> avl_tree" where
  "avl_create mem = \<lparr>avl_root = None, avl_numnodes_of = 0, avl_mem = mem\<rparr>"

definition avl_destroy :: "avl_tree \<Rightarrow> unit res" where
  "avl_destroy t = ASSERT (avl_numnodes_of t = 0) (ASSERT (avl_root t = None) (Inr ()))"

definition avl_numnodes :: "avl_tree \<Rightarrow> nat" where
  "avl_numnodes t = avl_numnodes_of t"

definition avl_is_empty :: "avl_tree \<Rightarrow> bool" where
  "avl_is_empty t = (avl_numnodes_of t = 0)"

section \<open>Post-order destruction\<close>

text \<open>
  The cookie is NULL before the first call; otherwise it holds the parent of the node
  returned last and which child that was (\<open>CHILDBIT\<close> alone says that the tree is done).
\<close>

datatype avl_cookie = CookieNull | Cookie "addr option" bool

partial_function (option) avl_leftmost_loop ::
  "avl_tree \<Rightarrow> addr \<Rightarrow> addr option \<Rightarrow> (addr \<times> addr option) option" where
  "avl_leftmost_loop t node parent =
     (case node_child t node False of
        None \<Rightarrow> Some (node, parent)
      | Some c \<Rightarrow> avl_leftmost_loop t c (Some node))"

definition avl_destroy_done ::
  "avl_tree \<Rightarrow> addr \<Rightarrow> addr option \<Rightarrow> (avl_tree \<times> avl_cookie \<times> addr option) res" where
  "avl_destroy_done t node parent =
     (case parent of
        None \<Rightarrow> ASSERT (Some node = avl_root t) (Inr (t, Cookie None True, Some node))
      | Some p \<Rightarrow> Inr (t, Cookie (Some p) (AVL_XCHILD t node), Some node))"

definition avl_check_right_side ::
  "avl_tree \<Rightarrow> addr \<Rightarrow> addr option \<Rightarrow> (avl_tree \<times> avl_cookie \<times> addr option) res" where
  "avl_check_right_side t node parent =
     (case node_child t node True of
        Some c \<Rightarrow>
          ASSERT (AVL_XBALANCE t node = 1)
            (ASSERT (node_child t c False = None \<and> node_child t c True = None)
               (avl_destroy_done t c (Some node)))
      | None \<Rightarrow> ASSERT (AVL_XBALANCE t node \<le> 0) (avl_destroy_done t node parent))"

definition avl_destroy_nodes ::
  "avl_tree \<Rightarrow> avl_cookie \<Rightarrow> (avl_tree \<times> avl_cookie \<times> addr option) res" where
  "avl_destroy_nodes t cookie =
     (case cookie of
        CookieNull \<Rightarrow>
          rbind (avl_first t) (\<lambda>first.
            case first of
              None \<Rightarrow> Inr (t, Cookie None True, None)
            | Some node \<Rightarrow> avl_check_right_side t node (AVL_XPARENT t node))
      | Cookie None child \<Rightarrow>
          if avl_root t \<noteq> None then
            ASSERT (avl_numnodes_of t = 1)
              (Inr (t\<lparr>avl_root := None, avl_numnodes_of := 0\<rparr>, cookie, None))
          else Inr (t, cookie, None)
      | Cookie (Some parent) child \<Rightarrow>
          (let t = set_child parent child None t
           in ASSERT (avl_numnodes_of t > 1)
             (let t = t\<lparr>avl_numnodes_of := avl_numnodes_of t - 1\<rparr>
              in case (if child then None else node_child t parent True) of
                   None \<Rightarrow> avl_destroy_done t parent (AVL_XPARENT t parent)
                 | Some r \<Rightarrow>
                     rbind (of_loop (avl_leftmost_loop t r (Some parent)))
                       (\<lambda>(node, parent). avl_check_right_side t node parent))))"

text \<open>The loops are executable by their defining equations.\<close>

lemmas avl_loop_code [code] =
  avl_descend.simps avl_ascend.simps avl_end_loop.simps avl_find_loop.simps
  avl_insert_loop.simps avl_here_loop.simps avl_remove_loop.simps avl_leftmost_loop.simps

end
