(* ===== verification/Avl_Shape.thy ===== *)
theory Avl_Shape
  imports Avl_Tree
begin

text \<open>
  The abstract side of the AVL refinement: trees as a datatype whose nodes carry an address
  and the stored balance, the path from a node to the root as a list of frames, and the
  rebalancing that \<open>avl_insert\<close> and \<open>avl_remove\<close> perform along such a path. The lemmas show
  that rebalancing keeps the in-order sequence and restores the AVL condition.
\<close>

section \<open>Trees and paths\<close>

datatype atree = ALeaf | ANode atree addr int atree

primrec inorder :: "atree \<Rightarrow> addr list" where
  "inorder ALeaf = []"
| "inorder (ANode l a b r) = inorder l @ a # inorder r"

primrec postorder :: "atree \<Rightarrow> addr list" where
  "postorder ALeaf = []"
| "postorder (ANode l a b r) = postorder l @ postorder r @ [a]"

primrec height :: "atree \<Rightarrow> nat" where
  "height ALeaf = 0"
| "height (ANode l a b r) = Suc (max (height l) (height r))"

text \<open>Every stored balance is the difference of the heights, and between -1 and 1.\<close>

primrec balanced :: "atree \<Rightarrow> bool" where
  "balanced ALeaf \<longleftrightarrow> True"
| "balanced (ANode l a b r) \<longleftrightarrow>
     b = int (height r) - int (height l) \<and> -1 \<le> b \<and> b \<le> 1 \<and> balanced l \<and> balanced r"

text \<open>A node whose child with index \<open>d\<close> is \<open>x\<close> and whose other child is \<open>y\<close>.\<close>

definition mk :: "bool \<Rightarrow> atree \<Rightarrow> addr \<Rightarrow> int \<Rightarrow> atree \<Rightarrow> atree" where
  "mk d x a b y = (if d then ANode y a b x else ANode x a b y)"

text \<open>A frame: the side the path comes from, the node, its balance, the other subtree.\<close>

type_synonym frame = "bool \<times> addr \<times> int \<times> atree"

fun plug :: "frame list \<Rightarrow> atree \<Rightarrow> atree" where
  "plug [] t = t"
| "plug ((d, a, b, s) # c) t = plug c (mk d t a b s)"

fun before :: "frame list \<Rightarrow> addr list" where
  "before [] = []"
| "before ((d, a, b, s) # c) = before c @ (if d then inorder s @ [a] else [])"

fun after :: "frame list \<Rightarrow> addr list" where
  "after [] = []"
| "after ((d, a, b, s) # c) = (if d then [] else a # inorder s) @ after c"

lemma mk_cases: "t = ALeaf \<or> (\<exists>x a b y. t = mk d x a b y)"
  by (cases t; cases d) (auto simp: mk_def)

lemma mk_not_leaf [simp]: "mk d x a b y \<noteq> ALeaf" "ALeaf \<noteq> mk d x a b y"
  by (auto simp: mk_def)

lemma mk_inject [simp]: "mk d x a b y = mk d x' a' b' y' \<longleftrightarrow> x = x' \<and> a = a' \<and> b = b' \<and> y = y'"
  by (auto simp: mk_def)

lemma mk_flip: "mk d x a b y = mk (\<not> d) y a b x"
  by (simp add: mk_def)

lemma height_mk [simp]: "height (mk d x a b y) = Suc (max (height x) (height y))"
  by (auto simp: mk_def)

lemma inorder_mk:
  "inorder (mk d x a b y) = (if d then inorder y @ a # inorder x else inorder x @ a # inorder y)"
  by (simp add: mk_def)

lemma set_inorder_mk [simp]:
  "set (inorder (mk d x a b y)) = insert a (set (inorder x) \<union> set (inorder y))"
  by (auto simp: mk_def)

lemma balanced_mk:
  "balanced (mk d x a b y) \<longleftrightarrow>
     b = avl_child2balance d * (int (height x) - int (height y)) \<and> -1 \<le> b \<and> b \<le> 1
     \<and> balanced x \<and> balanced y"
  by (auto simp: mk_def avl_child2balance_def)

lemma avl_child2balance_simps [simp]:
  "avl_child2balance True = 1" "avl_child2balance False = -1"
  by (simp_all add: avl_child2balance_def)

lemma avl_child2balance_not [simp]: "avl_child2balance (\<not> d) = - avl_child2balance d"
  by (cases d) simp_all

lemma avl_child2balance_nonzero [simp]: "avl_child2balance d \<noteq> 0"
  by (cases d) simp_all

lemma inorder_plug: "inorder (plug c t) = before c @ inorder t @ after c"
  by (induction c t rule: plug.induct) (auto simp: inorder_mk)

lemma plug_append: "plug (c1 @ c2) t = plug c2 (plug c1 t)"
  by (induction c1 t rule: plug.induct) auto

lemma before_append: "before (c1 @ c2) = before c2 @ before c1"
  by (induction c1 rule: before.induct) auto

lemma after_append: "after (c1 @ c2) = after c1 @ after c2"
  by (induction c1 rule: after.induct) auto

lemma balanced_plugD: "balanced (plug c t) \<Longrightarrow> balanced t"
  by (induction c t rule: plug.induct) (auto simp: balanced_mk)

lemma balanced_plug_replace:
  "balanced (plug c t) \<Longrightarrow> balanced t' \<Longrightarrow> height t' = height t \<Longrightarrow> balanced (plug c t')"
  by (induction c t arbitrary: t' rule: plug.induct)
     (auto simp: balanced_mk dest: balanced_plugD)

section \<open>Rotation\<close>

definition side :: "bool \<Rightarrow> atree \<Rightarrow> atree \<Rightarrow> atree" where
  "side d l r = (if d then r else l)"

text \<open>
  \<open>rot d x a y\<close> rotates at node \<open>a\<close>, whose child \<open>x\<close> on side \<open>d\<close> is two levels taller than its
  other child \<open>y\<close>; the flag says that the subtree lost a level.
\<close>

definition rot :: "bool \<Rightarrow> atree \<Rightarrow> addr \<Rightarrow> atree \<Rightarrow> atree \<times> bool" where
  "rot d x a y =
     (case x of
        ALeaf \<Rightarrow> (ALeaf, False)
      | ANode xl c cb xr \<Rightarrow>
          let outer = side d xl xr; inner = side (\<not> d) xl xr; h = avl_child2balance d
          in if cb \<noteq> - h then
               (mk d outer c (cb - h) (mk d inner a (- (cb - h)) y), cb - h = 0)
             else
               (case inner of
                  ALeaf \<Rightarrow> (ALeaf, False)
                | ANode il g gb ir \<Rightarrow>
                    (mk d (mk d outer c (if gb = - h then h else 0) (side d il ir)) g 0
                          (mk d (side (\<not> d) il ir) a (if gb = h then - h else 0) y), True)))"

lemma rot_single:
  "cb \<noteq> - avl_child2balance d \<Longrightarrow>
   rot d (mk d u c cb v) a y =
     (mk d u c (cb - avl_child2balance d) (mk d v a (- (cb - avl_child2balance d)) y),
      cb = avl_child2balance d)"
  by (auto simp: rot_def mk_def side_def Let_def)

lemma rot_double:
  "cb = - avl_child2balance d \<Longrightarrow>
   rot d (mk d u c cb (mk d gl g gb gr)) a y =
     (mk d (mk d u c (if gb = - avl_child2balance d then avl_child2balance d else 0) gl) g 0
           (mk d gr a (if gb = avl_child2balance d then - avl_child2balance d else 0) y), True)"
  by (auto simp: rot_def mk_def side_def Let_def)

text \<open>The shapes on which a rotation is defined.\<close>

definition rotatable :: "bool \<Rightarrow> atree \<Rightarrow> bool" where
  "rotatable d x \<longleftrightarrow>
     (\<exists>u c cb v. x = mk d u c cb v \<and> (cb = - avl_child2balance d \<longrightarrow> v \<noteq> ALeaf))"

lemma rotatable_cases [consumes 1, case_names single double]:
  assumes "rotatable d x"
  obtains (single) u c cb v where "x = mk d u c cb v" "cb \<noteq> - avl_child2balance d"
    | (double) u c gl g gb gr
      where "x = mk d u c (- avl_child2balance d) (mk d gl g gb gr)"
  using assms mk_cases[where d = d] unfolding rotatable_def by metis

lemma rotatable_balanced:
  assumes "balanced x" "0 < height x"
  shows "rotatable d x"
proof -
  obtain u c cb v where x: "x = mk d u c cb v"
    using mk_cases[of x d] assms(2) by auto
  have "cb = - avl_child2balance d \<longrightarrow> v \<noteq> ALeaf"
    using assms(1) unfolding x by (cases d) (auto simp: balanced_mk)
  with x show ?thesis unfolding rotatable_def by blast
qed

lemma inorder_rot: "rotatable d x \<Longrightarrow> inorder (fst (rot d x a y)) = inorder (mk d x a b y)"
  by (cases rule: rotatable_cases) (auto simp: rot_single rot_double inorder_mk)

lemma balanced_rot:
  assumes "balanced x" "balanced y" "height x = height y + 2"
  shows "balanced (fst (rot d x a y))"
    and "height (fst (rot d x a y)) = (if snd (rot d x a y) then height x else Suc (height x))"
    and "snd (rot d x a y) \<longleftrightarrow> \<not> (\<exists>u c v. x = mk d u c 0 v)"
proof -
  have "rotatable d x" using assms by (intro rotatable_balanced) auto
  then have "balanced (fst (rot d x a y))
     \<and> height (fst (rot d x a y)) = (if snd (rot d x a y) then height x else Suc (height x))
     \<and> (snd (rot d x a y) \<longleftrightarrow> \<not> (\<exists>u c v. x = mk d u c 0 v))"
    using assms
    by (cases rule: rotatable_cases; cases d)
       (auto simp: rot_single rot_double balanced_mk max_def split: if_splits)
  then show "balanced (fst (rot d x a y))"
    and "height (fst (rot d x a y)) = (if snd (rot d x a y) then height x else Suc (height x))"
    and "snd (rot d x a y) \<longleftrightarrow> \<not> (\<exists>u c v. x = mk d u c 0 v)" by auto
qed

section \<open>Rebalancing after insertion and removal\<close>

fun ins_fix :: "frame list \<Rightarrow> atree \<Rightarrow> atree" where
  "ins_fix [] t = t"
| "ins_fix ((d, a, b, s) # c) t =
     (let nb = b + avl_child2balance d
      in if nb = 0 then plug c (mk d t a 0 s)
         else if b \<noteq> 0 then plug c (fst (rot d t a s))
         else ins_fix c (mk d t a nb s))"

fun del_fix :: "frame list \<Rightarrow> atree \<Rightarrow> atree" where
  "del_fix [] t = t"
| "del_fix ((d, a, b, s) # c) t =
     (let nb = b - avl_child2balance d
      in if b = 0 then plug c (mk d t a nb s)
         else if nb = 0 then del_fix c (mk d t a 0 s)
         else if snd (rot (\<not> d) s a t) then del_fix c (fst (rot (\<not> d) s a t))
         else plug c (fst (rot (\<not> d) s a t)))"

text \<open>The subtree that grew: a new leaf, or one whose root leans to a side.\<close>

definition grown :: "atree \<Rightarrow> bool" where
  "grown t \<longleftrightarrow> height t = 1 \<or> (\<forall>l a r. t \<noteq> ANode l a 0 r)"

lemma grown_mk: "grown (mk d x a b y) \<longleftrightarrow> x = ALeaf \<and> y = ALeaf \<or> b \<noteq> 0"
  by (cases x; cases y) (auto simp: grown_def mk_def)

lemma ins_fix_balanced:
  assumes "balanced (plug c t)" "balanced t'" "height t' = Suc (height t)" "grown t'"
  shows "balanced (ins_fix c t')"
  using assms
proof (induction c t' arbitrary: t rule: ins_fix.induct)
  case (1 t')
  then show ?case by simp
next
  case (2 d a b s c t')
  have node: "balanced (mk d t a b s)"
    using "2.prems"(1) balanced_plugD by fastforce
  let ?nb = "b + avl_child2balance d"
  consider (level) "?nb = 0" | (rotate) "?nb \<noteq> 0" "b \<noteq> 0" | (up) "b = 0"
    by blast
  then show ?case
  proof cases
    case level
    have "balanced (mk d t' a 0 s)" "height (mk d t' a 0 s) = height (mk d t a b s)"
      using node level "2.prems" by (cases d; auto simp: balanced_mk)+
    then show ?thesis
      using level "2.prems"(1) balanced_plug_replace by (fastforce simp: Let_def)
  next
    case rotate
    have h: "height t' = height s + 2" "balanced s"
      using node rotate "2.prems" by (cases d; auto simp: balanced_mk)+
    have "\<not> (\<exists>u c v. t' = mk d u c 0 v)"
      using "2.prems"(2,4) h by (auto simp: grown_mk)
    then have "snd (rot d t' a s)"
      using balanced_rot(3)[OF "2.prems"(2) h(2,1)] by simp
    moreover have "height (mk d t a b s) = height t'"
      using node rotate "2.prems" by (cases d; auto simp: balanced_mk)
    ultimately have "height (fst (rot d t' a s)) = height (mk d t a b s)"
      using balanced_rot(2)[OF "2.prems"(2) h(2,1)] by simp
    then show ?thesis
      using rotate "2.prems"(1) balanced_rot(1)[OF "2.prems"(2) h(2,1)] balanced_plug_replace
      by (fastforce simp: Let_def)
  next
    case up
    have "balanced (mk d t' a ?nb s)" "height (mk d t' a ?nb s) = Suc (height (mk d t a b s))"
      "grown (mk d t' a ?nb s)"
      using node up "2.prems" by (cases d; auto simp: balanced_mk grown_mk)+
    then show ?thesis
      using up "2.IH"[of ?nb "mk d t a b s"] "2.prems"(1) by (simp add: Let_def)
  qed
qed

lemma ins_fix_inorder:
  assumes "balanced (plug c t)" "balanced t'" "height t' = Suc (height t)"
  shows "inorder (ins_fix c t') = inorder (plug c t')"
  using assms
proof (induction c t' arbitrary: t rule: ins_fix.induct)
  case (1 t')
  then show ?case by simp
next
  case (2 d a b s c t')
  have node: "balanced (mk d t a b s)"
    using "2.prems"(1) balanced_plugD by fastforce
  have "inorder (fst (rot d t' a s)) = inorder (mk d t' a b s)"
    using "2.prems" by (intro inorder_rot rotatable_balanced) auto
  moreover have "b = 0 \<Longrightarrow> balanced (mk d t' a (avl_child2balance d) s)
      \<and> height (mk d t' a (avl_child2balance d) s) = Suc (height (mk d t a b s))"
    using node "2.prems" by (cases d) (auto simp: balanced_mk)
  ultimately show ?case
    using "2.IH"[of "b + avl_child2balance d" "mk d t a b s"] "2.prems"(1)
    by (cases "b = 0") (auto simp: Let_def inorder_plug inorder_mk)
qed

lemma del_fix_props:
  assumes "balanced (plug c t)" "balanced t'" "height t = Suc (height t')"
  shows "balanced (del_fix c t') \<and> inorder (del_fix c t') = inorder (plug c t')"
  using assms
proof (induction c t' arbitrary: t rule: del_fix.induct)
  case (1 t')
  then show ?case by simp
next
  case (2 d a b s c t')
  have node: "balanced (mk d t a b s)"
    using "2.prems"(1) balanced_plugD by fastforce
  let ?nb = "b - avl_child2balance d"
  let ?r = "rot (\<not> d) s a t'"
  consider (stop) "b = 0" | (shrink) "b \<noteq> 0" "?nb = 0" | (rotate) "b \<noteq> 0" "?nb \<noteq> 0"
    by blast
  then show ?case
  proof cases
    case stop
    have "balanced (mk d t' a ?nb s)" "height (mk d t' a ?nb s) = height (mk d t a b s)"
      using node stop "2.prems" by (cases d; auto simp: balanced_mk)+
    then show ?thesis
      using stop "2.prems"(1) balanced_plug_replace
      by (fastforce simp: Let_def inorder_plug inorder_mk)
  next
    case shrink
    have "balanced (mk d t' a 0 s)" "height (mk d t a b s) = Suc (height (mk d t' a 0 s))"
      using node shrink "2.prems" by (cases d; auto simp: balanced_mk)+
    then show ?thesis
      using shrink "2.IH"(1)[of ?nb "mk d t a b s"] "2.prems"(1)
      by (simp add: Let_def inorder_plug inorder_mk)
  next
    case rotate
    have h: "height s = height t' + 2" "balanced s"
      using node rotate "2.prems" by (cases d; auto simp: balanced_mk)+
    note r = balanced_rot[OF h(2) "2.prems"(2) h(1), of "\<not> d" a]
    have old: "height (mk d t a b s) = Suc (height s)"
      using h "2.prems"(3) by simp
    have io: "inorder (fst ?r) = inorder (mk d t' a b s)"
      using h inorder_rot[of "\<not> d" s a t' b] mk_flip[of d t' a b s]
      by (simp add: rotatable_balanced)
    show ?thesis
    proof (cases "snd ?r")
      case True
      then show ?thesis
        using rotate r old io "2.IH"(2)[of ?nb "mk d t a b s"] "2.prems"(1)
        by (simp add: Let_def inorder_plug)
    next
      case False
      then show ?thesis
        using rotate r old io "2.prems"(1) balanced_plug_replace[of c "mk d t a b s" "fst ?r"]
        by (simp add: Let_def inorder_plug inorder_mk)
    qed
  qed
qed

end
