(* ===== verification/Avl_Refine.thy ===== *)
theory Avl_Refine
  imports Avl_Shape
begin

text \<open>
  The pointer code of \<open>Avl_Tree\<close> refines the trees of \<open>Avl_Shape\<close>.
\<close>

section \<open>Memory represents a tree\<close>

primrec rep :: "(addr \<Rightarrow> avl_node) \<Rightarrow> addr option \<Rightarrow> addr option \<Rightarrow> bool \<Rightarrow> atree \<Rightarrow> bool" where
  "rep m p par ci ALeaf \<longleftrightarrow> p = None"
| "rep m p par ci (ANode l a b r) \<longleftrightarrow>
     p = Some a \<and> avl_parent (m a) = par \<and> avl_child_index (m a) = ci \<and> avl_balance (m a) = b
     \<and> rep m (avl_child (m a) False) (Some a) False l
     \<and> rep m (avl_child (m a) True) (Some a) True r"

type_synonym slot = "addr option \<times> addr option \<times> bool"

fun ctxrep :: "(addr \<Rightarrow> avl_node) \<Rightarrow> frame list \<Rightarrow> slot \<Rightarrow> slot \<Rightarrow> bool" where
  "ctxrep m [] x out \<longleftrightarrow> x = out"
| "ctxrep m ((d, a, b, s) # c) (p, par, ci) out \<longleftrightarrow>
     par = Some a \<and> ci = d \<and> avl_child (m a) d = p \<and> avl_balance (m a) = b
     \<and> rep m (avl_child (m a) (\<not> d)) (Some a) (\<not> d) s
     \<and> ctxrep m c (Some a, avl_parent (m a), avl_child_index (m a)) out"

definition tree_rep :: "avl_tree \<Rightarrow> atree \<Rightarrow> bool" where
  "tree_rep t T \<longleftrightarrow> (\<exists>ci. rep (avl_mem t) (avl_root t) None ci T)"

text \<open>The memory at a node in the middle of a tree: the path above it and the subtree at it.\<close>

definition focus ::
  "avl_tree \<Rightarrow> frame list \<Rightarrow> addr option \<Rightarrow> addr option \<Rightarrow> bool \<Rightarrow> atree \<Rightarrow> bool" where
  "focus t c p par ci T \<longleftrightarrow>
     (\<exists>ci0. ctxrep (avl_mem t) c (p, par, ci) (avl_root t, None, ci0))
     \<and> rep (avl_mem t) p par ci T"

definition ctxaddrs :: "frame list \<Rightarrow> addr set" where
  "ctxaddrs c = set (before c) \<union> set (after c)"

lemma ctxaddrs_simps [simp]:
  "ctxaddrs [] = {}"
  "ctxaddrs ((d, a, b, s) # c) = insert a (set (inorder s) \<union> ctxaddrs c)"
  by (auto simp: ctxaddrs_def)

lemma ctxaddrs_append [simp]: "ctxaddrs (c1 @ c2) = ctxaddrs c1 \<union> ctxaddrs c2"
  by (auto simp: ctxaddrs_def before_append after_append)

lemma set_inorder_plug [simp]: "set (inorder (plug c t)) = ctxaddrs c \<union> set (inorder t)"
  by (auto simp: inorder_plug ctxaddrs_def)

text \<open>No address occurs twice on a path or below it.\<close>

primrec dist :: "atree \<Rightarrow> bool" where
  "dist ALeaf \<longleftrightarrow> True"
| "dist (ANode l a b r) \<longleftrightarrow> a \<notin> set (inorder l) \<and> a \<notin> set (inorder r)
     \<and> set (inorder l) \<inter> set (inorder r) = {} \<and> dist l \<and> dist r"

fun cdist :: "frame list \<Rightarrow> bool" where
  "cdist [] \<longleftrightarrow> True"
| "cdist ((d, a, b, s) # c) \<longleftrightarrow> a \<notin> set (inorder s) \<and> a \<notin> ctxaddrs c
     \<and> set (inorder s) \<inter> ctxaddrs c = {} \<and> dist s \<and> cdist c"

lemma dist_iff: "dist t \<longleftrightarrow> distinct (inorder t)"
  by (induction t) auto

lemma dist_mk [simp]: "dist (mk d x a b y) \<longleftrightarrow> a \<notin> set (inorder x) \<and> a \<notin> set (inorder y)
     \<and> set (inorder x) \<inter> set (inorder y) = {} \<and> dist x \<and> dist y"
  by (auto simp: mk_def)

lemma dist_plug [simp]:
  "dist (plug c t) \<longleftrightarrow> dist t \<and> cdist c \<and> set (inorder t) \<inter> ctxaddrs c = {}"
  by (induction c t rule: plug.induct) auto

lemma rep_mk: "rep m p par ci (mk d x a b y) \<longleftrightarrow>
     p = Some a \<and> avl_parent (m a) = par \<and> avl_child_index (m a) = ci \<and> avl_balance (m a) = b
     \<and> rep m (avl_child (m a) d) (Some a) d x
     \<and> rep m (avl_child (m a) (\<not> d)) (Some a) (\<not> d) y"
  by (cases d) (auto simp: mk_def)

lemma rep_root: "rep m p par ci t \<Longrightarrow> p = None \<longleftrightarrow> t = ALeaf"
  by (cases t) auto

lemma rep_frame: "(\<And>a. a \<in> set (inorder t) \<Longrightarrow> m' a = m a) \<Longrightarrow>
    rep m' p par ci t = rep m p par ci t"
  by (induction t arbitrary: p par ci) auto

lemma rep_upd [simp]: "a \<notin> set (inorder t) \<Longrightarrow> rep (m(a := n)) p par ci t = rep m p par ci t"
  by (rule rep_frame) auto

lemma ctxrep_frame: "(\<And>a. a \<in> ctxaddrs c \<Longrightarrow> m' a = m a) \<Longrightarrow>
    ctxrep m' c x out = ctxrep m c x out"
proof (induction m c x out rule: ctxrep.induct)
  case (2 m d a b s c p par ci out)
  have "rep m' q r i s = rep m q r i s" for q r i
    using "2.prems" by (intro rep_frame) auto
  with 2 show ?case by auto
qed simp

lemma ctxrep_upd [simp]: "a \<notin> ctxaddrs c \<Longrightarrow> ctxrep (m(a := n)) c x out = ctxrep m c x out"
  by (rule ctxrep_frame) auto

lemma ctxrep_append:
  "ctxrep m (c1 @ c2) x out \<longleftrightarrow> (\<exists>y. ctxrep m c1 x y \<and> ctxrep m c2 y out)"
proof (induction c1 arbitrary: x)
  case Nil
  then show ?case by auto
next
  case (Cons f c1)
  then show ?case by (cases f; cases x) auto
qed

lemma rep_plug:
  "rep m p par ci (plug c t) \<longleftrightarrow>
     (\<exists>p' par' ci'. ctxrep m c (p', par', ci') (p, par, ci) \<and> rep m p' par' ci' t)"
proof (induction c t rule: plug.induct)
  case (2 d a b s c t)
  show ?case unfolding plug.simps "2.IH" by (fastforce simp: rep_mk)
qed auto

lemma tree_rep_focus: "tree_rep t (plug c T) \<longleftrightarrow> (\<exists>p par ci. focus t c p par ci T)"
  unfolding tree_rep_def focus_def rep_plug by blast

text \<open>Storing a new parent and child index in the root of a subtree moves the subtree.\<close>

definition moved :: "(addr \<Rightarrow> avl_node) \<Rightarrow> addr option \<Rightarrow> addr option \<Rightarrow> bool \<Rightarrow> addr \<Rightarrow> avl_node" where
  "moved m p par ci =
     (case p of None \<Rightarrow> m
      | Some k \<Rightarrow> m(k := (m k)\<lparr>avl_parent := par, avl_child_index := ci\<rparr>))"

lemma rep_moved:
  "rep m p par ci t \<Longrightarrow> dist t \<Longrightarrow> rep (moved m p par' ci') p par' ci' t"
  by (cases t) (auto simp: moved_def)

lemma moved_other: "rep m p par ci t \<Longrightarrow> a \<notin> set (inorder t) \<Longrightarrow> moved m p par' ci' a = m a"
  by (cases t) (auto simp: moved_def)

lemma rep_moved_other:
  "rep m p par ci t \<Longrightarrow> set (inorder t) \<inter> set (inorder s) = {} \<Longrightarrow>
   rep (moved m p par' ci') q qpar qci s = rep m q qpar qci s"
  by (rule rep_frame) (auto intro: moved_other)

lemma ctxrep_moved_other:
  "rep m p par ci t \<Longrightarrow> set (inorder t) \<inter> ctxaddrs c = {} \<Longrightarrow>
   ctxrep (moved m p par' ci') c x out = ctxrep m c x out"
  by (rule ctxrep_frame) (auto intro: moved_other)

lemmas avl_access =
  node_child_def AVL_XPARENT_def AVL_XCHILD_def AVL_XBALANCE_def set_node_def set_child_def
  AVL_SETPARENT_def AVL_SETCHILD_def AVL_SETBALANCE_def

lemma adopt_mem [simp]:
  "avl_mem (adopt p n i t) = moved (avl_mem t) p (Some n) i"
  "avl_root (adopt p n i t) = avl_root t"
  "avl_numnodes_of (adopt p n i t) = avl_numnodes_of t"
  by (auto simp: adopt_def moved_def avl_access split: option.split)

lemma relink_simps [simp]:
  "avl_numnodes_of (relink p i n t) = avl_numnodes_of t"
  by (auto simp: relink_def avl_access split: option.split)

lemma relink_mem_other: "p \<noteq> Some a \<Longrightarrow> avl_mem (relink p i n t) a = avl_mem t a"
  by (auto simp: relink_def avl_access split: option.split)

lemma relink_ctx:
  assumes "ctxrep (avl_mem t) c (p, par, ci) (avl_root t, None, ci0)" "cdist c"
  shows "ctxrep (avl_mem (relink par ci n t)) c (Some n, par, ci) (avl_root (relink par ci n t), None, ci0)"
  using assms
  by (cases c) (auto simp: relink_def avl_access)

lemma relink_rep:
  assumes "ctxrep (avl_mem t) c (p, par, ci) (avl_root t, None, ci0)" "ctxaddrs c \<inter> set (inorder T) = {}"
  shows "rep (avl_mem (relink par ci n t)) q qpar qci T = rep (avl_mem t) q qpar qci T"
proof (rule rep_frame)
  fix a assume "a \<in> set (inorder T)"
  then have "par \<noteq> Some a"
    using assms by (cases c) auto
  then show "avl_mem (relink par ci n t) a = avl_mem t a"
    by (rule relink_mem_other)
qed

lemma relink_focus:
  assumes "ctxrep (avl_mem t) c (p, par, ci) (avl_root t, None, ci0)" "cdist c"
    and "rep (avl_mem t) (Some n) par ci T" "set (inorder T) \<inter> ctxaddrs c = {}"
  shows "focus (relink par ci n t) c (Some n) par ci T"
proof -
  have "rep (avl_mem (relink par ci n t)) (Some n) par ci T"
    using relink_rep[OF assms(1), of T] assms(3,4) by (simp add: Int_commute)
  with relink_ctx[OF assms(1,2)] show ?thesis
    unfolding focus_def by blast
qed

section \<open>Rotation\<close>

lemma avl_rotation_single:
  assumes foc: "focus t c (Some node) par ci (mk d (mk d u child cb v) node nb y)"
    and dist: "dist (plug c (mk d (mk d u child cb v) node nb y))"
    and cb: "cb \<noteq> - avl_child2balance d"
    and bal: "balance = 2 * avl_child2balance d"
  shows "\<exists>t'. avl_rotation t node balance = Inr (t', snd (rot d (mk d u child cb v) node y))
     \<and> avl_numnodes_of t' = avl_numnodes_of t
     \<and> focus t' c (Some child) par ci (fst (rot d (mk d u child cb v) node y))"
proof -
  have "left = d" if "left = (\<not> balance < 0)" for left
    using bal that by (cases d) auto
  then have left: "(\<not> balance < 0) = d" by simp
  have heavy: "balance div 2 = avl_child2balance d"
    using bal by simp
  let ?m = "avl_mem t" and ?h = "avl_child2balance d"
  let ?cr = "avl_child (?m child) (\<not> d)"
  obtain ci0 where ctx: "ctxrep ?m c (Some node, par, ci) (avl_root t, None, ci0)"
    and r: "rep ?m (Some node) par ci (mk d (mk d u child cb v) node nb y)"
    using foc by (auto simp: focus_def)
  from r have n: "avl_parent (?m node) = par" "avl_child_index (?m node) = ci"
      "avl_child (?m node) d = Some child" "avl_balance (?m child) = cb"
      "rep ?m (avl_child (?m child) d) (Some child) d u"
      "rep ?m ?cr (Some child) (\<not> d) v"
      "rep ?m (avl_child (?m node) (\<not> d)) (Some node) (\<not> d) y"
    by (auto simp: rep_mk)
  from dist have d: "node \<noteq> child" "node \<notin> set (inorder v)" "child \<notin> set (inorder v)"
      "dist v" "cdist c"
      "set (inorder v) \<inter> set (inorder u) = {}" "set (inorder v) \<inter> set (inorder y) = {}"
      "set (inorder v) \<inter> ctxaddrs c = {}" "node \<notin> ctxaddrs c" "child \<notin> ctxaddrs c"
      "node \<notin> set (inorder u)" "node \<notin> set (inorder y)"
      "child \<notin> set (inorder u)" "child \<notin> set (inorder y)"
    by auto
  define t1 where "t1 = t\<lparr>avl_mem := (moved ?m ?cr (Some node) d)
      (node := (?m node)\<lparr>avl_child := (avl_child (?m node))(d := ?cr), avl_balance := - (cb - ?h),
                         avl_child_index := (\<not> d), avl_parent := Some child\<rparr>,
       child := (?m child)\<lparr>avl_child := (avl_child (?m child))((\<not> d) := Some node),
                         avl_balance := cb - ?h, avl_child_index := ci, avl_parent := par\<rparr>)\<rparr>"
  have ncr: "?cr \<noteq> Some node" "?cr \<noteq> Some child"
    using n(6) d(2,3) by (cases v; auto)+
  have rot: "avl_rotation t node balance = Inr (relink par ci child t1, cb - ?h = 0)"
    using n cb ncr d(1) unfolding avl_rotation_def left heavy t1_def
    by (auto simp: Let_def avl_access adopt_def moved_def split: option.split)
  let ?T = "mk d u child (cb - ?h) (mk d v node (- (cb - ?h)) y)"
  have r1: "rep (avl_mem t1) (Some child) par ci ?T"
    using n d rep_moved[OF n(6) d(4)] rep_moved_other[OF n(6) d(6)] rep_moved_other[OF n(6) d(7)]
    by (simp add: t1_def rep_mk)
  have c1: "ctxrep (avl_mem t1) c (Some node, par, ci) (avl_root t1, None, ci0)"
    using ctx d ctxrep_moved_other[OF n(6) d(8)] by (simp add: t1_def)
  have "focus (relink par ci child t1) c (Some child) par ci ?T"
    by (rule relink_focus[OF c1 d(5) r1]) (use dist in auto)
  then show ?thesis
    using rot cb by (auto simp: rot_single t1_def)
qed

lemma avl_rotation_double:
  assumes foc: "focus t c (Some node) par ci
      (mk d (mk d u child cb (mk d gl g gb gr)) node nb y)"
    and dist: "dist (plug c (mk d (mk d u child cb (mk d gl g gb gr)) node nb y))"
    and cb: "cb = - avl_child2balance d"
    and bal: "balance = 2 * avl_child2balance d"
  shows "\<exists>t'. avl_rotation t node balance
           = Inr (t', snd (rot d (mk d u child cb (mk d gl g gb gr)) node y))
     \<and> avl_numnodes_of t' = avl_numnodes_of t
     \<and> focus t' c (Some g) par ci (fst (rot d (mk d u child cb (mk d gl g gb gr)) node y))"
proof -
  have left: "(\<not> balance < 0) = d" using bal by (cases d) auto
  have heavy: "balance div 2 = avl_child2balance d" using bal by simp
  let ?m = "avl_mem t" and ?h = "avl_child2balance d"
  let ?L = "avl_child (?m g) d" and ?R = "avl_child (?m g) (\<not> d)"
  obtain ci0 where ctx: "ctxrep ?m c (Some node, par, ci) (avl_root t, None, ci0)"
    and r: "rep ?m (Some node) par ci (mk d (mk d u child cb (mk d gl g gb gr)) node nb y)"
    using foc by (auto simp: focus_def)
  from r have n: "avl_parent (?m node) = par" "avl_child_index (?m node) = ci"
      "avl_child (?m node) d = Some child" "avl_balance (?m child) = cb"
      "avl_child (?m child) (\<not> d) = Some g" "avl_balance (?m g) = gb"
      "rep ?m (avl_child (?m child) d) (Some child) d u"
      "rep ?m (avl_child (?m node) (\<not> d)) (Some node) (\<not> d) y"
      and gl: "rep ?m ?L (Some g) d gl" and gr: "rep ?m ?R (Some g) (\<not> d) gr"
    by (auto simp: rep_mk)
  from dist have d: "node \<noteq> child" "node \<noteq> g" "child \<noteq> g"
      "{node, child, g} \<inter> (set (inorder gl) \<union> set (inorder gr) \<union> set (inorder u)
          \<union> set (inorder y) \<union> ctxaddrs c) = {}"
      "dist gl" "dist gr" "cdist c" "set (inorder gr) \<inter> set (inorder gl) = {}"
      "set (inorder gl) \<inter> set (inorder u) = {}" "set (inorder gl) \<inter> set (inorder y) = {}"
      "set (inorder gr) \<inter> set (inorder u) = {}" "set (inorder gr) \<inter> set (inorder y) = {}"
      "set (inorder gl) \<inter> ctxaddrs c = {}" "set (inorder gr) \<inter> ctxaddrs c = {}"
    by auto
  define m1 where "m1 = moved ?m ?R (Some node) d"
  define m2 where "m2 = moved m1 ?L (Some child) (\<not> d)"
  have gl1: "rep m1 ?L (Some g) d gl"
    using gl gr d(8) by (simp add: m1_def rep_moved_other)
  have other: "rep m2 q qpar qci T = rep ?m q qpar qci T"
    if "set (inorder gl) \<inter> set (inorder T) = {}" "set (inorder gr) \<inter> set (inorder T) = {}"
    for q qpar qci T
    using that gl1 gr by (simp add: m2_def m1_def rep_moved_other)
  have ctx2: "ctxrep m2 c x out = ctxrep ?m c x out" for x out
    using gl1 gr d(13,14) by (simp add: m2_def m1_def ctxrep_moved_other)
  have L2: "rep m2 ?L (Some child) (\<not> d) gl"
    using rep_moved[OF gl1 d(5)] by (simp add: m2_def)
  have R2: "rep m2 ?R (Some node) d gr"
    using rep_moved[OF gr d(6)] gl1 d(8) by (simp add: m2_def m1_def rep_moved_other Int_commute)
  define t1 where "t1 = t\<lparr>avl_mem := m2
      (child := (?m child)\<lparr>avl_child := (avl_child (?m child))((\<not> d) := ?L),
                 avl_balance := (if gb = - ?h then ?h else 0),
                 avl_parent := Some g, avl_child_index := d\<rparr>,
       node := (?m node)\<lparr>avl_child := (avl_child (?m node))(d := ?R),
                 avl_balance := (if gb = ?h then - ?h else 0),
                 avl_parent := Some g, avl_child_index := (\<not> d)\<rparr>,
       g := (?m g)\<lparr>avl_child := (avl_child (?m g))(d := Some child, (\<not> d) := Some node),
                 avl_balance := 0, avl_parent := par, avl_child_index := ci\<rparr>)\<rparr>"
  have nLR: "?L \<noteq> Some node" "?L \<noteq> Some child" "?L \<noteq> Some g"
      "?R \<noteq> Some node" "?R \<noteq> Some child" "?R \<noteq> Some g" "?L \<noteq> ?R \<or> ?L = None"
    using gl gr d(4,8) by (cases gl; cases gr; auto)+
  have rot: "avl_rotation t node balance = Inr (relink par ci g t1, True)"
    unfolding avl_rotation_def left heavy t1_def m2_def m1_def Let_def using nLR d(1-3)
    by (cases ?L; cases ?R)
       (simp_all add: n(1-6) cb avl_access adopt_def moved_def split del: if_split)
  let ?T = "mk d (mk d u child (if gb = - ?h then ?h else 0) gl) g 0
              (mk d gr node (if gb = ?h then - ?h else 0) y)"
  have r1: "rep (avl_mem t1) (Some g) par ci ?T"
    using n(7,8) d L2 R2 by (simp add: t1_def rep_mk other split del: if_split)
  have c1: "ctxrep (avl_mem t1) c (Some node, par, ci) (avl_root t1, None, ci0)"
    using ctx d(4) ctx2 by (simp add: t1_def)
  have "focus (relink par ci g t1) c (Some g) par ci ?T"
    by (rule relink_focus[OF c1 d(7) r1]) (use dist in auto)
  then show ?thesis
    using rot cb by (simp add: rot_double t1_def)
qed

lemma avl_rotation_rot:
  assumes "focus t c (Some node) par ci (mk d x node nb y)"
    and "dist (plug c (mk d x node nb y))" "rotatable d x"
    and "balance = 2 * avl_child2balance d"
  obtains t' p' where "avl_rotation t node balance = Inr (t', snd (rot d x node y))"
    "avl_numnodes_of t' = avl_numnodes_of t" "focus t' c p' par ci (fst (rot d x node y))"
  using assms(3)
proof (cases rule: rotatable_cases)
  case (single u k cb v)
  then show ?thesis
    using avl_rotation_single[of t c node par ci d u k cb v nb y balance] assms that by blast
next
  case (double u k gl g gb gr)
  then show ?thesis
    using avl_rotation_double[of t c node par ci d u k _ gl g gb gr nb y balance] assms that by blast
qed

section \<open>Moving the focus\<close>

lemma focus_tree_rep: "focus t c p par ci T \<Longrightarrow> tree_rep t (plug c T)"
  unfolding tree_rep_focus by blast

lemma focus_up:
  "focus t ((d, a, b, s) # c) p par ci T \<Longrightarrow>
     par = Some a \<and> ci = d \<and> AVL_XBALANCE t a = b
     \<and> focus t c (Some a) (AVL_XPARENT t a) (AVL_XCHILD t a) (mk d T a b s)"
  by (auto simp: focus_def rep_mk avl_access)

lemma focus_setbalance:
  assumes "focus t c (Some a) par ci (mk d x a b y)" "dist (plug c (mk d x a b y))"
  shows "focus (AVL_SETBALANCE a nb t) c (Some a) par ci (mk d x a nb y)"
  using assms by (auto simp: focus_def rep_mk avl_access)

lemma setbalance_simps [simp]:
  "avl_numnodes_of (AVL_SETBALANCE a b t) = avl_numnodes_of t"
  "AVL_XPARENT (AVL_SETBALANCE a b t) n = AVL_XPARENT t n"
  "AVL_XCHILD (AVL_SETBALANCE a b t) n = AVL_XCHILD t n"
  "node_child (AVL_SETBALANCE a b t) n i = node_child t n i"
  "avl_root (AVL_SETBALANCE a b t) = avl_root t"
  by (simp_all add: avl_access)

section \<open>Insertion\<close>

definition insert_finish :: "avl_tree \<Rightarrow> addr option \<Rightarrow> bool \<Rightarrow> avl_tree res" where
  "insert_finish t parent which_child =
     rbind (of_loop (avl_insert_loop t parent which_child))
       (\<lambda>(t, rot). case rot of
          None \<Rightarrow> Inr t
        | Some (n, b) \<Rightarrow> rbind (avl_rotation t n b) (\<lambda>(t, _). Inr t))"

lemma insert_finish_None [simp]: "insert_finish t None wc = Inr t"
  by (simp add: insert_finish_def avl_insert_loop.simps)

lemma insert_finish_Some:
  "insert_finish t (Some node) wc =
     (let b = AVL_XBALANCE t node; nb = b + avl_child2balance wc
      in if nb = 0 then Inr (AVL_SETBALANCE node 0 t)
         else if b \<noteq> 0 then rbind (avl_rotation t node nb) (\<lambda>(t, _). Inr t)
         else insert_finish (AVL_SETBALANCE node nb t) (AVL_XPARENT t node) (AVL_XCHILD t node))"
  unfolding insert_finish_def avl_insert_loop.simps[of t "Some node"] by (auto simp: Let_def)

lemma insert_finish_refines:
  assumes "focus t c p par ci T" "dist (plug c T)"
    and "balanced (plug c T0)" "balanced T" "height T = Suc (height T0)"
  shows "\<exists>t'. insert_finish t par ci = Inr t' \<and> tree_rep t' (ins_fix c T)
     \<and> avl_numnodes_of t' = avl_numnodes_of t"
  using assms
proof (induction c T arbitrary: t p par ci T0 rule: ins_fix.induct)
  case (1 T)
  then have "par = None" by (auto simp: focus_def)
  with 1 show ?case by (auto dest: focus_tree_rep)
next
  case (2 d a b s c T)
  let ?nb = "b + avl_child2balance d"
  have up: "par = Some a" "ci = d" "AVL_XBALANCE t a = b"
    and foc: "focus t c (Some a) (AVL_XPARENT t a) (AVL_XCHILD t a) (mk d T a b s)"
    using focus_up[OF "2.prems"(1)] by auto
  have dist: "dist (plug c (mk d T a b s))"
    using "2.prems"(2) by simp
  have node: "balanced (mk d T0 a b s)"
    using "2.prems"(3) balanced_plugD by fastforce
  consider (level) "?nb = 0" | (rotate) "?nb \<noteq> 0" "b \<noteq> 0" | (up) "b = 0"
    by blast
  then show ?case
  proof cases
    case level
    then show ?thesis
      using up focus_tree_rep[OF focus_setbalance[OF foc dist, of 0]]
      by (simp add: insert_finish_Some Let_def)
  next
    case rotate
    have "?nb = 2 * avl_child2balance d"
      using node rotate by (cases d) (auto simp: balanced_mk)
    moreover have "rotatable d T"
      using "2.prems"(4,5) by (simp add: rotatable_balanced)
    ultimately obtain t' p' where "avl_rotation t a ?nb = Inr (t', snd (rot d T a s))"
      "avl_numnodes_of t' = avl_numnodes_of t"
      "focus t' c p' (AVL_XPARENT t a) (AVL_XCHILD t a) (fst (rot d T a s))"
      using avl_rotation_rot[OF foc dist] by metis
    then show ?thesis
      using rotate up by (auto simp: insert_finish_Some Let_def dest: focus_tree_rep)
  next
    case up': up
    have "balanced (mk d T a ?nb s)" "height (mk d T a ?nb s) = Suc (height (mk d T0 a b s))"
      using node up' "2.prems"(4,5) by (cases d; auto simp: balanced_mk)+
    then show ?thesis
      using "2.IH"[of ?nb, OF _ _ _ focus_setbalance[OF foc dist, of ?nb], of "mk d T0 a b s"]
        "2.prems" up up' dist
      by (simp add: insert_finish_Some Let_def)
  qed
qed

text \<open>The first part of \<open>avl_insert\<close> hangs the new node into the empty slot.\<close>

lemma avl_insert_hang:
  assumes foc: "focus t c None par ci ALeaf" and "cdist c" "a \<notin> ctxaddrs c"
  obtains t1 where "avl_insert t a (AVL_MKINDEX par ci) = insert_finish t1 par ci"
    "avl_numnodes_of t1 = Suc (avl_numnodes_of t)"
    "focus t1 c (Some a) par ci (ANode ALeaf a 0 ALeaf)"
proof -
  let ?n = "(avl_mem t a)\<lparr>avl_child := (avl_child (avl_mem t a))(False := None, True := None),
                avl_child_index := ci, avl_balance := 0, avl_parent := par\<rparr>"
  define t0 where "t0 = t\<lparr>avl_numnodes_of := Suc (avl_numnodes_of t), avl_mem := (avl_mem t)(a := ?n)\<rparr>"
  define t1 where "t1 = relink par ci a t0"
  obtain ci0 where ctx: "ctxrep (avl_mem t) c (None, par, ci) (avl_root t, None, ci0)"
    using foc by (auto simp: focus_def)
  have empty: "case par of None \<Rightarrow> avl_root t = None | Some q \<Rightarrow> avl_child (avl_mem t q) ci = None \<and> q \<noteq> a"
    using ctx assms(3) by (cases c) auto
  have "avl_insert t a (AVL_MKINDEX par ci) = insert_finish t1 par ci"
    using empty unfolding avl_insert_def AVL_MKINDEX_def AVL_INDEX2NODE_def AVL_INDEX2CHILD_def
      insert_finish_def t1_def t0_def Let_def
    by (cases par) (simp_all add: avl_access relink_def)
  moreover have "focus t1 c (Some a) par ci (ANode ALeaf a 0 ALeaf)"
    unfolding t1_def
    by (rule relink_focus) (use ctx assms(2,3) in \<open>auto simp: t0_def\<close>)
  ultimately show ?thesis
    using that by (simp add: t1_def t0_def)
qed

lemma avl_insert_refines:
  assumes foc: "focus t c None par ci ALeaf"
    and "dist (plug c ALeaf)" "balanced (plug c ALeaf)" "a \<notin> set (inorder (plug c ALeaf))"
  shows "\<exists>t'. avl_insert t a (AVL_MKINDEX par ci) = Inr t'
     \<and> tree_rep t' (ins_fix c (ANode ALeaf a 0 ALeaf))
     \<and> avl_numnodes_of t' = Suc (avl_numnodes_of t)"
proof -
  obtain t1 where t1: "avl_insert t a (AVL_MKINDEX par ci) = insert_finish t1 par ci"
    "avl_numnodes_of t1 = Suc (avl_numnodes_of t)"
    and foc1: "focus t1 c (Some a) par ci (ANode ALeaf a 0 ALeaf)"
    using avl_insert_hang[OF foc] assms by auto
  have "dist (plug c (ANode ALeaf a 0 ALeaf))"
    using assms by auto
  from insert_finish_refines[OF foc1 this assms(3)] t1 show ?thesis
    by auto
qed

section \<open>The interface of a tree\<close>

lemma rep_unique: "rep m p par ci T \<Longrightarrow> rep m p par' ci' T' \<Longrightarrow> T = T'"
proof (induction T arbitrary: p par ci par' ci' T')
  case ALeaf
  then show ?case by (cases T') auto
next
  case (ANode l a b r)
  then show ?case by (cases T') auto
qed

lemma tree_rep_unique: "tree_rep t T \<Longrightarrow> tree_rep t T' \<Longrightarrow> T = T'"
  unfolding tree_rep_def by (blast intro: rep_unique)

definition avl_inv :: "avl_tree \<Rightarrow> addr list \<Rightarrow> bool" where
  "avl_inv t xs \<longleftrightarrow>
     (\<exists>T. tree_rep t T \<and> balanced T \<and> inorder T = xs) \<and> distinct xs \<and> avl_tmp \<notin> set xs
     \<and> avl_numnodes_of t = length xs"

text \<open>\<open>avl_slot t w i\<close>: the index \<open>w\<close> names the empty place before position \<open>i\<close> of the sequence.\<close>

definition avl_slot :: "avl_tree \<Rightarrow> avl_index \<Rightarrow> nat \<Rightarrow> bool" where
  "avl_slot t w i \<longleftrightarrow>
     (\<exists>c. focus t c None (AVL_INDEX2NODE w) (AVL_INDEX2CHILD w) ALeaf \<and> length (before c) = i)"

lemma avl_invD:
  assumes "avl_inv t xs"
  obtains T where "tree_rep t T" "balanced T" "inorder T = xs" "dist T"
  using assms unfolding avl_inv_def dist_iff by blast

lemma avl_slotD:
  assumes "avl_inv t xs" "avl_slot t w i"
  obtains c par ci where "w = AVL_MKINDEX par ci" "focus t c None par ci ALeaf"
    "balanced (plug c ALeaf)" "dist (plug c ALeaf)" "xs = before c @ after c" "length (before c) = i"
proof -
  obtain c where c: "focus t c None (AVL_INDEX2NODE w) (AVL_INDEX2CHILD w) ALeaf"
      "length (before c) = i"
    using assms(2) unfolding avl_slot_def by blast
  obtain T where T: "tree_rep t T" "balanced T" "inorder T = xs" "dist T"
    using assms(1) by (rule avl_invD)
  have "plug c ALeaf = T"
    using tree_rep_unique[OF focus_tree_rep[OF c(1)] T(1)] .
  with T c show ?thesis
    by (intro that[of "AVL_INDEX2NODE w" "AVL_INDEX2CHILD w" c])
       (auto simp: AVL_MKINDEX_def AVL_INDEX2NODE_def AVL_INDEX2CHILD_def inorder_plug)
qed

lemma avl_insert_inv:
  assumes "avl_inv t xs" "avl_slot t w i" "a \<notin> set xs" "a \<noteq> avl_tmp"
  shows "\<exists>t'. avl_insert t a w = Inr t' \<and> avl_inv t' (take i xs @ a # drop i xs)"
proof -
  obtain c par ci where c: "w = AVL_MKINDEX par ci" "focus t c None par ci ALeaf"
    "balanced (plug c ALeaf)" "dist (plug c ALeaf)" "xs = before c @ after c" "length (before c) = i"
    using assms(1,2) by (rule avl_slotD)
  have "a \<notin> set (inorder (plug c ALeaf))"
    using c(5) assms(3) by (simp add: inorder_plug)
  then obtain t' where t': "avl_insert t a w = Inr t'"
    "tree_rep t' (ins_fix c (ANode ALeaf a 0 ALeaf))" "avl_numnodes_of t' = Suc (avl_numnodes_of t)"
    using avl_insert_refines[OF c(2,4,3)] c(1) by blast
  have bal: "balanced (ins_fix c (ANode ALeaf a 0 ALeaf))"
    by (rule ins_fix_balanced[OF c(3)]) (auto simp: grown_def)
  have ord: "inorder (ins_fix c (ANode ALeaf a 0 ALeaf)) = take i xs @ a # drop i xs"
    using ins_fix_inorder[OF c(3), of "ANode ALeaf a 0 ALeaf"] c(5,6) by (simp add: inorder_plug)
  have "distinct (take i xs @ a # drop i xs)" "avl_tmp \<notin> set (take i xs @ a # drop i xs)"
    using assms(1,3,4) c(5,6) by (auto simp: avl_inv_def)
  then have "avl_inv t' (take i xs @ a # drop i xs)"
    using t'(2,3) bal ord assms(1) unfolding avl_inv_def by auto
  with t'(1) show ?thesis by blast
qed

end
