(* ===== verification/Avl_Search.thy ===== *)
theory Avl_Search
  imports Avl_Refine
begin

text \<open>
  Walking and searching: what \<open>avl_first\<close>, \<open>avl_last\<close>, \<open>avl_walk\<close>, \<open>avl_nearest\<close> and
  \<open>avl_find\<close> return, in terms of the in-order sequence of the tree.
\<close>

section \<open>Neighbours in a sequence\<close>

definition hd_opt :: "'a list \<Rightarrow> 'a option" where
  "hd_opt xs = (case xs of [] \<Rightarrow> None | x # _ \<Rightarrow> Some x)"

definition last_opt :: "'a list \<Rightarrow> 'a option" where
  "last_opt xs = hd_opt (rev xs)"

lemma hd_opt_simps [simp]:
  "hd_opt [] = None" "hd_opt (x # xs) = Some x" "last_opt [] = None" "last_opt (xs @ [x]) = Some x"
  by (simp_all add: hd_opt_def last_opt_def)

lemma hd_opt_append: "hd_opt (xs @ ys) = (case hd_opt xs of None \<Rightarrow> hd_opt ys | Some x \<Rightarrow> Some x)"
  by (cases xs) auto

lemma hd_opt_None [simp]: "hd_opt xs = None \<longleftrightarrow> xs = []"
  by (cases xs) auto

text \<open>The in-order sequence read in a direction, and what lies outside a path.\<close>

definition seq :: "bool \<Rightarrow> atree \<Rightarrow> addr list" where
  "seq d T = (if d then inorder T else rev (inorder T))"

definition outside :: "bool \<Rightarrow> frame list \<Rightarrow> addr list" where
  "outside d c = (if d then after c else rev (before c))"

lemma seq_simps [simp]:
  "seq d ALeaf = []" "seq d (mk d x a b y) = seq d y @ a # seq d x"
  "seq (\<not> d) (mk d x a b y) = seq (\<not> d) x @ a # seq (\<not> d) y"
  by (auto simp: seq_def mk_def)

lemma outside_simps [simp]:
  "outside e [] = []"
  "outside e ((d, a, b, s) # c) = (if d = e then outside e c else a # seq e s @ outside e c)"
  by (auto simp: outside_def seq_def)

section \<open>Descending and ascending\<close>

lemma avl_descend_rep:
  assumes "rep (avl_mem t) (Some a) par ci T"
  shows "\<exists>n. avl_descend t d a = Some n \<and> hd_opt (seq (\<not> d) T) = Some n"
  using assms
proof (induction T arbitrary: a par ci)
  case ALeaf
  then show ?case by simp
next
  case (ANode l k b r)
  have k: "k = a" using ANode.prems by simp
  have child: "rep (avl_mem t) (node_child t a d) (Some a) d (if d then r else l)"
    using ANode.prems by (auto simp: node_child_def)
  show ?case
  proof (cases "node_child t a d")
    case None
    then have "(if d then r else l) = ALeaf" using child rep_root by metis
    with None show ?thesis
      by (subst avl_descend.simps) (auto simp: seq_def k split: if_splits)
  next
    case (Some n)
    then obtain m where m: "avl_descend t d n = Some m" "hd_opt (seq (\<not> d) (if d then r else l)) = Some m"
      using child ANode.IH by (cases d; simp; blast)
    have "hd_opt (seq (\<not> d) (ANode l k b r)) = Some m"
      using m(2) by (auto simp: seq_def hd_opt_append split: if_splits)
    with Some m(1) show ?thesis
      by (subst avl_descend.simps) auto
  qed
qed

lemma avl_ascend_ctx:
  assumes "ctxrep (avl_mem t) c (Some a, AVL_XPARENT t a, AVL_XCHILD t a) (root, None, ci0)"
  shows "avl_ascend t (\<not> d) a = Some (hd_opt (outside d c))"
  using assms
proof (induction c arbitrary: a)
  case Nil
  then show ?case by (subst avl_ascend.simps) auto
next
  case (Cons f c)
  obtain e k b s where f: "f = (e, k, b, s)" by (cases f)
  then have "AVL_XPARENT t a = Some k" "AVL_XCHILD t a = e"
    "ctxrep (avl_mem t) c (Some k, AVL_XPARENT t k, AVL_XCHILD t k) (root, None, ci0)"
    using Cons.prems by (auto simp: AVL_XPARENT_def AVL_XCHILD_def)
  with f Cons.IH[of k] show ?case by (subst avl_ascend.simps) (auto simp: Let_def)
qed

lemma avl_walk_focus:
  assumes "focus t c (Some a) par ci (mk d x a b y)"
  shows "avl_walk t (Some a) d = Inr (hd_opt (seq d x @ outside d c))"
proof -
  obtain ci0 where ctx: "ctxrep (avl_mem t) c (Some a, AVL_XPARENT t a, AVL_XCHILD t a) (avl_root t, None, ci0)"
    and x: "rep (avl_mem t) (node_child t a d) (Some a) d x"
    using assms by (auto simp: focus_def rep_mk node_child_def AVL_XPARENT_def AVL_XCHILD_def)
  show ?thesis
  proof (cases "node_child t a d")
    case None
    then show ?thesis
      using x avl_ascend_ctx[OF ctx] rep_root[OF x] by (simp add: avl_walk_def)
  next
    case (Some n)
    then obtain m where "avl_descend t (\<not> d) n = Some m" "hd_opt (seq d x) = Some m"
      using avl_descend_rep[of t n _ _ x "\<not> d"] x by auto
    with Some show ?thesis by (simp add: avl_walk_def hd_opt_append)
  qed
qed

lemma avl_end_loop_rep:
  assumes "rep (avl_mem t) p par ci T"
  shows "avl_end_loop t d p prev = Some (case hd_opt (seq (\<not> d) T) of None \<Rightarrow> prev | Some n \<Rightarrow> Some n)"
  using assms
proof (induction T arbitrary: p par ci prev)
  case ALeaf
  then show ?case by (subst avl_end_loop.simps) simp
next
  case (ANode l a b r)
  have child: "rep (avl_mem t) (node_child t a d) (Some a) d (if d then r else l)"
    using ANode.prems by (auto simp: node_child_def)
  have "avl_end_loop t d (node_child t a d) (Some a)
      = Some (case hd_opt (seq (\<not> d) (if d then r else l)) of None \<Rightarrow> Some a | Some n \<Rightarrow> Some n)"
    using child ANode.IH by (cases d) auto
  moreover have "p = Some a" using ANode.prems by simp
  ultimately show ?case
    by (subst avl_end_loop.simps) (auto simp: seq_def hd_opt_append split: option.split)
qed

section \<open>First, last, next, previous\<close>

lemma avl_first_inv: "avl_inv t xs \<Longrightarrow> avl_first t = Inr (hd_opt xs)"
  by (erule avl_invD)
     (auto simp: tree_rep_def avl_first_def avl_end_loop_rep seq_def split: option.split)

lemma avl_last_inv: "avl_inv t xs \<Longrightarrow> avl_last t = Inr (last_opt xs)"
  by (erule avl_invD)
     (auto simp: tree_rep_def avl_last_def avl_end_loop_rep seq_def last_opt_def split: option.split)

lemma plug_at:
  "a \<in> set (inorder T) \<Longrightarrow> \<exists>c l b r. T = plug c (ANode l a b r)"
proof (induction T)
  case (ANode l k b r)
  consider "a = k" | "a \<in> set (inorder l)" | "a \<in> set (inorder r)"
    using ANode.prems by auto
  then show ?case
  proof cases
    case 1
    then show ?thesis by (metis plug.simps(1))
  next
    case 2
    then obtain c l' b' r' where "l = plug c (ANode l' a b' r')" using ANode.IH by blast
    then have "ANode l k b r = plug (c @ [(False, k, b, r)]) (ANode l' a b' r')"
      by (simp add: plug_append mk_def)
    then show ?thesis by blast
  next
    case 3
    then obtain c l' b' r' where "r = plug c (ANode l' a b' r')" using ANode.IH by blast
    then have "ANode l k b r = plug (c @ [(True, k, b, l)]) (ANode l' a b' r')"
      by (simp add: plug_append mk_def)
    then show ?thesis by blast
  qed
qed simp

lemma avl_inv_at:
  assumes "avl_inv t (ys @ a # zs)"
  obtains c par ci l b r where "focus t c (Some a) par ci (ANode l a b r)"
    "ys = before c @ inorder l" "zs = inorder r @ after c"
    "balanced (plug c (ANode l a b r))" "dist (plug c (ANode l a b r))"
proof -
  obtain T where T: "tree_rep t T" "balanced T" "inorder T = ys @ a # zs" "dist T"
    using assms by (rule avl_invD)
  obtain c l b r where c: "T = plug c (ANode l a b r)"
    using plug_at[of a T] T(3) by auto
  obtain p par ci where foc: "focus t c p par ci (ANode l a b r)"
    using T(1) unfolding c tree_rep_focus by blast
  have p: "p = Some a"
    using foc by (simp add: focus_def)
  have eq: "(before c @ inorder l) @ a # (inorder r @ after c) = ys @ a # zs"
    using T(3) by (simp add: c inorder_plug)
  have "distinct (ys @ a # zs)" using T(3,4) dist_iff by metis
  then have "before c @ inorder l = ys" "inorder r @ after c = zs"
    using eq append_Cons_eq_iff[of a "before c @ inorder l" "inorder r @ after c" ys zs]
    by (metis distinct_append not_distinct_conv_prefix append_Cons_eq_iff distinct.simps(2) disjoint_insert(1) list.set(2))+
  then show ?thesis
    using that[of c par ci l b r] foc p T c by blast
qed

lemma avl_walk_inv:
  assumes "avl_inv t (ys @ a # zs)"
  shows "avl_walk t (Some a) True = Inr (hd_opt zs)"
    and "avl_walk t (Some a) False = Inr (last_opt ys)"
proof -
  obtain c par ci l b r where foc: "focus t c (Some a) par ci (ANode l a b r)"
    and eq: "ys = before c @ inorder l" "zs = inorder r @ after c"
    using avl_inv_at[OF assms] by metis
  have "ANode l a b r = mk True r a b l" "ANode l a b r = mk False l a b r"
    by (auto simp: mk_def)
  with foc eq show "avl_walk t (Some a) True = Inr (hd_opt zs)"
    and "avl_walk t (Some a) False = Inr (last_opt ys)"
    using avl_walk_focus[of t c a par ci True r b l] avl_walk_focus[of t c a par ci False l b r]
    by (auto simp: seq_def outside_def last_opt_def)
qed

lemma AVL_NEXT_inv: "avl_inv t (ys @ a # zs) \<Longrightarrow> AVL_NEXT t a = Inr (hd_opt zs)"
  and AVL_PREV_inv: "avl_inv t (ys @ a # zs) \<Longrightarrow> AVL_PREV t a = Inr (last_opt ys)"
  using avl_walk_inv by (simp_all add: AVL_NEXT_def AVL_PREV_def AVL_AFTER_def AVL_BEFORE_def)

lemma avl_nearest_inv:
  assumes "avl_inv t xs" "avl_slot t w i"
  shows "avl_nearest t w AVL_AFTER = Inr (hd_opt (drop i xs))"
    and "avl_nearest t w AVL_BEFORE = Inr (last_opt (take i xs))"
proof -
  obtain c par ci where c: "w = AVL_MKINDEX par ci" "focus t c None par ci ALeaf"
    "balanced (plug c ALeaf)" "dist (plug c ALeaf)" "xs = before c @ after c" "length (before c) = i"
    using assms by (rule avl_slotD)
  have eq: "take i xs = before c" "drop i xs = after c" using c(5,6) by auto
  have "avl_nearest t w dir = Inr (hd_opt (outside dir c))" for dir
  proof (cases c)
    case Nil
    then show ?thesis
      using c(1,2) by (auto simp: avl_nearest_def focus_def AVL_MKINDEX_def AVL_INDEX2NODE_def)
  next
    case (Cons f c')
    obtain d a b s where f: "f = (d, a, b, s)" by (cases f)
    have up: "par = Some a" "ci = d"
      "focus t c' (Some a) (AVL_XPARENT t a) (AVL_XCHILD t a) (mk d ALeaf a b s)"
      using focus_up c(2) unfolding Cons f by blast+
    then show ?thesis
      using avl_walk_focus[OF up(3)] c(1) Cons f
      by (auto simp: avl_nearest_def AVL_MKINDEX_def AVL_INDEX2NODE_def AVL_INDEX2CHILD_def)
  qed
  then show "avl_nearest t w AVL_AFTER = Inr (hd_opt (drop i xs))"
    and "avl_nearest t w AVL_BEFORE = Inr (last_opt (take i xs))"
    unfolding eq by (simp_all add: AVL_AFTER_def AVL_BEFORE_def outside_def last_opt_def)
qed

section \<open>Searching\<close>

text \<open>
  \<open>compar\<close> orders the sequence: positive on the objects before the value searched for, zero
  on the objects equal to it, negative on those after it.
\<close>

definition compar_sorted :: "(addr \<Rightarrow> int) \<Rightarrow> addr list \<Rightarrow> bool" where
  "compar_sorted compar xs \<longleftrightarrow>
     (\<forall>a \<in> set xs. -1 \<le> compar a \<and> compar a \<le> 1) \<and> sorted_wrt (\<lambda>a b. compar a \<ge> compar b) xs"

lemma compar_sorted_append:
  "compar_sorted compar (xs @ ys) \<longleftrightarrow> compar_sorted compar xs \<and> compar_sorted compar ys
     \<and> (\<forall>a \<in> set xs. \<forall>b \<in> set ys. compar a \<ge> compar b)"
  by (auto simp: compar_sorted_def sorted_wrt_append)

lemma compar_sorted_Cons:
  "compar_sorted compar (x # ys) \<longleftrightarrow> -1 \<le> compar x \<and> compar x \<le> 1 \<and> compar_sorted compar ys
     \<and> (\<forall>b \<in> set ys. compar x \<ge> compar b)"
  by (auto simp: compar_sorted_def)

lemma avl_find_loop_found:
  assumes "rep (avl_mem t) p par ci T" "compar_sorted compar (inorder T)"
    and "\<exists>a \<in> set (inorder T). compar a = 0"
  shows "\<exists>a \<in> set (inorder T). compar a = 0
     \<and> avl_find_loop compar t p prev child = Some (Inr (Some a, (None, False)))"
  using assms
proof (induction T arbitrary: p par ci prev child)
  case (ANode l a b r)
  have p: "p = Some a"
    and l: "rep (avl_mem t) (node_child t a False) (Some a) False l"
    and r: "rep (avl_mem t) (node_child t a True) (Some a) True r"
    using ANode.prems(1) by (auto simp: node_child_def)
  have srt: "compar_sorted compar (inorder l)" "compar_sorted compar (inorder r)" "-1 \<le> compar a" "compar a \<le> 1"
    "\<forall>x \<in> set (inorder l). compar x \<ge> compar a" "\<forall>x \<in> set (inorder r). compar a \<ge> compar x"
    using ANode.prems(2) by (auto simp: compar_sorted_append compar_sorted_Cons)
  consider (eq) "compar a = 0" | (lt) "compar a = -1" | (gt) "compar a = 1"
    using srt(3,4) by linarith
  then show ?case
  proof cases
    case eq
    with p show ?thesis by (subst avl_find_loop.simps) (auto simp: Let_def)
  next
    case lt
    then have "\<exists>x \<in> set (inorder l). compar x = 0" using ANode.prems(3) srt(6) by force
    from ANode.IH(1)[OF l srt(1) this] lt p show ?thesis
      by (subst avl_find_loop.simps) (force simp: Let_def avl_balance2child_def)
  next
    case gt
    then have "\<exists>x \<in> set (inorder r). compar x = 0" using ANode.prems(3) srt(5) by force
    from ANode.IH(2)[OF r srt(2) this] gt p show ?thesis
      by (subst avl_find_loop.simps) (force simp: Let_def avl_balance2child_def)
  qed
qed simp

lemma avl_find_loop_slot:
  assumes "focus t c p par ci T" "compar_sorted compar (inorder T)"
    and "\<forall>a \<in> set (inorder T). compar a \<noteq> 0" "T = ALeaf \<longrightarrow> prev = par \<and> child = ci"
  shows "\<exists>c' par' ci'. avl_find_loop compar t p prev child = Some (Inr (None, AVL_MKINDEX par' ci'))
     \<and> focus t c' None par' ci' ALeaf
     \<and> before c' = before c @ filter (\<lambda>a. compar a > 0) (inorder T)"
  using assms
proof (induction T arbitrary: c p par ci prev child)
  case ALeaf
  then have "p = None" by (simp add: focus_def)
  with ALeaf show ?case by (subst avl_find_loop.simps) auto
next
  case (ANode l a b r)
  have p: "p = Some a" using ANode.prems(1) by (simp add: focus_def)
  have srt: "compar_sorted compar (inorder l)" "compar_sorted compar (inorder r)" "-1 \<le> compar a" "compar a \<le> 1"
    "\<forall>x \<in> set (inorder l). compar x \<ge> compar a" "\<forall>x \<in> set (inorder r). compar a \<ge> compar x"
    using ANode.prems(2) by (auto simp: compar_sorted_append compar_sorted_Cons)
  consider (lt) "compar a = -1" | (gt) "compar a = 1"
    using srt(3,4) ANode.prems(3) by fastforce
  then show ?case
  proof cases
    case lt
    have "focus t ((False, a, b, r) # c) (node_child t a False) (Some a) False l"
      using ANode.prems(1) by (auto simp: focus_def node_child_def)
    moreover have "filter (\<lambda>a. compar a > 0) (inorder r) = []"
      using srt(6) lt by (force simp: filter_empty_conv)
    ultimately show ?thesis
      using ANode.IH(1)[of "(False, a, b, r) # c" "node_child t a False" "Some a" False "Some a" False]
        ANode.prems(3) srt(1) lt p
      by (subst avl_find_loop.simps) (auto simp: Let_def avl_balance2child_def)
  next
    case gt
    have "focus t ((True, a, b, l) # c) (node_child t a True) (Some a) True r"
      using ANode.prems(1) by (auto simp: focus_def node_child_def)
    moreover have "filter (\<lambda>a. compar a > 0) (inorder l) = inorder l"
      using srt(5) gt by (auto simp: filter_id_conv)
    ultimately show ?thesis
      using ANode.IH(2)[of "(True, a, b, l) # c" "node_child t a True" "Some a" True "Some a" True]
        ANode.prems(3) srt(2) gt p
      by (subst avl_find_loop.simps) (auto simp: Let_def avl_balance2child_def)
  qed
qed

lemma avl_find_Some:
  assumes "avl_inv t xs" "compar_sorted compar xs" "\<exists>a \<in> set xs. compar a = 0"
  shows "\<exists>a \<in> set xs. compar a = 0 \<and> avl_find compar t = Inr (Some a, (None, False))"
proof -
  obtain T where T: "tree_rep t T" "balanced T" "inorder T = xs" "dist T"
    using assms(1) by (rule avl_invD)
  obtain ci where "rep (avl_mem t) (avl_root t) None ci T"
    using T(1) by (auto simp: tree_rep_def)
  from avl_find_loop_found[OF this, of compar None False] assms(2,3) show ?thesis
    unfolding T(3) avl_find_def by force
qed

lemma avl_find_None:
  assumes "avl_inv t xs" "compar_sorted compar xs" "\<forall>a \<in> set xs. compar a \<noteq> 0"
  shows "\<exists>w. avl_find compar t = Inr (None, w)
     \<and> avl_slot t w (length (filter (\<lambda>a. compar a > 0) xs))"
proof -
  obtain T where T: "tree_rep t T" "balanced T" "inorder T = xs" "dist T"
    using assms(1) by (rule avl_invD)
  obtain ci where ci: "focus t [] (avl_root t) None ci T" "T = ALeaf \<longrightarrow> ci = False"
    using T(1) by (cases T) (auto simp: tree_rep_def focus_def)
  obtain c' par' ci' where "avl_find_loop compar t (avl_root t) None False
      = Some (Inr (None, AVL_MKINDEX par' ci'))"
    "focus t c' None par' ci' ALeaf" "before c' = filter (\<lambda>a. compar a > 0) xs"
    using avl_find_loop_slot[OF ci(1), of compar None False] ci(2) assms(2,3) T(3) by auto
  then show ?thesis
    by (auto simp: avl_find_def avl_slot_def AVL_MKINDEX_def AVL_INDEX2NODE_def AVL_INDEX2CHILD_def
             intro!: exI[of _ c'])
qed

end
