(* ===== verification/Avl_Delete.thy ===== *)
theory Avl_Delete
  imports Avl_Search
begin

text \<open>
  Removal of a node, and the post-order destruction of a whole tree.
\<close>

section \<open>Rebalancing upwards\<close>

definition remove_finish :: "avl_tree \<Rightarrow> addr option \<Rightarrow> bool \<Rightarrow> avl_tree res" where
  "remove_finish t parent which_child =
     (case parent of
        None \<Rightarrow> Inr t
      | Some p \<Rightarrow> rbind (of_loop (avl_remove_loop t p which_child)) id)"

lemma remove_finish_None [simp]: "remove_finish t None wc = Inr t"
  by (simp add: remove_finish_def)

lemma remove_finish_Some:
  "remove_finish t (Some node) wc =
     (let b = AVL_XBALANCE t node; nb = b - avl_child2balance wc
      in if b = 0 then Inr (AVL_SETBALANCE node nb t)
         else rbind (if nb = 0 then Inr (AVL_SETBALANCE node nb t, True) else avl_rotation t node nb)
           (\<lambda>(t', shrunk). if \<not> shrunk then Inr t'
              else remove_finish t' (AVL_XPARENT t node) (AVL_XCHILD t node)))"
  unfolding remove_finish_def option.case avl_remove_loop.simps[of t node]
  by (auto simp: Let_def rbind_def split: sum.split option.split prod.split)

lemma remove_finish_refines:
  assumes "focus t c p par ci T" "dist (plug c T)"
    and "balanced (plug c T0)" "balanced T" "height T0 = Suc (height T)"
  shows "\<exists>t'. remove_finish t par ci = Inr t' \<and> tree_rep t' (del_fix c T)
     \<and> avl_numnodes_of t' = avl_numnodes_of t"
  using assms
proof (induction c T arbitrary: t p par ci T0 rule: del_fix.induct)
  case (1 T)
  then have "par = None" by (auto simp: focus_def)
  with 1 show ?case by (auto dest: focus_tree_rep)
next
  case (2 d a b s c T)
  let ?nb = "b - avl_child2balance d"
  let ?r = "rot (\<not> d) s a T"
  have up: "par = Some a" "ci = d" "AVL_XBALANCE t a = b"
    and foc: "focus t c (Some a) (AVL_XPARENT t a) (AVL_XCHILD t a) (mk d T a b s)"
    using focus_up[OF "2.prems"(1)] by auto
  have dist: "dist (plug c (mk d T a b s))"
    using "2.prems"(2) by simp
  have node: "balanced (mk d T0 a b s)"
    using "2.prems"(3) balanced_plugD by fastforce
  consider (stop) "b = 0" | (shrink) "b \<noteq> 0" "?nb = 0" | (rotate) "b \<noteq> 0" "?nb \<noteq> 0"
    by blast
  then show ?case
  proof cases
    case stop
    then show ?thesis
      using up focus_tree_rep[OF focus_setbalance[OF foc dist, of ?nb]]
      by (simp add: remove_finish_Some Let_def)
  next
    case shrink
    have "balanced (mk d T a 0 s)" "height (mk d T0 a b s) = Suc (height (mk d T a 0 s))"
      using node shrink "2.prems"(4,5) by (cases d; auto simp: balanced_mk)+
    then show ?thesis
      using "2.IH"(1)[of ?nb, OF _ _ _ focus_setbalance[OF foc dist, of 0], of "mk d T0 a b s"]
        "2.prems" up shrink dist
      by (simp add: remove_finish_Some Let_def)
  next
    case rotate
    have h: "height s = height T + 2" "balanced s" "?nb = 2 * avl_child2balance (\<not> d)"
      using node rotate "2.prems"(4,5) by (cases d; auto simp: balanced_mk)+
    note r = balanced_rot[OF h(2) "2.prems"(4) h(1), of "\<not> d" a]
    have rs: "rotatable (\<not> d) s" using h by (simp add: rotatable_balanced)
    have foc': "focus t c (Some a) (AVL_XPARENT t a) (AVL_XCHILD t a) (mk (\<not> d) s a b T)"
      and dist': "dist (plug c (mk (\<not> d) s a b T))"
      using foc dist mk_flip[of d T a b s] by simp_all
    obtain t' p' where t': "avl_rotation t a ?nb = Inr (t', snd ?r)"
      "avl_numnodes_of t' = avl_numnodes_of t"
      "focus t' c p' (AVL_XPARENT t a) (AVL_XCHILD t a) (fst ?r)"
      using avl_rotation_rot[OF foc' dist' rs h(3)] by metis
    have io: "inorder (fst ?r) = inorder (mk (\<not> d) s a b T)"
      by (rule inorder_rot[OF rs])
    have dr: "dist (plug c (fst ?r))"
      using dist' io unfolding dist_iff inorder_plug by simp
    show ?thesis
    proof (cases "snd ?r")
      case True
      have "height (mk d T0 a b s) = Suc (height (fst ?r))"
        using True r h "2.prems"(5) by simp
      then show ?thesis
        using "2.IH"(2)[of ?nb, OF _ _ _ _ t'(3) dr, of "mk d T0 a b s"] rotate True up t' "2.prems"(3) r(1)
        by (simp add: remove_finish_Some Let_def)
    next
      case False
      then show ?thesis
        using rotate up t' by (auto simp: remove_finish_Some Let_def dest: focus_tree_rep)
    qed
  qed
qed

section \<open>Cutting out a node that has at most one child\<close>

definition link :: "addr option \<Rightarrow> bool \<Rightarrow> addr option \<Rightarrow> avl_tree \<Rightarrow> avl_tree" where
  "link par ci q t = (case par of None \<Rightarrow> t\<lparr>avl_root := q\<rparr> | Some p \<Rightarrow> set_child p ci q t)"

lemma link_focus:
  assumes "ctxrep (avl_mem t) c (p, par, ci) (avl_root t, None, ci0)" "cdist c"
    and "rep (avl_mem t) q par ci T" "set (inorder T) \<inter> ctxaddrs c = {}"
  shows "focus (link par ci q t) c q par ci T"
proof (cases c)
  case Nil
  then show ?thesis using assms by (auto simp: focus_def link_def)
next
  case (Cons f c')
  obtain d a b s where f: "f = (d, a, b, s)" by (cases f)
  have "a \<notin> set (inorder T)" using assms(4) Cons f by auto
  then show ?thesis using assms Cons f by (auto simp: focus_def link_def avl_access)
qed

text \<open>\<open>avl_remove\<close> after the optional swap.\<close>

definition remove_cut :: "avl_tree \<Rightarrow> addr \<Rightarrow> avl_tree res" where
  "remove_cut t delete =
     ASSERT (avl_numnodes_of t > 0)
       (let t = t\<lparr>avl_numnodes_of := avl_numnodes_of t - 1\<rparr>;
            parent = AVL_XPARENT t delete;
            which_child = AVL_XCHILD t delete;
            node = (if node_child t delete False \<noteq> None then node_child t delete False
                    else node_child t delete True);
            t = t\<lparr>avl_mem := moved (avl_mem t) node parent which_child\<rparr>
        in remove_finish (link parent which_child node t) parent which_child)"

lemma avl_remove_cut:
  "avl_remove t data =
     rbind (if node_child t data False \<noteq> None \<and> node_child t data True \<noteq> None
            then rbind (avl_remove_swap t data) (\<lambda>t. Inr (t, avl_tmp))
            else Inr (t, data))
       (\<lambda>(t, delete). remove_cut t delete)"
proof -
  have "(case node of None \<Rightarrow> t | Some n \<Rightarrow> AVL_SETCHILD n w (AVL_SETPARENT n p t))
      = t\<lparr>avl_mem := moved (avl_mem t) node p w\<rparr>" for node w p t
    by (auto simp: moved_def avl_access split: option.split)
  then show ?thesis
    unfolding avl_remove_def remove_cut_def Let_def remove_finish_def link_def
    by (auto intro!: arg_cong[where f = "rbind _"] simp: fun_eq_iff split: option.split)
qed

lemma remove_cut_refines:
  assumes foc: "focus t c (Some a) par ci (mk d X a b ALeaf)"
    and dist: "dist (plug c (mk d X a b ALeaf))"
    and bal: "balanced (plug c (mk d X a b ALeaf))"
    and n: "avl_numnodes_of t > 0"
  shows "\<exists>t'. remove_cut t a = Inr t' \<and> tree_rep t' (del_fix c X)
     \<and> avl_numnodes_of t' = avl_numnodes_of t - 1"
proof -
  let ?m = "avl_mem t"
  obtain ci0 where ctx: "ctxrep ?m c (Some a, par, ci) (avl_root t, None, ci0)"
    using foc by (auto simp: focus_def)
  have a: "avl_parent (?m a) = par" "avl_child_index (?m a) = ci"
    "avl_child (?m a) (\<not> d) = None"
    and X: "rep ?m (avl_child (?m a) d) (Some a) d X"
    using foc by (auto simp: focus_def rep_mk)
  define q where "q = avl_child (?m a) d"
  define t1 where "t1 = t\<lparr>avl_numnodes_of := avl_numnodes_of t - 1, avl_mem := moved ?m q par ci\<rparr>"
  have dX: "dist X" "cdist c" "set (inorder X) \<inter> ctxaddrs c = {}"
    using dist by auto
  have c1: "ctxrep (avl_mem t1) c (Some a, par, ci) (avl_root t1, None, ci0)"
    using ctx ctxrep_moved_other[OF X dX(3)] by (simp add: t1_def q_def)
  have X1: "rep (avl_mem t1) q par ci X"
    using rep_moved[OF X dX(1)] by (simp add: t1_def q_def)
  have foc1: "focus (link par ci q t1) c q par ci X"
    by (rule link_focus[OF c1 dX(2) X1 dX(3)])
  have "balanced (mk d X a b ALeaf)" using bal by (rule balanced_plugD)
  then have X': "balanced X" "height (mk d X a b ALeaf) = Suc (height X)"
    by (auto simp: balanced_mk)
  have "dist (plug c X)" using dX by simp
  from remove_finish_refines[OF foc1 this bal X'] obtain t' where
    t': "remove_finish (link par ci q t1) par ci = Inr t'" "tree_rep t' (del_fix c X)"
      "avl_numnodes_of t' = avl_numnodes_of (link par ci q t1)" by blast
  have eq: "avl_child (?m a) False = None \<Longrightarrow> avl_child (?m a) True = q"
    "avl_child (?m a) False \<noteq> None \<Longrightarrow> avl_child (?m a) False = q"
    using a(3) by (cases d; auto simp: q_def)+
  have "remove_cut t a = remove_finish (link par ci q t1) par ci"
    using n eq unfolding remove_cut_def Let_def t1_def
    by (cases "avl_child (?m a) False") (auto simp: avl_access a)
  moreover have "avl_numnodes_of (link par ci q t1) = avl_numnodes_of t - 1"
    by (simp add: link_def t1_def avl_access split: option.split)
  ultimately show ?thesis using t' by auto
qed

section \<open>Swapping a node with its neighbour\<close>

lemma avl_descend_ctx:
  assumes "rep (avl_mem t) (Some a) par ci T"
  shows "\<exists>c X n nb. avl_descend t d a = Some n \<and> T = plug c (mk (\<not> d) X n nb ALeaf)
     \<and> outside d c = []"
  using assms
proof (induction T arbitrary: a par ci)
  case ALeaf
  then show ?case by simp
next
  case (ANode l k b r)
  define x y where "x = (if d then r else l)" and "y = (if d then l else r)"
  have T: "ANode l k b r = mk d x k b y" by (simp add: x_def y_def mk_def)
  have k: "k = a" and x: "rep (avl_mem t) (node_child t a d) (Some a) d x"
    using ANode.prems unfolding T by (auto simp: rep_mk node_child_def)
  show ?case
  proof (cases "node_child t a d")
    case None
    then have "x = ALeaf" using x rep_root by metis
    then have "ANode l k b r = plug [] (mk (\<not> d) y a b ALeaf)"
      using T k mk_flip[of d x k b y] by simp
    moreover have "avl_descend t d a = Some a" "outside d [] = []"
      using None by (simp_all add: avl_descend.simps)
    ultimately show ?thesis by blast
  next
    case (Some n)
    have "\<exists>c X m nb. avl_descend t d n = Some m \<and> x = plug c (mk (\<not> d) X m nb ALeaf)
        \<and> outside d c = []"
      using x Some ANode.IH unfolding x_def by (cases d; simp; blast)
    then obtain c X m nb where "avl_descend t d n = Some m" and xc: "x = plug c (mk (\<not> d) X m nb ALeaf)"
      and "outside d c = []" by blast
    moreover have "outside d (c @ [(d, a, b, y)]) = []"
      using \<open>outside d c = []\<close> by (auto simp: outside_def before_append after_append)
    moreover have "avl_descend t d a = avl_descend t d n"
      using Some by (simp add: avl_descend.simps[of t d a])
    moreover have "ANode l k b r = plug (c @ [(d, a, b, y)]) (mk (\<not> d) X m nb ALeaf)"
      using T k xc by (simp add: plug_append)
    ultimately show ?thesis by metis
  qed
qed

lemma ctxrep_in_child:
  "ctxrep m c (p, Some q, i) out \<Longrightarrow> cdist c \<Longrightarrow> c \<noteq> [] \<Longrightarrow>
   ctxrep (m(q := (m q)\<lparr>avl_child := (avl_child (m q))(i := p')\<rparr>)) c (p', Some q, i) out"
  by (cases c) auto

lemma ctxrep_out_parent:
  assumes "ctxrep m c x (Some l, par, i)" "cdist c" "c \<noteq> []"
  shows "ctxrep (m(l := (m l)\<lparr>avl_parent := par'\<rparr>)) c x (Some l, par', i)"
proof -
  obtain c' d a b s where c: "c = c' @ [(d, a, b, s)]"
    using assms(3) by (metis rev_exhaust surj_pair)
  have "cdist c' \<and> a \<notin> ctxaddrs c' \<and> a \<notin> set (inorder s)"
    using assms(2) unfolding c by (induction c' rule: cdist.induct) auto
  with assms(1) show ?thesis
    unfolding c ctxrep_append by fastforce
qed

lemma rep_set_parent:
  "rep m (Some k) par ci t \<Longrightarrow> dist t \<Longrightarrow> rep (m(k := (m k)\<lparr>avl_parent := par'\<rparr>)) (Some k) par' ci t"
  by (cases t) auto

lemma ctxrep_ends:
  assumes "ctxrep m c (p, q, i) (Some l, par, j)" "c \<noteq> []"
  shows "l \<in> ctxaddrs c" and "\<exists>k. q = Some k \<and> k \<in> ctxaddrs c"
proof -
  obtain c' d a b s where "c = c' @ [(d, a, b, s)]"
    using assms(2) by (metis rev_exhaust surj_pair)
  with assms(1) show "l \<in> ctxaddrs c" by (auto simp: ctxrep_append)
  show "\<exists>k. q = Some k \<and> k \<in> ctxaddrs c" using assms by (cases c) auto
qed


text \<open>
  The state in which \<open>avl_remove_swap\<close> works: \<open>dl\<close> has two children, and \<open>nd\<close> is its
  neighbour at the end of the path \<open>c2\<close> in the taller subtree.
\<close>

definition swap_tree :: "bool \<Rightarrow> frame list \<Rightarrow> atree \<Rightarrow> addr \<Rightarrow> int \<Rightarrow> addr \<Rightarrow> int \<Rightarrow> atree \<Rightarrow> atree" where
  "swap_tree left c2 X nd nb dl b R = mk left (plug c2 (mk left X nd nb ALeaf)) dl b R"

definition swap_apart :: "frame list \<Rightarrow> frame list \<Rightarrow> atree \<Rightarrow> addr \<Rightarrow> addr \<Rightarrow> atree \<Rightarrow> bool" where
  "swap_apart c c2 X nd dl R \<longleftrightarrow>
     nd \<noteq> dl \<and> avl_tmp \<noteq> dl \<and> avl_tmp \<noteq> nd \<and> cdist c \<and> cdist c2 \<and> dist R \<and> dist X
     \<and> {nd, dl, avl_tmp} \<inter> (ctxaddrs c \<union> ctxaddrs c2 \<union> set (inorder R) \<union> set (inorder X)) = {}
     \<and> ctxaddrs c2 \<inter> ctxaddrs c = {} \<and> ctxaddrs c2 \<inter> set (inorder R) = {}
     \<and> ctxaddrs c2 \<inter> set (inorder X) = {} \<and> set (inorder X) \<inter> set (inorder R) = {}
     \<and> set (inorder X) \<inter> ctxaddrs c = {} \<and> set (inorder R) \<inter> ctxaddrs c = {}"

lemma swap_apartI:
  assumes "dist (plug c (swap_tree left c2 X nd nb dl b R))"
    and "avl_tmp \<notin> set (inorder (plug c (swap_tree left c2 X nd nb dl b R)))"
  shows "swap_apart c c2 X nd dl R"
  using assms by (auto simp: swap_apart_def swap_tree_def)

text \<open>What the memory holds before the swap.\<close>

definition swap_mem :: "avl_tree \<Rightarrow> frame list \<Rightarrow> addr option \<Rightarrow> bool \<Rightarrow> bool \<Rightarrow> bool \<Rightarrow> frame list \<Rightarrow> atree
    \<Rightarrow> addr \<Rightarrow> int \<Rightarrow> addr \<Rightarrow> int \<Rightarrow> atree \<Rightarrow> addr \<Rightarrow> addr option \<Rightarrow> bool \<Rightarrow> bool" where
  "swap_mem t c par ci ci0 left c2 X nd nb dl b R rr np nci \<longleftrightarrow>
     ctxrep (avl_mem t) c (Some dl, par, ci) (avl_root t, None, ci0)
     \<and> ctxrep (avl_mem t) c2 (Some nd, np, nci) (avl_child (avl_mem t dl) left, Some dl, left)
     \<and> avl_parent (avl_mem t nd) = np \<and> avl_child_index (avl_mem t nd) = nci
     \<and> avl_balance (avl_mem t nd) = nb \<and> avl_child (avl_mem t nd) (\<not> left) = None
     \<and> rep (avl_mem t) (avl_child (avl_mem t nd) left) (Some nd) left X
     \<and> rep (avl_mem t) (Some rr) (Some dl) (\<not> left) R
     \<and> avl_child (avl_mem t dl) (\<not> left) = Some rr \<and> rr \<in> set (inorder R)
     \<and> avl_parent (avl_mem t dl) = par \<and> avl_child_index (avl_mem t dl) = ci
     \<and> avl_balance (avl_mem t dl) = b"

lemma swap_memI:
  assumes "focus t c (Some dl) par ci (swap_tree left c2 X nd nb dl b R)" "R \<noteq> ALeaf"
  obtains ci0 rr np nci where "swap_mem t c par ci ci0 left c2 X nd nb dl b R rr np nci"
  using assms by (cases R) (auto simp: swap_tree_def swap_mem_def focus_def rep_mk rep_plug)

text \<open>What it has to hold afterwards, region by region.\<close>

lemma swap_focus:
  assumes ap: "swap_apart c c2 X nd dl R"
    and mem: "swap_mem t c par ci ci0 left c2 X nd nb dl b R rr np nci"
    and ctx: "ctxrep M c (Some nd, par, ci) (avl_root t', None, ci0)"
    and nd: "M nd = (avl_mem t dl)\<lparr>avl_child := (avl_child (avl_mem t dl))(left := p)\<rparr>"
    and tmp: "M avl_tmp = (avl_mem t nd)\<lparr>avl_parent := par'\<rparr>"
    and c2: "ctxrep M c2 (Some avl_tmp, par', nci) (p, Some nd, left)"
    and R: "\<And>a. a \<in> set (inorder R) \<Longrightarrow>
      M a = ((avl_mem t)(rr := (avl_mem t rr)\<lparr>avl_parent := Some nd\<rparr>)) a"
    and X: "\<And>a. a \<in> set (inorder X) \<Longrightarrow>
      M a = (case avl_child (avl_mem t nd) left of None \<Rightarrow> avl_mem t
             | Some k \<Rightarrow> (avl_mem t)(k := (avl_mem t k)\<lparr>avl_parent := Some avl_tmp\<rparr>)) a"
    and M: "M = avl_mem t'"
  shows "focus t' (c2 @ (left, nd, b, R) # c) (Some avl_tmp) par' nci (mk left X avl_tmp nb ALeaf)"
proof -
  note mem = mem[unfolded swap_mem_def]
  have "rep ((avl_mem t)(rr := (avl_mem t rr)\<lparr>avl_parent := Some nd\<rparr>)) (Some rr) (Some nd) (\<not> left) R"
    using mem ap by (intro rep_set_parent) (auto simp: swap_apart_def)
  then have r: "rep M (Some rr) (Some nd) (\<not> left) R"
    using R rep_frame by blast
  have x: "rep M (avl_child (avl_mem t nd) left) (Some avl_tmp) left X"
  proof (cases "avl_child (avl_mem t nd) left")
    case None
    moreover have "X = ALeaf" using mem None by (cases X) auto
    ultimately show ?thesis by simp
  next
    case (Some k)
    have "rep ((avl_mem t)(k := (avl_mem t k)\<lparr>avl_parent := Some avl_tmp\<rparr>)) (Some k) (Some avl_tmp) left X"
      using mem ap Some by (intro rep_set_parent) (auto simp: swap_apart_def)
    moreover have "rep M (Some k) (Some avl_tmp) left X =
        rep ((avl_mem t)(k := (avl_mem t k)\<lparr>avl_parent := Some avl_tmp\<rparr>)) (Some k) (Some avl_tmp) left X"
      by (rule rep_frame) (simp add: X Some)
    ultimately show ?thesis using Some by simp
  qed
  show ?thesis
    unfolding focus_def M[symmetric]
    using mem ctx nd tmp c2 r x by (auto simp: ctxrep_append rep_mk)
qed

text \<open>
  The steps of \<open>avl_remove_swap\<close>, with the pointers its loads have returned: \<open>p\<close> is the child
  \<open>left\<close> of the moved node, \<open>q\<close> the parent of the temporary.
\<close>

definition swap_steps :: "avl_tree \<Rightarrow> bool \<Rightarrow> addr \<Rightarrow> addr \<Rightarrow> addr \<Rightarrow> addr \<Rightarrow> addr \<Rightarrow> bool \<Rightarrow> avl_tree" where
  "swap_steps t left nd dl p rr q nci =
     (let m = avl_mem t;
          t1 = t\<lparr>avl_mem := m(avl_tmp := m nd,
                 nd := (m dl)\<lparr>avl_child := (avl_child (m dl))(left := Some p)\<rparr>)\<rparr>;
          t2 = relink (avl_parent (m dl)) (avl_child_index (m dl)) nd t1;
          t3 = AVL_SETPARENT rr (Some nd) (AVL_SETPARENT p (Some nd) t2);
          t4 = set_child q nci (Some avl_tmp) t3
      in (case avl_child (m nd) left of
            None \<Rightarrow> t4
          | Some k \<Rightarrow> AVL_SETPARENT k (Some avl_tmp) t4))"

lemma swap_steps_eval:
  assumes ap: "swap_apart c c2 X nd dl R"
    and mem: "swap_mem t c par ci ci0 left c2 X nd nb dl b R rr np nci"
    and left: "left = avl_balance2child (b + 1)"
    and l: "avl_child (avl_mem t dl) left = Some l" "avl_descend t (\<not> left) l = Some nd"
    and p: "p = (if l = nd then avl_tmp else l)" "l \<noteq> avl_tmp" "p \<notin> ctxaddrs c"
    and q: "(if l = nd then Some nd else np) = Some q" "q \<noteq> avl_tmp"
  shows "avl_remove_swap t dl = Inr (swap_steps t left nd dl p rr q nci)"
proof -
  let ?m = "avl_mem t"
  note mem = mem[unfolded swap_mem_def]
  have par: "par \<noteq> Some nd" "par \<noteq> Some avl_tmp"
    using mem ap by (cases c; auto simp: swap_apart_def)+
  have rr: "rr \<noteq> nd" "rr \<noteq> avl_tmp" using mem ap by (auto simp: swap_apart_def)
  have ne: "nd \<noteq> dl" "avl_tmp \<noteq> dl" "avl_tmp \<noteq> nd" using ap by (auto simp: swap_apart_def)
  define t1 where "t1 = t\<lparr>avl_mem := ?m(avl_tmp := ?m nd,
      nd := (?m dl)\<lparr>avl_child := (avl_child (?m dl))(left := Some p)\<rparr>)\<rparr>"
  define t2 where "t2 = relink par ci nd t1"
  define t3 where "t3 = AVL_SETPARENT rr (Some nd) (AVL_SETPARENT p (Some nd) t2)"
  define t4 where "t4 = set_child q nci (Some avl_tmp) t3"
  let ?u = "set_node nd (avl_mem (set_node avl_tmp (?m nd) t) dl) (set_node avl_tmp (?m nd) t)"
  have 1: "(if node_child ?u nd left = Some nd then set_child nd left (Some avl_tmp) ?u else ?u) = t1"
    using ne l p(1) by (auto simp: t1_def avl_access fun_upd_idem)
  have 2: "AVL_XPARENT t1 nd = par" "AVL_XCHILD t1 nd = ci"
    using mem by (simp_all add: t1_def avl_access)
  have m2: "avl_mem t2 nd = avl_mem t1 nd" "avl_mem t2 avl_tmp = ?m nd"
    unfolding t2_def using par ne by (simp_all add: relink_mem_other t1_def)
  have 3: "node_child t2 nd left = Some p" "node_child (AVL_SETPARENT p (Some nd) t2) nd (\<not> left) = Some rr"
    using mem m2 p ne by (auto simp: avl_access t1_def)
  have 4: "AVL_XPARENT t3 avl_tmp = Some q" "AVL_XCHILD t3 avl_tmp = nci"
    using mem m2 rr ne p q by (auto simp: avl_access t3_def split: if_splits)
  have tmp: "node_child t4 avl_tmp s = avl_child (?m nd) s" for s
    using m2 rr q(2) by (simp add: avl_access t3_def t4_def)
  then have 5: "node_child t4 avl_tmp (node_child t4 avl_tmp True \<noteq> None) = avl_child (?m nd) left"
    using mem by (cases left; cases "avl_child (?m nd) True") auto
  have dlp: "avl_parent (?m dl) = par" "avl_child_index (?m dl) = ci" using mem by simp_all
  have d: "AVL_XBALANCE t dl = b" "node_child t dl left = Some l"
    using mem l by (simp_all add: avl_access)
  have s: "swap_steps t left nd dl p rr q nci =
      (case avl_child (?m nd) left of None \<Rightarrow> t4 | Some k \<Rightarrow> AVL_SETPARENT k (Some avl_tmp) t4)"
    unfolding swap_steps_def Let_def t4_def t3_def t2_def t1_def dlp by (rule refl)
  show ?thesis
    unfolding avl_remove_swap_def Let_def d(1) left[symmetric] d(2) deref.simps rbind.simps l(2)
      of_loop.simps 1 2 t2_def[symmetric] 3 t3_def[symmetric] 4 t4_def[symmetric] 5 s by (rule refl)
qed

lemma swap_steps_simps:
  "avl_numnodes_of (swap_steps t left nd dl p rr q nci) = avl_numnodes_of t"
  "avl_root (swap_steps t left nd dl p rr q nci) =
     (if avl_parent (avl_mem t dl) = None then Some nd else avl_root t)"
  unfolding swap_steps_def Let_def
  by (cases "avl_child (avl_mem t nd) left"; cases "avl_parent (avl_mem t dl)";
      simp add: avl_access relink_def)+

lemma swap_regions:
  assumes ap: "swap_apart c c2 X nd dl R"
    and mem: "swap_mem t c par ci ci0 left c2 X nd nb dl b R rr np nci"
    and p: "p \<notin> ctxaddrs c" "p \<notin> set (inorder R)" "p \<notin> set (inorder X)"
    and q: "q \<notin> ctxaddrs c" "q \<notin> set (inorder R)" "q \<notin> set (inorder X)"
  shows "ctxrep (avl_mem (swap_steps t left nd dl p rr q nci)) c (Some nd, par, ci)
           (avl_root (swap_steps t left nd dl p rr q nci), None, ci0)"
    and "a \<in> set (inorder R) \<Longrightarrow> avl_mem (swap_steps t left nd dl p rr q nci) a
           = ((avl_mem t)(rr := (avl_mem t rr)\<lparr>avl_parent := Some nd\<rparr>)) a"
    and "a \<in> set (inorder X) \<Longrightarrow> avl_mem (swap_steps t left nd dl p rr q nci) a
           = (case avl_child (avl_mem t nd) left of None \<Rightarrow> avl_mem t
              | Some k \<Rightarrow> (avl_mem t)(k := (avl_mem t k)\<lparr>avl_parent := Some avl_tmp\<rparr>)) a"
proof -
  let ?S = "swap_steps t left nd dl p rr q nci" and ?m = "avl_mem t"
  note ap = ap[unfolded swap_apart_def] and mem = mem[unfolded swap_mem_def]
  have k: "avl_child (?m nd) left = Some k \<Longrightarrow> k \<in> set (inorder X)" for k
    using mem by (cases X) auto
  have par: "par = Some k \<Longrightarrow> k \<in> ctxaddrs c" for k
    using mem by (cases c) auto
  have dlp: "avl_parent (?m dl) = par" "avl_child_index (?m dl) = ci" using mem by simp_all
  have "avl_mem ?S a = avl_mem (relink par ci nd t) a" if "a \<in> ctxaddrs c" for a
  proof -
    have "a \<noteq> avl_tmp" "a \<noteq> nd" "a \<noteq> p" "a \<noteq> rr" "a \<noteq> q" "avl_child (?m nd) left \<noteq> Some a"
      using that ap mem p q k by auto
    then show ?thesis
      unfolding swap_steps_def Let_def dlp
      by (cases par; cases "avl_child (?m nd) left") (auto simp: relink_def avl_access)
  qed
  moreover have "avl_root ?S = avl_root (relink par ci nd t)"
    unfolding swap_steps_simps dlp by (cases par) (auto simp: relink_def avl_access)
  moreover have "ctxrep (avl_mem (relink par ci nd t)) c (Some nd, par, ci) (avl_root (relink par ci nd t), None, ci0)"
    by (rule relink_ctx[of t c "Some dl"]) (use mem ap in simp_all)
  ultimately show "ctxrep (avl_mem ?S) c (Some nd, par, ci) (avl_root ?S, None, ci0)"
    using ctxrep_frame by metis
  show "avl_mem ?S a = (?m(rr := (?m rr)\<lparr>avl_parent := Some nd\<rparr>)) a" if "a \<in> set (inorder R)"
  proof -
    have "a \<noteq> avl_tmp" "a \<noteq> nd" "a \<noteq> p" "a \<noteq> q" "avl_child (?m nd) left \<noteq> Some a" "par \<noteq> Some a"
      using that ap p q k par by auto
    then show ?thesis
      unfolding swap_steps_def Let_def dlp
      by (cases "avl_child (?m nd) left") (auto simp: avl_access relink_mem_other)
  qed
  show "avl_mem ?S a = (case avl_child (?m nd) left of None \<Rightarrow> ?m
      | Some k \<Rightarrow> ?m(k := (?m k)\<lparr>avl_parent := Some avl_tmp\<rparr>)) a" if "a \<in> set (inorder X)"
  proof -
    have x: "x \<noteq> avl_tmp \<and> x \<noteq> nd \<and> x \<noteq> p \<and> x \<noteq> q \<and> x \<noteq> rr \<and> par \<noteq> Some x" if "x \<in> set (inorder X)" for x
      using that ap mem p q par by auto
    show ?thesis
    proof (cases "avl_child (?m nd) left")
      case None
      with x[OF that] show ?thesis
        unfolding swap_steps_def Let_def dlp by (auto simp: avl_access relink_mem_other)
    next
      case (Some k')
      with x[OF that] x[OF k[OF Some]] show ?thesis
        unfolding swap_steps_def Let_def dlp by (auto simp: avl_access relink_mem_other)
    qed
  qed
qed

lemma remove_swap_refines:
  assumes foc: "focus t c (Some dl) par ci (swap_tree left c2 X nd nb dl b R)"
    and dist: "dist (plug c (swap_tree left c2 X nd nb dl b R))"
    and tmp: "avl_tmp \<notin> set (inorder (plug c (swap_tree left c2 X nd nb dl b R)))"
    and R: "R \<noteq> ALeaf" and left: "left = avl_balance2child (b + 1)"
    and l: "avl_child (avl_mem t dl) left = Some l" "avl_descend t (\<not> left) l = Some nd"
  shows "\<exists>t' par' ci'. avl_remove_swap t dl = Inr t'
     \<and> avl_numnodes_of t' = avl_numnodes_of t
     \<and> focus t' (c2 @ (left, nd, b, R) # c) (Some avl_tmp) par' ci' (mk left X avl_tmp nb ALeaf)"
proof -
  let ?m = "avl_mem t"
  have ap: "swap_apart c c2 X nd dl R" using dist tmp by (rule swap_apartI)
  note A = ap[unfolded swap_apart_def]
  obtain ci0 rr np nci where mem: "swap_mem t c par ci ci0 left c2 X nd nb dl b R rr np nci"
    using foc R by (rule swap_memI)
  note M = mem[unfolded swap_mem_def]
  have par: "par \<noteq> Some nd" "par \<noteq> Some avl_tmp" using M A by (cases c; auto)+
  have k: "avl_child (?m nd) left \<noteq> Some nd" "avl_child (?m nd) left \<noteq> Some avl_tmp"
    using M A by (cases X; auto)+
  have dlp: "avl_parent (?m dl) = par" "avl_child_index (?m dl) = ci"
    and np: "avl_parent (?m nd) = np" using M by simp_all
  have rr: "rr \<noteq> nd" "rr \<noteq> avl_tmp" and ne0: "nd \<noteq> avl_tmp" using M A by auto
  show ?thesis
  proof (cases c2)
    case Nil
    then have near: "l = nd" "np = Some dl" "nci = left" using M l by auto
    let ?S = "swap_steps t left nd dl avl_tmp rr nd nci"
    have out: "avl_tmp \<notin> ctxaddrs c" "avl_tmp \<notin> set (inorder R)" "avl_tmp \<notin> set (inorder X)"
      "nd \<notin> ctxaddrs c" "nd \<notin> set (inorder R)" "nd \<notin> set (inorder X)" using A by auto
    note r = swap_regions[OF ap mem out]
    have "avl_remove_swap t dl = Inr ?S"
      by (rule swap_steps_eval[OF ap mem left l]) (use A near in auto)
    moreover have "focus ?S (c2 @ (left, nd, b, R) # c) (Some avl_tmp) (Some nd) nci (mk left X avl_tmp nb ALeaf)"
    proof (rule swap_focus[OF ap mem r(1) _ _ _ r(2) r(3) refl])
      show "avl_mem ?S nd = (?m dl)\<lparr>avl_child := (avl_child (?m dl))(left := Some avl_tmp)\<rparr>"
        and "avl_mem ?S avl_tmp = (?m nd)\<lparr>avl_parent := Some nd\<rparr>"
        using near par k rr ne0 unfolding swap_steps_def Let_def dlp
        by (cases "avl_child (?m nd) left"; auto simp: avl_access relink_mem_other)+
      show "ctxrep (avl_mem ?S) c2 (Some avl_tmp, Some nd, nci) (Some avl_tmp, Some nd, left)"
        using Nil near by simp
    qed
    ultimately show ?thesis using swap_steps_simps by blast
  next
    case (Cons f c2')
    then have far: "c2 \<noteq> []" by simp
    obtain q where q: "np = Some q" "q \<in> ctxaddrs c2" and lc: "l \<in> ctxaddrs c2"
      using ctxrep_ends[OF _ far] M l by metis
    have ne: "l \<noteq> nd" "l \<noteq> avl_tmp" "q \<noteq> nd" "q \<noteq> avl_tmp" "rr \<noteq> nd" "rr \<noteq> avl_tmp" "q \<noteq> rr" "l \<noteq> rr"
      using A M lc q by auto
    let ?S = "swap_steps t left nd dl l rr q nci"
    have out: "l \<notin> ctxaddrs c" "l \<notin> set (inorder R)" "l \<notin> set (inorder X)"
      "q \<notin> ctxaddrs c" "q \<notin> set (inorder R)" "q \<notin> set (inorder X)" using A lc q by auto
    note r = swap_regions[OF ap mem out]
    define ml where "ml = ?m(l := (?m l)\<lparr>avl_parent := Some nd\<rparr>)"
    have "avl_remove_swap t dl = Inr ?S"
      by (rule swap_steps_eval[OF ap mem left l]) (use A ne lc q in auto)
    moreover have "focus ?S (c2 @ (left, nd, b, R) # c) (Some avl_tmp) (Some q) nci (mk left X avl_tmp nb ALeaf)"
    proof (rule swap_focus[OF ap mem r(1) _ _ _ r(2) r(3) refl])
      show "avl_mem ?S nd = (?m dl)\<lparr>avl_child := (avl_child (?m dl))(left := Some l)\<rparr>"
        and "avl_mem ?S avl_tmp = (?m nd)\<lparr>avl_parent := Some q\<rparr>"
        using ne q par k ne0 np unfolding swap_steps_def Let_def dlp
        by (cases "avl_child (?m nd) left"; auto simp: avl_access relink_mem_other)+
      have "ctxrep ml c2 (Some nd, Some q, nci) (Some l, Some nd, left)"
        unfolding ml_def using ctxrep_out_parent[of ?m c2 _ l] M A far l q by metis
      then have "ctxrep (ml(q := (ml q)\<lparr>avl_child := (avl_child (ml q))(nci := Some avl_tmp)\<rparr>)) c2
          (Some avl_tmp, Some q, nci) (Some l, Some nd, left)"
        using A far by (intro ctxrep_in_child) auto
      moreover have "avl_mem ?S a = (ml(q := (ml q)\<lparr>avl_child := (avl_child (ml q))(nci := Some avl_tmp)\<rparr>)) a"
        if "a \<in> ctxaddrs c2" for a
      proof -
        have "x \<noteq> rr \<and> x \<noteq> nd \<and> x \<noteq> avl_tmp \<and> par \<noteq> Some x \<and> avl_child (?m nd) left \<noteq> Some x"
          if "x \<in> ctxaddrs c2" for x
          using that A M by (cases c; cases X) auto
        from this[OF that] this[OF q(2)] this[OF lc] show ?thesis
          unfolding swap_steps_def Let_def dlp ml_def
          by (cases "avl_child (?m nd) left") (auto simp: avl_access relink_mem_other)
      qed
      ultimately show "ctxrep (avl_mem ?S) c2 (Some avl_tmp, Some q, nci) (Some l, Some nd, left)"
        using ctxrep_frame by blast
    qed
    ultimately show ?thesis using swap_steps_simps by blast
  qed
qed

section \<open>Removal\<close>

lemma balanced_relabel:
  "balanced (plug c (mk d x a b y)) \<longleftrightarrow> balanced (plug c (mk d x a' b y))"
proof -
  have "balanced (plug c (mk d x a' b y))" if "balanced (plug c (mk d x a b y))" for a a'
    by (rule balanced_plug_replace[OF that])
       (use balanced_plugD[OF that] in \<open>simp_all add: balanced_mk\<close>)
  then show ?thesis by blast
qed

lemma swap_tree_relabel:
  assumes "balanced (plug c (swap_tree left c2 X nd nb dl b R))"
  shows "balanced (plug (c2 @ (left, nd', b, R) # c) (mk left X nd'' nb ALeaf))"
proof -
  have "balanced (plug c (mk left (plug c2 (mk left X nd nb ALeaf)) nd' b R))"
    using assms balanced_relabel unfolding swap_tree_def by blast
  then have "balanced (plug (c2 @ (left, nd', b, R) # c) (mk left X nd nb ALeaf))"
    by (simp add: plug_append)
  then show ?thesis using balanced_relabel by blast
qed

lemma avl_inv_removed:
  assumes inv: "avl_inv t (ys @ a # zs)"
    and t': "tree_rep t' (del_fix c X)" "avl_numnodes_of t' = avl_numnodes_of t - 1"
    and bal: "balanced (plug c (mk d X k b ALeaf))"
    and ord: "before c @ inorder X @ after c = ys @ zs"
  shows "avl_inv t' (ys @ zs)"
proof -
  have "balanced (mk d X k b ALeaf)" using bal by (rule balanced_plugD)
  then have "balanced (del_fix c X) \<and> inorder (del_fix c X) = inorder (plug c X)"
    by (intro del_fix_props[OF bal]) (auto simp: balanced_mk)
  with assms show ?thesis by (auto simp: avl_inv_def inorder_plug)
qed

lemma avl_remove_one_child:
  assumes inv: "avl_inv t (ys @ a # zs)"
    and foc: "focus t c (Some a) par ci (mk d X a b ALeaf)"
    and bal: "balanced (plug c (mk d X a b ALeaf))" and dist: "dist (plug c (mk d X a b ALeaf))"
    and ord: "before c @ inorder X @ after c = ys @ zs"
  shows "\<exists>t'. avl_remove t a = Inr t' \<and> avl_inv t' (ys @ zs)"
proof -
  have "avl_numnodes_of t > 0" using inv by (simp add: avl_inv_def)
  then obtain t' where t': "remove_cut t a = Inr t'" "tree_rep t' (del_fix c X)"
    "avl_numnodes_of t' = avl_numnodes_of t - 1"
    using remove_cut_refines[OF foc dist bal] by blast
  have "node_child t a (\<not> d) = None"
    using foc by (simp add: focus_def rep_mk node_child_def)
  then have "avl_remove t a = Inr t'"
    using t'(1) by (cases d) (auto simp: avl_remove_cut)
  with avl_inv_removed[OF inv t'(2,3) bal ord] show ?thesis by blast
qed

lemma avl_remove_two_children:
  assumes inv: "avl_inv t (ys @ a # zs)"
    and foc: "focus t c (Some a) par ci (mk left L a b R)"
    and left: "left = avl_balance2child (b + 1)" and LR: "L \<noteq> ALeaf" "R \<noteq> ALeaf"
    and bal: "balanced (plug c (mk left L a b R))" and dist: "dist (plug c (mk left L a b R))"
    and ord: "inorder (plug c (mk left L a b R)) = ys @ a # zs"
  shows "\<exists>t'. avl_remove t a = Inr t' \<and> avl_inv t' (ys @ zs)"
proof -
  obtain l where l: "avl_child (avl_mem t a) left = Some l"
    and lrep: "rep (avl_mem t) (Some l) (Some a) left L"
    using foc LR(1) by (cases L) (auto simp: focus_def rep_mk)
  have rchild: "node_child t a (\<not> left) \<noteq> None"
    using foc LR(2) by (cases R) (auto simp: focus_def rep_mk node_child_def)
  obtain c2 X nd nb where c2: "avl_descend t (\<not> left) l = Some nd"
    "L = plug c2 (mk left X nd nb ALeaf)" "outside (\<not> left) c2 = []"
    using avl_descend_ctx[OF lrep, of "\<not> left"] by auto
  have st: "mk left L a b R = swap_tree left c2 X nd nb a b R"
    by (simp add: swap_tree_def c2(2))
  have tmp: "avl_tmp \<notin> set (inorder (plug c (mk left L a b R)))"
    using inv ord by (simp add: avl_inv_def)
  obtain t1 par' ci' where t1: "avl_remove_swap t a = Inr t1" "avl_numnodes_of t1 = avl_numnodes_of t"
    and foc1: "focus t1 (c2 @ (left, nd, b, R) # c) (Some avl_tmp) par' ci' (mk left X avl_tmp nb ALeaf)"
    using remove_swap_refines[OF foc[unfolded st] dist[unfolded st] tmp[unfolded st] LR(2) left l c2(1)]
    by blast
  let ?c = "c2 @ (left, nd, b, R) # c"
  have dist1: "dist (plug ?c (mk left X avl_tmp nb ALeaf))"
    using swap_apartI[OF dist[unfolded st] tmp[unfolded st]]
    by (auto simp: swap_apart_def plug_append)
  have bal1: "balanced (plug ?c (mk left X avl_tmp nb ALeaf))"
    using swap_tree_relabel bal[unfolded st] by blast
  have "avl_numnodes_of t1 > 0" using inv t1(2) by (simp add: avl_inv_def)
  then obtain t' where t': "remove_cut t1 avl_tmp = Inr t'" "tree_rep t' (del_fix ?c X)"
    "avl_numnodes_of t' = avl_numnodes_of t - 1"
    using remove_cut_refines[OF foc1 dist1 bal1] t1(2) by auto
  have "node_child t a False \<noteq> None \<and> node_child t a True \<noteq> None"
    using rchild l by (cases left) (auto simp: node_child_def)
  then have "avl_remove t a = Inr t'"
    using t1(1) t'(1) by (simp add: avl_remove_cut)
  moreover have "before ?c @ inorder X @ after ?c = ys @ zs"
  proof -
    have d: "distinct (ys @ a # zs)" using inv by (simp add: avl_inv_def)
    have "remove1 a (inorder (plug c (mk left L a b R))) = ys @ zs"
      using ord d by (simp add: remove1_append)
    moreover have "a \<notin> set (before c)" "a \<notin> set (inorder L)" "a \<notin> set (inorder R)"
      using dist by (auto simp: ctxaddrs_def)
    ultimately show ?thesis
      using c2(3) by (cases left)
        (auto simp: inorder_plug inorder_mk remove1_append before_append after_append c2(2) outside_def)
  qed
  ultimately show ?thesis
    using avl_inv_removed[OF inv t'(2,3) bal1] by blast
qed

lemma avl_remove_inv:
  assumes inv: "avl_inv t (ys @ a # zs)"
  shows "\<exists>t'. avl_remove t a = Inr t' \<and> avl_inv t' (ys @ zs)"
proof -
  obtain c par ci l b r where foc: "focus t c (Some a) par ci (ANode l a b r)"
    and eq: "ys = before c @ inorder l" "zs = inorder r @ after c"
    and bal: "balanced (plug c (ANode l a b r))" and dist: "dist (plug c (ANode l a b r))"
    using avl_inv_at[OF inv] by metis
  have mk: "ANode l a b r = mk True r a b l" "ANode l a b r = mk False l a b r"
    by (auto simp: mk_def)
  consider (left) "l = ALeaf" | (right) "r = ALeaf" | (two) "l \<noteq> ALeaf" "r \<noteq> ALeaf" by blast
  then show ?thesis
  proof cases
    case left
    then show ?thesis
      using avl_remove_one_child[OF inv, of c par ci True r b] foc bal dist mk eq by simp
  next
    case right
    then show ?thesis
      using avl_remove_one_child[OF inv, of c par ci False l b] foc bal dist mk eq by simp
  next
    case two
    define s where "s = avl_balance2child (b + 1)"
    have n: "ANode l a b r = mk s (if s then r else l) a b (if s then l else r)"
      by (simp add: mk_def)
    have ord: "inorder (plug c (mk s (if s then r else l) a b (if s then l else r))) = ys @ a # zs"
      unfolding n[symmetric] by (simp add: inorder_plug eq)
    show ?thesis
      by (rule avl_remove_two_children[OF inv foc[unfolded n] s_def _ _ bal[unfolded n] dist[unfolded n] ord])
         (use two in auto)
  qed
qed

end
