(* ===== verification/Avl_Destroy.thy ===== *)
theory Avl_Destroy
  imports Avl_Delete
begin

text \<open>
  Destruction in post order (\<open>avl_destroy_nodes\<close>): successive calls return every node of the
  tree once, children before parents, never read a node that has been returned, and leave an
  empty tree.
\<close>

section \<open>The state between two calls\<close>

text \<open>The nodes still to be returned when everything below a path has been returned.\<close>

fun post :: "frame list \<Rightarrow> addr list" where
  "post [] = []"
| "post ((d, a, b, s) # c) = postorder s @ a # post c"

text \<open>On the path, the left subtree of a node entered from the right is gone.\<close>

definition ok_frames :: "frame list \<Rightarrow> bool" where
  "ok_frames c \<longleftrightarrow> (\<forall>(d, a, b, s) \<in> set c. balanced s \<and> (d \<longrightarrow> s = ALeaf))"

definition pending :: "avl_tree \<Rightarrow> frame list \<Rightarrow> addr option \<Rightarrow> addr option \<Rightarrow> bool \<Rightarrow> bool" where
  "pending t c q par ci \<longleftrightarrow>
     (\<exists>ci0. ctxrep (avl_mem t) c (q, par, ci) (avl_root t, None, ci0)) \<and> cdist c \<and> ok_frames c"

definition destroying :: "avl_tree \<Rightarrow> avl_cookie \<Rightarrow> addr list \<Rightarrow> bool" where
  "destroying t cookie rest \<longleftrightarrow>
     cookie = CookieNull \<and> (\<exists>T. tree_rep t T \<and> balanced T \<and> dist T
        \<and> avl_numnodes_of t = length (inorder T) \<and> rest = postorder T)
     \<or> (\<exists>c q par ci. cookie = (if par = None then Cookie None True else Cookie par ci)
        \<and> pending t c (Some q) par ci \<and> avl_numnodes_of t = Suc (length (post c)) \<and> rest = post c)"

lemma set_postorder [simp]: "set (postorder T) = set (inorder T)"
  by (induction T) auto

lemma length_postorder [simp]: "length (postorder T) = length (inorder T)"
  by (induction T) auto

lemma set_post: "set (post c) = ctxaddrs c"
  by (induction c rule: post.induct) auto

lemma distinct_postorder: "dist T \<Longrightarrow> distinct (postorder T)"
  by (induction T) auto

lemma ok_frames_simps [simp]:
  "ok_frames []"
  "ok_frames ((d, a, b, s) # c) \<longleftrightarrow> balanced s \<and> (d \<longrightarrow> s = ALeaf) \<and> ok_frames c"
  by (auto simp: ok_frames_def)

definition next_cookie :: "avl_tree \<Rightarrow> addr \<Rightarrow> avl_cookie" where
  "next_cookie t x = (if AVL_XPARENT t x = None then Cookie None True
     else Cookie (AVL_XPARENT t x) (AVL_XCHILD t x))"

lemma destroying_later:
  "pending t c (Some x) (AVL_XPARENT t x) (AVL_XCHILD t x) \<Longrightarrow>
   avl_numnodes_of t = Suc (length (post c)) \<Longrightarrow> destroying t (next_cookie t x) (post c)"
  unfolding destroying_def next_cookie_def by blast

section \<open>Going to the first node of a subtree\<close>

lemma avl_leftmost_loop_rep:
  assumes "rep (avl_mem t) (Some k) par ci S"
  shows "\<exists>n. avl_leftmost_loop t k par = Some (n, AVL_XPARENT t n) \<and> hd_opt (inorder S) = Some n"
  using assms
proof (induction S arbitrary: k par ci)
  case (ANode l a b r)
  then have k: "a = k" "AVL_XPARENT t k = par"
    and l: "rep (avl_mem t) (node_child t k False) (Some k) False l"
    by (auto simp: avl_access)
  show ?case
  proof (cases "node_child t k False")
    case None
    moreover have "l = ALeaf" using None l rep_root by metis
    ultimately show ?thesis using k by (subst avl_leftmost_loop.simps) auto
  next
    case (Some k')
    with ANode.IH(1)[of k'] l obtain n where
      "avl_leftmost_loop t k' (Some k) = Some (n, AVL_XPARENT t n)" "hd_opt (inorder l) = Some n"
      by auto
    with Some show ?thesis
      by (subst avl_leftmost_loop.simps) (auto simp: hd_opt_append)
  qed
qed simp

lemma avl_destroy_done_pending:
  assumes "pending t c (Some x) (AVL_XPARENT t x) (AVL_XCHILD t x)"
  shows "avl_destroy_done t x (AVL_XPARENT t x) = Inr (t,
    next_cookie t x, Some x)"
  using assms by (cases c) (auto simp: avl_destroy_done_def pending_def next_cookie_def split: option.split)

lemma check_right_side_first:
  assumes "rep (avl_mem t) (Some k) par ci S" "balanced S" "dist S"
    and "pending t c (Some k) par ci" "set (inorder S) \<inter> ctxaddrs c = {}"
    and "avl_leftmost_loop t k par = Some (n, npar)"
  shows "\<exists>x c'. avl_check_right_side t n npar = Inr (t,
      next_cookie t x, Some x)
     \<and> pending t c' (Some x) (AVL_XPARENT t x) (AVL_XCHILD t x)
     \<and> postorder S @ post c = x # post c'"
  using assms
proof (induction S arbitrary: k par ci c)
  case (ANode l a b r)
  have k: "a = k" "AVL_XPARENT t k = par" "AVL_XCHILD t k = ci" "AVL_XBALANCE t k = b"
    and l: "rep (avl_mem t) (node_child t k False) (Some k) False l"
    and r: "rep (avl_mem t) (node_child t k True) (Some k) True r"
    using ANode.prems(1) by (auto simp: avl_access)
  show ?case
  proof (cases "node_child t k False")
    case None
    have leaf: "l = ALeaf" using None l rep_root by metis
    have n: "n = k" "npar = par" using ANode.prems(6) None by (simp_all add: avl_leftmost_loop.simps)
    show ?thesis
    proof (cases r)
      case ALeaf
      then have "node_child t k True = None" using r by simp
      then show ?thesis
        using n k leaf ALeaf ANode.prems(2,4) avl_destroy_done_pending[of t c k]
        by (auto simp: avl_check_right_side_def)
    next
      case r': (ANode rl x rb rr)
      have shape: "rl = ALeaf" "rr = ALeaf" "b = 1"
        using ANode.prems(2) leaf r' by (cases rl; cases rr; auto)+
      have x: "node_child t k True = Some x" "AVL_XPARENT t x = Some k" "AVL_XCHILD t x"
        "node_child t x False = None" "node_child t x True = None"
        using r unfolding r' shape by (auto simp: avl_access)
      have "pending t ((True, k, b, ALeaf) # c) (Some x) (Some k) True"
        using ANode.prems(4,5) k x(1) None unfolding pending_def
        by (auto simp: avl_access)
      then show ?thesis
        using n k x shape leaf r' avl_destroy_done_pending[of t "(True, k, b, ALeaf) # c" x]
        by (auto simp: avl_check_right_side_def intro!: exI[of _ "(True, k, b, ALeaf) # c"])
    qed
  next
    case (Some k')
    have "pending t ((False, k, b, r) # c) (Some k') (Some k) False"
      using ANode.prems(2-5) k r Some unfolding pending_def by (auto simp: avl_access)
    moreover have "avl_leftmost_loop t k' (Some k) = Some (n, npar)"
      using ANode.prems(6) Some by (simp add: avl_leftmost_loop.simps[of t k])
    ultimately show ?thesis
      using ANode.IH(1)[of k' "Some k" False "(False, k, b, r) # c"] l Some ANode.prems(2,3,5) k
      by auto
  qed
qed simp

section \<open>The contract of successive calls\<close>

lemma destroying_start: "avl_inv t xs \<Longrightarrow> \<exists>ps. destroying t CookieNull ps \<and> set ps = set xs \<and> distinct ps"
  unfolding avl_inv_def destroying_def
  by (force simp: dist_iff intro: distinct_postorder[unfolded dist_iff])

lemma destroying_step:
  assumes "destroying t cookie (x # rest)"
  shows "\<exists>t' cookie'. avl_destroy_nodes t cookie = Inr (t', cookie', Some x)
     \<and> destroying t' cookie' rest"
proof -
  consider (first) T where "cookie = CookieNull" "tree_rep t T" "balanced T" "dist T"
      "avl_numnodes_of t = length (inorder T)" "x # rest = postorder T"
    | (later) c q par ci where "cookie = (if par = None then Cookie None True else Cookie par ci)"
      "pending t c (Some q) par ci" "avl_numnodes_of t = Suc (length (post c))" "x # rest = post c"
    using assms unfolding destroying_def by blast
  then show ?thesis
  proof cases
    case first
    then obtain ci where T: "rep (avl_mem t) (avl_root t) None ci T"
      by (auto simp: tree_rep_def)
    moreover have "T \<noteq> ALeaf" using first(6) by auto
    ultimately obtain k where k: "avl_root t = Some k" by (cases T) auto
    obtain n where n: "avl_leftmost_loop t k None = Some (n, AVL_XPARENT t n)"
      "hd_opt (inorder T) = Some n"
      using avl_leftmost_loop_rep T k by metis
    have fst: "avl_first t = Inr (Some n)"
      using avl_end_loop_rep[OF T, of False None] n(2) by (simp add: avl_first_def seq_def)
    have "pending t [] (Some k) None ci" using k by (simp add: pending_def)
    then obtain y c' where y: "avl_check_right_side t n (AVL_XPARENT t n) = Inr (t,
        next_cookie t y, Some y)"
      "pending t c' (Some y) (AVL_XPARENT t y) (AVL_XCHILD t y)" "postorder T = y # post c'"
      using check_right_side_first[OF T[unfolded k] first(3,4) _ _ n(1), of "[]"] by auto
    moreover have "length (inorder T) = Suc (length (post c'))"
      using y(3) length_postorder[of T] by simp
    ultimately show ?thesis
      using first fst destroying_later[OF y(2)] by (auto simp: avl_destroy_nodes_def)
  next
    case later
    then obtain d a b s c' where c: "c = (d, a, b, s) # c'"
      by (cases c) auto
    obtain ci0 where ctx: "ctxrep (avl_mem t) c (Some q, par, ci) (avl_root t, None, ci0)"
      and ok: "cdist c" "ok_frames c"
      using later(2) by (auto simp: pending_def)
    have par: "par = Some a" "ci = d" using ctx c by auto
    let ?t = "(set_child a d None t)\<lparr>avl_numnodes_of := avl_numnodes_of t - 1\<rparr>"
    have mem: "avl_mem ?t = (avl_mem t)(a := (avl_mem t a)\<lparr>avl_child := (avl_child (avl_mem t a))(d := None)\<rparr>)"
      by (simp add: avl_access)
    have a: "AVL_XPARENT ?t a = AVL_XPARENT t a" "AVL_XCHILD ?t a = AVL_XCHILD t a"
      by (simp_all add: avl_access)
    have up: "pending ?t c' (Some a) (AVL_XPARENT t a) (AVL_XCHILD t a)"
      using ctx ok c unfolding pending_def mem by (auto simp: avl_access)
    have n: "avl_numnodes_of t > 1" "avl_numnodes_of ?t = Suc (length (postorder s @ post c'))"
      using later(3) c by auto
    have eval: "avl_destroy_nodes t cookie =
        (case (if d then None else node_child ?t a True) of
           None \<Rightarrow> avl_destroy_done ?t a (AVL_XPARENT ?t a)
         | Some r \<Rightarrow> rbind (of_loop (avl_leftmost_loop ?t r (Some a)))
             (\<lambda>(node, parent). avl_check_right_side ?t node parent))"
    proof -
      have "avl_numnodes_of (set_child a d None t) = avl_numnodes_of t" by (simp add: avl_access)
      then show ?thesis
        using later(1) par n(1) unfolding avl_destroy_nodes_def Let_def
        by (simp only: avl_cookie.simps option.simps if_False ASSERT_True)
    qed
    show ?thesis
    proof (cases s)
      case ALeaf
      then have "(if d then None else node_child ?t a True) = None"
        using ctx c by (auto simp: avl_access)
      moreover have "x = a" "rest = post c'" using later(4) c ALeaf by auto
      ultimately show ?thesis
        using eval up n(2) ALeaf avl_destroy_done_pending[of ?t c' a] a
          destroying_later[of ?t c' a] by auto
    next
      case s: (ANode sl r sb sr)
      have d: "\<not> d" using ok c s by auto
      have r: "node_child ?t a True = Some r" "rep (avl_mem ?t) (Some r) (Some a) True s"
        using ctx c d ok s unfolding mem by (auto simp: avl_access)
      obtain m where m: "avl_leftmost_loop ?t r (Some a) = Some (m, AVL_XPARENT ?t m)"
        using avl_leftmost_loop_rep[OF r(2)] by blast
      have "pending ?t ((True, a, b, ALeaf) # c') (Some r) (Some a) True"
        using up ctx c d r(1) ok unfolding pending_def by (auto simp: avl_access)
      moreover have "balanced s" "dist s" "set (inorder s) \<inter> ctxaddrs ((True, a, b, ALeaf) # c') = {}"
        using ok c by auto
      ultimately obtain y c'' where y: "avl_check_right_side ?t m (AVL_XPARENT ?t m) = Inr (?t,
          next_cookie ?t y, Some y)"
        "pending ?t c'' (Some y) (AVL_XPARENT ?t y) (AVL_XCHILD ?t y)"
        "postorder s @ post ((True, a, b, ALeaf) # c') = y # post c''"
        using check_right_side_first[OF r(2) _ _ _ _ m] by blast
      have yx: "y = x" "post c'' = rest" using y(3) later(4) c by auto
      have len: "avl_numnodes_of ?t = Suc (length (post c''))"
        using arg_cong[OF y(3), of length] n(2) by simp
      have "avl_destroy_nodes t cookie = Inr (?t, next_cookie ?t y, Some y)"
        unfolding eval using d r(1) m y(1) by simp
      moreover have "destroying ?t (next_cookie ?t y) rest"
        using destroying_later[OF y(2) len] yx by simp
      ultimately show ?thesis using yx by blast
    qed
  qed
qed

lemma destroying_end:
  assumes "destroying t cookie []"
  shows "\<exists>t' cookie'. avl_destroy_nodes t cookie = Inr (t', cookie', None) \<and> avl_inv t' []"
proof -
  have empty: "avl_inv t' []" if "avl_root t' = None" "avl_numnodes_of t' = 0" for t'
    using that unfolding avl_inv_def tree_rep_def by (auto intro!: exI[of _ ALeaf])
  consider (first) T where "cookie = CookieNull" "tree_rep t T" "postorder T = []"
      "avl_numnodes_of t = length (inorder T)"
    | (last) c q par ci where "cookie = (if par = None then Cookie None True else Cookie par ci)"
      "pending t c (Some q) par ci" "avl_numnodes_of t = Suc (length (post c))" "post c = []"
    using assms unfolding destroying_def by metis
  then show ?thesis
  proof cases
    case first
    then have "T = ALeaf" by (cases T) auto
    then have "avl_root t = None" "avl_numnodes_of t = 0" using first by (auto simp: tree_rep_def)
    moreover from this have "avl_first t = Inr None"
      by (simp add: avl_first_def avl_end_loop.simps)
    ultimately show ?thesis using first(1) empty by (simp add: avl_destroy_nodes_def)
  next
    case last
    then have "c = []" by (cases c) auto
    then have "par = None" "avl_root t = Some q" "avl_numnodes_of t = 1"
      using last by (auto simp: pending_def)
    then show ?thesis using last(1) empty by (simp add: avl_destroy_nodes_def)
  qed
qed

text \<open>Only nodes that are still to be returned are read: the caller may free the others.\<close>

lemma destroying_frame:
  assumes "destroying t cookie rest" "\<And>a. a \<in> set rest \<Longrightarrow> m a = avl_mem t a"
  shows "destroying (t\<lparr>avl_mem := m\<rparr>) cookie rest"
proof -
  have 1: "tree_rep (t\<lparr>avl_mem := m\<rparr>) T" if "tree_rep t T" "rest = postorder T" for T
    using that assms(2) rep_frame[of T m "avl_mem t"] by (auto simp: tree_rep_def)
  have 2: "pending (t\<lparr>avl_mem := m\<rparr>) c q par ci" if "pending t c q par ci" "rest = post c" for c q par ci
    using that assms(2) ctxrep_frame[of c m "avl_mem t"] by (auto simp: pending_def set_post)
  show ?thesis
    using assms(1) 1 2 unfolding destroying_def by fastforce
qed

end
