(* ===== verification/Avl_Interface.thy ===== *)
theory Avl_Interface
  imports Avl_Destroy
begin

text \<open>
  The contracts of the AVL package for its clients: cursors that walk a tree in either direction,
  ordered insertion through \<open>avl_find\<close>, and the operations built on them (\<open>avl_add\<close>,
  \<open>avl_insert_here\<close>, the \<open>avl_update\<close> family and the destruction loop).
\<close>

section \<open>Cursors\<close>

text \<open>
  The loop \<open>for (x = start(tree); x != NULL; x = step(tree, x)) acc = f(x, acc)\<close> that clients
  write; a fault of the body ends it.
\<close>

partial_function (option) scan_loop ::
  "(addr \<Rightarrow> addr option res) \<Rightarrow> (addr \<Rightarrow> 's \<Rightarrow> 's res) \<Rightarrow> addr option \<Rightarrow> 's \<Rightarrow> 's res option" where
  "scan_loop step f x acc =
     (case x of
        None \<Rightarrow> Some (Inr acc)
      | Some a \<Rightarrow>
          (case f a acc of
             Inl e \<Rightarrow> Some (Inl e)
           | Inr acc' \<Rightarrow>
               (case step a of
                  Inl e \<Rightarrow> Some (Inl e)
                | Inr y \<Rightarrow> scan_loop step f y acc')))"

definition scan ::
  "addr option res \<Rightarrow> (addr \<Rightarrow> addr option res) \<Rightarrow> (addr \<Rightarrow> 's \<Rightarrow> 's res) \<Rightarrow> 's \<Rightarrow> 's res" where
  "scan start step f acc =
     rbind start (\<lambda>x. rbind (of_loop (scan_loop step f x acc)) id)"

lemmas scan_loop_code [code] = scan_loop.simps

fun foldM :: "('a \<Rightarrow> 's \<Rightarrow> 's res) \<Rightarrow> 'a list \<Rightarrow> 's \<Rightarrow> 's res" where
  "foldM f [] acc = Inr acc"
| "foldM f (x # xs) acc = rbind (f x acc) (foldM f xs)"

lemma foldM_Inr [simp]: "foldM (\<lambda>x acc. Inr (f x acc)) xs acc = Inr (fold f xs acc)"
  by (induction xs arbitrary: acc) auto

locale cursor =
  fixes inv :: "'t \<Rightarrow> addr list \<Rightarrow> bool"
    and start :: "'t \<Rightarrow> addr option res"
    and step :: "'t \<Rightarrow> addr \<Rightarrow> addr option res"
  assumes start_first: "inv t xs \<Longrightarrow> start t = Inr (hd_opt xs)"
    and step_next: "inv t (ys @ a # zs) \<Longrightarrow> step t a = Inr (hd_opt zs)"
begin

lemma scan_loop_suffix:
  assumes "inv t (ys @ zs)"
  shows "scan_loop (step t) f (hd_opt zs) acc = Some (foldM f zs acc)"
  using assms
proof (induction zs arbitrary: ys acc)
  case Nil
  then show ?case by (simp add: scan_loop.simps)
next
  case (Cons a zs)
  show ?case
    using Cons.IH[of "ys @ [a]"] Cons.prems step_next[OF Cons.prems]
    by (subst scan_loop.simps) (auto split: sum.split)
qed

lemma scan_all: "inv t xs \<Longrightarrow> scan (start t) (step t) f acc = foldM f xs acc"
  using scan_loop_suffix[of t "[]" xs f acc]
  by (cases "foldM f xs acc") (simp_all add: scan_def start_first)

end

interpretation fwd: cursor avl_inv avl_first AVL_NEXT
  by unfold_locales (simp_all add: avl_first_inv AVL_NEXT_inv)

interpretation bwd: cursor "\<lambda>t xs. avl_inv t (rev xs)" avl_last AVL_PREV
proof
  show "avl_last t = Inr (hd_opt xs)" if "avl_inv t (rev xs)" for t xs
    using avl_last_inv[OF that] by (simp add: last_opt_def)
  show "AVL_PREV t a = Inr (hd_opt zs)" if "avl_inv t (rev (ys @ a # zs))" for t ys a zs
    using AVL_PREV_inv[of t "rev zs" a "rev ys"] that by (simp add: last_opt_def)
qed

section \<open>Ordered collections\<close>

text \<open>
  \<open>compar\<close> is \<open>tree->avl_compar(value, _)\<close> for the value that is looked up: 1 for the nodes
  below it, -1 for those above it.
\<close>

abbreviation below :: "(addr \<Rightarrow> int) \<Rightarrow> addr list \<Rightarrow> addr list" where
  "below compar xs \<equiv> filter (\<lambda>a. compar a > 0) xs"

abbreviation above :: "(addr \<Rightarrow> int) \<Rightarrow> addr list \<Rightarrow> addr list" where
  "above compar xs \<equiv> filter (\<lambda>a. compar a < 0) xs"

definition unmatched :: "(addr \<Rightarrow> int) \<Rightarrow> addr list \<Rightarrow> bool" where
  "unmatched compar xs \<longleftrightarrow> (\<forall>a \<in> set xs. compar a \<noteq> 0)"

lemma unmatched_simps [simp]:
  "unmatched compar []" "unmatched compar (x # xs) \<longleftrightarrow> compar x \<noteq> 0 \<and> unmatched compar xs"
  "unmatched compar (xs @ ys) \<longleftrightarrow> unmatched compar xs \<and> unmatched compar ys"
  by (auto simp: unmatched_def)

lemma below_above:
  assumes "compar_sorted compar xs" "unmatched compar xs"
  shows "xs = below compar xs @ above compar xs"
  using assms
proof (induction xs)
  case (Cons x xs)
  show ?case
  proof (cases "compar x > 0")
    case True
    with Cons show ?thesis by (auto simp: compar_sorted_Cons)
  next
    case False
    then have neg: "\<forall>b \<in> set xs. compar b < 0"
      using Cons.prems by (auto simp: compar_sorted_Cons unmatched_def)
    then have "below compar xs = []" "above compar xs = xs"
      by (auto simp: filter_empty_conv filter_id_conv)
    with False Cons.prems show ?thesis by auto
  qed
qed simp

lemma take_drop_below:
  assumes "compar_sorted compar xs" "unmatched compar xs"
  shows "take (length (below compar xs)) xs = below compar xs"
    and "drop (length (below compar xs)) xs = above compar xs"
proof -
  have "take (length (below compar xs)) (below compar xs @ above compar xs) = below compar xs"
    "drop (length (below compar xs)) (below compar xs @ above compar xs) = above compar xs"
    by simp_all
  then show "take (length (below compar xs)) xs = below compar xs"
    "drop (length (below compar xs)) xs = above compar xs"
    using below_above[OF assms] by simp_all
qed

lemma below_above_split:
  assumes "\<forall>a \<in> set ys. compar a > 0" "\<forall>a \<in> set zs. compar a < 0"
  shows "below compar (ys @ zs) = ys" "above compar (ys @ zs) = zs"
  using assms by (auto simp: filter_id_conv filter_empty_conv)

locale ordered_tree =
  fixes inv :: "'t \<Rightarrow> addr list \<Rightarrow> bool"
    and slot :: "'t \<Rightarrow> 'w \<Rightarrow> nat \<Rightarrow> bool"
    and find :: "(addr \<Rightarrow> int) \<Rightarrow> 't \<Rightarrow> (addr option \<times> 'w) res"
    and nearest :: "'t \<Rightarrow> 'w \<Rightarrow> bool \<Rightarrow> addr option res"
    and insert :: "'t \<Rightarrow> addr \<Rightarrow> 'w \<Rightarrow> 't res"
    and remove :: "'t \<Rightarrow> addr \<Rightarrow> 't res"
  assumes find_some: "inv t xs \<Longrightarrow> compar_sorted compar xs \<Longrightarrow> \<not> unmatched compar xs \<Longrightarrow>
      \<exists>a w. find compar t = Inr (Some a, w) \<and> a \<in> set xs \<and> compar a = 0"
    and find_none: "inv t xs \<Longrightarrow> compar_sorted compar xs \<Longrightarrow> unmatched compar xs \<Longrightarrow>
      \<exists>w. find compar t = Inr (None, w) \<and> slot t w (length (below compar xs))"
    and nearest_after: "inv t xs \<Longrightarrow> slot t w i \<Longrightarrow> nearest t w AVL_AFTER = Inr (hd_opt (drop i xs))"
    and nearest_before: "inv t xs \<Longrightarrow> slot t w i \<Longrightarrow> nearest t w AVL_BEFORE = Inr (last_opt (take i xs))"
    and insert_at: "inv t xs \<Longrightarrow> slot t w i \<Longrightarrow> a \<notin> set xs \<Longrightarrow> a \<noteq> avl_tmp \<Longrightarrow>
      \<exists>t'. insert t a w = Inr t' \<and> inv t' (take i xs @ a # drop i xs)"
    and remove_at: "inv t (ys @ a # zs) \<Longrightarrow> \<exists>t'. remove t a = Inr t' \<and> inv t' (ys @ zs)"
begin

lemma find_nearest:
  assumes "inv t xs" "compar_sorted compar xs" "unmatched compar xs"
  shows "\<exists>w. find compar t = Inr (None, w) \<and> slot t w (length (below compar xs))
     \<and> nearest t w AVL_BEFORE = Inr (last_opt (below compar xs))
     \<and> nearest t w AVL_AFTER = Inr (hd_opt (above compar xs))"
proof -
  obtain w where w: "find compar t = Inr (None, w)" "slot t w (length (below compar xs))"
    using find_none[OF assms] by blast
  then show ?thesis
    using nearest_after[OF assms(1) w(2)] nearest_before[OF assms(1) w(2)]
      take_drop_below[OF assms(2,3)] by (intro exI[of _ w]) simp
qed

lemma insert_sorted:
  assumes "inv t xs" "compar_sorted compar xs" "unmatched compar xs" "a \<notin> set xs" "a \<noteq> avl_tmp"
    and "slot t w (length (below compar xs))"
  shows "\<exists>t'. insert t a w = Inr t' \<and> inv t' (below compar xs @ a # above compar xs)"
  using insert_at[OF assms(1,6,4,5)] take_drop_below[OF assms(2,3)] by simp

lemma find_insert:
  assumes "inv t xs" "compar_sorted compar xs" "unmatched compar xs" "a \<notin> set xs" "a \<noteq> avl_tmp"
  shows "\<exists>w t'. find compar t = Inr (None, w) \<and> insert t a w = Inr t'
     \<and> inv t' (below compar xs @ a # above compar xs)"
  using find_none[OF assms(1-3)] insert_sorted[OF assms] by blast

lemma remove_member:
  assumes "inv t xs" "a \<in> set xs" "distinct xs"
  shows "\<exists>t'. remove t a = Inr t' \<and> inv t' (remove1 a xs)"
proof -
  obtain ys zs where xs: "xs = ys @ a # zs" using split_list[OF assms(2)] by blast
  then have "remove1 a xs = ys @ zs" using assms(3) by (simp add: remove1_append)
  then show ?thesis using remove_at assms(1) xs by simp
qed

lemma reinsert_sorted:
  assumes "inv t (ys @ a # zs)" "compar_sorted compar (ys @ zs)" "unmatched compar (ys @ zs)"
    and "a \<notin> set (ys @ zs)" "a \<noteq> avl_tmp"
  shows "\<exists>t1 w t'. remove t a = Inr t1 \<and> find compar t1 = Inr (None, w) \<and> insert t1 a w = Inr t'
     \<and> inv t' (below compar (ys @ zs) @ a # above compar (ys @ zs))"
  using remove_at[OF assms(1)] find_insert[OF _ assms(2-5)] by blast

end

interpretation avl: ordered_tree avl_inv avl_slot avl_find avl_nearest avl_insert avl_remove
proof
  fix t xs compar
  assume "avl_inv t xs" "compar_sorted compar xs" "\<not> unmatched compar xs"
  then show "\<exists>a w. avl_find compar t = Inr (Some a, w) \<and> a \<in> set xs \<and> compar a = 0"
    using avl_find_Some unfolding unmatched_def by blast
next
  fix t xs compar
  assume "avl_inv t xs" "compar_sorted compar xs" "unmatched compar xs"
  then show "\<exists>w. avl_find compar t = Inr (None, w) \<and> avl_slot t w (length (below compar xs))"
    using avl_find_None unfolding unmatched_def by blast
qed (simp_all add: avl_nearest_inv avl_insert_inv avl_remove_inv)

section \<open>Adding and re-sorting\<close>

lemma avl_inv_distinct: "avl_inv t xs \<Longrightarrow> distinct xs \<and> avl_tmp \<notin> set xs"
  by (simp add: avl_inv_def)

lemma avl_inv_numnodes: "avl_inv t xs \<Longrightarrow> avl_numnodes t = length xs"
  by (simp add: avl_inv_def avl_numnodes_def)

lemma avl_create_inv [simp]: "avl_inv (avl_create m) []"
  by (auto simp: avl_inv_def avl_create_def tree_rep_def intro!: exI[of _ ALeaf])

lemma avl_destroy_inv: "avl_inv t [] \<Longrightarrow> avl_destroy t = Inr ()"
proof -
  assume inv: "avl_inv t []"
  then obtain T where T: "tree_rep t T" "inorder T = []" by (metis avl_invD)
  then have "T = ALeaf" by (cases T) auto
  then show ?thesis using inv T by (auto simp: avl_inv_def avl_destroy_def tree_rep_def)
qed

lemma avl_add_inv:
  assumes "avl_inv t xs" "compar_sorted compar xs" "unmatched compar xs" "a \<notin> set xs" "a \<noteq> avl_tmp"
  shows "\<exists>t'. avl_add compar t a = Inr t' \<and> avl_inv t' (below compar xs @ a # above compar xs)"
  using avl.find_insert[OF assms] by (auto simp: avl_add_def)

lemma avl_add_duplicate:
  assumes "avl_inv t xs" "compar_sorted compar xs" "\<not> unmatched compar xs"
  shows "avl_add compar t a = Inl (Panic ''avl_find() succeeded inside avl_add()'')"
  using avl.find_some[OF assms] by (auto simp: avl_add_def)

lemma AVL_REINSERT_inv:
  assumes "avl_inv t (ys @ a # zs)" "compar_sorted compar (ys @ zs)" "unmatched compar (ys @ zs)"
  shows "\<exists>t'. AVL_REINSERT compar t a = Inr t'
     \<and> avl_inv t' (below compar (ys @ zs) @ a # above compar (ys @ zs))"
proof -
  have "a \<notin> set (ys @ zs)" "a \<noteq> avl_tmp" using avl_inv_distinct[OF assms(1)] by auto
  then show ?thesis
    using avl.reinsert_sorted[OF assms] by (auto simp: AVL_REINSERT_def avl_add_def)
qed

lemma resort_in_place:
  assumes "compar_sorted compar (ys @ zs)" "unmatched compar (ys @ zs)"
    and "\<not> (case last_opt ys of None \<Rightarrow> False | Some n \<Rightarrow> compar n < 0)"
    and "\<not> (case hd_opt zs of None \<Rightarrow> False | Some n \<Rightarrow> compar n > 0)"
  shows "below compar (ys @ zs) = ys" "above compar (ys @ zs) = zs"
proof -
  have "\<forall>a \<in> set ys. compar a > 0"
    using assms(1-3) by (cases ys rule: rev_cases) (auto simp: compar_sorted_append compar_sorted_Cons)
  moreover have "\<forall>a \<in> set zs. compar a < 0"
    using assms(1,2,4) by (cases zs) (auto simp: compar_sorted_append compar_sorted_Cons)
  ultimately show "below compar (ys @ zs) = ys" "above compar (ys @ zs) = zs"
    using below_above_split by blast+
qed

lemma avl_update_inv:
  assumes "avl_inv t (ys @ a # zs)" "compar_sorted compar (ys @ zs)" "unmatched compar (ys @ zs)"
  shows "\<exists>t' moved. avl_update compar t a = Inr (t', moved)
     \<and> avl_inv t' (below compar (ys @ zs) @ a # above compar (ys @ zs))"
  using AVL_REINSERT_inv[OF assms] AVL_PREV_inv[OF assms(1)] AVL_NEXT_inv[OF assms(1)] assms(1)
    resort_in_place[OF assms(2,3)]
  by (cases "case last_opt ys of None \<Rightarrow> False | Some n \<Rightarrow> compar n < 0";
      cases "case hd_opt zs of None \<Rightarrow> False | Some n \<Rightarrow> compar n > 0")
     (auto simp: avl_update_def)

lemma avl_update_lt_inv:
  assumes "avl_inv t (ys @ a # zs)" "compar_sorted compar (ys @ zs)" "unmatched compar (ys @ zs)"
    and "\<forall>b \<in> set zs. compar b < 0"
  shows "\<exists>t' moved. avl_update_lt compar t a = Inr (t', moved)
     \<and> avl_inv t' (below compar (ys @ zs) @ a # above compar (ys @ zs))"
proof -
  have nx: "case hd_opt zs of None \<Rightarrow> True | Some n \<Rightarrow> compar n \<le> 0"
    "\<not> (case hd_opt zs of None \<Rightarrow> False | Some n \<Rightarrow> compar n > 0)"
    using assms(4) by (cases zs; auto)+
  show ?thesis
    using AVL_REINSERT_inv[OF assms(1-3)] AVL_PREV_inv[OF assms(1)] AVL_NEXT_inv[OF assms(1)]
      assms(1) nx resort_in_place[OF assms(2,3) _ nx(2)]
    by (cases "case last_opt ys of None \<Rightarrow> False | Some n \<Rightarrow> compar n < 0")
       (auto simp: avl_update_lt_def)
qed

lemma avl_update_gt_inv:
  assumes "avl_inv t (ys @ a # zs)" "compar_sorted compar (ys @ zs)" "unmatched compar (ys @ zs)"
    and "\<forall>b \<in> set ys. compar b > 0"
  shows "\<exists>t' moved. avl_update_gt compar t a = Inr (t', moved)
     \<and> avl_inv t' (below compar (ys @ zs) @ a # above compar (ys @ zs))"
proof -
  have pv: "case last_opt ys of None \<Rightarrow> True | Some n \<Rightarrow> compar n \<ge> 0"
    "\<not> (case last_opt ys of None \<Rightarrow> False | Some n \<Rightarrow> compar n < 0)"
    using assms(4) by (cases ys rule: rev_cases; auto)+
  show ?thesis
    using AVL_REINSERT_inv[OF assms(1-3)] AVL_PREV_inv[OF assms(1)] AVL_NEXT_inv[OF assms(1)]
      assms(1) pv resort_in_place[OF assms(2,3) pv(2)]
    by (cases "case hd_opt zs of None \<Rightarrow> False | Some n \<Rightarrow> compar n > 0")
       (auto simp: avl_update_gt_def)
qed

section \<open>Insertion next to a known node\<close>

lemma avl_here_loop_slot:
  assumes "focus t c (Some n) par ci T" "\<forall>a \<in> set (inorder T). here_ok compar a d"
  shows "\<exists>n' c'. avl_here_loop compar t n d = Some (Inr n') \<and> node_child t n' d = None
     \<and> focus t c' None (Some n') d ALeaf
     \<and> before c' = before c @ (if d then inorder T else [])"
  using assms
proof (induction T arbitrary: c n par ci)
  case ALeaf
  then show ?case by (simp add: focus_def)
next
  case (ANode l a b r)
  let ?kid = "if d then r else l"
  let ?f = "(d, a, b, if d then l else r)"
  have n: "a = n" using ANode.prems(1) by (simp add: focus_def)
  have kid: "focus t (?f # c) (node_child t n d) (Some n) d ?kid"
    using ANode.prems(1) n by (cases d) (auto simp: focus_def node_child_def)
  have ok: "here_ok compar n d" using ANode.prems(2) n by simp
  show ?case
  proof (cases "node_child t n d")
    case None
    then have "?kid = ALeaf" using kid rep_root by (metis focus_def)
    with None kid ok n show ?thesis
      by (subst avl_here_loop.simps) (auto intro!: exI[of _ "?f # c"] split: if_splits)
  next
    case (Some k)
    then obtain n' c' where "avl_here_loop compar t k d = Some (Inr n')" "node_child t n' d = None"
      "focus t c' None (Some n') d ALeaf" "before c' = before (?f # c) @ (if d then inorder ?kid else [])"
      using ANode.IH(1)[of "?f # c" k "Some n" d] ANode.IH(2)[of "?f # c" k "Some n" d] ANode.prems(2) kid
      by (cases d) auto
    with Some ok show ?thesis
      by (subst avl_here_loop.simps) (auto intro!: exI[of _ c'])
  qed
qed

lemma avl_insert_here_inv:
  assumes "avl_inv t (ys @ h # zs)" "a \<notin> set (ys @ h # zs)" "a \<noteq> avl_tmp"
    and "\<forall>b \<in> set ys. compar b = 1" "\<forall>b \<in> set zs. compar b = -1"
    and "compar h = (if d then 1 else -1)"
  shows "\<exists>t'. avl_insert_here compar t a h d = Inr t'
     \<and> avl_inv t' (if d then ys @ h # a # zs else ys @ a # h # zs)"
proof -
  obtain c par ci l b r where foc: "focus t c (Some h) par ci (ANode l h b r)"
    and eq: "ys = before c @ inorder l" "zs = inorder r @ after c"
    using assms(1) by (rule avl_inv_at)
  let ?kid = "if d then r else l"
  let ?f = "(d, h, b, if d then l else r)"
  let ?i = "length ys + (if d then 1 else 0)"
  have kid: "focus t (?f # c) (node_child t h d) (Some h) d ?kid"
    using foc by (cases d) (auto simp: focus_def node_child_def)
  have ok: "here_ok compar h d" "\<forall>b \<in> set (inorder ?kid). here_ok compar b (\<not> d)"
    using assms(4-6) eq by (auto simp: here_ok_def)
  have "\<exists>w. avl_insert_here compar t a h d = avl_insert t a w \<and> avl_slot t w ?i"
  proof (cases "node_child t h d")
    case None
    then have "?kid = ALeaf" using kid rep_root by (metis focus_def)
    then have "avl_slot t (AVL_MKINDEX (Some h) d) ?i"
      using kid None eq unfolding avl_slot_def
      by (intro exI[of _ "?f # c"]) (auto simp: AVL_MKINDEX_def AVL_INDEX2NODE_def AVL_INDEX2CHILD_def)
    moreover have "avl_insert_here compar t a h d = avl_insert t a (AVL_MKINDEX (Some h) d)"
      using None ok(1) by (simp add: avl_insert_here_def)
    ultimately show ?thesis by blast
  next
    case (Some k)
    obtain n' c' where n': "avl_here_loop compar t k (\<not> d) = Some (Inr n')"
      "node_child t n' (\<not> d) = None" "focus t c' None (Some n') (\<not> d) ALeaf"
      "before c' = before (?f # c) @ (if \<not> d then inorder ?kid else [])"
      using avl_here_loop_slot[OF kid[unfolded Some] ok(2)] by blast
    then have "avl_slot t (AVL_MKINDEX (Some n') (\<not> d)) ?i"
      using eq unfolding avl_slot_def
      by (intro exI[of _ c']) (auto simp: AVL_MKINDEX_def AVL_INDEX2NODE_def AVL_INDEX2CHILD_def)
    moreover have "avl_insert_here compar t a h d = avl_insert t a (AVL_MKINDEX (Some n') (\<not> d))"
      using Some ok(1) n'(1,2) by (simp add: avl_insert_here_def)
    ultimately show ?thesis by blast
  qed
  then show ?thesis
    using avl.insert_at[OF assms(1) _ assms(2,3)] by (cases d) fastforce+
qed

section \<open>The destruction loop\<close>

text \<open>
  \<open>while ((node = avl_destroy_nodes(tree, &cookie)) != NULL) free(node);\<close> where freed memory may
  hold anything afterwards (\<open>junk\<close>).
\<close>

partial_function (option) destroy_loop ::
  "(addr \<Rightarrow> avl_node) \<Rightarrow> avl_tree \<Rightarrow> avl_cookie \<Rightarrow> addr list \<Rightarrow> (avl_tree \<times> addr list) res option" where
  "destroy_loop junk t cookie freed =
     (case avl_destroy_nodes t cookie of
        Inl e \<Rightarrow> Some (Inl e)
      | Inr (t', cookie', node) \<Rightarrow>
          (case node of
             None \<Rightarrow> Some (Inr (t', freed))
           | Some a \<Rightarrow> destroy_loop junk (set_node a (junk a) t') cookie' (freed @ [a])))"

lemmas destroy_loop_code [code] = destroy_loop.simps

lemma destroy_loop_all:
  assumes "destroying t cookie ps" "distinct ps"
  shows "\<exists>t'. destroy_loop junk t cookie freed = Some (Inr (t', freed @ ps)) \<and> avl_inv t' []"
  using assms
proof (induction ps arbitrary: t cookie freed)
  case Nil
  then show ?case
    using destroying_end by (subst destroy_loop.simps) fastforce
next
  case (Cons a ps)
  obtain t1 cookie1 where step: "avl_destroy_nodes t cookie = Inr (t1, cookie1, Some a)"
    "destroying t1 cookie1 ps"
    using destroying_step[OF Cons.prems(1)] by blast
  have "destroying (set_node a (junk a) t1) cookie1 ps"
    unfolding set_node_def by (rule destroying_frame[OF step(2)]) (use Cons.prems(2) in auto)
  then show ?case
    using Cons.IH[of "set_node a (junk a) t1" cookie1 "freed @ [a]"] Cons.prems(2) step(1)
    by (subst destroy_loop.simps) auto
qed

lemma destroy_loop_inv:
  assumes "avl_inv t xs"
  shows "\<exists>t' ps. destroy_loop junk t CookieNull [] = Some (Inr (t', ps)) \<and> avl_inv t' []
     \<and> set ps = set xs \<and> distinct ps"
proof -
  obtain ps where "destroying t CookieNull ps" "set ps = set xs" "distinct ps"
    using destroying_start[OF assms] by blast
  then show ?thesis using destroy_loop_all[of t CookieNull ps junk "[]"] by auto
qed

end
