(* ===== verification/Comparator.thy ===== *)
theory Comparator
  imports Avl_Interface
begin

text \<open>
  Comparison functions that \<open>avl_create\<close> is given. A comparator on keys orders them strictly and
  totally with the results -1, 0 and 1; a tree sorted by it stays sorted under \<open>avl_add\<close> and
  \<open>avl_remove\<close>.
\<close>

locale comparator =
  fixes cmp :: "'k \<Rightarrow> 'k \<Rightarrow> int"
  assumes cmp_range: "cmp x y \<in> {-1, 0, 1}"
    and cmp_eq: "cmp x y = 0 \<longleftrightarrow> x = y"
    and cmp_sym: "cmp y x = - cmp x y"
    and cmp_trans: "cmp x y < 0 \<Longrightarrow> cmp y z < 0 \<Longrightarrow> cmp x z < 0"
begin

lemma sorted_keys_compar:
  assumes "sorted_wrt (\<lambda>a b. cmp (key a) (key b) < 0) xs"
  shows "compar_sorted (\<lambda>n. cmp k (key n)) xs"
proof -
  have "cmp k (key b) \<le> cmp k (key a)" if "cmp (key a) (key b) < 0" for a b
    using that cmp_trans[of k "key a" "key b"] cmp_range[of k "key a"] cmp_range[of k "key b"]
      cmp_eq[of k "key a"] cmp_eq[of k "key b"] by auto
  then have "sorted_wrt (\<lambda>a b. cmp k (key a) \<ge> cmp k (key b)) xs"
    by (intro sorted_wrt_mono_rel[OF _ assms]) blast
  moreover have "-1 \<le> cmp k y \<and> cmp k y \<le> 1" for y
    using cmp_range[of k y] by auto
  ultimately show ?thesis by (simp add: compar_sorted_def)
qed

lemma unmatched_keys: "unmatched (\<lambda>n. cmp k (key n)) xs \<longleftrightarrow> k \<notin> key ` set xs"
  by (auto simp: unmatched_def cmp_eq)

lemma sorted_keys_insert:
  assumes "sorted_wrt (\<lambda>a b. cmp (key a) (key b) < 0) xs"
  shows "sorted_wrt (\<lambda>a b. cmp (key a) (key b) < 0)
    (below (\<lambda>n. cmp (key a) (key n)) xs @ a # above (\<lambda>n. cmp (key a) (key n)) xs)"
proof -
  have lt: "cmp (key x) (key a) < 0" if "cmp (key a) (key x) > 0" for x
    using that cmp_sym[of "key x" "key a"] by simp
  show ?thesis
    using assms by (auto simp: sorted_wrt_append sorted_wrt_filter intro: lt cmp_trans)
qed

lemma avl_add_key:
  assumes "avl_inv t xs" "sorted_wrt (\<lambda>a b. cmp (key a) (key b) < 0) xs"
    and "key a \<notin> key ` set xs" "a \<noteq> avl_tmp"
  shows "\<exists>t' ys. avl_add (\<lambda>n. cmp (key a) (key n)) t a = Inr t' \<and> avl_inv t' ys
     \<and> set ys = insert a (set xs) \<and> sorted_wrt (\<lambda>a b. cmp (key a) (key b) < 0) ys"
proof -
  let ?c = "\<lambda>n. cmp (key a) (key n)"
  have um: "unmatched ?c xs" using assms(3) by (simp only: unmatched_keys) simp
  have srt: "compar_sorted ?c xs" by (rule sorted_keys_compar[OF assms(2)])
  have "a \<notin> set xs" using assms(3) by blast
  then obtain t' where t': "avl_add ?c t a = Inr t'" "avl_inv t' (below ?c xs @ a # above ?c xs)"
    using avl_add_inv[OF assms(1) srt um _ assms(4)] by blast
  have "set (below ?c xs @ a # above ?c xs) = insert a (set xs)"
    using arg_cong[OF below_above[OF srt um], of set] by auto
  then show ?thesis using t' sorted_keys_insert[OF assms(2)] by blast
qed

lemma avl_remove_key:
  assumes "avl_inv t xs" "sorted_wrt (\<lambda>a b. cmp (key a) (key b) < 0) xs" "a \<in> set xs"
  shows "\<exists>t' ys. avl_remove t a = Inr t' \<and> avl_inv t' ys
     \<and> set ys = set xs - {a} \<and> sorted_wrt (\<lambda>a b. cmp (key a) (key b) < 0) ys"
proof -
  obtain us vs where xs: "xs = us @ a # vs" using split_list[OF assms(3)] by blast
  have "a \<notin> set (us @ vs)" using avl_inv_distinct[OF assms(1)] xs by auto
  then show ?thesis
    using avl.remove_at[of t us a vs] assms(1,2) xs by (fastforce simp: sorted_wrt_append)
qed

end

end
