(* ===== verification/Avl_Properties.thy ===== *)
theory Avl_Properties
  imports Comparator
begin

text \<open>
  What the AVL package guarantees, for the code of \<open>common/avl/avl.c\<close> on its pointer
  representation. \<open>avl_inv t xs\<close> says that the memory of \<open>t\<close> holds a height-balanced tree whose
  in-order sequence of nodes is \<open>xs\<close>; \<open>compar\<close> is the comparison of the value looked up or added
  with the object at a node.
\<close>

section \<open>A tree in memory\<close>

text \<open>Nodes 10, 20, 30, 40 with keys equal to their addresses: 20 is the root, 40 is below 30.\<close>

definition leaf_node :: "addr option \<Rightarrow> bool \<Rightarrow> avl_node" where
  "leaf_node par i = \<lparr>avl_child = (\<lambda>_. None), avl_parent = par, avl_child_index = i, avl_balance = 0\<rparr>"

definition four_nodes :: avl_tree where
  "four_nodes = \<lparr>avl_root = Some 20, avl_numnodes_of = 4, avl_mem = (\<lambda>_. leaf_node None False)
     (10 := leaf_node (Some 20) False,
      20 := \<lparr>avl_child = (\<lambda>d. if d then Some 30 else Some 10), avl_parent = None, avl_child_index = False,
             avl_balance = 1\<rparr>,
      30 := \<lparr>avl_child = (\<lambda>d. if d then Some 40 else None), avl_parent = Some 20, avl_child_index = True,
             avl_balance = 1\<rparr>,
      40 := leaf_node (Some 30) True)\<rparr>"

definition key_cmp :: "nat \<Rightarrow> addr \<Rightarrow> int" where
  "key_cmp k n = (if k < n then -1 else if k > n then 1 else 0)"

lemma four_nodes_inv: "avl_inv four_nodes [10, 20, 30, 40]"
  unfolding avl_inv_def tree_rep_def
  by (rule conjI, rule exI[of _ "ANode (ANode ALeaf 10 0 ALeaf) 20 1 (ANode ALeaf 30 1 (ANode ALeaf 40 0 ALeaf))"])
     (auto simp: four_nodes_def leaf_node_def avl_tmp_def)

lemma four_nodes_sorted: "compar_sorted (key_cmp k) [10, 20, 30, 40]"
  by (simp add: compar_sorted_def key_cmp_def)

section \<open>Height\<close>

lemma height_inorder: "balanced T \<Longrightarrow> 2 ^ (height T div 2) \<le> length (inorder T) + 1"
proof (induction T rule: measure_induct_rule[of height])
  case (less T)
  show ?case
  proof (cases T)
    case (ANode l a b r)
    let ?h = "height T"
    have b: "balanced l" "balanced r" "height l < ?h" "height r < ?h"
      "?h - 2 \<le> height l" "?h - 2 \<le> height r"
      using less.prems ANode by auto
    have "2 ^ ((?h - 2) div 2) \<le> length (inorder l) + 1"
      by (rule order_trans[OF power_increasing less.IH[OF b(3,1)]]) (use b(5) in \<open>simp_all add: div_le_mono\<close>)
    moreover have "2 ^ ((?h - 2) div 2) \<le> length (inorder r) + 1"
      by (rule order_trans[OF power_increasing less.IH[OF b(4,2)]]) (use b(6) in \<open>simp_all add: div_le_mono\<close>)
    moreover have "2 ^ (?h div 2) \<le> (2 :: nat) * 2 ^ ((?h - 2) div 2)"
      using power_increasing[of "?h div 2" "Suc ((?h - 2) div 2)" "2 :: nat"] by simp
    ultimately show ?thesis using ANode by simp
  qed simp
qed

section \<open>Sequences of operations\<close>

datatype avl_op = Add addr | Remove addr

fun avl_op_step :: "('k \<Rightarrow> 'k \<Rightarrow> int) \<Rightarrow> (addr \<Rightarrow> 'k) \<Rightarrow> avl_op \<Rightarrow> avl_tree \<Rightarrow> avl_tree res" where
  "avl_op_step cmp key (Add a) t = avl_add (\<lambda>n. cmp (key a) (key n)) t a"
| "avl_op_step cmp key (Remove a) t = avl_remove t a"

text \<open>What \<open>avl.h\<close> asks of the callers, and the nodes that they leave in the tree.\<close>

fun legal_ops :: "(addr \<Rightarrow> 'k) \<Rightarrow> addr set \<Rightarrow> avl_op list \<Rightarrow> bool" where
  "legal_ops key S [] \<longleftrightarrow> True"
| "legal_ops key S (Add a # ops) \<longleftrightarrow> key a \<notin> key ` S \<and> a \<noteq> avl_tmp \<and> legal_ops key (insert a S) ops"
| "legal_ops key S (Remove a # ops) \<longleftrightarrow> a \<in> S \<and> legal_ops key (S - {a}) ops"

fun nodes_after :: "addr set \<Rightarrow> avl_op list \<Rightarrow> addr set" where
  "nodes_after S [] = S"
| "nodes_after S (Add a # ops) = nodes_after (insert a S) ops"
| "nodes_after S (Remove a # ops) = nodes_after (S - {a}) ops"

lemma avl_ops_inv:
  assumes "comparator cmp" "avl_inv t xs" "sorted_wrt (\<lambda>a b. cmp (key a) (key b) < 0) xs" "legal_ops key (set xs) ops"
  shows "\<exists>t' ys. foldM (avl_op_step cmp key) ops t = Inr t' \<and> avl_inv t' ys \<and> set ys = nodes_after (set xs) ops"
  using assms(2-4)
proof (induction ops arbitrary: t xs)
  case (Cons op ops)
  have "\<exists>t' ys. avl_op_step cmp key op t = Inr t' \<and> avl_inv t' ys \<and> sorted_wrt (\<lambda>a b. cmp (key a) (key b) < 0) ys
      \<and> legal_ops key (set ys) ops \<and> nodes_after (set xs) (op # ops) = nodes_after (set ys) ops"
  proof (cases op)
    case (Add a)
    then show ?thesis using comparator.avl_add_key[OF assms(1) Cons.prems(1,2), of a] Cons.prems(3) by auto metis
  next
    case (Remove a)
    then show ?thesis using comparator.avl_remove_key[OF assms(1) Cons.prems(1,2), of a] Cons.prems(3) by auto metis
  qed
  then obtain t' ys where "avl_op_step cmp key op t = Inr t'" "avl_inv t' ys" "sorted_wrt (\<lambda>a b. cmp (key a) (key b) < 0) ys"
    "legal_ops key (set ys) ops" "nodes_after (set xs) (op # ops) = nodes_after (set ys) ops" by blast
  then show ?case using Cons.IH[of t' ys] by simp
qed auto

text \<open>The node at the end of a path of child pointers, as \<open>avl_find\<close> follows them.\<close>

fun avl_path :: "avl_tree \<Rightarrow> addr option \<Rightarrow> bool list \<Rightarrow> addr option" where
  "avl_path t None ds = None"
| "avl_path t (Some a) [] = Some a"
| "avl_path t (Some a) (d # ds) = avl_path t (node_child t a d) ds"

lemma avl_path_height:
  assumes "rep (avl_mem t) p par ci T" "avl_path t p ds = Some a"
  shows "Suc (length ds) \<le> height T"
  using assms
proof (induction T arbitrary: p par ci ds)
  case (ANode l b bal r)
  then show ?case
  proof (cases ds)
    case (Cons d ds')
    then show ?thesis using ANode.prems ANode.IH(1)[of _ _ _ ds'] ANode.IH(2)[of _ _ _ ds']
      by (cases d) (fastforce simp: node_child_def)+
  qed simp
qed simp

lemma avl_path_nodes:
  assumes "rep (avl_mem t) p par ci T"
  shows "(\<exists>ds. avl_path t p ds = Some a) \<longleftrightarrow> a \<in> set (inorder T)"
  using assms
proof (induction T arbitrary: p par ci)
  case (ANode l b bal r)
  have p: "p = Some b" using ANode.prems by simp
  have "(\<exists>ds. avl_path t p ds = Some a) \<longleftrightarrow> a = b \<or> (\<exists>d ds. avl_path t (node_child t b d) ds = Some a)"
  proof
    assume "\<exists>ds. avl_path t p ds = Some a"
    then obtain ds where "avl_path t p ds = Some a" by blast
    then show "a = b \<or> (\<exists>d ds. avl_path t (node_child t b d) ds = Some a)" unfolding p by (cases ds) auto
  next
    assume "a = b \<or> (\<exists>d ds. avl_path t (node_child t b d) ds = Some a)"
    then show "\<exists>ds. avl_path t p ds = Some a" unfolding p by (metis avl_path.simps(2,3))
  qed
  moreover have "(\<exists>d ds. avl_path t (node_child t b d) ds = Some a) \<longleftrightarrow> a \<in> set (inorder l) \<or> a \<in> set (inorder r)"
    using ANode.IH ANode.prems by (auto simp: node_child_def ex_bool_eq)
  ultimately show ?case by auto
qed simp

lemma key_cmp_order: "comparator key_cmp"
  by unfold_locales (auto simp: key_cmp_def split: if_splits)

section \<open>Properties\<close>

lemma fold_snoc: "fold (\<lambda>a seen. seen @ [a]) xs acc = acc @ xs"
  by (induction xs arbitrary: acc) auto

text \<open>
  C1: \<open>avl_add\<close> of an object that compares unequal to every node of a well-formed tree returns, raises
  no fault, and gives a well-formed (balanced) tree that holds the new node between the smaller and the
  greater ones and is otherwise the same sequence.
\<close>

theorem avl_add_sorted_insert:
  assumes "avl_inv t xs" "compar_sorted compar xs" "unmatched compar xs" "a \<notin> set xs" "a \<noteq> avl_tmp"
  shows "\<exists>t'. avl_add compar t a = Inr t' \<and> avl_inv t' (below compar xs @ a # above compar xs)
     \<and> avl_numnodes t' = avl_numnodes t + 1"
proof -
  obtain t' where t': "avl_add compar t a = Inr t'" "avl_inv t' (below compar xs @ a # above compar xs)"
    using avl_add_inv[OF assms] by blast
  have "length (below compar xs @ a # above compar xs) = length xs + 1"
    using arg_cong[OF below_above[OF assms(2,3)], of length] by simp
  then show ?thesis using t' avl_inv_numnodes[OF t'(2)] avl_inv_numnodes[OF assms(1)] by simp
qed

theorem avl_add_sorted_insert_witness:
  "\<exists>t'. avl_add (key_cmp 35) four_nodes 35 = Inr t' \<and> avl_inv t' [10, 20, 30, 35, 40] \<and> avl_numnodes t' = 5"
  using avl_add_sorted_insert[OF four_nodes_inv four_nodes_sorted[of 35], of 35]
  by (simp add: key_cmp_def avl_tmp_def avl_inv_numnodes[OF four_nodes_inv] eval_nat_numeral)

text \<open>
  C2: \<open>avl_remove\<close> of any node of a well-formed tree returns, raises no fault, and gives a well-formed
  tree with the same sequence of nodes but for the removed one.
\<close>

theorem avl_remove_sequence:
  assumes "avl_inv t (ys @ a # zs)"
  shows "\<exists>t'. avl_remove t a = Inr t' \<and> avl_inv t' (ys @ zs) \<and> avl_numnodes t' + 1 = avl_numnodes t"
proof -
  obtain t' where t': "avl_remove t a = Inr t'" "avl_inv t' (ys @ zs)"
    using avl.remove_at[OF assms] by blast
  then show ?thesis using avl_inv_numnodes[OF t'(2)] avl_inv_numnodes[OF assms] by auto
qed

theorem avl_remove_sequence_witness:
  "\<exists>t'. avl_remove four_nodes 20 = Inr t' \<and> avl_inv t' [10, 30, 40] \<and> avl_numnodes t' + 1 = avl_numnodes four_nodes"
  using avl_remove_sequence[of four_nodes "[10]" 20 "[30, 40]"] four_nodes_inv by simp

text \<open>
  C3: \<open>avl_find\<close> on a well-formed tree that is ordered by the comparison returns a node that compares
  equal exactly when there is one; otherwise the index it stores leads \<open>avl_nearest\<close> to the greatest
  smaller node (\<open>AVL_BEFORE\<close>) and to the smallest greater node (\<open>AVL_AFTER\<close>), or to NULL where there
  is none.
\<close>

theorem avl_find_nearest_correct:
  assumes "avl_inv t xs" "compar_sorted compar xs"
  shows "if \<exists>a \<in> set xs. compar a = 0
     then \<exists>a w. avl_find compar t = Inr (Some a, w) \<and> a \<in> set xs \<and> compar a = 0
     else \<exists>w. avl_find compar t = Inr (None, w)
        \<and> avl_nearest t w AVL_BEFORE = Inr (last_opt (below compar xs))
        \<and> avl_nearest t w AVL_AFTER = Inr (hd_opt (above compar xs))"
proof (cases "unmatched compar xs")
  case True
  then show ?thesis using avl.find_nearest[OF assms True] by (auto simp: unmatched_def)
next
  case False
  then show ?thesis using avl.find_some[OF assms False] by (auto simp: unmatched_def)
qed

theorem avl_find_nearest_correct_witness:
  "\<exists>w. avl_find (key_cmp 25) four_nodes = Inr (None, w)
     \<and> avl_nearest four_nodes w AVL_BEFORE = Inr (Some 20) \<and> avl_nearest four_nodes w AVL_AFTER = Inr (Some 30)"
  using avl_find_nearest_correct[OF four_nodes_inv four_nodes_sorted[of 25]] by (simp add: key_cmp_def last_opt_def)

text \<open>
  C4: the loops \<open>for (x = avl_first(t); x; x = AVL_NEXT(t, x))\<close> and
  \<open>for (x = avl_last(t); x; x = AVL_PREV(t, x))\<close> end, and visit every node of a well-formed tree
  exactly once, in ascending and in descending order.
\<close>

theorem avl_walk_in_order:
  assumes "avl_inv t xs"
  shows "scan (avl_first t) (AVL_NEXT t) (\<lambda>a seen. Inr (seen @ [a])) [] = Inr xs
     \<and> scan (avl_last t) (AVL_PREV t) (\<lambda>a seen. Inr (seen @ [a])) [] = Inr (rev xs)"
  using assms by (simp add: fwd.scan_all bwd.scan_all[of t "rev xs"] fold_snoc)

theorem avl_walk_in_order_witness:
  "scan (avl_first four_nodes) (AVL_NEXT four_nodes) (\<lambda>a seen. Inr (seen @ [a])) [] = Inr [10, 20, 30, 40]
   \<and> scan (avl_last four_nodes) (AVL_PREV four_nodes) (\<lambda>a seen. Inr (seen @ [a])) [] = Inr [40, 30, 20, 10]"
  using avl_walk_in_order[OF four_nodes_inv] by simp

text \<open>
  C5: after the key of one node has changed so that the node may be out of place, \<open>avl_update\<close> returns
  and gives a well-formed tree in which that node stands between the smaller and the greater ones.
\<close>

theorem avl_update_resorts:
  assumes "avl_inv t (ys @ a # zs)" "compar_sorted compar (ys @ zs)" "unmatched compar (ys @ zs)"
  shows "\<exists>t' moved. avl_update compar t a = Inr (t', moved)
     \<and> avl_inv t' (below compar (ys @ zs) @ a # above compar (ys @ zs))"
  using assms by (rule avl_update_inv)

theorem avl_update_resorts_witness:
  "\<exists>t' moved. avl_update (key_cmp 45) four_nodes 20 = Inr (t', moved) \<and> avl_inv t' [10, 30, 40, 20]"
  using avl_update_resorts[of four_nodes "[10]" 20 "[30, 40]" "key_cmp 45"] four_nodes_inv
  by (simp add: key_cmp_def compar_sorted_def)

text \<open>
  C6: \<open>avl_add\<close> of an object that compares equal to a node of the tree panics, and never inserts it.
\<close>

theorem avl_add_duplicate_panics:
  assumes "avl_inv t xs" "compar_sorted compar xs" "b \<in> set xs" "compar b = 0"
  shows "avl_add compar t a = Inl (Panic ''avl_find() succeeded inside avl_add()'')"
  by (rule avl_add_duplicate[OF assms(1,2)]) (use assms(3,4) in \<open>auto simp: unmatched_def\<close>)

theorem avl_add_duplicate_panics_witness:
  "avl_add (key_cmp 30) four_nodes 50 = Inl (Panic ''avl_find() succeeded inside avl_add()'')"
  using avl_add_duplicate_panics[OF four_nodes_inv four_nodes_sorted[of 30], of 30] by (simp add: key_cmp_def)

text \<open>
  C7: the loop \<open>while ((node = avl_destroy_nodes(tree, &cookie)) != NULL) free(node)\<close> ends, returns every
  node of the tree exactly once and leaves the empty tree, whatever the freed memory holds afterwards
  (\<open>junk\<close>): no node is read after it has been returned.
\<close>

theorem avl_destroy_loop_frees_all:
  assumes "avl_inv t xs"
  shows "\<exists>t' ps. destroy_loop junk t CookieNull [] = Some (Inr (t', ps)) \<and> avl_inv t' []
     \<and> set ps = set xs \<and> distinct ps"
  using assms by (rule destroy_loop_inv)

theorem avl_destroy_loop_frees_all_witness:
  "\<exists>t' ps. destroy_loop (\<lambda>a. leaf_node (Some a) True) four_nodes CookieNull [] = Some (Inr (t', ps))
     \<and> avl_inv t' [] \<and> set ps = {10, 20, 30, 40} \<and> distinct ps"
  using avl_destroy_loop_frees_all[OF four_nodes_inv] by simp

text \<open>
  C8: any sequence of \<open>avl_add\<close> and \<open>avl_remove\<close> calls on a new tree that adds only objects whose keys are not there and
  removes only nodes that are there, returns. Following child pointers from the root of the result leads to exactly the nodes
  added and not removed since. A node that is reached after \<open>d\<close> pointers needs \<open>2 ^ ((d + 1) div 2) \<le> n + 1\<close> for the \<open>n\<close> nodes
  of the tree, so a search looks at no more than \<open>2 * log2 (n + 1) + 1\<close> of them.
\<close>

theorem avl_depth_bound:
  assumes "comparator cmp" "legal_ops key {} ops"
  shows "\<exists>t. foldM (avl_op_step cmp key) ops (avl_create mem) = Inr t \<and> avl_numnodes t = card (nodes_after {} ops)
     \<and> (\<forall>a. (\<exists>ds. avl_path t (avl_root t) ds = Some a) \<longleftrightarrow> a \<in> nodes_after {} ops)
     \<and> (\<forall>a ds. avl_path t (avl_root t) ds = Some a \<longrightarrow> 2 ^ (Suc (length ds) div 2) \<le> avl_numnodes t + 1)"
proof -
  obtain t xs where t: "foldM (avl_op_step cmp key) ops (avl_create mem) = Inr t" "avl_inv t xs" "set xs = nodes_after {} ops"
    using avl_ops_inv[OF assms(1) avl_create_inv[of mem], of key ops] assms(2) by auto
  from t(2) obtain T where T: "tree_rep t T" "inorder T = xs" "balanced T" by (rule avl_invD)
  then obtain ci where rep: "rep (avl_mem t) (avl_root t) None ci T" by (auto simp: tree_rep_def)
  have "avl_numnodes t = card (nodes_after {} ops)"
    using avl_inv_numnodes[OF t(2)] avl_inv_distinct[OF t(2)] distinct_card[of xs] t(3) by simp
  moreover have "2 ^ (Suc (length ds) div 2) \<le> avl_numnodes t + 1" if "avl_path t (avl_root t) ds = Some a" for a ds
  proof -
    have "Suc (length ds) div 2 \<le> height T div 2" using avl_path_height[OF rep that] by (simp add: div_le_mono)
    then have "(2 :: nat) ^ (Suc (length ds) div 2) \<le> 2 ^ (height T div 2)" by (rule power_increasing) simp
    also have "\<dots> \<le> avl_numnodes t + 1" using height_inorder[OF T(3)] avl_inv_numnodes[OF t(2)] T(2) by simp
    finally show ?thesis .
  qed
  ultimately show ?thesis using t(1,3) avl_path_nodes[OF rep] T(2) by auto
qed

theorem avl_depth_bound_witness:
  "\<exists>t. foldM (avl_op_step key_cmp id) [Add 10, Add 20, Add 30, Add 40, Remove 20, Add 50] (avl_create (\<lambda>_. leaf_node None False)) = Inr t
     \<and> avl_numnodes t = 4 \<and> (\<forall>a. (\<exists>ds. avl_path t (avl_root t) ds = Some a) \<longleftrightarrow> a \<in> {10, 30, 40, 50})
     \<and> (\<forall>a ds. avl_path t (avl_root t) ds = Some a \<longrightarrow> 2 ^ (Suc (length ds) div 2) \<le> (5 :: nat))"
proof -
  let ?ops = "[Add 10, Add 20, Add 30, Add 40, Remove 20, Add 50]"
  have n: "nodes_after {} ?ops = {10, 30, 40, 50}" and l: "legal_ops id {} ?ops" by (auto simp: avl_tmp_def)
  have c: "card {10, 30, 40, 50 :: addr} = 4" by simp
  obtain t where "foldM (avl_op_step key_cmp id) ?ops (avl_create (\<lambda>_. leaf_node None False)) = Inr t" "avl_numnodes t = 4"
    "\<forall>a. (\<exists>ds. avl_path t (avl_root t) ds = Some a) \<longleftrightarrow> a \<in> {10, 30, 40, 50}"
    "\<forall>a ds. avl_path t (avl_root t) ds = Some a \<longrightarrow> 2 ^ (Suc (length ds) div 2) \<le> avl_numnodes t + 1"
    using avl_depth_bound[OF key_cmp_order l, of "\<lambda>_. leaf_node None False"] unfolding n c by (elim exE conjE) (rule that)
  then show ?thesis by (intro exI[of _ t]) simp
qed

end
