(* ===== verification/Sysmacros.thy ===== *)
theory Sysmacros
  imports Kernel_Prelude
begin

text \<open>
  Macros of \<open>sys/sysmacros.h\<close> and \<open>sys/spa.h\<close> that the storage code computes with: alignment to
  powers of two, bit fields of 64-bit words, and \<open>highbit\<close>; with their arithmetic meaning.
\<close>

section \<open>Definitions\<close>

definition P2ALIGN :: "u64 \<Rightarrow> u64 \<Rightarrow> u64" where
  "P2ALIGN x align = x AND - align"

definition P2PHASE :: "u64 \<Rightarrow> u64 \<Rightarrow> u64" where
  "P2PHASE x align = x AND (align - 1)"

definition P2NPHASE :: "u64 \<Rightarrow> u64 \<Rightarrow> u64" where
  "P2NPHASE x align = (- x) AND (align - 1)"

definition P2ROUNDUP :: "u64 \<Rightarrow> u64 \<Rightarrow> u64" where
  "P2ROUNDUP x align = - ((- x) AND - align)"

definition ISP2 :: "u64 \<Rightarrow> bool" where
  "ISP2 x = ((x AND (x - 1)) = 0)"

definition BF64_DECODE :: "u64 \<Rightarrow> nat \<Rightarrow> nat \<Rightarrow> u64" where
  "BF64_DECODE x low len = P2PHASE (drop_bit low x) (push_bit len 1)"

definition BF64_ENCODE :: "u64 \<Rightarrow> nat \<Rightarrow> nat \<Rightarrow> u64" where
  "BF64_ENCODE x low len = push_bit low (P2PHASE x (push_bit len 1))"

definition BF64_GET :: "u64 \<Rightarrow> nat \<Rightarrow> nat \<Rightarrow> u64" where
  "BF64_GET x low len = BF64_DECODE x low len"

definition BF64_SET :: "u64 \<Rightarrow> nat \<Rightarrow> nat \<Rightarrow> u64 \<Rightarrow> u64" where
  "BF64_SET x low len val = x XOR BF64_ENCODE (drop_bit low x XOR val) low len"

definition BF64_GET_SB :: "u64 \<Rightarrow> nat \<Rightarrow> nat \<Rightarrow> nat \<Rightarrow> u64 \<Rightarrow> u64" where
  "BF64_GET_SB x low len shift bias = push_bit shift (BF64_GET x low len + bias)"

definition BF64_SET_SB :: "u64 \<Rightarrow> nat \<Rightarrow> nat \<Rightarrow> nat \<Rightarrow> u64 \<Rightarrow> u64 \<Rightarrow> u64" where
  "BF64_SET_SB x low len shift bias val = BF64_SET x low len (drop_bit shift val - bias)"

text \<open>One step of \<open>highbit\<close>: \<open>if (i & mask) { h += n; i >>= n; }\<close>.\<close>

definition highbit_step :: "u64 \<Rightarrow> nat \<Rightarrow> u64 \<times> nat \<Rightarrow> u64 \<times> nat" where
  "highbit_step m n = (\<lambda>(i, h). if i AND m \<noteq> 0 then (drop_bit n i, h + n) else (i, h))"

definition highbit :: "u64 \<Rightarrow> nat" where
  "highbit i =
     (if i = 0 then 0
      else
        (let (i, h) = highbit_step 0xffffffff00000000 32 (i, 1);
             (i, h) = highbit_step 0xffff0000 16 (i, h);
             (i, h) = highbit_step 0xff00 8 (i, h);
             (i, h) = highbit_step 0xf0 4 (i, h);
             (i, h) = highbit_step 0xc 2 (i, h)
         in if i AND 2 \<noteq> 0 then h + 1 else h))"

definition SPA_MINBLOCKSHIFT :: nat where
  "SPA_MINBLOCKSHIFT = 9"

definition SPA_MAXBLOCKSHIFT :: nat where
  "SPA_MAXBLOCKSHIFT = 17"

definition SPA_MINBLOCKSIZE :: u64 where
  "SPA_MINBLOCKSIZE = push_bit SPA_MINBLOCKSHIFT 1"

definition SPA_MAXBLOCKSIZE :: u64 where
  "SPA_MAXBLOCKSIZE = push_bit SPA_MAXBLOCKSHIFT 1"

section \<open>Words as naturals\<close>

lemmas word_nat = word_le_nat_alt word_less_nat_alt word_unat_eq_iff

lemma unat_less_64: "unat x < 2 ^ 64" for x :: u64
  using unsigned_less[of x] by simp

lemma unat_add_no_wrap: "unat x + unat y < 2 ^ 64 \<Longrightarrow> unat (x + y) = unat x + unat y" for x y :: u64
  by (simp add: unat_word_ariths)

lemma unat_diff_le: "y \<le> x \<Longrightarrow> unat (x - y) = unat x - unat y" for x y :: u64
  by (rule unat_sub)

lemma unat_push_bit_64: "unat x * 2 ^ n < 2 ^ 64 \<Longrightarrow> unat (push_bit n x) = unat x * 2 ^ n" for x :: u64
  using unsigned_push_bit_eq[of n x, where ?'a = nat] by (simp add: take_bit_eq_mod push_bit_eq_mult)

lemma unat_drop_bit_64: "unat (drop_bit n x) = unat x div 2 ^ n" for x :: u64
proof -
  have "unat x mod 18446744073709551616 = unat x" using unat_less_64[of x] by simp
  then show ?thesis
    using unsigned_drop_bit_eq[of n x, where ?'a = nat] by (simp add: take_bit_eq_mod drop_bit_eq_div)
qed

lemma unat_take_bit_64: "unat (take_bit n x) = unat x mod 2 ^ n" for x :: u64
proof (cases "n \<le> 64")
  case True
  then show ?thesis
    using unsigned_take_bit_eq[of n x, where ?'a = nat] by (simp add: take_bit_eq_mod)
next
  case False
  have "unat x < 2 ^ n"
    using unat_less_64[of x] power_increasing[of 64 n "2::nat"] False by linarith
  then show ?thesis using False by (simp add: take_bit_word_eq_self)
qed

lemma unat_pow2_64: "k < 64 \<Longrightarrow> unat (2 ^ k :: u64) = 2 ^ k"
  using unat_push_bit_64[of 1 k] by (simp add: power_strict_increasing_iff[of "2::nat" k 64, simplified])

section \<open>Alignment\<close>

lemma P2PHASE_take_bit: "P2PHASE x (2 ^ n) = take_bit n x"
  by (simp add: P2PHASE_def take_bit_eq_mask mask_eq_exp_minus_1 push_bit_eq_mult)

lemma P2PHASE_zero_iff: "P2PHASE x (2 ^ n) = 0 \<longleftrightarrow> 2 ^ n dvd unat x"
proof -
  have "P2PHASE x (2 ^ n) = 0 \<longleftrightarrow> unat (take_bit n x) = 0"
    by (simp add: P2PHASE_take_bit unat_eq_0)
  then show ?thesis by (simp add: unat_take_bit_64 dvd_eq_mod_eq_0)
qed

lemma P2ROUNDUP_pow2: "P2ROUNDUP x (2 ^ k) = x + take_bit k (- x)"
proof -
  have "- (2 ^ k :: u64) = NOT (mask k)"
    by (simp add: push_bit_eq_mult minus_exp_eq_not_mask)
  moreover have "(- x) AND NOT (mask k) = - x - take_bit k (- x)"
    by (subst disjunctive_diff) (auto simp: bit_take_bit_iff take_bit_eq_mask bit_simps intro!: bit_eqI)
  ultimately show ?thesis by (simp add: P2ROUNDUP_def)
qed

lemma P2ROUNDUP_nat:
  assumes "k < 64" "unat x + 2 ^ k \<le> 2 ^ 64"
  shows "unat x \<le> unat (P2ROUNDUP x (2 ^ k))"
    and "unat (P2ROUNDUP x (2 ^ k)) < unat x + 2 ^ k"
    and "2 ^ k dvd unat (P2ROUNDUP x (2 ^ k))"
proof -
  have less: "unat (take_bit k (- x)) < 2 ^ k" by (simp add: unat_take_bit_64)
  then have eq: "unat (P2ROUNDUP x (2 ^ k)) = unat x + unat (take_bit k (- x))"
    using assms(2) by (simp add: P2ROUNDUP_pow2 unat_add_no_wrap)
  have "(unat x + unat (- x)) mod 2 ^ 64 = unat (x + - x)"
    by (simp only: unat_word_ariths) simp
  then have "2 ^ 64 dvd unat x + unat (- x)" by (simp add: dvd_eq_mod_eq_0)
  then have "2 ^ k dvd unat x + unat (- x)"
    using assms(1) by (elim dvd_trans[rotated]) (rule le_imp_power_dvd, simp)
  then show "2 ^ k dvd unat (P2ROUNDUP x (2 ^ k))"
    unfolding eq unat_take_bit_64 by (simp only: dvd_eq_mod_eq_0 mod_add_right_eq)
  show "unat x \<le> unat (P2ROUNDUP x (2 ^ k))" "unat (P2ROUNDUP x (2 ^ k)) < unat x + 2 ^ k"
    using eq less by simp_all
qed

text \<open>\<open>x & -x\<close> is the largest power of two that divides \<open>x\<close>.\<close>

lemma low_bit_pow2:
  assumes "x \<noteq> (0 :: u64)"
  obtains k where "k < 64" "x AND - x = 2 ^ k" "2 ^ k dvd unat x"
proof -
  define k where "k = (LEAST i. bit x i)"
  have ex: "\<exists>i. bit x i" using assms bit_eqI[of x 0] by auto
  have k: "bit x k" "\<And>i. bit x i \<Longrightarrow> k \<le> i"
    using LeastI_ex[OF ex] Least_le[of "bit x"] by (auto simp: k_def)
  have tb: "take_bit k x = 0"
    by (rule bit_eqI) (use k(2) in \<open>fastforce simp: bit_take_bit_iff\<close>)
  have k64: "k < 64" using k(1) bit_imp_le_length[of x k] by simp
  define z where "z = drop_bit k x"
  have x: "x = push_bit k z" using bits_ident[of k x] tb by (simp add: z_def)
  have z0: "bit z 0" using k(1) by (simp add: z_def bit_drop_bit_eq)
  have "z - 1 = z AND NOT 1"
    by (rule disjunctive_diff) (use z0 in \<open>auto simp: bit_1_iff\<close>)
  then have neg: "- z = NOT z OR 1"
    by (simp only: minus_eq_not_minus_1[of z] bit.de_Morgan_conj bit.double_compl)
  have "z AND - z = z AND 1"
    unfolding neg by (rule bit_eqI) (auto simp: bit_and_iff bit_or_iff bit_not_iff)
  also have "\<dots> = 1" using z0 by (simp add: bit_iff_and_drop_bit_eq_1)
  finally have "z AND - z = 1" .
  moreover have "x AND - x = push_bit k (z AND - z)"
    by (simp add: x push_bit_and push_bit_minus)
  ultimately have "x AND - x = 2 ^ k" by simp
  moreover have "2 ^ k dvd unat x"
    using arg_cong[OF tb, of unat] by (simp add: unat_take_bit_64 dvd_eq_mod_eq_0)
  ultimately show ?thesis using that k64 by blast
qed

section \<open>Bit fields\<close>

lemma bit_BF64_DECODE: "bit (BF64_DECODE x low len) i \<longleftrightarrow> i < len \<and> bit x (low + i)"
  by (simp add: BF64_DECODE_def P2PHASE_take_bit bit_take_bit_iff bit_drop_bit_eq)

lemma bit_BF64_ENCODE:
  "bit (BF64_ENCODE x low len) i \<longleftrightarrow> low \<le> i \<and> i < low + len \<and> i < 64 \<and> bit x (i - low)"
  by (auto simp: BF64_ENCODE_def P2PHASE_take_bit bit_simps)

lemma bit_BF64_SET:
  assumes "low + len \<le> 64"
  shows "bit (BF64_SET x low len v) i \<longleftrightarrow>
    (if low \<le> i \<and> i < low + len then bit v (i - low) else bit x i)"
  using assms by (auto simp: BF64_SET_def bit_xor_iff bit_BF64_ENCODE bit_drop_bit_eq)

lemma BF64_GET_SET:
  assumes "low + len \<le> 64"
  shows "BF64_GET (BF64_SET x low len v) low len = take_bit len v"
  by (rule bit_eqI) (use assms in \<open>auto simp: BF64_GET_def bit_BF64_DECODE bit_BF64_SET bit_take_bit_iff\<close>)

lemma BF64_GET_SET_disjoint:
  assumes "low' + len' \<le> 64" "low + len \<le> low' \<or> low' + len' \<le> low"
  shows "BF64_GET (BF64_SET x low' len' v) low len = BF64_GET x low len"
  by (rule bit_eqI) (use assms in \<open>auto simp: BF64_GET_def bit_BF64_DECODE bit_BF64_SET\<close>)

lemma BF64_DECODE_ENCODE:
  assumes "low + len \<le> 64"
  shows "BF64_DECODE (BF64_ENCODE x low len) low len = take_bit len x"
  by (rule bit_eqI) (use assms in \<open>auto simp: bit_BF64_DECODE bit_BF64_ENCODE bit_take_bit_iff\<close>)

lemma BF64_DECODE_ENCODE_disjoint:
  assumes "low' + len' \<le> low \<or> low + len \<le> low'"
  shows "BF64_DECODE (BF64_ENCODE x low' len') low len = 0"
  by (rule bit_eqI) (use assms in \<open>auto simp: bit_BF64_DECODE bit_BF64_ENCODE\<close>)

lemma BF64_DECODE_or: "BF64_DECODE (x OR y) low len = BF64_DECODE x low len OR BF64_DECODE y low len"
  by (rule bit_eqI) (auto simp: bit_BF64_DECODE bit_or_iff)

text \<open>A shifted and biased field gives back a value that is a multiple of the unit and in range.\<close>

lemma BF64_SB_roundtrip:
  assumes "low + len \<le> 64" "len + shift < 64" "2 ^ shift dvd unat v"
    and "unat bias * 2 ^ shift \<le> unat v" "unat v < (2 ^ len + unat bias) * 2 ^ shift"
    and "(2 ^ len + unat bias) * 2 ^ shift \<le> 2 ^ 64"
  shows "BF64_GET_SB (BF64_SET_SB x low len shift bias v) low len shift bias = v"
proof -
  obtain q where q: "unat v = q * 2 ^ shift" using assms(3) by (metis dvd_div_mult_self)
  have qb: "unat bias \<le> q" "q < 2 ^ len + unat bias" using assms(4,5) q by simp_all
  let ?d = "drop_bit shift v - bias"
  have dq: "unat (drop_bit shift v) = q" using q by (simp add: unat_drop_bit_64)
  then have d: "unat ?d = q - unat bias"
    using qb(1) by (simp add: unat_diff_le word_le_nat_alt)
  have "unat (take_bit len ?d) = q - unat bias"
    using qb d by (simp add: unat_take_bit_64)
  then have tb: "take_bit len ?d = ?d" using d by (simp add: word_unat_eq_iff)
  have "unat (push_bit shift (drop_bit shift v)) = unat v"
    using q dq unat_less_64[of v] by (subst unat_push_bit_64) simp_all
  then have "push_bit shift (drop_bit shift v) = v" by (simp only: word_unat_eq_iff)
  then show ?thesis
    by (simp add: BF64_GET_SB_def BF64_SET_SB_def BF64_GET_SET[OF assms(1)] tb)
qed

section \<open>The highest bit\<close>

lemma highbit_zero [simp]: "highbit 0 = 0"
  by (simp add: highbit_def)

lemma high_half:
  fixes i m :: u64
  assumes "m = push_bit n (mask n)" "unat i < 2 ^ (2 * n)" "2 * n \<le> 64"
  shows "i AND m \<noteq> 0 \<longleftrightarrow> 2 ^ n \<le> unat i"
proof -
  have "i AND m = push_bit n (take_bit n (drop_bit n i))"
    unfolding assms(1) by (rule bit_eqI) (auto simp: bit_simps bit_mask_iff)
  moreover have "unat (drop_bit n i) < 2 ^ n"
    using assms(2) by (simp add: unat_drop_bit_64 less_mult_imp_div_less power_add mult_2)
  then have "take_bit n (drop_bit n i) = drop_bit n i"
    by (simp add: word_unat_eq_iff unat_take_bit_64)
  moreover have "push_bit n (drop_bit n i) = 0 \<longleftrightarrow> drop_bit n i = 0"
  proof
    assume "push_bit n (drop_bit n i) = 0"
    then have "unat (push_bit n (drop_bit n i)) = 0" by simp
    moreover have "unat (drop_bit n i) * 2 ^ n < 2 ^ 64"
      using unat_less_64[of i] by (simp add: unat_drop_bit_64 le_less_trans[OF div_times_less_eq_dividend])
    ultimately show "drop_bit n i = 0" by (metis mult_eq_0_iff power_not_zero unat_eq_zero unat_push_bit_64 zero_neq_numeral)
  qed simp
  moreover have "drop_bit n i = 0 \<longleftrightarrow> unat i < 2 ^ n"
    using unat_drop_bit_64[of n i] by (metis div_eq_0_iff power_not_zero unat_eq_zero zero_neq_numeral)
  ultimately show ?thesis by (simp add: not_less)
qed

text \<open>The loop invariant: what is left of the word is \<open>i\<^sub>0 >> (h - 1)\<close> and it is not zero.\<close>

definition highbit_inv :: "u64 \<Rightarrow> nat \<Rightarrow> u64 \<times> nat \<Rightarrow> bool" where
  "highbit_inv i0 n = (\<lambda>(i, h). unat i = unat i0 div 2 ^ (h - 1) \<and> 0 < unat i \<and> unat i < 2 ^ n \<and> 0 < h)"

lemma highbit_step_inv:
  assumes "highbit_inv i0 (2 * n) s" "m = push_bit n (mask n)" "2 * n \<le> 64"
  shows "highbit_inv i0 n (highbit_step m n s)"
proof -
  obtain i h where s: "s = (i, h)" by fastforce
  have i: "unat i = unat i0 div 2 ^ (h - 1)" "0 < unat i" "unat i < 2 ^ (2 * n)" "0 < h"
    using assms(1) s by (simp_all add: highbit_inv_def)
  have "unat (drop_bit n i) = unat i0 div 2 ^ (h + n - 1)"
    using i(1,4) by (simp add: unat_drop_bit_64 div_mult2_eq[symmetric] power_add[symmetric])
  moreover have "unat (drop_bit n i) < 2 ^ n"
    using i(3) by (simp add: unat_drop_bit_64 less_mult_imp_div_less power_add mult_2)
  moreover have "2 ^ n \<le> unat i \<Longrightarrow> 0 < unat (drop_bit n i)"
    by (simp add: unat_drop_bit_64 div_greater_zero_iff)
  ultimately show ?thesis
    using i high_half[OF assms(2) i(3) assms(3)] by (simp add: s highbit_step_def highbit_inv_def)
qed

lemma highbit_bounds:
  assumes "i \<noteq> 0"
  shows "0 < highbit i" "2 ^ (highbit i - 1) \<le> unat i" "unat i < 2 ^ highbit i"
proof -
  define s1 where "s1 = highbit_step 0xffffffff00000000 32 (i, 1)"
  define s2 where "s2 = highbit_step 0xffff0000 16 s1"
  define s3 where "s3 = highbit_step 0xff00 8 s2"
  define s4 where "s4 = highbit_step 0xf0 4 s3"
  define s5 where "s5 = highbit_step 0xc 2 s4"
  have "highbit_inv i 64 (i, 1)"
    using assms unat_less_64[of i] by (simp add: highbit_inv_def unat_gt_0)
  then have "highbit_inv i 32 s1"
    using highbit_step_inv[of i 32 "(i, 1)"] unfolding s1_def by (simp add: mask_eq_exp_minus_1 push_bit_eq_mult)
  then have "highbit_inv i 16 s2"
    using highbit_step_inv[of i 16 s1] unfolding s2_def by (simp add: mask_eq_exp_minus_1 push_bit_eq_mult)
  then have "highbit_inv i 8 s3"
    using highbit_step_inv[of i 8 s2] unfolding s3_def by (simp add: mask_eq_exp_minus_1 push_bit_eq_mult)
  then have "highbit_inv i 4 s4"
    using highbit_step_inv[of i 4 s3] unfolding s4_def by (simp add: mask_eq_exp_minus_1 push_bit_eq_mult)
  then have "highbit_inv i 2 s5"
    using highbit_step_inv[of i 2 s4] unfolding s5_def by (simp add: mask_eq_exp_minus_1 push_bit_eq_mult)
  then obtain j h where s5: "s5 = (j, h)" and j: "unat j = unat i div 2 ^ (h - 1)" "0 < unat j" "unat j < 4" "0 < h"
    by (cases s5) (auto simp: highbit_inv_def)
  have two: "j AND 2 \<noteq> 0 \<longleftrightarrow> 2 \<le> unat j"
    using high_half[of 2 1 j] j(3) by (simp add: mask_eq_exp_minus_1)
  have hb: "highbit i = (if 2 \<le> unat j then h + 1 else h)"
    using assms two s5 unfolding s5_def s4_def s3_def s2_def s1_def
    by (simp add: highbit_def Let_def case_prod_unfold)
  have ge: "2 ^ (h - 1) * unat j \<le> unat i" "unat i < 2 ^ (h - 1) * (unat j + 1)"
    using j(1) dividend_less_times_div[of "2 ^ (h - 1)" "unat i"] by simp_all
  have h: "(2::nat) ^ h = 2 * 2 ^ (h - 1)" using j(4) by (cases h) auto
  show "0 < highbit i" using hb j(4) by simp
  show "2 ^ (highbit i - 1) \<le> unat i"
  proof (cases "2 \<le> unat j")
    case True
    have "2 ^ (h - 1) * 2 \<le> 2 ^ (h - 1) * unat j" using True by (rule mult_le_mono2)
    then have "2 * 2 ^ (h - 1) \<le> unat i" using ge(1) by linarith
    then show ?thesis using True hb h by simp
  next
    case False
    have "2 ^ (h - 1) * 1 \<le> 2 ^ (h - 1) * unat j" using j(2) by (intro mult_le_mono2) simp
    then have "2 ^ (h - 1) \<le> unat i" using ge(1) by linarith
    then show ?thesis using False hb by simp
  qed
  show "unat i < 2 ^ highbit i"
  proof (cases "2 \<le> unat j")
    case True
    have "2 ^ (h - 1) * (unat j + 1) \<le> 2 ^ (h - 1) * 4" using j(3) by (intro mult_le_mono2) simp
    then have "unat i < 4 * 2 ^ (h - 1)" using ge(2) by linarith
    then show ?thesis using True hb h by simp
  next
    case False
    have "2 ^ (h - 1) * (unat j + 1) \<le> 2 ^ (h - 1) * 2" using False by (intro mult_le_mono2) simp
    then have "unat i < 2 * 2 ^ (h - 1)" using ge(2) by linarith
    then show ?thesis using False hb h by simp
  qed
qed

lemma highbit_pow2: "k < 64 \<Longrightarrow> highbit (2 ^ k) = Suc k"
proof -
  assume k: "k < 64"
  have "2 ^ k \<noteq> (0 :: u64)" using unat_pow2_64[OF k] by (metis unat_0 power_not_zero zero_neq_numeral)
  note b = highbit_bounds[OF this, unfolded unat_pow2_64[OF k]]
  have "highbit (2 ^ k) - 1 \<le> k" using b(2) power_increasing_iff[of "2::nat"] by simp
  moreover have "k < highbit (2 ^ k)" using b(3) power_strict_increasing_iff[of "2::nat"] by simp
  ultimately show ?thesis by simp
qed

end
