(* ===== verification/Space_Map.thy ===== *)
theory Space_Map
  imports Comparator Sysmacros
begin

text \<open>
  Space maps (\<open>uts/common/fs/zfs/space_map.c\<close>, \<open>sys/space_map.h\<close>): an AVL tree of disjoint
  segments, their on-disk log, and the reference trees that combine several maps.

  A map owns the \<open>space_seg_t\<close> objects it allocates: \<open>sm_segs\<close> is that part of the heap (a freed
  object is not in its domain and reading it is a fault). The linkage fields \<open>ss_node\<close> and
  \<open>ss_pp_node\<close> of a segment are the node memory of the two trees. The caller's lock is the flag
  \<open>sm_lock_held\<close>. What is not defined in this component is a parameter: the allocator and the
  tunable \<open>zfs_recover\<close> (record \<open>kernel\<close>), the block pickers (\<open>space_map_ops\<close>)
  and the DMU object that holds the log (\<open>dmu\<close>).
\<close>

section \<open>Data\<close>

record space_seg =
  ss_start :: u64
  ss_end :: u64

text \<open>The tables of block pickers that \<open>sm_ops\<close> may point to (defined in \<open>metaslab.c\<close>).\<close>

datatype sm_ops_table = metaslab_ff | metaslab_df | metaslab_cdf | metaslab_ndf

record space_map =
  sm_root :: avl_tree
  sm_space :: u64
  sm_start :: u64
  sm_size :: u64
  sm_shift :: u8
  sm_loaded :: bool
  sm_loading :: bool
  sm_ops :: "sm_ops_table option"
  sm_pp_root :: "((space_seg \<Rightarrow> space_seg \<Rightarrow> int) \<times> avl_tree) option"
  sm_ppd :: "u64 list option"
  sm_lock_held :: bool
  sm_segs :: "addr \<Rightarrow> space_seg option"

record kernel =
  kmem_alloc :: "(addr \<Rightarrow> space_seg option) \<Rightarrow> addr"
  zfs_recover :: bool

text \<open>\<open>KM_SLEEP\<close> allocations return memory that is not in use.\<close>

definition kmem_fresh :: "kernel \<Rightarrow> bool" where
  "kmem_fresh k \<longleftrightarrow> (\<forall>h. finite (dom h) \<longrightarrow> kmem_alloc k h \<notin> dom h \<and> kmem_alloc k h \<noteq> avl_tmp)"

definition blank_node :: avl_node where
  "blank_node = \<lparr>avl_child = (\<lambda>_. None), avl_parent = None, avl_child_index = False, avl_balance = 0\<rparr>"

definition seg_at :: "space_map \<Rightarrow> addr \<Rightarrow> space_seg" where
  "seg_at sm a = (case sm_segs sm a of None \<Rightarrow> \<lparr>ss_start = 0, ss_end = 0\<rparr> | Some s \<Rightarrow> s)"

definition deref_seg :: "space_map \<Rightarrow> addr \<Rightarrow> space_seg res" where
  "deref_seg sm a = deref (sm_segs sm a)"

definition set_seg :: "addr \<Rightarrow> space_seg \<Rightarrow> space_map \<Rightarrow> space_map" where
  "set_seg a s sm = sm\<lparr>sm_segs := (sm_segs sm)(a \<mapsto> s)\<rparr>"

text \<open>\<open>kmem_free(ss)\<close>: the segment and the linkage fields in it are gone.\<close>

definition free_seg :: "addr \<Rightarrow> space_map \<Rightarrow> space_map" where
  "free_seg a sm = sm\<lparr>sm_segs := (sm_segs sm)(a := None),
     sm_root := set_node a blank_node (sm_root sm),
     sm_pp_root := map_option (\<lambda>(cmp, t). (cmp, set_node a blank_node t)) (sm_pp_root sm)\<rparr>"

definition zfs_panic_recover :: "kernel \<Rightarrow> string \<Rightarrow> 'a res \<Rightarrow> 'a res" where
  "zfs_panic_recover k msg cont = (if zfs_recover k then cont else Inl (Panic msg))"

text \<open>A condition \<open>p != NULL && P(p)\<close>.\<close>

definition seg_test :: "space_map \<Rightarrow> addr option \<Rightarrow> (space_seg \<Rightarrow> bool) \<Rightarrow> bool res" where
  "seg_test sm p P = (case p of None \<Rightarrow> Inr False | Some a \<Rightarrow> rbind (deref_seg sm a) (\<lambda>s. Inr (P s)))"

section \<open>The tree of segments\<close>

definition space_map_seg_compare :: "space_seg \<Rightarrow> space_seg \<Rightarrow> int" where
  "space_map_seg_compare s1 s2 =
     (if ss_start s1 < ss_start s2 then
        (if ss_end s1 > ss_start s2 then 0 else -1)
      else if ss_start s1 > ss_start s2 then
        (if ss_start s1 < ss_end s2 then 0 else 1)
      else 0)"

definition seg_compar :: "space_map \<Rightarrow> space_seg \<Rightarrow> addr \<Rightarrow> int" where
  "seg_compar sm s a = space_map_seg_compare s (seg_at sm a)"

definition root_remove :: "addr \<Rightarrow> space_map \<Rightarrow> space_map res" where
  "root_remove a sm = rbind (avl_remove (sm_root sm) a) (\<lambda>t. Inr (sm\<lparr>sm_root := t\<rparr>))"

text \<open>\<open>if (sm->sm_pp_root) avl_remove(sm->sm_pp_root, ss)\<close> and the same for \<open>avl_add\<close>.\<close>

definition pp_remove :: "addr \<Rightarrow> space_map \<Rightarrow> space_map res" where
  "pp_remove a sm =
     (case sm_pp_root sm of
        None \<Rightarrow> Inr sm
      | Some (cmp, t) \<Rightarrow> rbind (avl_remove t a) (\<lambda>t. Inr (sm\<lparr>sm_pp_root := Some (cmp, t)\<rparr>)))"

definition pp_add :: "addr \<Rightarrow> space_map \<Rightarrow> space_map res" where
  "pp_add a sm =
     (case sm_pp_root sm of
        None \<Rightarrow> Inr sm
      | Some (cmp, t) \<Rightarrow>
          rbind (avl_add (\<lambda>n. cmp (seg_at sm a) (seg_at sm n)) t a)
            (\<lambda>t. Inr (sm\<lparr>sm_pp_root := Some (cmp, t)\<rparr>)))"

definition sm_unit :: "space_map \<Rightarrow> u64" where
  "sm_unit sm = push_bit (unat (sm_shift sm)) 1"

definition space_map_create :: "u64 \<Rightarrow> u64 \<Rightarrow> u8 \<Rightarrow> bool \<Rightarrow> space_map" where
  "space_map_create start size' shift lock_held =
     \<lparr>sm_root = avl_create (\<lambda>_. blank_node), sm_space = 0, sm_start = start, sm_size = size',
      sm_shift = shift, sm_loaded = False, sm_loading = False, sm_ops = None, sm_pp_root = None,
      sm_ppd = None, sm_lock_held = lock_held, sm_segs = (\<lambda>_. None)\<rparr>"

definition space_map_destroy :: "space_map \<Rightarrow> unit res" where
  "space_map_destroy sm =
     ASSERT (\<not> sm_loaded sm \<and> \<not> sm_loading sm)
       (VERIFY (sm_space sm = 0) (avl_destroy (sm_root sm)))"

text \<open>The four ways in which \<open>space_map_add\<close> places the new segment between its neighbours.\<close>

definition add_merge_both :: "addr \<Rightarrow> addr \<Rightarrow> space_map \<Rightarrow> (space_map \<times> addr) res" where
  "add_merge_both ss_before ss_after sm =
     rbind (root_remove ss_before sm) (\<lambda>sm.
     rbind (pp_remove ss_before sm) (\<lambda>sm.
     rbind (pp_remove ss_after sm) (\<lambda>sm.
     rbind (deref_seg sm ss_before) (\<lambda>b.
     rbind (deref_seg sm ss_after) (\<lambda>a.
       Inr (free_seg ss_before (set_seg ss_after (a\<lparr>ss_start := ss_start b\<rparr>) sm), ss_after))))))"

definition add_merge_before :: "addr \<Rightarrow> u64 \<Rightarrow> space_map \<Rightarrow> (space_map \<times> addr) res" where
  "add_merge_before ss_before end' sm =
     rbind (deref_seg sm ss_before) (\<lambda>b.
     rbind (pp_remove ss_before (set_seg ss_before (b\<lparr>ss_end := end'\<rparr>) sm)) (\<lambda>sm.
       Inr (sm, ss_before)))"

definition add_merge_after :: "addr \<Rightarrow> u64 \<Rightarrow> space_map \<Rightarrow> (space_map \<times> addr) res" where
  "add_merge_after ss_after start sm =
     rbind (deref_seg sm ss_after) (\<lambda>a.
     rbind (pp_remove ss_after (set_seg ss_after (a\<lparr>ss_start := start\<rparr>) sm)) (\<lambda>sm.
       Inr (sm, ss_after)))"

definition add_new :: "kernel \<Rightarrow> avl_index \<Rightarrow> u64 \<Rightarrow> u64 \<Rightarrow> space_map \<Rightarrow> (space_map \<times> addr) res" where
  "add_new k where start end' sm =
     (let ss = kmem_alloc k (sm_segs sm);
          sm = set_seg ss \<lparr>ss_start = start, ss_end = end'\<rparr> sm
      in rbind (avl_insert (sm_root sm) ss where) (\<lambda>t. Inr (sm\<lparr>sm_root := t\<rparr>, ss)))"

definition add_branch ::
  "kernel \<Rightarrow> avl_index \<Rightarrow> addr option \<Rightarrow> addr option \<Rightarrow> bool \<Rightarrow> bool \<Rightarrow> u64 \<Rightarrow> u64 \<Rightarrow> space_map
    \<Rightarrow> (space_map \<times> addr) res" where
  "add_branch k w ss_before ss_after mb ma start end' sm =
     (if mb \<and> ma then
        rbind (deref ss_before) (\<lambda>b. rbind (deref ss_after) (\<lambda>a. add_merge_both b a sm))
      else if mb then rbind (deref ss_before) (\<lambda>b. add_merge_before b end' sm)
      else if ma then rbind (deref ss_after) (\<lambda>a. add_merge_after a start sm)
      else add_new k w start end' sm)"

definition space_map_add :: "kernel \<Rightarrow> space_map \<Rightarrow> u64 \<Rightarrow> u64 \<Rightarrow> space_map res" where
  "space_map_add k sm start size' =
     (let end' = start + size';
          ssearch = \<lparr>ss_start = start, ss_end = end'\<rparr>
      in
      ASSERT (sm_lock_held sm) (
      VERIFY (size' \<noteq> 0) (
      VERIFY (start \<ge> sm_start sm) (
      VERIFY (end' \<le> sm_start sm + sm_size sm) (
      VERIFY (sm_space sm + size' \<le> sm_size sm) (
      VERIFY (P2PHASE start (sm_unit sm) = 0) (
      VERIFY (P2PHASE size' (sm_unit sm) = 0) (
      rbind (avl_find (seg_compar sm ssearch) (sm_root sm)) (\<lambda>(ss, where).
      rbind (seg_test sm ss (\<lambda>s. ss_start s \<le> start \<and> ss_end s \<ge> end')) (\<lambda>inside.
      if inside then
        zfs_panic_recover k ''zfs: allocating allocated segment(offset=%llu size=%llu)'' (Inr sm)
      else
      VERIFY (ss = None) (
      rbind (avl_nearest (sm_root sm) where AVL_BEFORE) (\<lambda>ss_before.
      rbind (avl_nearest (sm_root sm) where AVL_AFTER) (\<lambda>ss_after.
      rbind (seg_test sm ss_before (\<lambda>s. ss_end s = start)) (\<lambda>merge_before.
      rbind (seg_test sm ss_after (\<lambda>s. ss_start s = end')) (\<lambda>merge_after.
      rbind (add_branch k where ss_before ss_after merge_before merge_after start end' sm)
      (\<lambda>(sm, ss).
      rbind (pp_add ss sm) (\<lambda>sm.
        Inr (sm\<lparr>sm_space := sm_space sm + size'\<rparr>))))))))))))))))))"

text \<open>\<open>space_map_remove\<close> cuts the segment \<open>ss\<close> that covers the range; the result is the segment
  that has to go back to the picker's tree, if one is left.\<close>

definition remove_split ::
  "kernel \<Rightarrow> addr \<Rightarrow> u64 \<Rightarrow> u64 \<Rightarrow> space_map \<Rightarrow> (space_map \<times> addr option) res" where
  "remove_split k ss start end' sm =
     (let newseg = kmem_alloc k (sm_segs sm)
      in rbind (deref_seg sm ss) (\<lambda>s.
         let sm = set_seg newseg \<lparr>ss_start = end', ss_end = ss_end s\<rparr> sm;
             sm = set_seg ss (s\<lparr>ss_end := start\<rparr>) sm
         in rbind (avl_insert_here (\<lambda>n. space_map_seg_compare (seg_at sm newseg) (seg_at sm n))
                     (sm_root sm) newseg ss AVL_AFTER) (\<lambda>t.
            rbind (pp_add newseg (sm\<lparr>sm_root := t\<rparr>)) (\<lambda>sm. Inr (sm, Some ss)))))"

definition remove_whole :: "addr \<Rightarrow> space_map \<Rightarrow> (space_map \<times> addr option) res" where
  "remove_whole ss sm = rbind (root_remove ss sm) (\<lambda>sm. Inr (free_seg ss sm, None))"

definition remove_branch ::
  "kernel \<Rightarrow> addr \<Rightarrow> space_seg \<Rightarrow> u64 \<Rightarrow> u64 \<Rightarrow> space_map \<Rightarrow> (space_map \<times> addr option) res" where
  "remove_branch k ss s start end' sm =
     (let left_over = (ss_start s \<noteq> start);
          right_over = (ss_end s \<noteq> end')
      in if left_over \<and> right_over then remove_split k ss start end' sm
         else if left_over then Inr (set_seg ss (s\<lparr>ss_end := start\<rparr>) sm, Some ss)
         else if right_over then Inr (set_seg ss (s\<lparr>ss_start := end'\<rparr>) sm, Some ss)
         else remove_whole ss sm)"

definition space_map_remove :: "kernel \<Rightarrow> space_map \<Rightarrow> u64 \<Rightarrow> u64 \<Rightarrow> space_map res" where
  "space_map_remove k sm start size' =
     (let end' = start + size';
          ssearch = \<lparr>ss_start = start, ss_end = end'\<rparr>
      in
      ASSERT (sm_lock_held sm) (
      VERIFY (size' \<noteq> 0) (
      VERIFY (P2PHASE start (sm_unit sm) = 0) (
      VERIFY (P2PHASE size' (sm_unit sm) = 0) (
      rbind (avl_find (seg_compar sm ssearch) (sm_root sm)) (\<lambda>(found, where).
      case found of
        None \<Rightarrow> zfs_panic_recover k ''zfs: freeing free segment (offset=%llu size=%llu)'' (Inr sm)
      | Some ss \<Rightarrow>
          rbind (deref_seg sm ss) (\<lambda>s.
          VERIFY (ss_start s \<le> start) (
          VERIFY (ss_end s \<ge> end') (
          VERIFY (sm_space sm - size' \<le> sm_size sm) (
          rbind (pp_remove ss sm) (\<lambda>sm.
          rbind (remove_branch k ss s start end' sm)
          (\<lambda>(sm, left).
          rbind (case left of None \<Rightarrow> Inr sm | Some ss \<Rightarrow> pp_add ss sm) (\<lambda>sm.
            Inr (sm\<lparr>sm_space := sm_space sm - size'\<rparr>))))))))))))))"

definition space_map_contains :: "space_map \<Rightarrow> u64 \<Rightarrow> u64 \<Rightarrow> bool res" where
  "space_map_contains sm start size' =
     (let end' = start + size';
          ssearch = \<lparr>ss_start = start, ss_end = end'\<rparr>
      in
      ASSERT (sm_lock_held sm) (
      VERIFY (size' \<noteq> 0) (
      VERIFY (P2PHASE start (sm_unit sm) = 0) (
      VERIFY (P2PHASE size' (sm_unit sm) = 0) (
      rbind (avl_find (seg_compar sm ssearch) (sm_root sm)) (\<lambda>(ss, where).
        seg_test sm ss (\<lambda>s. ss_start s \<le> start \<and> ss_end s \<ge> end')))))))"

text \<open>
  \<open>func(mdest, start, size)\<close> is a function on the state \<open>'d\<close> of the destination; \<open>None\<close> is a NULL
  \<open>func\<close>.
\<close>

type_synonym 'd space_map_func = "u64 \<Rightarrow> u64 \<Rightarrow> 'd \<Rightarrow> 'd res"

definition call_func :: "'d space_map_func option \<Rightarrow> space_seg \<Rightarrow> 'd \<Rightarrow> 'd res" where
  "call_func func s d =
     (case func of None \<Rightarrow> Inr d | Some f \<Rightarrow> f (ss_start s) (ss_end s - ss_start s) d)"

partial_function (option) vacate_loop ::
  "'d space_map_func option \<Rightarrow> space_map \<Rightarrow> avl_cookie \<Rightarrow> 'd \<Rightarrow> (space_map \<times> 'd) res option" where
  "vacate_loop func sm cookie d =
     (case avl_destroy_nodes (sm_root sm) cookie of
        Inl e \<Rightarrow> Some (Inl e)
      | Inr (t, cookie', node) \<Rightarrow>
          (case node of
             None \<Rightarrow> Some (Inr (sm\<lparr>sm_root := t\<rparr>, d))
           | Some ss \<Rightarrow>
               (case rbind (deref_seg sm ss) (\<lambda>s. call_func func s d) of
                  Inl e \<Rightarrow> Some (Inl e)
                | Inr d' \<Rightarrow> vacate_loop func (free_seg ss (sm\<lparr>sm_root := t\<rparr>)) cookie' d')))"

definition space_map_vacate ::
  "space_map \<Rightarrow> 'd space_map_func option \<Rightarrow> 'd \<Rightarrow> (space_map \<times> 'd) res" where
  "space_map_vacate sm func d =
     ASSERT (sm_lock_held sm) (
     rbind (rbind (of_loop (vacate_loop func sm CookieNull d)) id) (\<lambda>(sm, d).
       Inr (sm\<lparr>sm_space := 0\<rparr>, d)))"

definition space_map_walk :: "space_map \<Rightarrow> 'd space_map_func \<Rightarrow> 'd \<Rightarrow> 'd res" where
  "space_map_walk sm func d =
     ASSERT (sm_lock_held sm) (
     scan (avl_first (sm_root sm)) (AVL_NEXT (sm_root sm))
       (\<lambda>ss d. rbind (deref_seg sm ss) (\<lambda>s. func (ss_start s) (ss_end s - ss_start s) d)) d)"

lemmas vacate_loop_code [code] = vacate_loop.simps

end
