(* ===== verification/Space_Map_Inv.thy ===== *)
theory Space_Map_Inv
  imports Space_Map
begin

text \<open>
  The invariant of a space map and the functional behaviour of \<open>space_map_add\<close>,
  \<open>space_map_remove\<close>, \<open>space_map_contains\<close>, \<open>space_map_vacate\<close> and \<open>space_map_walk\<close>: a space map is
  a set of integers, kept as maximal disjoint runs, none of which is leaked or shared.
\<close>

section \<open>Lists of segments\<close>

abbreviation lo :: "space_seg \<Rightarrow> nat" where
  "lo s \<equiv> unat (ss_start s)"

abbreviation hi :: "space_seg \<Rightarrow> nat" where
  "hi s \<equiv> unat (ss_end s)"

abbreviation seg_set :: "space_seg \<Rightarrow> nat set" where
  "seg_set s \<equiv> {lo s ..< hi s}"

text \<open>In address order, not empty, and with a gap between any two: no two runs can be merged.\<close>

definition seg_list :: "(addr \<Rightarrow> space_seg) \<Rightarrow> addr list \<Rightarrow> bool" where
  "seg_list g xs \<longleftrightarrow> (\<forall>a \<in> set xs. lo (g a) < hi (g a)) \<and> sorted_wrt (\<lambda>a b. hi (g a) < lo (g b)) xs"

definition segs_set :: "(addr \<Rightarrow> space_seg) \<Rightarrow> addr set \<Rightarrow> nat set" where
  "segs_set g A = (\<Union>a \<in> A. seg_set (g a))"

lemma seg_list_simps [simp]:
  "seg_list g []"
  "seg_list g (a # xs) \<longleftrightarrow> lo (g a) < hi (g a) \<and> (\<forall>b \<in> set xs. hi (g a) < lo (g b)) \<and> seg_list g xs"
  "seg_list g (xs @ ys) \<longleftrightarrow> seg_list g xs \<and> seg_list g ys \<and> (\<forall>a \<in> set xs. \<forall>b \<in> set ys. hi (g a) < lo (g b))"
  by (auto simp: seg_list_def sorted_wrt_append)

lemma seg_list_cong: "(\<And>a. a \<in> set xs \<Longrightarrow> g a = h a) \<Longrightarrow> seg_list g xs = seg_list h xs"
  by (induction xs) auto

lemma seg_list_upd [simp]: "a \<notin> set xs \<Longrightarrow> seg_list (g(a := s)) xs = seg_list g xs"
  by (rule seg_list_cong) auto

lemma seg_listD: "seg_list g xs \<Longrightarrow> a \<in> set xs \<Longrightarrow> lo (g a) < hi (g a)"
  by (simp add: seg_list_def)

lemma seg_list_inj:
  assumes "seg_list g xs" "distinct xs" "a \<in> set xs" "b \<in> set xs" "a \<noteq> b"
  shows "hi (g a) < lo (g b) \<or> hi (g b) < lo (g a)"
proof -
  obtain us vs where xs: "xs = us @ a # vs" using split_list[OF assms(3)] by blast
  then show ?thesis using assms by auto
qed

lemma segs_set_simps [simp]:
  "segs_set g {} = {}" "segs_set g (insert a A) = seg_set (g a) \<union> segs_set g A"
  "segs_set g (A \<union> B) = segs_set g A \<union> segs_set g B"
  by (auto simp: segs_set_def)

lemma segs_set_cong: "(\<And>a. a \<in> A \<Longrightarrow> g a = h a) \<Longrightarrow> segs_set g A = segs_set h A"
  by (auto simp: segs_set_def)

lemma segs_set_upd [simp]: "a \<notin> A \<Longrightarrow> segs_set (g(a := s)) A = segs_set g A"
  by (rule segs_set_cong) auto

lemma finite_segs_set [simp]: "finite A \<Longrightarrow> finite (segs_set g A)"
  by (simp add: segs_set_def)

section \<open>Searching\<close>

lemma seg_compare_nat:
  assumes "lo s < hi s" "lo r < hi r"
  shows "space_map_seg_compare s r = (if hi r \<le> lo s then 1 else if hi s \<le> lo r then -1 else 0)"
  using assms by (auto simp: space_map_seg_compare_def word_less_nat_alt)

lemma seg_compar_sorted:
  assumes "seg_list g xs" "lo s < hi s"
  shows "compar_sorted (\<lambda>a. space_map_seg_compare s (g a)) xs"
  using assms
proof (induction xs)
  case Nil
  then show ?case by (simp add: compar_sorted_def)
next
  case (Cons a xs)
  have "space_map_seg_compare s (g b) \<le> space_map_seg_compare s (g a)" if "b \<in> set xs" for b
    using Cons.prems that seg_listD[of g xs b] by (force simp: seg_compare_nat)
  with Cons show ?case by (auto simp: compar_sorted_Cons seg_compare_nat)
qed

text \<open>A range meets no segment, or lies in exactly one, or straddles a border.\<close>

lemma seg_unmatched:
  assumes "seg_list g xs" "lo s < hi s"
  shows "unmatched (\<lambda>a. space_map_seg_compare s (g a)) xs \<longleftrightarrow> seg_set s \<inter> segs_set g (set xs) = {}"
proof -
  have "space_map_seg_compare s (g a) \<noteq> 0 \<longleftrightarrow> seg_set s \<inter> seg_set (g a) = {}" if "a \<in> set xs" for a
    using assms that seg_listD[of g xs a] by (auto simp: seg_compare_nat not_le)
  then have "unmatched (\<lambda>a. space_map_seg_compare s (g a)) xs \<longleftrightarrow> (\<forall>a \<in> set xs. seg_set s \<inter> seg_set (g a) = {})"
    unfolding unmatched_def by blast
  then show ?thesis unfolding segs_set_def by blast
qed

lemma seg_below_above:
  assumes "seg_list g xs" "lo s < hi s" "seg_set s \<inter> segs_set g (set xs) = {}"
  obtains ys zs where "xs = ys @ zs"
    "below (\<lambda>a. space_map_seg_compare s (g a)) xs = ys"
    "above (\<lambda>a. space_map_seg_compare s (g a)) xs = zs"
    "\<forall>a \<in> set ys. hi (g a) \<le> lo s" "\<forall>a \<in> set zs. hi s \<le> lo (g a)"
proof -
  let ?c = "\<lambda>a. space_map_seg_compare s (g a)"
  have "xs = below ?c xs @ above ?c xs"
    using below_above seg_compar_sorted[OF assms(1,2)] seg_unmatched[OF assms(1,2)] assms(3) by blast
  moreover have "\<forall>a \<in> set (below ?c xs). hi (g a) \<le> lo s" "\<forall>a \<in> set (above ?c xs). hi s \<le> lo (g a)"
    using assms(2) seg_listD[OF assms(1)] by (auto simp: seg_compare_nat split: if_splits)
  ultimately show ?thesis using that by blast
qed

lemma seg_compar_fun: "seg_compar sm n = (\<lambda>a. space_map_seg_compare n (seg_at sm a))"
  by (simp add: fun_eq_iff seg_compar_def)

section \<open>The picker's tree\<close>

definition pp_inv ::
  "(addr \<Rightarrow> space_seg) \<Rightarrow> ((space_seg \<Rightarrow> space_seg \<Rightarrow> int) \<times> avl_tree) option \<Rightarrow> addr set \<Rightarrow> bool" where
  "pp_inv g pp A \<longleftrightarrow>
     (case pp of
        None \<Rightarrow> True
      | Some (cmp, t) \<Rightarrow> comparator cmp \<and>
          (\<exists>ys. avl_inv t ys \<and> set ys = A \<and> sorted_wrt (\<lambda>a b. cmp (g a) (g b) < 0) ys))"

lemma pp_inv_cong:
  assumes "pp_inv g pp A" "\<And>a. a \<in> A \<Longrightarrow> g a = h a"
  shows "pp_inv h pp A"
proof -
  have "sorted_wrt (\<lambda>a b. cmp (h a) (h b) < 0) ys"
    if "sorted_wrt (\<lambda>a b. cmp (g a) (g b) < 0) ys" "set ys = A" for ys and cmp :: "space_seg \<Rightarrow> space_seg \<Rightarrow> int"
    using that assms(2) by (auto elim!: sorted_wrt_mono_rel[rotated])
  then show ?thesis using assms(1) unfolding pp_inv_def by (fastforce split: option.splits)
qed

lemma pp_remove_inv:
  assumes "pp_inv g (sm_pp_root sm) A" "a \<in> A" "\<And>b. b \<in> A - {a} \<Longrightarrow> g b = h b"
  shows "\<exists>pp. pp_remove a sm = Inr (sm\<lparr>sm_pp_root := pp\<rparr>) \<and> pp_inv h pp (A - {a})
     \<and> map_option fst pp = map_option fst (sm_pp_root sm)"
proof (cases "sm_pp_root sm")
  case None
  then show ?thesis by (auto simp: pp_remove_def pp_inv_def intro!: exI[of _ None])
next
  case (Some p)
  obtain cmp t where p: "p = (cmp, t)" by fastforce
  obtain ys where ys: "comparator cmp" "avl_inv t ys" "set ys = A" "sorted_wrt (\<lambda>a b. cmp (g a) (g b) < 0) ys"
    using assms(1) Some p by (auto simp: pp_inv_def)
  obtain t' ys' where t': "avl_remove t a = Inr t'" "avl_inv t' ys'" "set ys' = A - {a}"
    "sorted_wrt (\<lambda>a b. cmp (g a) (g b) < 0) ys'"
    using comparator.avl_remove_key[OF ys(1,2,4)] assms(2) ys(3) by blast
  then have "pp_inv g (Some (cmp, t')) (A - {a})" using ys(1) by (auto simp: pp_inv_def)
  then have "pp_inv h (Some (cmp, t')) (A - {a})" by (rule pp_inv_cong) (use assms(3) in blast)
  with t'(1) Some p show ?thesis by (auto simp: pp_remove_def)
qed

lemma pp_add_inv:
  assumes "pp_inv (seg_at sm) (sm_pp_root sm) A" "seg_at sm a \<notin> seg_at sm ` A" "a \<noteq> avl_tmp"
  shows "\<exists>pp. pp_add a sm = Inr (sm\<lparr>sm_pp_root := pp\<rparr>) \<and> pp_inv (seg_at sm) pp (insert a A)
     \<and> map_option fst pp = map_option fst (sm_pp_root sm)"
proof (cases "sm_pp_root sm")
  case None
  then show ?thesis by (auto simp: pp_add_def pp_inv_def intro!: exI[of _ None])
next
  case (Some p)
  obtain cmp t where p: "p = (cmp, t)" by fastforce
  obtain ys where ys: "comparator cmp" "avl_inv t ys" "set ys = A"
    "sorted_wrt (\<lambda>a b. cmp (seg_at sm a) (seg_at sm b) < 0) ys"
    using assms(1) Some p by (auto simp: pp_inv_def)
  obtain t' ys' where "avl_add (\<lambda>n. cmp (seg_at sm a) (seg_at sm n)) t a = Inr t'" "avl_inv t' ys'"
    "set ys' = insert a A" "sorted_wrt (\<lambda>a b. cmp (seg_at sm a) (seg_at sm b) < 0) ys'"
    using comparator.avl_add_key[OF ys(1,2,4)] assms(2,3) ys(3) by blast
  then have "pp_add a sm = Inr (sm\<lparr>sm_pp_root := Some (cmp, t')\<rparr>)" "pp_inv (seg_at sm) (Some (cmp, t')) (insert a A)"
    using Some p ys(1) by (auto simp: pp_add_def pp_inv_def)
  then show ?thesis using Some p by (intro exI[of _ "Some (cmp, t')"]) simp
qed

lemma avl_inv_set_node: "avl_inv t xs \<Longrightarrow> a \<notin> set xs \<Longrightarrow> avl_inv (set_node a n t) xs"
proof -
  assume inv: "avl_inv t xs" and a: "a \<notin> set xs"
  obtain T where "tree_rep t T" "balanced T" "inorder T = xs" using inv by (rule avl_invD)
  then have "tree_rep (set_node a n t) T \<and> balanced T \<and> inorder T = xs"
    using a by (auto simp: tree_rep_def set_node_def)
  with inv show ?thesis by (auto simp: avl_inv_def set_node_def)
qed

lemma pp_inv_free:
  assumes "pp_inv g pp A" "a \<notin> A"
  shows "pp_inv g (map_option (\<lambda>(cmp, t). (cmp, set_node a n t)) pp) A"
proof (cases pp)
  case (Some p)
  obtain cmp t where p: "p = (cmp, t)" by fastforce
  obtain ys where "comparator cmp" "avl_inv t ys" "set ys = A" "sorted_wrt (\<lambda>a b. cmp (g a) (g b) < 0) ys"
    using assms(1) Some p by (auto simp: pp_inv_def)
  with avl_inv_set_node[of t ys a n] assms(2) Some p show ?thesis by (auto simp: pp_inv_def)
qed (simp add: pp_inv_def)

section \<open>The invariant\<close>

definition sm_bounds :: "space_map \<Rightarrow> space_seg \<Rightarrow> bool" where
  "sm_bounds sm s \<longleftrightarrow> unat (sm_start sm) \<le> lo s \<and> hi s \<le> unat (sm_start sm) + unat (sm_size sm)
     \<and> 2 ^ unat (sm_shift sm) dvd lo s \<and> 2 ^ unat (sm_shift sm) dvd hi s"

definition sm_set :: "space_map \<Rightarrow> nat set" where
  "sm_set sm = segs_set (seg_at sm) (dom (sm_segs sm))"

definition sm_fits :: "space_map \<Rightarrow> bool" where
  "sm_fits sm \<longleftrightarrow> unat (sm_start sm) + unat (sm_size sm) < 2 ^ 64 \<and> unat (sm_shift sm) < 64"

text \<open>The map with the segments \<open>xs\<close>, of which the picker's tree holds \<open>A\<close>.\<close>

definition sm_pre :: "space_map \<Rightarrow> addr list \<Rightarrow> addr set \<Rightarrow> bool" where
  "sm_pre sm xs A \<longleftrightarrow>
     avl_inv (sm_root sm) xs \<and> dom (sm_segs sm) = set xs \<and> seg_list (seg_at sm) xs
     \<and> (\<forall>a \<in> set xs. sm_bounds sm (seg_at sm a)) \<and> pp_inv (seg_at sm) (sm_pp_root sm) A"

definition sm_rep :: "space_map \<Rightarrow> addr list \<Rightarrow> bool" where
  "sm_rep sm xs \<longleftrightarrow>
     sm_pre sm xs (set xs) \<and> unat (sm_space sm) = card (segs_set (seg_at sm) (set xs))"

definition sm_inv :: "space_map \<Rightarrow> bool" where
  "sm_inv sm \<longleftrightarrow> sm_fits sm \<and> sm_lock_held sm \<and> (\<exists>xs. sm_rep sm xs)"

text \<open>What a call leaves alone.\<close>

definition sm_same :: "space_map \<Rightarrow> space_map \<Rightarrow> bool" where
  "sm_same sm sm' \<longleftrightarrow>
     sm_start sm' = sm_start sm \<and> sm_size sm' = sm_size sm \<and> sm_shift sm' = sm_shift sm
     \<and> sm_loaded sm' = sm_loaded sm \<and> sm_loading sm' = sm_loading sm \<and> sm_ops sm' = sm_ops sm
     \<and> sm_ppd sm' = sm_ppd sm \<and> sm_lock_held sm' = sm_lock_held sm
     \<and> map_option fst (sm_pp_root sm') = map_option fst (sm_pp_root sm)"

lemma sm_same_refl [simp]: "sm_same sm sm"
  by (simp add: sm_same_def)

lemma sm_same_trans [trans]: "sm_same a b \<Longrightarrow> sm_same b c \<Longrightarrow> sm_same a c"
  by (auto simp: sm_same_def)

lemma map_fst_set_node [simp]:
  "map_option fst (map_option (\<lambda>(cmp, t). (cmp, set_node a n t)) pp) = map_option fst pp"
  by (cases pp) auto

lemma set_seg_fields [simp]:
  "sm_root (set_seg a s sm) = sm_root sm" "sm_pp_root (set_seg a s sm) = sm_pp_root sm"
  "sm_segs (set_seg a s sm) = (sm_segs sm)(a \<mapsto> s)"
  "sm_space (set_seg a s sm) = sm_space sm"
  "sm_start (set_seg a s sm) = sm_start sm"
  "sm_size (set_seg a s sm) = sm_size sm"
  "sm_shift (set_seg a s sm) = sm_shift sm"
  "sm_loaded (set_seg a s sm) = sm_loaded sm"
  "sm_loading (set_seg a s sm) = sm_loading sm"
  "sm_ops (set_seg a s sm) = sm_ops sm"
  "sm_ppd (set_seg a s sm) = sm_ppd sm"
  "sm_lock_held (set_seg a s sm) = sm_lock_held sm"
  by (simp_all add: set_seg_def)

lemma free_seg_fields [simp]:
  "sm_root (free_seg a sm) = set_node a blank_node (sm_root sm)"
  "sm_pp_root (free_seg a sm) = map_option (\<lambda>(cmp, t). (cmp, set_node a blank_node t)) (sm_pp_root sm)"
  "sm_segs (free_seg a sm) = (sm_segs sm)(a := None)"
  "sm_space (free_seg a sm) = sm_space sm"
  "sm_start (free_seg a sm) = sm_start sm"
  "sm_size (free_seg a sm) = sm_size sm"
  "sm_shift (free_seg a sm) = sm_shift sm"
  "sm_loaded (free_seg a sm) = sm_loaded sm"
  "sm_loading (free_seg a sm) = sm_loading sm"
  "sm_ops (free_seg a sm) = sm_ops sm"
  "sm_ppd (free_seg a sm) = sm_ppd sm"
  "sm_lock_held (free_seg a sm) = sm_lock_held sm"
  by (simp_all add: free_seg_def)

lemma seg_at_upd [simp]:
  "seg_at (set_seg a s sm) = (seg_at sm)(a := s)"
  "seg_at (free_seg a sm) = (seg_at sm)(a := \<lparr>ss_start = 0, ss_end = 0\<rparr>)"
  "seg_at (sm\<lparr>sm_root := t\<rparr>) = seg_at sm"
  "seg_at (sm\<lparr>sm_pp_root := pp\<rparr>) = seg_at sm"
  "seg_at (sm\<lparr>sm_space := w\<rparr>) = seg_at sm"
  by (auto simp: seg_at_def set_seg_def free_seg_def fun_eq_iff)

lemma sm_bounds_upd [simp]:
  "sm_bounds (set_seg a s sm) = sm_bounds sm" "sm_bounds (free_seg a sm) = sm_bounds sm"
  "sm_bounds (sm\<lparr>sm_root := t\<rparr>) = sm_bounds sm" "sm_bounds (sm\<lparr>sm_pp_root := pp\<rparr>) = sm_bounds sm"
  "sm_bounds (sm\<lparr>sm_space := w\<rparr>) = sm_bounds sm"
  by (auto simp: sm_bounds_def set_seg_def free_seg_def fun_eq_iff)

lemma deref_seg_known: "sm_segs sm a \<noteq> None \<Longrightarrow> deref_seg sm a = Inr (seg_at sm a)"
  by (auto simp: deref_seg_def seg_at_def)

lemma seg_test_known:
  "a \<in> dom (sm_segs sm) \<Longrightarrow> seg_test sm (Some a) P = Inr (P (seg_at sm a))"
  "seg_test sm None P = Inr False"
  by (auto simp: seg_test_def deref_seg_known domIff)

lemma kmem_fresh_new: "kmem_fresh k \<Longrightarrow> finite (dom h) \<Longrightarrow> kmem_alloc k h \<notin> dom h \<and> kmem_alloc k h \<noteq> avl_tmp"
  by (simp add: kmem_fresh_def)

lemma sm_pre_add:
  assumes "sm_pre sm xs A" "A \<subseteq> set xs" "c \<in> set xs" "c \<notin> A"
  shows "\<exists>pp. pp_add c sm = Inr (sm\<lparr>sm_pp_root := pp\<rparr>) \<and> sm_pre (sm\<lparr>sm_pp_root := pp\<rparr>) xs (insert c A)
     \<and> map_option fst pp = map_option fst (sm_pp_root sm)"
proof -
  have inv: "avl_inv (sm_root sm) xs" "seg_list (seg_at sm) xs" "pp_inv (seg_at sm) (sm_pp_root sm) A"
    using assms(1) by (auto simp: sm_pre_def)
  have "seg_at sm c \<noteq> seg_at sm b" if "b \<in> A" for b
    using seg_list_inj[OF inv(2) _ assms(3), of b] seg_listD[OF inv(2)] that
      avl_inv_distinct[OF inv(1)] assms(2-4) by fastforce
  then have "seg_at sm c \<notin> seg_at sm ` A" by blast
  moreover have "c \<noteq> avl_tmp" using avl_inv_distinct[OF inv(1)] assms(3) by blast
  ultimately obtain pp where "pp_add c sm = Inr (sm\<lparr>sm_pp_root := pp\<rparr>)"
    "pp_inv (seg_at sm) pp (insert c A)" "map_option fst pp = map_option fst (sm_pp_root sm)"
    using pp_add_inv[OF inv(3)] by blast
  with assms show ?thesis by (intro exI[of _ pp]) (simp add: sm_pre_def)
qed

lemma sm_pre_distinct: "sm_pre sm xs A \<Longrightarrow> distinct xs"
  using avl_inv_distinct by (auto simp: sm_pre_def)

lemma sm_pre_remove:
  assumes "sm_pre sm xs A" "c \<in> A"
  shows "\<exists>pp. pp_remove c sm = Inr (sm\<lparr>sm_pp_root := pp\<rparr>) \<and> sm_pre (sm\<lparr>sm_pp_root := pp\<rparr>) xs (A - {c})
     \<and> map_option fst pp = map_option fst (sm_pp_root sm)"
  using assms pp_remove_inv[of "seg_at sm" sm A c "seg_at sm"] by (auto simp: sm_pre_def)

lemma pp_remove_set_seg:
  "pp_remove c (set_seg a n sm) = rbind (pp_remove c sm) (\<lambda>sm. Inr (set_seg a n sm))"
proof (cases "sm_pp_root sm")
  case (Some p)
  then show ?thesis
    by (cases p; cases "avl_remove (snd p) c") (simp_all add: pp_remove_def set_seg_def)
qed (simp add: pp_remove_def)

lemma pp_remove_root:
  "pp_remove c (sm\<lparr>sm_root := t\<rparr>) = rbind (pp_remove c sm) (\<lambda>sm. Inr (sm\<lparr>sm_root := t\<rparr>))"
proof (cases "sm_pp_root sm")
  case (Some p)
  then show ?thesis
    by (cases p; cases "avl_remove (snd p) c") (simp_all add: pp_remove_def)
qed (simp add: pp_remove_def)

lemma set_free_commute:
  "a \<noteq> b \<Longrightarrow> free_seg b (set_seg a n sm) = set_seg a n (free_seg b sm)"
  by (simp add: free_seg_def set_seg_def fun_upd_twist)

lemma sm_pre_set_seg:
  assumes "sm_pre sm (ys @ c # zs) A" "A \<subseteq> set ys \<union> set zs" "lo n < hi n" "sm_bounds sm n"
    and "\<forall>a \<in> set ys. hi (seg_at sm a) < lo n" "\<forall>a \<in> set zs. hi n < lo (seg_at sm a)"
  shows "sm_pre (set_seg c n sm) (ys @ c # zs) A"
proof -
  have c: "c \<notin> set ys" "c \<notin> set zs" using sm_pre_distinct[OF assms(1)] by auto
  have "pp_inv ((seg_at sm)(c := n)) (sm_pp_root sm) A"
    by (rule pp_inv_cong[where g = "seg_at sm"]) (use assms(1,2) c in \<open>auto simp: sm_pre_def\<close>)
  then show ?thesis using assms(1,3-) c by (auto simp: sm_pre_def)
qed

lemma sm_pre_free:
  assumes "sm_pre sm (ys @ c # zs) A" "A \<subseteq> set ys \<union> set zs" "root_remove c sm = Inr sm'"
  shows "sm_pre (free_seg c sm') (ys @ zs) A"
proof -
  obtain t where t: "sm' = sm\<lparr>sm_root := t\<rparr>" "avl_inv t (ys @ zs)"
    using assms(1,3) avl.remove_at[of "sm_root sm" ys c zs] by (auto simp: root_remove_def sm_pre_def)
  have c: "c \<notin> set ys" "c \<notin> set zs" using sm_pre_distinct[OF assms(1)] by auto
  have "pp_inv ((seg_at sm)(c := \<lparr>ss_start = 0, ss_end = 0\<rparr>)) (sm_pp_root sm) A"
    by (rule pp_inv_cong[where g = "seg_at sm"]) (use assms(1,2) c in \<open>auto simp: sm_pre_def\<close>)
  then have "pp_inv ((seg_at sm)(c := \<lparr>ss_start = 0, ss_end = 0\<rparr>)) (sm_pp_root (free_seg c sm)) A"
    unfolding free_seg_fields by (rule pp_inv_free) (use assms(2) c in auto)
  moreover have "avl_inv (set_node c blank_node t) (ys @ zs)"
    using avl_inv_set_node[OF t(2)] c by simp
  ultimately show ?thesis using assms(1) c t(1) by (auto simp: sm_pre_def)
qed

lemma root_remove_ok:
  assumes "sm_pre sm xs A" "c \<in> set xs"
  shows "\<exists>t. root_remove c sm = Inr (sm\<lparr>sm_root := t\<rparr>)"
proof -
  obtain ys zs where "xs = ys @ c # zs" using split_list[OF assms(2)] by blast
  then show ?thesis
    using assms avl.remove_at[of "sm_root sm" ys c zs] by (auto simp: root_remove_def sm_pre_def)
qed

section \<open>Adding a range\<close>

text \<open>The four placements; \<open>n\<close> is the segment that covers the new range afterwards.\<close>

lemma merge_in_place:
  assumes "sm_pre sm (ys @ c # zs) (set (ys @ c # zs))" "lo n < hi n" "sm_bounds sm n"
    and "\<forall>a \<in> set ys. hi (seg_at sm a) < lo n" "\<forall>a \<in> set zs. hi n < lo (seg_at sm a)"
  shows "\<exists>sm'. pp_remove c (set_seg c n sm) = Inr sm' \<and> sm_pre sm' (ys @ c # zs) (set (ys @ c # zs) - {c})
     \<and> seg_at sm' = (seg_at sm)(c := n) \<and> sm_same sm sm' \<and> sm_space sm' = sm_space sm"
proof -
  let ?xs = "ys @ c # zs"
  obtain pp where pp: "pp_remove c sm = Inr (sm\<lparr>sm_pp_root := pp\<rparr>)"
    "sm_pre (sm\<lparr>sm_pp_root := pp\<rparr>) ?xs (set ?xs - {c})" "map_option fst pp = map_option fst (sm_pp_root sm)"
    using sm_pre_remove[OF assms(1), of c] by auto
  have "sm_pre (set_seg c n (sm\<lparr>sm_pp_root := pp\<rparr>)) ?xs (set ?xs - {c})"
    by (rule sm_pre_set_seg[OF pp(2)]) (use assms in auto)
  then show ?thesis
    using pp(1,3) by (auto simp: pp_remove_set_seg sm_same_def)
qed

lemma add_merge_both_pre:
  assumes "sm_pre sm (ys @ b # a # zs) (set (ys @ b # a # zs))" "n = (seg_at sm a)\<lparr>ss_start := ss_start (seg_at sm b)\<rparr>"
  shows "\<exists>sm'. add_merge_both b a sm = Inr (sm', a) \<and> sm_pre sm' (ys @ a # zs) (set (ys @ a # zs) - {a})
     \<and> seg_at sm' = (seg_at sm)(a := n, b := \<lparr>ss_start = 0, ss_end = 0\<rparr>)
     \<and> sm_same sm sm' \<and> sm_space sm' = sm_space sm"
proof -
  let ?xs = "ys @ b # a # zs"
  have pre: "avl_inv (sm_root sm) ?xs" "dom (sm_segs sm) = set ?xs" "seg_list (seg_at sm) ?xs"
    "\<forall>x \<in> set ?xs. sm_bounds sm (seg_at sm x)"
    using assms(1) by (auto simp: sm_pre_def)
  have ne: "a \<noteq> b" "a \<notin> set ys" "b \<notin> set ys" "a \<notin> set zs" "b \<notin> set zs"
    using avl_inv_distinct[OF pre(1)] by auto
  obtain t where t: "root_remove b sm = Inr (sm\<lparr>sm_root := t\<rparr>)"
    using root_remove_ok[OF assms(1), of b] by auto
  obtain pp1 where pp1: "pp_remove b sm = Inr (sm\<lparr>sm_pp_root := pp1\<rparr>)"
    "sm_pre (sm\<lparr>sm_pp_root := pp1\<rparr>) ?xs (set ?xs - {b})" "map_option fst pp1 = map_option fst (sm_pp_root sm)"
    using sm_pre_remove[OF assms(1), of b] by auto
  obtain pp2 where pp2: "pp_remove a (sm\<lparr>sm_pp_root := pp1\<rparr>) = Inr (sm\<lparr>sm_pp_root := pp2\<rparr>)"
    "sm_pre (sm\<lparr>sm_pp_root := pp2\<rparr>) ?xs (set ?xs - {b} - {a})" "map_option fst pp2 = map_option fst pp1"
    using sm_pre_remove[OF pp1(2), of a] ne by auto
  have "root_remove b (sm\<lparr>sm_pp_root := pp2\<rparr>) = Inr (sm\<lparr>sm_root := t, sm_pp_root := pp2\<rparr>)"
    using t by (cases "avl_remove (sm_root sm) b") (auto simp: root_remove_def dest!: arg_cong[of _ _ sm_root])
  from sm_pre_free[OF pp2(2) _ this] have "sm_pre (free_seg b (sm\<lparr>sm_root := t, sm_pp_root := pp2\<rparr>)) (ys @ a # zs) (set ys \<union> set zs)"
    using ne by (auto simp: insert_Diff_if)
  then have "sm_pre (set_seg a n (free_seg b (sm\<lparr>sm_root := t, sm_pp_root := pp2\<rparr>))) (ys @ a # zs) (set ys \<union> set zs)"
    by (rule sm_pre_set_seg) (use pre assms(2) ne in \<open>auto simp: sm_bounds_def\<close>)
  moreover have "add_merge_both b a sm
     = Inr (set_seg a n (free_seg b (sm\<lparr>sm_root := t, sm_pp_root := pp2\<rparr>)), a)"
    using t pp_remove_root[of b t sm] pp_remove_root[of a t "sm\<lparr>sm_pp_root := pp1\<rparr>"] pp1(1) pp2(1) pre(2) ne assms(2)
    by (auto simp: add_merge_both_def deref_seg_known domIff set_eq_iff set_free_commute)
  ultimately show ?thesis
    using pp1(3) pp2(3) ne
    by (intro exI[of _ "set_seg a n (free_seg b (sm\<lparr>sm_root := t, sm_pp_root := pp2\<rparr>))"])
       (auto simp: sm_same_def fun_eq_iff insert_Diff_if)
qed

lemma add_new_pre:
  assumes "sm_pre sm (ys @ zs) (set (ys @ zs))" "kmem_fresh k" "avl_slot (sm_root sm) w (length ys)"
    and n: "n = \<lparr>ss_start = s, ss_end = e\<rparr>" "lo n < hi n" "sm_bounds sm n"
    and "\<forall>a \<in> set ys. hi (seg_at sm a) < lo n" "\<forall>a \<in> set zs. hi n < lo (seg_at sm a)"
  shows "\<exists>sm' c. add_new k w s e sm = Inr (sm', c) \<and> c \<notin> set (ys @ zs)
     \<and> sm_pre sm' (ys @ c # zs) (set (ys @ c # zs) - {c})
     \<and> seg_at sm' = (seg_at sm)(c := n) \<and> sm_same sm sm' \<and> sm_space sm' = sm_space sm"
proof -
  have pre: "avl_inv (sm_root sm) (ys @ zs)" "dom (sm_segs sm) = set (ys @ zs)"
    using assms(1) by (auto simp: sm_pre_def)
  define c where "c = kmem_alloc k (sm_segs sm)"
  have c: "c \<notin> set (ys @ zs)" "c \<noteq> avl_tmp"
    using kmem_fresh_new[OF assms(2), of "sm_segs sm"] pre(2) by (auto simp: c_def)
  obtain t where t: "avl_insert (sm_root sm) c w = Inr t" "avl_inv t (ys @ c # zs)"
    using avl.insert_at[OF pre(1) assms(3) c] by auto
  have pp: "pp_inv ((seg_at sm)(c := n)) (sm_pp_root sm) (set (ys @ zs))"
    by (rule pp_inv_cong[where g = "seg_at sm"]) (use assms(1) c in \<open>auto simp: sm_pre_def\<close>)
  have "set (ys @ c # zs) - {c} = set (ys @ zs)" using c by auto
  then have "sm_pre ((set_seg c n sm)\<lparr>sm_root := t\<rparr>) (ys @ c # zs) (set (ys @ c # zs) - {c})"
    using assms(1) t(2) c pp n(2,3) assms(7,8) by (auto simp: sm_pre_def)
  moreover have "add_new k w s e sm = Inr ((set_seg c n sm)\<lparr>sm_root := t\<rparr>, c)"
    using t(1) n(1) by (simp add: add_new_def c_def[symmetric] Let_def)
  ultimately show ?thesis
    using c by (intro exI[of _ "(set_seg c n sm)\<lparr>sm_root := t\<rparr>"] exI[of _ c]) (simp add: sm_same_def)
qed

text \<open>The branch that \<open>space_map_add\<close> takes, with the neighbours that the search found.\<close>

lemma last_hi_less:
  assumes "seg_list g ys" "\<forall>a \<in> set ys. hi (g a) \<le> s"
    and "\<not> (case last_opt ys of None \<Rightarrow> False | Some b \<Rightarrow> hi (g b) = s)"
  shows "\<forall>a \<in> set ys. hi (g a) < s"
proof (cases ys rule: rev_cases)
  case (snoc us b)
  then show ?thesis using assms seg_listD[of g ys b] by force
qed simp

lemma hd_lo_less:
  assumes "seg_list g zs" "\<forall>a \<in> set zs. e \<le> lo (g a)"
    and "\<not> (case hd_opt zs of None \<Rightarrow> False | Some b \<Rightarrow> lo (g b) = e)"
  shows "\<forall>a \<in> set zs. e < lo (g a)"
  using assms seg_listD[of g zs] by (cases zs) force+

lemma add_branch_pre:
  assumes pre: "sm_pre sm (ys @ zs) (set (ys @ zs))"
    and "kmem_fresh k" "avl_slot (sm_root sm) w (length ys)"
    and n: "unat start < unat end'" "sm_bounds sm \<lparr>ss_start = start, ss_end = end'\<rparr>"
    and le: "\<forall>a \<in> set ys. hi (seg_at sm a) \<le> unat start" "\<forall>a \<in> set zs. unat end' \<le> lo (seg_at sm a)"
    and mb: "mb = (case last_opt ys of None \<Rightarrow> False | Some b \<Rightarrow> hi (seg_at sm b) = unat start)"
    and ma: "ma = (case hd_opt zs of None \<Rightarrow> False | Some b \<Rightarrow> lo (seg_at sm b) = unat end')"
  shows "\<exists>sm' c xs. add_branch k w (last_opt ys) (hd_opt zs) mb ma start end' sm = Inr (sm', c) \<and> c \<in> set xs
     \<and> sm_pre sm' xs (set xs - {c}) \<and> sm_same sm sm' \<and> sm_space sm' = sm_space sm
     \<and> segs_set (seg_at sm') (set xs) = segs_set (seg_at sm) (set (ys @ zs)) \<union> {unat start ..< unat end'}"
proof -
  have lists: "seg_list (seg_at sm) ys" "seg_list (seg_at sm) zs"
    "\<forall>a \<in> set (ys @ zs). sm_bounds sm (seg_at sm a)" "dom (sm_segs sm) = set (ys @ zs)"
    using pre by (auto simp: sm_pre_def)
  consider (both) us b a vs where "mb" "ma" "ys = us @ [b]" "zs = a # vs"
      "hi (seg_at sm b) = unat start" "lo (seg_at sm a) = unat end'"
    | (before) us b where "mb" "\<not> ma" "ys = us @ [b]" "hi (seg_at sm b) = unat start"
    | (after) a vs where "\<not> mb" "ma" "zs = a # vs" "lo (seg_at sm a) = unat end'"
    | (neither) "\<not> mb" "\<not> ma"
    using mb ma by (cases ys rule: rev_cases; cases zs) (auto split: option.splits)
  then show ?thesis
  proof cases
    case both
    have d: "b \<notin> set us" "b \<notin> set vs" "a \<notin> set us" "a \<notin> set vs" "a \<noteq> b"
      using sm_pre_distinct[OF pre] both by auto
    let ?n = "(seg_at sm a)\<lparr>ss_start := ss_start (seg_at sm b)\<rparr>"
    obtain sm' where sm': "add_merge_both b a sm = Inr (sm', a)" "sm_pre sm' (us @ a # vs) (set (us @ a # vs) - {a})"
      "seg_at sm' = (seg_at sm)(a := ?n, b := \<lparr>ss_start = 0, ss_end = 0\<rparr>)" "sm_same sm sm'"
      "sm_space sm' = sm_space sm"
      using add_merge_both_pre[of sm us b a vs ?n] pre both by auto
    have "seg_set ?n = seg_set (seg_at sm b) \<union> {unat start ..< unat end'} \<union> seg_set (seg_at sm a)"
      using both n(1) seg_listD[OF lists(1), of b] seg_listD[OF lists(2), of a] by auto
    then have "segs_set (seg_at sm') (set (us @ a # vs))
        = segs_set (seg_at sm) (set (ys @ zs)) \<union> {unat start ..< unat end'}"
      unfolding sm'(3) using both d by auto
    with sm' both show ?thesis
      by (intro exI[of _ sm'] exI[of _ a] exI[of _ "us @ a # vs"]) (simp add: add_branch_def)
  next
    case before
    have d: "b \<notin> set us" "b \<notin> set zs" using sm_pre_distinct[OF pre] before by auto
    let ?n = "(seg_at sm b)\<lparr>ss_end := end'\<rparr>"
    have "\<forall>a \<in> set zs. hi ?n < lo (seg_at sm a)"
      using hd_lo_less[OF lists(2) le(2)] ma before(2) by auto
    then obtain sm' where sm': "pp_remove b (set_seg b ?n sm) = Inr sm'"
      "sm_pre sm' (us @ b # zs) (set (us @ b # zs) - {b})"
      "seg_at sm' = (seg_at sm)(b := ?n)" "sm_same sm sm'" "sm_space sm' = sm_space sm"
      using merge_in_place[of sm us b zs ?n] pre before lists n seg_listD[OF lists(1), of b]
      by (auto simp: sm_bounds_def)
    have "seg_set ?n = seg_set (seg_at sm b) \<union> {unat start ..< unat end'}"
      using before n(1) seg_listD[OF lists(1), of b] by auto
    then have "segs_set (seg_at sm') (set (us @ b # zs))
        = segs_set (seg_at sm) (set (ys @ zs)) \<union> {unat start ..< unat end'}"
      unfolding sm'(3) using before d by auto
    moreover have "add_merge_before b end' sm = Inr (sm', b)"
      using sm'(1) lists(4) before by (simp add: add_merge_before_def deref_seg_known domIff set_eq_iff)
    ultimately show ?thesis
      using sm' before
      by (intro exI[of _ sm'] exI[of _ b] exI[of _ "us @ b # zs"]) (simp add: add_branch_def)
  next
    case after
    have d: "a \<notin> set ys" "a \<notin> set vs" using sm_pre_distinct[OF pre] after by auto
    let ?n = "(seg_at sm a)\<lparr>ss_start := start\<rparr>"
    have "\<forall>b \<in> set ys. hi (seg_at sm b) < lo ?n"
      using last_hi_less[OF lists(1) le(1)] mb after(1) by auto
    then obtain sm' where sm': "pp_remove a (set_seg a ?n sm) = Inr sm'"
      "sm_pre sm' (ys @ a # vs) (set (ys @ a # vs) - {a})"
      "seg_at sm' = (seg_at sm)(a := ?n)" "sm_same sm sm'" "sm_space sm' = sm_space sm"
      using merge_in_place[of sm ys a vs ?n] pre after lists n seg_listD[OF lists(2), of a]
      by (auto simp: sm_bounds_def)
    have "seg_set ?n = seg_set (seg_at sm a) \<union> {unat start ..< unat end'}"
      using after n(1) seg_listD[OF lists(2), of a] by auto
    then have "segs_set (seg_at sm') (set (ys @ a # vs))
        = segs_set (seg_at sm) (set (ys @ zs)) \<union> {unat start ..< unat end'}"
      unfolding sm'(3) using after d by auto
    moreover have "add_merge_after a start sm = Inr (sm', a)"
      using sm'(1) lists(4) after by (simp add: add_merge_after_def deref_seg_known domIff set_eq_iff)
    ultimately show ?thesis
      using sm' after
      by (intro exI[of _ sm'] exI[of _ a] exI[of _ "ys @ a # vs"]) (simp add: add_branch_def)
  next
    case neither
    let ?n = "\<lparr>ss_start = start, ss_end = end'\<rparr>"
    have "\<forall>b \<in> set ys. hi (seg_at sm b) < lo ?n" "\<forall>a \<in> set zs. hi ?n < lo (seg_at sm a)"
      using last_hi_less[OF lists(1) le(1)] hd_lo_less[OF lists(2) le(2)] mb ma neither by auto
    then obtain sm' c where sm': "add_new k w start end' sm = Inr (sm', c)" "c \<notin> set (ys @ zs)"
      "sm_pre sm' (ys @ c # zs) (set (ys @ c # zs) - {c})"
      "seg_at sm' = (seg_at sm)(c := ?n)" "sm_same sm sm'" "sm_space sm' = sm_space sm"
      using add_new_pre[OF pre assms(2,3), of ?n start end'] n by auto
    have "segs_set (seg_at sm') (set (ys @ c # zs))
        = segs_set (seg_at sm) (set (ys @ zs)) \<union> {unat start ..< unat end'}"
      unfolding sm'(4) using sm'(2) by auto
    with sm' neither show ?thesis
      by (intro exI[of _ sm'] exI[of _ c] exI[of _ "ys @ c # zs"]) (simp add: add_branch_def)
  qed
qed

lemma sm_rep_bounds:
  assumes "sm_pre sm xs A"
  shows "segs_set (seg_at sm) (set xs) \<subseteq> {unat (sm_start sm) ..< unat (sm_start sm) + unat (sm_size sm)}"
  using assms by (fastforce simp: sm_pre_def sm_bounds_def segs_set_def)

lemma sm_set_rep: "sm_pre sm xs A \<Longrightarrow> sm_set sm = segs_set (seg_at sm) (set xs)"
  by (simp add: sm_set_def sm_pre_def)

text \<open>A range that a call may be given: aligned, not empty, inside the map.\<close>

definition sm_range :: "space_map \<Rightarrow> u64 \<Rightarrow> u64 \<Rightarrow> bool" where
  "sm_range sm start size' \<longleftrightarrow> size' \<noteq> 0 \<and> 2 ^ unat (sm_shift sm) dvd unat start
     \<and> 2 ^ unat (sm_shift sm) dvd unat size' \<and> unat (sm_start sm) \<le> unat start
     \<and> unat start + unat size' \<le> unat (sm_start sm) + unat (sm_size sm)"

abbreviation range_set :: "u64 \<Rightarrow> u64 \<Rightarrow> nat set" where
  "range_set start size' \<equiv> {unat start ..< unat start + unat size'}"

lemma sm_rangeD:
  assumes "sm_range sm start size'" "sm_fits sm"
  shows "unat (start + size') = unat start + unat size'" "unat start < unat (start + size')"
    and "sm_bounds sm \<lparr>ss_start = start, ss_end = start + size'\<rparr>"
    and "P2PHASE start (sm_unit sm) = 0" "P2PHASE size' (sm_unit sm) = 0" "size' \<noteq> 0"
    and "sm_start sm \<le> start" "start + size' \<le> sm_start sm + sm_size sm"
    and "unat (sm_start sm + sm_size sm) = unat (sm_start sm) + unat (sm_size sm)"
proof -
  show add: "unat (start + size') = unat start + unat size'"
    using assms by (intro unat_add_no_wrap) (auto simp: sm_range_def sm_fits_def)
  show add': "unat (sm_start sm + sm_size sm) = unat (sm_start sm) + unat (sm_size sm)"
    using assms by (intro unat_add_no_wrap) (auto simp: sm_fits_def)
  show "size' \<noteq> 0" using assms by (simp add: sm_range_def)
  then have "0 < unat size'" by (simp add: unat_gt_0)
  then show "unat start < unat (start + size')" using add by simp
  show "sm_bounds sm \<lparr>ss_start = start, ss_end = start + size'\<rparr>"
    using assms add by (auto simp: sm_range_def sm_bounds_def)
  show "P2PHASE start (sm_unit sm) = 0" "P2PHASE size' (sm_unit sm) = 0"
    using assms by (simp_all add: sm_range_def sm_unit_def P2PHASE_zero_iff)
  show "sm_start sm \<le> start" using assms by (simp add: sm_range_def word_le_nat_alt)
  show "start + size' \<le> sm_start sm + sm_size sm"
    using assms add add' by (simp add: sm_range_def word_le_nat_alt)
qed

lemma space_map_add_inv:
  assumes inv: "sm_inv sm" and "kmem_fresh k" and range: "sm_range sm start size'"
    and disj: "sm_set sm \<inter> range_set start size' = {}"
  shows "\<exists>sm'. space_map_add k sm start size' = Inr sm' \<and> sm_inv sm'
     \<and> sm_set sm' = sm_set sm \<union> range_set start size' \<and> sm_same sm sm'"
proof -
  obtain xs where fits: "sm_fits sm" "sm_lock_held sm" and rep: "sm_pre sm xs (set xs)"
    "unat (sm_space sm) = card (sm_set sm)"
    using inv by (auto simp: sm_inv_def sm_rep_def sm_set_rep)
  note rng = sm_rangeD[OF range fits(1)]
  define n where "n = \<lparr>ss_start = start, ss_end = start + size'\<rparr>"
  have tree: "avl_inv (sm_root sm) xs" "dom (sm_segs sm) = set xs" "seg_list (seg_at sm) xs"
    using rep(1) by (auto simp: sm_pre_def)
  have n: "lo n < hi n" "seg_set n \<inter> segs_set (seg_at sm) (set xs) = {}"
    using rng(1,2) disj by (auto simp: n_def sm_set_rep[OF rep(1)])
  obtain ys zs where "xs = ys @ zs" "below (\<lambda>a. space_map_seg_compare n (seg_at sm a)) xs = ys"
    "above (\<lambda>a. space_map_seg_compare n (seg_at sm a)) xs = zs"
    "\<forall>a \<in> set ys. hi (seg_at sm a) \<le> lo n" "\<forall>a \<in> set zs. hi n \<le> lo (seg_at sm a)"
    by (rule seg_below_above[OF tree(3) n])
  note split = this
  have cs: "compar_sorted (seg_compar sm n) xs" "unmatched (seg_compar sm n) xs"
    using seg_compar_sorted[OF tree(3) n(1), folded seg_compar_fun]
      seg_unmatched[OF tree(3) n(1), folded seg_compar_fun] n(2) by blast+
  obtain w where w: "avl_find (seg_compar sm n) (sm_root sm) = Inr (None, w)" "avl_slot (sm_root sm) w (length ys)"
    "avl_nearest (sm_root sm) w AVL_BEFORE = Inr (last_opt ys)" "avl_nearest (sm_root sm) w AVL_AFTER = Inr (hd_opt zs)"
    using avl.find_nearest[OF tree(1) cs, unfolded seg_compar_def split(2,3), folded seg_compar_fun] by blast
  have le: "\<forall>a \<in> set ys. hi (seg_at sm a) \<le> unat start" "\<forall>a \<in> set zs. unat (start + size') \<le> lo (seg_at sm a)"
    using split(4,5) by (simp_all add: n_def)
  let ?mb = "case last_opt ys of None \<Rightarrow> False | Some b \<Rightarrow> hi (seg_at sm b) = unat start"
  let ?ma = "case hd_opt zs of None \<Rightarrow> False | Some b \<Rightarrow> lo (seg_at sm b) = unat (start + size')"
  have mb: "seg_test sm (last_opt ys) (\<lambda>s. ss_end s = start) = Inr ?mb"
    using tree(2) split(1)
    by (cases ys rule: rev_cases) (simp_all add: seg_test_known word_unat_eq_iff)
  have ma: "seg_test sm (hd_opt zs) (\<lambda>s. ss_start s = start + size') = Inr ?ma"
    using tree(2) split(1) by (cases zs) (simp_all add: seg_test_known word_unat_eq_iff)
  obtain sm1 c xs1 where b: "add_branch k w (last_opt ys) (hd_opt zs) ?mb ?ma start (start + size') sm = Inr (sm1, c)"
    "c \<in> set xs1" "sm_pre sm1 xs1 (set xs1 - {c})" "sm_same sm sm1" "sm_space sm1 = sm_space sm"
    "segs_set (seg_at sm1) (set xs1) = sm_set sm \<union> {unat start ..< unat (start + size')}"
    using add_branch_pre[OF rep(1)[unfolded split(1)] assms(2) w(2) rng(2,3) le refl refl,
      folded split(1), folded sm_set_rep[OF rep(1)]] by (elim exE conjE)
  obtain pp where pp: "pp_add c sm1 = Inr (sm1\<lparr>sm_pp_root := pp\<rparr>)" "sm_pre (sm1\<lparr>sm_pp_root := pp\<rparr>) xs1 (set xs1)"
    "map_option fst pp = map_option fst (sm_pp_root sm1)"
    using sm_pre_add[OF b(3) _ b(2)] b(2) by (auto simp: insert_absorb)
  have fin: "finite (sm_set sm)" by (simp add: sm_set_rep[OF rep(1)])
  have card: "card (sm_set sm \<union> range_set start size') = unat (sm_space sm) + unat size'"
    using disj fin rep(2) by (simp add: card_Un_disjoint)
  have "sm_set sm \<union> range_set start size' \<subseteq> {unat (sm_start sm) ..< unat (sm_start sm) + unat (sm_size sm)}"
    using sm_rep_bounds[OF rep(1)] range by (auto simp: sm_set_rep[OF rep(1)] sm_range_def)
  from card_mono[OF _ this] have room: "unat (sm_space sm) + unat size' \<le> unat (sm_size sm)" using card by simp
  then have space: "unat (sm_space sm + size') = unat (sm_space sm) + unat size'"
    using unat_less_64[of "sm_size sm"] by (intro unat_add_no_wrap) linarith
  let ?sm = "sm1\<lparr>sm_pp_root := pp, sm_space := sm_space sm + size'\<rparr>"
  have "space_map_add k sm start size' = Inr ?sm"
    using rng fits(2) w mb ma b(1,5) pp(1) room space
    by (simp add: space_map_add_def Let_def n_def[symmetric] seg_test_known word_le_nat_alt)
  moreover have "sm_rep ?sm xs1"
    using pp(2) b(6) card space rng(1) by (simp add: sm_rep_def sm_pre_def)
  moreover have "sm_same sm ?sm" using b(4) pp(3) by (simp add: sm_same_def)
  moreover from this have "sm_fits ?sm" "sm_lock_held ?sm"
    using fits by (auto simp: sm_same_def sm_fits_def)
  moreover have "sm_set ?sm = sm_set sm \<union> range_set start size'"
    using sm_set_rep[OF pp(2)] b(6) rng(1) by (simp add: sm_set_def)
  ultimately show ?thesis unfolding sm_inv_def by blast
qed

section \<open>Finding the segment of a range\<close>

lemma seg_contains:
  assumes "seg_list g xs" "distinct xs" "a \<in> set xs" "lo s < hi s" "space_map_seg_compare s (g a) = 0"
  shows "seg_set s \<subseteq> segs_set g (set xs) \<longleftrightarrow> lo (g a) \<le> lo s \<and> hi s \<le> hi (g a)"
proof
  have over: "lo (g a) < hi s" "lo s < hi (g a)" "lo (g a) < hi (g a)"
    using assms seg_listD[OF assms(1,3)] by (auto simp: seg_compare_nat split: if_splits)
  have apart: "hi (g a) < lo (g b) \<or> hi (g b) < lo (g a)" if "b \<in> set xs" "b \<noteq> a" for b
    using seg_list_inj[OF assms(1,2,3) that(1)] that(2) by blast
  assume sub: "seg_set s \<subseteq> segs_set g (set xs)"
  show "lo (g a) \<le> lo s \<and> hi s \<le> hi (g a)"
  proof (rule ccontr)
    assume "\<not> ?thesis"
    then consider "lo s < lo (g a)" | "hi (g a) < hi s" by linarith
    then show False
    proof cases
      case 1
      then have "lo (g a) - 1 \<in> seg_set s" using over by auto
      then obtain b where "b \<in> set xs" "lo (g a) - 1 \<in> seg_set (g b)" using sub by (auto simp: segs_set_def)
      then show False using apart[of b] 1 over by (cases "b = a") auto
    next
      case 2
      then have "hi (g a) \<in> seg_set s" using over by auto
      then obtain b where "b \<in> set xs" "hi (g a) \<in> seg_set (g b)" using sub by (auto simp: segs_set_def)
      then show False using apart[of b] 2 over by (cases "b = a") auto
    qed
  qed
next
  assume "lo (g a) \<le> lo s \<and> hi s \<le> hi (g a)"
  then have "seg_set s \<subseteq> seg_set (g a)" by auto
  then show "seg_set s \<subseteq> segs_set g (set xs)" using assms(3) by (auto simp: segs_set_def)
qed

text \<open>The search of \<open>space_map_add\<close>, \<open>space_map_remove\<close> and \<open>space_map_contains\<close>.\<close>

lemma range_search:
  assumes "sm_pre sm xs A" "lo n < hi n"
  shows "seg_set n \<inter> sm_set sm = {} \<and> (\<exists>w. avl_find (seg_compar sm n) (sm_root sm) = Inr (None, w))
    \<or> seg_set n \<inter> sm_set sm \<noteq> {} \<and> (\<exists>a w. avl_find (seg_compar sm n) (sm_root sm) = Inr (Some a, w)
        \<and> a \<in> set xs \<and> (seg_set n \<subseteq> sm_set sm \<longleftrightarrow> lo (seg_at sm a) \<le> lo n \<and> hi n \<le> hi (seg_at sm a)))"
proof -
  have tree: "avl_inv (sm_root sm) xs" "seg_list (seg_at sm) xs" using assms(1) by (auto simp: sm_pre_def)
  have srt: "compar_sorted (seg_compar sm n) xs"
    using seg_compar_sorted[OF tree(2) assms(2), folded seg_compar_fun] .
  have um: "unmatched (seg_compar sm n) xs \<longleftrightarrow> seg_set n \<inter> sm_set sm = {}"
    using seg_unmatched[OF tree(2) assms(2), folded seg_compar_fun] sm_set_rep[OF assms(1)] by simp
  show ?thesis
  proof (cases "unmatched (seg_compar sm n) xs")
    case True
    then show ?thesis using avl.find_none[OF tree(1) srt] um by blast
  next
    case False
    then obtain a w where a: "avl_find (seg_compar sm n) (sm_root sm) = Inr (Some a, w)" "a \<in> set xs"
      "space_map_seg_compare n (seg_at sm a) = 0"
      using avl.find_some[OF tree(1) srt] by (auto simp: seg_compar_def)
    then show ?thesis
      using seg_contains[OF tree(2) sm_pre_distinct[OF assms(1)] a(2) assms(2) a(3)] False um
        sm_set_rep[OF assms(1)] by auto
  qed
qed

text \<open>A range that is in the map already is refused: with \<open>zfs_recover\<close> a complete duplicate is
  reported and ignored, everything else stops the system.\<close>

lemma space_map_add_overlap:
  assumes inv: "sm_inv sm" and range: "sm_range sm start size'"
    and over: "sm_set sm \<inter> range_set start size' \<noteq> {}"
  shows "(\<exists>e. space_map_add k sm start size' = Inl e)
     \<or> zfs_recover k \<and> range_set start size' \<subseteq> sm_set sm \<and> space_map_add k sm start size' = Inr sm"
proof -
  obtain xs where fits: "sm_fits sm" "sm_lock_held sm" and rep: "sm_pre sm xs (set xs)"
    using inv by (auto simp: sm_inv_def sm_rep_def)
  note rng = sm_rangeD[OF range fits(1)]
  define n where "n = \<lparr>ss_start = start, ss_end = start + size'\<rparr>"
  have n: "lo n < hi n" "seg_set n = range_set start size'" using rng(1,2) by (auto simp: n_def)
  obtain a w where a: "avl_find (seg_compar sm n) (sm_root sm) = Inr (Some a, w)" "a \<in> set xs"
    "range_set start size' \<subseteq> sm_set sm \<longleftrightarrow> lo (seg_at sm a) \<le> lo n \<and> hi n \<le> hi (seg_at sm a)"
    using range_search[OF rep n(1)] over unfolding n(2) by blast
  have dom: "a \<in> dom (sm_segs sm)" using rep a(2) by (simp add: sm_pre_def)
  have inside: "seg_test sm (Some a) (\<lambda>s. ss_start s \<le> start \<and> ss_end s \<ge> start + size')
      = Inr (range_set start size' \<subseteq> sm_set sm)"
    using dom a(3) by (simp add: seg_test_known n_def word_le_nat_alt)
  show ?thesis
    using rng fits(2) a(1) inside
    by (cases "sm_space sm + size' \<le> sm_size sm"; cases "range_set start size' \<subseteq> sm_set sm")
       (simp_all add: space_map_add_def Let_def n_def[symmetric] zfs_panic_recover_def)
qed

lemma space_map_contains_inv:
  assumes inv: "sm_inv sm" and range: "sm_range sm start size'"
  shows "space_map_contains sm start size' = Inr (range_set start size' \<subseteq> sm_set sm)"
proof -
  obtain xs where fits: "sm_fits sm" "sm_lock_held sm" and rep: "sm_pre sm xs (set xs)"
    using inv by (auto simp: sm_inv_def sm_rep_def)
  note rng = sm_rangeD[OF range fits(1)]
  define n where "n = \<lparr>ss_start = start, ss_end = start + size'\<rparr>"
  have n: "lo n < hi n" "seg_set n = range_set start size'" using rng(1,2) by (auto simp: n_def)
  have "range_set start size' \<noteq> {}" using n(1) unfolding n(2)[symmetric] by simp
  then have none: "\<not> range_set start size' \<subseteq> sm_set sm" if "range_set start size' \<inter> sm_set sm = {}"
    using that by blast
  have eval: "space_map_contains sm start size' = seg_test sm p (\<lambda>s. ss_start s \<le> start \<and> ss_end s \<ge> start + size')"
    if "avl_find (seg_compar sm n) (sm_root sm) = Inr (p, w)" for p w
    using rng fits(2) that by (simp add: space_map_contains_def Let_def n_def[symmetric])
  have known: "seg_test sm (Some a) (\<lambda>s. ss_start s \<le> start \<and> ss_end s \<ge> start + size')
      = Inr (lo (seg_at sm a) \<le> lo n \<and> hi n \<le> hi (seg_at sm a))" if "a \<in> set xs" for a
    using that rep by (simp add: seg_test_known sm_pre_def n_def word_le_nat_alt)
  from range_search[OF rep n(1)] show ?thesis
  proof (elim disjE exE conjE)
    fix w assume "avl_find (seg_compar sm n) (sm_root sm) = Inr (None, w)" "seg_set n \<inter> sm_set sm = {}"
    then show ?thesis using eval none unfolding n(2) by (simp add: seg_test_known)
  next
    fix a w assume "avl_find (seg_compar sm n) (sm_root sm) = Inr (Some a, w)" "a \<in> set xs"
      "seg_set n \<subseteq> sm_set sm \<longleftrightarrow> lo (seg_at sm a) \<le> lo n \<and> hi n \<le> hi (seg_at sm a)"
    then show ?thesis using eval known unfolding n(2) by simp
  qed
qed

section \<open>Removing a range\<close>

lemma segs_set_cut:
  assumes "seg_list g (ys @ a # zs)" "S \<subseteq> seg_set (g a)"
  shows "segs_set g (set (ys @ a # zs)) - S = segs_set g (set ys) \<union> segs_set g (set zs) \<union> (seg_set (g a) - S)"
proof -
  have "seg_set (g b) \<inter> seg_set (g a) = {}" if "b \<in> set ys \<union> set zs" for b
    using assms(1) that by auto
  then have "segs_set g (set ys \<union> set zs) \<inter> seg_set (g a) = {}" unfolding segs_set_def by blast
  then show ?thesis using assms(2) by auto
qed

text \<open>The segment that contains the range has been taken out of the picker's tree; what is left of
  it goes back.\<close>

lemma remove_split_pre:
  assumes pre: "sm_pre sm (ys @ a # zs) (set ys \<union> set zs)" and fresh: "kmem_fresh k"
    and cut: "lo (seg_at sm a) < unat start" "unat start < unat end'" "unat end' < hi (seg_at sm a)"
    and al: "2 ^ unat (sm_shift sm) dvd unat start" "2 ^ unat (sm_shift sm) dvd unat end'"
  shows "\<exists>sm' xs. remove_split k a start end' sm = Inr (sm', Some a) \<and> a \<in> set xs
     \<and> sm_pre sm' xs (set xs - {a}) \<and> sm_same sm sm' \<and> sm_space sm' = sm_space sm
     \<and> segs_set (seg_at sm') (set xs) = segs_set (seg_at sm) (set (ys @ a # zs)) - {unat start ..< unat end'}"
proof -
  let ?g = "seg_at sm"
  let ?n = "(?g a)\<lparr>ss_end := start\<rparr>" and ?m = "\<lparr>ss_start = end', ss_end = ss_end (?g a)\<rparr>"
  define c where "c = kmem_alloc k (sm_segs sm)"
  define sm1 where "sm1 = set_seg a ?n (set_seg c ?m sm)"
  have tree: "avl_inv (sm_root sm) (ys @ a # zs)" "dom (sm_segs sm) = set (ys @ a # zs)" "seg_list ?g (ys @ a # zs)"
    "\<forall>x \<in> set (ys @ a # zs). sm_bounds sm (?g x)" "pp_inv ?g (sm_pp_root sm) (set ys \<union> set zs)"
    using pre by (simp_all add: sm_pre_def)
  have c: "c \<notin> set (ys @ a # zs)" "c \<noteq> avl_tmp"
    using kmem_fresh_new[OF fresh, of "sm_segs sm"] tree(2) by (auto simp: c_def)
  have a: "a \<notin> set ys" "a \<notin> set zs" using sm_pre_distinct[OF pre] by auto
  have g1: "seg_at sm1 = ?g(c := ?m, a := ?n)" by (simp add: sm1_def)
  let ?cmp = "\<lambda>x. space_map_seg_compare (seg_at sm1 c) (seg_at sm1 x)"
  have pos: "\<forall>b \<in> set ys. lo (?g b) < hi (?g b) \<and> hi (?g b) < lo (?g a)"
    "\<forall>b \<in> set zs. lo (?g b) < hi (?g b) \<and> hi (?g a) < lo (?g b)"
    using tree(3) seg_listD[OF tree(3)] by auto
  have sides: "\<forall>b \<in> set ys. ?cmp b = 1" "\<forall>b \<in> set zs. ?cmp b = -1" "?cmp a = 1"
    using pos a c cut unfolding g1 by (fastforce simp: seg_compare_nat)+
  obtain t where t: "avl_insert_here ?cmp (sm_root sm) c a AVL_AFTER = Inr t" "avl_inv t (ys @ a # c # zs)"
    using avl_insert_here_inv[OF tree(1) c sides(1,2), of True] sides(3) by (auto simp: AVL_AFTER_def)
  have "pp_inv (seg_at sm1) (sm_pp_root sm) (set ys \<union> set zs)"
    unfolding g1 by (rule pp_inv_cong[OF tree(5)]) (use a c in auto)
  then have pre1: "sm_pre (sm1\<lparr>sm_root := t\<rparr>) (ys @ a # c # zs) (set ys \<union> set zs)"
    using t(2) tree(2,3,4) a c cut al g1
    by (auto simp: sm_pre_def sm1_def sm_bounds_def)
  have "set ys \<union> set zs \<subseteq> set (ys @ a # c # zs)" "c \<in> set (ys @ a # c # zs)" "c \<notin> set ys \<union> set zs"
    using c by auto
  from sm_pre_add[OF pre1 this] obtain pp where
    pp: "pp_add c (sm1\<lparr>sm_root := t\<rparr>) = Inr (sm1\<lparr>sm_root := t, sm_pp_root := pp\<rparr>)"
      "sm_pre (sm1\<lparr>sm_root := t, sm_pp_root := pp\<rparr>) (ys @ a # c # zs) (insert c (set ys \<union> set zs))"
      "map_option fst pp = map_option fst (sm_pp_root sm)"
    by (auto simp: sm1_def)
  have "remove_split k a start end' sm = Inr (sm1\<lparr>sm_root := t, sm_pp_root := pp\<rparr>, Some a)"
  proof -
    have "deref_seg sm a = Inr (?g a)" "sm_root sm1 = sm_root sm"
      using tree(2) by (simp_all add: deref_seg_known domIff set_eq_iff sm1_def)
    then show ?thesis
      by (simp only: remove_split_def Let_def c_def[symmetric] rbind.simps sm1_def[symmetric] t(1) pp(1))
  qed
  moreover have "insert c (set ys \<union> set zs) = set (ys @ a # c # zs) - {a}" using a c by auto
  moreover have "segs_set (seg_at sm1) (set (ys @ a # c # zs))
      = segs_set ?g (set (ys @ a # zs)) - {unat start ..< unat end'}"
  proof -
    have "segs_set (seg_at sm1) (set (ys @ a # c # zs))
        = segs_set ?g (set ys) \<union> segs_set ?g (set zs) \<union> (seg_set ?n \<union> seg_set ?m)"
      unfolding g1 using a c by (simp add: Un_ac)
    moreover have "seg_set (?g a) - {unat start ..< unat end'} = seg_set ?n \<union> seg_set ?m"
      "{unat start ..< unat end'} \<subseteq> seg_set (?g a)" using cut by auto
    ultimately show ?thesis using segs_set_cut[OF tree(3)] by simp
  qed
  moreover have "sm_same sm (sm1\<lparr>sm_root := t, sm_pp_root := pp\<rparr>)" using pp(3) by (simp add: sm_same_def sm1_def)
  ultimately show ?thesis
    using pp(2) by (intro exI[of _ "sm1\<lparr>sm_root := t, sm_pp_root := pp\<rparr>"] exI[of _ "ys @ a # c # zs"])
      (simp add: sm1_def)
qed

lemma remove_branch_pre:
  assumes pre: "sm_pre sm (ys @ a # zs) (set ys \<union> set zs)" and fresh: "kmem_fresh k"
    and cut: "lo (seg_at sm a) \<le> unat start" "unat start < unat end'" "unat end' \<le> hi (seg_at sm a)"
    and al: "2 ^ unat (sm_shift sm) dvd unat start" "2 ^ unat (sm_shift sm) dvd unat end'"
  shows "\<exists>sm' left xs. remove_branch k a (seg_at sm a) start end' sm = Inr (sm', left)
     \<and> sm_pre sm' xs (set xs - set_option left) \<and> set_option left \<subseteq> set xs \<and> sm_same sm sm' \<and> sm_space sm' = sm_space sm
     \<and> segs_set (seg_at sm') (set xs) = segs_set (seg_at sm) (set (ys @ a # zs)) - {unat start ..< unat end'}"
proof -
  let ?g = "seg_at sm"
  have a: "a \<notin> set ys" "a \<notin> set zs" using sm_pre_distinct[OF pre] by auto
  have A: "set (ys @ a # zs) - {a} = set ys \<union> set zs" using a by auto
  have tree: "seg_list ?g (ys @ a # zs)" "sm_bounds sm (?g a)" using pre by (simp_all add: sm_pre_def)
  have rest: "segs_set ?g (set (ys @ a # zs)) - {unat start ..< unat end'}
      = segs_set ?g (set ys) \<union> segs_set ?g (set zs) \<union> (seg_set (?g a) - {unat start ..< unat end'})"
    using cut by (intro segs_set_cut[OF tree(1)]) auto
  consider (split) "lo (?g a) < unat start" "unat end' < hi (?g a)"
    | (left) "lo (?g a) < unat start" "unat end' = hi (?g a)"
    | (right) "lo (?g a) = unat start" "unat end' < hi (?g a)"
    | (whole) "lo (?g a) = unat start" "unat end' = hi (?g a)"
    using cut by linarith
  then show ?thesis
  proof cases
    case split
    then have "ss_start (?g a) \<noteq> start" "ss_end (?g a) \<noteq> end'" by auto
    with remove_split_pre[OF pre fresh split(1) cut(2) split(2) al] show ?thesis
      by (auto simp: remove_branch_def)
  next
    case left
    let ?n = "(?g a)\<lparr>ss_end := start\<rparr>"
    have "ss_start (?g a) \<noteq> start" "ss_end (?g a) = end'" using left by (auto simp: word_unat_eq_iff)
    moreover have "sm_pre (set_seg a ?n sm) (ys @ a # zs) (set ys \<union> set zs)"
      by (rule sm_pre_set_seg[OF pre]) (use tree left cut al in \<open>auto simp: sm_bounds_def\<close>)
    moreover have "seg_set (?g a) - {unat start ..< unat end'} = seg_set ?n" using left cut by auto
    ultimately show ?thesis
      using a rest by (intro exI[of _ "set_seg a ?n sm"] exI[of _ "Some a"] exI[of _ "ys @ a # zs"])
        (auto simp: remove_branch_def A[simplified] sm_same_def)
  next
    case right
    let ?n = "(?g a)\<lparr>ss_start := end'\<rparr>"
    have "ss_start (?g a) = start" "ss_end (?g a) \<noteq> end'" using right by (auto simp: word_unat_eq_iff)
    moreover have "sm_pre (set_seg a ?n sm) (ys @ a # zs) (set ys \<union> set zs)"
      by (rule sm_pre_set_seg[OF pre]) (use tree right cut al in \<open>auto simp: sm_bounds_def\<close>)
    moreover have "seg_set (?g a) - {unat start ..< unat end'} = seg_set ?n" using right cut by auto
    ultimately show ?thesis
      using a rest by (intro exI[of _ "set_seg a ?n sm"] exI[of _ "Some a"] exI[of _ "ys @ a # zs"])
        (auto simp: remove_branch_def A[simplified] sm_same_def)
  next
    case whole
    have eq: "ss_start (?g a) = start" "ss_end (?g a) = end'" using whole by (auto simp: word_unat_eq_iff)
    obtain t where t: "root_remove a sm = Inr (sm\<lparr>sm_root := t\<rparr>)" using root_remove_ok[OF pre, of a] by auto
    have "sm_pre (free_seg a (sm\<lparr>sm_root := t\<rparr>)) (ys @ zs) (set ys \<union> set zs)"
      by (rule sm_pre_free[OF pre _ t]) auto
    moreover have "seg_set (?g a) - {unat start ..< unat end'} = {}" using whole by auto
    ultimately show ?thesis
      using a rest eq t
      by (intro exI[of _ "free_seg a (sm\<lparr>sm_root := t\<rparr>)"] exI[of _ None] exI[of _ "ys @ zs"])
        (auto simp: remove_branch_def remove_whole_def sm_same_def)
  qed
qed

lemma space_map_remove_inv:
  assumes inv: "sm_inv sm" and fresh: "kmem_fresh k" and range: "sm_range sm start size'"
    and sub: "range_set start size' \<subseteq> sm_set sm"
  shows "\<exists>sm'. space_map_remove k sm start size' = Inr sm' \<and> sm_inv sm'
     \<and> sm_set sm' = sm_set sm - range_set start size' \<and> sm_same sm sm'"
proof -
  obtain xs where fits: "sm_fits sm" "sm_lock_held sm" and rep: "sm_pre sm xs (set xs)"
    "unat (sm_space sm) = card (sm_set sm)"
    using inv by (auto simp: sm_inv_def sm_rep_def sm_set_rep)
  note rng = sm_rangeD[OF range fits(1)]
  define n where "n = \<lparr>ss_start = start, ss_end = start + size'\<rparr>"
  have n: "lo n < hi n" "seg_set n = range_set start size'" using rng(1,2) by (auto simp: n_def)
  then have "range_set start size' \<inter> sm_set sm \<noteq> {}" using sub rng(1,2) by fastforce
  then obtain a w where a: "avl_find (seg_compar sm n) (sm_root sm) = Inr (Some a, w)" "a \<in> set xs"
    "lo (seg_at sm a) \<le> lo n \<and> hi n \<le> hi (seg_at sm a)"
    using range_search[OF rep(1) n(1)] sub unfolding n(2) by blast
  obtain ys zs where xs: "xs = ys @ a # zs" using split_list[OF a(2)] by blast
  have "set xs - {a} = set ys \<union> set zs" using sm_pre_distinct[OF rep(1)] xs by auto
  then obtain pp where pp: "pp_remove a sm = Inr (sm\<lparr>sm_pp_root := pp\<rparr>)"
    "sm_pre (sm\<lparr>sm_pp_root := pp\<rparr>) (ys @ a # zs) (set ys \<union> set zs)" "map_option fst pp = map_option fst (sm_pp_root sm)"
    using sm_pre_remove[OF rep(1) a(2)] xs by auto
  have al: "2 ^ unat (sm_shift sm) dvd unat start" "2 ^ unat (sm_shift sm) dvd unat (start + size')"
    using range rng(1) by (auto simp: sm_range_def)
  obtain sm1 left xs1 where b: "remove_branch k a (seg_at sm a) start (start + size') (sm\<lparr>sm_pp_root := pp\<rparr>) = Inr (sm1, left)"
    "sm_pre sm1 xs1 (set xs1 - set_option left)" "set_option left \<subseteq> set xs1" "sm_same (sm\<lparr>sm_pp_root := pp\<rparr>) sm1"
    "sm_space sm1 = sm_space sm" "segs_set (seg_at sm1) (set xs1) = sm_set sm - range_set start size'"
    using remove_branch_pre[OF pp(2) fresh, of start "start + size'"] a(3) rng(1,2) al
    by (auto simp: n_def sm_set_rep[OF rep(1)] xs)
  have "\<exists>pp'. (case left of None \<Rightarrow> Inr sm1 | Some ss \<Rightarrow> pp_add ss sm1) = Inr (sm1\<lparr>sm_pp_root := pp'\<rparr>)
      \<and> sm_pre (sm1\<lparr>sm_pp_root := pp'\<rparr>) xs1 (set xs1) \<and> map_option fst pp' = map_option fst (sm_pp_root sm1)"
  proof (cases left)
    case None
    then show ?thesis using b(2) by (intro exI[of _ "sm_pp_root sm1"]) simp
  next
    case (Some c)
    then show ?thesis using sm_pre_add[of sm1 xs1 "set xs1 - {c}" c] b(2,3) by (auto simp: insert_absorb)
  qed
  then obtain pp' where p: "(case left of None \<Rightarrow> Inr sm1 | Some ss \<Rightarrow> pp_add ss sm1) = Inr (sm1\<lparr>sm_pp_root := pp'\<rparr>)"
    "sm_pre (sm1\<lparr>sm_pp_root := pp'\<rparr>) xs1 (set xs1)" "map_option fst pp' = map_option fst (sm_pp_root sm1)"
    by (elim exE conjE)
  let ?sm = "sm1\<lparr>sm_pp_root := pp', sm_space := sm_space sm - size'\<rparr>"
  have fin: "finite (sm_set sm)" by (simp add: sm_set_rep[OF rep(1)])
  have le: "unat size' \<le> unat (sm_space sm)"
    using card_mono[OF fin sub] rep(2) by simp
  then have space: "unat (sm_space sm - size') = unat (sm_space sm) - unat size'"
    by (simp add: unat_diff_le word_le_nat_alt)
  have card: "card (sm_set sm - range_set start size') = unat (sm_space sm) - unat size'"
    using card_Diff_subset[OF _ sub] rep(2) by simp
  have "unat (sm_space sm) \<le> unat (sm_size sm)"
    using card_mono[OF _ sm_rep_bounds[OF rep(1)]] rep(2) by (simp add: sm_set_rep[OF rep(1)])
  then have room: "sm_space sm - size' \<le> sm_size sm" using space by (simp add: word_le_nat_alt)
  have known: "deref_seg sm a = Inr (seg_at sm a)" "ss_start (seg_at sm a) \<le> start" "start + size' \<le> ss_end (seg_at sm a)"
    using rep(1) a(2,3) by (auto simp: deref_seg_known sm_pre_def domIff set_eq_iff n_def word_le_nat_alt)
  have "space_map_remove k sm start size' = Inr ?sm"
    using rng fits(2) a(1) known room pp(1) b(1,5) p(1)
    by (simp add: space_map_remove_def Let_def n_def[symmetric])
  moreover have "sm_rep ?sm xs1"
    using p(2) b(6) card space by (simp add: sm_rep_def sm_pre_def)
  moreover have "sm_same sm ?sm" using b(4) p(3) pp(3) by (simp add: sm_same_def)
  moreover from this have "sm_fits ?sm" "sm_lock_held ?sm"
    using fits by (auto simp: sm_same_def sm_fits_def)
  moreover have "sm_set ?sm = sm_set sm - range_set start size'"
    using sm_set_rep[OF p(2)] b(6) by (simp add: sm_set_def)
  ultimately show ?thesis unfolding sm_inv_def by blast
qed

end
