(* ===== verification/Space_Map_Bulk.thy ===== *)
theory Space_Map_Bulk
  imports Space_Map_Inv
begin

text \<open>
  Refused removals, creation and destruction of maps, and the operations on whole maps:
  \<open>space_map_walk\<close> and \<open>space_map_vacate\<close>, also with \<open>space_map_add\<close> and \<open>space_map_remove\<close> as the
  function that is called for each segment.
\<close>

section \<open>Refused removals, creation, destruction\<close>

lemma space_map_remove_refused:
  assumes inv: "sm_inv sm" and range: "sm_range sm start size'"
    and not_sub: "\<not> range_set start size' \<subseteq> sm_set sm"
  shows "(\<exists>e. space_map_remove k sm start size' = Inl e)
     \<or> zfs_recover k \<and> range_set start size' \<inter> sm_set sm = {} \<and> space_map_remove k sm start size' = Inr sm"
proof -
  obtain xs where fits: "sm_fits sm" "sm_lock_held sm" and rep: "sm_pre sm xs (set xs)"
    using inv by (auto simp: sm_inv_def sm_rep_def)
  note rng = sm_rangeD[OF range fits(1)]
  define n where "n = \<lparr>ss_start = start, ss_end = start + size'\<rparr>"
  have n: "lo n < hi n" "seg_set n = range_set start size'" using rng(1,2) by (auto simp: n_def)
  from range_search[OF rep n(1)] show ?thesis
  proof (elim disjE exE conjE)
    fix w assume "avl_find (seg_compar sm n) (sm_root sm) = Inr (None, w)" "seg_set n \<inter> sm_set sm = {}"
    then show ?thesis
      using rng fits(2) unfolding n(2)
      by (simp add: space_map_remove_def Let_def n_def[symmetric] zfs_panic_recover_def)
  next
    fix a w assume a: "avl_find (seg_compar sm n) (sm_root sm) = Inr (Some a, w)" "a \<in> set xs"
      "seg_set n \<subseteq> sm_set sm \<longleftrightarrow> lo (seg_at sm a) \<le> lo n \<and> hi n \<le> hi (seg_at sm a)"
    have "deref_seg sm a = Inr (seg_at sm a)"
      using rep a(2) by (auto simp: deref_seg_known sm_pre_def domIff set_eq_iff)
    moreover have "\<not> (ss_start (seg_at sm a) \<le> start \<and> start + size' \<le> ss_end (seg_at sm a))"
      using a(3) not_sub unfolding n(2) by (auto simp: n_def word_le_nat_alt)
    ultimately show ?thesis
      using rng fits(2) a(1)
      by (cases "ss_start (seg_at sm a) \<le> start")
         (simp_all add: space_map_remove_def Let_def n_def[symmetric])
  qed
qed

lemma space_map_create_inv:
  assumes "unat start + unat size' < 2 ^ 64" "unat shift < 64"
  shows "sm_inv (space_map_create start size' shift True)" "sm_set (space_map_create start size' shift True) = {}"
  using assms
  by (auto simp: space_map_create_def sm_inv_def sm_fits_def sm_rep_def sm_pre_def pp_inv_def sm_set_def
      intro!: exI[of _ "[]"])

lemma sm_inv_empty_space: "sm_inv sm \<Longrightarrow> sm_space sm = 0 \<longleftrightarrow> sm_set sm = {}"
proof -
  assume "sm_inv sm"
  then obtain xs where "sm_pre sm xs (set xs)" "unat (sm_space sm) = card (segs_set (seg_at sm) (set xs))"
    by (auto simp: sm_inv_def sm_rep_def)
  then show ?thesis
    using sm_set_rep by (metis List.finite_set card_eq_0_iff finite_segs_set unat_eq_zero)
qed

lemma sm_inv_empty_root:
  assumes "sm_inv sm" "sm_set sm = {}"
  shows "avl_inv (sm_root sm) []" "sm_segs sm = (\<lambda>_. None)"
proof -
  obtain xs where xs: "sm_pre sm xs (set xs)" using assms(1) by (auto simp: sm_inv_def sm_rep_def)
  have "xs = []"
  proof (rule ccontr)
    assume "xs \<noteq> []"
    then have "hd xs \<in> set xs" by simp
    moreover have "lo (seg_at sm (hd xs)) < hi (seg_at sm (hd xs))"
      using xs calculation seg_listD by (auto simp: sm_pre_def)
    ultimately have "lo (seg_at sm (hd xs)) \<in> sm_set sm" unfolding sm_set_rep[OF xs] by (auto simp: segs_set_def)
    then show False using assms(2) by simp
  qed
  then show "avl_inv (sm_root sm) []" "sm_segs sm = (\<lambda>_. None)"
    using xs by (auto simp: sm_pre_def)
qed

lemma space_map_destroy_inv:
  assumes "sm_inv sm" "sm_set sm = {}" "\<not> sm_loaded sm" "\<not> sm_loading sm"
  shows "space_map_destroy sm = Inr ()"
  using assms sm_inv_empty_space[OF assms(1)] avl_destroy_inv[OF sm_inv_empty_root(1)[OF assms(1,2)]]
  by (simp add: space_map_destroy_def)

section \<open>Walking and vacating\<close>

lemma foldM_cong: "(\<And>x d. x \<in> set xs \<Longrightarrow> f x d = g x d) \<Longrightarrow> foldM f xs d = foldM g xs d"
proof (induction xs arbitrary: d)
  case (Cons x xs)
  then show ?case by (cases "g x d") auto
qed simp

lemma space_map_walk_fold:
  assumes "sm_pre sm xs A" "sm_lock_held sm"
  shows "space_map_walk sm func d = foldM (\<lambda>a. call_func (Some func) (seg_at sm a)) xs d"
proof -
  have "avl_inv (sm_root sm) xs" "dom (sm_segs sm) = set xs" using assms(1) by (auto simp: sm_pre_def)
  moreover from this(2) have "foldM (\<lambda>a d. rbind (deref_seg sm a) (\<lambda>s. func (ss_start s) (ss_end s - ss_start s) d)) xs d
      = foldM (\<lambda>a. call_func (Some func) (seg_at sm a)) xs d"
    by (intro foldM_cong) (auto simp: call_func_def deref_seg_known domIff set_eq_iff)
  ultimately show ?thesis
    using assms(2) by (simp add: space_map_walk_def fwd.scan_all)
qed

lemma vacate_loop_fold:
  assumes "destroying (sm_root sm) cookie ps" "distinct ps" "dom (sm_segs sm) = set ps" "sm_pp_root sm = None"
  shows "\<exists>t. avl_inv t [] \<and> vacate_loop func sm cookie d
     = Some (rbind (foldM (\<lambda>a. call_func func (seg_at sm a)) ps d)
        (\<lambda>d'. Inr (sm\<lparr>sm_root := t, sm_segs := (\<lambda>_. None)\<rparr>, d')))"
  using assms
proof (induction ps arbitrary: sm cookie d)
  case Nil
  obtain t cookie' where "avl_destroy_nodes (sm_root sm) cookie = Inr (t, cookie', None)" "avl_inv t []"
    using destroying_end[OF Nil.prems(1)] by blast
  moreover have "sm_segs sm = (\<lambda>_. None)" using Nil.prems(3) by auto
  ultimately show ?case by (intro exI[of _ t]) (simp add: vacate_loop.simps[of func sm])
next
  case (Cons a ps)
  obtain t1 cookie1 where step: "avl_destroy_nodes (sm_root sm) cookie = Inr (t1, cookie1, Some a)"
    "destroying t1 cookie1 ps"
    using destroying_step[OF Cons.prems(1)] by blast
  let ?sm = "free_seg a (sm\<lparr>sm_root := t1\<rparr>)"
  have a: "deref_seg sm a = Inr (seg_at sm a)"
    using Cons.prems(3) by (simp add: deref_seg_known domIff set_eq_iff)
  have d1: "destroying (sm_root ?sm) cookie1 ps"
  proof -
    have "destroying (t1\<lparr>avl_mem := (avl_mem t1)(a := blank_node)\<rparr>) cookie1 ps"
      by (rule destroying_frame[OF step(2)]) (use Cons.prems(2) in auto)
    then show ?thesis by (simp add: set_node_def)
  qed
  have d2: "dom (sm_segs ?sm) = set ps" "sm_pp_root ?sm = None" "distinct ps"
    using Cons.prems(2,3,4) by auto
  have IH: "\<exists>t. avl_inv t [] \<and> vacate_loop func ?sm cookie1 d'
     = Some (rbind (foldM (\<lambda>a. call_func func (seg_at ?sm a)) ps d')
        (\<lambda>d'. Inr (?sm\<lparr>sm_root := t, sm_segs := (\<lambda>_. None)\<rparr>, d')))" for d'
    by (rule Cons.IH[OF d1 d2(3,1,2)])
  have fold: "foldM (\<lambda>a. call_func func (seg_at ?sm a)) ps d' = foldM (\<lambda>a. call_func func (seg_at sm a)) ps d'" for d'
    using Cons.prems(2) by (intro foldM_cong) auto
  have rec: "?sm\<lparr>sm_root := t, sm_segs := (\<lambda>_. None)\<rparr> = sm\<lparr>sm_root := t, sm_segs := (\<lambda>_. None)\<rparr>" for t
    using Cons.prems(4) by (simp add: free_seg_def)
  show ?case
  proof (cases "call_func func (seg_at sm a) d")
    case (Inl e)
    obtain t where "avl_inv t []" using IH by blast
    then show ?thesis
      using Inl a step(1) by (intro exI[of _ t]) (simp add: vacate_loop.simps[of func sm])
  next
    case (Inr d')
    then show ?thesis
      using IH[of d'] a step(1) unfolding fold rec by (simp add: vacate_loop.simps[of func sm])
  qed
qed

text \<open>\<open>space_map_vacate\<close> calls the function once for every segment, in some order, and leaves an
  empty map in which every segment has been freed.\<close>

lemma space_map_vacate_fold:
  assumes "sm_inv sm" "sm_pp_root sm = None"
  obtains ps sm' where "distinct ps" "set ps = dom (sm_segs sm)" "sm_inv sm'" "sm_set sm' = {}" "sm_same sm sm'"
    "space_map_vacate sm func d
       = rbind (foldM (\<lambda>a. call_func func (seg_at sm a)) ps d) (\<lambda>d'. Inr (sm', d'))"
proof -
  obtain xs where fits: "sm_fits sm" "sm_lock_held sm" and rep: "sm_pre sm xs (set xs)"
    using assms(1) by (auto simp: sm_inv_def sm_rep_def)
  have tree: "avl_inv (sm_root sm) xs" "dom (sm_segs sm) = set xs" using rep by (auto simp: sm_pre_def)
  obtain ps where ps: "destroying (sm_root sm) CookieNull ps" "set ps = set xs" "distinct ps"
    using destroying_start[OF tree(1)] by blast
  obtain t where t: "avl_inv t []" "vacate_loop func sm CookieNull d
     = Some (rbind (foldM (\<lambda>a. call_func func (seg_at sm a)) ps d)
        (\<lambda>d'. Inr (sm\<lparr>sm_root := t, sm_segs := (\<lambda>_. None)\<rparr>, d')))"
    using vacate_loop_fold[OF ps(1,3) _ assms(2)] tree(2) ps(2) by metis
  let ?sm = "sm\<lparr>sm_root := t, sm_segs := (\<lambda>_. None), sm_space := 0\<rparr>"
  have "sm_rep ?sm []"
    using t(1) assms(2) by (simp add: sm_rep_def sm_pre_def pp_inv_def)
  then have "sm_inv ?sm" using fits by (auto simp: sm_inv_def sm_fits_def)
  moreover have "space_map_vacate sm func d
       = rbind (foldM (\<lambda>a. call_func func (seg_at sm a)) ps d) (\<lambda>d'. Inr (?sm, d'))"
    using fits(2) t(2) by (cases "foldM (\<lambda>a. call_func func (seg_at sm a)) ps d") (simp_all add: space_map_vacate_def)
  ultimately show ?thesis
    using that[of ps ?sm] ps tree(2) by (simp add: sm_set_def sm_same_def)
qed

section \<open>Moving whole maps\<close>

text \<open>Segments of one map are ranges of every map with the same geometry.\<close>

definition sm_geometry :: "space_map \<Rightarrow> space_map \<Rightarrow> bool" where
  "sm_geometry sm d \<longleftrightarrow> sm_start sm = sm_start d \<and> sm_size sm = sm_size d \<and> sm_shift sm = sm_shift d"

lemma seg_range:
  assumes "sm_pre sm xs A" "a \<in> set xs" "sm_geometry sm d"
  shows "sm_range d (ss_start (seg_at sm a)) (ss_end (seg_at sm a) - ss_start (seg_at sm a))"
    and "range_set (ss_start (seg_at sm a)) (ss_end (seg_at sm a) - ss_start (seg_at sm a)) = seg_set (seg_at sm a)"
proof -
  have a: "lo (seg_at sm a) < hi (seg_at sm a)" "sm_bounds sm (seg_at sm a)"
    using assms(1,2) seg_listD by (auto simp: sm_pre_def)
  then have diff: "unat (ss_end (seg_at sm a) - ss_start (seg_at sm a)) = hi (seg_at sm a) - lo (seg_at sm a)"
    by (simp add: unat_diff_le word_le_nat_alt)
  then have "ss_end (seg_at sm a) - ss_start (seg_at sm a) \<noteq> 0"
    using a(1) by (metis diff_is_0_eq not_le unat_0)
  then show "sm_range d (ss_start (seg_at sm a)) (ss_end (seg_at sm a) - ss_start (seg_at sm a))"
    using a assms(3) diff by (auto simp: sm_range_def sm_bounds_def sm_geometry_def)
  show "range_set (ss_start (seg_at sm a)) (ss_end (seg_at sm a) - ss_start (seg_at sm a)) = seg_set (seg_at sm a)"
    using a(1) diff by simp
qed

lemma segs_apart:
  assumes "sm_pre sm xs A" "a \<in> set xs" "B \<subseteq> set xs" "a \<notin> B"
  shows "segs_set (seg_at sm) B \<inter> seg_set (seg_at sm a) = {}"
proof -
  have "x \<notin> seg_set (seg_at sm a)" if "b \<in> B" "x \<in> seg_set (seg_at sm b)" for b x
    using seg_list_inj[of "seg_at sm" xs a b] sm_pre_distinct[OF assms(1)] assms that
    by (force simp: sm_pre_def)
  then show ?thesis unfolding segs_set_def by blast
qed

definition add_func :: "kernel \<Rightarrow> space_map space_map_func" where
  "add_func k start size' d = space_map_add k d start size'"

definition remove_func :: "kernel \<Rightarrow> space_map space_map_func" where
  "remove_func k start size' d = space_map_remove k d start size'"

lemma sm_inv_pre:
  assumes "sm_inv sm"
  obtains xs where "sm_pre sm xs (set xs)" "dom (sm_segs sm) = set xs" "sm_lock_held sm"
  using assms by (auto simp: sm_inv_def sm_rep_def sm_pre_def)

lemma space_map_vacate_all:
  assumes "sm_inv sm" "sm_pp_root sm = None"
  shows "\<exists>sm'. space_map_vacate sm None d = Inr (sm', d) \<and> sm_inv sm' \<and> sm_set sm' = {} \<and> sm_same sm sm'"
proof (rule space_map_vacate_fold[OF assms, of None d])
  fix ps sm'
  assume v: "sm_inv sm'" "sm_set sm' = {}" "sm_same sm sm'"
    "space_map_vacate sm None d = rbind (foldM (\<lambda>a. call_func None (seg_at sm a)) ps d) (\<lambda>d'. Inr (sm', d'))"
  have "foldM (\<lambda>a. call_func None (seg_at sm a)) ps d = Inr d" by (induction ps) (simp_all add: call_func_def)
  then show ?thesis using v by (intro exI[of _ sm']) simp
qed

text \<open>
  A function for \<open>space_map_walk\<close> and \<open>space_map_vacate\<close> that adds a range to a map, and one that takes a range out; \<open>good\<close>
  is what it needs of the map and keeps. Run over all segments of a map they add or take out the whole map.
\<close>

locale range_adder =
  fixes f :: "space_map space_map_func" and good :: "space_map \<Rightarrow> bool"
  assumes add_step: "good d \<Longrightarrow> sm_range d s z \<Longrightarrow> sm_set d \<inter> range_set s z = {} \<Longrightarrow>
    \<exists>d'. f s z d = Inr d' \<and> good d' \<and> sm_set d' = sm_set d \<union> range_set s z \<and> sm_geometry d d'"
begin

lemma fold_adds:
  assumes "sm_pre sm xs A" "distinct ps" "set ps \<subseteq> set xs" "good d" "sm_geometry sm d"
    and "segs_set (seg_at sm) (set ps) \<inter> sm_set d = {}"
  shows "\<exists>d'. foldM (\<lambda>a. call_func (Some f) (seg_at sm a)) ps d = Inr d' \<and> good d'
     \<and> sm_set d' = sm_set d \<union> segs_set (seg_at sm) (set ps) \<and> sm_geometry d d'"
  using assms
proof (induction ps arbitrary: d)
  case Nil
  then show ?case by (auto simp: sm_geometry_def)
next
  case (Cons a ps)
  have a: "a \<in> set xs" using Cons.prems(3) by simp
  note rng = seg_range[OF Cons.prems(1) a Cons.prems(5)]
  have "sm_set d \<inter> seg_set (seg_at sm a) = {}" using Cons.prems(6) by auto
  then obtain d1 where d1: "call_func (Some f) (seg_at sm a) d = Inr d1" "good d1"
    "sm_set d1 = sm_set d \<union> seg_set (seg_at sm a)" "sm_geometry d d1"
    using add_step[OF Cons.prems(4) rng(1)] unfolding rng(2) call_func_def by auto
  have "segs_set (seg_at sm) (set ps) \<inter> seg_set (seg_at sm a) = {}"
    using segs_apart[OF Cons.prems(1) a, of "set ps"] Cons.prems(2,3) by simp
  then have "segs_set (seg_at sm) (set ps) \<inter> sm_set d1 = {}"
    using Cons.prems(6) unfolding d1(3) list.set segs_set_simps by blast
  moreover have "sm_geometry sm d1" using Cons.prems(5) d1(4) by (auto simp: sm_geometry_def)
  ultimately obtain d2 where "foldM (\<lambda>a. call_func (Some f) (seg_at sm a)) ps d1 = Inr d2" "good d2"
    "sm_set d2 = sm_set d1 \<union> segs_set (seg_at sm) (set ps)" "sm_geometry d1 d2"
    using Cons.IH[of d1] Cons.prems(1-3) d1(2) by auto
  then show ?case using d1 by (intro exI[of _ d2]) (auto simp: sm_geometry_def)
qed

lemma walk_adds:
  assumes "sm_inv sm" "good d" "sm_geometry sm d" "sm_set sm \<inter> sm_set d = {}"
  shows "\<exists>d'. space_map_walk sm f d = Inr d' \<and> good d' \<and> sm_set d' = sm_set d \<union> sm_set sm \<and> sm_geometry d d'"
proof -
  obtain xs where rep: "sm_pre sm xs (set xs)" "sm_lock_held sm" using assms(1) by (auto simp: sm_inv_def sm_rep_def)
  show ?thesis
    using fold_adds[OF rep(1) sm_pre_distinct[OF rep(1)] _ assms(2,3)] assms(4)
    unfolding sm_set_rep[OF rep(1)] space_map_walk_fold[OF rep] by auto
qed

lemma vacate_adds:
  assumes "sm_inv sm" "sm_pp_root sm = None" "good d" "sm_geometry sm d" "sm_set sm \<inter> sm_set d = {}"
  shows "\<exists>sm' d'. space_map_vacate sm (Some f) d = Inr (sm', d') \<and> sm_inv sm' \<and> good d'
     \<and> sm_set sm' = {} \<and> sm_set d' = sm_set d \<union> sm_set sm \<and> sm_same sm sm' \<and> sm_geometry d d'"
proof -
  obtain xs where rep: "sm_pre sm xs (set xs)" using assms(1) by (auto simp: sm_inv_def sm_rep_def)
  obtain ps sm' where v: "distinct ps" "set ps = dom (sm_segs sm)" "sm_inv sm'" "sm_set sm' = {}" "sm_same sm sm'"
    "space_map_vacate sm (Some f) d = rbind (foldM (\<lambda>a. call_func (Some f) (seg_at sm a)) ps d) (\<lambda>d'. Inr (sm', d'))"
    using assms(1,2) by (rule space_map_vacate_fold)
  have ps: "set ps = set xs" using v(2) rep by (simp add: sm_pre_def)
  then obtain d' where "foldM (\<lambda>a. call_func (Some f) (seg_at sm a)) ps d = Inr d'" "good d'"
    "sm_set d' = sm_set d \<union> sm_set sm" "sm_geometry d d'"
    using fold_adds[OF rep v(1) _ assms(3,4)] assms(5) unfolding sm_set_rep[OF rep] by auto
  then show ?thesis using v by auto
qed

end

locale range_remover =
  fixes f :: "space_map space_map_func" and good :: "space_map \<Rightarrow> bool"
  assumes remove_step: "good d \<Longrightarrow> sm_range d s z \<Longrightarrow> range_set s z \<subseteq> sm_set d \<Longrightarrow>
    \<exists>d'. f s z d = Inr d' \<and> good d' \<and> sm_set d' = sm_set d - range_set s z \<and> sm_geometry d d'"
begin

lemma fold_removes:
  assumes "sm_pre sm xs A" "distinct ps" "set ps \<subseteq> set xs" "good d" "sm_geometry sm d"
    and "segs_set (seg_at sm) (set ps) \<subseteq> sm_set d"
  shows "\<exists>d'. foldM (\<lambda>a. call_func (Some f) (seg_at sm a)) ps d = Inr d' \<and> good d'
     \<and> sm_set d' = sm_set d - segs_set (seg_at sm) (set ps) \<and> sm_geometry d d'"
  using assms
proof (induction ps arbitrary: d)
  case Nil
  then show ?case by (auto simp: sm_geometry_def)
next
  case (Cons a ps)
  have a: "a \<in> set xs" using Cons.prems(3) by simp
  note rng = seg_range[OF Cons.prems(1) a Cons.prems(5)]
  have "seg_set (seg_at sm a) \<subseteq> sm_set d" using Cons.prems(6) by auto
  then obtain d1 where d1: "call_func (Some f) (seg_at sm a) d = Inr d1" "good d1"
    "sm_set d1 = sm_set d - seg_set (seg_at sm a)" "sm_geometry d d1"
    using remove_step[OF Cons.prems(4) rng(1)] unfolding rng(2) call_func_def by auto
  have "segs_set (seg_at sm) (set ps) \<inter> seg_set (seg_at sm a) = {}"
    using segs_apart[OF Cons.prems(1) a, of "set ps"] Cons.prems(2,3) by simp
  then have "segs_set (seg_at sm) (set ps) \<subseteq> sm_set d1"
    using Cons.prems(6) unfolding d1(3) list.set segs_set_simps by blast
  moreover have "sm_geometry sm d1" using Cons.prems(5) d1(4) by (auto simp: sm_geometry_def)
  ultimately obtain d2 where "foldM (\<lambda>a. call_func (Some f) (seg_at sm a)) ps d1 = Inr d2" "good d2"
    "sm_set d2 = sm_set d1 - segs_set (seg_at sm) (set ps)" "sm_geometry d1 d2"
    using Cons.IH[of d1] Cons.prems(1-3) d1(2) by auto
  then show ?case using d1 by (intro exI[of _ d2]) (auto simp: sm_geometry_def)
qed

lemma walk_removes:
  assumes "sm_inv sm" "good d" "sm_geometry sm d" "sm_set sm \<subseteq> sm_set d"
  shows "\<exists>d'. space_map_walk sm f d = Inr d' \<and> good d' \<and> sm_set d' = sm_set d - sm_set sm \<and> sm_geometry d d'"
proof -
  obtain xs where rep: "sm_pre sm xs (set xs)" "sm_lock_held sm" using assms(1) by (auto simp: sm_inv_def sm_rep_def)
  show ?thesis
    using fold_removes[OF rep(1) sm_pre_distinct[OF rep(1)] _ assms(2,3)] assms(4)
    unfolding sm_set_rep[OF rep(1)] space_map_walk_fold[OF rep] by auto
qed

end

lemma sm_same_geometry: "sm_same d d' \<Longrightarrow> sm_geometry d d'"
  by (simp add: sm_same_def sm_geometry_def)

interpretation sm_add: range_adder "add_func k" "\<lambda>d. kmem_fresh k \<and> sm_inv d \<and> sm_same d0 d" for k d0
proof
  fix d s z
  assume good: "kmem_fresh k \<and> sm_inv d \<and> sm_same d0 d" and r: "sm_range d s z" "sm_set d \<inter> range_set s z = {}"
  then obtain d' where "space_map_add k d s z = Inr d'" "sm_inv d'" "sm_set d' = sm_set d \<union> range_set s z" "sm_same d d'"
    using space_map_add_inv[of d k s z] by blast
  then show "\<exists>d'. add_func k s z d = Inr d' \<and> (kmem_fresh k \<and> sm_inv d' \<and> sm_same d0 d')
      \<and> sm_set d' = sm_set d \<union> range_set s z \<and> sm_geometry d d'"
    using good sm_same_trans[of d0 d d'] sm_same_geometry by (intro exI[of _ d']) (simp add: add_func_def)
qed

interpretation sm_remove: range_remover "remove_func k" "\<lambda>d. kmem_fresh k \<and> sm_inv d \<and> sm_same d0 d" for k d0
proof
  fix d s z
  assume good: "kmem_fresh k \<and> sm_inv d \<and> sm_same d0 d" and r: "sm_range d s z" "range_set s z \<subseteq> sm_set d"
  then obtain d' where "space_map_remove k d s z = Inr d'" "sm_inv d'" "sm_set d' = sm_set d - range_set s z" "sm_same d d'"
    using space_map_remove_inv[of d k s z] by blast
  then show "\<exists>d'. remove_func k s z d = Inr d' \<and> (kmem_fresh k \<and> sm_inv d' \<and> sm_same d0 d')
      \<and> sm_set d' = sm_set d - range_set s z \<and> sm_geometry d d'"
    using good sm_same_trans[of d0 d d'] sm_same_geometry by (intro exI[of _ d']) (simp add: remove_func_def)
qed

lemma space_map_vacate_add:
  assumes "sm_inv sm" "sm_pp_root sm = None" "sm_inv d" "sm_geometry sm d" "kmem_fresh k" "sm_set sm \<inter> sm_set d = {}"
  shows "\<exists>sm' d'. space_map_vacate sm (Some (add_func k)) d = Inr (sm', d') \<and> sm_inv sm' \<and> sm_inv d'
     \<and> sm_set sm' = {} \<and> sm_set d' = sm_set d \<union> sm_set sm \<and> sm_same sm sm' \<and> sm_same d d'"
  using sm_add.vacate_adds[OF assms(1,2) _ assms(4,6), of k d] assms(3,5) by auto

lemma space_map_walk_remove:
  assumes "sm_inv sm" "sm_inv d" "sm_geometry sm d" "kmem_fresh k" "sm_set sm \<subseteq> sm_set d"
  shows "\<exists>d'. space_map_walk sm (remove_func k) d = Inr d' \<and> sm_inv d'
     \<and> sm_set d' = sm_set d - sm_set sm \<and> sm_same d d'"
  using sm_remove.walk_removes[OF assms(1) _ assms(3,5), of k d] assms(2,4) by auto

lemma space_map_walk_add:
  assumes "sm_inv sm" "sm_inv d" "sm_geometry sm d" "kmem_fresh k" "sm_set sm \<inter> sm_set d = {}"
  shows "\<exists>d'. space_map_walk sm (add_func k) d = Inr d' \<and> sm_inv d'
     \<and> sm_set d' = sm_set d \<union> sm_set sm \<and> sm_same d d'"
  using sm_add.walk_adds[OF assms(1) _ assms(3,5), of k d] assms(2,4) by auto

end
