(* ===== verification/Space_Map_Log.thy ===== *)
theory Space_Map_Log
  imports Space_Map_Bulk
begin

text \<open>
  The on-disk form of a space map: 64-bit entries appended to a DMU object by \<open>space_map_sync\<close> and
  replayed by \<open>space_map_load\<close>. The DMU is a parameter; \<open>dmu_appends\<close> states what is relied on.
\<close>

section \<open>Entries\<close>

definition SM_RUN_DECODE :: "u64 \<Rightarrow> u64" where
  "SM_RUN_DECODE x = BF64_DECODE x 0 15 + 1"

definition SM_RUN_ENCODE :: "u64 \<Rightarrow> u64" where
  "SM_RUN_ENCODE x = BF64_ENCODE (x - 1) 0 15"

definition SM_TYPE_DECODE :: "u64 \<Rightarrow> u64" where
  "SM_TYPE_DECODE x = BF64_DECODE x 15 1"

definition SM_TYPE_ENCODE :: "u64 \<Rightarrow> u64" where
  "SM_TYPE_ENCODE x = BF64_ENCODE x 15 1"

definition SM_OFFSET_DECODE :: "u64 \<Rightarrow> u64" where
  "SM_OFFSET_DECODE x = BF64_DECODE x 16 47"

definition SM_OFFSET_ENCODE :: "u64 \<Rightarrow> u64" where
  "SM_OFFSET_ENCODE x = BF64_ENCODE x 16 47"

definition SM_DEBUG_DECODE :: "u64 \<Rightarrow> u64" where
  "SM_DEBUG_DECODE x = BF64_DECODE x 63 1"

definition SM_DEBUG_ENCODE :: "u64 \<Rightarrow> u64" where
  "SM_DEBUG_ENCODE x = BF64_ENCODE x 63 1"

definition SM_DEBUG_ACTION_ENCODE :: "u64 \<Rightarrow> u64" where
  "SM_DEBUG_ACTION_ENCODE x = BF64_ENCODE x 60 3"

definition SM_DEBUG_SYNCPASS_ENCODE :: "u64 \<Rightarrow> u64" where
  "SM_DEBUG_SYNCPASS_ENCODE x = BF64_ENCODE x 50 10"

definition SM_DEBUG_TXG_ENCODE :: "u64 \<Rightarrow> u64" where
  "SM_DEBUG_TXG_ENCODE x = BF64_ENCODE x 0 50"

definition SM_RUN_MAX :: u64 where
  "SM_RUN_MAX = SM_RUN_DECODE (NOT 0)"

definition SM_ALLOC :: u8 where
  "SM_ALLOC = 0"

definition SM_FREE :: u8 where
  "SM_FREE = 1"

definition SPACE_MAP_BLOCKSHIFT :: nat where
  "SPACE_MAP_BLOCKSHIFT = 12"

record space_map_obj =
  smo_object :: u64
  smo_objsize :: u64
  smo_alloc :: u64

text \<open>The picker functions that \<open>sm_ops\<close> points to.\<close>

record space_map_ops =
  smop_load :: "space_map \<Rightarrow> space_map res"
  smop_unload :: "space_map \<Rightarrow> space_map res"
  smop_alloc :: "space_map \<Rightarrow> u64 \<Rightarrow> (space_map \<times> u64) res"
  smop_claim :: "space_map \<Rightarrow> u64 \<Rightarrow> u64 \<Rightarrow> space_map res"
  smop_free :: "space_map \<Rightarrow> u64 \<Rightarrow> u64 \<Rightarrow> space_map res"
  smop_max :: "space_map \<Rightarrow> u64 res"
  smop_fragmented :: "space_map \<Rightarrow> bool res"

text \<open>
  Objects of 64-bit words: \<open>dmu_read os object offset size\<close> gives an error code and the words read,
  \<open>dmu_write object offset words os\<close> and \<open>dmu_free_range object os\<close> (from 0 to the end) give the new
  state.
\<close>

record 'os dmu =
  dmu_read :: "'os \<Rightarrow> u64 \<Rightarrow> u64 \<Rightarrow> u64 \<Rightarrow> int \<times> u64 list"
  dmu_write :: "u64 \<Rightarrow> u64 \<Rightarrow> u64 list \<Rightarrow> 'os \<Rightarrow> 'os"
  dmu_free_range :: "u64 \<Rightarrow> 'os \<Rightarrow> int \<times> 'os"

definition dmu_appends :: "'os dmu \<Rightarrow> ('os \<Rightarrow> u64 \<Rightarrow> u64 list) \<Rightarrow> bool" where
  "dmu_appends dm contents \<longleftrightarrow>
     (\<forall>os obj off ws. unat off = 8 * length (contents os obj) \<longrightarrow>
        contents (dmu_write dm obj off ws os) obj = contents os obj @ ws) \<and>
     (\<forall>os obj off sz n m. unat off = 8 * n \<longrightarrow> unat sz = 8 * m \<longrightarrow> n + m \<le> length (contents os obj) \<longrightarrow>
        dmu_read dm os obj off sz = (0, take m (drop n (contents os obj))))"

definition dmu_reads :: "'os dmu \<Rightarrow> ('os \<Rightarrow> u64 \<Rightarrow> u64 list) \<Rightarrow> bool" where
  "dmu_reads dm contents \<longleftrightarrow>
     (\<forall>os obj off sz n m. unat off = 8 * n \<longrightarrow> unat sz = 8 * m \<longrightarrow> n + m \<le> length (contents os obj) \<longrightarrow>
        dmu_read dm os obj off sz = (0, take m (drop n (contents os obj))))"

lemma dmu_appends_reads: "dmu_appends dm contents \<Longrightarrow> dmu_reads dm contents"
  unfolding dmu_appends_def dmu_reads_def by blast

text \<open>A reader that stops early sees a shorter object.\<close>

definition contents_upto :: "('os \<Rightarrow> u64 \<Rightarrow> u64 list) \<Rightarrow> space_map_obj \<Rightarrow> 'os \<Rightarrow> u64 \<Rightarrow> u64 list" where
  "contents_upto contents smo os obj = take (unat (smo_objsize smo) div 8) (contents os obj)"

lemma dmu_reads_upto: "dmu_reads dm contents \<Longrightarrow> dmu_reads dm (contents_upto contents smo)"
  unfolding dmu_reads_def contents_upto_def by (auto simp: take_drop min_def)

section \<open>Loading\<close>

partial_function (option) space_map_load_wait ::
  "(space_map \<Rightarrow> space_map) \<Rightarrow> space_map \<Rightarrow> space_map res option" where
  "space_map_load_wait cv_wait sm =
     (if \<not> sm_lock_held sm then Some (Inl AssertFailed)
      else if sm_loading sm then
        (if sm_loaded sm then Some (Inl AssertFailed) else space_map_load_wait cv_wait (cv_wait sm))
      else Some (Inr sm))"

definition load_entry :: "kernel \<Rightarrow> u8 \<Rightarrow> u64 \<Rightarrow> u64 \<Rightarrow> space_map \<Rightarrow> space_map res" where
  "load_entry k maptype mapstart e sm =
     (if SM_DEBUG_DECODE e \<noteq> 0 then Inr sm
      else (if SM_TYPE_DECODE e = ucast maptype then space_map_add else space_map_remove) k sm
        (push_bit (unat (sm_shift sm)) (SM_OFFSET_DECODE e) + mapstart)
        (push_bit (unat (sm_shift sm)) (SM_RUN_DECODE e)))"

partial_function (option) load_loop ::
  "kernel \<Rightarrow> 'os dmu \<Rightarrow> 'os \<Rightarrow> u64 \<Rightarrow> u8 \<Rightarrow> u64 \<Rightarrow> u64 \<Rightarrow> u64 \<Rightarrow> u64 \<Rightarrow> space_map
    \<Rightarrow> (space_map \<times> int) res option" where
  "load_loop k dm os obj maptype mapstart end' bufsize offset sm =
     (if \<not> offset < end' then Some (Inr (sm, 0))
      else
        (let size' = min (end' - offset) bufsize
         in if P2PHASE size' 8 \<noteq> 0 \<or> size' = 0 then Some (Inl VerifyFailed)
            else
              (case dmu_read dm os obj offset size' of
                 (error, entries) \<Rightarrow>
                   if error \<noteq> 0 then Some (Inr (sm, error))
                   else
                     (case foldM (load_entry k maptype mapstart) (take (unat size' div 8) entries) sm of
                        Inl f \<Rightarrow> Some (Inl f)
                      | Inr sm' \<Rightarrow>
                          load_loop k dm os obj maptype mapstart end' bufsize (offset + bufsize) sm'))))"

definition space_map_load ::
  "kernel \<Rightarrow> (sm_ops_table \<Rightarrow> space_map_ops) \<Rightarrow> 'os dmu \<Rightarrow> space_map \<Rightarrow> sm_ops_table option \<Rightarrow> u8
    \<Rightarrow> space_map_obj \<Rightarrow> 'os \<Rightarrow> (space_map \<times> int) res" where
  "space_map_load k opsf dm sm ops maptype smo os =
     (let mapstart = sm_start sm;
          bufsize = push_bit SPACE_MAP_BLOCKSHIFT 1;
          end' = smo_objsize smo
      in
      ASSERT (sm_lock_held sm) (
      ASSERT (\<not> sm_loaded sm) (
      ASSERT (\<not> sm_loading sm) (
      let sm = sm\<lparr>sm_loading := True\<rparr>
      in
      ASSERT (sm_ops sm = None) (
      VERIFY (sm_space sm = 0) (
      rbind (if maptype = SM_FREE then space_map_add k sm (sm_start sm) (sm_size sm) else Inr sm) (\<lambda>sm.
      let space = (if maptype = SM_FREE then sm_size sm - smo_alloc smo else smo_alloc smo)
      in
      rbind (rbind (of_loop (load_loop k dm os (smo_object smo) maptype mapstart end' bufsize 0 sm)) id)
        (\<lambda>(sm, error).
      rbind
        (if error = 0 then
           VERIFY (sm_space sm = space)
             (let sm = sm\<lparr>sm_loaded := True, sm_ops := ops\<rparr>
              in case ops of None \<Rightarrow> Inr sm | Some t \<Rightarrow> smop_load (opsf t) sm)
         else rbind (space_map_vacate sm None ()) (\<lambda>(sm, _). Inr sm))
        (\<lambda>sm. Inr (sm\<lparr>sm_loading := False\<rparr>, error))))))))))"

definition space_map_unload :: "(sm_ops_table \<Rightarrow> space_map_ops) \<Rightarrow> space_map \<Rightarrow> space_map res" where
  "space_map_unload opsf sm =
     ASSERT (sm_lock_held sm) (
     rbind (case sm_ops sm of Some t \<Rightarrow> if sm_loaded sm then smop_unload (opsf t) sm else Inr sm | None \<Rightarrow> Inr sm)
       (\<lambda>sm.
     let sm = sm\<lparr>sm_loaded := False, sm_ops := None\<rparr>
     in rbind (space_map_vacate sm None ()) (\<lambda>(sm, _). Inr sm)))"

section \<open>Allocation through the picker\<close>

definition space_map_maxsize :: "(sm_ops_table \<Rightarrow> space_map_ops) \<Rightarrow> space_map \<Rightarrow> u64 res" where
  "space_map_maxsize opsf sm =
     ASSERT (sm_ops sm \<noteq> None) (rbind (deref (sm_ops sm)) (\<lambda>t. smop_max (opsf t) sm))"

definition space_map_alloc ::
  "kernel \<Rightarrow> (sm_ops_table \<Rightarrow> space_map_ops) \<Rightarrow> space_map \<Rightarrow> u64 \<Rightarrow> (space_map \<times> u64) res" where
  "space_map_alloc k opsf sm size' =
     rbind (deref (sm_ops sm)) (\<lambda>t.
     rbind (smop_alloc (opsf t) sm size') (\<lambda>(sm, start).
       if start \<noteq> -1 then rbind (space_map_remove k sm start size') (\<lambda>sm. Inr (sm, start))
       else Inr (sm, start)))"

definition space_map_claim ::
  "kernel \<Rightarrow> (sm_ops_table \<Rightarrow> space_map_ops) \<Rightarrow> space_map \<Rightarrow> u64 \<Rightarrow> u64 \<Rightarrow> space_map res" where
  "space_map_claim k opsf sm start size' =
     rbind (deref (sm_ops sm)) (\<lambda>t.
     rbind (smop_claim (opsf t) sm start size') (\<lambda>sm. space_map_remove k sm start size'))"

definition space_map_free ::
  "kernel \<Rightarrow> (sm_ops_table \<Rightarrow> space_map_ops) \<Rightarrow> space_map \<Rightarrow> u64 \<Rightarrow> u64 \<Rightarrow> space_map res" where
  "space_map_free k opsf sm start size' =
     rbind (space_map_add k sm start size') (\<lambda>sm.
     rbind (deref (sm_ops sm)) (\<lambda>t. smop_free (opsf t) sm start size'))"

section \<open>Syncing\<close>

text \<open>The buffer \<open>entry_map\<close> holds at most \<open>cap\<close> entries; a full buffer is written out first.\<close>

record 'os sync_state =
  sy_buf :: "u64 list"
  sy_smo :: space_map_obj
  sy_os :: 'os

definition sync_flush :: "'os dmu \<Rightarrow> 'os sync_state \<Rightarrow> 'os sync_state" where
  "sync_flush dm s =
     s\<lparr>sy_os := dmu_write dm (smo_object (sy_smo s)) (smo_objsize (sy_smo s)) (sy_buf s) (sy_os s),
       sy_smo := (sy_smo s)\<lparr>smo_objsize := smo_objsize (sy_smo s) + of_nat (8 * length (sy_buf s))\<rparr>,
       sy_buf := []\<rparr>"

definition sync_emit :: "'os dmu \<Rightarrow> nat \<Rightarrow> u64 \<Rightarrow> 'os sync_state \<Rightarrow> 'os sync_state" where
  "sync_emit dm cap e s =
     (let s = (if length (sy_buf s) = cap then sync_flush dm s else s)
      in s\<lparr>sy_buf := sy_buf s @ [e]\<rparr>)"

function sync_runs :: "'os dmu \<Rightarrow> nat \<Rightarrow> u8 \<Rightarrow> u64 \<Rightarrow> u64 \<Rightarrow> 'os sync_state \<Rightarrow> 'os sync_state" where
  "sync_runs dm cap maptype start size' s =
     (if size' = 0 then s
      else
        (let run_len = min size' SM_RUN_MAX
         in sync_runs dm cap maptype (start + run_len) (size' - run_len)
              (sync_emit dm cap
                (SM_OFFSET_ENCODE start OR SM_TYPE_ENCODE (ucast maptype) OR SM_RUN_ENCODE run_len) s)))"
  by pat_completeness auto

lemma SM_RUN_MAX_eq: "SM_RUN_MAX = 32768"
  by (simp add: SM_RUN_MAX_def SM_RUN_DECODE_def BF64_DECODE_def P2PHASE_def)

termination sync_runs
proof (relation "measure (\<lambda>(dm, cap, maptype, start, size', s). unat size')")
  fix dm :: "'os dmu" and cap maptype start and size' run_len :: u64 and s
  assume "size' \<noteq> 0" "run_len = min size' SM_RUN_MAX"
  then have "run_len \<le> size'" "run_len \<noteq> 0" by (auto simp: SM_RUN_MAX_eq min_def)
  then have "0 < unat run_len" "unat run_len \<le> unat size'" by (simp_all add: unat_gt_0 word_le_nat_alt)
  then have "unat (size' - run_len) < unat size'" by (simp add: unat_diff_le word_le_nat_alt)
  then show "((dm, cap, maptype, start + run_len, size' - run_len, sync_emit dm cap
        (SM_OFFSET_ENCODE start OR SM_TYPE_ENCODE (ucast maptype) OR SM_RUN_ENCODE run_len) s),
      dm, cap, maptype, start, size', s) \<in> measure (\<lambda>(dm, cap, maptype, start, size', s). unat size')"
    by simp
qed simp

text \<open>The loop over the segments, which are freed as they are written.\<close>

definition sync_seg ::
  "'os dmu \<Rightarrow> nat \<Rightarrow> u8 \<Rightarrow> u64 \<Rightarrow> nat \<Rightarrow> (u64 \<times> 'os sync_state) space_map_func" where
  "sync_seg dm cap maptype sm_start' shift start size' = (\<lambda>(space, s).
     Inr (space - size',
       sync_runs dm cap maptype (drop_bit shift (start - sm_start')) (drop_bit shift size') s))"

definition space_map_sync ::
  "'os dmu \<Rightarrow> u64 \<Rightarrow> u64 \<Rightarrow> space_map \<Rightarrow> u8 \<Rightarrow> space_map_obj \<Rightarrow> 'os
    \<Rightarrow> (space_map \<times> space_map_obj \<times> 'os) res" where
  "space_map_sync dm spa_sync_pass txg sm maptype smo os =
     ASSERT (sm_lock_held sm) (
     if sm_space sm = 0 then Inr (sm, smo, os)
     else
       (let smo = smo\<lparr>smo_alloc := (if maptype = SM_ALLOC then smo_alloc smo + sm_space sm
                                   else smo_alloc smo - sm_space sm)\<rparr>;
            bufsize = (8 + avl_numnodes (sm_root sm)) * 8;
            bufsize = min bufsize (2 ^ SPACE_MAP_BLOCKSHIFT);
            cap = bufsize div 8;
            header = SM_DEBUG_ENCODE 1 OR SM_DEBUG_ACTION_ENCODE (ucast maptype)
              OR SM_DEBUG_SYNCPASS_ENCODE spa_sync_pass OR SM_DEBUG_TXG_ENCODE txg;
            s = \<lparr>sy_buf = [header], sy_smo = smo, sy_os = os\<rparr>
        in
        rbind (rbind (of_loop (vacate_loop (Some (sync_seg dm cap maptype (sm_start sm) (unat (sm_shift sm))))
                 sm CookieNull (sm_space sm, s))) id) (\<lambda>(sm, space, s).
        let s = (if sy_buf s \<noteq> [] then sync_flush dm s else s)
        in VERIFY (space = 0) (Inr (sm\<lparr>sm_space := space\<rparr>, sy_smo s, sy_os s)))))"

definition space_map_truncate :: "'os dmu \<Rightarrow> space_map_obj \<Rightarrow> 'os \<Rightarrow> (space_map_obj \<times> 'os) res" where
  "space_map_truncate dm smo os =
     (case dmu_free_range dm (smo_object smo) os of
        (error, os') \<Rightarrow> VERIFY (error = 0) (Inr (smo\<lparr>smo_objsize := 0, smo_alloc := 0\<rparr>, os')))"

lemmas log_loop_code [code] = space_map_load_wait.simps load_loop.simps
declare sync_runs.simps [simp del]

end
