(* ===== verification/Space_Map_Disk.thy ===== *)
theory Space_Map_Disk
  imports Space_Map_Log
begin

text \<open>
  Correctness of the on-disk log: entries decode to what was encoded, replaying a log gives the set
  it describes, and syncing a map appends entries that add or remove exactly that map.
\<close>

section \<open>Entries\<close>

lemma take_bit_small: "unat x < 2 ^ n \<Longrightarrow> take_bit n x = x" for x :: u64
  by (simp add: word_unat_eq_iff unat_take_bit_64)

lemma sm_entry_decode:
  assumes "unat start < 2 ^ 47" "unat maptype < 2" "0 < unat run" "unat run \<le> 2 ^ 15"
    and "e = (SM_OFFSET_ENCODE start OR SM_TYPE_ENCODE maptype OR SM_RUN_ENCODE run)"
  shows "SM_DEBUG_DECODE e = 0" "SM_OFFSET_DECODE e = start" "SM_TYPE_DECODE e = maptype" "SM_RUN_DECODE e = run"
proof -
  have one: "1 \<le> run" using assms(3) by (simp add: word_le_nat_alt)
  then have "unat (run - 1) < 2 ^ 15" using assms(3,4) by (simp add: unat_diff_le)
  then have run: "take_bit 15 (run - 1) + 1 = run" by (simp add: take_bit_small)
  note fields = SM_OFFSET_ENCODE_def SM_TYPE_ENCODE_def SM_RUN_ENCODE_def BF64_DECODE_or
    BF64_DECODE_ENCODE BF64_DECODE_ENCODE_disjoint
  show "SM_DEBUG_DECODE e = 0" by (simp add: assms(5) SM_DEBUG_DECODE_def fields)
  show "SM_OFFSET_DECODE e = start"
    using assms(1) by (simp add: assms(5) SM_OFFSET_DECODE_def fields take_bit_small)
  show "SM_TYPE_DECODE e = maptype"
    using take_bit_small[of maptype 1] assms(2) by (simp add: assms(5) SM_TYPE_DECODE_def fields)
  show "SM_RUN_DECODE e = run"
    using run by (simp add: assms(5) SM_RUN_DECODE_def fields)
qed

lemma sm_header_decode:
  "SM_DEBUG_DECODE (SM_DEBUG_ENCODE 1 OR SM_DEBUG_ACTION_ENCODE a OR SM_DEBUG_SYNCPASS_ENCODE p OR SM_DEBUG_TXG_ENCODE t) = 1"
  by (simp add: SM_DEBUG_DECODE_def SM_DEBUG_ENCODE_def SM_DEBUG_ACTION_ENCODE_def SM_DEBUG_SYNCPASS_ENCODE_def
      SM_DEBUG_TXG_ENCODE_def BF64_DECODE_or BF64_DECODE_ENCODE BF64_DECODE_ENCODE_disjoint)

section \<open>The meaning of a log\<close>

definition e_start :: "space_map \<Rightarrow> u64 \<Rightarrow> u64" where
  "e_start g e = push_bit (unat (sm_shift g)) (SM_OFFSET_DECODE e) + sm_start g"

definition e_size :: "space_map \<Rightarrow> u64 \<Rightarrow> u64" where
  "e_size g e = push_bit (unat (sm_shift g)) (SM_RUN_DECODE e)"

abbreviation e_set :: "space_map \<Rightarrow> u64 \<Rightarrow> nat set" where
  "e_set g e \<equiv> range_set (e_start g e) (e_size g e)"

definition log_step :: "space_map \<Rightarrow> u8 \<Rightarrow> u64 \<Rightarrow> nat set \<Rightarrow> nat set" where
  "log_step g maptype e S =
     (if SM_DEBUG_DECODE e \<noteq> 0 then S
      else if SM_TYPE_DECODE e = ucast maptype then S \<union> e_set g e else S - e_set g e)"

definition log_fits :: "space_map \<Rightarrow> u8 \<Rightarrow> u64 \<Rightarrow> nat set \<Rightarrow> bool" where
  "log_fits g maptype e S \<longleftrightarrow> SM_DEBUG_DECODE e \<noteq> 0 \<or>
     (sm_range g (e_start g e) (e_size g e)
      \<and> (if SM_TYPE_DECODE e = ucast maptype then S \<inter> e_set g e = {} else e_set g e \<subseteq> S))"

text \<open>The set that a log describes, and that every entry makes sense when it is replayed.\<close>

fun log_set :: "space_map \<Rightarrow> u8 \<Rightarrow> u64 list \<Rightarrow> nat set \<Rightarrow> nat set" where
  "log_set g maptype [] S = S"
| "log_set g maptype (e # es) S = log_set g maptype es (log_step g maptype e S)"

fun log_ok :: "space_map \<Rightarrow> u8 \<Rightarrow> u64 list \<Rightarrow> nat set \<Rightarrow> bool" where
  "log_ok g maptype [] S = True"
| "log_ok g maptype (e # es) S \<longleftrightarrow> log_fits g maptype e S \<and> log_ok g maptype es (log_step g maptype e S)"

lemma log_set_append [simp]: "log_set g mt (xs @ ys) S = log_set g mt ys (log_set g mt xs S)"
  by (induction xs arbitrary: S) auto

lemma log_ok_append [simp]: "log_ok g mt (xs @ ys) S \<longleftrightarrow> log_ok g mt xs S \<and> log_ok g mt ys (log_set g mt xs S)"
  by (induction xs arbitrary: S) auto

section \<open>Replaying\<close>

lemma sm_range_geometry: "sm_geometry g sm \<Longrightarrow> sm_range g s z = sm_range sm s z"
  by (simp add: sm_geometry_def sm_range_def)

lemma load_entry_inv:
  assumes "sm_inv sm" "sm_geometry g sm" "kmem_fresh k" "log_fits g mt e (sm_set sm)"
  shows "\<exists>sm'. load_entry k mt (sm_start g) e sm = Inr sm' \<and> sm_inv sm'
     \<and> sm_set sm' = log_step g mt e (sm_set sm) \<and> sm_same sm sm'"
proof -
  have geo: "sm_start sm = sm_start g" "sm_shift sm = sm_shift g" using assms(2) by (auto simp: sm_geometry_def)
  show ?thesis
  proof (cases "SM_DEBUG_DECODE e = 0")
    case True
    then have rng: "sm_range sm (e_start g e) (e_size g e)"
      using assms(4) sm_range_geometry[OF assms(2)] by (simp add: log_fits_def)
    show ?thesis
    proof (cases "SM_TYPE_DECODE e = ucast mt")
      case add: True
      then show ?thesis
        using space_map_add_inv[OF assms(1,3) rng] assms(4) True geo
        by (auto simp: load_entry_def log_fits_def log_step_def e_start_def e_size_def)
    next
      case remove: False
      then show ?thesis
        using space_map_remove_inv[OF assms(1,3) rng] assms(4) True geo
        by (auto simp: load_entry_def log_fits_def log_step_def e_start_def e_size_def)
    qed
  next
    case False
    then show ?thesis using assms(1) by (simp add: load_entry_def log_step_def)
  qed
qed

lemma foldM_load:
  assumes "sm_inv sm" "sm_geometry g sm" "kmem_fresh k" "log_ok g mt es (sm_set sm)"
  shows "\<exists>sm'. foldM (load_entry k mt (sm_start g)) es sm = Inr sm' \<and> sm_inv sm'
     \<and> sm_set sm' = log_set g mt es (sm_set sm) \<and> sm_same sm sm'"
  using assms
proof (induction es arbitrary: sm)
  case (Cons e es)
  obtain sm1 where sm1: "load_entry k mt (sm_start g) e sm = Inr sm1" "sm_inv sm1"
    "sm_set sm1 = log_step g mt e (sm_set sm)" "sm_same sm sm1"
    using load_entry_inv[OF Cons.prems(1-3), of mt e] Cons.prems(4) by auto
  moreover have "sm_geometry g sm1" using Cons.prems(2) sm1(4) by (auto simp: sm_geometry_def sm_same_def)
  ultimately obtain sm2 where "foldM (load_entry k mt (sm_start g)) es sm1 = Inr sm2" "sm_inv sm2"
     "sm_set sm2 = log_set g mt es (sm_set sm1)" "sm_same sm1 sm2"
    using Cons.IH[of sm1] Cons.prems(3,4) by auto
  then show ?case
    using sm1 sm_same_trans[of sm sm1 sm2] by (intro exI[of _ sm2]) auto
qed simp

lemma foldM_append: "foldM f (xs @ ys) d = rbind (foldM f xs d) (foldM f ys)"
proof (induction xs arbitrary: d)
  case (Cons x xs)
  then show ?case by (cases "f x d") auto
qed simp

lemma load_loop_all:
  assumes dm: "dmu_reads dm contents" and L: "L = contents os obj"
    and end': "unat end' = 8 * length L" "unat end' + 4096 < 2 ^ 64" and off: "unat offset = 8 * n" "n \<le> length L + 512"
    and ok: "foldM (load_entry k mt mapstart) (drop n L) sm = Inr sm'"
  shows "load_loop k dm os obj mt mapstart end' 4096 offset sm = Some (Inr (sm', 0))"
  using off ok
proof (induction "length L - n" arbitrary: n offset sm rule: less_induct)
  case less
  show ?case
  proof (cases "n < length L")
    case False
    then have "\<not> offset < end'" using less.prems(1) end'(1) by (simp add: word_less_nat_alt)
    then show ?thesis using False less.prems(3) by (simp add: load_loop.simps)
  next
    case True
    define m where "m = min (length L - n) 512"
    have lt: "offset < end'" using True less.prems(1) end'(1) by (simp add: word_less_nat_alt)
    then have diff: "unat (end' - offset) = 8 * (length L - n)"
      using less.prems(1) end'(1) by (simp add: unat_diff_le diff_mult_distrib2)
    have sz: "unat (min (end' - offset) 4096) = 8 * m"
      using diff by (auto simp: min_def m_def word_le_nat_alt)
    have m: "0 < m" "n + m \<le> length L" using True by (auto simp: m_def)
    have phase: "P2PHASE (min (end' - offset) 4096) 8 = 0"
      using P2PHASE_zero_iff[of "min (end' - offset) 4096" 3] sz by simp
    have nz: "min (end' - offset) 4096 \<noteq> 0" using sz m(1) by (metis mult_is_0 not_less_zero unat_0 zero_neq_numeral)
    have read: "dmu_read dm os obj offset (min (end' - offset) 4096) = (0, take m (drop n L))"
      using dm less.prems(1) sz m(2) unfolding dmu_reads_def L by blast
    have split: "drop n L = take m (drop n L) @ drop (n + m) L"
      by (metis append_take_drop_id drop_drop add.commute)
    have tail: "drop (n + m) L = drop (n + 512) L" by (auto simp: m_def min_def)
    have "foldM (load_entry k mt mapstart) (take m (drop n L) @ drop (n + 512) L) sm = Inr sm'"
      using less.prems(3) by (simp only: tail[symmetric] split[symmetric])
    then obtain sm1 where sm1: "foldM (load_entry k mt mapstart) (take m (drop n L)) sm = Inr sm1"
      "foldM (load_entry k mt mapstart) (drop (n + 512) L) sm1 = Inr sm'"
      unfolding foldM_append rbind_Inr_iff by blast
    have "unat (offset + 4096) = 8 * (n + 512)"
      using less.prems(1) True end' by (subst unat_add_no_wrap) simp_all
    then have "load_loop k dm os obj mt mapstart end' 4096 (offset + 4096) sm1 = Some (Inr (sm', 0))"
      using less.hyps[of "n + 512" "offset + 4096" sm1] True sm1(2) by simp
    moreover have "take (unat (min (end' - offset) 4096) div 8) (take m (drop n L)) = take m (drop n L)"
      using sz by simp
    ultimately show ?thesis
      using lt phase nz read sm1(1) by (simp add: load_loop.simps[of k dm os obj mt mapstart end' 4096 offset] Let_def)
  qed
qed

section \<open>Loading a map\<close>

lemma seg_at_flags [simp]:
  "seg_at (sm\<lparr>sm_loading := b\<rparr>) = seg_at sm" "seg_at (sm\<lparr>sm_loaded := b\<rparr>) = seg_at sm"
  "seg_at (sm\<lparr>sm_ops := ops\<rparr>) = seg_at sm" "seg_at (sm\<lparr>sm_ppd := p\<rparr>) = seg_at sm"
  "sm_bounds (sm\<lparr>sm_loading := b\<rparr>) = sm_bounds sm" "sm_bounds (sm\<lparr>sm_loaded := b\<rparr>) = sm_bounds sm"
  "sm_bounds (sm\<lparr>sm_ops := ops\<rparr>) = sm_bounds sm" "sm_bounds (sm\<lparr>sm_ppd := p\<rparr>) = sm_bounds sm"
  by (simp_all add: seg_at_def sm_bounds_def fun_eq_iff)

lemma sm_inv_flags [simp]:
  "sm_inv (sm\<lparr>sm_loading := b\<rparr>) = sm_inv sm" "sm_inv (sm\<lparr>sm_loaded := b\<rparr>) = sm_inv sm"
  "sm_inv (sm\<lparr>sm_ops := ops\<rparr>) = sm_inv sm" "sm_inv (sm\<lparr>sm_ppd := p\<rparr>) = sm_inv sm"
  "sm_set (sm\<lparr>sm_loading := b\<rparr>) = sm_set sm" "sm_set (sm\<lparr>sm_loaded := b\<rparr>) = sm_set sm"
  "sm_set (sm\<lparr>sm_ops := ops\<rparr>) = sm_set sm" "sm_set (sm\<lparr>sm_ppd := p\<rparr>) = sm_set sm"
  by (simp_all add: sm_inv_def sm_rep_def sm_pre_def sm_fits_def sm_set_def)

lemma sm_space_card: "sm_inv sm \<Longrightarrow> unat (sm_space sm) = card (sm_set sm)"
  by (auto simp: sm_inv_def sm_rep_def sm_set_rep)

definition load_start :: "space_map \<Rightarrow> u8 \<Rightarrow> nat set" where
  "load_start g maptype = (if maptype = SM_FREE then range_set (sm_start g) (sm_size g) else {})"

text \<open>What a log object must look like for a map of geometry \<open>g\<close>.\<close>

definition smo_ok :: "('os \<Rightarrow> u64 \<Rightarrow> u64 list) \<Rightarrow> space_map \<Rightarrow> u8 \<Rightarrow> space_map_obj \<Rightarrow> 'os \<Rightarrow> bool" where
  "smo_ok contents g maptype smo os \<longleftrightarrow>
     (let L = contents os (smo_object smo); S = log_set g maptype L (load_start g maptype)
      in unat (smo_objsize smo) = 8 * length L \<and> unat (smo_objsize smo) + 4096 < 2 ^ 64
         \<and> log_ok g maptype L (load_start g maptype)
         \<and> unat (smo_alloc smo) = (if maptype = SM_FREE then unat (sm_size g) - card S else card S))"

text \<open>The map before the replay.\<close>

lemma load_begin:
  assumes inv: "sm_inv sm" "sm_set sm = {}" and fresh: "kmem_fresh k"
    and free: "mt = SM_FREE \<Longrightarrow> sm_range sm (sm_start sm) (sm_size sm)"
  defines "sm0 \<equiv> sm\<lparr>sm_loading := True\<rparr>"
  shows "\<exists>sm1. (if mt = SM_FREE then space_map_add k sm0 (sm_start sm0) (sm_size sm0) else Inr sm0) = Inr sm1
      \<and> sm_inv sm1 \<and> sm_set sm1 = load_start sm mt \<and> sm_same sm0 sm1"
proof (cases "mt = SM_FREE")
  case True
  have "sm_range sm0 (sm_start sm0) (sm_size sm0)" using free[OF True] by (simp add: sm_range_def sm0_def)
  from space_map_add_inv[OF _ fresh this] True inv show ?thesis by (auto simp: load_start_def sm0_def)
qed (use inv in \<open>auto simp: load_start_def sm0_def\<close>)

text \<open>The space that the header of the log object tells.\<close>

lemma load_space:
  assumes inv: "sm_inv sm2" "sm_set sm2 = log_set sm mt (contents os (smo_object smo)) (load_start sm mt)" "sm_size sm2 = sm_size sm" and smo: "smo_ok contents sm mt smo os"
  shows "sm_space sm2 = (if mt = SM_FREE then sm_size sm - smo_alloc smo else smo_alloc smo)"
proof -
  let ?S = "log_set sm mt (contents os (smo_object smo)) (load_start sm mt)"
  have L: "unat (smo_alloc smo) = (if mt = SM_FREE then unat (sm_size sm) - card ?S else card ?S)" using smo by (simp add: smo_ok_def Let_def)
  have card: "unat (sm_space sm2) = card ?S" using sm_space_card[OF inv(1)] inv(2) by simp
  show ?thesis
  proof (cases "mt = SM_FREE")
    case True
    have "unat (sm_space sm2) \<le> unat (sm_size sm2)"
      using inv(1) card_mono[OF _ sm_rep_bounds] by (fastforce simp: sm_inv_def sm_rep_def)
    then have le: "card ?S \<le> unat (sm_size sm)" using inv(3) card by simp
    have "smo_alloc smo \<le> sm_size sm" using L True by (simp add: word_le_nat_alt)
    then have "unat (sm_size sm - smo_alloc smo) = unat (sm_space sm2)" using L True le card by (simp add: unat_diff_le)
    then have "sm_size sm - smo_alloc smo = sm_space sm2" by (simp only: word_unat_eq_iff)
    then show ?thesis using True by simp
  qed (use card L in \<open>simp add: word_unat_eq_iff\<close>)
qed

lemma space_map_load_inv:
  assumes inv: "sm_inv sm" "sm_set sm = {}" and flags: "\<not> sm_loaded sm" "\<not> sm_loading sm" "sm_ops sm = None"
    and fresh: "kmem_fresh k" and dm: "dmu_reads dm contents" and smo: "smo_ok contents sm mt smo os"
    and free: "mt = SM_FREE \<Longrightarrow> sm_range sm (sm_start sm) (sm_size sm)"
  shows "\<exists>sm'. sm_inv sm' \<and> sm_set sm' = log_set sm mt (contents os (smo_object smo)) (load_start sm mt)
     \<and> sm_same (sm\<lparr>sm_loading := True\<rparr>) sm'
     \<and> space_map_load k opsf dm sm ops mt smo os
       = rbind (case ops of None \<Rightarrow> Inr (sm'\<lparr>sm_loaded := True, sm_ops := ops\<rparr>)
                | Some t \<Rightarrow> smop_load (opsf t) (sm'\<lparr>sm_loaded := True, sm_ops := ops\<rparr>))
           (\<lambda>sm. Inr (sm\<lparr>sm_loading := False\<rparr>, 0))"
proof -
  let ?L = "contents os (smo_object smo)" and ?S = "load_start sm mt" and ?sm = "sm\<lparr>sm_loading := True\<rparr>"
  have held: "sm_lock_held sm" and space0: "sm_space sm = 0"
    using inv sm_inv_empty_space[OF inv(1)] by (auto simp: sm_inv_def)
  have L: "unat (smo_objsize smo) = 8 * length ?L" "unat (smo_objsize smo) + 4096 < 2 ^ 64" "log_ok sm mt ?L ?S"
    using smo by (simp_all add: smo_ok_def Let_def)
  obtain sm1 where sm1: "(if mt = SM_FREE then space_map_add k ?sm (sm_start ?sm) (sm_size ?sm) else Inr ?sm) = Inr sm1"
    "sm_inv sm1" "sm_set sm1 = ?S" "sm_same ?sm sm1" using load_begin[OF inv fresh free] by blast
  have geo: "sm_geometry sm sm1" using sm1(4) by (simp add: sm_geometry_def sm_same_def)
  obtain sm2 where sm2: "foldM (load_entry k mt (sm_start sm)) ?L sm1 = Inr sm2" "sm_inv sm2"
    "sm_set sm2 = log_set sm mt ?L ?S" "sm_same sm1 sm2"
    using foldM_load[OF sm1(2) geo fresh, of mt ?L] L(3) sm1(3) by auto
  have loop: "load_loop k dm os (smo_object smo) mt (sm_start sm) (smo_objsize smo) 4096 0 sm1 = Some (Inr (sm2, 0))"
    by (rule load_loop_all[OF dm refl L(1,2), of _ 0]) (use sm2(1) in auto)
  have size1: "sm_size sm1 = sm_size sm" "sm_size sm2 = sm_size sm" using sm1(4) sm2(4) by (simp_all add: sm_same_def)
  note space = load_space[OF sm2(2,3) size1(2) smo, folded size1(1)]
  have buf: "push_bit SPACE_MAP_BLOCKSHIFT 1 = (4096 :: u64)" by (simp add: SPACE_MAP_BLOCKSHIFT_def)
  have "space_map_load k opsf dm sm ops mt smo os
       = rbind (case ops of None \<Rightarrow> Inr (sm2\<lparr>sm_loaded := True, sm_ops := ops\<rparr>)
                | Some t \<Rightarrow> smop_load (opsf t) (sm2\<lparr>sm_loaded := True, sm_ops := ops\<rparr>))
           (\<lambda>sm. Inr (sm\<lparr>sm_loading := False\<rparr>, 0))"
    using held flags space0 sm1(1) loop space
    unfolding space_map_load_def Let_def buf by simp
  then show ?thesis using sm2 sm_same_trans[OF sm1(4) sm2(4)] by blast
qed

section \<open>Encoding runs\<close>

function enc_runs :: "u8 \<Rightarrow> u64 \<Rightarrow> u64 \<Rightarrow> u64 list" where
  "enc_runs maptype start size' =
     (if size' = 0 then []
      else
        (let run_len = min size' SM_RUN_MAX
         in (SM_OFFSET_ENCODE start OR SM_TYPE_ENCODE (ucast maptype) OR SM_RUN_ENCODE run_len)
            # enc_runs maptype (start + run_len) (size' - run_len)))"
  by pat_completeness auto

lemma run_len_less:
  assumes "size' \<noteq> 0"
  shows "0 < unat (min size' SM_RUN_MAX)" "unat (min size' SM_RUN_MAX) \<le> unat size'"
    "unat (min size' SM_RUN_MAX) \<le> 2 ^ 15"
    "unat (size' - min size' SM_RUN_MAX) = unat size' - unat (min size' SM_RUN_MAX)"
  using assms by (auto simp: SM_RUN_MAX_eq min_def word_le_nat_alt unat_gt_0 unat_diff_le)

termination enc_runs
  by (relation "measure (\<lambda>(maptype, start, size'). unat size')") (use run_len_less in fastforce)+

declare enc_runs.simps [simp del]

lemma sync_runs_fold: "sync_runs dm cap mt start size' s = fold (sync_emit dm cap) (enc_runs mt start size') s"
proof (induction dm cap mt start size' s rule: sync_runs.induct)
  case (1 dm cap mt start size' s)
  then show ?case
    by (subst sync_runs.simps, subst enc_runs.simps) (simp add: Let_def)
qed

definition unit_set :: "space_map \<Rightarrow> nat \<Rightarrow> nat \<Rightarrow> nat set" where
  "unit_set g u l = {unat (sm_start g) + u * 2 ^ unat (sm_shift g) ..<
     unat (sm_start g) + (u + l) * 2 ^ unat (sm_shift g)}"

lemma unit_set_split: "r \<le> l \<Longrightarrow> unit_set g u l = unit_set g u r \<union> unit_set g (u + r) (l - r)"
  "unit_set g u r \<inter> unit_set g (u + r) l = {}"
  by (auto simp: unit_set_def ivl_disj_un add_mult_distrib)

lemma unat_ucast_8_64: "unat (ucast x :: u64) = unat x" for x :: u8
proof -
  have "unat x < 2 ^ LENGTH(8)" by (rule unsigned_less)
  then have "unat x mod 2 ^ 64 = unat x" by simp
  moreover have "unat (ucast x :: u64) = take_bit LENGTH(64) (unat x)" by (rule unsigned_ucast_eq)
  ultimately show ?thesis by (simp add: take_bit_eq_mod)
qed

lemma ucast_8_64_eq: "(ucast x :: u64) = ucast y \<longleftrightarrow> x = y" for x y :: u8
  by (metis unat_ucast_8_64 word_unat_eq_iff)

text \<open>A geometry whose units the entries can express.\<close>

definition log_geometry :: "space_map \<Rightarrow> bool" where
  "log_geometry g \<longleftrightarrow> sm_fits g \<and> 2 ^ unat (sm_shift g) dvd unat (sm_start g)
     \<and> unat (sm_size g) \<le> 2 ^ 47 * 2 ^ unat (sm_shift g)"

lemma enc_entry:
  fixes mt :: u8
  assumes g: "log_geometry g" and fit: "(unat start + unat run) * 2 ^ unat (sm_shift g) \<le> unat (sm_size g)"
    and run: "0 < unat run" "unat run \<le> 2 ^ 15" and mt: "unat mt < 2"
    and e: "e = (SM_OFFSET_ENCODE start OR SM_TYPE_ENCODE (ucast mt) OR SM_RUN_ENCODE run)"
  shows "SM_DEBUG_DECODE e = 0" "SM_TYPE_DECODE e = ucast mt" "sm_range g (e_start g e) (e_size g e)"
    "e_set g e = unit_set g (unat start) (unat run)"
proof -
  let ?K = "2 ^ unat (sm_shift g) :: nat"
  have "unat (sm_size g) \<le> 2 ^ 47 * ?K" using g by (simp add: log_geometry_def)
  with fit have "(unat start + unat run) * ?K \<le> 2 ^ 47 * ?K" by (rule order_trans)
  then have "unat start + unat run \<le> 2 ^ 47" by (simp only: mult_le_cancel2) simp
  then have "unat start < 2 ^ 47" using run(1) by linarith
  moreover have "unat (ucast mt :: u64) < 2" using mt by (simp add: unat_ucast_8_64)
  ultimately have dec: "SM_DEBUG_DECODE e = 0" "SM_OFFSET_DECODE e = start" "SM_TYPE_DECODE e = ucast mt" "SM_RUN_DECODE e = run"
    using sm_entry_decode[OF _ _ run e] by auto
  have fits: "unat (sm_start g) + unat (sm_size g) < 2 ^ 64" using g by (simp add: log_geometry_def sm_fits_def)
  have prod: "unat start * ?K + unat run * ?K \<le> unat (sm_size g)" using fit by (simp add: add_mult_distrib)
  have s: "unat (push_bit (unat (sm_shift g)) start) = unat start * ?K"
    using prod fits by (intro unat_push_bit_64) linarith
  have z: "unat (e_size g e) = unat run * ?K"
    unfolding e_size_def dec using prod fits by (intro unat_push_bit_64) linarith
  have st: "unat (e_start g e) = unat start * ?K + unat (sm_start g)"
    unfolding e_start_def dec using s prod fits by (subst unat_add_no_wrap) linarith+
  have nz: "e_size g e \<noteq> 0" using z run(1) by (metis mult_is_0 not_less_zero power_not_zero unat_0 zero_neq_numeral)
  show "SM_DEBUG_DECODE e = 0" "SM_TYPE_DECODE e = ucast mt" by (rule dec)+
  show "sm_range g (e_start g e) (e_size g e)"
    using g nz prod by (auto simp: sm_range_def st z log_geometry_def)
  show "e_set g e = unit_set g (unat start) (unat run)"
    unfolding st z unit_set_def by (simp add: add_mult_distrib add_ac)
qed

lemma enc_runs_log:
  assumes g: "log_geometry g" and fit: "(unat start + unat size') * 2 ^ unat (sm_shift g) \<le> unat (sm_size g)"
    and mt: "unat t < 2" and S: "if t = mt then S \<inter> unit_set g (unat start) (unat size') = {}
            else unit_set g (unat start) (unat size') \<subseteq> S"
  shows "log_ok g mt (enc_runs t start size') S
    \<and> log_set g mt (enc_runs t start size') S = (if t = mt then S \<union> unit_set g (unat start) (unat size')
         else S - unit_set g (unat start) (unat size'))
    \<and> length (enc_runs t start size') \<le> unat size'"
  using fit mt S
proof (induction t start size' arbitrary: S rule: enc_runs.induct)
  case (1 t start size')
  show ?case
  proof (cases "size' = 0")
    case True
    then show ?thesis by (simp add: enc_runs.simps[of t start 0] unit_set_def)
  next
    case False
    define r where "r = min size' SM_RUN_MAX"
    define e where "e = (SM_OFFSET_ENCODE start OR SM_TYPE_ENCODE (ucast t) OR SM_RUN_ENCODE r)"
    have r: "0 < unat r" "unat r \<le> unat size'" "unat r \<le> 2 ^ 15" "unat (size' - r) = unat size' - unat r"
      using run_len_less[OF False] by (simp_all add: r_def)
    let ?K = "2 ^ unat (sm_shift g) :: nat"
    let ?U = "unit_set g (unat start) (unat r)" and ?V = "unit_set g (unat start + unat r) (unat size' - unat r)"
    have "(unat start + unat r) * ?K \<le> (unat start + unat size') * ?K" using r(2) by simp
    then have fit1: "(unat start + unat r) * ?K \<le> unat (sm_size g)" using 1(2) by (rule order_trans)
    have "unat start + unat r \<le> (unat start + unat r) * ?K" by simp
    then have nw: "unat (start + r) = unat start + unat r"
      using fit1 unat_less_64[of "sm_size g"] by (intro unat_add_no_wrap) linarith
    note ent = enc_entry[OF g fit1 r(1,3) 1(3) e_def]
    have UV: "unit_set g (unat start) (unat size') = ?U \<union> ?V" "?U \<inter> ?V = {}"
      using unit_set_split(1)[OF r(2)] unit_set_split(2) by auto
    have S': "if t = mt then (S \<union> ?U) \<inter> ?V = {} else ?V \<subseteq> S - ?U"
      using 1(4) UV by (auto split: if_splits)
    have step: "log_step g mt e S = (if t = mt then S \<union> ?U else S - ?U)"
      unfolding log_step_def ent(1,2,4) ucast_8_64_eq by simp
    have fits: "log_fits g mt e S"
      using 1(4) UV(1) ent(3) unfolding log_fits_def ent(1,2,4) ucast_8_64_eq by (auto split: if_splits)
    let ?S = "if t = mt then S \<union> ?U else S - ?U"
    have fit2: "(unat (start + r) + unat (size' - r)) * ?K \<le> unat (sm_size g)"
      using 1(2) r(2,4) nw by simp
    have S2: "if t = mt then ?S \<inter> unit_set g (unat (start + r)) (unat (size' - r)) = {}
        else unit_set g (unat (start + r)) (unat (size' - r)) \<subseteq> ?S"
      using S' unfolding nw r(4) by auto
    have IH: "log_ok g mt (enc_runs t (start + r) (size' - r)) ?S"
      "log_set g mt (enc_runs t (start + r) (size' - r)) ?S = (if t = mt then ?S \<union> ?V else ?S - ?V)"
      "length (enc_runs t (start + r) (size' - r)) \<le> unat size' - unat r"
      using 1(1)[OF False r_def fit2 1(3) S2] unfolding nw r(4) by auto
    have enc: "enc_runs t start size' = e # enc_runs t (start + r) (size' - r)"
      using False by (subst enc_runs.simps) (simp add: Let_def r_def e_def)
    show ?thesis
      unfolding enc using fits IH r(1,2) UV by (auto simp: step)
  qed
qed

section \<open>Only the geometry matters\<close>

lemma log_step_geometry: "sm_geometry g h \<Longrightarrow> log_step g mt e S = log_step h mt e S"
  by (simp add: sm_geometry_def log_step_def e_start_def e_size_def)

lemma log_fits_geometry: "sm_geometry g h \<Longrightarrow> log_fits g mt e S = log_fits h mt e S"
  by (simp add: sm_geometry_def log_fits_def e_start_def e_size_def sm_range_def)

lemma log_geometry_cong:
  assumes "sm_geometry g h"
  shows "log_set g mt es S = log_set h mt es S" "log_ok g mt es S = log_ok h mt es S"
  by (induction es arbitrary: S) (simp_all add: log_step_geometry[OF assms] log_fits_geometry[OF assms])

lemma load_start_geometry: "sm_geometry g h \<Longrightarrow> load_start g mt = load_start h mt"
  by (simp add: sm_geometry_def load_start_def)

lemma smo_ok_geometry:
  assumes "sm_geometry g h"
  shows "smo_ok contents g mt smo os = smo_ok contents h mt smo os"
proof -
  have "sm_size g = sm_size h" using assms by (simp add: sm_geometry_def)
  then show ?thesis
    unfolding smo_ok_def Let_def log_geometry_cong[OF assms] load_start_geometry[OF assms] by simp
qed

lemma log_geometry_same: "sm_geometry g h \<Longrightarrow> log_geometry g = log_geometry h"
  by (simp add: log_geometry_def sm_fits_def sm_geometry_def)

end
