(* ===== verification/Space_Map_Sync.thy ===== *)
theory Space_Map_Sync
  imports Space_Map_Disk
begin

text \<open>
  \<open>space_map_sync\<close> appends the map to its log and empties it; what \<open>space_map_load\<close> builds from the
  longer log is the old set with the synced map added or removed.
\<close>

section \<open>The entries of a map\<close>

definition seg_entries :: "space_map \<Rightarrow> u8 \<Rightarrow> space_seg \<Rightarrow> u64 list" where
  "seg_entries g t s = enc_runs t (drop_bit (unat (sm_shift g)) (ss_start s - sm_start g))
     (drop_bit (unat (sm_shift g)) (ss_end s - ss_start s))"

lemma seg_units:
  assumes pre: "sm_pre sm xs A" "a \<in> set xs" and g: "log_geometry sm"
  defines "u \<equiv> drop_bit (unat (sm_shift sm)) (ss_start (seg_at sm a) - sm_start sm)"
    and "l \<equiv> drop_bit (unat (sm_shift sm)) (ss_end (seg_at sm a) - ss_start (seg_at sm a))"
  shows "unit_set sm (unat u) (unat l) = seg_set (seg_at sm a)"
    and "(unat u + unat l) * 2 ^ unat (sm_shift sm) \<le> unat (sm_size sm)"
    and "unat l \<le> hi (seg_at sm a) - lo (seg_at sm a)"
proof -
  let ?s = "seg_at sm a" and ?K = "2 ^ unat (sm_shift sm) :: nat"
  have s: "lo ?s < hi ?s" "unat (sm_start sm) \<le> lo ?s" "hi ?s \<le> unat (sm_start sm) + unat (sm_size sm)"
    "?K dvd lo ?s" "?K dvd hi ?s"
    using pre seg_listD by (auto simp: sm_pre_def sm_bounds_def)
  have st: "?K dvd unat (sm_start sm)" using g by (simp add: log_geometry_def)
  have "?K dvd lo ?s - unat (sm_start sm)" "?K dvd hi ?s - lo ?s" using s st by (auto intro: dvd_diff_nat)
  moreover have "unat u = (lo ?s - unat (sm_start sm)) div ?K" "unat l = (hi ?s - lo ?s) div ?K"
    using s by (simp_all add: u_def l_def unat_drop_bit_64 unat_diff_le word_le_nat_alt)
  ultimately have u: "unat u * ?K = lo ?s - unat (sm_start sm)" "unat l * ?K = hi ?s - lo ?s" by simp_all
  show "unit_set sm (unat u) (unat l) = seg_set ?s"
    unfolding unit_set_def add_mult_distrib u using s by simp
  show "(unat u + unat l) * ?K \<le> unat (sm_size sm)" unfolding add_mult_distrib u using s by linarith
  have "unat l \<le> unat l * ?K" by simp
  then show "unat l \<le> hi ?s - lo ?s" using u(2) by simp
qed

lemma log_segs:
  assumes pre: "sm_pre sm xs A" and g: "log_geometry sm" and t: "unat t < 2"
    and ps: "distinct ps" "set ps \<subseteq> set xs"
    and S: "if t = mt then S \<inter> segs_set (seg_at sm) (set ps) = {} else segs_set (seg_at sm) (set ps) \<subseteq> S"
  shows "log_ok sm mt (concat (map (\<lambda>a. seg_entries sm t (seg_at sm a)) ps)) S
    \<and> log_set sm mt (concat (map (\<lambda>a. seg_entries sm t (seg_at sm a)) ps)) S
       = (if t = mt then S \<union> segs_set (seg_at sm) (set ps) else S - segs_set (seg_at sm) (set ps))
    \<and> length (concat (map (\<lambda>a. seg_entries sm t (seg_at sm a)) ps)) \<le> card (segs_set (seg_at sm) (set ps))
    \<and> card (segs_set (seg_at sm) (set ps)) = (\<Sum>a\<leftarrow>ps. hi (seg_at sm a) - lo (seg_at sm a))"
  using ps S
proof (induction ps arbitrary: S)
  case (Cons a ps)
  let ?A = "seg_set (seg_at sm a)" and ?B = "segs_set (seg_at sm) (set ps)"
  have a: "a \<in> set xs" using Cons.prems(2) by simp
  have disj: "?B \<inter> ?A = {}" using segs_apart[OF pre a, of "set ps"] Cons.prems(1,2) by simp
  note units = seg_units[OF pre a g]
  have SA: "if t = mt then S \<inter> ?A = {} else ?A \<subseteq> S" using Cons.prems(3) by (auto split: if_splits)
  have head: "log_ok sm mt (seg_entries sm t (seg_at sm a)) S"
    "log_set sm mt (seg_entries sm t (seg_at sm a)) S = (if t = mt then S \<union> ?A else S - ?A)"
    "length (seg_entries sm t (seg_at sm a)) \<le> hi (seg_at sm a) - lo (seg_at sm a)"
    using enc_runs_log[OF g units(2) t SA[folded units(1)]] units(3)
    unfolding seg_entries_def units(1) by auto
  let ?S = "if t = mt then S \<union> ?A else S - ?A"
  have "if t = mt then ?S \<inter> ?B = {} else ?B \<subseteq> ?S"
    using Cons.prems(3) disj unfolding list.set segs_set_simps by (auto split: if_splits)
  moreover have "distinct ps" "set ps \<subseteq> set xs" using Cons.prems(1,2) by auto
  ultimately have tail: "log_ok sm mt (concat (map (\<lambda>a. seg_entries sm t (seg_at sm a)) ps)) ?S"
    "log_set sm mt (concat (map (\<lambda>a. seg_entries sm t (seg_at sm a)) ps)) ?S = (if t = mt then ?S \<union> ?B else ?S - ?B)"
    "length (concat (map (\<lambda>a. seg_entries sm t (seg_at sm a)) ps)) \<le> card ?B"
    "card ?B = (\<Sum>a\<leftarrow>ps. hi (seg_at sm a) - lo (seg_at sm a))"
    using Cons.IH[of ?S] by blast+
  have card: "card (?A \<union> ?B) = (hi (seg_at sm a) - lo (seg_at sm a)) + card ?B"
    using card_Un_disjoint[of ?A ?B] disj by (simp add: Int_commute)
  show ?case
    unfolding list.map concat.simps log_ok_append log_set_append list.set segs_set_simps length_append head(2) card
    using head(1,3) tail by auto
qed simp

section \<open>Writing the entries\<close>

definition sy_inv :: "('os \<Rightarrow> u64 \<Rightarrow> u64 list) \<Rightarrow> 'os sync_state \<Rightarrow> u64 list \<Rightarrow> bool" where
  "sy_inv contents s L \<longleftrightarrow> contents (sy_os s) (smo_object (sy_smo s)) @ sy_buf s = L
     \<and> unat (smo_objsize (sy_smo s)) = 8 * length (contents (sy_os s) (smo_object (sy_smo s)))"

lemma unat_of_nat_64: "n < 2 ^ 64 \<Longrightarrow> unat (of_nat n :: u64) = n"
  by (simp add: unsigned_of_nat take_bit_eq_mod)

lemma sync_flush_inv:
  assumes "sy_inv contents s L" "dmu_appends dm contents" "8 * length L < 2 ^ 64"
  shows "sy_inv contents (sync_flush dm s) L" "sy_buf (sync_flush dm s) = []"
    "sy_smo (sync_flush dm s) = (sy_smo s)\<lparr>smo_objsize := of_nat (8 * length L)\<rparr>"
proof -
  let ?C = "contents (sy_os s) (smo_object (sy_smo s))" and ?off = "smo_objsize (sy_smo s)"
  have C: "?C @ sy_buf s = L" "unat ?off = 8 * length ?C" using assms(1) by (auto simp: sy_inv_def)
  have w: "contents (dmu_write dm (smo_object (sy_smo s)) ?off (sy_buf s) (sy_os s)) (smo_object (sy_smo s)) = L"
    using assms(2) C unfolding dmu_appends_def by metis
  have len: "8 * length ?C + 8 * length (sy_buf s) = 8 * length L" using C(1) by (metis distrib_left length_append)
  have off: "?off + of_nat (8 * length (sy_buf s)) = of_nat (8 * length L)"
    unfolding len[symmetric] of_nat_add C(2)[symmetric] by simp
  show "sy_inv contents (sync_flush dm s) L"
    using w off unat_of_nat_64[OF assms(3)] by (simp add: sync_flush_def sy_inv_def)
  show "sy_buf (sync_flush dm s) = []" by (simp add: sync_flush_def)
  show "sy_smo (sync_flush dm s) = (sy_smo s)\<lparr>smo_objsize := of_nat (8 * length L)\<rparr>"
    using off by (simp add: sync_flush_def)
qed

lemma sync_emit_inv:
  assumes "sy_inv contents s L" "dmu_appends dm contents" "8 * length L < 2 ^ 64"
  shows "sy_inv contents (sync_emit dm cap e s) (L @ [e])" "sy_buf (sync_emit dm cap e s) \<noteq> []"
    "smo_alloc (sy_smo (sync_emit dm cap e s)) = smo_alloc (sy_smo s)"
    "smo_object (sy_smo (sync_emit dm cap e s)) = smo_object (sy_smo s)"
  using assms sync_flush_inv[OF assms] by (auto simp: sync_emit_def Let_def sy_inv_def)

lemma sync_emits_inv:
  assumes "sy_inv contents s L" "dmu_appends dm contents" "8 * (length L + length es) < 2 ^ 64" "sy_buf s \<noteq> []"
  shows "sy_inv contents (fold (sync_emit dm cap) es s) (L @ es) \<and> sy_buf (fold (sync_emit dm cap) es s) \<noteq> []
    \<and> smo_alloc (sy_smo (fold (sync_emit dm cap) es s)) = smo_alloc (sy_smo s)
    \<and> smo_object (sy_smo (fold (sync_emit dm cap) es s)) = smo_object (sy_smo s)"
  using assms
proof (induction es arbitrary: s L)
  case (Cons e es)
  have "8 * length L < 2 ^ 64" using Cons.prems(3) by simp
  note emit = sync_emit_inv[OF Cons.prems(1,2) this, of cap e]
  show ?case using Cons.IH[OF emit(1) Cons.prems(2) _ emit(2)] Cons.prems(3) emit(3,4) by simp
qed simp

lemma sync_fold:
  "foldM (\<lambda>a. call_func (Some (sync_seg dm cap t (sm_start g) (unat (sm_shift g)))) (h a)) ps (sp, s)
   = Inr (sp - (\<Sum>a\<leftarrow>ps. ss_end (h a) - ss_start (h a)),
       fold (sync_emit dm cap) (concat (map (\<lambda>a. seg_entries g t (h a)) ps)) s)"
proof (induction ps arbitrary: sp s)
  case (Cons a ps)
  then show ?case
    by (simp add: call_func_def sync_seg_def sync_runs_fold seg_entries_def diff_diff_eq)
qed simp

section \<open>The whole sync\<close>

lemma log_set_range:
  assumes "log_ok g mt es S" "S \<subseteq> range_set (sm_start g) (sm_size g)" "sm_fits g"
  shows "log_set g mt es S \<subseteq> range_set (sm_start g) (sm_size g)"
  using assms
proof (induction es arbitrary: S)
  case (Cons e es)
  have "e_set g e \<subseteq> range_set (sm_start g) (sm_size g)" if "sm_range g (e_start g e) (e_size g e)"
    using that by (auto simp: sm_range_def)
  then have "log_step g mt e S \<subseteq> range_set (sm_start g) (sm_size g)"
    using Cons.prems unfolding log_step_def log_ok.simps log_fits_def by (auto split: if_splits)
  with Cons show ?case by simp
qed simp

lemma of_nat_unat: "of_nat (unat (x :: u64)) = x"
  by simp

lemma sum_words:
  fixes f :: "'a \<Rightarrow> nat"
  shows "(\<And>x. x \<in> set xs \<Longrightarrow> unat (w x :: u64) = f x) \<Longrightarrow> of_nat (\<Sum>x\<leftarrow>xs. f x) = (\<Sum>x\<leftarrow>xs. w x)"
proof (induction xs)
  case (Cons a xs)
  from Cons.prems[of a] have "of_nat (f a) = w a" by (metis list.set_intros(1) of_nat_unat)
  with Cons show ?case by simp
qed simp

lemma sm_set_range:
  assumes "sm_inv sm"
  shows "sm_set sm \<subseteq> range_set (sm_start sm) (sm_size sm)"
proof -
  obtain xs where "sm_rep sm xs" "sm_pre sm xs (set xs)" using assms by (auto simp: sm_inv_def sm_rep_def)
  then show ?thesis using sm_rep_bounds sm_set_rep by metis
qed

text \<open>The object set after some writes to the object \<open>obj\<close>.\<close>

definition written :: "'os dmu \<Rightarrow> u64 \<Rightarrow> 'os \<Rightarrow> 'os \<Rightarrow> bool" where
  "written dm obj os os' \<longleftrightarrow> (\<exists>ws. os' = fold (\<lambda>(off, w). dmu_write dm obj off w) ws os)"

lemma written_refl [simp]: "written dm obj os os"
  unfolding written_def by (intro exI[of _ "[]"]) simp

lemma written_trans: "written dm obj os os' \<Longrightarrow> written dm obj os' os'' \<Longrightarrow> written dm obj os os''"
  unfolding written_def by (metis comp_apply fold_append)

lemma written_write: "written dm obj os (dmu_write dm obj off ws os)"
  unfolding written_def by (intro exI[of _ "[(off, ws)]"]) simp

lemma written_keeps:
  assumes "written dm obj os os'" "\<And>os off ws. g (dmu_write dm obj off ws os) = g os"
  shows "g os' = g os"
proof -
  have "g (fold (\<lambda>(off, w). dmu_write dm obj off w) ws os) = g os" for ws
    by (induction ws arbitrary: os) (auto simp: assms(2))
  then show ?thesis using assms(1) by (auto simp: written_def)
qed

lemma sync_flush_written:
  "written dm (smo_object (sy_smo s)) (sy_os s) (sy_os (sync_flush dm s))" "smo_object (sy_smo (sync_flush dm s)) = smo_object (sy_smo s)"
  by (simp_all add: sync_flush_def Let_def written_write)

lemma sync_emit_written:
  "written dm (smo_object (sy_smo s)) (sy_os s) (sy_os (sync_emit dm cap e s))
    \<and> smo_object (sy_smo (sync_emit dm cap e s)) = smo_object (sy_smo s)"
  using sync_flush_written by (auto simp: sync_emit_def Let_def)

lemma sync_emits_written:
  "written dm (smo_object (sy_smo s)) (sy_os s) (sy_os (fold (sync_emit dm cap) es s))
    \<and> smo_object (sy_smo (fold (sync_emit dm cap) es s)) = smo_object (sy_smo s)"
proof (induction es arbitrary: s)
  case (Cons e es)
  show ?case using sync_emit_written[of dm s cap e] Cons[of "sync_emit dm cap e s"] by (auto intro: written_trans)
qed simp

text \<open>The log of a map type, and the log after a sync of the map \<open>sm\<close>.\<close>

abbreviation logged :: "('os \<Rightarrow> u64 \<Rightarrow> u64 list) \<Rightarrow> space_map \<Rightarrow> u8 \<Rightarrow> space_map_obj \<Rightarrow> 'os \<Rightarrow> nat set" where
  "logged contents g mt smo os \<equiv> log_set g mt (contents os (smo_object smo)) (load_start g mt)"

lemma space_map_sync_writes:
  assumes inv: "sm_inv sm" "sm_pp_root sm = None" "sm_set sm \<noteq> {}" and g: "log_geometry sm" and t: "unat t < 2"
    and dm: "dmu_appends dm contents"
    and C: "unat (smo_objsize smo) = 8 * length (contents os (smo_object smo))"
    and room: "8 * (length (contents os (smo_object smo)) + card (sm_set sm) + 1) < 2 ^ 64"
    and S: "if t = mt then S \<inter> sm_set sm = {} else sm_set sm \<subseteq> S"
  obtains es sm' smo' os' where
    "space_map_sync dm pass txg sm t smo os = Inr (sm', smo', os')" "sm_inv sm'" "sm_set sm' = {}" "sm_same sm sm'"
    "smo_object smo' = smo_object smo"
    "smo_alloc smo' = (if t = SM_ALLOC then smo_alloc smo + sm_space sm else smo_alloc smo - sm_space sm)"
    "contents os' (smo_object smo) = contents os (smo_object smo) @ es"
    "unat (smo_objsize smo') = 8 * length (contents os' (smo_object smo))"
    "log_ok sm mt es S" "log_set sm mt es S = (if t = mt then S \<union> sm_set sm else S - sm_set sm)"
    "length es \<le> card (sm_set sm) + 1" "written dm (smo_object smo) os os'"
proof -
  obtain xs where fits: "sm_fits sm" "sm_lock_held sm" and rep: "sm_pre sm xs (set xs)"
    using inv(1) by (auto simp: sm_inv_def sm_rep_def)
  define hdr where "hdr = (SM_DEBUG_ENCODE 1 OR SM_DEBUG_ACTION_ENCODE (ucast t)
    OR SM_DEBUG_SYNCPASS_ENCODE pass OR SM_DEBUG_TXG_ENCODE txg)"
  define smo1 where "smo1 = smo\<lparr>smo_alloc := (if t = SM_ALLOC then smo_alloc smo + sm_space sm
    else smo_alloc smo - sm_space sm)\<rparr>"
  define cap where "cap = min ((8 + avl_numnodes (sm_root sm)) * 8) (2 ^ SPACE_MAP_BLOCKSHIFT) div 8"
  define s0 where "s0 = \<lparr>sy_buf = [hdr], sy_smo = smo1, sy_os = os\<rparr>"
  let ?f = "Some (sync_seg dm cap t (sm_start sm) (unat (sm_shift sm)))"
  obtain ps sm' where v: "distinct ps" "set ps = dom (sm_segs sm)" "sm_inv sm'" "sm_set sm' = {}" "sm_same sm sm'"
    "space_map_vacate sm ?f (sm_space sm, s0)
       = rbind (foldM (\<lambda>a. call_func ?f (seg_at sm a)) ps (sm_space sm, s0)) (\<lambda>d'. Inr (sm', d'))"
    using inv(1,2) by (rule space_map_vacate_fold)
  have ps: "set ps = set xs" using v(2) rep by (simp add: sm_pre_def)
  define es where "es = concat (map (\<lambda>a. seg_entries sm t (seg_at sm a)) ps)"
  have segs: "segs_set (seg_at sm) (set ps) = sm_set sm" using sm_set_rep[OF rep] ps by simp
  have log: "log_ok sm mt es S" "log_set sm mt es S = (if t = mt then S \<union> sm_set sm else S - sm_set sm)"
    "length es \<le> card (sm_set sm)" "card (sm_set sm) = (\<Sum>a\<leftarrow>ps. hi (seg_at sm a) - lo (seg_at sm a))"
    using log_segs[OF rep g t v(1) _ S[folded segs]] ps unfolding segs es_def by blast+
  have "of_nat (\<Sum>a\<leftarrow>ps. hi (seg_at sm a) - lo (seg_at sm a)) = (\<Sum>a\<leftarrow>ps. ss_end (seg_at sm a) - ss_start (seg_at sm a))"
  proof (rule sum_words)
    fix a assume "a \<in> set ps"
    then have "lo (seg_at sm a) < hi (seg_at sm a)" using rep ps seg_listD by (auto simp: sm_pre_def)
    then show "unat (ss_end (seg_at sm a) - ss_start (seg_at sm a)) = hi (seg_at sm a) - lo (seg_at sm a)"
      by (simp add: unat_diff_le word_le_nat_alt)
  qed
  then have space: "(\<Sum>a\<leftarrow>ps. ss_end (seg_at sm a) - ss_start (seg_at sm a)) = sm_space sm"
    using log(4) sm_space_card[OF inv(1)] by (metis of_nat_unat)
  define s1 where "s1 = fold (sync_emit dm cap) es s0"
  have fold: "foldM (\<lambda>a. call_func ?f (seg_at sm a)) ps (sm_space sm, s0) = Inr (0, s1)"
    unfolding sync_fold s1_def es_def space by simp
  let ?C = "contents os (smo_object smo)"
  have "sy_inv contents s0 (?C @ [hdr])" using C by (simp add: sy_inv_def s0_def smo1_def)
  moreover have "8 * (length (?C @ [hdr]) + length es) < 2 ^ 64" using room log(3) by simp
  ultimately have s1: "sy_inv contents s1 ((?C @ [hdr]) @ es)" "sy_buf s1 \<noteq> []"
    "smo_alloc (sy_smo s1) = smo_alloc smo1" "smo_object (sy_smo s1) = smo_object smo"
    using sync_emits_inv[of contents s0 "?C @ [hdr]" dm es cap] dm
    unfolding s1_def by (auto simp: s0_def smo1_def)
  have "8 * length ((?C @ [hdr]) @ es) < 2 ^ 64" using room log(3) by simp
  note flush = sync_flush_inv[OF s1(1) dm this]
  have nz: "sm_space sm \<noteq> 0"
    using inv(3) sm_inv_empty_space[OF inv(1)] by simp
  have "space_map_vacate sm ?f (sm_space sm, s0) = Inr (sm', 0, s1)" using v(6) fold by simp
  then obtain smX where loop: "rbind (of_loop (vacate_loop ?f sm CookieNull (sm_space sm, s0))) id = Inr (smX, 0, s1)"
    and smX: "sm' = smX\<lparr>sm_space := 0\<rparr>"
    using fits(2) by (cases "rbind (of_loop (vacate_loop ?f sm CookieNull (sm_space sm, s0))) id")
      (auto simp: space_map_vacate_def)
  have "space_map_sync dm pass txg sm t smo os = Inr (sm', sy_smo (sync_flush dm s1), sy_os (sync_flush dm s1))"
    unfolding space_map_sync_def Let_def smo1_def[symmetric] hdr_def[symmetric] cap_def[symmetric] s0_def[symmetric] loop
    using fits(2) nz smX s1(2) by simp
  moreover have "contents (sy_os (sync_flush dm s1)) (smo_object smo) = ?C @ hdr # es"
    using flush s1(4) by (simp add: sy_inv_def)
  moreover have "unat (smo_objsize (sy_smo (sync_flush dm s1))) = 8 * length (?C @ hdr # es)"
    using flush s1(4) by (simp add: sy_inv_def)
  moreover have "SM_DEBUG_DECODE hdr \<noteq> 0" by (simp add: hdr_def sm_header_decode)
  then have "log_ok sm mt (hdr # es) S" "log_set sm mt (hdr # es) S = (if t = mt then S \<union> sm_set sm else S - sm_set sm)"
    using log(1,2) by (simp_all add: log_fits_def log_step_def)
  moreover have "written dm (smo_object smo) os (sy_os (sync_flush dm s1))"
    using sync_emits_written[of dm s0 cap es] sync_flush_written(1)[of dm s1]
    unfolding s1_def by (auto simp: s0_def smo1_def intro: written_trans)
  ultimately show ?thesis
    using v(3-5) flush(3) s1(3,4) log(3)
    by (intro that[of sm' "sy_smo (sync_flush dm s1)" "sy_os (sync_flush dm s1)" "hdr # es"]) (simp_all add: smo1_def)
qed

lemma space_map_sync_inv:
  assumes inv: "sm_inv sm" "sm_pp_root sm = None" "sm_set sm \<noteq> {}" and g: "log_geometry sm" and t: "unat t < 2"
    and mt: "unat mt < 2" and dm: "dmu_appends dm contents" and smo: "smo_ok contents sm mt smo os"
    and room: "8 * (length (contents os (smo_object smo)) + card (sm_set sm) + 1) + 4096 < 2 ^ 64"
    and S: "if t = mt then logged contents sm mt smo os \<inter> sm_set sm = {} else sm_set sm \<subseteq> logged contents sm mt smo os"
  shows "\<exists>sm' smo' os'. space_map_sync dm pass txg sm t smo os = Inr (sm', smo', os')
    \<and> sm_inv sm' \<and> sm_set sm' = {} \<and> sm_same sm sm' \<and> smo_object smo' = smo_object smo
    \<and> smo_ok contents sm mt smo' os'
    \<and> logged contents sm mt smo' os' = (if t = mt then logged contents sm mt smo os \<union> sm_set sm
         else logged contents sm mt smo os - sm_set sm)
    \<and> (\<exists>es. contents os' (smo_object smo) = contents os (smo_object smo) @ es \<and> length es \<le> card (sm_set sm) + 1)
    \<and> written dm (smo_object smo) os os'"
proof -
  let ?S = "logged contents sm mt smo os" and ?M = "sm_set sm" and ?N = "unat (sm_size sm)"
  have C: "unat (smo_objsize smo) = 8 * length (contents os (smo_object smo))"
    "log_ok sm mt (contents os (smo_object smo)) (load_start sm mt)"
    "unat (smo_alloc smo) = (if mt = SM_FREE then ?N - card ?S else card ?S)"
    using smo by (simp_all add: smo_ok_def Let_def)
  obtain es sm' smo' os' where w:
    "space_map_sync dm pass txg sm t smo os = Inr (sm', smo', os')" "sm_inv sm'" "sm_set sm' = {}" "sm_same sm sm'"
    "smo_object smo' = smo_object smo"
    "smo_alloc smo' = (if t = SM_ALLOC then smo_alloc smo + sm_space sm else smo_alloc smo - sm_space sm)"
    "contents os' (smo_object smo) = contents os (smo_object smo) @ es"
    "unat (smo_objsize smo') = 8 * length (contents os' (smo_object smo))"
    "log_ok sm mt es ?S" "log_set sm mt es ?S = (if t = mt then ?S \<union> ?M else ?S - ?M)"
    "length es \<le> card ?M + 1" "written dm (smo_object smo) os os'"
    by (rule space_map_sync_writes[OF inv g t dm C(1) _ S, of pass txg]) (use room in auto)
  have rng: "?S \<subseteq> range_set (sm_start sm) (sm_size sm)" "?M \<subseteq> range_set (sm_start sm) (sm_size sm)"
    using log_set_range[OF C(2)] inv(1) sm_set_range[OF inv(1)] by (auto simp: load_start_def sm_inv_def)
  have fin: "finite ?S" "finite ?M" using rng by (auto dest: finite_subset)
  have lim: "?N < 2 ^ 64" by (rule unat_less_64)
  have sp: "unat (sm_space sm) = card ?M" by (rule sm_space_card[OF inv(1)])
  have t01: "t = SM_ALLOC \<or> t = SM_FREE" "mt = SM_ALLOC \<or> mt = SM_FREE"
    using t mt by (auto simp: SM_ALLOC_def SM_FREE_def word_unat_eq_iff)
  have sums: "card (if t = mt then ?S \<union> ?M else ?S - ?M) = (if t = mt then card ?S + card ?M else card ?S - card ?M)"
    "t \<noteq> mt \<Longrightarrow> card ?M \<le> card ?S" "card ?S \<le> ?N" "t = mt \<Longrightarrow> card ?S + card ?M \<le> ?N"
    using S fin rng card_mono[of "range_set (sm_start sm) (sm_size sm)" ?S]
      card_mono[of "range_set (sm_start sm) (sm_size sm)" "?S \<union> ?M"]
    by (auto simp: card_Un_disjoint card_Diff_subset card_mono split: if_splits)
  have alloc: "unat (smo_alloc smo') = (if mt = SM_FREE then ?N - card (if t = mt then ?S \<union> ?M else ?S - ?M)
       else card (if t = mt then ?S \<union> ?M else ?S - ?M))"
    using C(3) sums t01 lim unfolding w(6) sums(1)
    by (auto simp: SM_ALLOC_def SM_FREE_def unat_diff_le unat_add_no_wrap word_le_nat_alt sp split: if_splits)
  have logged: "logged contents sm mt smo' os' = (if t = mt then ?S \<union> ?M else ?S - ?M)"
    using w(5,7,10) by simp
  moreover have "smo_ok contents sm mt smo' os'"
    unfolding smo_ok_def Let_def logged using w C(2) alloc room by auto
  moreover have "\<exists>es. contents os' (smo_object smo) = contents os (smo_object smo) @ es \<and> length es \<le> card ?M + 1"
    using w(7,11) by blast
  ultimately show ?thesis using w by (intro exI conjI) assumption+
qed

end
