(* ===== verification/Space_Map_Properties.thy ===== *)
theory Space_Map_Properties
  imports Space_Map_Sync
begin

text \<open>
  What space maps guarantee: a map is the set \<open>sm_set\<close> of the offsets it holds, its operations are
  set operations on it, and the log on disk stands for the set it was written from.
  \<open>range_set start size\<close> is the set of the offsets of a range and \<open>sm_range sm start size\<close> says that
  the range is not empty, aligned and within the map.
\<close>

section \<open>Maps in memory\<close>

text \<open>A map of 64 KiB in 512-byte units that holds [512, 1024) and [2048, 4096).\<close>

definition example_kernel :: kernel where
  "example_kernel = \<lparr>kmem_alloc = (\<lambda>h. Suc (Max (insert 0 (dom h)))), zfs_recover = False\<rparr>"

definition two_segs :: space_map where
  "two_segs = \<lparr>sm_root = \<lparr>avl_root = Some 10, avl_numnodes_of = 2, avl_mem = (\<lambda>_. blank_node)
        (10 := \<lparr>avl_child = (\<lambda>d. if d then Some 20 else None), avl_parent = None, avl_child_index = False,
               avl_balance = 1\<rparr>,
         20 := \<lparr>avl_child = (\<lambda>_. None), avl_parent = Some 10, avl_child_index = True, avl_balance = 0\<rparr>)\<rparr>,
     sm_space = 2560, sm_start = 0, sm_size = 65536, sm_shift = 9, sm_loaded = False, sm_loading = False,
     sm_ops = None, sm_pp_root = None, sm_ppd = None, sm_lock_held = True,
     sm_segs = [10 \<mapsto> \<lparr>ss_start = 512, ss_end = 1024\<rparr>, 20 \<mapsto> \<lparr>ss_start = 2048, ss_end = 4096\<rparr>]\<rparr>"

definition empty_map :: space_map where
  "empty_map = space_map_create 0 65536 9 True"

text \<open>A store of word lists, and the log objects that the examples use.\<close>

definition word_store :: "(u64 \<Rightarrow> u64 list) dmu" where
  "word_store = \<lparr>
     dmu_read = (\<lambda>os obj off sz. (0, take (unat sz div 8) (drop (unat off div 8) (os obj)))),
     dmu_write = (\<lambda>obj off ws os. os(obj := take (unat off div 8) (os obj) @ ws)),
     dmu_free_range = (\<lambda>obj os. (0, os(obj := [])))\<rparr>"

definition empty_log :: space_map_obj where
  "empty_log = \<lparr>smo_object = 7, smo_objsize = 0, smo_alloc = 0\<rparr>"

definition example_smo :: space_map_obj where
  "example_smo = \<lparr>smo_object = 7, smo_objsize = 8, smo_alloc = 512\<rparr>"

definition example_entry :: u64 where
  "example_entry = SM_OFFSET_ENCODE 0 OR SM_TYPE_ENCODE (ucast SM_ALLOC) OR SM_RUN_ENCODE 1"

lemma example_kernel_fresh: "kmem_fresh example_kernel"
proof -
  have "Suc (Max (insert 0 (dom h))) \<notin> dom h" if "finite (dom h)" for h :: "addr \<Rightarrow> space_seg option"
    using Max_ge[of "insert 0 (dom h)"] that by (metis finite_insert insertI2 not_less_eq_eq order_refl)
  then show ?thesis by (simp add: kmem_fresh_def example_kernel_def avl_tmp_def)
qed

lemma word_store_appends: "dmu_appends word_store (\<lambda>os. os)"
  by (auto simp: dmu_appends_def word_store_def)

lemma two_segs_set: "sm_set two_segs = {512 ..< 1024} \<union> {2048 ..< 4096}"
  by (auto simp: sm_set_def two_segs_def seg_at_def)

lemma two_segs_inv: "sm_inv two_segs"
proof -
  have "avl_inv (sm_root two_segs) [10, 20]"
    unfolding avl_inv_def tree_rep_def
    by (rule conjI, rule exI[of _ "ANode ALeaf 10 1 (ANode ALeaf 20 0 ALeaf)"])
       (auto simp: two_segs_def avl_tmp_def)
  then have "sm_pre two_segs [10, 20] (set [10, 20])"
    by (auto simp: sm_pre_def two_segs_def seg_at_def sm_bounds_def pp_inv_def)
  moreover have "card (sm_set two_segs) = 2560" unfolding two_segs_set by (subst card_Un_disjoint) auto
  ultimately show ?thesis
    using sm_set_rep[of two_segs "[10, 20]"]
    by (auto simp: sm_inv_def sm_rep_def sm_fits_def two_segs_def intro!: exI[of _ "[10, 20]"])
qed

lemma empty_map_inv: "sm_inv empty_map" "sm_set empty_map = {}"
  unfolding empty_map_def by (rule space_map_create_inv; simp)+

section \<open>Properties\<close>

text \<open>
  C9: \<open>space_map_add\<close> of an aligned range within the map that does not meet the map returns, gives a
  well-formed map (sorted, disjoint, maximally merged segments, \<open>sm_space\<close> their total size, the picker's
  tree in step) whose set is the union, and changes nothing else of the map.
\<close>

theorem space_map_add_union:
  assumes "sm_inv sm" "kmem_fresh k" "sm_range sm start size'" "sm_set sm \<inter> range_set start size' = {}"
  shows "\<exists>sm'. space_map_add k sm start size' = Inr sm' \<and> sm_inv sm'
     \<and> sm_set sm' = sm_set sm \<union> range_set start size' \<and> sm_same sm sm'"
  using assms by (rule space_map_add_inv)

theorem space_map_add_union_witness:
  "\<exists>sm'. space_map_add example_kernel two_segs 1024 1024 = Inr sm' \<and> sm_inv sm'
     \<and> sm_set sm' = {512 ..< 4096} \<and> sm_same two_segs sm'"
proof -
  have "sm_range two_segs 1024 1024" by (simp add: sm_range_def two_segs_def)
  moreover have "sm_set two_segs \<inter> range_set 1024 1024 = {}" by (auto simp: two_segs_set)
  moreover have "sm_set two_segs \<union> range_set 1024 1024 = {512 ..< 4096}" by (auto simp: two_segs_set)
  ultimately show ?thesis using space_map_add_union[OF two_segs_inv example_kernel_fresh, of 1024 1024] by simp
qed

text \<open>
  C10: \<open>space_map_remove\<close> of a range that the map holds returns and gives a well-formed map whose set is
  the difference: the segment is shrunk, split or deleted as needed.
\<close>

theorem space_map_remove_diff:
  assumes "sm_inv sm" "kmem_fresh k" "sm_range sm start size'" "range_set start size' \<subseteq> sm_set sm"
  shows "\<exists>sm'. space_map_remove k sm start size' = Inr sm' \<and> sm_inv sm'
     \<and> sm_set sm' = sm_set sm - range_set start size' \<and> sm_same sm sm'"
  using assms by (rule space_map_remove_inv)

theorem space_map_remove_diff_witness:
  "\<exists>sm'. space_map_remove example_kernel two_segs 2560 512 = Inr sm' \<and> sm_inv sm'
     \<and> sm_set sm' = {512 ..< 1024} \<union> {2048 ..< 2560} \<union> {3072 ..< 4096} \<and> sm_same two_segs sm'"
proof -
  have "sm_range two_segs 2560 512" by (simp add: sm_range_def two_segs_def)
  moreover have "range_set 2560 512 \<subseteq> sm_set two_segs" by (auto simp: two_segs_set)
  moreover have "sm_set two_segs - range_set 2560 512 = {512 ..< 1024} \<union> {2048 ..< 2560} \<union> {3072 ..< 4096}"
    by (auto simp: two_segs_set)
  ultimately show ?thesis using space_map_remove_diff[OF two_segs_inv example_kernel_fresh, of 2560 512] by simp
qed

text \<open>
  C11: a double allocation or double free is caught: adding a range that meets the map, or removing one that
  the map does not hold entirely, is a fault, unless the tunable \<open>zfs_recover\<close> is set and the map already
  has the wanted state; then it is left as it was.
\<close>

theorem space_map_double_detected:
  assumes "sm_inv sm" "sm_range sm start size'"
  shows "(sm_set sm \<inter> range_set start size' \<noteq> {} \<longrightarrow>
           (\<exists>e. space_map_add k sm start size' = Inl e)
           \<or> zfs_recover k \<and> range_set start size' \<subseteq> sm_set sm \<and> space_map_add k sm start size' = Inr sm)
       \<and> (\<not> range_set start size' \<subseteq> sm_set sm \<longrightarrow>
           (\<exists>e. space_map_remove k sm start size' = Inl e)
           \<or> zfs_recover k \<and> range_set start size' \<inter> sm_set sm = {} \<and> space_map_remove k sm start size' = Inr sm)"
  using space_map_add_overlap[OF assms] space_map_remove_refused[OF assms] by blast

theorem space_map_double_detected_witness:
  "\<exists>e f. space_map_add example_kernel two_segs 512 1024 = Inl e \<and> space_map_remove example_kernel two_segs 1024 512 = Inl f"
proof -
  have r: "sm_range two_segs 512 1024" "sm_range two_segs 1024 512" by (simp_all add: sm_range_def two_segs_def)
  have "512 \<in> sm_set two_segs \<inter> range_set 512 1024" "1024 \<in> range_set 1024 512 - sm_set two_segs"
    by (auto simp: two_segs_set)
  then have "sm_set two_segs \<inter> range_set 512 1024 \<noteq> {}" "\<not> range_set 1024 512 \<subseteq> sm_set two_segs" by blast+
  then show ?thesis
    using space_map_double_detected[OF two_segs_inv r(1), of example_kernel]
      space_map_double_detected[OF two_segs_inv r(2), of example_kernel] by (simp add: example_kernel_def)
qed

text \<open>
  C12: \<open>space_map_contains\<close> returns, and answers whether the whole range is in the map.
\<close>

theorem space_map_contains_subset:
  assumes "sm_inv sm" "sm_range sm start size'"
  shows "space_map_contains sm start size' = Inr (range_set start size' \<subseteq> sm_set sm)"
  using assms by (rule space_map_contains_inv)

theorem space_map_contains_subset_witness:
  "space_map_contains two_segs 2560 1024 = Inr True \<and> space_map_contains two_segs 512 1024 = Inr False"
proof -
  have "sm_range two_segs 2560 1024" "sm_range two_segs 512 1024" by (simp_all add: sm_range_def two_segs_def)
  moreover have "range_set 2560 1024 \<subseteq> sm_set two_segs" by (auto simp: two_segs_set)
  moreover have "1024 \<in> range_set 512 1024 - sm_set two_segs" by (auto simp: two_segs_set)
  then have "\<not> range_set 512 1024 \<subseteq> sm_set two_segs" by blast
  ultimately show ?thesis
    using space_map_contains_subset[OF two_segs_inv, of 2560 1024] space_map_contains_subset[OF two_segs_inv, of 512 1024]
    by simp
qed

text \<open>
  C13: \<open>space_map_vacate\<close> with \<open>space_map_add\<close> as its function moves a whole map into a disjoint map of
  the same geometry: it returns, the source is the empty map, the destination holds the union, both are
  well-formed, and every segment of the source has been freed.
\<close>

theorem space_map_vacate_moves:
  assumes "sm_inv sm" "sm_pp_root sm = None" "sm_inv d" "sm_geometry sm d" "kmem_fresh k" "sm_set sm \<inter> sm_set d = {}"
  shows "\<exists>sm' d'. space_map_vacate sm (Some (add_func k)) d = Inr (sm', d') \<and> sm_inv sm' \<and> sm_inv d'
     \<and> sm_set sm' = {} \<and> sm_set d' = sm_set d \<union> sm_set sm \<and> sm_same sm sm' \<and> sm_same d d'"
  using assms by (rule space_map_vacate_add)

theorem space_map_vacate_moves_witness:
  "\<exists>sm' d'. space_map_vacate two_segs (Some (add_func example_kernel)) empty_map = Inr (sm', d')
     \<and> sm_set sm' = {} \<and> sm_set d' = sm_set two_segs"
proof -
  have "sm_pp_root two_segs = None" "sm_geometry two_segs empty_map"
    by (simp_all add: two_segs_def empty_map_def sm_geometry_def space_map_create_def)
  then show ?thesis
    using space_map_vacate_moves[OF two_segs_inv _ empty_map_inv(1) _ example_kernel_fresh] empty_map_inv(2) by fastforce
qed

text \<open>
  C14: the macros for one log entry are inverse to each other: an entry built from an offset below
  \<open>2^47\<close>, a type bit and a run length from 1 to \<open>2^15\<close> decodes to those, and is no debug entry.
\<close>

theorem sm_entry_roundtrip:
  assumes "unat offset < 2 ^ 47" "unat type' < 2" "0 < unat run" "unat run \<le> 2 ^ 15"
  shows "let e = SM_OFFSET_ENCODE offset OR SM_TYPE_ENCODE type' OR SM_RUN_ENCODE run
     in SM_DEBUG_DECODE e = 0 \<and> SM_OFFSET_DECODE e = offset \<and> SM_TYPE_DECODE e = type' \<and> SM_RUN_DECODE e = run"
  using sm_entry_decode[OF assms refl] by (simp add: Let_def)

theorem sm_entry_roundtrip_witness:
  "let e = SM_OFFSET_ENCODE 99 OR SM_TYPE_ENCODE 1 OR SM_RUN_ENCODE 32768
   in SM_DEBUG_DECODE e = 0 \<and> SM_OFFSET_DECODE e = 99 \<and> SM_TYPE_DECODE e = 1 \<and> SM_RUN_DECODE e = 32768"
  by (rule sm_entry_roundtrip) simp_all

section \<open>Reads that fail\<close>

text \<open>What the documentation of \<open>dmu_read\<close> promises: the data, or an error.\<close>

definition dmu_reads_or_fails :: "'os dmu \<Rightarrow> ('os \<Rightarrow> u64 \<Rightarrow> u64 list) \<Rightarrow> bool" where
  "dmu_reads_or_fails dm contents \<longleftrightarrow>
     (\<forall>os obj off sz n m. unat off = 8 * n \<longrightarrow> unat sz = 8 * m \<longrightarrow> n + m \<le> length (contents os obj) \<longrightarrow>
        fst (dmu_read dm os obj off sz) = 0 \<longrightarrow> snd (dmu_read dm os obj off sz) = take m (drop n (contents os obj)))"

text \<open>The read of block \<open>n\<close> of a log, as the load asks for it.\<close>

definition block_read :: "'os dmu \<Rightarrow> 'os \<Rightarrow> space_map_obj \<Rightarrow> nat \<Rightarrow> int \<times> u64 list" where
  "block_read dm os smo n = dmu_read dm os (smo_object smo) (of_nat (4096 * n)) (min (smo_objsize smo - of_nat (4096 * n)) 4096)"

definition bad_store :: "(u64 \<Rightarrow> u64 list) dmu" where
  "bad_store = word_store\<lparr>dmu_read := (\<lambda>os obj off sz. (5, []))\<rparr>"

lemma bad_store_fails: "dmu_reads_or_fails bad_store (\<lambda>os. os)"
  by (simp add: dmu_reads_or_fails_def bad_store_def)

text \<open>The loop over the blocks from block \<open>n\<close> on: up to the first read that fails, or to the end.\<close>

lemma load_loop_fail:
  assumes dm: "dmu_reads_or_fails dm contents" and L: "L = contents os (smo_object smo)"
    and end': "unat (smo_objsize smo) = 8 * length L" "unat (smo_objsize smo) + 4096 < 2 ^ 64" and n: "512 * n \<le> length L + 512"
    and inv: "sm_inv sm" "sm_geometry g sm" "kmem_fresh k" "log_ok g mt (drop (512 * n) L) (sm_set sm)"
  shows "\<exists>sm' e. load_loop k dm os (smo_object smo) mt (sm_start g) (smo_objsize smo) 4096 (of_nat (4096 * n)) sm = Some (Inr (sm', e))
     \<and> sm_inv sm' \<and> sm_same sm sm' \<and> (e = 0 \<longrightarrow> sm_set sm' = log_set g mt (drop (512 * n) L) (sm_set sm))
     \<and> (e = 0 \<longleftrightarrow> (\<forall>i. n \<le> i \<longrightarrow> 512 * i < length L \<longrightarrow> fst (block_read dm os smo i) = 0))
     \<and> (e \<noteq> 0 \<longrightarrow> (\<exists>i. fst (block_read dm os smo i) = e))"
  using n inv
proof (induction "length L - 512 * n" arbitrary: n sm rule: less_induct)
  case less
  define off where "off = (of_nat (4096 * n) :: u64)"
  let ?off = off and ?z = "smo_objsize smo"
  have "4096 * n \<le> 8 * length L + 4096" using less.prems(1) by simp
  then have off: "unat ?off = 4096 * n" using end' by (simp add: off_def unat_of_nat take_bit_nat_eq_self del: of_nat_mult)
  show ?case
  proof (cases "512 * n < length L")
    case False
    then have "\<not> ?off < ?z" using off end'(1) by (simp add: word_less_nat_alt)
    then show ?thesis unfolding off_def[symmetric] using False less.prems(2) by (intro exI[of _ sm] exI[of _ 0]) (simp add: load_loop.simps)
  next
    case True
    define m where "m = min (length L - 512 * n) 512"
    have lt: "?off < ?z" using True off end'(1) by (simp add: word_less_nat_alt)
    then have diff: "unat (?z - ?off) = 8 * (length L - 512 * n)" using off end'(1) by (simp add: unat_diff_le diff_mult_distrib2)
    have sz: "unat (min (?z - ?off) 4096) = 8 * m" using diff by (auto simp: min_def m_def word_le_nat_alt)
    have m: "0 < m" "512 * n + m \<le> length L" using True by (auto simp: m_def)
    have phase: "P2PHASE (min (?z - ?off) 4096) 8 = 0" using P2PHASE_zero_iff[of "min (?z - ?off) 4096" 3] sz by simp
    have nz: "min (?z - ?off) 4096 \<noteq> 0" using sz m(1) by (metis mult_is_0 not_less_zero unat_0 zero_neq_numeral)
    obtain e ws where rd: "dmu_read dm os (smo_object smo) ?off (min (?z - ?off) 4096) = (e, ws)" by (cases "dmu_read dm os (smo_object smo) ?off (min (?z - ?off) 4096)")
    then have br: "fst (block_read dm os smo n) = e" by (simp add: block_read_def off_def)
    note unf = load_loop.simps[of k dm os "smo_object smo" mt "sm_start g" ?z 4096 ?off sm]
    show ?thesis
    proof (cases "e = 0")
      case False
      then show ?thesis unfolding off_def[symmetric] using unf lt phase nz rd br less.prems(2) True by (intro exI[of _ sm] exI[of _ e]) (auto simp: Let_def)
    next
      case e: True
      have "unat ?off = 8 * (512 * n)" using off by simp
      then have ws: "ws = take m (drop (512 * n) L)"
        using dm sz m(2) rd e unfolding dmu_reads_or_fails_def L by (metis fst_conv snd_conv)
      have split: "drop (512 * n) L = take m (drop (512 * n) L) @ drop (512 * Suc n) L"
      proof -
        have "drop m (drop (512 * n) L) = drop (512 * Suc n) L" by (auto simp: m_def min_def)
        then show ?thesis by (metis append_take_drop_id)
      qed
      have ok: "log_ok g mt (take m (drop (512 * n) L)) (sm_set sm)"
        "log_ok g mt (drop (512 * Suc n) L) (log_set g mt (take m (drop (512 * n) L)) (sm_set sm))"
        using less.prems(5) by (subst (asm) split, simp)+
      obtain sm1 where sm1: "foldM (load_entry k mt (sm_start g)) (take m (drop (512 * n) L)) sm = Inr sm1" "sm_inv sm1"
        "sm_set sm1 = log_set g mt (take m (drop (512 * n) L)) (sm_set sm)" "sm_same sm sm1" using foldM_load[OF less.prems(2-4) ok(1)] by blast
      have geo: "sm_geometry g sm1" using less.prems(3) sm1(4) by (auto simp: sm_geometry_def sm_same_def)
      have ls: "length L - 512 * Suc n < length L - 512 * n" and ls': "512 * Suc n \<le> length L + 512" using True by simp_all
      obtain sm' e' where IH: "load_loop k dm os (smo_object smo) mt (sm_start g) ?z 4096 (of_nat (4096 * Suc n)) sm1 = Some (Inr (sm', e'))"
        "sm_inv sm'" "sm_same sm1 sm'" "e' = 0 \<longrightarrow> sm_set sm' = log_set g mt (drop (512 * Suc n) L) (sm_set sm1)"
        "e' = 0 \<longleftrightarrow> (\<forall>i. Suc n \<le> i \<longrightarrow> 512 * i < length L \<longrightarrow> fst (block_read dm os smo i) = 0)"
        "e' \<noteq> 0 \<longrightarrow> (\<exists>i. fst (block_read dm os smo i) = e')"
        using less.hyps[OF ls ls' sm1(2) geo less.prems(4) ok(2)[folded sm1(3)]] by (elim exE conjE) (rule that)
      have all: "(\<forall>i. n \<le> i \<longrightarrow> 512 * i < length L \<longrightarrow> fst (block_read dm os smo i) = 0)
          \<longleftrightarrow> (\<forall>i. Suc n \<le> i \<longrightarrow> 512 * i < length L \<longrightarrow> fst (block_read dm os smo i) = 0)"
        using br e by (metis Suc_leD le_antisym not_less_eq_eq)
      have nx: "?off + 4096 = of_nat (4096 * Suc n)" by (simp add: off_def)
      have "take (unat (min (?z - ?off) 4096) div 8) ws = take m (drop (512 * n) L)" using sz ws by simp
      then have "load_loop k dm os (smo_object smo) mt (sm_start g) ?z 4096 ?off sm = Some (Inr (sm', e'))"
        using lt phase nz rd e sm1(1) IH(1) unfolding nx[symmetric] by (simp add: unf Let_def)
      moreover have "log_set g mt (drop (512 * n) L) (sm_set sm) = log_set g mt (drop (512 * Suc n) L) (sm_set sm1)"
        unfolding sm1(3) log_set_append[symmetric] split[symmetric] ..
      ultimately show ?thesis unfolding off_def[symmetric] using IH(2-6) sm_same_trans[OF sm1(4) IH(3)] all by (intro exI[of _ sm'] exI[of _ e']) simp
    qed
  qed
qed

lemma space_map_load_fail:
  assumes inv: "sm_inv sm" "sm_set sm = {}" and flags: "\<not> sm_loaded sm" "\<not> sm_loading sm" "sm_ops sm = None" "sm_pp_root sm = None"
    and fresh: "kmem_fresh k" and dm: "dmu_reads_or_fails dm contents" and smo: "smo_ok contents sm mt smo os"
    and free: "mt = SM_FREE \<Longrightarrow> sm_range sm (sm_start sm) (sm_size sm)"
  shows "\<exists>sm' e. space_map_load k opsf dm sm None mt smo os = Inr (sm', e) \<and> sm_inv sm' \<and> \<not> sm_loading sm'
     \<and> (e = 0 \<longleftrightarrow> (\<forall>n < (unat (smo_objsize smo) + 4095) div 4096. fst (block_read dm os smo n) = 0))
     \<and> (if e = 0 then sm_loaded sm' \<and> sm_set sm' = logged contents sm mt smo os
        else \<not> sm_loaded sm' \<and> sm_ops sm' = None \<and> sm_set sm' = {} \<and> (\<exists>n. fst (block_read dm os smo n) = e))"
proof -
  let ?L = "contents os (smo_object smo)" and ?S = "load_start sm mt" and ?sm = "sm\<lparr>sm_loading := True\<rparr>"
  have held: "sm_lock_held sm" and space0: "sm_space sm = 0" using inv sm_inv_empty_space[OF inv(1)] by (auto simp: sm_inv_def)
  have L: "unat (smo_objsize smo) = 8 * length ?L" "unat (smo_objsize smo) + 4096 < 2 ^ 64" "log_ok sm mt ?L ?S"
    using smo by (simp_all add: smo_ok_def Let_def)
  obtain sm1 where sm1: "(if mt = SM_FREE then space_map_add k ?sm (sm_start ?sm) (sm_size ?sm) else Inr ?sm) = Inr sm1"
    "sm_inv sm1" "sm_set sm1 = ?S" "sm_same ?sm sm1" using load_begin[OF inv fresh free] by blast
  have geo: "sm_geometry sm sm1" using sm1(4) by (simp add: sm_geometry_def sm_same_def)
  have "\<exists>sm2 e. load_loop k dm os (smo_object smo) mt (sm_start sm) (smo_objsize smo) 4096 0 sm1 = Some (Inr (sm2, e))
    \<and> sm_inv sm2 \<and> sm_same sm1 sm2 \<and> (e = 0 \<longrightarrow> sm_set sm2 = log_set sm mt ?L ?S)
    \<and> (e = 0 \<longleftrightarrow> (\<forall>i. 512 * i < length ?L \<longrightarrow> fst (block_read dm os smo i) = 0)) \<and> (e \<noteq> 0 \<longrightarrow> (\<exists>i. fst (block_read dm os smo i) = e))"
    using load_loop_fail[OF dm refl L(1,2), of 0 sm1 sm k mt] sm1(2,3) geo fresh L(3) by simp
  then obtain sm2 e where l: "load_loop k dm os (smo_object smo) mt (sm_start sm) (smo_objsize smo) 4096 0 sm1 = Some (Inr (sm2, e))"
    "sm_inv sm2" "sm_same sm1 sm2" "e = 0 \<longrightarrow> sm_set sm2 = log_set sm mt ?L ?S"
    "e = 0 \<longleftrightarrow> (\<forall>i. 512 * i < length ?L \<longrightarrow> fst (block_read dm os smo i) = 0)" "e \<noteq> 0 \<longrightarrow> (\<exists>i. fst (block_read dm os smo i) = e)"
    by (elim exE conjE) (rule that)
  have blocks: "512 * i < length ?L \<longleftrightarrow> i < (unat (smo_objsize smo) + 4095) div 4096" for i unfolding L(1) by auto
  have same: "sm_same ?sm sm2" by (rule sm_same_trans[OF sm1(4) l(3)])
  have buf: "push_bit SPACE_MAP_BLOCKSHIFT 1 = (4096 :: u64)" by (simp add: SPACE_MAP_BLOCKSHIFT_def)
  have size1: "sm_size sm1 = sm_size sm" "sm_size sm2 = sm_size sm" using sm1(4) same by (simp_all add: sm_same_def)
  show ?thesis
  proof (cases "e = 0")
    case True
    have set2: "sm_set sm2 = logged contents sm mt smo os" using l(4) True by simp
    have "space_map_load k opsf dm sm None mt smo os = Inr (sm2\<lparr>sm_loaded := True, sm_ops := None, sm_loading := False\<rparr>, 0)"
      using held flags space0 sm1(1) l(1) True load_space[OF l(2) set2 size1(2) smo] size1(1)
      unfolding space_map_load_def Let_def buf by simp
    then show ?thesis using l(2,5) set2 True blocks by (intro exI[of _ "sm2\<lparr>sm_loaded := True, sm_ops := None, sm_loading := False\<rparr>"] exI[of _ 0]) auto
  next
    case False
    have pp: "sm_pp_root sm2 = None" using same flags(4) by (simp add: sm_same_def)
    obtain sm3 where sm3: "space_map_vacate sm2 None () = Inr (sm3, ())" "sm_inv sm3" "sm_set sm3 = {}" "sm_same sm2 sm3"
      using space_map_vacate_all[OF l(2) pp, of "()"] by (elim exE conjE) (rule that)
    have "space_map_load k opsf dm sm None mt smo os = Inr (sm3\<lparr>sm_loading := False\<rparr>, e)"
      using held flags space0 sm1(1) l(1) False sm3(1) unfolding space_map_load_def Let_def buf by simp
    moreover have "\<not> sm_loaded sm3" "sm_ops sm3 = None" using sm_same_trans[OF same sm3(4)] flags by (simp_all add: sm_same_def)
    moreover have "\<not> (\<forall>n < (unat (smo_objsize smo) + 4095) div 4096. fst (block_read dm os smo n) = 0)" using l(5) False unfolding blocks by simp
    ultimately show ?thesis using sm3(2,3) l(6) False by (intro exI[of _ "sm3\<lparr>sm_loading := False\<rparr>"] exI[of _ e]) simp
  qed
qed

text \<open>
  C15: \<open>space_map_load\<close> of a well-formed log object into an empty, unloaded map returns with error 0 and
  gives a loaded, well-formed map that holds exactly the set the log stands for: the whole range for
  \<open>SM_FREE\<close> or nothing for \<open>SM_ALLOC\<close>, changed by every entry in the order of the log.
\<close>

theorem space_map_load_log:
  assumes "sm_inv sm" "sm_set sm = {}" "\<not> sm_loaded sm" "\<not> sm_loading sm" "sm_ops sm = None"
    and "kmem_fresh k" "dmu_appends dm contents" "smo_ok contents sm mt smo os"
    and "mt = SM_FREE \<longrightarrow> sm_range sm (sm_start sm) (sm_size sm)"
  shows "\<exists>sm'. space_map_load k opsf dm sm None mt smo os = Inr (sm', 0) \<and> sm_inv sm'
     \<and> sm_set sm' = logged contents sm mt smo os \<and> sm_loaded sm' \<and> \<not> sm_loading sm'"
proof -
  obtain sm' where sm': "sm_inv sm'" "sm_set sm' = logged contents sm mt smo os"
    "space_map_load k opsf dm sm None mt smo os = Inr (sm'\<lparr>sm_loaded := True, sm_ops := None, sm_loading := False\<rparr>, 0)"
    using space_map_load_inv[OF assms(1-6) dmu_appends_reads[OF assms(7)] assms(8), of opsf None] assms(9) by auto
  then show ?thesis by (intro exI[of _ "sm'\<lparr>sm_loaded := True, sm_ops := None, sm_loading := False\<rparr>"]) simp
qed

lemma empty_map_fields:
  "\<not> sm_loaded empty_map" "\<not> sm_loading empty_map" "sm_ops empty_map = None" "sm_range empty_map (sm_start empty_map) (sm_size empty_map)"
  "sm_start empty_map = 0" "sm_size empty_map = 65536" "sm_geometry empty_map two_segs"
  by (simp_all add: empty_map_def space_map_create_def sm_range_def sm_geometry_def two_segs_def)

lemma empty_log_ok: "smo_ok (\<lambda>os. os) empty_map SM_FREE empty_log (\<lambda>_. [])"
  "logged (\<lambda>os. os) empty_map SM_FREE empty_log (\<lambda>_. []) = {0 ..< 65536}"
  by (simp_all add: smo_ok_def Let_def load_start_def empty_map_fields empty_log_def)

text \<open>A log of one entry, which allocates the first unit.\<close>

lemma example_log:
  assumes "contents os (smo_object example_smo) = [example_entry]"
  shows "logged contents empty_map SM_FREE example_smo os = {512 ..< 65536}" "smo_ok contents empty_map SM_FREE example_smo os"
proof -
  have d: "SM_DEBUG_DECODE example_entry = 0" "SM_OFFSET_DECODE example_entry = 0" "SM_TYPE_DECODE example_entry = ucast SM_ALLOC" "SM_RUN_DECODE example_entry = 1"
    by (rule sm_entry_decode[OF _ _ _ _ example_entry_def]; simp add: SM_ALLOC_def)+
  have ty: "(ucast SM_ALLOC :: u64) \<noteq> ucast SM_FREE" by (simp add: SM_ALLOC_def SM_FREE_def)
  have sh: "sm_shift empty_map = 9" by (simp add: empty_map_def space_map_create_def)
  have e: "e_start empty_map example_entry = 0" "e_size empty_map example_entry = 512"
    unfolding e_start_def e_size_def d empty_map_fields sh by simp_all
  have st: "load_start empty_map SM_FREE = {0 ..< 65536}" unfolding load_start_def empty_map_fields by simp
  have step: "log_step empty_map SM_FREE example_entry {0 ..< 65536} = {512 ..< 65536}"
    unfolding log_step_def d e using ty by auto
  have rng: "sm_range empty_map 0 512" unfolding sm_range_def empty_map_fields sh by simp
  show "logged contents empty_map SM_FREE example_smo os = {512 ..< 65536}" unfolding assms st log_set.simps step ..
  have "log_fits empty_map SM_FREE example_entry {0 ..< 65536}" unfolding log_fits_def e d using rng ty by simp
  then show "smo_ok contents empty_map SM_FREE example_smo os"
    unfolding smo_ok_def Let_def assms st log_set.simps log_ok.simps step empty_map_fields by (simp add: example_smo_def)
qed

theorem space_map_load_log_witness:
  "\<forall>opsf. \<exists>sm'. space_map_load example_kernel opsf word_store empty_map None SM_FREE example_smo ((\<lambda>_. [])(7 := [example_entry])) = Inr (sm', 0)
     \<and> sm_inv sm' \<and> sm_set sm' = {512 ..< 65536} \<and> sm_loaded sm' \<and> \<not> sm_loading sm'"
proof
  fix opsf
  have c: "((\<lambda>_. [])(7 := [example_entry])) (smo_object example_smo) = [example_entry]" by (simp add: example_smo_def)
  show "\<exists>sm'. space_map_load example_kernel opsf word_store empty_map None SM_FREE example_smo ((\<lambda>_. [])(7 := [example_entry])) = Inr (sm', 0)
     \<and> sm_inv sm' \<and> sm_set sm' = {512 ..< 65536} \<and> sm_loaded sm' \<and> \<not> sm_loading sm'"
    using space_map_load_log[OF empty_map_inv empty_map_fields(1-3) example_kernel_fresh word_store_appends example_log(2)[where contents = "\<lambda>os. os" and os = "(\<lambda>_. [])(7 := [example_entry])", OF c], of opsf]
      empty_map_fields(4) unfolding example_log(1)[where contents = "\<lambda>os. os" and os = "(\<lambda>_. [])(7 := [example_entry])", OF c] by blast
qed

text \<open>
  C16: \<open>space_map_sync\<close> writes a map to a log from which it can be loaded again. After syncing the map as
  allocations (\<open>SM_ALLOC\<close>) or frees (\<open>SM_FREE\<close>) the map is empty, and a \<open>space_map_load\<close> of the free space
  from the object finds the free space of the old log without the allocations, or with the frees. The log
  stays well-formed, so the round trip can be repeated.
\<close>

theorem space_map_sync_load:
  assumes "sm_inv sm" "sm_pp_root sm = None" "sm_set sm \<noteq> {}" "log_geometry sm" "t = SM_ALLOC \<or> t = SM_FREE"
    and "dmu_appends dm contents" "smo_ok contents sm SM_FREE smo os" "kmem_fresh k"
    and "8 * (length (contents os (smo_object smo)) + card (sm_set sm) + 1) + 4096 < 2 ^ 64"
    and "if t = SM_FREE then logged contents sm SM_FREE smo os \<inter> sm_set sm = {}
         else sm_set sm \<subseteq> logged contents sm SM_FREE smo os"
    and "sm_inv g" "sm_set g = {}" "\<not> sm_loaded g" "\<not> sm_loading g" "sm_ops g = None" "sm_geometry g sm"
    and "sm_range g (sm_start g) (sm_size g)"
  shows "\<exists>sm' smo' os' g'. space_map_sync dm pass txg sm t smo os = Inr (sm', smo', os')
    \<and> sm_inv sm' \<and> sm_set sm' = {} \<and> smo_ok contents sm SM_FREE smo' os'
    \<and> space_map_load k opsf dm g None SM_FREE smo' os' = Inr (g', 0) \<and> sm_inv g'
    \<and> sm_set g' = (if t = SM_FREE then logged contents sm SM_FREE smo os \<union> sm_set sm
         else logged contents sm SM_FREE smo os - sm_set sm)"
proof -
  have "unat t < 2" "unat SM_FREE < 2" using assms(5) by (auto simp: SM_ALLOC_def SM_FREE_def)
  then obtain sm' smo' os' where w: "space_map_sync dm pass txg sm t smo os = Inr (sm', smo', os')"
    "sm_inv sm'" "sm_set sm' = {}" "smo_ok contents sm SM_FREE smo' os'"
    "logged contents sm SM_FREE smo' os' = (if t = SM_FREE then logged contents sm SM_FREE smo os \<union> sm_set sm
         else logged contents sm SM_FREE smo os - sm_set sm)"
    using space_map_sync_inv[OF assms(1-4) _ _ assms(6,7,9,10), of pass txg] by blast
  have smo: "smo_ok contents g SM_FREE smo' os'"
    using w(4) unfolding smo_ok_geometry[OF assms(16)] .
  obtain g' where g': "space_map_load k opsf dm g None SM_FREE smo' os'
      = Inr (g'\<lparr>sm_loaded := True, sm_ops := None, sm_loading := False\<rparr>, 0)"
    "sm_inv g'" "sm_set g' = logged contents g SM_FREE smo' os'"
    using space_map_load_inv[OF assms(11-15) assms(8) dmu_appends_reads[OF assms(6)] smo assms(17), of opsf None] by auto
  have "logged contents g SM_FREE smo' os' = logged contents sm SM_FREE smo' os'"
    unfolding log_geometry_cong(1)[OF assms(16)] load_start_geometry[OF assms(16)] ..
  then show ?thesis
    using w g' by (intro exI[of _ sm'] exI[of _ smo'] exI[of _ os']
        exI[of _ "g'\<lparr>sm_loaded := True, sm_ops := None, sm_loading := False\<rparr>"]) simp
qed

theorem space_map_sync_load_witness:
  "\<forall>opsf. \<exists>sm' smo' os' g'. space_map_sync word_store 1 5 two_segs SM_ALLOC empty_log (\<lambda>_. []) = Inr (sm', smo', os')
    \<and> sm_set sm' = {}
    \<and> space_map_load example_kernel opsf word_store empty_map None SM_FREE smo' os' = Inr (g', 0)
    \<and> sm_set g' = {0 ..< 65536} - sm_set two_segs"
proof
  fix opsf
  have c: "card (sm_set two_segs) = 2560" unfolding two_segs_set by (subst card_Un_disjoint) auto
  have "8 * (length ((\<lambda>_ :: u64. [] :: u64 list) (smo_object empty_log)) + card (sm_set two_segs) + 1) + 4096 < 2 ^ 64"
    unfolding c by simp
  moreover have sub: "sm_set two_segs \<subseteq> {0 ..< 65536}" by (auto simp: two_segs_set)
  moreover have ne: "sm_set two_segs \<noteq> {}" using c by auto
  moreover have "sm_pp_root two_segs = None" "log_geometry two_segs"
    by (simp_all add: two_segs_def log_geometry_def sm_fits_def)
  moreover have l: "logged (\<lambda>os. os) two_segs SM_FREE empty_log (\<lambda>_. []) = {0 ..< 65536}"
    using empty_log_ok(2) unfolding log_geometry_cong(1)[OF empty_map_fields(7)] load_start_geometry[OF empty_map_fields(7)] .
  moreover have "smo_ok (\<lambda>os. os) two_segs SM_FREE empty_log (\<lambda>_. [])"
    using empty_log_ok(1) unfolding smo_ok_geometry[OF empty_map_fields(7)] .
  moreover have "SM_ALLOC \<noteq> SM_FREE" by (simp add: SM_ALLOC_def SM_FREE_def)
  ultimately have "\<exists>sm' smo' os' g'. space_map_sync word_store 1 5 two_segs SM_ALLOC empty_log (\<lambda>_. []) = Inr (sm', smo', os')
    \<and> sm_inv sm' \<and> sm_set sm' = {} \<and> smo_ok (\<lambda>os. os) two_segs SM_FREE smo' os'
    \<and> space_map_load example_kernel opsf word_store empty_map None SM_FREE smo' os' = Inr (g', 0) \<and> sm_inv g'
    \<and> sm_set g' = (if SM_ALLOC = SM_FREE then {0 ..< 65536} \<union> sm_set two_segs else {0 ..< 65536} - sm_set two_segs)"
    using space_map_sync_load[OF two_segs_inv _ ne _ disjI1[OF refl] word_store_appends _ example_kernel_fresh _ _
        empty_map_inv empty_map_fields(1-3,7,4), of empty_log "\<lambda>_. []" 1 5 opsf]
    unfolding l by simp
  then show "\<exists>sm' smo' os' g'. space_map_sync word_store 1 5 two_segs SM_ALLOC empty_log (\<lambda>_. []) = Inr (sm', smo', os')
    \<and> sm_set sm' = {}
    \<and> space_map_load example_kernel opsf word_store empty_map None SM_FREE smo' os' = Inr (g', 0)
    \<and> sm_set g' = {0 ..< 65536} - sm_set two_segs"
    by (simp only: SM_ALLOC_def SM_FREE_def) (elim exE conjE, intro exI conjI, assumption+, simp)
qed

text \<open>
  C25: \<open>space_map_load\<close> when a read of the log may fail. A read returns the words of the object or an error. The load
  returns; if every read it made succeeded it answers 0 and the map is loaded with what the log stands for, and otherwise it answers the
  error of the read that failed and leaves the map unloaded and empty, ready for another attempt.
\<close>

theorem space_map_load_error:
  assumes "sm_inv sm" "sm_set sm = {}" "\<not> sm_loaded sm" "\<not> sm_loading sm" "sm_ops sm = None" "sm_pp_root sm = None"
    and "kmem_fresh k" "dmu_reads_or_fails dm contents" "smo_ok contents sm mt smo os"
    and "mt = SM_FREE \<longrightarrow> sm_range sm (sm_start sm) (sm_size sm)"
  shows "\<exists>sm' e. space_map_load k opsf dm sm None mt smo os = Inr (sm', e) \<and> sm_inv sm' \<and> \<not> sm_loading sm'
     \<and> (e = 0 \<longleftrightarrow> (\<forall>n < (unat (smo_objsize smo) + 4095) div 4096. fst (block_read dm os smo n) = 0))
     \<and> (if e = 0 then sm_loaded sm' \<and> sm_set sm' = logged contents sm mt smo os
        else \<not> sm_loaded sm' \<and> sm_ops sm' = None \<and> sm_set sm' = {} \<and> (\<exists>n. fst (block_read dm os smo n) = e))"
  using space_map_load_fail[OF assms(1-9)] assms(10) by blast

theorem space_map_load_error_witness:
  "\<forall>opsf. \<exists>sm'. space_map_load example_kernel opsf bad_store empty_map None SM_FREE example_smo ((\<lambda>_. [])(7 := [example_entry])) = Inr (sm', 5)
     \<and> \<not> sm_loaded sm' \<and> sm_set sm' = {}"
proof
  fix opsf
  have c: "((\<lambda>_. [])(7 := [example_entry])) (smo_object example_smo) = [example_entry]" by (simp add: example_smo_def)
  have "sm_pp_root empty_map = None" by (simp add: empty_map_def space_map_create_def)
  moreover have "fst (block_read bad_store os example_smo n) = 5" for os n by (simp add: block_read_def bad_store_def)
  moreover have "0 < (unat (smo_objsize example_smo) + 4095) div 4096" by (simp add: example_smo_def)
  ultimately show "\<exists>sm'. space_map_load example_kernel opsf bad_store empty_map None SM_FREE example_smo ((\<lambda>_. [])(7 := [example_entry])) = Inr (sm', 5)
     \<and> \<not> sm_loaded sm' \<and> sm_set sm' = {}"
    using space_map_load_error[OF empty_map_inv empty_map_fields(1-3) _ example_kernel_fresh bad_store_fails example_log(2)[where contents = "\<lambda>os. os" and os = "(\<lambda>_. [])(7 := [example_entry])", OF c], of opsf]
      empty_map_fields(4) by fastforce
qed

end
