(* ===== verification/Space_Ref.thy ===== *)
theory Space_Ref
  imports Space_Map_Disk
begin

text \<open>
  Space map reference trees (\<open>space_map.c\<close>, \<open>space_map_ref_*\<close>): an AVL tree of offsets at which a
  reference count changes, from which \<open>space_map_ref_generate_map\<close> makes the map of the integers whose
  count is at least \<open>minref\<close>. A \<open>ref_tree\<close> owns the \<open>space_ref_t\<close> objects that it allocates.
\<close>

section \<open>Data and operations\<close>

type_synonym s64 = "64 word"

record space_ref =
  sr_offset :: u64
  sr_refcnt :: s64

record ref_tree =
  rt_tree :: avl_tree
  rt_refs :: "addr \<Rightarrow> space_ref option"

type_synonym ref_alloc = "(addr \<Rightarrow> space_ref option) \<Rightarrow> addr"

definition alloc_fresh :: "ref_alloc \<Rightarrow> bool" where
  "alloc_fresh al \<longleftrightarrow> (\<forall>h. finite (dom h) \<longrightarrow> al h \<notin> dom h \<and> al h \<noteq> avl_tmp)"

text \<open>Nodes are compared by offset, and by address where the offsets are equal.\<close>

definition space_map_ref_compare :: "u64 \<times> addr \<Rightarrow> u64 \<times> addr \<Rightarrow> int" where
  "space_map_ref_compare sr1 sr2 =
     (if fst sr1 < fst sr2 then -1
      else if fst sr1 > fst sr2 then 1
      else if snd sr1 < snd sr2 then -1
      else if snd sr1 > snd sr2 then 1
      else 0)"

definition ref_at :: "ref_tree \<Rightarrow> addr \<Rightarrow> space_ref" where
  "ref_at rt a = (case rt_refs rt a of None \<Rightarrow> \<lparr>sr_offset = 0, sr_refcnt = 0\<rparr> | Some r \<Rightarrow> r)"

definition ref_key :: "ref_tree \<Rightarrow> addr \<Rightarrow> u64 \<times> addr" where
  "ref_key rt a = (sr_offset (ref_at rt a), a)"

definition space_map_ref_create :: ref_tree where
  "space_map_ref_create = \<lparr>rt_tree = avl_create (\<lambda>_. blank_node), rt_refs = (\<lambda>_. None)\<rparr>"

partial_function (option) ref_destroy_loop :: "ref_tree \<Rightarrow> avl_cookie \<Rightarrow> ref_tree res option" where
  "ref_destroy_loop rt cookie =
     (case avl_destroy_nodes (rt_tree rt) cookie of
        Inl e \<Rightarrow> Some (Inl e)
      | Inr (t, cookie', node) \<Rightarrow>
          (case node of
             None \<Rightarrow> Some (Inr (rt\<lparr>rt_tree := t\<rparr>))
           | Some sr \<Rightarrow>
               (case rt_refs rt sr of
                  None \<Rightarrow> Some (Inl NullDeref)
                | Some _ \<Rightarrow>
                    ref_destroy_loop \<lparr>rt_tree = set_node sr blank_node t, rt_refs = (rt_refs rt)(sr := None)\<rparr> cookie')))"

definition space_map_ref_destroy :: "ref_tree \<Rightarrow> ref_tree res" where
  "space_map_ref_destroy rt =
     rbind (rbind (of_loop (ref_destroy_loop rt CookieNull)) id) (\<lambda>rt.
     rbind (avl_destroy (rt_tree rt)) (\<lambda>_. Inr rt))"

definition space_map_ref_add_node :: "ref_alloc \<Rightarrow> u64 \<Rightarrow> s64 \<Rightarrow> ref_tree \<Rightarrow> ref_tree res" where
  "space_map_ref_add_node al offset refcnt rt =
     (let sr = al (rt_refs rt);
          rt = rt\<lparr>rt_refs := (rt_refs rt)(sr \<mapsto> \<lparr>sr_offset = offset, sr_refcnt = refcnt\<rparr>)\<rparr>
      in rbind (avl_add (\<lambda>n. space_map_ref_compare (ref_key rt sr) (ref_key rt n)) (rt_tree rt) sr) (\<lambda>t.
         Inr (rt\<lparr>rt_tree := t\<rparr>)))"

definition space_map_ref_add_seg :: "ref_alloc \<Rightarrow> u64 \<Rightarrow> u64 \<Rightarrow> s64 \<Rightarrow> ref_tree \<Rightarrow> ref_tree res" where
  "space_map_ref_add_seg al start end' refcnt rt =
     rbind (space_map_ref_add_node al start refcnt rt) (space_map_ref_add_node al end' (- refcnt))"

definition space_map_ref_add_map :: "ref_alloc \<Rightarrow> space_map \<Rightarrow> s64 \<Rightarrow> ref_tree \<Rightarrow> ref_tree res" where
  "space_map_ref_add_map al sm refcnt rt =
     ASSERT (sm_lock_held sm) (
     scan (avl_first (sm_root sm)) (AVL_NEXT (sm_root sm))
       (\<lambda>ss rt. rbind (deref_seg sm ss) (\<lambda>s. space_map_ref_add_seg al (ss_start s) (ss_end s) refcnt rt)) rt)"

text \<open>The body of the loop in \<open>space_map_ref_generate_map\<close>; \<open>start\<close> is \<open>-1\<close> outside of a run.\<close>

definition ref_generate_step ::
  "kernel \<Rightarrow> s64 \<Rightarrow> space_ref \<Rightarrow> u64 \<times> s64 \<times> space_map \<Rightarrow> (u64 \<times> s64 \<times> space_map) res" where
  "ref_generate_step k minref sr = (\<lambda>(start, refcnt, sm).
     (let refcnt = refcnt + sr_refcnt sr
      in if sint refcnt \<ge> sint minref then
           Inr (if start = -1 then sr_offset sr else start, refcnt, sm)
         else if start \<noteq> -1 then
           (let end' = sr_offset sr
            in ASSERT (start \<le> end') (
               rbind (if end' > start then space_map_add k sm start (end' - start) else Inr sm) (\<lambda>sm.
                 Inr (-1, refcnt, sm))))
         else Inr (start, refcnt, sm)))"

definition space_map_ref_generate_map :: "kernel \<Rightarrow> ref_tree \<Rightarrow> space_map \<Rightarrow> s64 \<Rightarrow> space_map res" where
  "space_map_ref_generate_map k rt sm minref =
     ASSERT (sm_lock_held sm) (
     rbind (space_map_vacate sm None ()) (\<lambda>(sm, _).
     rbind (scan (avl_first (rt_tree rt)) (AVL_NEXT (rt_tree rt))
        (\<lambda>a st. rbind (deref (rt_refs rt a)) (\<lambda>sr. ref_generate_step k minref sr st)) (-1, 0, sm))
     (\<lambda>(start, refcnt, sm).
       ASSERT (refcnt = 0) (ASSERT (start = -1) (Inr sm)))))"

lemmas ref_destroy_loop_code [code] = ref_destroy_loop.simps

section \<open>The order of the nodes\<close>

lemma ref_compare_less: "space_map_ref_compare x y < 0 \<longleftrightarrow> fst x < fst y \<or> fst x = fst y \<and> snd x < snd y"
  by (auto simp: space_map_ref_compare_def)

interpretation ref_order: comparator space_map_ref_compare
proof
  fix x y z :: "u64 \<times> addr"
  show "space_map_ref_compare x y \<in> {-1, 0, 1}" by (simp add: space_map_ref_compare_def)
  show "space_map_ref_compare x y = 0 \<longleftrightarrow> x = y"
    unfolding space_map_ref_compare_def prod_eq_iff
    by (rule linorder_cases[of "fst x" "fst y"]; rule linorder_cases[of "snd x" "snd y"]) simp_all
  show "space_map_ref_compare y x = - space_map_ref_compare x y"
    unfolding space_map_ref_compare_def
    by (rule linorder_cases[of "fst x" "fst y"]; rule linorder_cases[of "snd x" "snd y"]) simp_all
  show "space_map_ref_compare x y < 0 \<Longrightarrow> space_map_ref_compare y z < 0 \<Longrightarrow> space_map_ref_compare x z < 0"
    unfolding ref_compare_less by (elim disjE conjE) (use order.strict_trans in fastforce)+
qed

section \<open>Sums of changes\<close>

text \<open>The count at \<open>p\<close> is the sum of the changes at offsets up to \<open>p\<close>.\<close>

abbreviation change :: "space_ref \<Rightarrow> int" where
  "change r \<equiv> sint (sr_refcnt r)"

definition count_at :: "space_ref list \<Rightarrow> nat \<Rightarrow> int" where
  "count_at rs p = (\<Sum>r\<leftarrow>rs. if unat (sr_offset r) \<le> p then change r else 0)"

definition total :: "space_ref list \<Rightarrow> int" where
  "total rs = (\<Sum>r\<leftarrow>rs. change r)"

definition weight :: "space_ref list \<Rightarrow> int" where
  "weight rs = (\<Sum>r\<leftarrow>rs. \<bar>change r\<bar>)"

lemma count_simps [simp]:
  "count_at [] p = 0" "count_at (r # rs) p = (if unat (sr_offset r) \<le> p then change r else 0) + count_at rs p"
  "count_at (rs @ rs') p = count_at rs p + count_at rs' p"
  "total [] = 0" "total (r # rs) = change r + total rs" "total (rs @ rs') = total rs + total rs'"
  "weight [] = 0" "weight (r # rs) = \<bar>change r\<bar> + weight rs" "weight (rs @ rs') = weight rs + weight rs'"
  by (simp_all add: count_at_def total_def weight_def)

lemma total_weight: "\<bar>total rs\<bar> \<le> weight rs"
  by (induction rs) auto

lemma weight_nonneg: "0 \<le> weight rs"
  by (induction rs) auto

lemma count_before: "\<forall>r \<in> set rs. p < unat (sr_offset r) \<Longrightarrow> count_at rs p = 0"
  by (induction rs) auto

lemma count_after: "\<forall>r \<in> set rs. unat (sr_offset r) \<le> p \<Longrightarrow> count_at rs p = total rs"
  by (induction rs) auto

lemma sint_add_64: "\<bar>sint x + sint y\<bar> < 2 ^ 63 \<Longrightarrow> sint (x + y :: s64) = sint x + sint y"
  by (subst sint_word_add, subst signed_take_bit_int_eq_self) auto

lemma sint_one_64: "sint (1 :: s64) = 1"
  by simp

lemma sint_minus_64: "\<bar>sint x\<bar> < 2 ^ 63 \<Longrightarrow> sint (- x :: s64) = - sint x"
  by (subst sint_word_ariths(4), subst signed_take_bit_int_eq_self) auto

section \<open>The invariant\<close>

definition ref_inv :: "ref_tree \<Rightarrow> addr list \<Rightarrow> bool" where
  "ref_inv rt xs \<longleftrightarrow> avl_inv (rt_tree rt) xs \<and> dom (rt_refs rt) = set xs
     \<and> sorted_wrt (\<lambda>a b. space_map_ref_compare (ref_key rt a) (ref_key rt b) < 0) xs"

definition ref_ok :: "space_map \<Rightarrow> space_ref \<Rightarrow> bool" where
  "ref_ok g r \<longleftrightarrow> unat (sm_start g) \<le> unat (sr_offset r) \<and> unat (sr_offset r) \<le> unat (sm_start g) + unat (sm_size g)
     \<and> 2 ^ unat (sm_shift g) dvd unat (sr_offset r) \<and> (sr_offset r = -1 \<longrightarrow> change r \<le> 0)"

text \<open>The tree stands for the counts \<open>f\<close>, on the offsets of the map \<open>g\<close>; \<open>B\<close> bounds every partial sum.\<close>

definition ref_rep :: "space_map \<Rightarrow> ref_tree \<Rightarrow> (nat \<Rightarrow> int) \<Rightarrow> int \<Rightarrow> bool" where
  "ref_rep g rt f B \<longleftrightarrow> (\<exists>xs. ref_inv rt xs \<and> (\<forall>r \<in> set (map (ref_at rt) xs). ref_ok g r)
     \<and> count_at (map (ref_at rt) xs) = f \<and> total (map (ref_at rt) xs) = 0 \<and> weight (map (ref_at rt) xs) \<le> B)"

lemma ref_create_rep: "ref_rep g space_map_ref_create (\<lambda>_. 0) 0"
  by (auto simp: ref_rep_def space_map_ref_create_def ref_inv_def fun_eq_iff intro!: exI[of _ "[]"])

lemma ref_at_upd: "ref_at (rt\<lparr>rt_refs := (rt_refs rt)(a \<mapsto> r)\<rparr>) = (ref_at rt)(a := r)"
  by (auto simp: ref_at_def fun_eq_iff)

lemma ref_at_tree [simp]: "ref_at (rt\<lparr>rt_tree := t\<rparr>) = ref_at rt" "ref_key (rt\<lparr>rt_tree := t\<rparr>) = ref_key rt"
  by (simp_all add: ref_at_def ref_key_def fun_eq_iff)

lemma ref_add_node:
  assumes "ref_inv rt xs" "alloc_fresh al" and r: "r = \<lparr>sr_offset = off, sr_refcnt = c\<rparr>"
  shows "\<exists>rt' ys us vs. space_map_ref_add_node al off c rt = Inr rt' \<and> ref_inv rt' ys
     \<and> map (ref_at rt) xs = us @ vs \<and> map (ref_at rt') ys = us @ r # vs"
proof -
  let ?a = "al (rt_refs rt)"
  let ?rt = "rt\<lparr>rt_refs := (rt_refs rt)(?a \<mapsto> r)\<rparr>"
  let ?c = "\<lambda>n. space_map_ref_compare (ref_key ?rt ?a) (ref_key ?rt n)"
  have tree: "avl_inv (rt_tree rt) xs" "dom (rt_refs rt) = set xs"
    "sorted_wrt (\<lambda>a b. space_map_ref_compare (ref_key rt a) (ref_key rt b) < 0) xs"
    using assms(1) by (auto simp: ref_inv_def)
  have "finite (dom (rt_refs rt))" using tree(2) by simp
  then have a: "?a \<notin> set xs" "?a \<noteq> avl_tmp" using assms(2) unfolding alloc_fresh_def tree(2)[symmetric] by blast+
  then have at: "ref_at ?rt b = ref_at rt b" "ref_key ?rt b = ref_key rt b" if "b \<in> set xs" for b
    using that by (auto simp: ref_at_upd ref_key_def)
  then have srt: "sorted_wrt (\<lambda>a b. space_map_ref_compare (ref_key ?rt a) (ref_key ?rt b) < 0) xs"
    using sorted_wrt_mono_rel[OF _ tree(3)] by simp
  have comp: "compar_sorted ?c xs" by (rule ref_order.sorted_keys_compar[OF srt])
  have um: "unmatched ?c xs"
    unfolding ref_order.unmatched_keys using a(1) by (auto simp: ref_key_def)
  obtain t where t: "avl_add ?c (rt_tree rt) ?a = Inr t" "avl_inv t (below ?c xs @ ?a # above ?c xs)"
    using avl_add_inv[OF tree(1) comp um a] by blast
  have xs: "xs = below ?c xs @ above ?c xs" by (rule below_above[OF comp um])
  have "set (below ?c xs @ ?a # above ?c xs) = insert ?a (set xs)" using arg_cong[OF xs, of set] by auto
  then have "ref_inv (?rt\<lparr>rt_tree := t\<rparr>) (below ?c xs @ ?a # above ?c xs)"
    using t(2) tree(2) ref_order.sorted_keys_insert[OF srt, of ?a] by (auto simp: ref_inv_def simp del: set_append)
  moreover have "map (ref_at rt) xs = map (ref_at rt) (below ?c xs) @ map (ref_at rt) (above ?c xs)"
    using arg_cong[OF xs, of "map (ref_at rt)"] by simp
  moreover have "map (ref_at (?rt\<lparr>rt_tree := t\<rparr>)) (below ?c xs @ ?a # above ?c xs)
      = map (ref_at rt) (below ?c xs) @ r # map (ref_at rt) (above ?c xs)"
    using at(1) by (simp add: ref_at_upd)
  moreover have "space_map_ref_add_node al off c rt = Inr (?rt\<lparr>rt_tree := t\<rparr>)"
    using t(1) by (simp add: space_map_ref_add_node_def Let_def r)
  ultimately show ?thesis by blast
qed

lemma ref_add_seg:
  assumes rep: "ref_rep g rt f B" and "alloc_fresh al" and s: "unat start \<le> unat end'"
    and ok: "ref_ok g \<lparr>sr_offset = start, sr_refcnt = c\<rparr>" "ref_ok g \<lparr>sr_offset = end', sr_refcnt = - c\<rparr>"
    and c: "\<bar>sint c\<bar> < 2 ^ 63"
  shows "\<exists>rt'. space_map_ref_add_seg al start end' c rt = Inr rt'
     \<and> ref_rep g rt' (\<lambda>p. f p + (if p \<in> {unat start ..< unat end'} then sint c else 0)) (B + 2 * \<bar>sint c\<bar>)"
proof -
  let ?r = "\<lparr>sr_offset = start, sr_refcnt = c\<rparr>" and ?r' = "\<lparr>sr_offset = end', sr_refcnt = - c\<rparr>"
  obtain xs where xs: "ref_inv rt xs" "\<forall>r \<in> set (map (ref_at rt) xs). ref_ok g r"
    "count_at (map (ref_at rt) xs) = f" "total (map (ref_at rt) xs) = 0" "weight (map (ref_at rt) xs) \<le> B"
    using rep by (auto simp: ref_rep_def)
  obtain rt1 ys us vs where 1: "space_map_ref_add_node al start c rt = Inr rt1" "ref_inv rt1 ys"
    "map (ref_at rt) xs = us @ vs" "map (ref_at rt1) ys = us @ ?r # vs"
    using ref_add_node[OF xs(1) assms(2) refl, of start c] by blast
  obtain rt2 zs us' vs' where 2: "space_map_ref_add_node al end' (- c) rt1 = Inr rt2" "ref_inv rt2 zs"
    "map (ref_at rt1) ys = us' @ vs'" "map (ref_at rt2) zs = us' @ ?r' # vs'"
    using ref_add_node[OF 1(2) assms(2) refl, of end' "- c"] by blast
  have eq: "us' @ vs' = us @ ?r # vs" using 1(4) 2(3) by simp
  note cm = sint_minus_64[OF c]
  have "set (us' @ vs') = set (us @ ?r # vs)" unfolding eq ..
  then have "\<forall>r \<in> set (map (ref_at rt2) zs). ref_ok g r"
    unfolding 2(4) using xs(2) ok unfolding 1(3) by auto
  moreover have "count_at (map (ref_at rt2) zs) p = f p + (if p \<in> {unat start ..< unat end'} then sint c else 0)" for p
  proof -
    have "count_at (us' @ vs') p = count_at (us @ ?r # vs) p" unfolding eq ..
    then show ?thesis unfolding 2(4) xs(3)[symmetric] 1(3) using s cm by (simp split: if_splits)
  qed
  moreover have "total (us' @ vs') = total (us @ ?r # vs)" unfolding eq ..
  then have "total (map (ref_at rt2) zs) = 0" unfolding 2(4) using xs(4) cm unfolding 1(3) by simp
  moreover have "weight (us' @ vs') = weight (us @ ?r # vs)" unfolding eq ..
  then have "weight (map (ref_at rt2) zs) \<le> B + 2 * \<bar>sint c\<bar>"
    unfolding 2(4) using xs(5) cm unfolding 1(3) by simp
  ultimately have "ref_rep g rt2 (\<lambda>p. f p + (if p \<in> {unat start ..< unat end'} then sint c else 0)) (B + 2 * \<bar>sint c\<bar>)"
    using 2(2) unfolding ref_rep_def by (intro exI[of _ zs]) auto
  then show ?thesis using 1(1) 2(1) by (simp add: space_map_ref_add_seg_def)
qed

lemma ref_rep_geometry: "sm_geometry g h \<Longrightarrow> ref_rep g rt f B \<Longrightarrow> ref_rep h rt f B"
  unfolding ref_rep_def ref_ok_def sm_geometry_def by auto

lemma if_disjoint_Un:
  "A \<inter> B = {} \<Longrightarrow> (x + (if p \<in> A then c else 0)) + (if p \<in> B then c else 0) = x + (if p \<in> A \<union> B then c else (0 :: int))"
  by auto

lemma ref_add_segs:
  assumes pre: "sm_pre sm xs A" and al: "alloc_fresh al" and c: "0 \<le> sint c"
    and "sm_geometry sm g" "distinct ps" "set ps \<subseteq> set xs" "ref_rep g rt f B"
  shows "\<exists>rt'. foldM (\<lambda>a rt. space_map_ref_add_seg al (ss_start (seg_at sm a)) (ss_end (seg_at sm a)) c rt) ps rt = Inr rt'
     \<and> ref_rep g rt' (\<lambda>p. f p + (if p \<in> segs_set (seg_at sm) (set ps) then sint c else 0))
         (B + 2 * \<bar>sint c\<bar> * int (length ps))"
  using assms(5-)
proof (induction ps arbitrary: rt f B)
  case (Cons a ps)
  have a: "a \<in> set xs" using Cons.prems(2) by simp
  then have s: "lo (seg_at sm a) < hi (seg_at sm a)" "sm_bounds sm (seg_at sm a)"
    using pre seg_listD by (auto simp: sm_pre_def)
  have not_top: "ss_start (seg_at sm a) \<noteq> -1"
    using s(1) unat_less_64[of "ss_end (seg_at sm a)"] by (auto simp: unsigned_minus_1_eq_mask mask_eq_exp_minus_1)
  have cb: "\<bar>sint c\<bar> < 2 ^ 63" using c sint_less[of c] by simp
  note cm = sint_minus_64[OF cb]
  have ok: "ref_ok g \<lparr>sr_offset = ss_start (seg_at sm a), sr_refcnt = c\<rparr>"
    "ref_ok g \<lparr>sr_offset = ss_end (seg_at sm a), sr_refcnt = - c\<rparr>"
    using s assms(4) c cm not_top by (auto simp: ref_ok_def sm_bounds_def sm_geometry_def)
  obtain rt1 where 1: "space_map_ref_add_seg al (ss_start (seg_at sm a)) (ss_end (seg_at sm a)) c rt = Inr rt1"
    "ref_rep g rt1 (\<lambda>p. f p + (if p \<in> seg_set (seg_at sm a) then sint c else 0)) (B + 2 * \<bar>sint c\<bar>)"
    using ref_add_seg[OF Cons.prems(3) al less_imp_le[OF s(1)] ok cb] by blast
  obtain rt2 where 2: "foldM (\<lambda>a rt. space_map_ref_add_seg al (ss_start (seg_at sm a)) (ss_end (seg_at sm a)) c rt) ps rt1 = Inr rt2"
    "ref_rep g rt2 (\<lambda>p. (f p + (if p \<in> seg_set (seg_at sm a) then sint c else 0))
         + (if p \<in> segs_set (seg_at sm) (set ps) then sint c else 0)) (B + 2 * \<bar>sint c\<bar> + 2 * \<bar>sint c\<bar> * int (length ps))"
    using Cons.IH[OF _ _ 1(2)] Cons.prems(1,2) by auto
  have disj: "segs_set (seg_at sm) (set ps) \<inter> seg_set (seg_at sm a) = {}"
    using segs_apart[OF pre a, of "set ps"] Cons.prems(1,2) by simp
  have "(\<lambda>p. (f p + (if p \<in> seg_set (seg_at sm a) then sint c else 0)) + (if p \<in> segs_set (seg_at sm) (set ps) then sint c else 0))
     = (\<lambda>p. f p + (if p \<in> segs_set (seg_at sm) (set (a # ps)) then sint c else 0))"
    unfolding list.set segs_set_simps using disj by (intro ext if_disjoint_Un) blast
  then show ?case using 1(1) 2 by (simp add: algebra_simps del: segs_set_simps)
qed simp

lemma ref_add_map:
  assumes "ref_rep g rt f B" "sm_inv sm" "sm_geometry sm g" "alloc_fresh al" "0 \<le> sint c"
  shows "\<exists>rt'. space_map_ref_add_map al sm c rt = Inr rt'
     \<and> ref_rep g rt' (\<lambda>p. f p + (if p \<in> sm_set sm then sint c else 0)) (B + 2 * \<bar>sint c\<bar> * int (avl_numnodes (sm_root sm)))"
proof -
  obtain xs where rep: "sm_pre sm xs (set xs)" and held: "sm_lock_held sm" using assms(2) by (auto simp: sm_inv_def sm_rep_def)
  have tree: "avl_inv (sm_root sm) xs" "dom (sm_segs sm) = set xs" using rep by (auto simp: sm_pre_def)
  let ?f = "\<lambda>a rt. space_map_ref_add_seg al (ss_start (seg_at sm a)) (ss_end (seg_at sm a)) c rt"
  have "foldM (\<lambda>ss rt. rbind (deref_seg sm ss) (\<lambda>s. space_map_ref_add_seg al (ss_start s) (ss_end s) c rt)) xs rt = foldM ?f xs rt"
    using tree(2) by (intro foldM_cong) (auto simp: deref_seg_known domIff set_eq_iff)
  then have "space_map_ref_add_map al sm c rt = foldM ?f xs rt"
    using held tree(1) by (simp add: space_map_ref_add_map_def fwd.scan_all)
  then show ?thesis
    using ref_add_segs[OF rep assms(4,5,3) sm_pre_distinct[OF rep] subset_refl assms(1)] sm_set_rep[OF rep]
      avl_inv_numnodes[OF tree(1)] by simp
qed

section \<open>Generating the map\<close>

text \<open>The loop over the nodes \<open>zs\<close>, when the nodes before them have been handled up to offset \<open>L\<close>.\<close>

definition gen_inv :: "space_map \<Rightarrow> (nat \<Rightarrow> int) \<Rightarrow> int \<Rightarrow> nat \<Rightarrow> int \<Rightarrow> u64 \<times> s64 \<times> space_map \<Rightarrow> bool" where
  "gen_inv sm0 f m L t st \<longleftrightarrow> (case st of (start, refcnt, sm) \<Rightarrow>
     sint refcnt = t \<and> (start \<noteq> -1 \<longleftrightarrow> t \<ge> m) \<and> sm_inv sm \<and> sm_same sm0 sm
     \<and> (start = -1 \<longrightarrow> sm_set sm = {p. p < L \<and> f p \<ge> m})
     \<and> (start \<noteq> -1 \<longrightarrow> unat start \<le> L \<and> sm_set sm \<inter> {unat start ..< L} = {}
          \<and> sm_set sm \<union> {unat start ..< L} = {p. p < L \<and> f p \<ge> m}
          \<and> unat (sm_start sm) \<le> unat start \<and> 2 ^ unat (sm_shift sm) dvd unat start))"

lemma gen_inv_advance:
  assumes "gen_inv sm0 f m L t st" "L \<le> L'" "\<forall>p \<in> {L ..< L'}. f p = t"
  shows "gen_inv sm0 f m L' t st"
proof -
  obtain start refcnt sm where st: "st = (start, refcnt, sm)" by (cases st)
  have eq: "{p. p < L' \<and> f p \<ge> m} = {p. p < L \<and> f p \<ge> m} \<union> (if t \<ge> m then {L ..< L'} else {})"
    using assms(2,3) by (auto simp: not_less)
  show ?thesis
  proof (cases "start = -1")
    case True
    then show ?thesis using assms(1) unfolding st gen_inv_def prod.case eq by auto
  next
    case False
    with assms(1) have s: "unat start \<le> L" "t \<ge> m" unfolding st gen_inv_def prod.case by auto
    then have cut: "{unat start ..< L'} = {unat start ..< L} \<union> {L ..< L'}" using assms(2) by auto
    have un: "sm_set sm \<union> {unat start ..< L} = {p. p < L \<and> f p \<ge> m}" and dis: "sm_set sm \<inter> {unat start ..< L} = {}"
      using assms(1) False unfolding st gen_inv_def prod.case by blast+
    have "p < L" if "p \<in> sm_set sm" for p using un that by blast
    then have "sm_set sm \<inter> {L ..< L'} = {}" using leD by fastforce
    then have "sm_set sm \<inter> {unat start ..< L'} = {}" unfolding cut using dis by blast
    moreover have "sm_set sm \<union> {unat start ..< L'} = {p. p < L' \<and> f p \<ge> m}"
      unfolding eq cut Un_assoc[symmetric] un using s(2) by simp
    moreover have "unat start \<le> L'" using s(1) assms(2) by simp
    ultimately show ?thesis using assms(1) False unfolding st gen_inv_def prod.case by simp
  qed
qed

lemma ref_generate_step_inv:
  assumes inv: "gen_inv sm0 f (sint minref) (unat (sr_offset sr)) t st"
    and ok: "ref_ok sm0 sr" and small: "\<bar>t\<bar> + \<bar>change sr\<bar> < 2 ^ 63" and fresh: "kmem_fresh k"
  shows "\<exists>st'. ref_generate_step k minref sr st = Inr st' \<and> gen_inv sm0 f (sint minref) (unat (sr_offset sr)) (t + change sr) st'"
proof -
  let ?L = "unat (sr_offset sr)" and ?m = "sint minref"
  obtain start refcnt sm where st: "st = (start, refcnt, sm)" by (cases st)
  have i: "sint refcnt = t" "start \<noteq> -1 \<longleftrightarrow> t \<ge> ?m" "sm_inv sm" "sm_same sm0 sm"
    "start = -1 \<Longrightarrow> sm_set sm = {p. p < ?L \<and> f p \<ge> ?m}"
    "start \<noteq> -1 \<Longrightarrow> unat start \<le> ?L \<and> sm_set sm \<inter> {unat start ..< ?L} = {}
          \<and> sm_set sm \<union> {unat start ..< ?L} = {p. p < ?L \<and> f p \<ge> ?m}
          \<and> unat (sm_start sm) \<le> unat start \<and> 2 ^ unat (sm_shift sm) dvd unat start"
    using inv unfolding st gen_inv_def prod.case by blast+
  have sum: "sint (refcnt + sr_refcnt sr) = t + change sr"
    using small i(1) by (subst sint_add_64) auto
  show ?thesis
  proof (cases "t + change sr \<ge> ?m")
    case True
    have at: "unat (sm_start sm) \<le> ?L" "2 ^ unat (sm_shift sm) dvd ?L"
      using ok(1) i(4) by (auto simp: ref_ok_def sm_same_def)
    have real: "sr_offset sr \<noteq> -1" if "start = -1"
      using ok(1) that i(2) True by (auto simp: ref_ok_def)
    have "ref_generate_step k minref sr st
        = Inr (if start = -1 then sr_offset sr else start, refcnt + sr_refcnt sr, sm)"
      using True sum by (simp add: st ref_generate_step_def Let_def)
    moreover have "gen_inv sm0 f ?m ?L (t + change sr) (if start = -1 then sr_offset sr else start, refcnt + sr_refcnt sr, sm)"
      unfolding gen_inv_def prod.case using True sum i real at by auto
    ultimately show ?thesis by blast
  next
    case False
    show ?thesis
    proof (cases "start = -1")
      case True
      then have "ref_generate_step k minref sr st = Inr (start, refcnt + sr_refcnt sr, sm)"
        using False sum by (simp add: st ref_generate_step_def Let_def)
      moreover have "gen_inv sm0 f ?m ?L (t + change sr) (start, refcnt + sr_refcnt sr, sm)"
        unfolding gen_inv_def prod.case using True False sum i by auto
      ultimately show ?thesis by blast
    next
      case run: False
      note s = i(6)[OF run]
      have le: "start \<le> sr_offset sr" using s by (simp add: word_le_nat_alt)
      have len: "unat (sr_offset sr - start) = ?L - unat start" using unat_diff_le[OF le] .
      have "\<exists>sm'. (if sr_offset sr > start then space_map_add k sm start (sr_offset sr - start) else Inr sm) = Inr sm'
          \<and> sm_inv sm' \<and> sm_set sm' = sm_set sm \<union> {unat start ..< ?L} \<and> sm_same sm0 sm'"
      proof (cases "start < sr_offset sr")
        case True
        then have lt: "unat start < ?L" by (simp add: word_less_nat_alt)
        have "?L \<le> unat (sm_start sm) + unat (sm_size sm)" "2 ^ unat (sm_shift sm) dvd ?L"
          using ok(1) i(4) by (auto simp: ref_ok_def sm_same_def)
        moreover have "sr_offset sr - start \<noteq> 0" using lt len by (metis less_numeral_extra(3) unat_0 zero_less_diff)
        ultimately have "sm_range sm start (sr_offset sr - start)"
          using s lt by (auto simp: sm_range_def len intro: dvd_diff_nat)
        moreover have rs: "range_set start (sr_offset sr - start) = {unat start ..< ?L}" using lt len by simp
        moreover have "sm_set sm \<inter> {unat start ..< ?L} = {}" using s by blast
        ultimately obtain sm' where "space_map_add k sm start (sr_offset sr - start) = Inr sm'" "sm_inv sm'"
          "sm_set sm' = sm_set sm \<union> {unat start ..< ?L}" "sm_same sm sm'"
          using space_map_add_inv[OF i(3) fresh, of start "sr_offset sr - start"] by metis
        then show ?thesis using True sm_same_trans[OF i(4)] by auto
      next
        case eq: False
        then have "{unat start ..< ?L} = {}" by (simp add: word_less_nat_alt)
        then show ?thesis using eq i(3,4) by simp
      qed
      then obtain sm' where sm': "(if sr_offset sr > start then space_map_add k sm start (sr_offset sr - start) else Inr sm) = Inr sm'"
        "sm_inv sm'" "sm_set sm' = sm_set sm \<union> {unat start ..< ?L}" "sm_same sm0 sm'" by (elim exE conjE)
      have "ref_generate_step k minref sr st = Inr (-1, refcnt + sr_refcnt sr, sm')"
        using False run sum le sm'(1) by (simp add: st ref_generate_step_def Let_def)
      moreover have "sm_set sm' = {p. p < ?L \<and> f p \<ge> ?m}" using sm'(3) s by simp
      then have "gen_inv sm0 f ?m ?L (t + change sr) (-1, refcnt + sr_refcnt sr, sm')"
        unfolding gen_inv_def prod.case using False sum sm'(2,4) by simp
      ultimately show ?thesis by blast
    qed
  qed
qed

lemma ref_generate_fold:
  assumes fresh: "kmem_fresh k" and "gen_inv sm0 f (sint minref) L t st"
    and "sorted_wrt (\<lambda>r r'. unat (sr_offset r) \<le> unat (sr_offset r')) rs" "\<forall>r \<in> set rs. L \<le> unat (sr_offset r)"
    and "\<forall>r \<in> set rs. ref_ok sm0 r" "\<forall>p \<ge> L. f p = t + count_at rs p" "\<bar>t\<bar> + weight rs < 2 ^ 63"
  shows "\<exists>st' L'. foldM (ref_generate_step k minref) rs st = Inr st' \<and> gen_inv sm0 f (sint minref) L' (t + total rs) st'
     \<and> (\<forall>p \<ge> L'. f p = t + total rs)"
  using assms(2-)
proof (induction rs arbitrary: L t st)
  case (Cons r rs)
  let ?L = "unat (sr_offset r)"
  have "f p = t" if "p \<in> {L ..< ?L}" for p
  proof -
    have "\<forall>r' \<in> set (r # rs). p < unat (sr_offset r')" using that Cons.prems(2) by auto
    then show ?thesis using Cons.prems(5) that count_before by fastforce
  qed
  then have adv: "gen_inv sm0 f (sint minref) ?L t st"
    using gen_inv_advance[OF Cons.prems(1), of ?L] Cons.prems(3) by simp
  have w: "\<bar>t\<bar> + \<bar>change r\<bar> < 2 ^ 63" "\<bar>t + change r\<bar> + weight rs < 2 ^ 63"
    using Cons.prems(6) weight_nonneg[of rs] by auto
  obtain st1 where st1: "ref_generate_step k minref r st = Inr st1" "gen_inv sm0 f (sint minref) ?L (t + change r) st1"
    using ref_generate_step_inv[OF adv _ w(1) fresh] Cons.prems(4) by auto
  have "\<forall>p \<ge> ?L. f p = t + change r + count_at rs p" using Cons.prems(3,5) by auto
  then show ?case
    using Cons.IH[OF st1(2) _ _ _ _ w(2)] Cons.prems(2,4) st1(1) by (auto simp: add.assoc)
qed auto

lemma foldM_map: "foldM f (map g xs) acc = foldM (\<lambda>x. f (g x)) xs acc"
  by (induction xs arbitrary: acc) (auto intro: arg_cong[where f = "rbind _"])

lemma ref_generate_map:
  assumes rep: "ref_rep g rt f B" "B < 2 ^ 63" and inv: "sm_inv sm" "sm_pp_root sm = None" and geo: "sm_geometry sm g"
    and fresh: "kmem_fresh k" and m: "0 < sint minref"
  shows "\<exists>sm'. space_map_ref_generate_map k rt sm minref = Inr sm' \<and> sm_inv sm'
     \<and> sm_set sm' = {p. f p \<ge> sint minref} \<and> sm_same sm sm'"
proof -
  obtain xs where xs: "ref_inv rt xs" "\<forall>r \<in> set (map (ref_at rt) xs). ref_ok g r" "count_at (map (ref_at rt) xs) = f"
    "total (map (ref_at rt) xs) = 0" "weight (map (ref_at rt) xs) \<le> B"
    using rep(1) by (auto simp: ref_rep_def)
  have tree: "avl_inv (rt_tree rt) xs" "dom (rt_refs rt) = set xs"
    "sorted_wrt (\<lambda>a b. space_map_ref_compare (ref_key rt a) (ref_key rt b) < 0) xs"
    using xs(1) by (auto simp: ref_inv_def)
  have held: "sm_lock_held sm" using inv(1) by (simp add: sm_inv_def)
  obtain sm1 where sm1: "space_map_vacate sm None () = Inr (sm1, ())" "sm_inv sm1" "sm_set sm1 = {}" "sm_same sm sm1"
    using space_map_vacate_all[OF inv, of "()"] by blast
  let ?rs = "map (ref_at rt) xs"
  have "sorted_wrt (\<lambda>r r'. unat (sr_offset r) \<le> unat (sr_offset r')) ?rs"
    unfolding sorted_wrt_map
    by (rule sorted_wrt_mono_rel[OF _ tree(3)]) (auto simp: ref_compare_less ref_key_def word_less_nat_alt)
  moreover have oks: "\<forall>r \<in> set ?rs. ref_ok sm r" using xs(2) geo by (auto simp: ref_ok_def sm_geometry_def)
  moreover have "gen_inv sm f (sint minref) 0 0 (-1, 0, sm1)" using sm1(2-4) m by (simp add: gen_inv_def)
  moreover have "\<bar>0\<bar> + weight ?rs < 2 ^ 63" using xs(5) rep(2) by simp
  ultimately obtain st L where st: "foldM (ref_generate_step k minref) ?rs (-1, 0, sm1) = Inr st"
    "gen_inv sm f (sint minref) L (0 + total ?rs) st" "\<forall>p \<ge> L. f p = 0 + total ?rs"
    using ref_generate_fold[OF fresh, of sm f minref 0 0 "(-1, 0, sm1)" ?rs] xs(3) by auto
  obtain start refcnt sm' where s: "st = (start, refcnt, sm')" by (cases st)
  have fin: "sint refcnt = 0" "start = -1" "sm_inv sm'" "sm_same sm sm'" "sm_set sm' = {p. p < L \<and> f p \<ge> sint minref}"
    using st(2) m unfolding s gen_inv_def xs(4) prod.case by auto
  have r0: "refcnt = 0" using fin(1) signed_eq_0_iff by blast
  have "f p < sint minref" if "p \<ge> L" for p using st(3) that m xs(4) by simp
  then have set: "sm_set sm' = {p. f p \<ge> sint minref}" unfolding fin(5) by (auto simp: not_less[symmetric])
  have known: "rt_refs rt a = Some (ref_at rt a)" if "a \<in> set xs" for a
    using that unfolding tree(2)[symmetric] by (auto simp: ref_at_def)
  have "foldM (\<lambda>a st. rbind (deref (rt_refs rt a)) (\<lambda>sr. ref_generate_step k minref sr st)) xs (-1, 0, sm1)
      = foldM (\<lambda>a. ref_generate_step k minref (ref_at rt a)) xs (-1, 0, sm1)"
    by (intro foldM_cong) (simp add: known)
  also have "\<dots> = Inr st" using st(1) by (simp add: foldM_map)
  finally have "space_map_ref_generate_map k rt sm minref = Inr sm'"
    using held sm1(1) fin(2) r0 by (simp add: space_map_ref_generate_map_def fwd.scan_all[OF tree(1)] s)
  then show ?thesis using fin set by blast
qed

section \<open>Destroying a tree\<close>

lemma ref_destroy_loop_all:
  assumes "destroying (rt_tree rt) cookie ps" "distinct ps" "dom (rt_refs rt) = set ps"
  shows "\<exists>t. avl_inv t [] \<and> ref_destroy_loop rt cookie = Some (Inr \<lparr>rt_tree = t, rt_refs = (\<lambda>_. None)\<rparr>)"
  using assms
proof (induction ps arbitrary: rt cookie)
  case Nil
  obtain t cookie' where "avl_destroy_nodes (rt_tree rt) cookie = Inr (t, cookie', None)" "avl_inv t []"
    using destroying_end[OF Nil.prems(1)] by blast
  moreover have "rt_refs rt = (\<lambda>_. None)" using Nil.prems(3) by auto
  ultimately show ?case by (intro exI[of _ t]) (simp add: ref_destroy_loop.simps[of rt])
next
  case (Cons a ps)
  obtain t1 cookie1 where step: "avl_destroy_nodes (rt_tree rt) cookie = Inr (t1, cookie1, Some a)" "destroying t1 cookie1 ps"
    using destroying_step[OF Cons.prems(1)] by blast
  let ?rt = "\<lparr>rt_tree = set_node a blank_node t1, rt_refs = (rt_refs rt)(a := None)\<rparr>"
  have "destroying (rt_tree ?rt) cookie1 ps"
    unfolding ref_tree.simps set_node_def by (rule destroying_frame[OF step(2)]) (use Cons.prems(2) in auto)
  moreover have "dom (rt_refs ?rt) = set ps" using Cons.prems(2,3) by auto
  ultimately obtain t where "avl_inv t []" "ref_destroy_loop ?rt cookie1 = Some (Inr \<lparr>rt_tree = t, rt_refs = (\<lambda>_. None)\<rparr>)"
    using Cons.IH[of ?rt cookie1] Cons.prems(2) by (auto simp del: ref_tree.simps)
  moreover obtain r where "rt_refs rt a = Some r" using Cons.prems(3) by auto
  ultimately show ?case using step(1) by (intro exI[of _ t]) (simp add: ref_destroy_loop.simps[of rt cookie])
qed

lemma ref_destroy:
  assumes "ref_inv rt xs"
  shows "\<exists>rt'. space_map_ref_destroy rt = Inr rt' \<and> rt_refs rt' = (\<lambda>_. None)"
proof -
  have tree: "avl_inv (rt_tree rt) xs" "dom (rt_refs rt) = set xs" using assms by (auto simp: ref_inv_def)
  obtain ps where "destroying (rt_tree rt) CookieNull ps" "set ps = set xs" "distinct ps"
    using destroying_start[OF tree(1)] by blast
  then obtain t where "avl_inv t []" "ref_destroy_loop rt CookieNull = Some (Inr \<lparr>rt_tree = t, rt_refs = (\<lambda>_. None)\<rparr>)"
    using ref_destroy_loop_all[of rt CookieNull ps] tree(2) by auto
  then show ?thesis by (simp add: space_map_ref_destroy_def avl_destroy_inv)
qed

section \<open>Counting how many maps hold an offset\<close>

lemma ref_add_maps:
  assumes "ref_rep g rt f B" "\<forall>sm \<in> set ms. sm_inv sm \<and> sm_geometry sm g" "alloc_fresh al"
  shows "\<exists>rt'. foldM (\<lambda>sm. space_map_ref_add_map al sm 1) ms rt = Inr rt'
     \<and> ref_rep g rt' (\<lambda>p. f p + int (length (filter (\<lambda>sm. p \<in> sm_set sm) ms)))
         (B + 2 * int (\<Sum>sm\<leftarrow>ms. avl_numnodes (sm_root sm)))"
  using assms(1,2)
proof (induction ms arbitrary: rt f B)
  case (Cons m ms)
  obtain rt1 where 1: "space_map_ref_add_map al m 1 rt = Inr rt1"
    "ref_rep g rt1 (\<lambda>p. f p + (if p \<in> sm_set m then 1 else 0)) (B + 2 * int (avl_numnodes (sm_root m)))"
    using ref_add_map[OF Cons.prems(1) _ _ assms(3), of m 1] Cons.prems(2) unfolding sint_one_64 by auto
  obtain rt2 where 2: "foldM (\<lambda>sm. space_map_ref_add_map al sm 1) ms rt1 = Inr rt2"
    "ref_rep g rt2 (\<lambda>p. (f p + (if p \<in> sm_set m then 1 else 0)) + int (length (filter (\<lambda>sm. p \<in> sm_set sm) ms)))
       (B + 2 * int (avl_numnodes (sm_root m)) + 2 * int (\<Sum>sm\<leftarrow>ms. avl_numnodes (sm_root sm)))"
    using Cons.IH[OF 1(2)] Cons.prems(2) by auto
  have "(\<lambda>p. (f p + (if p \<in> sm_set m then 1 else 0)) + int (length (filter (\<lambda>sm. p \<in> sm_set sm) ms)))
      = (\<lambda>p. f p + int (length (filter (\<lambda>sm. p \<in> sm_set sm) (m # ms))))" by auto
  with 1(1) 2 show ?case by (simp add: algebra_simps)
qed simp

end
