(* ===== verification/Space_Ref_Properties.thy ===== *)
theory Space_Ref_Properties
  imports Space_Ref Space_Map_Properties
begin

text \<open>What reference trees guarantee: they count, for every offset, the maps that hold it.\<close>

definition ref_alloc_example :: ref_alloc where
  "ref_alloc_example h = Suc (Max (insert 0 (dom h)))"

lemma ref_alloc_example_fresh: "alloc_fresh ref_alloc_example"
proof -
  have "Suc (Max (insert 0 (dom h))) \<notin> dom h" if "finite (dom h)" for h :: "addr \<Rightarrow> space_ref option"
    using Max_ge[of "insert 0 (dom h)"] that by (metis finite_insert insertI2 not_less_eq_eq order_refl)
  then show ?thesis by (simp add: alloc_fresh_def ref_alloc_example_def avl_tmp_def)
qed

text \<open>
  C17: adding maps to a fresh reference tree and generating a map from it with \<open>minref\<close> returns, and gives
  a well-formed map of exactly the offsets that at least \<open>minref\<close> of the maps hold (so 1 is the union and the
  number of maps is the intersection); the tree can then be destroyed and every node is freed. The maps
  have the geometry of the target; the total number of segments is less than \<open>2^62\<close>.
\<close>

theorem space_map_ref_quorum:
  assumes "\<forall>sm \<in> set ms. sm_inv sm \<and> sm_geometry sm d" "sm_inv d" "sm_pp_root d = None" "alloc_fresh al" "kmem_fresh k"
    and "0 < sint minref" "(\<Sum>sm\<leftarrow>ms. avl_numnodes (sm_root sm)) < 2 ^ 62"
  shows "\<exists>rt d' rt'. foldM (\<lambda>sm. space_map_ref_add_map al sm 1) ms space_map_ref_create = Inr rt
     \<and> space_map_ref_generate_map k rt d minref = Inr d' \<and> sm_inv d' \<and> sm_same d d'
     \<and> sm_set d' = {p. int (length (filter (\<lambda>sm. p \<in> sm_set sm) ms)) \<ge> sint minref}
     \<and> space_map_ref_destroy rt = Inr rt' \<and> rt_refs rt' = (\<lambda>_. None)"
proof -
  obtain rt where rt: "foldM (\<lambda>sm. space_map_ref_add_map al sm 1) ms space_map_ref_create = Inr rt"
    "ref_rep d rt (\<lambda>p. 0 + int (length (filter (\<lambda>sm. p \<in> sm_set sm) ms))) (0 + 2 * int (\<Sum>sm\<leftarrow>ms. avl_numnodes (sm_root sm)))"
    using ref_add_maps[OF ref_create_rep assms(1,4)] by blast
  have "0 + 2 * int (\<Sum>sm\<leftarrow>ms. avl_numnodes (sm_root sm)) < 2 ^ 63" using assms(7) by simp
  moreover have "sm_geometry d d" by (simp add: sm_geometry_def)
  ultimately obtain d' where d': "space_map_ref_generate_map k rt d minref = Inr d'" "sm_inv d'" "sm_same d d'"
    "sm_set d' = {p. 0 + int (length (filter (\<lambda>sm. p \<in> sm_set sm) ms)) \<ge> sint minref}"
    using ref_generate_map[OF rt(2) _ assms(2,3) _ assms(5,6)] by blast
  moreover obtain xs where "ref_inv rt xs" using rt(2) by (auto simp: ref_rep_def)
  then obtain rt' where "space_map_ref_destroy rt = Inr rt'" "rt_refs rt' = (\<lambda>_. None)" using ref_destroy by blast
  ultimately show ?thesis using rt(1) by auto
qed

theorem space_map_ref_quorum_witness:
  "\<exists>rt d' rt'. foldM (\<lambda>sm. space_map_ref_add_map ref_alloc_example sm 1) [two_segs, empty_map, two_segs] space_map_ref_create = Inr rt
     \<and> space_map_ref_generate_map example_kernel rt two_segs 2 = Inr d'
     \<and> sm_set d' = {512 ..< 1024} \<union> {2048 ..< 4096}
     \<and> space_map_ref_destroy rt = Inr rt' \<and> rt_refs rt' = (\<lambda>_. None)"
proof -
  have "\<forall>sm \<in> set [two_segs, empty_map, two_segs]. sm_inv sm \<and> sm_geometry sm two_segs"
    using two_segs_inv empty_map_inv(1) empty_map_fields(7) by (simp add: sm_geometry_def)
  moreover have "sm_pp_root two_segs = None" by (simp add: two_segs_def)
  moreover have "0 < sint (2 :: s64)" by simp
  moreover have "(\<Sum>sm\<leftarrow>[two_segs, empty_map, two_segs]. avl_numnodes (sm_root sm)) < 2 ^ 62"
    by (simp add: two_segs_def empty_map_def space_map_create_def avl_create_def avl_numnodes_def)
  ultimately obtain rt d' rt' where
    "foldM (\<lambda>sm. space_map_ref_add_map ref_alloc_example sm 1) [two_segs, empty_map, two_segs] space_map_ref_create = Inr rt"
    "space_map_ref_generate_map example_kernel rt two_segs 2 = Inr d'"
    "sm_set d' = {p. int (length (filter (\<lambda>sm. p \<in> sm_set sm) [two_segs, empty_map, two_segs])) \<ge> sint (2 :: s64)}"
    "space_map_ref_destroy rt = Inr rt'" "rt_refs rt' = (\<lambda>_. None)"
    using space_map_ref_quorum[OF _ two_segs_inv _ ref_alloc_example_fresh example_kernel_fresh,
        of "[two_segs, empty_map, two_segs]" 2] by blast
  moreover have "{p. int (length (filter (\<lambda>sm. p \<in> sm_set sm) [two_segs, empty_map, two_segs])) \<ge> sint (2 :: s64)}
      = {512 ..< 1024} \<union> {2048 ..< 4096}"
    unfolding two_segs_set[symmetric] by (auto simp: empty_map_inv(2))
  ultimately show ?thesis by metis
qed

end
