(* ===== verification/Metaslab_Ops.thy ===== *)
theory Metaslab_Ops
  imports Space_Map_Disk
begin

text \<open>
  The block allocators of \<open>metaslab.c\<close>: the tree of segments sorted by size, the block picker, and the
  first-fit, dynamic-fit, cursor-dynamic-fit and new-dynamic-fit policies that \<open>sm_ops\<close> may select.
  \<open>sm_ppd\<close> is the array of 64 cursors.
\<close>

section \<open>Data\<close>

definition metaslab_segsize_compare :: "space_seg \<Rightarrow> space_seg \<Rightarrow> int" where
  "metaslab_segsize_compare s1 s2 =
     (let ss_size1 = ss_end s1 - ss_start s1;
          ss_size2 = ss_end s2 - ss_start s2
      in if ss_size1 < ss_size2 then -1
         else if ss_size1 > ss_size2 then 1
         else if ss_start s1 < ss_start s2 then -1
         else if ss_start s1 > ss_start s2 then 1
         else 0)"

definition metaslab_df_alloc_threshold :: u64 where
  "metaslab_df_alloc_threshold = SPA_MAXBLOCKSIZE"

definition metaslab_df_free_pct :: int where
  "metaslab_df_free_pct = 4"

definition DMU_MAX_ACCESS :: u64 where
  "DMU_MAX_ACCESS = push_bit 20 10"

definition metaslab_min_alloc_size :: u64 where
  "metaslab_min_alloc_size = DMU_MAX_ACCESS"

text \<open>The cursors \<open>sm_ppd[i]\<close>.\<close>

definition ppd_get :: "space_map \<Rightarrow> nat \<Rightarrow> u64 res" where
  "ppd_get sm i = rbind (deref (sm_ppd sm)) (\<lambda>l. if i < length l then Inr (l ! i) else Inl OutOfBounds)"

definition ppd_set :: "nat \<Rightarrow> u64 \<Rightarrow> space_map \<Rightarrow> space_map" where
  "ppd_set i v sm = sm\<lparr>sm_ppd := map_option (\<lambda>l. l[i := v]) (sm_ppd sm)\<rparr>"

section \<open>The block picker\<close>

partial_function (option) picker_loop ::
  "avl_tree \<Rightarrow> space_map \<Rightarrow> u64 \<Rightarrow> u64 \<Rightarrow> addr option \<Rightarrow> u64 option res option" where
  "picker_loop t sm size' align ss =
     (case ss of
        None \<Rightarrow> Some (Inr None)
      | Some a \<Rightarrow>
          (case deref_seg sm a of
             Inl e \<Rightarrow> Some (Inl e)
           | Inr s \<Rightarrow>
               (let offset = P2ROUNDUP (ss_start s) align
                in if offset + size' \<le> ss_end s then Some (Inr (Some offset))
                   else (case AVL_NEXT t a of
                           Inl e \<Rightarrow> Some (Inl e)
                         | Inr x \<Rightarrow> picker_loop t sm size' align x))))"

definition picker_pass ::
  "(space_seg \<Rightarrow> space_seg \<Rightarrow> int) \<Rightarrow> avl_tree \<Rightarrow> space_map \<Rightarrow> u64 \<Rightarrow> u64 \<Rightarrow> u64 \<Rightarrow> u64 option res" where
  "picker_pass cmp t sm cursor' size' align =
     (let ssearch = \<lparr>ss_start = cursor', ss_end = cursor' + size'\<rparr>
      in rbind (avl_find (\<lambda>n. cmp ssearch (seg_at sm n)) t) (\<lambda>(ss, where).
         rbind (if ss = None then avl_nearest t where AVL_AFTER else Inr ss) (\<lambda>ss.
         rbind (of_loop (picker_loop t sm size' align ss)) id)))"

text \<open>The result is the offset, or \<open>-1\<close>, and the new value of the cursor.\<close>

function metaslab_block_picker ::
  "(space_seg \<Rightarrow> space_seg \<Rightarrow> int) \<Rightarrow> avl_tree \<Rightarrow> space_map \<Rightarrow> u64 \<Rightarrow> u64 \<Rightarrow> u64 \<Rightarrow> (u64 \<times> u64) res" where
  "metaslab_block_picker cmp t sm cursor' size' align =
     rbind (picker_pass cmp t sm cursor' size' align) (\<lambda>found.
       case found of
         Some offset \<Rightarrow> Inr (offset, offset + size')
       | None \<Rightarrow> if cursor' = 0 then Inr (-1, 0) else metaslab_block_picker cmp t sm 0 size' align)"
  by pat_completeness auto
termination
  by (relation "measure (\<lambda>(cmp, t, sm, cursor', size', align). if cursor' = 0 then 0 else 1)") auto

declare metaslab_block_picker.simps [simp del]

section \<open>Routines that the policies share\<close>

definition metaslab_pp_load :: "space_map \<Rightarrow> space_map res" where
  "metaslab_pp_load sm =
     ASSERT (sm_ppd sm = None) (
     let sm = sm\<lparr>sm_ppd := Some (replicate 64 0),
                 sm_pp_root := Some (metaslab_segsize_compare, avl_create (\<lambda>_. blank_node))\<rparr>
     in scan (avl_first (sm_root sm)) (AVL_NEXT (sm_root sm)) pp_add sm)"

partial_function (option) pp_unload_loop :: "avl_tree \<Rightarrow> avl_cookie \<Rightarrow> avl_tree res option" where
  "pp_unload_loop t cookie =
     (case avl_destroy_nodes t cookie of
        Inl e \<Rightarrow> Some (Inl e)
      | Inr (t', cookie', node) \<Rightarrow>
          (case node of None \<Rightarrow> Some (Inr t') | Some _ \<Rightarrow> pp_unload_loop t' cookie'))"

definition metaslab_pp_unload :: "space_map \<Rightarrow> space_map res" where
  "metaslab_pp_unload sm =
     (let sm = sm\<lparr>sm_ppd := None\<rparr>
      in rbind (deref (sm_pp_root sm)) (\<lambda>(cmp, t).
         rbind (rbind (of_loop (pp_unload_loop t CookieNull)) id) (\<lambda>t.
         rbind (avl_destroy t) (\<lambda>_.
           Inr (sm\<lparr>sm_pp_root := None\<rparr>)))))"

definition metaslab_pp_claim :: "space_map \<Rightarrow> u64 \<Rightarrow> u64 \<Rightarrow> space_map res" where
  "metaslab_pp_claim sm start size' = Inr sm"

definition metaslab_pp_free :: "space_map \<Rightarrow> u64 \<Rightarrow> u64 \<Rightarrow> space_map res" where
  "metaslab_pp_free sm start size' = Inr sm"

definition metaslab_pp_maxsize :: "space_map \<Rightarrow> u64 res" where
  "metaslab_pp_maxsize sm =
     (case sm_pp_root sm of
        None \<Rightarrow> Inr 0
      | Some (cmp, t) \<Rightarrow>
          rbind (avl_last t) (\<lambda>ss.
          case ss of
            None \<Rightarrow> Inr 0
          | Some a \<Rightarrow> rbind (deref_seg sm a) (\<lambda>s. Inr (ss_end s - ss_start s))))"

section \<open>First fit\<close>

definition metaslab_ff_alloc :: "space_map \<Rightarrow> u64 \<Rightarrow> (space_map \<times> u64) res" where
  "metaslab_ff_alloc sm size' =
     (let align = size' AND - size'
      in if highbit align = 0 then Inl OutOfBounds
         else
           (let i = highbit align - 1
            in rbind (ppd_get sm i) (\<lambda>cursor'.
               rbind (metaslab_block_picker space_map_seg_compare (sm_root sm) sm cursor' size' align)
                 (\<lambda>(offset, cursor'). Inr (ppd_set i cursor' sm, offset)))))"

definition metaslab_ff_fragmented :: "space_map \<Rightarrow> bool res" where
  "metaslab_ff_fragmented sm = Inr True"

definition metaslab_ff_ops :: space_map_ops where
  "metaslab_ff_ops = \<lparr>smop_load = metaslab_pp_load, smop_unload = metaslab_pp_unload, smop_alloc = metaslab_ff_alloc,
     smop_claim = metaslab_pp_claim, smop_free = metaslab_pp_free, smop_max = metaslab_pp_maxsize,
     smop_fragmented = metaslab_ff_fragmented\<rparr>"

section \<open>Dynamic fit\<close>

text \<open>\<open>int free_pct = sm->sm_space * 100 / sm->sm_size\<close>: a 64-bit quotient cut to a 32-bit int.\<close>

definition free_pct :: "space_map \<Rightarrow> int res" where
  "free_pct sm =
     (if sm_size sm = 0 then Inl (Panic ''divide by zero'')
      else Inr (sint (ucast (sm_space sm * 100 div sm_size sm) :: u32)))"

definition pp_tree :: "space_map \<Rightarrow> ((space_seg \<Rightarrow> space_seg \<Rightarrow> int) \<times> avl_tree) res" where
  "pp_tree sm = deref (sm_pp_root sm)"

definition metaslab_df_alloc :: "space_map \<Rightarrow> u64 \<Rightarrow> (space_map \<times> u64) res" where
  "metaslab_df_alloc sm size' =
     (let align = size' AND - size'
      in if highbit align = 0 then Inl OutOfBounds
         else
           (let i = highbit align - 1
            in rbind (metaslab_pp_maxsize sm) (\<lambda>max_size.
               rbind (free_pct sm) (\<lambda>pct.
               ASSERT (sm_lock_held sm) (
               rbind (pp_tree sm) (\<lambda>(pp_cmp, pp).
               ASSERT (avl_numnodes (sm_root sm) = avl_numnodes pp) (
               if max_size < size' then Inr (sm, -1)
               else
                 rbind (ppd_get sm i) (\<lambda>cursor'.
                 let best = (max_size < metaslab_df_alloc_threshold \<or> pct < metaslab_df_free_pct)
                 in rbind (if best then metaslab_block_picker pp_cmp pp sm 0 size' 1
                           else metaslab_block_picker space_map_seg_compare (sm_root sm) sm cursor' size' 1)
                    (\<lambda>(offset, cursor'). Inr (ppd_set i cursor' sm, offset))))))))))"

definition metaslab_df_fragmented :: "space_map \<Rightarrow> bool res" where
  "metaslab_df_fragmented sm =
     rbind (metaslab_pp_maxsize sm) (\<lambda>max_size.
     rbind (free_pct sm) (\<lambda>pct.
       Inr (\<not> (max_size \<ge> metaslab_df_alloc_threshold \<and> pct \<ge> metaslab_df_free_pct))))"

definition metaslab_df_ops :: space_map_ops where
  "metaslab_df_ops = \<lparr>smop_load = metaslab_pp_load, smop_unload = metaslab_pp_unload, smop_alloc = metaslab_df_alloc,
     smop_claim = metaslab_pp_claim, smop_free = metaslab_pp_free, smop_max = metaslab_pp_maxsize,
     smop_fragmented = metaslab_df_fragmented\<rparr>"

section \<open>Cursor-dynamic fit\<close>

definition metaslab_cdf_alloc :: "space_map \<Rightarrow> u64 \<Rightarrow> (space_map \<times> u64) res" where
  "metaslab_cdf_alloc sm size' =
     rbind (metaslab_pp_maxsize sm) (\<lambda>max_size.
     ASSERT (sm_lock_held sm) (
     rbind (pp_tree sm) (\<lambda>(pp_cmp, pp).
     ASSERT (avl_numnodes (sm_root sm) = avl_numnodes pp) (
     if max_size < size' then Inr (sm, -1)
     else
       rbind (ppd_get sm 0) (\<lambda>cursor'.
       rbind (ppd_get sm 1) (\<lambda>extent_end.
       ASSERT (extent_end \<ge> cursor') (
       rbind (if cursor' + size' > extent_end then
                let rsize = (if max_size > 2 * SPA_MAXBLOCKSIZE then min metaslab_min_alloc_size max_size else size')
                in rbind (metaslab_block_picker pp_cmp pp sm 0 rsize 1) (\<lambda>(offset, extent_end).
                   Inr (if offset \<noteq> -1 then offset + size' else 0, extent_end, offset))
              else
                rbind (metaslab_block_picker space_map_seg_compare (sm_root sm) sm cursor' size' 1) (\<lambda>(offset, cursor').
                  Inr (cursor', extent_end, offset)))
       (\<lambda>(cursor', extent_end, offset).
       ASSERT (cursor' \<le> extent_end) (
         Inr (ppd_set 1 extent_end (ppd_set 0 cursor' sm), offset))))))))))"

definition metaslab_cdf_fragmented :: "space_map \<Rightarrow> bool res" where
  "metaslab_cdf_fragmented sm =
     rbind (metaslab_pp_maxsize sm) (\<lambda>max_size. Inr (\<not> max_size > metaslab_min_alloc_size * 10))"

definition metaslab_cdf_ops :: space_map_ops where
  "metaslab_cdf_ops = \<lparr>smop_load = metaslab_pp_load, smop_unload = metaslab_pp_unload, smop_alloc = metaslab_cdf_alloc,
     smop_claim = metaslab_pp_claim, smop_free = metaslab_pp_free, smop_max = metaslab_pp_maxsize,
     smop_fragmented = metaslab_cdf_fragmented\<rparr>"

section \<open>New dynamic fit\<close>

definition metaslab_ndf_alloc :: "space_map \<Rightarrow> u64 \<Rightarrow> (space_map \<times> u64) res" where
  "metaslab_ndf_alloc sm size' =
     rbind (metaslab_pp_maxsize sm) (\<lambda>max_size.
     ASSERT (sm_lock_held sm) (
     rbind (pp_tree sm) (\<lambda>(pp_cmp, pp).
     ASSERT (avl_numnodes (sm_root sm) = avl_numnodes pp) (
     if max_size < size' then Inr (sm, -1)
     else
       rbind (ppd_get sm 0) (\<lambda>cursor'.
       rbind (avl_find (seg_compar sm \<lparr>ss_start = cursor', ss_end = cursor' + size'\<rparr>) (sm_root sm)) (\<lambda>(ss, _).
       rbind (case ss of None \<Rightarrow> Inr True
              | Some a \<Rightarrow> rbind (deref_seg sm a) (\<lambda>s. Inr (ss_start s + size' > ss_end s))) (\<lambda>search.
       rbind (if search then
                let size' = (if max_size > 2 * SPA_MAXBLOCKSIZE then min metaslab_min_alloc_size max_size else size')
                in rbind (avl_find (\<lambda>n. pp_cmp \<lparr>ss_start = 0, ss_end = size'\<rparr> (seg_at sm n)) pp) (\<lambda>(ss, where).
                   rbind (if ss = None then avl_nearest pp where AVL_AFTER else Inr ss) (\<lambda>ss.
                   ASSERT (ss \<noteq> None) (Inr (ss, size'))))
              else Inr (ss, size')) (\<lambda>(ss, size').
       case ss of
         None \<Rightarrow> Inr (sm, -1)
       | Some a \<Rightarrow>
           rbind (deref_seg sm a) (\<lambda>s.
           if ss_start s + size' \<le> ss_end s then Inr (ppd_set 0 (ss_start s + size') sm, ss_start s)
           else Inr (sm, -1))))))))))"

definition metaslab_ndf_fragmented :: "space_map \<Rightarrow> bool res" where
  "metaslab_ndf_fragmented sm =
     rbind (metaslab_pp_maxsize sm) (\<lambda>max_size. Inr (\<not> max_size > metaslab_min_alloc_size * 10))"

definition metaslab_ndf_ops :: space_map_ops where
  "metaslab_ndf_ops = \<lparr>smop_load = metaslab_pp_load, smop_unload = metaslab_pp_unload, smop_alloc = metaslab_ndf_alloc,
     smop_claim = metaslab_pp_claim, smop_free = metaslab_pp_free, smop_max = metaslab_pp_maxsize,
     smop_fragmented = metaslab_ndf_fragmented\<rparr>"

primrec metaslab_ops :: "sm_ops_table \<Rightarrow> space_map_ops" where
  "metaslab_ops metaslab_ff = metaslab_ff_ops"
| "metaslab_ops metaslab_df = metaslab_df_ops"
| "metaslab_ops metaslab_cdf = metaslab_cdf_ops"
| "metaslab_ops metaslab_ndf = metaslab_ndf_ops"

definition zfs_metaslab_ops :: sm_ops_table where
  "zfs_metaslab_ops = metaslab_df"

lemmas picker_loop_code [code] = picker_loop.simps
lemmas pp_unload_loop_code [code] = pp_unload_loop.simps

section \<open>The order by size\<close>

lemma segsize_compare_less:
  "metaslab_segsize_compare x y < 0 \<longleftrightarrow> ss_end x - ss_start x < ss_end y - ss_start y
     \<or> ss_end x - ss_start x = ss_end y - ss_start y \<and> ss_start x < ss_start y"
  by (auto simp: metaslab_segsize_compare_def Let_def)

lemma lex_compare:
  fixes a b :: "'a :: linorder" and c d :: "'b :: linorder"
  defines "cmp \<equiv> \<lambda>a b c d. if a < b then -1 else if a > b then 1 else if c < d then -1 else if c > d then 1 else 0 :: int"
  shows "cmp a b c d = 0 \<longleftrightarrow> a = b \<and> c = d" "cmp b a d c = - cmp a b c d"
  by (auto simp: cmp_def)

interpretation segsize: comparator metaslab_segsize_compare
proof
  fix x y z :: space_seg
  show "metaslab_segsize_compare x y \<in> {-1, 0, 1}" by (simp add: metaslab_segsize_compare_def Let_def)
  have "x = y \<longleftrightarrow> ss_end x - ss_start x = ss_end y - ss_start y \<and> ss_start x = ss_start y"
    by (cases x; cases y) auto
  then show "metaslab_segsize_compare x y = 0 \<longleftrightarrow> x = y"
    unfolding metaslab_segsize_compare_def Let_def lex_compare(1) by (rule sym)
  show "metaslab_segsize_compare y x = - metaslab_segsize_compare x y"
    unfolding metaslab_segsize_compare_def Let_def by (rule lex_compare(2))
  show "metaslab_segsize_compare x y < 0 \<Longrightarrow> metaslab_segsize_compare y z < 0 \<Longrightarrow> metaslab_segsize_compare x z < 0"
    unfolding segsize_compare_less by (elim disjE conjE) (use order.strict_trans in fastforce)+
qed

section \<open>What the picker finds\<close>

definition fits :: "space_map \<Rightarrow> u64 \<Rightarrow> u64 \<Rightarrow> addr \<Rightarrow> bool" where
  "fits sm size' align a \<longleftrightarrow> P2ROUNDUP (ss_start (seg_at sm a)) align + size' \<le> ss_end (seg_at sm a)"

abbreviation pick :: "space_map \<Rightarrow> u64 \<Rightarrow> addr \<Rightarrow> u64" where
  "pick sm align a \<equiv> P2ROUNDUP (ss_start (seg_at sm a)) align"

lemma seg_compare_sorted:
  assumes "seg_list g xs"
  shows "compar_sorted (\<lambda>a. space_map_seg_compare s (g a)) xs"
proof -
  have mono: "space_map_seg_compare s (g b) \<le> space_map_seg_compare s (g a)"
    if "lo (g a) < hi (g a)" "hi (g a) < lo (g b)" "lo (g b) < hi (g b)" for a b
    using that by (auto simp: space_map_seg_compare_def word_less_nat_alt)
  have "sorted_wrt (\<lambda>a b. lo (g a) < hi (g a) \<and> hi (g a) < lo (g b) \<and> lo (g b) < hi (g b)) xs"
    using assms by (induction xs) (auto simp: seg_listD)
  then have "sorted_wrt (\<lambda>a b. space_map_seg_compare s (g a) \<ge> space_map_seg_compare s (g b)) xs"
    by (rule sorted_wrt_mono_rel[rotated]) (use mono in blast)
  then show ?thesis by (simp add: compar_sorted_def space_map_seg_compare_def)
qed

lemma picker_loop_suffix:
  assumes "avl_inv t (ys @ zs)" "\<forall>a \<in> set zs. sm_segs sm a = Some (seg_at sm a)"
  shows "picker_loop t sm size' align (hd_opt zs) = Some (Inr (map_option (pick sm align) (List.find (fits sm size' align) zs)))"
  using assms
proof (induction zs arbitrary: ys)
  case Nil
  then show ?case by (simp add: picker_loop.simps)
next
  case (Cons a zs)
  have "picker_loop t sm size' align (hd_opt zs) = Some (Inr (map_option (pick sm align) (List.find (fits sm size' align) zs)))"
    using Cons.IH[of "ys @ [a]"] Cons.prems by simp
  then show ?case
    using Cons.prems(2) AVL_NEXT_inv[OF Cons.prems(1)]
    by (subst picker_loop.simps) (simp add: deref_seg_def fits_def Let_def)
qed

text \<open>A pass looks at a suffix of the tree: what comes before it compares below the search key, or comes
  before a node that compares equal to it.\<close>

lemma picker_pass_result:
  assumes inv: "avl_inv t xs" and segs: "\<forall>a \<in> set xs. sm_segs sm a = Some (seg_at sm a)"
    and c: "c = (\<lambda>n. cmp \<lparr>ss_start = cur, ss_end = cur + size'\<rparr> (seg_at sm n))" and srt: "compar_sorted c xs"
  obtains ys zs where "xs = ys @ zs"
    "picker_pass cmp t sm cur size' align = Inr (map_option (pick sm align) (List.find (fits sm size' align) zs))"
    "(\<forall>y \<in> set ys. c y > 0) \<or> (\<exists>a us. zs = a # us \<and> c a = 0)"
proof (cases "unmatched c xs")
  case True
  obtain w where w: "avl_find c t = Inr (None, w)" "avl_nearest t w AVL_AFTER = Inr (hd_opt (above c xs))"
    using avl.find_nearest[OF inv srt True] by blast
  have xs: "xs = below c xs @ above c xs" by (rule below_above[OF srt True])
  then have "picker_loop t sm size' align (hd_opt (above c xs))
      = Some (Inr (map_option (pick sm align) (List.find (fits sm size' align) (above c xs))))"
    using picker_loop_suffix[of t "below c xs" "above c xs"] inv segs by simp
  then show ?thesis
    using w xs by (intro that[of "below c xs" "above c xs"]) (simp_all add: picker_pass_def c[symmetric])
next
  case False
  obtain a w where a: "avl_find c t = Inr (Some a, w)" "a \<in> set xs" "c a = 0"
    using avl.find_some[OF inv srt False] by blast
  obtain ys us where xs: "xs = ys @ a # us" using split_list[OF a(2)] by blast
  have "picker_loop t sm size' align (hd_opt (a # us))
      = Some (Inr (map_option (pick sm align) (List.find (fits sm size' align) (a # us))))"
    by (rule picker_loop_suffix[of t ys]) (use inv segs xs in auto)
  then show ?thesis
    using a xs by (intro that[of ys "a # us"]) (auto simp: picker_pass_def c[symmetric])
qed

text \<open>The second pass, from cursor 0, sees every segment that could fit.\<close>

lemma metaslab_block_picker_result:
  assumes inv: "avl_inv t xs" and segs: "\<forall>a \<in> set xs. sm_segs sm a = Some (seg_at sm a)"
    and srt: "\<And>s. compar_sorted (\<lambda>n. cmp s (seg_at sm n)) xs"
    and skip1: "\<And>y. y \<in> set xs \<Longrightarrow> cmp \<lparr>ss_start = 0, ss_end = size'\<rparr> (seg_at sm y) > 0 \<Longrightarrow> \<not> fits sm size' align y"
    and skip2: "\<And>ys a us y. xs = ys @ a # us \<Longrightarrow> cmp \<lparr>ss_start = 0, ss_end = size'\<rparr> (seg_at sm a) = 0 \<Longrightarrow> y \<in> set ys
      \<Longrightarrow> \<not> fits sm size' align y"
  shows "(\<exists>a \<in> set xs. fits sm size' align a
            \<and> metaslab_block_picker cmp t sm cur size' align = Inr (pick sm align a, pick sm align a + size'))
     \<or> (\<forall>a \<in> set xs. \<not> fits sm size' align a) \<and> metaslab_block_picker cmp t sm cur size' align = Inr (-1, 0)"
proof -
  have hit: "\<exists>a \<in> set xs. fits sm size' align a \<and> off = pick sm align a"
    if "xs = ys @ zs" "map_option (pick sm align) (List.find (fits sm size' align) zs) = Some off" for ys zs off
    using that by (auto simp: find_Some_iff in_set_conv_nth) (metis nth_mem Un_iff)
  have zero: "(\<exists>a \<in> set xs. fits sm size' align a \<and> picker_pass cmp t sm 0 size' align = Inr (Some (pick sm align a)))
     \<or> (\<forall>a \<in> set xs. \<not> fits sm size' align a) \<and> picker_pass cmp t sm 0 size' align = Inr None"
  proof (rule picker_pass_result[where cmp = cmp and cur = 0 and size' = size' and align = align, OF inv segs refl srt])
    fix ys zs assume xs: "xs = ys @ zs"
      and res: "picker_pass cmp t sm 0 size' align = Inr (map_option (pick sm align) (List.find (fits sm size' align) zs))"
      and skip: "(\<forall>y \<in> set ys. cmp \<lparr>ss_start = 0, ss_end = 0 + size'\<rparr> (seg_at sm y) > 0)
        \<or> (\<exists>a us. zs = a # us \<and> cmp \<lparr>ss_start = 0, ss_end = 0 + size'\<rparr> (seg_at sm a) = 0)"
    have none: "\<not> fits sm size' align y" if "y \<in> set ys" for y
      using skip skip1[of y] skip2[of ys] xs that by auto
    show ?thesis
    proof (cases "List.find (fits sm size' align) zs")
      case None
      then have "\<forall>a \<in> set xs. \<not> fits sm size' align a" using none xs by (auto simp: find_None_iff)
      then show ?thesis using res None by simp
    next
      case (Some a)
      then show ?thesis using res hit[OF xs, of "pick sm align a"] by auto
    qed
  qed
  then have base: "(\<exists>a \<in> set xs. fits sm size' align a
            \<and> metaslab_block_picker cmp t sm 0 size' align = Inr (pick sm align a, pick sm align a + size'))
     \<or> (\<forall>a \<in> set xs. \<not> fits sm size' align a) \<and> metaslab_block_picker cmp t sm 0 size' align = Inr (-1, 0)"
    by (subst (1 2) metaslab_block_picker.simps) auto
  obtain ys zs where p: "xs = ys @ zs"
    "picker_pass cmp t sm cur size' align = Inr (map_option (pick sm align) (List.find (fits sm size' align) zs))"
    by (rule picker_pass_result[where cmp = cmp and cur = cur and size' = size' and align = align, OF inv segs refl srt])
  show ?thesis
  proof (cases "List.find (fits sm size' align) zs")
    case None
    then have "metaslab_block_picker cmp t sm cur size' align = metaslab_block_picker cmp t sm 0 size' align"
      using p(2) base by (cases "cur = 0") (simp_all add: metaslab_block_picker.simps[of cmp t sm cur])
    then show ?thesis using base by simp
  next
    case (Some a)
    then have "metaslab_block_picker cmp t sm cur size' align = Inr (pick sm align a, pick sm align a + size')"
      using p(2) by (simp add: metaslab_block_picker.simps[of cmp t sm cur])
    then show ?thesis using hit[OF p(1), of "pick sm align a"] Some by auto
  qed
qed

end
