(* ===== verification/Metaslab_Fit.thy ===== *)
theory Metaslab_Fit
  imports Metaslab_Ops
begin

text \<open>
  Correctness of the four allocation policies: what they return is free space of the requested size,
  and they give up only if no segment fits.
\<close>

section \<open>Segments that fit\<close>

definition size_room :: "space_map \<Rightarrow> u64 \<Rightarrow> bool" where
  "size_room sm size' \<longleftrightarrow> size' \<noteq> 0 \<and> unat size' \<le> unat metaslab_min_alloc_size
     \<and> unat (sm_start sm) + unat (sm_size sm) + 2 ^ 25 < 2 ^ 64"

text \<open>A size that can be asked for: a multiple of the unit of the map, at most 10 MiB.\<close>

definition size_ok :: "space_map \<Rightarrow> u64 \<Rightarrow> bool" where
  "size_ok sm size' \<longleftrightarrow> size_room sm size' \<and> 2 ^ unat (sm_shift sm) dvd unat size'"

lemma min_alloc_nat: "unat metaslab_min_alloc_size = 10485760"
  by (simp add: metaslab_min_alloc_size_def DMU_MAX_ACCESS_def push_bit_eq_mult)

text \<open>The state that \<open>metaslab_pp_load\<close> leaves behind.\<close>

definition sm_ready :: "space_map \<Rightarrow> bool" where
  "sm_ready sm \<longleftrightarrow> map_option fst (sm_pp_root sm) = Some metaslab_segsize_compare
     \<and> map_option length (sm_ppd sm) = Some 64"

lemma sm_inv_ppd [simp]:
  "sm_inv (sm\<lparr>sm_ppd := l\<rparr>) = sm_inv sm" "sm_set (sm\<lparr>sm_ppd := l\<rparr>) = sm_set sm"
  "seg_at (sm\<lparr>sm_ppd := l\<rparr>) = seg_at sm" "sm_range (sm\<lparr>sm_ppd := l\<rparr>) s z = sm_range sm s z"
  by (simp_all add: sm_inv_def sm_rep_def sm_pre_def sm_fits_def sm_set_def seg_at_def sm_bounds_def sm_range_def
      fun_eq_iff)

lemma pick_nat:
  assumes pre: "sm_pre sm xs A" "a \<in> set xs" and k: "k < 64" "2 ^ k \<le> unat size'" and z: "size_room sm size'"
  shows "lo (seg_at sm a) \<le> unat (pick sm (2 ^ k) a)" "2 ^ unat (sm_shift sm) dvd unat (pick sm (2 ^ k) a)"
    "2 ^ k dvd unat (pick sm (2 ^ k) a)"
    "fits sm size' (2 ^ k) a \<longleftrightarrow> unat (pick sm (2 ^ k) a) + unat size' \<le> hi (seg_at sm a)"
proof -
  let ?s = "seg_at sm a" and ?off = "unat (pick sm (2 ^ k) a)"
  have s: "lo ?s < hi ?s" "hi ?s \<le> unat (sm_start sm) + unat (sm_size sm)" "2 ^ unat (sm_shift sm) dvd lo ?s"
    using pre seg_listD by (auto simp: sm_pre_def sm_bounds_def)
  have b: "hi ?s + 2 * unat size' < 2 ^ 64" using s(2) z by (simp add: size_room_def min_alloc_nat)
  have "lo ?s + 2 ^ k \<le> 2 ^ 64" using s(1) b k(2) by linarith
  note r = P2ROUNDUP_nat[OF k(1) this]
  show "lo ?s \<le> ?off" "2 ^ k dvd ?off" using r by simp_all
  show "2 ^ unat (sm_shift sm) dvd ?off"
  proof (cases "unat (sm_shift sm) \<le> k")
    case True
    then show ?thesis using r(3) by (meson dvd_trans le_imp_power_dvd)
  next
    case False
    then have "2 ^ k dvd lo ?s" using s(3) by (meson dvd_trans le_imp_power_dvd nat_le_linear)
    then have "2 ^ k dvd ?off - lo ?s" using r(3) by (rule dvd_diff_nat[rotated])
    then have "?off - lo ?s = 0" using r(2) by (metis add_less_cancel_left le_add_diff_inverse nat_dvd_not_less not_gr_zero r(1))
    then show ?thesis using r(1) s(3) by simp
  qed
  have "?off + unat size' < 2 ^ 64" using r(2) b s(1) k(2) by linarith
  then show "fits sm size' (2 ^ k) a \<longleftrightarrow> ?off + unat size' \<le> hi ?s"
    by (simp add: fits_def word_le_nat_alt unat_add_no_wrap)
qed

lemma fits_range:
  assumes pre: "sm_pre sm xs (set xs)" "a \<in> set xs" and k: "k < 64" "2 ^ k \<le> unat size'" and z: "size_ok sm size'"
    and fit: "fits sm size' (2 ^ k) a"
  shows "sm_range sm (pick sm (2 ^ k) a) size'" "range_set (pick sm (2 ^ k) a) size' \<subseteq> seg_set (seg_at sm a)"
    "range_set (pick sm (2 ^ k) a) size' \<subseteq> sm_set sm" "pick sm (2 ^ k) a \<noteq> -1"
proof -
  let ?s = "seg_at sm a" and ?off = "unat (pick sm (2 ^ k) a)"
  have room: "size_room sm size'" using z by (simp add: size_ok_def)
  note p = pick_nat[OF assms(1-4) room]
  have s: "unat (sm_start sm) \<le> lo ?s" "hi ?s \<le> unat (sm_start sm) + unat (sm_size sm)"
    using pre by (auto simp: sm_pre_def sm_bounds_def)
  have hi: "?off + unat size' \<le> hi ?s" using p(4) fit by simp
  show "sm_range sm (pick sm (2 ^ k) a) size'"
    using p(1,2) hi s z by (auto simp: sm_range_def size_ok_def size_room_def)
  show sub: "range_set (pick sm (2 ^ k) a) size' \<subseteq> seg_set ?s" using p(1) hi by auto
  have "seg_set ?s \<subseteq> sm_set sm" using sm_set_rep[OF pre(1)] pre(2) by (auto simp: segs_set_def)
  then show "range_set (pick sm (2 ^ k) a) size' \<subseteq> sm_set sm" using sub by blast
  have "0 < unat size'" using room by (simp add: size_room_def unat_gt_0)
  then have "?off + 1 < 2 ^ 64" using hi s(2) room by (simp add: size_room_def)
  moreover have "unat (-1 :: u64) = 2 ^ 64 - 1" by (simp add: unsigned_minus_1_eq_mask mask_eq_exp_minus_1)
  ultimately show "pick sm (2 ^ k) a \<noteq> -1" by (metis less_diff_conv less_irrefl)
qed

lemma sm_pre_known: "sm_pre sm xs A \<Longrightarrow> \<forall>a \<in> set xs. sm_segs sm a = Some (seg_at sm a)"
proof
  fix a assume "sm_pre sm xs A" "a \<in> set xs"
  then obtain s where "sm_segs sm a = Some s" unfolding sm_pre_def by blast
  then show "sm_segs sm a = Some (seg_at sm a)" by (simp add: seg_at_def)
qed

lemma not_fits_small:
  assumes "sm_pre sm xs A" "a \<in> set xs" "k < 64" "2 ^ k \<le> unat size'" "size_room sm size'"
    and "hi (seg_at sm a) - lo (seg_at sm a) < unat size'"
  shows "\<not> fits sm size' (2 ^ k) a"
  using pick_nat(1,4)[OF assms(1-5)] assms(6) by linarith

text \<open>With no alignment a segment fits exactly if it is long enough.\<close>

lemma pick_one: "pick sm 1 a = ss_start (seg_at sm a)"
  using P2ROUNDUP_pow2[of "ss_start (seg_at sm a)" 0] by simp

lemma fits_one:
  assumes "sm_pre sm xs A" "a \<in> set xs" "size_room sm size'"
  shows "fits sm size' 1 a \<longleftrightarrow> unat size' \<le> hi (seg_at sm a) - lo (seg_at sm a)"
proof -
  have "lo (seg_at sm a) < hi (seg_at sm a)" using assms(1,2) seg_listD by (auto simp: sm_pre_def)
  moreover have "1 \<le> unat size'" using assms(3) by (simp add: size_room_def Suc_le_eq unat_gt_0)
  ultimately show ?thesis
    using pick_nat(4)[OF assms(1,2), of 0 size'] assms(3) by (auto simp: pick_one)
qed

section \<open>The two trees\<close>

lemma root_picker:
  assumes pre: "sm_pre sm xs (set xs)" and k: "k < 64" "2 ^ k \<le> unat size'" and z: "size_room sm size'"
  shows "(\<exists>a \<in> set xs. fits sm size' (2 ^ k) a \<and> metaslab_block_picker space_map_seg_compare (sm_root sm) sm cur size' (2 ^ k)
            = Inr (pick sm (2 ^ k) a, pick sm (2 ^ k) a + size'))
     \<or> (\<forall>a \<in> set xs. \<not> fits sm size' (2 ^ k) a)
        \<and> metaslab_block_picker space_map_seg_compare (sm_root sm) sm cur size' (2 ^ k) = Inr (-1, 0)"
proof (rule metaslab_block_picker_result)
  show "avl_inv (sm_root sm) xs" using pre by (simp add: sm_pre_def)
  show "\<forall>a \<in> set xs. sm_segs sm a = Some (seg_at sm a)" by (rule sm_pre_known[OF pre])
  have segs: "seg_list (seg_at sm) xs" using pre by (simp add: sm_pre_def)
  then show "compar_sorted (\<lambda>n. space_map_seg_compare s (seg_at sm n)) xs" for s by (rule seg_compare_sorted)
  fix y
  show "\<not> fits sm size' (2 ^ k) y"
    if "y \<in> set xs" "space_map_seg_compare \<lparr>ss_start = 0, ss_end = size'\<rparr> (seg_at sm y) > 0"
    using that by (auto simp: space_map_seg_compare_def split: if_splits)
  fix ys a us
  assume xs: "xs = ys @ a # us" and eq: "space_map_seg_compare \<lparr>ss_start = 0, ss_end = size'\<rparr> (seg_at sm a) = 0"
    and y: "y \<in> set ys"
  have lt: "hi (seg_at sm y) < lo (seg_at sm a)" using segs xs y by auto
  then have "lo (seg_at sm a) < unat size'"
    using eq by (auto simp: space_map_seg_compare_def word_less_nat_alt split: if_splits)
  then show "\<not> fits sm size' (2 ^ k) y"
    using not_fits_small[OF pre _ k z, of y] lt xs y by simp
qed

lemma pp_list:
  assumes "sm_pre sm xs (set xs)" "sm_pp_root sm = Some (metaslab_segsize_compare, t)"
  obtains ys where "avl_inv t ys" "set ys = set xs"
    "sorted_wrt (\<lambda>a b. metaslab_segsize_compare (seg_at sm a) (seg_at sm b) < 0) ys"
  using assms by (auto simp: sm_pre_def pp_inv_def)

lemma seg_size_nat:
  assumes "sm_pre sm xs A" "a \<in> set xs"
  shows "unat (ss_end (seg_at sm a) - ss_start (seg_at sm a)) = hi (seg_at sm a) - lo (seg_at sm a)"
proof -
  have "lo (seg_at sm a) < hi (seg_at sm a)" using assms seg_listD by (auto simp: sm_pre_def)
  then show ?thesis by (simp add: unat_diff_le word_le_nat_alt)
qed

lemma pp_picker:
  assumes pre: "sm_pre sm xs (set xs)" and pp: "sm_pp_root sm = Some (metaslab_segsize_compare, t)" and z: "size_room sm size'"
  shows "(\<exists>a \<in> set xs. fits sm size' 1 a \<and> metaslab_block_picker metaslab_segsize_compare t sm cur size' 1
            = Inr (pick sm 1 a, pick sm 1 a + size'))
     \<or> (\<forall>a \<in> set xs. \<not> fits sm size' 1 a) \<and> metaslab_block_picker metaslab_segsize_compare t sm cur size' 1 = Inr (-1, 0)"
proof -
  obtain ys where ys: "avl_inv t ys" "set ys = set xs"
    "sorted_wrt (\<lambda>a b. metaslab_segsize_compare (seg_at sm a) (seg_at sm b) < 0) ys"
    using pp_list[OF pre pp] .
  have small: "\<not> fits sm size' 1 y" if "y \<in> set ys" "metaslab_segsize_compare (seg_at sm y) \<lparr>ss_start = 0, ss_end = size'\<rparr> < 0" for y
    using that seg_size_nat[OF pre, of y] fits_one[OF pre _ z, of y] ys(2)
    by (auto simp: segsize_compare_less word_less_nat_alt)
  have "(\<exists>a \<in> set ys. fits sm size' 1 a \<and> metaslab_block_picker metaslab_segsize_compare t sm cur size' 1
            = Inr (pick sm 1 a, pick sm 1 a + size'))
     \<or> (\<forall>a \<in> set ys. \<not> fits sm size' 1 a) \<and> metaslab_block_picker metaslab_segsize_compare t sm cur size' 1 = Inr (-1, 0)"
  proof (rule metaslab_block_picker_result[OF ys(1)])
    show "\<forall>a \<in> set ys. sm_segs sm a = Some (seg_at sm a)" using sm_pre_known[OF pre] ys(2) by simp
    show "compar_sorted (\<lambda>n. metaslab_segsize_compare s (seg_at sm n)) ys" for s
      using segsize.sorted_keys_compar[OF ys(3)] .
    fix y
    show "\<not> fits sm size' 1 y"
      if "y \<in> set ys" "metaslab_segsize_compare \<lparr>ss_start = 0, ss_end = size'\<rparr> (seg_at sm y) > 0"
      using small[OF that(1)] that(2) segsize.cmp_sym[of "seg_at sm y" "\<lparr>ss_start = 0, ss_end = size'\<rparr>"] by simp
    fix us a vs
    assume "ys = us @ a # vs" "metaslab_segsize_compare \<lparr>ss_start = 0, ss_end = size'\<rparr> (seg_at sm a) = 0" "y \<in> set us"
    then show "\<not> fits sm size' 1 y"
      using small[of y] ys(3) segsize.cmp_eq[of "\<lparr>ss_start = 0, ss_end = size'\<rparr>" "seg_at sm a"]
      by (auto simp: sorted_wrt_append)
  qed
  then show ?thesis using ys(2) by simp
qed

lemma pp_maxsize:
  assumes pre: "sm_pre sm xs (set xs)" and pp: "sm_pp_root sm = Some (metaslab_segsize_compare, t)"
  obtains m where "metaslab_pp_maxsize sm = Inr m" "\<forall>a \<in> set xs. hi (seg_at sm a) - lo (seg_at sm a) \<le> unat m"
    "xs = [] \<longrightarrow> m = 0" "xs \<noteq> [] \<longrightarrow> (\<exists>a \<in> set xs. hi (seg_at sm a) - lo (seg_at sm a) = unat m)"
proof -
  obtain ys where ys: "avl_inv t ys" "set ys = set xs"
    "sorted_wrt (\<lambda>a b. metaslab_segsize_compare (seg_at sm a) (seg_at sm b) < 0) ys"
    using pp_list[OF pre pp] .
  have last: "avl_last t = Inr (last_opt ys)" by (rule avl_last_inv[OF ys(1)])
  show ?thesis
  proof (cases ys rule: rev_cases)
    case Nil
    then show ?thesis using ys(2) last pp that[of 0] by (simp add: metaslab_pp_maxsize_def last_opt_def)
  next
    case (snoc us a)
    let ?m = "ss_end (seg_at sm a) - ss_start (seg_at sm a)"
    have a: "a \<in> set xs" using snoc ys(2) by auto
    have "metaslab_pp_maxsize sm = Inr ?m"
      using snoc last pp sm_pre_known[OF pre] a by (simp add: metaslab_pp_maxsize_def last_opt_def deref_seg_def)
    moreover have "hi (seg_at sm b) - lo (seg_at sm b) \<le> unat ?m" if "b \<in> set xs" for b
    proof (cases "b = a")
      case False
      then have "metaslab_segsize_compare (seg_at sm b) (seg_at sm a) < 0"
        using ys(2,3) snoc that by (auto simp: sorted_wrt_append)
      then show ?thesis
        using seg_size_nat[OF pre that] by (auto simp: segsize_compare_less word_less_nat_alt word_unat_eq_iff)
    qed (use seg_size_nat[OF pre a] in simp)
    ultimately show ?thesis
      using a seg_size_nat[OF pre a] by (intro that[of ?m]) auto
  qed
qed

section \<open>Loading and unloading the picker's tree\<close>

lemma pp_load_fold:
  assumes "sm_pre sm xs A" "A \<subseteq> set xs" "distinct ps" "set ps \<subseteq> set xs" "A \<inter> set ps = {}"
  shows "\<exists>pp. foldM pp_add ps sm = Inr (sm\<lparr>sm_pp_root := pp\<rparr>) \<and> sm_pre (sm\<lparr>sm_pp_root := pp\<rparr>) xs (A \<union> set ps)
     \<and> map_option fst pp = map_option fst (sm_pp_root sm)"
  using assms
proof (induction ps arbitrary: sm A)
  case Nil
  then show ?case by (intro exI[of _ "sm_pp_root sm"]) simp
next
  case (Cons a ps)
  obtain pp where pp: "pp_add a sm = Inr (sm\<lparr>sm_pp_root := pp\<rparr>)" "sm_pre (sm\<lparr>sm_pp_root := pp\<rparr>) xs (insert a A)"
    "map_option fst pp = map_option fst (sm_pp_root sm)"
    using sm_pre_add[OF Cons.prems(1,2), of a] Cons.prems(4,5) by auto
  obtain pp' where "foldM pp_add ps (sm\<lparr>sm_pp_root := pp\<rparr>) = Inr (sm\<lparr>sm_pp_root := pp'\<rparr>)"
    "sm_pre (sm\<lparr>sm_pp_root := pp'\<rparr>) xs (insert a A \<union> set ps)" "map_option fst pp' = map_option fst pp"
    using Cons.IH[OF pp(2)] Cons.prems(2-5) by auto
  then show ?case using pp(1,3) by (intro exI[of _ pp']) simp
qed

lemma metaslab_pp_load_inv:
  assumes "sm_inv sm" "sm_ppd sm = None"
  shows "\<exists>pp. metaslab_pp_load sm = Inr (sm\<lparr>sm_ppd := Some (replicate 64 0), sm_pp_root := pp\<rparr>)
     \<and> sm_inv (sm\<lparr>sm_ppd := Some (replicate 64 0), sm_pp_root := pp\<rparr>)
     \<and> sm_ready (sm\<lparr>sm_ppd := Some (replicate 64 0), sm_pp_root := pp\<rparr>)"
proof -
  obtain xs where fits: "sm_fits sm" "sm_lock_held sm" and rep: "sm_pre sm xs (set xs)"
    and space: "unat (sm_space sm) = card (sm_set sm)"
    using assms(1) by (auto simp: sm_inv_def sm_rep_def sm_set_rep)
  let ?sm = "sm\<lparr>sm_ppd := Some (replicate 64 0), sm_pp_root := Some (metaslab_segsize_compare, avl_create (\<lambda>_. blank_node))\<rparr>"
  have at: "seg_at ?sm = seg_at sm" by (simp add: seg_at_def fun_eq_iff)
  have "pp_inv (seg_at sm) (Some (metaslab_segsize_compare, avl_create (\<lambda>_. blank_node))) {}"
    by (auto simp: pp_inv_def segsize.comparator_axioms intro!: exI[of _ "[]"])
  then have pre: "sm_pre ?sm xs {}" using rep at by (simp add: sm_pre_def sm_bounds_def)
  obtain pp where pp: "foldM pp_add xs ?sm = Inr (?sm\<lparr>sm_pp_root := pp\<rparr>)" "sm_pre (?sm\<lparr>sm_pp_root := pp\<rparr>) xs (set xs)"
    "map_option fst pp = Some metaslab_segsize_compare"
    using pp_load_fold[OF pre _ sm_pre_distinct[OF rep] subset_refl] by auto
  have "avl_inv (sm_root sm) xs" using rep by (simp add: sm_pre_def)
  then have "metaslab_pp_load sm = Inr (?sm\<lparr>sm_pp_root := pp\<rparr>)"
    using pp(1) assms(2) by (simp add: metaslab_pp_load_def Let_def fwd.scan_all)
  moreover have "sm_set (?sm\<lparr>sm_pp_root := pp\<rparr>) = sm_set sm" by (simp add: sm_set_def seg_at_def)
  then have "sm_rep (?sm\<lparr>sm_pp_root := pp\<rparr>) xs"
    using pp(2) space sm_set_rep[OF pp(2)] by (simp add: sm_rep_def)
  then have "sm_inv (?sm\<lparr>sm_pp_root := pp\<rparr>)" using fits by (auto simp: sm_inv_def sm_fits_def)
  ultimately show ?thesis using pp(3) by (intro exI[of _ pp]) (simp add: sm_ready_def)
qed

lemma pp_unload_loop_all:
  assumes "destroying t cookie ps"
  shows "\<exists>t'. pp_unload_loop t cookie = Some (Inr t') \<and> avl_inv t' []"
  using assms
proof (induction ps arbitrary: t cookie)
  case Nil
  then show ?case using destroying_end[OF Nil] by (subst pp_unload_loop.simps) fastforce
next
  case (Cons a ps)
  then show ?case using destroying_step[OF Cons.prems] by (subst pp_unload_loop.simps) fastforce
qed

lemma metaslab_pp_unload_inv:
  assumes "sm_inv sm" "sm_pp_root sm = Some (cmp, t)"
  shows "metaslab_pp_unload sm = Inr (sm\<lparr>sm_ppd := None, sm_pp_root := None\<rparr>)"
    "sm_inv (sm\<lparr>sm_ppd := None, sm_pp_root := None\<rparr>)"
proof -
  obtain xs where fits: "sm_fits sm" "sm_lock_held sm" and rep: "sm_pre sm xs (set xs)"
    and space: "unat (sm_space sm) = card (sm_set sm)"
    using assms(1) by (auto simp: sm_inv_def sm_rep_def sm_set_rep)
  obtain ys where "avl_inv t ys" using rep assms(2) by (auto simp: sm_pre_def pp_inv_def)
  then obtain ps where "destroying t CookieNull ps" using destroying_start by blast
  then obtain t' where "pp_unload_loop t CookieNull = Some (Inr t')" "avl_inv t' []"
    using pp_unload_loop_all by blast
  then show "metaslab_pp_unload sm = Inr (sm\<lparr>sm_ppd := None, sm_pp_root := None\<rparr>)"
    using assms(2) by (simp add: metaslab_pp_unload_def Let_def avl_destroy_inv)
  let ?sm = "sm\<lparr>sm_ppd := None, sm_pp_root := None\<rparr>"
  have at: "seg_at ?sm = seg_at sm" by (simp add: seg_at_def fun_eq_iff)
  have "sm_pre ?sm xs (set xs)" using rep at by (simp add: sm_pre_def pp_inv_def sm_bounds_def)
  moreover have "sm_set ?sm = sm_set sm" using at by (simp add: sm_set_def)
  ultimately have "sm_rep ?sm xs" using space sm_set_rep[of ?sm xs] by (simp add: sm_rep_def)
  then show "sm_inv ?sm" using fits by (auto simp: sm_inv_def sm_fits_def)
qed

section \<open>The contract of a policy\<close>

text \<open>
  \<open>alloc\<close> is the \<open>smop_alloc\<close> of a policy, \<open>align_of\<close> the alignment it gives to blocks of a size and
  \<open>good\<close> what it relies on besides the map being well-formed. The policy may move its cursors only.
\<close>

definition sm_flags :: "space_map \<Rightarrow> space_map \<Rightarrow> bool" where
  "sm_flags sm sm' \<longleftrightarrow> sm_geometry sm sm' \<and> sm_loaded sm' = sm_loaded sm \<and> sm_loading sm' = sm_loading sm
     \<and> sm_ops sm' = sm_ops sm"

lemma sm_flags_ppd [simp]: "sm_flags sm (sm\<lparr>sm_ppd := l\<rparr>)" "sm_flags (sm\<lparr>sm_ppd := l\<rparr>) sm' = sm_flags sm sm'"
  by (simp_all add: sm_flags_def sm_geometry_def)

lemma sm_same_flags: "sm_same sm sm' \<Longrightarrow> sm_flags sm sm'"
  by (simp add: sm_same_def sm_flags_def sm_geometry_def)

definition policy_result :: "(space_map \<times> u64) res \<Rightarrow> space_map \<Rightarrow> u64 \<Rightarrow> u64 \<Rightarrow> bool" where
  "policy_result r sm size' align \<longleftrightarrow> (\<exists>l off. r = Inr (sm\<lparr>sm_ppd := Some l\<rparr>, off) \<and> length l = 64
     \<and> (if off = -1 then (\<forall>a \<in> dom (sm_segs sm). \<not> fits sm size' align a)
        else sm_range sm off size' \<and> range_set off size' \<subseteq> sm_set sm))"

lemma policy_hit:
  assumes "r = Inr (sm\<lparr>sm_ppd := Some l\<rparr>, off)" "length l = 64" "sm_range sm off size'" "range_set off size' \<subseteq> sm_set sm"
    "off \<noteq> -1"
  shows "policy_result r sm size' align"
  using assms unfolding policy_result_def by auto

lemma policy_miss:
  assumes "r = Inr (sm\<lparr>sm_ppd := Some l\<rparr>, -1)" "length l = 64" "\<forall>a \<in> dom (sm_segs sm). \<not> fits sm size' align a"
  shows "policy_result r sm size' align"
  using assms unfolding policy_result_def by (intro exI[of _ l] exI[of _ "-1"]) simp

locale alloc_policy =
  fixes alloc :: "space_map \<Rightarrow> u64 \<Rightarrow> (space_map \<times> u64) res"
    and align_of :: "u64 \<Rightarrow> u64"
    and good :: "space_map \<Rightarrow> bool"
  assumes alloc_result: "sm_inv sm \<Longrightarrow> sm_ready sm \<Longrightarrow> good sm \<Longrightarrow> size_ok sm size' \<Longrightarrow>
      policy_result (alloc sm size') sm size' (align_of size')"
    and alloc_keeps: "sm_inv sm \<Longrightarrow> sm_ready sm \<Longrightarrow> good sm \<Longrightarrow> size_ok sm size' \<Longrightarrow>
      alloc sm size' = Inr (sm1, off) \<Longrightarrow> sm_set sm' = (if off = -1 then sm_set sm else sm_set sm - range_set off size') \<Longrightarrow>
      sm_ppd sm' = sm_ppd sm1 \<Longrightarrow> sm_geometry sm sm' \<Longrightarrow> good sm'"
begin

lemma alloc_block:
  assumes inv: "sm_inv sm" "sm_ready sm" "good sm" "size_ok sm size'" and fresh: "kmem_fresh k"
    and ops: "sm_ops sm = Some t" "smop_alloc (opsf t) = alloc"
  shows "\<exists>sm' off. space_map_alloc k opsf sm size' = Inr (sm', off) \<and> sm_inv sm' \<and> sm_ready sm' \<and> good sm' \<and> sm_flags sm sm'
     \<and> (if off = -1 then sm_set sm' = sm_set sm \<and> (\<forall>a \<in> dom (sm_segs sm). \<not> fits sm size' (align_of size') a)
        else sm_range sm off size' \<and> range_set off size' \<subseteq> sm_set sm \<and> sm_set sm' = sm_set sm - range_set off size')"
proof -
  obtain l off where a: "alloc sm size' = Inr (sm\<lparr>sm_ppd := Some l\<rparr>, off)" "length l = 64"
    "if off = -1 then (\<forall>a \<in> dom (sm_segs sm). \<not> fits sm size' (align_of size') a)
     else sm_range sm off size' \<and> range_set off size' \<subseteq> sm_set sm"
    using alloc_result[OF inv] unfolding policy_result_def by blast
  note keep = alloc_keeps[OF inv a(1)]
  show ?thesis
  proof (cases "off = -1")
    case True
    then show ?thesis
      using a inv ops keep[of "sm\<lparr>sm_ppd := Some l\<rparr>"]
      by (intro exI[of _ "sm\<lparr>sm_ppd := Some l\<rparr>"] exI[of _ off]) (simp add: space_map_alloc_def sm_ready_def sm_geometry_def)
  next
    case False
    with a(3) have "sm_range (sm\<lparr>sm_ppd := Some l\<rparr>) off size'" "range_set off size' \<subseteq> sm_set (sm\<lparr>sm_ppd := Some l\<rparr>)" by simp_all
    then obtain sm' where r: "space_map_remove k (sm\<lparr>sm_ppd := Some l\<rparr>) off size' = Inr sm'" "sm_inv sm'"
      "sm_set sm' = sm_set sm - range_set off size'" "sm_same (sm\<lparr>sm_ppd := Some l\<rparr>) sm'"
      using space_map_remove_inv[OF _ fresh, of "sm\<lparr>sm_ppd := Some l\<rparr>"] inv(1) sm_inv_ppd by metis
    then have "sm_ready sm'" "good sm'" "sm_flags sm sm'"
      using inv(2) a(2) keep[of sm'] False sm_same_flags[OF r(4)] by (auto simp: sm_same_def sm_ready_def sm_geometry_def)
    then show ?thesis
      using r a ops False by (intro exI[of _ sm'] exI[of _ off]) (simp add: space_map_alloc_def)
  qed
qed

end

section \<open>First fit\<close>

lemma ppd_ready:
  assumes "sm_ready sm" "i < 64"
  obtains l where "sm_ppd sm = Some l" "length l = 64" "ppd_get sm i = Inr (l ! i)"
    "\<forall>v. ppd_set i v sm = sm\<lparr>sm_ppd := Some (l[i := v])\<rparr>"
  using assms by (auto simp: sm_ready_def ppd_get_def ppd_set_def)

lemma low_bit_align:
  assumes "size_ok sm size'"
  obtains k where "k < 64" "size' AND - size' = 2 ^ k" "highbit (2 ^ k :: u64) = Suc k" "2 ^ k \<le> unat size'"
proof -
  have nz: "size' \<noteq> 0" using assms by (simp add: size_ok_def size_room_def)
  obtain k where k: "k < 64" "size' AND - size' = 2 ^ k" "2 ^ k dvd unat size'"
    using low_bit_pow2[OF nz] .
  have "2 ^ k \<le> unat size'" using k(3) nz by (auto dest: dvd_imp_le simp: unat_gt_0)
  then show ?thesis using that[OF k(1,2) highbit_pow2[OF k(1)]] by simp
qed

lemma ff_alloc_result:
  assumes "sm_inv sm" "sm_ready sm" "size_ok sm size'"
  shows "policy_result (metaslab_ff_alloc sm size') sm size' (size' AND - size')"
proof -
  obtain xs where pre: "sm_pre sm xs (set xs)" "dom (sm_segs sm) = set xs" using sm_inv_pre[OF assms(1)] .
  obtain k where k: "k < 64" "size' AND - size' = 2 ^ k" "highbit (2 ^ k :: u64) = Suc k" "2 ^ k \<le> unat size'"
    using low_bit_align[OF assms(3)] .
  obtain l where l: "length l = 64" "ppd_get sm k = Inr (l ! k)" "\<forall>v. ppd_set k v sm = sm\<lparr>sm_ppd := Some (l[k := v])\<rparr>"
    using ppd_ready[OF assms(2) k(1)] .
  let ?p = "metaslab_block_picker space_map_seg_compare (sm_root sm) sm (l ! k) size' (2 ^ k)"
  have run: "metaslab_ff_alloc sm size' = rbind ?p (\<lambda>(offset, cursor'). Inr (sm\<lparr>sm_ppd := Some (l[k := cursor'])\<rparr>, offset))"
    unfolding metaslab_ff_alloc_def k(2) Let_def k(3) using l(2,3) by (simp cong del: rbind_cong_weak)
  have room: "size_room sm size'" using assms(3) by (simp add: size_ok_def)
  from root_picker[OF pre(1) k(1,4) room, of "l ! k"] show ?thesis
  proof (elim disjE bexE conjE)
    fix a assume a: "a \<in> set xs" "fits sm size' (2 ^ k) a" "?p = Inr (pick sm (2 ^ k) a, pick sm (2 ^ k) a + size')"
    show ?thesis
      using fits_range(1,3,4)[OF pre(1) a(1) k(1,4) assms(3) a(2)] a(3) l(1) run
      by (intro policy_hit[where l = "l[k := pick sm (2 ^ k) a + size']" and off = "pick sm (2 ^ k) a"]) simp_all
  next
    assume "\<forall>a \<in> set xs. \<not> fits sm size' (2 ^ k) a" "?p = Inr (-1, 0)"
    then show ?thesis using run pre(2) l(1) k(2) by (intro policy_miss[where l = "l[k := 0]"]) simp_all
  qed
qed

interpretation ff: alloc_policy metaslab_ff_alloc "\<lambda>size'. size' AND - size'" "\<lambda>_. True"
  by unfold_locales (use ff_alloc_result in auto)

section \<open>Dynamic fit\<close>

lemma ready_pp:
  assumes "sm_ready sm"
  obtains t where "sm_pp_root sm = Some (metaslab_segsize_compare, t)" "pp_tree sm = Inr (metaslab_segsize_compare, t)"
  using assms by (cases "sm_pp_root sm") (auto simp: sm_ready_def pp_tree_def)

lemma numnodes_agree:
  assumes "sm_pre sm xs (set xs)" "sm_pp_root sm = Some (metaslab_segsize_compare, t)"
  shows "avl_numnodes (sm_root sm) = avl_numnodes t"
proof -
  obtain ys where ys: "avl_inv t ys" "set ys = set xs" using pp_list[OF assms] .
  have xs: "avl_inv (sm_root sm) xs" using assms(1) by (simp add: sm_pre_def)
  show ?thesis
    using avl_inv_numnodes[OF ys(1)] avl_inv_numnodes[OF xs] avl_inv_distinct[OF ys(1)] avl_inv_distinct[OF xs] ys(2)
    by (metis distinct_card)
qed

lemma fits_maxsize:
  assumes pre: "sm_pre sm xs (set xs)" and room: "size_room sm size'"
    and m: "\<forall>a \<in> set xs. hi (seg_at sm a) - lo (seg_at sm a) \<le> unat m" "xs = [] \<longrightarrow> m = 0"
      "xs \<noteq> [] \<longrightarrow> (\<exists>a \<in> set xs. hi (seg_at sm a) - lo (seg_at sm a) = unat m)"
  shows "m < size' \<longleftrightarrow> (\<forall>a \<in> set xs. \<not> fits sm size' 1 a)"
proof (cases "xs = []")
  case True
  then show ?thesis using m(2) room by (simp add: size_room_def word_gt_0)
next
  case False
  obtain a where "a \<in> set xs" "hi (seg_at sm a) - lo (seg_at sm a) = unat m" using m(3) False by blast
  then show ?thesis
    using m(1) fits_one[OF pre _ room] by (auto simp: word_less_nat_alt not_le intro: le_less_trans)
qed

lemma fits_one_range:
  assumes "sm_pre sm xs (set xs)" "a \<in> set xs" "size_ok sm size'" "fits sm size' 1 a"
  shows "sm_range sm (ss_start (seg_at sm a)) size'" "range_set (ss_start (seg_at sm a)) size' \<subseteq> seg_set (seg_at sm a)"
    "range_set (ss_start (seg_at sm a)) size' \<subseteq> sm_set sm" "ss_start (seg_at sm a) \<noteq> -1"
proof -
  have "1 \<le> unat size'" using assms(3) by (simp add: size_ok_def size_room_def Suc_le_eq unat_gt_0)
  then show "sm_range sm (ss_start (seg_at sm a)) size'" "range_set (ss_start (seg_at sm a)) size' \<subseteq> seg_set (seg_at sm a)"
    "range_set (ss_start (seg_at sm a)) size' \<subseteq> sm_set sm" "ss_start (seg_at sm a) \<noteq> -1"
    using fits_range[OF assms(1,2), of 0 size'] assms(3,4) unfolding power_0 pick_one by simp_all
qed

lemma df_alloc_result:
  assumes "sm_inv sm" "sm_ready sm" "sm_size sm \<noteq> 0" "size_ok sm size'"
  shows "policy_result (metaslab_df_alloc sm size') sm size' 1"
proof -
  obtain xs where pre: "sm_pre sm xs (set xs)" "dom (sm_segs sm) = set xs" "sm_lock_held sm"
    using sm_inv_pre[OF assms(1)] .
  obtain t where t: "sm_pp_root sm = Some (metaslab_segsize_compare, t)" "pp_tree sm = Inr (metaslab_segsize_compare, t)"
    using ready_pp[OF assms(2)] .
  obtain k where k: "k < 64" "size' AND - size' = 2 ^ k" "highbit (2 ^ k :: u64) = Suc k" using low_bit_align[OF assms(4)] .
  obtain l where l: "sm_ppd sm = Some l" "length l = 64" "ppd_get sm k = Inr (l ! k)"
    "\<forall>v. ppd_set k v sm = sm\<lparr>sm_ppd := Some (l[k := v])\<rparr>"
    using ppd_ready[OF assms(2) k(1)] .
  obtain m where m: "metaslab_pp_maxsize sm = Inr m" "\<forall>a \<in> set xs. hi (seg_at sm a) - lo (seg_at sm a) \<le> unat m"
    "xs = [] \<longrightarrow> m = 0" "xs \<noteq> [] \<longrightarrow> (\<exists>a \<in> set xs. hi (seg_at sm a) - lo (seg_at sm a) = unat m)"
    using pp_maxsize[OF pre(1) t(1)] .
  obtain pct where pct: "free_pct sm = Inr pct" using assms(3) by (simp add: free_pct_def)
  let ?p = "if m < metaslab_df_alloc_threshold \<or> pct < metaslab_df_free_pct
    then metaslab_block_picker metaslab_segsize_compare t sm 0 size' 1
    else metaslab_block_picker space_map_seg_compare (sm_root sm) sm (l ! k) size' 1"
  have run: "metaslab_df_alloc sm size' = (if m < size' then Inr (sm, -1)
      else rbind ?p (\<lambda>(offset, cursor'). Inr (sm\<lparr>sm_ppd := Some (l[k := cursor'])\<rparr>, offset)))"
    unfolding metaslab_df_alloc_def k(2) Let_def k(3)
    using l(3,4) m(1) pct pre(3) t(2) numnodes_agree[OF pre(1) t(1)] by (simp cong del: rbind_cong_weak)
  have room: "size_room sm size'" "1 \<le> unat size'"
    using assms(4) by (simp_all add: size_ok_def size_room_def Suc_le_eq unat_gt_0)
  have p: "(\<exists>a \<in> set xs. fits sm size' 1 a \<and> ?p = Inr (pick sm 1 a, pick sm 1 a + size'))
     \<or> (\<forall>a \<in> set xs. \<not> fits sm size' 1 a) \<and> ?p = Inr (-1, 0)"
    using pp_picker[OF pre(1) t(1) room(1), of 0] root_picker[OF pre(1), of 0 size' "l ! k"] room by auto
  have same: "sm\<lparr>sm_ppd := Some l\<rparr> = sm" using l(1) by simp
  show ?thesis
  proof (cases "m < size'")
    case True
    then show ?thesis
      using run same l(2) pre(2) fits_maxsize[OF pre(1) room(1) m(2-4)] by (intro policy_miss[where l = l]) simp_all
  next
    case False
    from p show ?thesis
    proof (elim disjE bexE conjE)
      fix a assume a: "a \<in> set xs" "fits sm size' 1 a" "?p = Inr (pick sm 1 a, pick sm 1 a + size')"
      show ?thesis
        using fits_one_range(1,3,4)[OF pre(1) a(1) assms(4) a(2)] a(3) run False l(2)
        by (intro policy_hit[where l = "l[k := pick sm 1 a + size']" and off = "ss_start (seg_at sm a)"]) (simp_all add: pick_one)
    next
      assume "\<forall>a \<in> set xs. \<not> fits sm size' 1 a" "?p = Inr (-1, 0)"
      then show ?thesis using run False pre(2) l(2) by (intro policy_miss[where l = "l[k := 0]"]) simp_all
    qed
  qed
qed

interpretation df: alloc_policy metaslab_df_alloc "\<lambda>_. 1" "\<lambda>sm. sm_size sm \<noteq> 0"
  by unfold_locales (use df_alloc_result in \<open>auto simp: sm_geometry_def\<close>)

section \<open>New dynamic fit\<close>

lemma pp_best_fit:
  assumes pre: "sm_pre sm xs (set xs)" and pp: "sm_pp_root sm = Some (metaslab_segsize_compare, t)"
    and big: "\<exists>a \<in> set xs. unat w \<le> hi (seg_at sm a) - lo (seg_at sm a)"
  obtains ss wh a where "avl_find (\<lambda>n. metaslab_segsize_compare \<lparr>ss_start = 0, ss_end = w\<rparr> (seg_at sm n)) t = Inr (ss, wh)"
    "(if ss = None then avl_nearest t wh AVL_AFTER else Inr ss) = Inr (Some a)" "a \<in> set xs"
    "unat w \<le> hi (seg_at sm a) - lo (seg_at sm a)"
proof -
  let ?s = "\<lparr>ss_start = 0, ss_end = w\<rparr>"
  let ?c = "\<lambda>n. metaslab_segsize_compare ?s (seg_at sm n)"
  obtain ys where ys: "avl_inv t ys" "set ys = set xs"
    "sorted_wrt (\<lambda>a b. metaslab_segsize_compare (seg_at sm a) (seg_at sm b) < 0) ys"
    using pp_list[OF pre pp] .
  have srt: "compar_sorted ?c ys" by (rule segsize.sorted_keys_compar[OF ys(3)])
  have size: "unat w \<le> hi (seg_at sm a) - lo (seg_at sm a) \<longleftrightarrow> ?c a \<le> 0" if "a \<in> set xs" for a
    using seg_size_nat[OF pre that] segsize_compare_less[of "seg_at sm a" ?s] segsize.cmp_sym[of "seg_at sm a" ?s]
    by (auto simp: word_less_nat_alt word_unat_eq_iff)
  show ?thesis
  proof (cases "unmatched ?c ys")
    case True
    obtain wh where wh: "avl_find ?c t = Inr (None, wh)" "avl_nearest t wh AVL_AFTER = Inr (hd_opt (above ?c ys))"
      using avl.find_nearest[OF ys(1) srt True] by blast
    obtain b where "b \<in> set xs" "?c b \<le> 0" using big size by blast
    then have "b \<in> set (above ?c ys)" using True ys(2) by (auto simp: unmatched_def)
    then obtain a us where a: "above ?c ys = a # us" by (cases "above ?c ys") auto
    then have "a \<in> set (above ?c ys)" by simp
    then have "a \<in> set xs" "?c a \<le> 0" using ys(2) by auto
    then show ?thesis using that[of None wh a] wh a size by simp
  next
    case False
    obtain a wh where "avl_find ?c t = Inr (Some a, wh)" "a \<in> set ys" "?c a = 0"
      using avl.find_some[OF ys(1) srt False] by blast
    then show ?thesis using that[of "Some a" wh a] size ys(2) by simp
  qed
qed

lemma root_find_known:
  assumes "sm_pre sm xs (set xs)"
  obtains ss wh where "avl_find (seg_compar sm s) (sm_root sm) = Inr (ss, wh)" "\<forall>a. ss = Some a \<longrightarrow> a \<in> set xs"
proof -
  have inv: "avl_inv (sm_root sm) xs" "compar_sorted (seg_compar sm s) xs"
    using assms seg_compare_sorted[of "seg_at sm" xs s] by (auto simp: sm_pre_def seg_compar_fun)
  show ?thesis
    using avl.find_some[OF inv] avl.find_none[OF inv] that by (cases "unmatched (seg_compar sm s) xs") fastforce+
qed

lemma maxblock2_nat: "unat (2 * SPA_MAXBLOCKSIZE) = 262144"
  by (simp add: SPA_MAXBLOCKSIZE_def SPA_MAXBLOCKSHIFT_def push_bit_eq_mult)

text \<open>The size that the last two policies look for: at least the requested one, and there is a segment of it.\<close>

lemma rsize_props:
  assumes z: "size_room sm size'" and m: "\<not> m < size'"
  defines "r \<equiv> if m > 2 * SPA_MAXBLOCKSIZE then min metaslab_min_alloc_size m else size'"
  shows "unat size' \<le> unat r" "unat r \<le> unat m" "size_room sm r"
  using z m maxblock2_nat min_alloc_nat
  by (auto simp: r_def size_room_def word_less_nat_alt word_le_nat_alt min_def)

lemma ndf_alloc_result:
  assumes "sm_inv sm" "sm_ready sm" "size_ok sm size'"
  shows "policy_result (metaslab_ndf_alloc sm size') sm size' 1"
proof -
  obtain xs where pre: "sm_pre sm xs (set xs)" "dom (sm_segs sm) = set xs" "sm_lock_held sm"
    using sm_inv_pre[OF assms(1)] .
  obtain t where t: "sm_pp_root sm = Some (metaslab_segsize_compare, t)" "pp_tree sm = Inr (metaslab_segsize_compare, t)"
    using ready_pp[OF assms(2)] .
  obtain l where l: "sm_ppd sm = Some l" "length l = 64" "ppd_get sm 0 = Inr (l ! 0)"
    "\<forall>v. ppd_set 0 v sm = sm\<lparr>sm_ppd := Some (l[0 := v])\<rparr>"
    using ppd_ready[OF assms(2), of 0] by auto
  obtain m where m: "metaslab_pp_maxsize sm = Inr m" "\<forall>a \<in> set xs. hi (seg_at sm a) - lo (seg_at sm a) \<le> unat m"
    "xs = [] \<longrightarrow> m = 0" "xs \<noteq> [] \<longrightarrow> (\<exists>a \<in> set xs. hi (seg_at sm a) - lo (seg_at sm a) = unat m)"
    using pp_maxsize[OF pre(1) t(1)] .
  have room: "size_room sm size'" using assms(3) by (simp add: size_ok_def)
  have same: "sm\<lparr>sm_ppd := Some l\<rparr> = sm" using l(1) by simp
  have known: "deref_seg sm a = Inr (seg_at sm a)" if "a \<in> set xs" for a
    using sm_pre_known[OF pre(1)] that by (simp add: deref_seg_def)
  let ?r = "if m > 2 * SPA_MAXBLOCKSIZE then min metaslab_min_alloc_size m else size'"
  obtain ss wh where f: "avl_find (seg_compar sm \<lparr>ss_start = l ! 0, ss_end = l ! 0 + size'\<rparr>) (sm_root sm) = Inr (ss, wh)"
    "\<forall>a. ss = Some a \<longrightarrow> a \<in> set xs" using root_find_known[OF pre(1)] .
  note base = m(1) t(2) pre(3) numnodes_agree[OF pre(1) t(1)] l(3,4) f(1)
  show ?thesis
  proof (cases "m < size'")
    case True
    then show ?thesis
      using base same l(2) pre(2) fits_maxsize[OF pre(1) room(1) m(2-4)]
      by (intro policy_miss[where l = l]) (simp_all add: metaslab_ndf_alloc_def)
  next
    case False
    note r = rsize_props[OF room False]
    have "m \<noteq> 0" using False room by (auto simp: size_room_def word_gt_0)
    then have "xs \<noteq> []" using m(3) by blast
    then have big: "\<exists>a \<in> set xs. unat ?r \<le> hi (seg_at sm a) - lo (seg_at sm a)" using m(4) r(2) by metis
    show ?thesis
    proof (cases "\<exists>a. ss = Some a \<and> ss_start (seg_at sm a) + size' \<le> ss_end (seg_at sm a)")
      case True
      then obtain a where a: "ss = Some a" "ss_start (seg_at sm a) + size' \<le> ss_end (seg_at sm a)" by blast
      then have "a \<in> set xs" "fits sm size' 1 a" using f(2) by (auto simp: fits_def pick_one)
      then show ?thesis
        using base a leD[OF a(2)] known False l(2) fits_one_range[OF pre(1) _ assms(3), of a]
        by (intro policy_hit[where l = "l[0 := ss_start (seg_at sm a) + size']" and off = "ss_start (seg_at sm a)"])
          (simp_all add: metaslab_ndf_alloc_def)
    next
      case search: False
      obtain ss' wh' b where b: "avl_find (\<lambda>n. metaslab_segsize_compare \<lparr>ss_start = 0, ss_end = ?r\<rparr> (seg_at sm n)) t = Inr (ss', wh')"
        "(if ss' = None then avl_nearest t wh' AVL_AFTER else Inr ss') = Inr (Some b)" "b \<in> set xs"
        "unat ?r \<le> hi (seg_at sm b) - lo (seg_at sm b)"
        using pp_best_fit[OF pre(1) t(1) big] .
      have fit: "fits sm ?r 1 b" "fits sm size' 1 b"
        using fits_one[OF pre(1) b(3) r(3)] fits_one[OF pre(1) b(3) room] b(4) r(1) by simp_all
      have s: "(case ss of None \<Rightarrow> Inr True
              | Some a \<Rightarrow> rbind (deref_seg sm a) (\<lambda>s. Inr (ss_start s + size' > ss_end s))) = (Inr True :: bool res)"
        using search f(2) known by (cases ss) (auto simp: not_le)
      have "metaslab_ndf_alloc sm size' = Inr (sm\<lparr>sm_ppd := Some (l[0 := ss_start (seg_at sm b) + ?r])\<rparr>, ss_start (seg_at sm b))"
        using base False s b(1,2) fit(1) known[OF b(3)]
        by (simp add: metaslab_ndf_alloc_def Let_def fits_def pick_one)
      then show ?thesis by (rule policy_hit) (use fits_one_range[OF pre(1) b(3) assms(3) fit(2)] l(2) in auto)
    qed
  qed
qed

interpretation ndf: alloc_policy metaslab_ndf_alloc "\<lambda>_. 1" "\<lambda>_. True"
  by unfold_locales (use ndf_alloc_result in auto)

section \<open>Cursor-dynamic fit\<close>

text \<open>The rest of the extent that the policy is consuming is free.\<close>

definition cdf_good :: "space_map \<Rightarrow> bool" where
  "cdf_good sm \<longleftrightarrow> (case sm_ppd sm of None \<Rightarrow> False | Some l \<Rightarrow>
     unat (l ! 0) \<le> unat (l ! 1) \<and> {unat (l ! 0) ..< unat (l ! 1)} \<subseteq> sm_set sm
     \<and> unat (l ! 1) \<le> unat (sm_start sm) + unat (sm_size sm))"

lemma one_segment:
  assumes pre: "sm_pre sm xs (set xs)" and sub: "{c ..< e} \<subseteq> sm_set sm" "c < e"
  obtains a where "a \<in> set xs" "lo (seg_at sm a) \<le> c" "e \<le> hi (seg_at sm a)"
proof -
  have segs: "seg_list (seg_at sm) xs" "distinct xs" using pre sm_pre_distinct by (auto simp: sm_pre_def)
  have in_seg: "\<exists>a \<in> set xs. lo (seg_at sm a) \<le> p \<and> p < hi (seg_at sm a)" if "p \<in> sm_set sm" for p
    using that sm_set_rep[OF pre] by (auto simp: segs_set_def)
  have "c \<in> sm_set sm" using sub by auto
  then obtain a where a: "a \<in> set xs" "lo (seg_at sm a) \<le> c" "c < hi (seg_at sm a)" using in_seg by blast
  have "e \<le> hi (seg_at sm a)"
  proof (rule ccontr)
    assume "\<not> e \<le> hi (seg_at sm a)"
    then have "hi (seg_at sm a) \<in> sm_set sm" using sub a(3) by auto
    then obtain b where b: "b \<in> set xs" "lo (seg_at sm b) \<le> hi (seg_at sm a)" "hi (seg_at sm a) < hi (seg_at sm b)"
      using in_seg by blast
    then have "a \<noteq> b" by auto
    then show False using seg_list_inj[OF segs a(1) b(1)] b a seg_listD[OF segs(1) a(1)] by auto
  qed
  then show ?thesis using that a by blast
qed

text \<open>A first-fit search that starts inside of a segment uses that segment.\<close>

lemma root_picker_inside:
  assumes pre: "sm_pre sm xs (set xs)" and z: "size_room sm size'" and a: "a \<in> set xs" "lo (seg_at sm a) \<le> unat c"
    and c: "unat c + unat size' \<le> hi (seg_at sm a)"
  shows "metaslab_block_picker space_map_seg_compare (sm_root sm) sm c size' 1
    = Inr (ss_start (seg_at sm a), ss_start (seg_at sm a) + size')"
proof -
  let ?s = "\<lparr>ss_start = c, ss_end = c + size'\<rparr>"
  let ?c = "\<lambda>n. space_map_seg_compare ?s (seg_at sm n)"
  have tree: "avl_inv (sm_root sm) xs" "seg_list (seg_at sm) xs" "distinct xs"
    using pre sm_pre_distinct by (auto simp: sm_pre_def)
  have srt: "compar_sorted ?c xs" by (rule seg_compare_sorted[OF tree(2)])
  have end': "unat (c + size') = unat c + unat size'"
    using c unat_less_64[of "ss_end (seg_at sm a)"] by (intro unat_add_no_wrap) linarith
  have pos: "0 < unat size'" using z by (simp add: size_room_def unat_gt_0)
  have zero: "?c a = 0"
    using a(2) c pos end' by (auto simp: space_map_seg_compare_def word_less_nat_alt)
  have only: "b = a" if "b \<in> set xs" "?c b = 0" for b
  proof (rule ccontr)
    assume "b \<noteq> a"
    then have "hi (seg_at sm a) < lo (seg_at sm b) \<or> hi (seg_at sm b) < lo (seg_at sm a)"
      using seg_list_inj[OF tree(2,3) a(1) that(1)] by auto
    then show False using that(2) a(2) c pos end' seg_listD[OF tree(2) that(1)]
      by (auto simp: space_map_seg_compare_def word_less_nat_alt split: if_splits)
  qed
  have "\<not> unmatched ?c xs" using a(1) zero by (auto simp: unmatched_def)
  then obtain wh where f: "avl_find ?c (sm_root sm) = Inr (Some a, wh)"
    using avl.find_some[OF tree(1) srt] only by blast
  obtain ys zs where xs: "xs = ys @ a # zs" using split_list[OF a(1)] by blast
  have fit: "fits sm size' 1 a"
    using fits_one[OF pre a(1) z] a(2) c by simp
  have "picker_loop (sm_root sm) sm size' 1 (Some a) = Some (Inr (Some (pick sm 1 a)))"
    using picker_loop_suffix[of "sm_root sm" ys "a # zs" sm size' 1] tree(1) xs sm_pre_known[OF pre] fit by simp
  then have "picker_pass space_map_seg_compare (sm_root sm) sm c size' 1 = Inr (Some (ss_start (seg_at sm a)))"
    using f by (simp add: picker_pass_def pick_one)
  then show ?thesis by (simp add: metaslab_block_picker.simps[of _ _ _ c])
qed

text \<open>What a call does: it returns the start of a segment that fits, and moves within its extent.\<close>

lemma cdf_alloc_run:
  assumes "sm_inv sm" "sm_ready sm" "cdf_good sm" "size_ok sm size'"
  obtains l m where "sm_ppd sm = Some l" "length l = 64" "m < size'" "metaslab_cdf_alloc sm size' = Inr (sm, -1)"
      "\<forall>a \<in> dom (sm_segs sm). \<not> fits sm size' 1 a"
  | l a cur ext where "sm_ppd sm = Some l" "length l = 64" "a \<in> dom (sm_segs sm)" "fits sm size' 1 a"
      "metaslab_cdf_alloc sm size' = Inr (sm\<lparr>sm_ppd := Some (l[0 := cur, 1 := ext])\<rparr>, ss_start (seg_at sm a))"
      "cur = ss_start (seg_at sm a) + size'" "unat cur = lo (seg_at sm a) + unat size'" "unat cur \<le> unat ext"
      "unat ext \<le> hi (seg_at sm a)"
proof -
  obtain xs where pre: "sm_pre sm xs (set xs)" "dom (sm_segs sm) = set xs" "sm_lock_held sm"
    using sm_inv_pre[OF assms(1)] .
  obtain t where t: "sm_pp_root sm = Some (metaslab_segsize_compare, t)" "pp_tree sm = Inr (metaslab_segsize_compare, t)"
    using ready_pp[OF assms(2)] .
  obtain l where l: "sm_ppd sm = Some l" "length l = 64" "ppd_get sm 0 = Inr (l ! 0)" "ppd_get sm 1 = Inr (l ! 1)"
    using assms(2) by (auto simp: sm_ready_def ppd_get_def)
  have set2: "ppd_set 1 v (ppd_set 0 u sm) = sm\<lparr>sm_ppd := Some (l[0 := u, 1 := v])\<rparr>" for u v
    using l(1) by (simp add: ppd_set_def)
  obtain m where m: "metaslab_pp_maxsize sm = Inr m" "\<forall>a \<in> set xs. hi (seg_at sm a) - lo (seg_at sm a) \<le> unat m"
    "xs = [] \<longrightarrow> m = 0" "xs \<noteq> [] \<longrightarrow> (\<exists>a \<in> set xs. hi (seg_at sm a) - lo (seg_at sm a) = unat m)"
    using pp_maxsize[OF pre(1) t(1)] .
  have room: "size_room sm size'" using assms(4) by (simp add: size_ok_def)
  let ?r = "if m > 2 * SPA_MAXBLOCKSIZE then min metaslab_min_alloc_size m else size'"
  have good: "unat (l ! 0) \<le> unat (l ! 1)" "{unat (l ! 0) ..< unat (l ! 1)} \<subseteq> sm_set sm"
    "unat (l ! 1) \<le> unat (sm_start sm) + unat (sm_size sm)"
    using assms(3) l(1) by (auto simp: cdf_good_def)
  note base = m(1) t(2) pre(3) numnodes_agree[OF pre(1) t(1)] l(3,4) good(1)
  have fitp: "lo (seg_at sm a) + unat size' \<le> hi (seg_at sm a)" "unat (ss_start (seg_at sm a) + size') = lo (seg_at sm a) + unat size'"
    if "a \<in> set xs" "fits sm size' 1 a" for a
  proof -
    have "lo (seg_at sm a) < hi (seg_at sm a)" using pre(1) that(1) seg_listD by (auto simp: sm_pre_def)
    then show "lo (seg_at sm a) + unat size' \<le> hi (seg_at sm a)"
      using fits_one[OF pre(1) that(1) room] that(2) by linarith
    then show "unat (ss_start (seg_at sm a) + size') = lo (seg_at sm a) + unat size'"
      using unat_less_64[of "ss_end (seg_at sm a)"] by (intro unat_add_no_wrap) linarith
  qed
  show ?thesis
  proof (cases "m < size'")
    case True
    then show ?thesis
      using base pre(2) fits_maxsize[OF pre(1) room m(2-4)] l(1,2)
      by (intro that(1)[of l m]) (simp_all add: metaslab_cdf_alloc_def)
  next
    case False
    note r = rsize_props[OF room False]
    show ?thesis
    proof (cases "l ! 0 + size' > l ! 1")
      case True
      have "m \<noteq> 0" using False room by (auto simp: size_room_def word_gt_0)
      then obtain b where "b \<in> set xs" "hi (seg_at sm b) - lo (seg_at sm b) = unat m" using m(3,4) by blast
      then have "\<not> (\<forall>a \<in> set xs. \<not> fits sm ?r 1 a)" using fits_one[OF pre(1) _ r(3), of b] r(2) by auto
      then obtain a where a: "a \<in> set xs" "fits sm ?r 1 a"
        "metaslab_block_picker metaslab_segsize_compare t sm 0 ?r 1 = Inr (pick sm 1 a, pick sm 1 a + ?r)"
        using pp_picker[OF pre(1) t(1) r(3), of 0] by blast
      have fit: "fits sm size' 1 a"
        using fits_one[OF pre(1) a(1) r(3)] fits_one[OF pre(1) a(1) room] a(2) r(1) by simp
      have "lo (seg_at sm a) < hi (seg_at sm a)" using pre(1) a(1) seg_listD by (auto simp: sm_pre_def)
      then have re: "lo (seg_at sm a) + unat ?r \<le> hi (seg_at sm a)" using fits_one[OF pre(1) a(1) r(3)] a(2) by linarith
      then have ext: "unat (ss_start (seg_at sm a) + ?r) = lo (seg_at sm a) + unat ?r"
        using unat_less_64[of "ss_end (seg_at sm a)"] by (intro unat_add_no_wrap) linarith
      have le: "ss_start (seg_at sm a) + size' \<le> ss_start (seg_at sm a) + ?r"
        unfolding word_le_nat_alt fitp(2)[OF a(1) fit] ext using r(1) by simp
      have "metaslab_cdf_alloc sm size'
          = Inr (sm\<lparr>sm_ppd := Some (l[0 := ss_start (seg_at sm a) + size', 1 := ss_start (seg_at sm a) + ?r])\<rparr>, ss_start (seg_at sm a))"
        unfolding metaslab_cdf_alloc_def
        using base False True a(3) le set2 fits_one_range(4)[OF pre(1) a(1) assms(4) fit]
        by (simp add: Let_def pick_one word_le_nat_alt)
      then show ?thesis
        using l(1,2) a(1) pre(2) fit fitp[OF a(1) fit] re r(1)
        by (intro that(2)[of l a "ss_start (seg_at sm a) + size'" "ss_start (seg_at sm a) + ?r"]) (simp_all add: ext)
    next
      case inside: False
      have pos: "0 < unat size'" using room by (simp add: size_room_def unat_gt_0)
      have wrap: "unat (l ! 0 + size') = unat (l ! 0) + unat size'"
        using good room by (intro unat_add_no_wrap) (simp add: size_room_def min_alloc_nat)
      have ce: "unat (l ! 0) + unat size' \<le> unat (l ! 1)" using inside wrap by (simp add: not_less word_le_nat_alt)
      then obtain a where a: "a \<in> set xs" "lo (seg_at sm a) \<le> unat (l ! 0)" "unat (l ! 1) \<le> hi (seg_at sm a)"
        using one_segment[OF pre(1) good(2)] pos by auto
      have p: "metaslab_block_picker space_map_seg_compare (sm_root sm) sm (l ! 0) size' 1
          = Inr (ss_start (seg_at sm a), ss_start (seg_at sm a) + size')"
        by (rule root_picker_inside[OF pre(1) room a(1,2)]) (use ce a(3) in linarith)
      have fit: "fits sm size' 1 a" using fits_one[OF pre(1) a(1) room] a ce by linarith
      have le: "ss_start (seg_at sm a) + size' \<le> l ! 1"
        unfolding word_le_nat_alt fitp(2)[OF a(1) fit] using a(2) ce by linarith
      have "metaslab_cdf_alloc sm size'
          = Inr (sm\<lparr>sm_ppd := Some (l[0 := ss_start (seg_at sm a) + size', 1 := l ! 1])\<rparr>, ss_start (seg_at sm a))"
        unfolding metaslab_cdf_alloc_def
        using base False inside p le set2 by (simp add: Let_def word_le_nat_alt del: list_update_id)
      then show ?thesis
        using l(1,2) a pre(2) fit fitp[OF a(1) fit] le
        by (intro that(2)[of l a "ss_start (seg_at sm a) + size'" "l ! 1"]) (simp_all add: word_le_nat_alt)
    qed
  qed
qed

lemma cdf_alloc_result:
  assumes "sm_inv sm" "sm_ready sm" "cdf_good sm" "size_ok sm size'"
  shows "policy_result (metaslab_cdf_alloc sm size') sm size' 1"
  using assms
proof (cases rule: cdf_alloc_run)
  case (1 l m)
  then show ?thesis by (intro policy_miss[where l = l]) simp_all
next
  case (2 l a cur ext)
  obtain xs where pre: "sm_pre sm xs (set xs)" "dom (sm_segs sm) = set xs" using sm_inv_pre[OF assms(1)] .
  then have "a \<in> set xs" using 2(3) by simp
  from fits_one_range(1,3,4)[OF pre(1) this assms(4) 2(4)] show ?thesis
    using 2(2,5) by (intro policy_hit[where l = "l[0 := cur, 1 := ext]" and off = "ss_start (seg_at sm a)"]) simp_all
qed

lemma cdf_alloc_keeps:
  assumes inv: "sm_inv sm" "sm_ready sm" "cdf_good sm" "size_ok sm size'"
    and run: "metaslab_cdf_alloc sm size' = Inr (sm1, off)"
    and sm': "sm_set sm' = (if off = -1 then sm_set sm else sm_set sm - range_set off size')" "sm_ppd sm' = sm_ppd sm1"
      "sm_geometry sm sm'"
  shows "cdf_good sm'"
  using inv
proof (cases rule: cdf_alloc_run)
  case (1 l m)
  then show ?thesis using run sm' inv(3) by (simp add: cdf_good_def sm_geometry_def)
next
  case (2 l a cur ext)
  obtain xs where pre: "sm_pre sm xs (set xs)" "dom (sm_segs sm) = set xs" using sm_inv_pre[OF inv(1)] .
  then have a: "a \<in> set xs" using 2(3) by simp
  note off = fits_one_range[OF pre(1) a inv(4) 2(4)]
  have eq: "sm1 = sm\<lparr>sm_ppd := Some (l[0 := cur, 1 := ext])\<rparr>" "off = ss_start (seg_at sm a)" using run 2(5) by simp_all
  have "seg_set (seg_at sm a) \<subseteq> sm_set sm" using sm_set_rep[OF pre(1)] a by (auto simp: segs_set_def)
  moreover have "{unat cur ..< unat ext} \<subseteq> seg_set (seg_at sm a) - range_set off size'"
    using 2(7-9) eq(2) by auto
  ultimately have "{unat cur ..< unat ext} \<subseteq> sm_set sm'" using sm'(1) off(4) eq(2) by auto
  moreover have "hi (seg_at sm a) \<le> unat (sm_start sm') + unat (sm_size sm')"
    using pre(1) a sm'(3) by (auto simp: sm_pre_def sm_bounds_def sm_geometry_def)
  ultimately show ?thesis using sm'(2) eq(1) 2(2,8,9) by (simp add: cdf_good_def)
qed

interpretation cdf: alloc_policy metaslab_cdf_alloc "\<lambda>_. 1" cdf_good
  by unfold_locales (use cdf_alloc_result cdf_alloc_keeps in blast)+

section \<open>The policy tables\<close>

text \<open>What a policy needs of the map, and the alignment it gives.\<close>

primrec ops_good :: "sm_ops_table \<Rightarrow> space_map \<Rightarrow> bool" where
  "ops_good metaslab_ff sm = True"
| "ops_good metaslab_df sm = (sm_size sm \<noteq> 0)"
| "ops_good metaslab_cdf sm = cdf_good sm"
| "ops_good metaslab_ndf sm = True"

primrec ops_align :: "sm_ops_table \<Rightarrow> u64 \<Rightarrow> u64" where
  "ops_align metaslab_ff size' = size' AND - size'"
| "ops_align metaslab_df size' = 1"
| "ops_align metaslab_cdf size' = 1"
| "ops_align metaslab_ndf size' = 1"

lemmas ops_defs = metaslab_ff_ops_def metaslab_df_ops_def metaslab_cdf_ops_def metaslab_ndf_ops_def

lemma metaslab_alloc_block:
  assumes "sm_inv sm" "sm_ready sm" "ops_good t sm" "size_ok sm size'" "kmem_fresh k" "sm_ops sm = Some t"
  shows "\<exists>sm' off. space_map_alloc k metaslab_ops sm size' = Inr (sm', off) \<and> sm_inv sm' \<and> sm_ready sm' \<and> ops_good t sm' \<and> sm_flags sm sm'
     \<and> (if off = -1 then sm_set sm' = sm_set sm \<and> (\<forall>a \<in> dom (sm_segs sm). \<not> fits sm size' (ops_align t size') a)
        else sm_range sm off size' \<and> range_set off size' \<subseteq> sm_set sm \<and> sm_set sm' = sm_set sm - range_set off size')"
proof (cases t)
  case metaslab_ff
  show ?thesis
    using ff.alloc_block[OF assms(1,2) _ assms(4,5), of t metaslab_ops] assms(6)
    unfolding metaslab_ff ops_align.simps ops_good.simps by (simp add: ops_defs split del: if_split)
next
  case metaslab_df
  show ?thesis
    using df.alloc_block[OF assms(1,2) _ assms(4,5), of t metaslab_ops] assms(3,6)
    unfolding metaslab_df ops_align.simps ops_good.simps by (simp add: ops_defs split del: if_split)
next
  case metaslab_cdf
  show ?thesis
    using cdf.alloc_block[OF assms(1,2) _ assms(4,5), of t metaslab_ops] assms(3,6)
    unfolding metaslab_cdf ops_align.simps ops_good.simps by (simp add: ops_defs split del: if_split)
next
  case metaslab_ndf
  show ?thesis
    using ndf.alloc_block[OF assms(1,2) _ assms(4,5), of t metaslab_ops] assms(6)
    unfolding metaslab_ndf ops_align.simps ops_good.simps by (simp add: ops_defs split del: if_split)
qed

lemma ops_load [simp]: "smop_load (metaslab_ops t) = metaslab_pp_load" "smop_unload (metaslab_ops t) = metaslab_pp_unload"
  "smop_claim (metaslab_ops t) = metaslab_pp_claim" "smop_free (metaslab_ops t) = metaslab_pp_free"
  "smop_max (metaslab_ops t) = metaslab_pp_maxsize"
  by (cases t; simp add: ops_defs)+

end
