(* ===== verification/Metaslab_Load.thy ===== *)
theory Metaslab_Load
  imports Metaslab_Fit Space_Map_Sync
begin

text \<open>
  A space map while a block picker uses it: \<open>space_map_load\<close> with a table of \<open>metaslab.c\<close> makes the map
  ready for allocations, \<open>space_map_unload\<close> empties it again, and an allocation that fails means
  that there is no free range of the size (and alignment) that was asked for.
\<close>

section \<open>Completeness of the policies\<close>

lemma P2ROUNDUP_least:
  assumes "k < 64" "unat x + 2 ^ k \<le> 2 ^ 64" "unat x \<le> n" "2 ^ k dvd n"
  shows "unat (P2ROUNDUP x (2 ^ k)) \<le> n"
proof (rule ccontr)
  note r = P2ROUNDUP_nat[OF assms(1,2)]
  assume "\<not> unat (P2ROUNDUP x (2 ^ k)) \<le> n"
  then have "0 < unat (P2ROUNDUP x (2 ^ k)) - n" "unat (P2ROUNDUP x (2 ^ k)) - n < 2 ^ k" using r(2) assms(3) by auto
  moreover have "2 ^ k dvd unat (P2ROUNDUP x (2 ^ k)) - n" using r(3) assms(4) by (rule dvd_diff_nat)
  ultimately show False using nat_dvd_not_less by blast
qed

lemma no_fit_no_range:
  assumes inv: "sm_inv sm" and z: "size_ok sm size'" and k: "k < 64" "2 ^ k \<le> unat size'"
    and no: "\<forall>a \<in> dom (sm_segs sm). \<not> fits sm size' (2 ^ k) a" and off: "2 ^ k dvd unat off"
  shows "\<not> range_set off size' \<subseteq> sm_set sm"
proof
  assume sub: "range_set off size' \<subseteq> sm_set sm"
  have room: "size_room sm size'" "0 < unat size'" using z by (auto simp: size_ok_def size_room_def unat_gt_0)
  obtain xs where pre: "sm_pre sm xs (set xs)" "dom (sm_segs sm) = set xs" using sm_inv_pre[OF inv] .
  obtain a where a: "a \<in> set xs" "lo (seg_at sm a) \<le> unat off" "unat off + unat size' \<le> hi (seg_at sm a)"
    using one_segment[OF pre(1) sub] room(2) by auto
  have "lo (seg_at sm a) + 2 ^ k \<le> 2 ^ 64"
    using a(2,3) k(2) unat_less_64[of "ss_end (seg_at sm a)"] by linarith
  then have "unat (pick sm (2 ^ k) a) \<le> unat off"
    using P2ROUNDUP_least[OF k(1) _ a(2) off] by blast
  then have "fits sm size' (2 ^ k) a" using pick_nat(4)[OF pre(1) a(1) k room(1)] a(3) by simp
  then show False using no a(1) pre(2) by blast
qed

text \<open>The alignment that a policy insists on: first fit aligns to the lowest bit of the size.\<close>

lemma ops_align_pow:
  assumes "size_ok sm size'"
  obtains k where "k < 64" "ops_align t size' = 2 ^ k" "2 ^ k \<le> unat size'"
proof (cases "t = metaslab_ff")
  case True
  obtain k where "k < 64" "size' AND - size' = 2 ^ k" "2 ^ k \<le> unat size'" using low_bit_align[OF assms] by metis
  then show ?thesis using that True by simp
next
  case False
  then have "ops_align t size' = 2 ^ 0" by (cases t) simp_all
  moreover have "2 ^ 0 \<le> unat size'" using assms by (simp add: size_ok_def size_room_def Suc_le_eq unat_gt_0)
  ultimately show ?thesis using that[of 0] by simp
qed

lemma metaslab_alloc_complete:
  assumes "sm_inv sm" "sm_ready sm" "ops_good t sm" "size_ok sm size'" "kmem_fresh k" "sm_ops sm = Some t"
  shows "\<exists>sm' off. space_map_alloc k metaslab_ops sm size' = Inr (sm', off) \<and> sm_inv sm' \<and> sm_ready sm' \<and> ops_good t sm' \<and> sm_flags sm sm'
     \<and> (if off = -1 then sm_set sm' = sm_set sm
          \<and> (\<forall>off. unat (ops_align t size') dvd unat off \<longrightarrow> \<not> range_set off size' \<subseteq> sm_set sm)
        else sm_range sm off size' \<and> range_set off size' \<subseteq> sm_set sm \<and> sm_set sm' = sm_set sm - range_set off size')"
proof -
  obtain sm' off where r: "space_map_alloc k metaslab_ops sm size' = Inr (sm', off)" "sm_inv sm'" "sm_ready sm'" "ops_good t sm'" "sm_flags sm sm'"
    "if off = -1 then sm_set sm' = sm_set sm \<and> (\<forall>a \<in> dom (sm_segs sm). \<not> fits sm size' (ops_align t size') a)
     else sm_range sm off size' \<and> range_set off size' \<subseteq> sm_set sm \<and> sm_set sm' = sm_set sm - range_set off size'"
    using metaslab_alloc_block[OF assms] by blast
  obtain k where k: "k < 64" "ops_align t size' = 2 ^ k" "2 ^ k \<le> unat size'" using ops_align_pow[OF assms(4)] .
  have "\<forall>off. unat (ops_align t size') dvd unat off \<longrightarrow> \<not> range_set off size' \<subseteq> sm_set sm" if "off = -1"
    using no_fit_no_range[OF assms(1,4) k(1,3)] r(6) that unfolding k(2) unat_pow2_64[OF k(1)] by simp
  then show ?thesis using r by (intro exI[of _ sm'] exI[of _ off]) (simp split: if_splits)
qed

section \<open>Loading and unloading\<close>

lemma ready_good:
  assumes "sm_inv sm" "sm_ppd sm = Some (replicate 64 0)" "sm_size sm \<noteq> 0"
  shows "ops_good t sm"
  using assms by (cases t) (auto simp: cdf_good_def)

lemma sm_ready_flags [simp]:
  "sm_ready (sm\<lparr>sm_loading := b\<rparr>) = sm_ready sm" "sm_inv (sm\<lparr>sm_loading := b\<rparr>) = sm_inv sm"
  "sm_set (sm\<lparr>sm_loading := b\<rparr>) = sm_set sm" "cdf_good (sm\<lparr>sm_loading := b\<rparr>) = cdf_good sm"
  "sm_inv (sm\<lparr>sm_loaded := c, sm_ops := ops\<rparr>) = sm_inv sm" "sm_set (sm\<lparr>sm_loaded := c, sm_ops := ops\<rparr>) = sm_set sm"
  by (simp_all add: sm_ready_def sm_inv_def sm_rep_def sm_pre_def sm_fits_def sm_set_def seg_at_def sm_bounds_def
      cdf_good_def fun_eq_iff split: option.split)

lemma ops_good_flags [simp]: "ops_good t (sm\<lparr>sm_loading := b\<rparr>) = ops_good t sm"
  by (cases t) simp_all

text \<open>A map that is not in use: empty, not loaded, without a picker.\<close>

definition sm_idle :: "space_map \<Rightarrow> bool" where
  "sm_idle sm \<longleftrightarrow> sm_inv sm \<and> sm_set sm = {} \<and> \<not> sm_loaded sm \<and> \<not> sm_loading sm \<and> sm_ops sm = None
     \<and> sm_pp_root sm = None \<and> sm_ppd sm = None"

text \<open>A map that holds free space and can be allocated from with the table \<open>t\<close>.\<close>

definition sm_active :: "sm_ops_table \<Rightarrow> space_map \<Rightarrow> bool" where
  "sm_active t sm \<longleftrightarrow> sm_inv sm \<and> sm_loaded sm \<and> \<not> sm_loading sm \<and> sm_ops sm = Some t \<and> sm_ready sm \<and> ops_good t sm"

lemma space_map_load_active:
  assumes idle: "sm_idle sm" and fresh: "kmem_fresh k" and dm: "dmu_reads dm contents"
    and smo: "smo_ok contents sm SM_FREE smo os" and range: "sm_range sm (sm_start sm) (sm_size sm)"
  shows "\<exists>sm'. space_map_load k metaslab_ops dm sm (Some t) SM_FREE smo os = Inr (sm', 0)
     \<and> sm_active t sm' \<and> sm_set sm' = logged contents sm SM_FREE smo os \<and> sm_geometry sm sm'
     \<and> sm_ppd sm' = Some (replicate 64 0)"
proof -
  have i: "sm_inv sm" "sm_set sm = {}" "\<not> sm_loaded sm" "\<not> sm_loading sm" "sm_ops sm = None" "sm_pp_root sm = None"
    "sm_ppd sm = None" using idle by (auto simp: sm_idle_def)
  obtain s1 where s1: "sm_inv s1" "sm_set s1 = logged contents sm SM_FREE smo os" "sm_same (sm\<lparr>sm_loading := True\<rparr>) s1"
    "space_map_load k metaslab_ops dm sm (Some t) SM_FREE smo os
       = rbind (metaslab_pp_load (s1\<lparr>sm_loaded := True, sm_ops := Some t\<rparr>)) (\<lambda>sm. Inr (sm\<lparr>sm_loading := False\<rparr>, 0))"
    using space_map_load_inv[OF i(1-5) fresh dm smo range, of metaslab_ops "Some t"] unfolding option.case ops_load by (elim exE conjE) (rule that)
  let ?s2 = "s1\<lparr>sm_loaded := True, sm_ops := Some t\<rparr>"
  have ppd: "sm_ppd s1 = None" using s1(3) i(7) by (simp add: sm_same_def)
  obtain pp where pp: "metaslab_pp_load ?s2 = Inr (?s2\<lparr>sm_ppd := Some (replicate 64 0), sm_pp_root := pp\<rparr>)"
    "sm_inv (?s2\<lparr>sm_ppd := Some (replicate 64 0), sm_pp_root := pp\<rparr>)"
    "sm_ready (?s2\<lparr>sm_ppd := Some (replicate 64 0), sm_pp_root := pp\<rparr>)"
    using metaslab_pp_load_inv[of ?s2] s1(1) ppd by auto
  let ?s3 = "?s2\<lparr>sm_ppd := Some (replicate 64 0), sm_pp_root := pp\<rparr>"
  have size: "sm_size ?s3 \<noteq> 0" using range s1(3) by (simp add: sm_range_def sm_same_def)
  have "ops_good t ?s3" by (rule ready_good[OF pp(2) _ size]) simp
  moreover have "sm_set ?s3 = sm_set s1" by (simp add: sm_set_def seg_at_def)
  ultimately have "sm_active t (?s3\<lparr>sm_loading := False\<rparr>)" "sm_set (?s3\<lparr>sm_loading := False\<rparr>) = sm_set s1"
    "sm_geometry sm (?s3\<lparr>sm_loading := False\<rparr>)"
    using pp(2,3) s1(3) unfolding sm_active_def sm_ready_flags ops_good_flags by (simp_all add: sm_geometry_def sm_same_def)
  then show ?thesis using s1(2,4) pp(1) by (intro exI[of _ "?s3\<lparr>sm_loading := False\<rparr>"]) simp
qed

lemma space_map_unload_idle:
  assumes "sm_active t sm"
  shows "\<exists>sm'. space_map_unload metaslab_ops sm = Inr sm' \<and> sm_idle sm' \<and> sm_geometry sm sm'"
proof -
  have i: "sm_inv sm" "sm_loaded sm" "\<not> sm_loading sm" "sm_ops sm = Some t" "sm_ready sm" "sm_lock_held sm"
    using assms by (auto simp: sm_active_def sm_inv_def)
  obtain tr where tr: "sm_pp_root sm = Some (metaslab_segsize_compare, tr)" using ready_pp[OF i(5)] .
  note u = metaslab_pp_unload_inv[OF i(1) tr]
  let ?s1 = "sm\<lparr>sm_ppd := None, sm_pp_root := None, sm_loaded := False, sm_ops := None\<rparr>"
  have "sm_inv ?s1"
    using u(2) sm_ready_flags(5)[where sm = "sm\<lparr>sm_ppd := None, sm_pp_root := None\<rparr>" and c = False and ops = None] by simp
  moreover have "sm_pp_root ?s1 = None" by simp
  ultimately obtain s2 where s2: "sm_inv s2" "sm_set s2 = {}" "sm_same ?s1 s2" "space_map_vacate ?s1 None () = Inr (s2, ())"
    using space_map_vacate_all[of ?s1 "()"] by blast
  have "space_map_unload metaslab_ops sm = Inr s2"
    using i u(1) s2(4) by (simp add: space_map_unload_def)
  moreover have "sm_idle s2" "sm_geometry sm s2"
    using s2(1-3) i(3) by (auto simp: sm_idle_def sm_same_def sm_geometry_def)
  ultimately show ?thesis by blast
qed

text \<open>Taking blocks out of an active map and giving them back.\<close>

lemma sm_active_alloc:
  assumes "sm_active t sm" "size_ok sm size'" "kmem_fresh k"
  obtains sm' where "space_map_alloc k metaslab_ops sm size' = Inr (sm', -1)" "sm_active t sm'" "sm_geometry sm sm'"
      "sm_set sm' = sm_set sm" "\<forall>off. unat (ops_align t size') dvd unat off \<longrightarrow> \<not> range_set off size' \<subseteq> sm_set sm"
  | sm' off where "space_map_alloc k metaslab_ops sm size' = Inr (sm', off)" "off \<noteq> -1" "sm_active t sm'" "sm_geometry sm sm'"
      "sm_range sm off size'" "range_set off size' \<subseteq> sm_set sm" "sm_set sm' = sm_set sm - range_set off size'"
proof -
  have i: "sm_inv sm" "sm_ready sm" "ops_good t sm" "sm_ops sm = Some t" "sm_loaded sm" "\<not> sm_loading sm"
    using assms(1) by (auto simp: sm_active_def)
  obtain sm' off where r: "space_map_alloc k metaslab_ops sm size' = Inr (sm', off)" "sm_inv sm'" "sm_ready sm'" "ops_good t sm'"
    "sm_flags sm sm'"
    "if off = -1 then sm_set sm' = sm_set sm
          \<and> (\<forall>off. unat (ops_align t size') dvd unat off \<longrightarrow> \<not> range_set off size' \<subseteq> sm_set sm)
     else sm_range sm off size' \<and> range_set off size' \<subseteq> sm_set sm \<and> sm_set sm' = sm_set sm - range_set off size'"
    using metaslab_alloc_complete[OF i(1-3) assms(2,3) i(4)] by blast
  then have "sm_active t sm'" "sm_geometry sm sm'" using i by (auto simp: sm_active_def sm_flags_def)
  then show thesis using that r by (cases "off = -1") auto
qed

lemma sm_active_add:
  assumes "sm_active t sm" "kmem_fresh k" "sm_range sm start size'" "sm_set sm \<inter> range_set start size' = {}"
  shows "\<exists>sm'. space_map_free k metaslab_ops sm start size' = Inr sm' \<and> sm_active t sm'
     \<and> sm_set sm' = sm_set sm \<union> range_set start size' \<and> sm_geometry sm sm'"
proof -
  have i: "sm_inv sm" "sm_ready sm" "ops_good t sm" "sm_ops sm = Some t" "sm_loaded sm" "\<not> sm_loading sm"
    using assms(1) by (auto simp: sm_active_def)
  obtain sm' where a: "space_map_add k sm start size' = Inr sm'" "sm_inv sm'" "sm_set sm' = sm_set sm \<union> range_set start size'"
    "sm_same sm sm'" using space_map_add_inv[OF i(1) assms(2-4)] by blast
  have "ops_good t sm'" using i(3) a(3,4) by (cases t) (auto simp: cdf_good_def sm_same_def split: option.splits)
  then show ?thesis
    using a i by (intro exI[of _ sm']) (auto simp: space_map_free_def metaslab_pp_free_def sm_active_def sm_same_def sm_ready_def sm_geometry_def)
qed

lemma sm_active_claim:
  assumes "sm_active t sm" "kmem_fresh k" "sm_range sm start size'" "range_set start size' \<subseteq> sm_set sm"
    and "t = metaslab_cdf \<Longrightarrow> sm_ppd sm = Some (replicate 64 0)"
  shows "\<exists>sm'. space_map_claim k metaslab_ops sm start size' = Inr sm' \<and> sm_active t sm'
     \<and> sm_set sm' = sm_set sm - range_set start size' \<and> sm_geometry sm sm' \<and> sm_ppd sm' = sm_ppd sm"
proof -
  have i: "sm_inv sm" "sm_ready sm" "ops_good t sm" "sm_ops sm = Some t" "sm_loaded sm" "\<not> sm_loading sm"
    using assms(1) by (auto simp: sm_active_def)
  obtain sm' where a: "space_map_remove k sm start size' = Inr sm'" "sm_inv sm'" "sm_set sm' = sm_set sm - range_set start size'"
    "sm_same sm sm'" using space_map_remove_inv[OF i(1) assms(2-4)] by blast
  have "ops_good t sm'"
    using i(3) a(4) assms(5) by (cases t) (auto simp: cdf_good_def sm_same_def split: option.splits)
  then show ?thesis
    using a i by (intro exI[of _ sm']) (auto simp: space_map_claim_def metaslab_pp_claim_def sm_active_def sm_same_def sm_ready_def sm_geometry_def)
qed

lemma sm_active_geometry_cong: "sm_geometry sm sm' \<Longrightarrow> sm_range sm s z = sm_range sm' s z" "sm_geometry sm sm' \<Longrightarrow> size_ok sm z = size_ok sm' z"
  by (simp_all add: sm_geometry_def sm_range_def size_ok_def size_room_def)

lemma sm_active_maxsize:
  assumes "sm_active t sm"
  obtains m where "space_map_maxsize metaslab_ops sm = Inr m" "m = 0 \<longleftrightarrow> sm_set sm = {}"
    "\<forall>off z. z \<noteq> 0 \<and> range_set off z \<subseteq> sm_set sm \<longrightarrow> z \<le> m" "2 ^ unat (sm_shift sm) dvd unat m"
    "m \<noteq> 0 \<longrightarrow> (\<exists>off. sm_range sm off m \<and> range_set off m \<subseteq> sm_set sm)"
proof -
  have i: "sm_inv sm" "sm_ready sm" "sm_ops sm = Some t" using assms by (auto simp: sm_active_def)
  obtain xs where pre: "sm_pre sm xs (set xs)" "dom (sm_segs sm) = set xs" using sm_inv_pre[OF i(1)] .
  obtain tr where tr: "sm_pp_root sm = Some (metaslab_segsize_compare, tr)" using ready_pp[OF i(2)] .
  obtain m where m: "metaslab_pp_maxsize sm = Inr m" "\<forall>a \<in> set xs. hi (seg_at sm a) - lo (seg_at sm a) \<le> unat m"
    "xs = [] \<longrightarrow> m = 0" "xs \<noteq> [] \<longrightarrow> (\<exists>a \<in> set xs. hi (seg_at sm a) - lo (seg_at sm a) = unat m)"
    using pp_maxsize[OF pre(1) tr] .
  have set: "sm_set sm = segs_set (seg_at sm) (set xs)" by (rule sm_set_rep[OF pre(1)])
  have seg: "lo (seg_at sm a) < hi (seg_at sm a)" "seg_set (seg_at sm a) \<subseteq> sm_set sm"
    "sm_bounds sm (seg_at sm a)" if "a \<in> set xs" for a
    using that pre(1) seg_listD set by (auto simp: sm_pre_def segs_set_def)
  have "z \<le> m" if z: "z \<noteq> 0" and sub: "range_set off z \<subseteq> sm_set sm" for off z
  proof -
    have "unat off < unat off + unat z" using z by (simp add: unat_gt_0)
    then obtain a where "a \<in> set xs" "lo (seg_at sm a) \<le> unat off" "unat off + unat z \<le> hi (seg_at sm a)"
      using one_segment[OF pre(1) sub] by blast
    then show ?thesis using m(2) by (force simp: word_le_nat_alt)
  qed
  moreover have "m = 0 \<longleftrightarrow> sm_set sm = {}"
  proof (cases "xs = []")
    case True
    then show ?thesis using m(3) set by (simp add: segs_set_def)
  next
    case False
    then obtain a where a: "a \<in> set xs" "hi (seg_at sm a) - lo (seg_at sm a) = unat m" using m(4) by blast
    then have "m \<noteq> 0" "sm_set sm \<noteq> {}" using seg(1,2)[OF a(1)] by auto
    then show ?thesis by simp
  qed
  moreover have "\<exists>off. sm_range sm off m \<and> range_set off m \<subseteq> sm_set sm" if nz: "m \<noteq> 0"
  proof -
    have "xs \<noteq> []" using nz m(3) by blast
    then obtain a where a: "a \<in> set xs" "hi (seg_at sm a) - lo (seg_at sm a) = unat m" using m(4) by blast
    have "2 ^ unat (sm_shift sm) dvd hi (seg_at sm a) - lo (seg_at sm a)"
      using seg(3)[OF a(1)] by (intro dvd_diff_nat) (simp_all add: sm_bounds_def)
    then have "sm_range sm (ss_start (seg_at sm a)) m"
      using seg[OF a(1)] nz a(2) by (auto simp: sm_range_def sm_bounds_def)
    moreover have "range_set (ss_start (seg_at sm a)) m = seg_set (seg_at sm a)" using seg(1)[OF a(1)] a(2) by auto
    then have "range_set (ss_start (seg_at sm a)) m \<subseteq> sm_set sm" using seg(2)[OF a(1)] by simp
    ultimately show ?thesis by blast
  qed
  moreover from this have "2 ^ unat (sm_shift sm) dvd unat m" by (cases "m = 0") (auto simp: sm_range_def)
  ultimately show thesis using m(1) i(3) by (intro that[of m]) (auto simp: space_map_maxsize_def)
qed

end
