(* ===== verification/Metaslab_Properties.thy ===== *)
theory Metaslab_Properties
  imports Metaslab_Load Space_Map_Properties
begin

text \<open>
  What the block pickers of \<open>metaslab.c\<close> guarantee, for each of the four tables: first fit, dynamic fit
  (the default), cursor-dynamic fit and new dynamic fit. \<open>size_ok\<close> says that a size is a multiple of the
  unit of the map and at most \<open>metaslab_min_alloc_size\<close>.
\<close>

lemma empty_map_idle: "sm_idle empty_map"
  using empty_map_inv empty_map_fields by (simp add: sm_idle_def empty_map_def space_map_create_def)

lemma empty_map_size: "size_ok empty_map 1024"
  by (simp add: size_ok_def size_room_def empty_map_def space_map_create_def min_alloc_nat)

text \<open>
  C18: loading a metaslab's map from its log with a block picker and allocating from it. Both calls return.
  The block lies in the free space that the log stands for, is aligned, and is taken out of the map, which
  stays usable; the answer \<open>-1\<close> comes back only if the free space contains no block of that size
  (for first fit: none at a multiple of the largest power of two that divides the size).
\<close>

theorem metaslab_load_alloc:
  assumes "sm_idle sm" "kmem_fresh k" "dmu_appends dm contents" "smo_ok contents sm SM_FREE smo os"
    and "sm_range sm (sm_start sm) (sm_size sm)" "size_ok sm size'"
  shows "\<exists>sm1 sm2 off. space_map_load k metaslab_ops dm sm (Some t) SM_FREE smo os = Inr (sm1, 0)
     \<and> space_map_alloc k metaslab_ops sm1 size' = Inr (sm2, off) \<and> sm_active t sm2
     \<and> (if off = -1 then sm_set sm2 = logged contents sm SM_FREE smo os
          \<and> (\<forall>off. unat (ops_align t size') dvd unat off \<longrightarrow> \<not> range_set off size' \<subseteq> logged contents sm SM_FREE smo os)
        else sm_range sm off size' \<and> range_set off size' \<subseteq> logged contents sm SM_FREE smo os
          \<and> sm_set sm2 = logged contents sm SM_FREE smo os - range_set off size')"
proof -
  obtain sm1 where l: "space_map_load k metaslab_ops dm sm (Some t) SM_FREE smo os = Inr (sm1, 0)" "sm_active t sm1"
    "sm_set sm1 = logged contents sm SM_FREE smo os" "sm_geometry sm sm1"
    using space_map_load_active[OF assms(1,2) dmu_appends_reads[OF assms(3)] assms(4,5)] by blast
  have "size_ok sm1 size'" using assms(6) sm_active_geometry_cong(2)[OF l(4)] by simp
  then show ?thesis
  proof (rule sm_active_alloc[OF l(2) _ assms(2)])
    fix sm2
    assume "space_map_alloc k metaslab_ops sm1 size' = Inr (sm2, -1)" "sm_active t sm2" "sm_set sm2 = sm_set sm1"
      "\<forall>off. unat (ops_align t size') dvd unat off \<longrightarrow> \<not> range_set off size' \<subseteq> sm_set sm1"
    then show ?thesis using l(1,3) by (intro exI[of _ sm1] exI[of _ sm2] exI[of _ "-1"]) simp
  next
    fix sm2 off
    assume "space_map_alloc k metaslab_ops sm1 size' = Inr (sm2, off)" "off \<noteq> -1" "sm_active t sm2"
      "sm_range sm1 off size'" "range_set off size' \<subseteq> sm_set sm1" "sm_set sm2 = sm_set sm1 - range_set off size'"
    then show ?thesis
      using l(1,3) sm_active_geometry_cong(1)[OF l(4)] by (intro exI[of _ sm1] exI[of _ sm2] exI[of _ off]) simp
  qed
qed

theorem metaslab_load_alloc_witness:
  "\<forall>t. \<exists>sm1 sm2 off. space_map_load example_kernel metaslab_ops word_store empty_map (Some t) SM_FREE empty_log (\<lambda>_. []) = Inr (sm1, 0)
     \<and> space_map_alloc example_kernel metaslab_ops sm1 1024 = Inr (sm2, off) \<and> off \<noteq> -1
     \<and> sm_set sm2 = {0 ..< 65536} - {unat off ..< unat off + 1024}"
proof
  fix t
  obtain sm1 sm2 off where r: "space_map_load example_kernel metaslab_ops word_store empty_map (Some t) SM_FREE empty_log (\<lambda>_. []) = Inr (sm1, 0)"
    "space_map_alloc example_kernel metaslab_ops sm1 1024 = Inr (sm2, off)"
    "if off = -1 then sm_set sm2 = {0 ..< 65536}
          \<and> (\<forall>off. unat (ops_align t 1024) dvd unat off \<longrightarrow> \<not> range_set off 1024 \<subseteq> {0 ..< 65536})
     else sm_range empty_map off 1024 \<and> range_set off 1024 \<subseteq> {0 ..< 65536}
          \<and> sm_set sm2 = {0 ..< 65536} - range_set off 1024"
    using metaslab_load_alloc[OF empty_map_idle example_kernel_fresh word_store_appends empty_log_ok(1) empty_map_fields(4)
        empty_map_size, of t] unfolding empty_log_ok(2) by blast
  have "range_set 0 1024 \<subseteq> {0 ..< 65536}" "unat (ops_align t 1024) dvd unat (0 :: u64)" by simp_all
  then have "off \<noteq> -1" using r(3) by (metis (full_types))
  then show "\<exists>sm1 sm2 off. space_map_load example_kernel metaslab_ops word_store empty_map (Some t) SM_FREE empty_log (\<lambda>_. []) = Inr (sm1, 0)
     \<and> space_map_alloc example_kernel metaslab_ops sm1 1024 = Inr (sm2, off) \<and> off \<noteq> -1
     \<and> sm_set sm2 = {0 ..< 65536} - {unat off ..< unat off + 1024}"
    using r by (intro exI[of _ sm1] exI[of _ sm2] exI[of _ off]) simp
qed

end
