(* ===== verification/Txg_List.thy ===== *)
theory Txg_List
  imports Avl_Interface
begin

text \<open>
  Per-txg object lists (\<open>uts/common/fs/zfs/txg.c\<close>, \<open>sys/txg.h\<close>): an object can be on one intrusive list per
  open transaction group, at most once on each. A list owns the nodes \<open>txg_node_t\<close> of all objects
  (\<open>tl_mem\<close>); the slot of a transaction group is \<open>txg & TXG_MASK\<close>.
\<close>

section \<open>Data and operations\<close>

definition TXG_CONCURRENT_STATES :: nat where
  "TXG_CONCURRENT_STATES = 3"

definition TXG_SIZE :: nat where
  "TXG_SIZE = 4"

definition TXG_MASK :: u64 where
  "TXG_MASK = of_nat (TXG_SIZE - 1)"

definition TXG_INITIAL :: u64 where
  "TXG_INITIAL = of_nat TXG_SIZE"

definition TXG_DEFER_SIZE :: nat where
  "TXG_DEFER_SIZE = 2"

definition TXG_CLEAN :: "u64 \<Rightarrow> u64" where
  "TXG_CLEAN txg = txg - 1"

definition TXG_IDX :: "u64 \<Rightarrow> nat" where
  "TXG_IDX txg = unat (txg AND TXG_MASK)"

record txg_node =
  tn_next :: "nat \<Rightarrow> addr option"
  tn_member :: "nat \<Rightarrow> bool"

record txg_list =
  tl_head :: "nat \<Rightarrow> addr option"
  tl_mem :: "addr \<Rightarrow> txg_node"

definition txg_list_create :: "(addr \<Rightarrow> txg_node) \<Rightarrow> txg_list" where
  "txg_list_create m = \<lparr>tl_head = (\<lambda>_. None), tl_mem = m\<rparr>"

definition txg_list_empty :: "txg_list \<Rightarrow> u64 \<Rightarrow> bool" where
  "txg_list_empty l txg = (tl_head l (TXG_IDX txg) = None)"

definition txg_list_destroy :: "txg_list \<Rightarrow> unit res" where
  "txg_list_destroy l = ASSERT (\<forall>t \<in> set [0 ..< TXG_SIZE]. txg_list_empty l (of_nat t)) (Inr ())"

definition set_next :: "addr \<Rightarrow> nat \<Rightarrow> addr option \<Rightarrow> txg_list \<Rightarrow> txg_list" where
  "set_next p t q l = l\<lparr>tl_mem := (tl_mem l)(p := (tl_mem l p)\<lparr>tn_next := (tn_next (tl_mem l p))(t := q)\<rparr>)\<rparr>"

definition set_member :: "addr \<Rightarrow> nat \<Rightarrow> bool \<Rightarrow> txg_list \<Rightarrow> txg_list" where
  "set_member p t b l = l\<lparr>tl_mem := (tl_mem l)(p := (tl_mem l p)\<lparr>tn_member := (tn_member (tl_mem l p))(t := b)\<rparr>)\<rparr>"

definition set_head :: "nat \<Rightarrow> addr option \<Rightarrow> txg_list \<Rightarrow> txg_list" where
  "set_head t q l = l\<lparr>tl_head := (tl_head l)(t := q)\<rparr>"

definition txg_list_add :: "txg_list \<Rightarrow> addr \<Rightarrow> u64 \<Rightarrow> txg_list \<times> bool" where
  "txg_list_add l p txg =
     (let t = TXG_IDX txg;
          already_on_list = tn_member (tl_mem l p) t
      in if \<not> already_on_list then
           (set_head t (Some p) (set_next p t (tl_head l t) (set_member p t True l)), already_on_list)
         else (l, already_on_list))"

definition txg_list_remove :: "txg_list \<Rightarrow> u64 \<Rightarrow> txg_list \<times> addr option" where
  "txg_list_remove l txg =
     (let t = TXG_IDX txg
      in case tl_head l t of
           None \<Rightarrow> (l, None)
         | Some p \<Rightarrow>
             (set_member p t False (set_next p t None (set_head t (tn_next (tl_mem l p) t) l)), Some p))"

text \<open>\<open>tp\<close> is the address of the pointer that is looked at: of the head, or of \<open>tn_next\<close> of a node.\<close>

definition tp_get :: "txg_list \<Rightarrow> nat \<Rightarrow> addr option \<Rightarrow> addr option" where
  "tp_get l t tp = (case tp of None \<Rightarrow> tl_head l t | Some q \<Rightarrow> tn_next (tl_mem l q) t)"

definition tp_set :: "nat \<Rightarrow> addr option \<Rightarrow> addr option \<Rightarrow> txg_list \<Rightarrow> txg_list" where
  "tp_set t tp v l = (case tp of None \<Rightarrow> set_head t v l | Some q \<Rightarrow> set_next q t v l)"

partial_function (option) remove_this_loop ::
  "txg_list \<Rightarrow> addr \<Rightarrow> nat \<Rightarrow> addr option \<Rightarrow> (txg_list \<times> addr option) option" where
  "remove_this_loop l p t tp =
     (case tp_get l t tp of
        None \<Rightarrow> Some (l, None)
      | Some tn \<Rightarrow>
          if tn = p then
            Some (set_member tn t False (set_next tn t None (tp_set t tp (tn_next (tl_mem l tn) t) l)), Some p)
          else remove_this_loop l p t (Some tn))"

definition txg_list_remove_this :: "txg_list \<Rightarrow> addr \<Rightarrow> u64 \<Rightarrow> (txg_list \<times> addr option) res" where
  "txg_list_remove_this l p txg = of_loop (remove_this_loop l p (TXG_IDX txg) None)"

definition txg_list_member :: "txg_list \<Rightarrow> addr \<Rightarrow> u64 \<Rightarrow> bool" where
  "txg_list_member l p txg = tn_member (tl_mem l p) (TXG_IDX txg)"

definition txg_list_head :: "txg_list \<Rightarrow> u64 \<Rightarrow> addr option" where
  "txg_list_head l txg = tl_head l (TXG_IDX txg)"

definition txg_list_next :: "txg_list \<Rightarrow> addr \<Rightarrow> u64 \<Rightarrow> addr option" where
  "txg_list_next l p txg = tn_next (tl_mem l p) (TXG_IDX txg)"

lemmas remove_this_loop_code [code] = remove_this_loop.simps

section \<open>Lists in memory\<close>

fun chain :: "(addr \<Rightarrow> txg_node) \<Rightarrow> nat \<Rightarrow> addr option \<Rightarrow> addr list \<Rightarrow> bool" where
  "chain m t p [] \<longleftrightarrow> p = None"
| "chain m t p (x # xs) \<longleftrightarrow> p = Some x \<and> chain m t (tn_next (m x) t) xs"

text \<open>Slot \<open>t\<close> holds the objects \<open>L t\<close>, each once, and the membership flags say which.\<close>

definition tl_inv :: "txg_list \<Rightarrow> (nat \<Rightarrow> addr list) \<Rightarrow> bool" where
  "tl_inv l L \<longleftrightarrow> (\<forall>t < TXG_SIZE. chain (tl_mem l) t (tl_head l t) (L t) \<and> distinct (L t)
     \<and> (\<forall>p. tn_member (tl_mem l p) t \<longleftrightarrow> p \<in> set (L t)))"

lemma txg_idx_less [simp]: "TXG_IDX txg < TXG_SIZE"
proof -
  have "txg AND 3 \<le> (3 :: u64)" by (rule word_and_le1)
  then show ?thesis by (simp add: TXG_IDX_def TXG_MASK_def TXG_SIZE_def word_le_nat_alt)
qed

lemma chain_cong: "(\<And>x. x \<in> set xs \<Longrightarrow> tn_next (m' x) t = tn_next (m x) t) \<Longrightarrow> chain m' t p xs = chain m t p xs"
  by (induction xs arbitrary: p) auto

lemma mem_simps [simp]:
  "tl_head (set_next p t q l) = tl_head l" "tl_head (set_member p t b l) = tl_head l"
  "tl_mem (set_head t q l) = tl_mem l" "tl_head (set_head t q l) = (tl_head l)(t := q)"
  "tn_next (tl_mem (set_member p t b l) x) = tn_next (tl_mem l x)"
  "tn_member (tl_mem (set_next p t q l) x) = tn_member (tl_mem l x)"
  "tn_next (tl_mem (set_next p t q l) x) = (if x = p then (tn_next (tl_mem l p))(t := q) else tn_next (tl_mem l x))"
  "tn_member (tl_mem (set_member p t b l) x) = (if x = p then (tn_member (tl_mem l p))(t := b) else tn_member (tl_mem l x))"
  by (simp_all add: set_next_def set_member_def set_head_def)

lemma tl_invD:
  assumes "tl_inv l L"
  shows "chain (tl_mem l) (TXG_IDX txg) (tl_head l (TXG_IDX txg)) (L (TXG_IDX txg))" "distinct (L (TXG_IDX txg))"
    "tn_member (tl_mem l p) (TXG_IDX txg) \<longleftrightarrow> p \<in> set (L (TXG_IDX txg))"
  using assms unfolding tl_inv_def by auto

text \<open>Changing slot \<open>t\<close> only.\<close>

lemma tl_inv_slot:
  assumes inv: "tl_inv l L" and new: "chain (tl_mem l') t (tl_head l' t) xs" "distinct xs"
      "\<forall>p. tn_member (tl_mem l' p) t \<longleftrightarrow> p \<in> set xs"
    and other: "\<And>u. u \<noteq> t \<Longrightarrow> tl_head l' u = tl_head l u"
      "\<And>u p. u \<noteq> t \<Longrightarrow> tn_next (tl_mem l' p) u = tn_next (tl_mem l p) u"
      "\<And>u p. u \<noteq> t \<Longrightarrow> tn_member (tl_mem l' p) u = tn_member (tl_mem l p) u"
  shows "tl_inv l' (L(t := xs))"
  unfolding tl_inv_def
proof (intro allI impI)
  fix u assume u: "u < TXG_SIZE"
  show "chain (tl_mem l') u (tl_head l' u) ((L(t := xs)) u) \<and> distinct ((L(t := xs)) u)
     \<and> (\<forall>p. tn_member (tl_mem l' p) u \<longleftrightarrow> p \<in> set ((L(t := xs)) u))"
  proof (cases "u = t")
    case False
    then have "chain (tl_mem l') u (tl_head l u) (L u) = chain (tl_mem l) u (tl_head l u) (L u)"
      using other(2) by (intro chain_cong) simp
    then show ?thesis using inv u False other(1,3) by (simp add: tl_inv_def)
  qed (use new in simp)
qed

lemma tl_create_inv:
  assumes "\<forall>p t. \<not> tn_member (m p) t"
  shows "tl_inv (txg_list_create m) (\<lambda>_. [])"
  using assms by (simp add: tl_inv_def txg_list_create_def)

lemma txg_list_add_inv:
  assumes inv: "tl_inv l L"
    and t_def: "t = TXG_IDX txg"
  shows "snd (txg_list_add l p txg) = (p \<in> set (L t))"
    and "tl_inv (fst (txg_list_add l p txg)) (L(t := (if p \<in> set (L t) then L t else p # L t)))"
proof -
  note s = tl_invD[OF inv, where txg = txg, folded t_def]
  show "snd (txg_list_add l p txg) = (p \<in> set (L t))"
    using s(3) by (auto simp: txg_list_add_def t_def Let_def)
  show "tl_inv (fst (txg_list_add l p txg)) (L(t := (if p \<in> set (L t) then L t else p # L t)))"
  proof (cases "p \<in> set (L t)")
    case True
    then show ?thesis using s(3) inv by (simp add: txg_list_add_def t_def[symmetric] Let_def)
  next
    case False
    let ?l = "set_head t (Some p) (set_next p t (tl_head l t) (set_member p t True l))"
    have "chain (tl_mem ?l) t (tl_head l t) (L t)"
      using s(1) False by (subst chain_cong[where m = "tl_mem l"]) auto
    then have "tl_inv ?l (L(t := p # L t))"
      using s(2,3) False by (intro tl_inv_slot[OF inv]) auto
    then show ?thesis using False s(3) by (simp add: txg_list_add_def t_def[symmetric] Let_def)
  qed
qed

lemma txg_list_remove_inv:
  assumes inv: "tl_inv l L"
    and t_def: "t = TXG_IDX txg"
  shows "snd (txg_list_remove l txg) = (case L t of [] \<Rightarrow> None | p # _ \<Rightarrow> Some p)"
    and "tl_inv (fst (txg_list_remove l txg)) (L(t := tl (L t)))"
proof -
  note s = tl_invD[OF inv, where txg = txg, folded t_def]
  show "snd (txg_list_remove l txg) = (case L t of [] \<Rightarrow> None | p # _ \<Rightarrow> Some p)"
    using s(1) by (cases "L t") (auto simp: txg_list_remove_def t_def[symmetric] Let_def)
  show "tl_inv (fst (txg_list_remove l txg)) (L(t := tl (L t)))"
  proof (cases "L t")
    case Nil
    have "L(t := []) = L" using Nil by auto
    then show ?thesis using Nil s(1) inv by (simp add: txg_list_remove_def t_def[symmetric] Let_def)
  next
    case (Cons p ps)
    let ?l = "set_member p t False (set_next p t None (set_head t (tn_next (tl_mem l p) t) l))"
    have "chain (tl_mem ?l) t (tn_next (tl_mem l p) t) ps"
      using s(1,2) Cons by (subst chain_cong[where m = "tl_mem l"]) auto
    then have "tl_inv ?l (L(t := ps))"
      using s(2,3) Cons by (intro tl_inv_slot[OF inv]) auto
    then show ?thesis using Cons s(1) by (simp add: txg_list_remove_def t_def[symmetric] Let_def)
  qed
qed

lemma chain_after:
  "chain m t h (us @ vs) \<Longrightarrow> (if us = [] then h else tn_next (m (last us)) t) = (case vs of [] \<Rightarrow> None | v # _ \<Rightarrow> Some v)"
  by (induction us arbitrary: h) (auto split: list.splits if_splits)

lemma chain_skip:
  "chain m t h (us @ p # ws) \<Longrightarrow> distinct (us @ p # ws) \<Longrightarrow>
   \<forall>x \<in> set (us @ ws). tn_next (m' x) t = (if us \<noteq> [] \<and> x = last us then tn_next (m p) t else tn_next (m x) t) \<Longrightarrow>
   chain m' t (if us = [] then tn_next (m p) t else h) (us @ ws)"
proof (induction us arbitrary: h)
  case Nil
  then show ?case using chain_cong[of ws m' t m] by auto
next
  case (Cons u us)
  show ?case
  proof (cases "us = []")
    case True
    have "tn_next (m' x) t = tn_next (m x) t" if "x \<in> set ws" for x using Cons.prems True that by auto
    then have "chain m' t (tn_next (m p) t) ws" using Cons.prems(1) True chain_cong[of ws m' t m] by simp
    then show ?thesis using Cons.prems True by simp
  next
    case False
    have "chain m' t (if us = [] then tn_next (m p) t else tn_next (m u) t) (us @ ws)"
      using Cons.prems False by (intro Cons.IH) auto
    moreover have "u \<noteq> last us" using Cons.prems(2) False last_in_set[of us] by auto
    ultimately show ?thesis using Cons.prems False by auto
  qed
qed

lemma remove_this_loop_result:
  assumes "chain (tl_mem l) t (tl_head l t) (us @ vs)" "distinct (us @ vs)" "p \<notin> set us"
    and "\<forall>q. tn_member (tl_mem l q) t \<longleftrightarrow> q \<in> set (us @ vs)"
  shows "\<exists>l'. remove_this_loop l p t (if us = [] then None else Some (last us)) = Some (l', if p \<in> set vs then Some p else None)
    \<and> chain (tl_mem l') t (tl_head l' t) (remove1 p (us @ vs))
    \<and> (\<forall>q. tn_member (tl_mem l' q) t \<longleftrightarrow> q \<in> set (us @ vs) - {p})
    \<and> (\<forall>u. u \<noteq> t \<longrightarrow> tl_head l' u = tl_head l u)
    \<and> (\<forall>u q. u \<noteq> t \<longrightarrow> tn_next (tl_mem l' q) u = tn_next (tl_mem l q) u \<and> tn_member (tl_mem l' q) u = tn_member (tl_mem l q) u)"
  using assms
proof (induction vs arbitrary: us)
  case Nil
  have "tp_get l t (if us = [] then None else Some (last us)) = None"
    using chain_after[OF Nil.prems(1)] by (auto simp: tp_get_def)
  then show ?case using Nil.prems by (subst remove_this_loop.simps) (auto simp: remove1_idem)
next
  case (Cons v vs)
  let ?tp = "if us = [] then None else Some (last us)"
  have get: "tp_get l t ?tp = Some v"
    using chain_after[OF Cons.prems(1)] by (auto simp: tp_get_def)
  show ?case
  proof (cases "v = p")
    case True
    let ?l = "set_member p t False (set_next p t None (tp_set t ?tp (tn_next (tl_mem l p) t) l))"
    have notlast: "us \<noteq> [] \<Longrightarrow> last us \<noteq> p" using Cons.prems(3) last_in_set by metis
    have "chain (tl_mem ?l) t (if us = [] then tn_next (tl_mem l p) t else tl_head l t) (us @ vs)"
      using Cons.prems(1,2) notlast unfolding True
      by (intro chain_skip) (auto simp: tp_set_def)
    moreover have "tl_head ?l t = (if us = [] then tn_next (tl_mem l p) t else tl_head l t)"
      by (auto simp: tp_set_def)
    moreover have "remove1 p (us @ v # vs) = us @ vs"
      using True Cons.prems(3) by (simp add: remove1_append)
    moreover have "remove_this_loop l p t ?tp = Some (?l, Some p)"
      using get True by (subst remove_this_loop.simps) simp
    ultimately show ?thesis
      using True Cons.prems(2,4)
      by (intro exI[of _ ?l]) (auto simp: tp_set_def split: if_splits)
  next
    case False
    have "remove_this_loop l p t ?tp = remove_this_loop l p t (Some v)"
      using get False by (subst remove_this_loop.simps) simp
    then show ?thesis using Cons.IH[of "us @ [v]"] Cons.prems False by simp
  qed
qed

lemma txg_list_remove_this_inv:
  assumes inv: "tl_inv l L" and t_def: "t = TXG_IDX txg"
  obtains l' where "txg_list_remove_this l p txg = Inr (l', if p \<in> set (L t) then Some p else None)"
    "tl_inv l' (L(t := remove1 p (L t)))"
proof -
  note s = tl_invD[OF inv, where txg = txg, folded t_def]
  obtain l' where l: "remove_this_loop l p t None = Some (l', if p \<in> set (L t) then Some p else None)"
      "chain (tl_mem l') t (tl_head l' t) (remove1 p (L t))"
      "\<forall>q. tn_member (tl_mem l' q) t \<longleftrightarrow> q \<in> set (L t) - {p}"
      "\<forall>u. u \<noteq> t \<longrightarrow> tl_head l' u = tl_head l u"
      "\<forall>u q. u \<noteq> t \<longrightarrow> tn_next (tl_mem l' q) u = tn_next (tl_mem l q) u \<and> tn_member (tl_mem l' q) u = tn_member (tl_mem l q) u"
    using remove_this_loop_result[of l t "[]" "L t" p] s by auto
  have "tl_inv l' (L(t := remove1 p (L t)))"
    using l s(2) by (intro tl_inv_slot[OF inv]) auto
  then show ?thesis using that l(1) by (simp add: txg_list_remove_this_def t_def[symmetric] of_loop_def)
qed

text \<open>Walking a slot with \<open>txg_list_head\<close> and \<open>txg_list_next\<close> meets its objects in order.\<close>

lemma txg_list_walk:
  assumes inv: "tl_inv l L" and t_def: "t = TXG_IDX txg"
  shows "txg_list_head l txg = (case L t of [] \<Rightarrow> None | p # _ \<Rightarrow> Some p)"
    and "L t = us @ p # vs \<Longrightarrow> txg_list_next l p txg = (case vs of [] \<Rightarrow> None | q # _ \<Rightarrow> Some q)"
proof -
  note s = tl_invD[OF inv, where txg = txg, folded t_def]
  show "txg_list_head l txg = (case L t of [] \<Rightarrow> None | p # _ \<Rightarrow> Some p)"
    using s(1) by (cases "L t") (auto simp: txg_list_head_def t_def[symmetric])
  assume "L t = us @ p # vs"
  then show "txg_list_next l p txg = (case vs of [] \<Rightarrow> None | q # _ \<Rightarrow> Some q)"
    using chain_after[of "tl_mem l" t "tl_head l t" "us @ [p]" vs] s(1) by (simp add: txg_list_next_def t_def[symmetric])
qed

section \<open>Properties\<close>

definition two_objects :: txg_list where
  "two_objects = fst (txg_list_add (fst (txg_list_add (txg_list_create (\<lambda>_. \<lparr>tn_next = (\<lambda>_. None), tn_member = (\<lambda>_. False)\<rparr>)) 10 6)) 20 6)"

lemma two_objects_inv: "tl_inv two_objects ((\<lambda>_. [])(2 := [20, 10]))"
proof -
  have idx: "TXG_IDX 6 = 2" by (simp add: TXG_IDX_def TXG_MASK_def TXG_SIZE_def)
  have "tl_inv (txg_list_create (\<lambda>_. \<lparr>tn_next = (\<lambda>_. None), tn_member = (\<lambda>_. False)\<rparr>)) (\<lambda>_. [])"
    by (rule tl_create_inv) simp
  note one = txg_list_add_inv(2)[OF this idx[symmetric], of 10]
  show ?thesis using txg_list_add_inv(2)[OF one idx[symmetric], of 20] by (simp add: two_objects_def)
qed

text \<open>
  C19: the per-txg lists refine one list of distinct objects per slot (\<open>txg & TXG_MASK\<close>). \<open>txg_list_add\<close> puts an
  object that is not there at the front and answers whether it was there; \<open>txg_list_remove\<close> takes the first one;
  \<open>txg_list_remove_this\<close> returns, takes the given one out wherever it is and leaves the order of the others;
  \<open>txg_list_empty\<close>, \<open>txg_list_member\<close> and \<open>txg_list_head\<close> answer for the list. No other slot changes.
\<close>

theorem txg_list_refines:
  assumes "tl_inv l L" "t = TXG_IDX txg"
  shows "snd (txg_list_add l p txg) = (p \<in> set (L t))
    \<and> tl_inv (fst (txg_list_add l p txg)) (L(t := (if p \<in> set (L t) then L t else p # L t)))
    \<and> snd (txg_list_remove l txg) = (case L t of [] \<Rightarrow> None | q # _ \<Rightarrow> Some q)
    \<and> tl_inv (fst (txg_list_remove l txg)) (L(t := tl (L t)))
    \<and> (\<exists>l'. txg_list_remove_this l p txg = Inr (l', if p \<in> set (L t) then Some p else None)
         \<and> tl_inv l' (L(t := remove1 p (L t))))
    \<and> txg_list_empty l txg = (L t = []) \<and> txg_list_member l p txg = (p \<in> set (L t))
    \<and> txg_list_head l txg = (case L t of [] \<Rightarrow> None | q # _ \<Rightarrow> Some q)"
proof -
  obtain l' where "txg_list_remove_this l p txg = Inr (l', if p \<in> set (L t) then Some p else None)"
    "tl_inv l' (L(t := remove1 p (L t)))" using txg_list_remove_this_inv[OF assms] .
  moreover have "txg_list_empty l txg = (L t = [])"
    using txg_list_walk(1)[OF assms] by (cases "L t") (auto simp: txg_list_empty_def txg_list_head_def)
  moreover have "txg_list_member l p txg = (p \<in> set (L t))"
    using tl_invD(3)[OF assms(1)] by (simp add: txg_list_member_def assms(2))
  ultimately show ?thesis
    using txg_list_add_inv[OF assms, of p] txg_list_remove_inv[OF assms] txg_list_walk(1)[OF assms] by blast
qed

theorem txg_list_refines_witness:
  "\<exists>l'. txg_list_remove_this two_objects 10 6 = Inr (l', Some 10) \<and> tl_inv l' ((\<lambda>_. [])(2 := [20]))
     \<and> txg_list_head two_objects 6 = Some 20 \<and> \<not> txg_list_empty two_objects 6"
proof -
  have "2 = TXG_IDX 6" by (simp add: TXG_IDX_def TXG_MASK_def TXG_SIZE_def)
  from txg_list_refines[OF two_objects_inv this, of 10] show ?thesis by auto
qed

end
