(* ===== verification/Blkptr.thy ===== *)
theory Blkptr
  imports Sysmacros
begin

text \<open>
  Block pointers and data virtual addresses (\<open>uts/common/fs/zfs/sys/spa.h\<close>): the structures
  \<open>dva_t\<close>, \<open>zio_cksum_t\<close> and \<open>blkptr_t\<close> and the macros that read and write their bit fields.
\<close>

section \<open>Structures\<close>

definition SPA_LSIZEBITS :: nat where "SPA_LSIZEBITS = 16"
definition SPA_PSIZEBITS :: nat where "SPA_PSIZEBITS = 16"
definition SPA_ASIZEBITS :: nat where "SPA_ASIZEBITS = 24"
definition SPA_DVAS_PER_BP :: nat where "SPA_DVAS_PER_BP = 3"

record dva =
  dva_word0 :: u64
  dva_word1 :: u64

record zio_cksum =
  zc_word0 :: u64
  zc_word1 :: u64
  zc_word2 :: u64
  zc_word3 :: u64

record blkptr =
  blk_dva :: "dva list"
  blk_prop :: u64
  blk_pad0 :: u64
  blk_pad1 :: u64
  blk_phys_birth :: u64
  blk_birth :: u64
  blk_fill :: u64
  blk_cksum :: zio_cksum

section \<open>Data virtual addresses\<close>

definition DVA_GET_ASIZE :: "dva \<Rightarrow> u64" where
  "DVA_GET_ASIZE dva = BF64_GET_SB (dva_word0 dva) 0 24 SPA_MINBLOCKSHIFT 0"

definition DVA_SET_ASIZE :: "u64 \<Rightarrow> dva \<Rightarrow> dva" where
  "DVA_SET_ASIZE x dva = dva\<lparr>dva_word0 := BF64_SET_SB (dva_word0 dva) 0 24 SPA_MINBLOCKSHIFT 0 x\<rparr>"

definition DVA_GET_GRID :: "dva \<Rightarrow> u64" where
  "DVA_GET_GRID dva = BF64_GET (dva_word0 dva) 24 8"

definition DVA_SET_GRID :: "u64 \<Rightarrow> dva \<Rightarrow> dva" where
  "DVA_SET_GRID x dva = dva\<lparr>dva_word0 := BF64_SET (dva_word0 dva) 24 8 x\<rparr>"

definition DVA_GET_VDEV :: "dva \<Rightarrow> u64" where
  "DVA_GET_VDEV dva = BF64_GET (dva_word0 dva) 32 32"

definition DVA_SET_VDEV :: "u64 \<Rightarrow> dva \<Rightarrow> dva" where
  "DVA_SET_VDEV x dva = dva\<lparr>dva_word0 := BF64_SET (dva_word0 dva) 32 32 x\<rparr>"

definition DVA_GET_OFFSET :: "dva \<Rightarrow> u64" where
  "DVA_GET_OFFSET dva = BF64_GET_SB (dva_word1 dva) 0 63 SPA_MINBLOCKSHIFT 0"

definition DVA_SET_OFFSET :: "u64 \<Rightarrow> dva \<Rightarrow> dva" where
  "DVA_SET_OFFSET x dva = dva\<lparr>dva_word1 := BF64_SET_SB (dva_word1 dva) 0 63 SPA_MINBLOCKSHIFT 0 x\<rparr>"

definition DVA_GET_GANG :: "dva \<Rightarrow> u64" where
  "DVA_GET_GANG dva = BF64_GET (dva_word1 dva) 63 1"

definition DVA_SET_GANG :: "u64 \<Rightarrow> dva \<Rightarrow> dva" where
  "DVA_SET_GANG x dva = dva\<lparr>dva_word1 := BF64_SET (dva_word1 dva) 63 1 x\<rparr>"

definition DVA_EQUAL :: "dva \<Rightarrow> dva \<Rightarrow> bool" where
  "DVA_EQUAL dva1 dva2 \<longleftrightarrow> dva_word1 dva1 = dva_word1 dva2 \<and> dva_word0 dva1 = dva_word0 dva2"

definition DVA_IS_VALID :: "dva \<Rightarrow> bool" where
  "DVA_IS_VALID dva \<longleftrightarrow> DVA_GET_ASIZE dva \<noteq> 0"

section \<open>Block pointers\<close>

definition BP_GET_LSIZE :: "blkptr \<Rightarrow> u64" where
  "BP_GET_LSIZE bp = BF64_GET_SB (blk_prop bp) 0 16 SPA_MINBLOCKSHIFT 1"

definition BP_SET_LSIZE :: "u64 \<Rightarrow> blkptr \<Rightarrow> blkptr" where
  "BP_SET_LSIZE x bp = bp\<lparr>blk_prop := BF64_SET_SB (blk_prop bp) 0 16 SPA_MINBLOCKSHIFT 1 x\<rparr>"

definition BP_GET_PSIZE :: "blkptr \<Rightarrow> u64" where
  "BP_GET_PSIZE bp = BF64_GET_SB (blk_prop bp) 16 16 SPA_MINBLOCKSHIFT 1"

definition BP_SET_PSIZE :: "u64 \<Rightarrow> blkptr \<Rightarrow> blkptr" where
  "BP_SET_PSIZE x bp = bp\<lparr>blk_prop := BF64_SET_SB (blk_prop bp) 16 16 SPA_MINBLOCKSHIFT 1 x\<rparr>"

definition BP_GET_COMPRESS :: "blkptr \<Rightarrow> u64" where
  "BP_GET_COMPRESS bp = BF64_GET (blk_prop bp) 32 8"

definition BP_SET_COMPRESS :: "u64 \<Rightarrow> blkptr \<Rightarrow> blkptr" where
  "BP_SET_COMPRESS x bp = bp\<lparr>blk_prop := BF64_SET (blk_prop bp) 32 8 x\<rparr>"

definition BP_GET_CHECKSUM :: "blkptr \<Rightarrow> u64" where
  "BP_GET_CHECKSUM bp = BF64_GET (blk_prop bp) 40 8"

definition BP_SET_CHECKSUM :: "u64 \<Rightarrow> blkptr \<Rightarrow> blkptr" where
  "BP_SET_CHECKSUM x bp = bp\<lparr>blk_prop := BF64_SET (blk_prop bp) 40 8 x\<rparr>"

definition BP_GET_TYPE :: "blkptr \<Rightarrow> u64" where
  "BP_GET_TYPE bp = BF64_GET (blk_prop bp) 48 8"

definition BP_SET_TYPE :: "u64 \<Rightarrow> blkptr \<Rightarrow> blkptr" where
  "BP_SET_TYPE x bp = bp\<lparr>blk_prop := BF64_SET (blk_prop bp) 48 8 x\<rparr>"

definition BP_GET_LEVEL :: "blkptr \<Rightarrow> u64" where
  "BP_GET_LEVEL bp = BF64_GET (blk_prop bp) 56 5"

definition BP_SET_LEVEL :: "u64 \<Rightarrow> blkptr \<Rightarrow> blkptr" where
  "BP_SET_LEVEL x bp = bp\<lparr>blk_prop := BF64_SET (blk_prop bp) 56 5 x\<rparr>"

definition BP_GET_PROP_BIT_61 :: "blkptr \<Rightarrow> u64" where
  "BP_GET_PROP_BIT_61 bp = BF64_GET (blk_prop bp) 61 1"

definition BP_SET_PROP_BIT_61 :: "u64 \<Rightarrow> blkptr \<Rightarrow> blkptr" where
  "BP_SET_PROP_BIT_61 x bp = bp\<lparr>blk_prop := BF64_SET (blk_prop bp) 61 1 x\<rparr>"

definition BP_GET_DEDUP :: "blkptr \<Rightarrow> u64" where
  "BP_GET_DEDUP bp = BF64_GET (blk_prop bp) 62 1"

definition BP_SET_DEDUP :: "u64 \<Rightarrow> blkptr \<Rightarrow> blkptr" where
  "BP_SET_DEDUP x bp = bp\<lparr>blk_prop := BF64_SET (blk_prop bp) 62 1 x\<rparr>"

definition BP_GET_BYTEORDER :: "blkptr \<Rightarrow> u64" where
  "BP_GET_BYTEORDER bp = 0 - BF64_GET (blk_prop bp) 63 1"

definition BP_SET_BYTEORDER :: "u64 \<Rightarrow> blkptr \<Rightarrow> blkptr" where
  "BP_SET_BYTEORDER x bp = bp\<lparr>blk_prop := BF64_SET (blk_prop bp) 63 1 x\<rparr>"

definition BP_PHYSICAL_BIRTH :: "blkptr \<Rightarrow> u64" where
  "BP_PHYSICAL_BIRTH bp = (if blk_phys_birth bp \<noteq> 0 then blk_phys_birth bp else blk_birth bp)"

definition BP_SET_BIRTH :: "u64 \<Rightarrow> u64 \<Rightarrow> blkptr \<Rightarrow> blkptr" where
  "BP_SET_BIRTH logical physical bp =
     bp\<lparr>blk_birth := logical, blk_phys_birth := (if logical = physical then 0 else physical)\<rparr>"

definition BP_GET_ASIZE :: "blkptr \<Rightarrow> u64" where
  "BP_GET_ASIZE bp = DVA_GET_ASIZE (blk_dva bp ! 0) + DVA_GET_ASIZE (blk_dva bp ! 1) + DVA_GET_ASIZE (blk_dva bp ! 2)"

definition BP_GET_NDVAS :: "blkptr \<Rightarrow> nat" where
  "BP_GET_NDVAS bp = of_bool (DVA_GET_ASIZE (blk_dva bp ! 0) \<noteq> 0) + of_bool (DVA_GET_ASIZE (blk_dva bp ! 1) \<noteq> 0)
     + of_bool (DVA_GET_ASIZE (blk_dva bp ! 2) \<noteq> 0)"

definition BP_COUNT_GANG :: "blkptr \<Rightarrow> u64" where
  "BP_COUNT_GANG bp = DVA_GET_GANG (blk_dva bp ! 0) + DVA_GET_GANG (blk_dva bp ! 1) + DVA_GET_GANG (blk_dva bp ! 2)"

definition BP_EQUAL :: "blkptr \<Rightarrow> blkptr \<Rightarrow> bool" where
  "BP_EQUAL bp1 bp2 \<longleftrightarrow> BP_PHYSICAL_BIRTH bp1 = BP_PHYSICAL_BIRTH bp2
     \<and> DVA_EQUAL (blk_dva bp1 ! 0) (blk_dva bp2 ! 0)
     \<and> DVA_EQUAL (blk_dva bp1 ! 1) (blk_dva bp2 ! 1)
     \<and> DVA_EQUAL (blk_dva bp1 ! 2) (blk_dva bp2 ! 2)"

definition ZIO_CHECKSUM_EQUAL :: "zio_cksum \<Rightarrow> zio_cksum \<Rightarrow> bool" where
  "ZIO_CHECKSUM_EQUAL zc1 zc2 \<longleftrightarrow> 0 = (((zc_word0 zc1 - zc_word0 zc2) OR (zc_word1 zc1 - zc_word1 zc2))
     OR (zc_word2 zc1 - zc_word2 zc2)) OR (zc_word3 zc1 - zc_word3 zc2)"

definition ZIO_SET_CHECKSUM :: "u64 \<Rightarrow> u64 \<Rightarrow> u64 \<Rightarrow> u64 \<Rightarrow> zio_cksum \<Rightarrow> zio_cksum" where
  "ZIO_SET_CHECKSUM w0 w1 w2 w3 zcp = zcp\<lparr>zc_word0 := w0, zc_word1 := w1, zc_word2 := w2, zc_word3 := w3\<rparr>"

definition BP_IDENTITY :: "blkptr \<Rightarrow> dva" where
  "BP_IDENTITY bp = blk_dva bp ! 0"

definition BP_IS_GANG :: "blkptr \<Rightarrow> bool" where
  "BP_IS_GANG bp \<longleftrightarrow> DVA_GET_GANG (BP_IDENTITY bp) \<noteq> 0"

definition BP_IS_HOLE :: "blkptr \<Rightarrow> bool" where
  "BP_IS_HOLE bp \<longleftrightarrow> blk_birth bp = 0"

definition zero_dva :: dva where
  "zero_dva = \<lparr>dva_word0 = 0, dva_word1 = 0\<rparr>"

definition BP_ZERO :: "blkptr \<Rightarrow> blkptr" where
  "BP_ZERO bp = bp\<lparr>blk_dva := (blk_dva bp)[0 := zero_dva, 1 := zero_dva, 2 := zero_dva], blk_prop := 0,
     blk_pad0 := 0, blk_pad1 := 0, blk_phys_birth := 0, blk_birth := 0, blk_fill := 0,
     blk_cksum := ZIO_SET_CHECKSUM 0 0 0 0 (blk_cksum bp)\<rparr>"

definition ZFS_HOST_BYTEORDER :: u64 where
  "ZFS_HOST_BYTEORDER = -1"

definition BP_SHOULD_BYTESWAP :: "blkptr \<Rightarrow> bool" where
  "BP_SHOULD_BYTESWAP bp \<longleftrightarrow> BP_GET_BYTEORDER bp \<noteq> ZFS_HOST_BYTEORDER"

text \<open>The array \<open>blk_dva\<close> has \<open>SPA_DVAS_PER_BP\<close> elements.\<close>

definition bp_wf :: "blkptr \<Rightarrow> bool" where
  "bp_wf bp \<longleftrightarrow> length (blk_dva bp) = SPA_DVAS_PER_BP"

section \<open>Fields\<close>

lemmas dva_defs = DVA_GET_ASIZE_def DVA_SET_ASIZE_def DVA_GET_GRID_def DVA_SET_GRID_def DVA_GET_VDEV_def
  DVA_SET_VDEV_def DVA_GET_OFFSET_def DVA_SET_OFFSET_def DVA_GET_GANG_def DVA_SET_GANG_def

lemmas bp_prop_defs = BP_GET_LSIZE_def BP_SET_LSIZE_def BP_GET_PSIZE_def BP_SET_PSIZE_def BP_GET_COMPRESS_def
  BP_SET_COMPRESS_def BP_GET_CHECKSUM_def BP_SET_CHECKSUM_def BP_GET_TYPE_def BP_SET_TYPE_def BP_GET_LEVEL_def
  BP_SET_LEVEL_def BP_GET_PROP_BIT_61_def BP_SET_PROP_BIT_61_def BP_GET_DEDUP_def BP_SET_DEDUP_def
  BP_GET_BYTEORDER_def BP_SET_BYTEORDER_def

text \<open>A field in units of \<open>2^shift\<close> gives back every multiple of the unit whose quotient fits.\<close>

lemma BF64_SB_multiple:
  assumes "low + len \<le> 64" "2 ^ shift dvd unat v" "unat v div 2 ^ shift < 2 ^ len"
  shows "BF64_GET_SB (BF64_SET_SB x low len shift 0 v) low len shift 0 = v"
proof -
  have "take_bit len (drop_bit shift v) = drop_bit shift v"
    using assms(3) by (simp add: word_unat_eq_iff unat_take_bit_64 unat_drop_bit_64)
  moreover have "unat (push_bit shift (drop_bit shift v)) = unat v"
    using assms(2) unat_less_64[of v] by (subst unat_push_bit_64) (simp_all add: unat_drop_bit_64)
  then have "push_bit shift (drop_bit shift v) = v" by (simp only: word_unat_eq_iff)
  ultimately show ?thesis
    by (simp add: BF64_GET_SB_def BF64_SET_SB_def BF64_GET_SET[OF assms(1)])
qed

lemma BF64_SB_other:
  assumes "low' + len' \<le> 64" "low + len \<le> low' \<or> low' + len' \<le> low"
  shows "BF64_GET (BF64_SET_SB x low' len' shift' bias' v) low len = BF64_GET x low len"
  unfolding BF64_SET_SB_def by (rule BF64_GET_SET_disjoint[OF assms])

lemma dva_fields_set:
  "DVA_GET_VDEV (DVA_SET_VDEV x d) = take_bit 32 x" "DVA_GET_GRID (DVA_SET_GRID x d) = take_bit 8 x"
  "DVA_GET_GANG (DVA_SET_GANG x d) = take_bit 1 x"
  "2 ^ SPA_MINBLOCKSHIFT dvd unat x \<Longrightarrow> DVA_GET_OFFSET (DVA_SET_OFFSET x d) = x"
  "2 ^ SPA_MINBLOCKSHIFT dvd unat x \<Longrightarrow> unat x < 2 ^ (SPA_ASIZEBITS + SPA_MINBLOCKSHIFT) \<Longrightarrow>
     DVA_GET_ASIZE (DVA_SET_ASIZE x d) = x"
proof -
  show "DVA_GET_VDEV (DVA_SET_VDEV x d) = take_bit 32 x" "DVA_GET_GRID (DVA_SET_GRID x d) = take_bit 8 x"
    "DVA_GET_GANG (DVA_SET_GANG x d) = take_bit 1 x"
    by (simp_all add: dva_defs BF64_GET_SET)
  assume al: "2 ^ SPA_MINBLOCKSHIFT dvd unat x"
  show "DVA_GET_OFFSET (DVA_SET_OFFSET x d) = x"
    using al unat_less_64[of x] by (simp add: dva_defs BF64_SB_multiple SPA_MINBLOCKSHIFT_def)
  assume "unat x < 2 ^ (SPA_ASIZEBITS + SPA_MINBLOCKSHIFT)"
  then show "DVA_GET_ASIZE (DVA_SET_ASIZE x d) = x"
    using al by (simp add: dva_defs BF64_SB_multiple SPA_MINBLOCKSHIFT_def SPA_ASIZEBITS_def)
qed

lemma dva_fields_other [simp]:
  "DVA_GET_ASIZE (DVA_SET_GRID x d) = DVA_GET_ASIZE d" "DVA_GET_ASIZE (DVA_SET_VDEV x d) = DVA_GET_ASIZE d"
  "DVA_GET_ASIZE (DVA_SET_OFFSET x d) = DVA_GET_ASIZE d" "DVA_GET_ASIZE (DVA_SET_GANG x d) = DVA_GET_ASIZE d"
  "DVA_GET_GRID (DVA_SET_ASIZE x d) = DVA_GET_GRID d" "DVA_GET_GRID (DVA_SET_VDEV x d) = DVA_GET_GRID d"
  "DVA_GET_GRID (DVA_SET_OFFSET x d) = DVA_GET_GRID d" "DVA_GET_GRID (DVA_SET_GANG x d) = DVA_GET_GRID d"
  "DVA_GET_VDEV (DVA_SET_ASIZE x d) = DVA_GET_VDEV d" "DVA_GET_VDEV (DVA_SET_GRID x d) = DVA_GET_VDEV d"
  "DVA_GET_VDEV (DVA_SET_OFFSET x d) = DVA_GET_VDEV d" "DVA_GET_VDEV (DVA_SET_GANG x d) = DVA_GET_VDEV d"
  "DVA_GET_OFFSET (DVA_SET_ASIZE x d) = DVA_GET_OFFSET d" "DVA_GET_OFFSET (DVA_SET_GRID x d) = DVA_GET_OFFSET d"
  "DVA_GET_OFFSET (DVA_SET_VDEV x d) = DVA_GET_OFFSET d" "DVA_GET_OFFSET (DVA_SET_GANG x d) = DVA_GET_OFFSET d"
  "DVA_GET_GANG (DVA_SET_ASIZE x d) = DVA_GET_GANG d" "DVA_GET_GANG (DVA_SET_GRID x d) = DVA_GET_GANG d"
  "DVA_GET_GANG (DVA_SET_VDEV x d) = DVA_GET_GANG d" "DVA_GET_GANG (DVA_SET_OFFSET x d) = DVA_GET_GANG d"
  by (simp_all add: dva_defs BF64_GET_SB_def BF64_SB_other BF64_GET_SET_disjoint)

text \<open>
  The fields of \<open>blk_prop\<close> as a list of getters and setters; setting one leaves the others alone.
\<close>

definition bp_fields :: "((blkptr \<Rightarrow> u64) \<times> (u64 \<Rightarrow> blkptr \<Rightarrow> blkptr)) list" where
  "bp_fields = [(BP_GET_LSIZE, BP_SET_LSIZE), (BP_GET_PSIZE, BP_SET_PSIZE), (BP_GET_COMPRESS, BP_SET_COMPRESS),
     (BP_GET_CHECKSUM, BP_SET_CHECKSUM), (BP_GET_TYPE, BP_SET_TYPE), (BP_GET_LEVEL, BP_SET_LEVEL),
     (BP_GET_PROP_BIT_61, BP_SET_PROP_BIT_61), (BP_GET_DEDUP, BP_SET_DEDUP), (BP_GET_BYTEORDER, BP_SET_BYTEORDER)]"

lemma bp_fields_other:
  assumes "i < length bp_fields" "j < length bp_fields" "i \<noteq> j"
  shows "fst (bp_fields ! i) (snd (bp_fields ! j) x bp) = fst (bp_fields ! i) bp"
proof -
  have "\<forall>i < length bp_fields. \<forall>j < length bp_fields. i \<noteq> j \<longrightarrow>
      fst (bp_fields ! i) (snd (bp_fields ! j) x bp) = fst (bp_fields ! i) bp"
    by (simp add: bp_fields_def All_less_Suc2 bp_prop_defs BF64_GET_SB_def BF64_SB_other BF64_GET_SET_disjoint)
  then show ?thesis using assms by blast
qed

lemma bp_size_set:
  assumes "2 ^ SPA_MINBLOCKSHIFT dvd unat x" "x \<noteq> 0" "unat x \<le> 2 ^ (16 + SPA_MINBLOCKSHIFT)"
  shows "BP_GET_LSIZE (BP_SET_LSIZE x bp) = x" "BP_GET_PSIZE (BP_SET_PSIZE x bp) = x"
proof -
  obtain q where q: "unat x = 512 * q" using assms(1) by (auto simp: SPA_MINBLOCKSHIFT_def elim: dvdE)
  have "0 < q" using q assms(2) by (cases q) (auto simp: unat_eq_zero)
  then have "512 \<le> unat x" "unat x \<le> 33554432" using q assms(3) by (simp_all add: SPA_MINBLOCKSHIFT_def)
  then show "BP_GET_LSIZE (BP_SET_LSIZE x bp) = x" "BP_GET_PSIZE (BP_SET_PSIZE x bp) = x"
    using assms(1) unfolding bp_prop_defs SPA_MINBLOCKSHIFT_def by (simp_all add: BF64_SB_roundtrip)
qed

lemma bp_small_set:
  "BP_GET_COMPRESS (BP_SET_COMPRESS x bp) = take_bit 8 x" "BP_GET_CHECKSUM (BP_SET_CHECKSUM x bp) = take_bit 8 x"
  "BP_GET_TYPE (BP_SET_TYPE x bp) = take_bit 8 x" "BP_GET_LEVEL (BP_SET_LEVEL x bp) = take_bit 5 x"
  "BP_GET_PROP_BIT_61 (BP_SET_PROP_BIT_61 x bp) = take_bit 1 x" "BP_GET_DEDUP (BP_SET_DEDUP x bp) = take_bit 1 x"
  "BP_GET_BYTEORDER (BP_SET_BYTEORDER x bp) = - take_bit 1 x"
  by (simp_all add: bp_prop_defs BF64_GET_SET)

lemma bp_byteorder_host: "\<not> BP_SHOULD_BYTESWAP (BP_SET_BYTEORDER ZFS_HOST_BYTEORDER bp)"
  by (simp add: BP_SHOULD_BYTESWAP_def ZFS_HOST_BYTEORDER_def bp_small_set)

lemma or_zero_iff: "(0 = x OR y) \<longleftrightarrow> x = 0 \<and> y = (0 :: u64)"
  by (metis or.left_neutral or_eq_0_iff)

lemma checksum_equal_iff: "ZIO_CHECKSUM_EQUAL zc1 zc2 \<longleftrightarrow> zc1 = zc2"
  by (cases zc1, cases zc2) (simp add: ZIO_CHECKSUM_EQUAL_def or_zero_iff or_eq_0_iff)

lemma dva_equal_iff: "DVA_EQUAL d1 d2 \<longleftrightarrow> d1 = d2"
  by (cases d1, cases d2) (auto simp: DVA_EQUAL_def)

lemma bp_equal_iff:
  assumes "bp_wf bp1" "bp_wf bp2"
  shows "BP_EQUAL bp1 bp2 \<longleftrightarrow> BP_PHYSICAL_BIRTH bp1 = BP_PHYSICAL_BIRTH bp2 \<and> blk_dva bp1 = blk_dva bp2"
  using assms
  by (auto simp: BP_EQUAL_def dva_equal_iff bp_wf_def SPA_DVAS_PER_BP_def numeral_3_eq_3 list_eq_iff_nth_eq less_Suc_eq
      numeral_2_eq_2)

lemma bp_birth: "BP_PHYSICAL_BIRTH (BP_SET_BIRTH l p bp) = (if l = p \<or> p \<noteq> 0 then p else l)"
  by (simp add: BP_PHYSICAL_BIRTH_def BP_SET_BIRTH_def)

lemma dva_zero [simp]: "DVA_GET_ASIZE zero_dva = 0" "DVA_GET_GANG zero_dva = 0"
  by (simp_all add: dva_defs zero_dva_def BF64_GET_SB_def BF64_GET_def BF64_DECODE_def P2PHASE_def)

lemma bp_zero:
  assumes "bp_wf bp"
  shows "BP_IS_HOLE (BP_ZERO bp)" "BP_GET_NDVAS (BP_ZERO bp) = 0" "BP_GET_ASIZE (BP_ZERO bp) = 0" "bp_wf (BP_ZERO bp)"
    "BP_COUNT_GANG (BP_ZERO bp) = 0"
  using assms
  by (simp_all add: BP_IS_HOLE_def BP_ZERO_def BP_GET_NDVAS_def BP_GET_ASIZE_def BP_COUNT_GANG_def bp_wf_def
      SPA_DVAS_PER_BP_def)

section \<open>Properties\<close>

definition example_bp :: blkptr where
  "example_bp = BP_ZERO \<lparr>blk_dva = [zero_dva, zero_dva, zero_dva], blk_prop = -1, blk_pad0 = 7, blk_pad1 = 7,
     blk_phys_birth = 3, blk_birth = 4, blk_fill = 1, blk_cksum = \<lparr>zc_word0 = 1, zc_word1 = 2, zc_word2 = 3, zc_word3 = 4\<rparr>\<rparr>"

text \<open>
  C20: writing the vdev, offset, gang flag and allocated size into a DVA, in the order \<open>metaslab_alloc_dva\<close> does it,
  gives a DVA from which all four are read back, whatever it held before: for a vdev below \<open>2^32\<close>, an offset that is a
  multiple of 512, a flag 0 or 1, and a size that is a multiple of 512 below \<open>2^33\<close>. The DVA is valid iff the size is not 0.
\<close>

theorem dva_set_get_roundtrip:
  assumes "unat vdev < 2 ^ 32" "2 ^ SPA_MINBLOCKSHIFT dvd unat off" "gang = 0 \<or> gang = 1"
    and "2 ^ SPA_MINBLOCKSHIFT dvd unat asize" "unat asize < 2 ^ (SPA_ASIZEBITS + SPA_MINBLOCKSHIFT)"
    and "d' = DVA_SET_ASIZE asize (DVA_SET_GANG gang (DVA_SET_OFFSET off (DVA_SET_VDEV vdev d)))"
  shows "DVA_GET_VDEV d' = vdev \<and> DVA_GET_OFFSET d' = off \<and> DVA_GET_GANG d' = gang \<and> DVA_GET_ASIZE d' = asize
     \<and> DVA_GET_GRID d' = DVA_GET_GRID d \<and> (DVA_IS_VALID d' \<longleftrightarrow> asize \<noteq> 0)"
proof -
  have v: "take_bit 32 vdev = vdev" using assms(1) by (simp add: word_unat_eq_iff unat_take_bit_64)
  have g: "take_bit 1 gang = gang" using assms(3) by auto
  show ?thesis unfolding assms(6) DVA_IS_VALID_def
    using v g by (simp add: dva_fields_set(1,3) dva_fields_set(4)[OF assms(2)] dva_fields_set(5)[OF assms(4,5)])
qed

theorem dva_set_get_roundtrip_witness:
  "let d' = DVA_SET_ASIZE 8192 (DVA_SET_GANG 1 (DVA_SET_OFFSET 1048576 (DVA_SET_VDEV 3 \<lparr>dva_word0 = -1, dva_word1 = -1\<rparr>)))
   in DVA_GET_VDEV d' = 3 \<and> DVA_GET_OFFSET d' = 1048576 \<and> DVA_GET_GANG d' = 1 \<and> DVA_GET_ASIZE d' = 8192"
  using dva_set_get_roundtrip[of 3 1048576 1 8192 _ "\<lparr>dva_word0 = -1, dva_word1 = -1\<rparr>", OF _ _ _ _ _ refl]
  by (simp add: SPA_MINBLOCKSHIFT_def SPA_ASIZEBITS_def Let_def)

text \<open>
  C21: the nine fields of \<open>blk_prop\<close> do not overlap, and each gives back what was stored: sizes are multiples of 512
  from 512 bytes to 32 MiB, other fields are cut to their width, and the byte order reads as 0 or -1.
\<close>

theorem bp_prop_fields:
  assumes "i < length bp_fields" "j < length bp_fields" "i \<noteq> j"
    and "2 ^ SPA_MINBLOCKSHIFT dvd unat x" "x \<noteq> 0" "unat x \<le> 2 ^ (16 + SPA_MINBLOCKSHIFT)"
  shows "fst (bp_fields ! i) (snd (bp_fields ! j) y bp) = fst (bp_fields ! i) bp
     \<and> BP_GET_LSIZE (BP_SET_LSIZE x bp) = x \<and> BP_GET_PSIZE (BP_SET_PSIZE x bp) = x
     \<and> BP_GET_COMPRESS (BP_SET_COMPRESS y bp) = take_bit 8 y \<and> BP_GET_CHECKSUM (BP_SET_CHECKSUM y bp) = take_bit 8 y
     \<and> BP_GET_TYPE (BP_SET_TYPE y bp) = take_bit 8 y \<and> BP_GET_LEVEL (BP_SET_LEVEL y bp) = take_bit 5 y
     \<and> BP_GET_PROP_BIT_61 (BP_SET_PROP_BIT_61 y bp) = take_bit 1 y
     \<and> BP_GET_DEDUP (BP_SET_DEDUP y bp) = take_bit 1 y \<and> BP_GET_BYTEORDER (BP_SET_BYTEORDER y bp) = - take_bit 1 y
     \<and> \<not> BP_SHOULD_BYTESWAP (BP_SET_BYTEORDER ZFS_HOST_BYTEORDER bp)"
  using bp_fields_other[OF assms(1-3)] bp_size_set[OF assms(4-6)] bp_small_set bp_byteorder_host by simp

theorem bp_prop_fields_witness:
  "BP_GET_PSIZE (BP_SET_TYPE 19 example_bp) = BP_GET_PSIZE example_bp \<and> BP_GET_LSIZE (BP_SET_LSIZE 131072 example_bp) = 131072
     \<and> BP_GET_TYPE (BP_SET_TYPE 19 example_bp) = 19 \<and> BP_GET_PROP_BIT_61 (BP_SET_PROP_BIT_61 19 example_bp) = 1"
  using bp_prop_fields[of 1 4 131072 19 example_bp] by (simp add: bp_fields_def SPA_MINBLOCKSHIFT_def)



end
