(* ===== verification/Vdev.thy ===== *)
theory Vdev
  imports Space_Ref Txg_List Space_Map_Sync
begin

text \<open>
  Virtual devices (\<open>uts/common/fs/zfs/vdev.c\<close>, \<open>sys/vdev_impl.h\<close>): the tree of devices of a pool, the size of an
  allocation on it, and the dirty time logs (DTLs), the sets of transaction groups for which a device has less than
  perfect replication. A vdev tree is the datatype \<open>vdev\<close>; \<open>vdev_self\<close> is the address of the structure, and the
  top-level vdev (\<open>vdev_top\<close>) is passed along where the code follows that pointer.
\<close>

section \<open>Data\<close>

datatype vdev_dtl_type = DTL_MISSING | DTL_PARTIAL | DTL_SCRUB | DTL_OUTAGE

datatype vdev_ops = vdev_root_ops | vdev_raidz_ops | vdev_mirror_ops | vdev_replacing_ops | vdev_spare_ops
  | vdev_disk_ops | vdev_file_ops | vdev_missing_ops | vdev_hole_ops

fun vdev_op_leaf :: "vdev_ops \<Rightarrow> bool" where
  "vdev_op_leaf ops = (ops \<in> {vdev_disk_ops, vdev_file_ops, vdev_missing_ops, vdev_hole_ops})"

definition VDEV_STATE_UNKNOWN :: u64 where "VDEV_STATE_UNKNOWN = 0"
definition VDEV_STATE_CLOSED :: u64 where "VDEV_STATE_CLOSED = 1"
definition VDEV_STATE_OFFLINE :: u64 where "VDEV_STATE_OFFLINE = 2"
definition VDEV_STATE_REMOVED :: u64 where "VDEV_STATE_REMOVED = 3"
definition VDEV_STATE_CANT_OPEN :: u64 where "VDEV_STATE_CANT_OPEN = 4"
definition VDEV_STATE_FAULTED :: u64 where "VDEV_STATE_FAULTED = 5"
definition VDEV_STATE_DEGRADED :: u64 where "VDEV_STATE_DEGRADED = 6"
definition VDEV_STATE_HEALTHY :: u64 where "VDEV_STATE_HEALTHY = 7"

record vdev_node =
  vdev_self :: addr
  vdev_id :: u64
  vdev_guid :: u64
  vdev_asize :: u64
  vdev_min_asize :: u64
  vdev_ashift :: u64
  vdev_ms_shift :: u64
  vdev_state :: u64
  vdev_ops_of :: vdev_ops
  vdev_dtl :: "vdev_dtl_type \<Rightarrow> space_map"
  vdev_dtl_smo :: space_map_obj
  vdev_nparity :: u64
  vdev_ishole :: bool
  vdev_aux :: "addr option"
  vdev_removing :: bool
  vdev_detached :: bool
  vdev_cant_read :: bool
  vdev_cant_write :: bool

datatype vdev = VDEV (vdev_info: vdev_node) (vdev_child: "vdev list")

text \<open>The lists of dirty metaslabs and DTLs of a top-level vdev, and of dirty vdevs of the pool.\<close>

record dirty_lists =
  vdev_ms_list :: txg_list
  vdev_dtl_list :: txg_list
  spa_vdev_txg_list :: txg_list

text \<open>What the code reads of the pool.\<close>

record dtl_env =
  de_kernel :: kernel
  de_ref_alloc :: ref_alloc
  spa_root_vdev :: addr
  spa_scrub_started :: bool
  spa_scrub_errors :: u64

section \<open>Loops over children\<close>

text \<open>A loop over a list that replaces each element and threads a state.\<close>

fun mapM :: "('a \<Rightarrow> 's \<Rightarrow> ('b \<times> 's) res) \<Rightarrow> 'a list \<Rightarrow> 's \<Rightarrow> ('b list \<times> 's) res" where
  "mapM f [] s = Inr ([], s)"
| "mapM f (x # xs) s = rbind (f x s) (\<lambda>(y, s). rbind (mapM f xs s) (\<lambda>(ys, s). Inr (y # ys, s)))"

lemma mapM_cong [fundef_cong]:
  "xs = ys \<Longrightarrow> s = s' \<Longrightarrow> (\<And>x t. x \<in> set ys \<Longrightarrow> f x t = g x t) \<Longrightarrow> mapM f xs s = mapM g ys s'"
proof (induction ys arbitrary: xs s s')
  case (Cons y ys)
  then have "mapM f ys t = mapM g ys t" for t by auto
  then show ?case using Cons.prems by (cases "g y s'") auto
qed simp

section \<open>Sizes\<close>

definition vdev_default_asize :: "u64 \<Rightarrow> u64 list \<Rightarrow> u64 \<Rightarrow> u64" where
  "vdev_default_asize ashift csizes psize =
     fold (\<lambda>csize asize. max asize csize) csizes (P2ROUNDUP psize (push_bit (unat ashift) 1))"

definition roundup :: "u64 \<Rightarrow> u64 \<Rightarrow> u64" where
  "roundup x y = ((x + (y - 1)) div y) * y"

definition vdev_raidz_asize :: "u64 \<Rightarrow> u64 \<Rightarrow> u64 \<Rightarrow> u64 \<Rightarrow> u64" where
  "vdev_raidz_asize ashift cols nparity psize =
     (let asize = drop_bit (unat ashift) (psize - 1) + 1;
          asize = asize + nparity * ((asize + cols - nparity - 1) div (cols - nparity))
      in push_bit (unat ashift) (roundup asize (nparity + 1)))"

text \<open>\<open>ashift\<close> is that of the top-level vdev.\<close>

fun vdev_psize_to_asize :: "u64 \<Rightarrow> vdev \<Rightarrow> u64 \<Rightarrow> u64" where
  "vdev_psize_to_asize ashift (VDEV n children) psize =
     (if vdev_ops_of n = vdev_raidz_ops then vdev_raidz_asize ashift (of_nat (length children)) (vdev_nparity n) psize
      else vdev_default_asize ashift (map (\<lambda>c. vdev_psize_to_asize ashift c psize) children) psize)"

text \<open>The parent is given with the number of its children; a top-level vdev has the root as its parent.\<close>

definition vdev_get_min_asize :: "vdev_node \<Rightarrow> (vdev_node \<times> nat) option \<Rightarrow> bool \<Rightarrow> u64" where
  "vdev_get_min_asize vd parent is_top =
     (case parent of
        None \<Rightarrow> vdev_asize vd
      | Some (pvd, children) \<Rightarrow>
          if is_top then P2ALIGN (vdev_asize vd) (push_bit (unat (vdev_ms_shift vd)) 1)
          else if vdev_ops_of pvd = vdev_raidz_ops then vdev_min_asize pvd div of_nat children
          else vdev_min_asize pvd)"

fun vdev_set_min_asize :: "(vdev_node \<times> nat) option \<Rightarrow> bool \<Rightarrow> vdev \<Rightarrow> vdev" where
  "vdev_set_min_asize parent is_top (VDEV n children) =
     (let n = n\<lparr>vdev_min_asize := vdev_get_min_asize n parent is_top\<rparr>
      in VDEV n (map (vdev_set_min_asize (Some (n, length children)) (parent = None)) children))"

section \<open>Looking up devices\<close>

definition vdev_lookup_top :: "vdev \<Rightarrow> u64 \<Rightarrow> vdev option" where
  "vdev_lookup_top rvd vdev =
     (if unat vdev < length (vdev_child rvd) then Some (vdev_child rvd ! unat vdev) else None)"

fun vdev_lookup_by_guid :: "vdev \<Rightarrow> u64 \<Rightarrow> vdev option" where
  "vdev_lookup_by_guid (VDEV n children) guid =
     (if vdev_guid n = guid then Some (VDEV n children)
      else case filter (\<lambda>r. r \<noteq> None) (map (\<lambda>c. vdev_lookup_by_guid c guid) children) of
             [] \<Rightarrow> None
           | r # _ \<Rightarrow> r)"

section \<open>State of a device\<close>

definition vdev_is_dead :: "vdev_node \<Rightarrow> bool" where
  "vdev_is_dead vd \<longleftrightarrow> vdev_state vd < VDEV_STATE_DEGRADED \<or> vdev_ishole vd \<or> vdev_ops_of vd = vdev_missing_ops"

definition vdev_readable :: "vdev_node \<Rightarrow> bool" where
  "vdev_readable vd \<longleftrightarrow> \<not> vdev_is_dead vd \<and> \<not> vdev_cant_read vd"

definition vdev_writeable :: "vdev_node \<Rightarrow> bool" where
  "vdev_writeable vd \<longleftrightarrow> \<not> vdev_is_dead vd \<and> \<not> vdev_cant_write vd"

definition vdev_allocatable :: "vdev_node \<Rightarrow> bool" where
  "vdev_allocatable vd \<longleftrightarrow> \<not> (vdev_state vd < VDEV_STATE_DEGRADED \<and> vdev_state vd \<noteq> VDEV_STATE_CLOSED)
     \<and> \<not> vdev_cant_write vd \<and> \<not> vdev_ishole vd \<and> \<not> vdev_removing vd"

section \<open>Dirty lists\<close>

definition VDD_METASLAB :: u64 where "VDD_METASLAB = 0x01"
definition VDD_DTL :: u64 where "VDD_DTL = 0x02"

text \<open>\<open>vd\<close> is a top-level vdev. The flags are an \<open>int\<close> in the code; only the two bits above are used.\<close>

definition vdev_dirty :: "vdev_node \<Rightarrow> u64 \<Rightarrow> addr \<Rightarrow> u64 \<Rightarrow> dirty_lists \<Rightarrow> dirty_lists res" where
  "vdev_dirty vd flags arg txg d =
     ASSERT (\<not> vdev_ishole vd) (
     ASSERT (ISP2 flags) (
     let d = (if flags AND VDD_METASLAB \<noteq> 0
              then d\<lparr>vdev_ms_list := fst (txg_list_add (vdev_ms_list d) arg txg)\<rparr> else d);
         d = (if flags AND VDD_DTL \<noteq> 0
              then d\<lparr>vdev_dtl_list := fst (txg_list_add (vdev_dtl_list d) arg txg)\<rparr> else d)
     in Inr (d\<lparr>spa_vdev_txg_list := fst (txg_list_add (spa_vdev_txg_list d) (vdev_self vd) txg)\<rparr>)))"

section \<open>Dirty time logs\<close>

text \<open>\<open>vdev_alloc_common\<close> creates every DTL as a map of all transaction groups in units of one.\<close>

definition vdev_dtl_create :: space_map where
  "vdev_dtl_create = space_map_create 0 (-1) 0 True"

definition set_dtl :: "vdev_dtl_type \<Rightarrow> space_map \<Rightarrow> vdev_node \<Rightarrow> vdev_node" where
  "set_dtl t sm vd = vd\<lparr>vdev_dtl := (vdev_dtl vd)(t := sm)\<rparr>"

definition vdev_dtl_dirty :: "dtl_env \<Rightarrow> vdev_node \<Rightarrow> vdev_dtl_type \<Rightarrow> u64 \<Rightarrow> u64 \<Rightarrow> vdev_node res" where
  "vdev_dtl_dirty env vd t txg size' =
     (let sm = vdev_dtl vd t
      in ASSERT (vdev_self vd \<noteq> spa_root_vdev env) (
         rbind (space_map_contains sm txg size') (\<lambda>c.
         if \<not> c then rbind (space_map_add (de_kernel env) sm txg size') (\<lambda>sm. Inr (set_dtl t sm vd))
         else Inr vd)))"

definition vdev_dtl_contains :: "dtl_env \<Rightarrow> vdev_node \<Rightarrow> vdev_dtl_type \<Rightarrow> u64 \<Rightarrow> u64 \<Rightarrow> bool res" where
  "vdev_dtl_contains env vd t txg size' =
     (let sm = vdev_dtl vd t
      in ASSERT (vdev_self vd \<noteq> spa_root_vdev env) (
         if sm_space sm \<noteq> 0 then space_map_contains sm txg size' else Inr False))"

definition vdev_dtl_empty :: "vdev_node \<Rightarrow> vdev_dtl_type \<Rightarrow> bool" where
  "vdev_dtl_empty vd t \<longleftrightarrow> sm_space (vdev_dtl vd t) = 0"

text \<open>Fold the scrub log into the missing log: the reference tree with counts 1, -1 and 2.\<close>

definition dtl_excise :: "dtl_env \<Rightarrow> u64 \<Rightarrow> vdev_node \<Rightarrow> vdev_node res" where
  "dtl_excise env scrub_txg vd =
     rbind (space_map_ref_add_map (de_ref_alloc env) (vdev_dtl vd DTL_MISSING) 1 space_map_ref_create) (\<lambda>reftree.
     rbind (space_map_ref_add_seg (de_ref_alloc env) 0 scrub_txg (-1) reftree) (\<lambda>reftree.
     rbind (space_map_ref_add_map (de_ref_alloc env) (vdev_dtl vd DTL_SCRUB) 2 reftree) (\<lambda>reftree.
     rbind (space_map_ref_generate_map (de_kernel env) reftree (vdev_dtl vd DTL_MISSING) 1) (\<lambda>sm.
     rbind (space_map_ref_destroy reftree) (\<lambda>_.
       Inr (set_dtl DTL_MISSING sm vd))))))"

definition dtl_vacate :: "vdev_dtl_type \<Rightarrow> vdev_node \<Rightarrow> vdev_node res" where
  "dtl_vacate t vd = rbind (space_map_vacate (vdev_dtl vd t) None ()) (\<lambda>(sm, _). Inr (set_dtl t sm vd))"

definition dtl_copy :: "dtl_env \<Rightarrow> vdev_dtl_type \<Rightarrow> vdev_dtl_type \<Rightarrow> vdev_node \<Rightarrow> vdev_node res" where
  "dtl_copy env s t vd =
     rbind (space_map_walk (vdev_dtl vd s) (add_func (de_kernel env)) (vdev_dtl vd t)) (\<lambda>sm. Inr (set_dtl t sm vd))"

definition dtl_reassess_leaf ::
  "dtl_env \<Rightarrow> vdev_node \<Rightarrow> u64 \<Rightarrow> u64 \<Rightarrow> bool \<Rightarrow> vdev_node \<Rightarrow> dirty_lists \<Rightarrow> (vdev_node \<times> dirty_lists) res" where
  "dtl_reassess_leaf env tvd txg scrub_txg scrub_done vd d =
     rbind (if scrub_txg \<noteq> 0 \<and> (spa_scrub_started env \<or> spa_scrub_errors env = 0) then dtl_excise env scrub_txg vd
            else Inr vd) (\<lambda>vd.
     rbind (dtl_vacate DTL_PARTIAL vd) (\<lambda>vd.
     rbind (dtl_copy env DTL_MISSING DTL_PARTIAL vd) (\<lambda>vd.
     rbind (if scrub_done then dtl_vacate DTL_SCRUB vd else Inr vd) (\<lambda>vd.
     rbind (dtl_vacate DTL_OUTAGE vd) (\<lambda>vd.
     rbind (if \<not> vdev_readable vd
            then rbind (space_map_add (de_kernel env) (vdev_dtl vd DTL_OUTAGE) 0 (-1)) (\<lambda>sm. Inr (set_dtl DTL_OUTAGE sm vd))
            else dtl_copy env DTL_MISSING DTL_OUTAGE vd) (\<lambda>vd.
     rbind (if txg \<noteq> 0 then vdev_dirty tvd VDD_DTL (vdev_self vd) txg d else Inr d) (\<lambda>d.
       Inr (vd, d))))))))"

text \<open>\<open>int minref\<close> is 32 bits wide, the parameter of \<open>space_map_ref_generate_map\<close> 64.\<close>

definition dtl_minref :: "vdev_node \<Rightarrow> nat \<Rightarrow> vdev_dtl_type \<Rightarrow> s64" where
  "dtl_minref vd children t =
     (let minref = (if t = DTL_PARTIAL then 1
                    else if vdev_nparity vd \<noteq> 0 then vdev_nparity vd + 1
                    else of_nat children)
      in signed_take_bit 31 minref)"

definition dtl_reassess_type ::
  "dtl_env \<Rightarrow> vdev list \<Rightarrow> vdev_dtl_type \<Rightarrow> vdev_node \<Rightarrow> vdev_node res" where
  "dtl_reassess_type env children t vd =
     (let s = (if t = DTL_MISSING then DTL_OUTAGE else t)
      in if t = DTL_SCRUB then Inr vd
         else
           rbind (foldM (\<lambda>cvd. space_map_ref_add_map (de_ref_alloc env) (vdev_dtl (vdev_info cvd) s) 1) children
                    space_map_ref_create) (\<lambda>reftree.
           rbind (space_map_ref_generate_map (de_kernel env) reftree (vdev_dtl vd t) (dtl_minref vd (length children) t)) (\<lambda>sm.
           rbind (space_map_ref_destroy reftree) (\<lambda>_.
             Inr (set_dtl t sm vd)))))"

fun vdev_dtl_reassess ::
  "dtl_env \<Rightarrow> vdev_node option \<Rightarrow> u64 \<Rightarrow> u64 \<Rightarrow> bool \<Rightarrow> vdev \<Rightarrow> dirty_lists \<Rightarrow> (vdev \<times> dirty_lists) res" where
  "vdev_dtl_reassess env tvd txg scrub_txg scrub_done (VDEV vd children) d =
     rbind (mapM (\<lambda>c. vdev_dtl_reassess env (case tvd of None \<Rightarrow> Some (vdev_info c) | Some t \<Rightarrow> Some t)
                       txg scrub_txg scrub_done c) children d) (\<lambda>(children, d).
     if vdev_self vd = spa_root_vdev env \<or> vdev_ishole vd \<or> vdev_aux vd \<noteq> None then Inr (VDEV vd children, d)
     else if vdev_op_leaf (vdev_ops_of vd) then
       rbind (deref tvd) (\<lambda>tvd.
       rbind (dtl_reassess_leaf env tvd txg scrub_txg scrub_done vd d) (\<lambda>(vd, d). Inr (VDEV vd children, d)))
     else
       rbind (foldM (dtl_reassess_type env children) [DTL_MISSING, DTL_PARTIAL, DTL_SCRUB, DTL_OUTAGE] vd) (\<lambda>vd.
         Inr (VDEV vd children, d)))"

text \<open>\<open>vd->vdev_cant_read = b\<close> for the structure at address \<open>a\<close>.\<close>

fun set_cant_read :: "addr \<Rightarrow> bool \<Rightarrow> vdev \<Rightarrow> vdev" where
  "set_cant_read a b (VDEV n children) =
     VDEV (if vdev_self n = a then n\<lparr>vdev_cant_read := b\<rparr> else n) (map (set_cant_read a b) children)"

text \<open>\<open>tvd\<close> is the top-level vdev of \<open>vd\<close>.\<close>

definition vdev_dtl_required :: "dtl_env \<Rightarrow> vdev_node \<Rightarrow> vdev \<Rightarrow> dirty_lists \<Rightarrow> (bool \<times> vdev \<times> dirty_lists) res" where
  "vdev_dtl_required env vd tvd d =
     (let cant_read = vdev_cant_read vd;
          tn = Some (vdev_info tvd)
      in if vdev_self vd = spa_root_vdev env \<or> vdev_self vd = vdev_self (vdev_info tvd) then Inr (True, tvd, d)
         else
           rbind (vdev_dtl_reassess env tn 0 0 False (set_cant_read (vdev_self vd) True tvd) d) (\<lambda>(tvd, d).
           let required = \<not> vdev_dtl_empty (vdev_info tvd) DTL_OUTAGE
           in rbind (vdev_dtl_reassess env tn 0 0 False (set_cant_read (vdev_self vd) cant_read tvd) d) (\<lambda>(tvd, d).
                Inr (required, tvd, d))))"

text \<open>\<open>*minp\<close> and \<open>*maxp\<close> are the second and third component, given if a resilver is needed.\<close>

fun vdev_resilver_needed :: "vdev \<Rightarrow> (u64 \<times> u64) option res" where
  "vdev_resilver_needed (VDEV vd children) =
     (if children = [] then
        (if sm_space (vdev_dtl vd DTL_MISSING) \<noteq> 0 \<and> vdev_writeable vd then
           (let sm = vdev_dtl vd DTL_MISSING
            in rbind (avl_first (sm_root sm)) (\<lambda>ss.
               rbind (deref ss) (\<lambda>ss.
               rbind (deref_seg sm ss) (\<lambda>first.
               rbind (avl_last (sm_root sm)) (\<lambda>ss.
               rbind (deref ss) (\<lambda>ss.
               rbind (deref_seg sm ss) (\<lambda>last.
                 Inr (Some (ss_start first - 1, ss_end last)))))))))
         else Inr None)
      else
        foldM (\<lambda>r this. rbind r (\<lambda>r.
           Inr (case r of
                  None \<Rightarrow> this
                | Some (cmin, cmax) \<Rightarrow>
                    Some (case this of None \<Rightarrow> (min (-1) cmin, max 0 cmax)
                          | Some (thismin, thismax) \<Rightarrow> (min thismin cmin, max thismax cmax)))))
          (map vdev_resilver_needed children) None)"

end
