(* ===== verification/Vdev_Dtl.thy ===== *)
theory Vdev_Dtl
  imports Vdev
begin

text \<open>
  Correctness of \<open>vdev_dtl_reassess\<close>: what the logs of every vdev of a tree are afterwards, as sets of transaction
  groups, and when data can be read.
\<close>

section \<open>The number of segments of a map\<close>

text \<open>The offsets where a run of a set starts.\<close>

definition runs :: "nat set \<Rightarrow> nat set" where
  "runs S = {p \<in> S. p = 0 \<or> p - 1 \<notin> S}"

lemma runs_numnodes:
  assumes "sm_inv sm"
  shows "avl_numnodes (sm_root sm) = card (runs (sm_set sm))"
proof -
  obtain xs where pre: "sm_pre sm xs (set xs)" using sm_inv_pre[OF assms] by metis
  let ?g = "seg_at sm"
  have tree: "avl_inv (sm_root sm) xs" "seg_list ?g xs" "distinct xs" using pre sm_pre_distinct by (auto simp: sm_pre_def)
  have set: "sm_set sm = (\<Union>a \<in> set xs. seg_set (?g a))" using sm_set_rep[OF pre] by (simp add: segs_set_def)
  have ne: "lo (?g a) < hi (?g a)" if "a \<in> set xs" for a using seg_listD[OF tree(2) that] .
  have apart: "hi (?g a) < lo (?g b) \<or> hi (?g b) < lo (?g a)" if "a \<in> set xs" "b \<in> set xs" "a \<noteq> b" for a b
    using seg_list_inj[OF tree(2,3) that] .
  have "runs (sm_set sm) = (\<lambda>a. lo (?g a)) ` set xs"
  proof (intro equalityI subsetI)
    fix p assume p: "p \<in> runs (sm_set sm)"
    then obtain a where a: "a \<in> set xs" "lo (?g a) \<le> p" "p < hi (?g a)" by (auto simp: runs_def set)
    have "p = lo (?g a)"
    proof (rule ccontr)
      assume "p \<noteq> lo (?g a)"
      then have "p - 1 \<in> seg_set (?g a)" "p \<noteq> 0" using a by auto
      then show False using p a(1) by (auto simp: runs_def set)
    qed
    then show "p \<in> (\<lambda>a. lo (?g a)) ` set xs" using a(1) by blast
  next
    fix p assume "p \<in> (\<lambda>a. lo (?g a)) ` set xs"
    then obtain a where a: "a \<in> set xs" "p = lo (?g a)" by blast
    have "p - 1 \<notin> seg_set (?g b)" if "b \<in> set xs" "p \<noteq> 0" for b
    proof (cases "b = a")
      case False
      then show ?thesis using apart[OF that(1) a(1)] ne[OF that(1)] ne[OF a(1)] a(2) by auto
    qed (use a(2) that(2) in auto)
    then show "p \<in> runs (sm_set sm)" using a ne[OF a(1)] by (auto simp: runs_def set)
  qed
  moreover have "inj_on (\<lambda>a. lo (?g a)) (set xs)"
    using apart ne by (intro inj_onI) (metis less_irrefl less_trans)
  ultimately show ?thesis using tree(3) avl_inv_numnodes[OF tree(1)] by (simp add: card_image distinct_card)
qed

lemma finite_runs: "sm_inv sm \<Longrightarrow> finite (runs (sm_set sm))"
proof -
  assume "sm_inv sm"
  then have "finite (sm_set sm)" using sm_inv_pre sm_set_rep finite_segs_set by (metis List.finite_set)
  then show ?thesis by (auto simp: runs_def)
qed

text \<open>Where a threshold is first reached, some set of the family starts a run.\<close>

lemma card_runs_list: "\<forall>S \<in> set Ss. finite (runs S) \<Longrightarrow> card (\<Union>S \<in> set Ss. runs S) \<le> (\<Sum>S\<leftarrow>Ss. card (runs S))"
proof (induction Ss)
  case (Cons S Ss)
  then show ?case using card_Un_le[of "runs S" "\<Union>S \<in> set Ss. runs S"] by auto
qed simp

lemma filter_length_mono: "\<forall>x \<in> set xs. P x \<longrightarrow> Q x \<Longrightarrow> length (filter P xs) \<le> length (filter Q xs)"
  by (induction xs) auto

lemma runs_count_subset:
  assumes "0 < m"
  shows "runs {p. m \<le> length (filter (\<lambda>S. p \<in> S) Ss)} \<subseteq> (\<Union>S \<in> set Ss. runs S)"
proof
  let ?c = "\<lambda>p. length (filter (\<lambda>S. p \<in> S) Ss)"
  fix p assume p: "p \<in> runs {p. m \<le> ?c p}"
  show "p \<in> (\<Union>S \<in> set Ss. runs S)"
  proof (rule ccontr)
    assume no: "p \<notin> (\<Union>S \<in> set Ss. runs S)"
    then have *: "p \<noteq> 0 \<and> p - 1 \<in> S" if "S \<in> set Ss" "p \<in> S" for S using that by (auto simp: runs_def)
    have "0 < ?c p" using p assms by (auto simp: runs_def)
    then obtain S where "S \<in> set Ss" "p \<in> S" by (metis filter_False length_0_conv less_irrefl)
    then have "p \<noteq> 0" using * by blast
    moreover have "?c p \<le> ?c (p - 1)" using * by (intro filter_length_mono) auto
    ultimately show False using p by (auto simp: runs_def)
  qed
qed

lemma runs_count:
  assumes "\<forall>S \<in> set Ss. finite (runs S)" "0 < m"
  shows "card (runs {p. m \<le> length (filter (\<lambda>S. p \<in> S) Ss)}) \<le> (\<Sum>S\<leftarrow>Ss. card (runs S))"
proof -
  have "finite (\<Union>S \<in> set Ss. runs S)" using assms(1) by auto
  then show ?thesis using card_mono[OF _ runs_count_subset[OF assms(2)]] card_runs_list[OF assms(1)] by (meson le_trans)
qed

lemma runs_Un: "runs (A \<union> B) \<subseteq> runs A \<union> runs B"
  by (auto simp: runs_def)

lemma runs_from: "runs (A - {..< s}) \<subseteq> runs A \<union> {s}"
proof
  fix p assume "p \<in> runs (A - {..< s})"
  then show "p \<in> runs A \<union> {s}" by (cases "p = s") (auto simp: runs_def)
qed

lemma runs_range: "0 < n \<Longrightarrow> card (runs {0 ..< n}) = 1"
proof -
  assume "0 < n"
  then have "runs {0 ..< n} = {0}" by (auto simp: runs_def)
  then show ?thesis by simp
qed

section \<open>Maps of transaction groups\<close>

definition dtl_map :: "space_map \<Rightarrow> bool" where
  "dtl_map sm \<longleftrightarrow> sm_inv sm \<and> sm_pp_root sm = None \<and> sm_geometry sm vdev_dtl_create"

abbreviation all_txgs :: "nat set" where
  "all_txgs \<equiv> {0 ..< 2 ^ 64 - 1}"

abbreviation nruns :: "space_map \<Rightarrow> nat" where
  "nruns sm \<equiv> card (runs (sm_set sm))"

lemma unat_minus_1_64: "unat (-1 :: u64) = 2 ^ 64 - 1"
  by (simp add: unsigned_minus_1_eq_mask mask_eq_exp_minus_1)

lemma dtl_fields:
  assumes "dtl_map sm"
  shows "sm_start sm = 0" "sm_size sm = -1" "sm_shift sm = 0"
  using assms by (simp_all add: dtl_map_def sm_geometry_def vdev_dtl_create_def space_map_create_def)

lemma dtl_map_same: "dtl_map sm \<Longrightarrow> sm_inv sm' \<Longrightarrow> sm_same sm sm' \<Longrightarrow> dtl_map sm'"
  by (auto simp: dtl_map_def sm_same_def sm_geometry_def)

lemma dtl_map_geometry: "dtl_map sm \<Longrightarrow> dtl_map sm' \<Longrightarrow> sm_geometry sm sm'"
  by (simp add: dtl_map_def sm_geometry_def)

lemma dtl_create_map: "dtl_map vdev_dtl_create" "sm_set vdev_dtl_create = {}"
proof -
  have "sm_inv vdev_dtl_create" "sm_set vdev_dtl_create = {}"
    unfolding vdev_dtl_create_def by (rule space_map_create_inv; simp add: unat_minus_1_64)+
  then show "dtl_map vdev_dtl_create" "sm_set vdev_dtl_create = {}"
    by (simp_all add: dtl_map_def sm_geometry_def vdev_dtl_create_def space_map_create_def)
qed

lemma set_dtl_simps [simp]:
  "vdev_dtl (set_dtl t sm vd) = (vdev_dtl vd)(t := sm)" "vdev_readable (set_dtl t sm vd) = vdev_readable vd"
  "vdev_self (set_dtl t sm vd) = vdev_self vd" "vdev_nparity (set_dtl t sm vd) = vdev_nparity vd"
  "set_dtl t sm (vd\<lparr>vdev_dtl := m\<rparr>) = vd\<lparr>vdev_dtl := m(t := sm)\<rparr>"
  by (simp_all add: set_dtl_def vdev_readable_def vdev_is_dead_def)

lemma readable_dtl [simp]: "vdev_readable (vd\<lparr>vdev_dtl := m\<rparr>) = vdev_readable vd"
  by (simp add: vdev_readable_def vdev_is_dead_def)

lemma dtl_vacate_inv:
  assumes "dtl_map (vdev_dtl vd t)"
  shows "\<exists>sm. dtl_vacate t vd = Inr (set_dtl t sm vd) \<and> dtl_map sm \<and> sm_set sm = {}"
proof -
  have "sm_inv (vdev_dtl vd t)" "sm_pp_root (vdev_dtl vd t) = None" using assms by (auto simp: dtl_map_def)
  then obtain sm where "space_map_vacate (vdev_dtl vd t) None () = Inr (sm, ())" "sm_inv sm" "sm_set sm = {}" "sm_same (vdev_dtl vd t) sm"
    using space_map_vacate_all[of "vdev_dtl vd t" "()"] by blast
  then show ?thesis using dtl_map_same[OF assms] by (intro exI[of _ sm]) (simp add: dtl_vacate_def)
qed

lemma dtl_copy_inv:
  assumes "dtl_map (vdev_dtl vd s)" "dtl_map (vdev_dtl vd t)" "sm_set (vdev_dtl vd t) = {}" "kmem_fresh (de_kernel env)"
  shows "\<exists>sm. dtl_copy env s t vd = Inr (set_dtl t sm vd) \<and> dtl_map sm \<and> sm_set sm = sm_set (vdev_dtl vd s)"
proof -
  have "sm_inv (vdev_dtl vd s)" "sm_inv (vdev_dtl vd t)" using assms by (auto simp: dtl_map_def)
  then obtain sm where "space_map_walk (vdev_dtl vd s) (add_func (de_kernel env)) (vdev_dtl vd t) = Inr sm" "sm_inv sm"
    "sm_set sm = sm_set (vdev_dtl vd t) \<union> sm_set (vdev_dtl vd s)" "sm_same (vdev_dtl vd t) sm"
    using space_map_walk_add[OF _ _ dtl_map_geometry[OF assms(1,2)] assms(4)] assms(3) by blast
  then show ?thesis using dtl_map_same[OF assms(2)] assms(3) by (intro exI[of _ sm]) (simp add: dtl_copy_def)
qed

lemma dtl_excise_inv:
  assumes maps: "dtl_map (vdev_dtl vd DTL_MISSING)" "dtl_map (vdev_dtl vd DTL_SCRUB)"
    and fresh: "kmem_fresh (de_kernel env)" "alloc_fresh (de_ref_alloc env)" and txg: "scrub_txg \<noteq> -1"
    and few: "nruns (vdev_dtl vd DTL_MISSING) + nruns (vdev_dtl vd DTL_SCRUB) < 2 ^ 60"
  shows "\<exists>sm. dtl_excise env scrub_txg vd = Inr (set_dtl DTL_MISSING sm vd) \<and> dtl_map sm
     \<and> sm_set sm = sm_set (vdev_dtl vd DTL_MISSING) - {..< unat scrub_txg} \<union> sm_set (vdev_dtl vd DTL_SCRUB)"
proof -
  let ?M = "vdev_dtl vd DTL_MISSING" and ?S = "vdev_dtl vd DTL_SCRUB" and ?al = "de_ref_alloc env"
  let ?f1 = "\<lambda>p. 0 + (if p \<in> sm_set ?M then sint (1 :: s64) else 0)"
  let ?f2 = "\<lambda>p. ?f1 p + (if p \<in> {unat (0 :: u64) ..< unat scrub_txg} then sint (-1 :: s64) else 0)"
  let ?f3 = "\<lambda>p. ?f2 p + (if p \<in> sm_set ?S then sint (2 :: s64) else 0)"
  have inv: "sm_inv ?M" "sm_inv ?S" "sm_pp_root ?M = None" using maps by (auto simp: dtl_map_def)
  have geo: "sm_geometry ?M ?M" "sm_geometry ?S ?M" using maps by (auto intro: dtl_map_geometry)
  have s: "sint (1 :: s64) = 1" "sint (-1 :: s64) = -1" "sint (2 :: s64) = 2" by simp_all
  let ?B1 = "0 + 2 * \<bar>sint (1 :: s64)\<bar> * int (avl_numnodes (sm_root ?M))"
  let ?B2 = "?B1 + 2 * \<bar>sint (-1 :: s64)\<bar>"
  let ?B3 = "?B2 + 2 * \<bar>sint (2 :: s64)\<bar> * int (avl_numnodes (sm_root ?S))"
  obtain r1 where r1: "space_map_ref_add_map ?al ?M 1 space_map_ref_create = Inr r1" "ref_rep ?M r1 ?f1 ?B1"
    using ref_add_map[OF ref_create_rep inv(1) geo(1) fresh(2), of 1] by auto
  have "ref_ok ?M \<lparr>sr_offset = 0, sr_refcnt = -1\<rparr>" "ref_ok ?M \<lparr>sr_offset = scrub_txg, sr_refcnt = - (-1)\<rparr>"
    using txg dtl_fields[OF maps(1)] unat_less_64[of scrub_txg] by (simp_all add: ref_ok_def unat_minus_1_64)
  then obtain r2 where r2: "space_map_ref_add_seg ?al 0 scrub_txg (-1) r1 = Inr r2" "ref_rep ?M r2 ?f2 ?B2"
    using ref_add_seg[OF r1(2) fresh(2), of 0 scrub_txg "-1"] by auto
  obtain r3 where r3: "space_map_ref_add_map ?al ?S 2 r2 = Inr r3" "ref_rep ?M r3 ?f3 ?B3"
    using ref_add_map[OF r2(2) inv(2) geo(2) fresh(2), of 2] by auto
  have "?B3 < 2 ^ 63" using few unfolding runs_numnodes[OF inv(1)] runs_numnodes[OF inv(2)] s by simp
  then obtain sm where sm: "space_map_ref_generate_map (de_kernel env) r3 ?M 1 = Inr sm" "sm_inv sm"
    "sm_set sm = {p. ?f3 p \<ge> sint (1 :: s64)}" "sm_same ?M sm"
    using ref_generate_map[OF r3(2) _ inv(1,3) geo(1) fresh(1), of 1] by auto
  obtain xs where "ref_inv r3 xs" using r3(2) by (auto simp: ref_rep_def)
  then obtain r4 where "space_map_ref_destroy r3 = Inr r4" using ref_destroy by blast
  then have "dtl_excise env scrub_txg vd = Inr (set_dtl DTL_MISSING sm vd)"
    using r1(1) r2(1) r3(1) sm(1) by (simp add: dtl_excise_def)
  moreover have "sm_set sm = sm_set ?M - {..< unat scrub_txg} \<union> sm_set ?S"
    unfolding sm(3) s by auto
  ultimately show ?thesis using dtl_map_same[OF maps(1) sm(2,4)] by blast
qed

section \<open>What the logs are afterwards\<close>

definition leaf_missing :: "dtl_env \<Rightarrow> u64 \<Rightarrow> vdev_node \<Rightarrow> nat set" where
  "leaf_missing env scrub_txg vd =
     (if scrub_txg \<noteq> 0 \<and> (spa_scrub_started env \<or> spa_scrub_errors env = 0)
      then sm_set (vdev_dtl vd DTL_MISSING) - {..< unat scrub_txg} \<union> sm_set (vdev_dtl vd DTL_SCRUB)
      else sm_set (vdev_dtl vd DTL_MISSING))"

primrec leaf_spec :: "dtl_env \<Rightarrow> u64 \<Rightarrow> bool \<Rightarrow> vdev_node \<Rightarrow> vdev_dtl_type \<Rightarrow> nat set" where
  "leaf_spec env scrub_txg scrub_done vd DTL_MISSING = leaf_missing env scrub_txg vd"
| "leaf_spec env scrub_txg scrub_done vd DTL_PARTIAL = leaf_missing env scrub_txg vd"
| "leaf_spec env scrub_txg scrub_done vd DTL_SCRUB = (if scrub_done then {} else sm_set (vdev_dtl vd DTL_SCRUB))"
| "leaf_spec env scrub_txg scrub_done vd DTL_OUTAGE =
     (if vdev_readable vd then leaf_missing env scrub_txg vd else all_txgs)"

text \<open>How many children may be missing before data is: none for the partial log, \<open>nparity\<close>, or all but one.\<close>

definition minref_nat :: "vdev_node \<Rightarrow> nat \<Rightarrow> vdev_dtl_type \<Rightarrow> nat" where
  "minref_nat vd children t =
     (if t = DTL_PARTIAL then 1 else if vdev_nparity vd \<noteq> 0 then unat (vdev_nparity vd) + 1 else children)"

fun dtl_spec :: "dtl_env \<Rightarrow> u64 \<Rightarrow> bool \<Rightarrow> vdev \<Rightarrow> vdev_dtl_type \<Rightarrow> nat set" where
  "dtl_spec env scrub_txg scrub_done (VDEV vd children) t =
     (if vdev_op_leaf (vdev_ops_of vd) then leaf_spec env scrub_txg scrub_done vd t
      else if t = DTL_SCRUB then sm_set (vdev_dtl vd DTL_SCRUB)
      else {p. minref_nat vd (length children) t
                 \<le> length (filter (\<lambda>c. p \<in> dtl_spec env scrub_txg scrub_done c (if t = DTL_MISSING then DTL_OUTAGE else t)) children)})"

fun vdev_wf :: "dtl_env \<Rightarrow> vdev \<Rightarrow> bool" where
  "vdev_wf env (VDEV vd children) \<longleftrightarrow>
     (\<forall>t. dtl_map (vdev_dtl vd t)) \<and> vdev_self vd \<noteq> spa_root_vdev env \<and> \<not> vdev_ishole vd \<and> vdev_aux vd = None
     \<and> (if vdev_op_leaf (vdev_ops_of vd) then children = []
        else children \<noteq> [] \<and> length children < 2 ^ 31 \<and> unat (vdev_nparity vd) < 2 ^ 30 \<and> (\<forall>c \<in> set children. vdev_wf env c))"

text \<open>A bound on the number of segments of the logs below a vdev.\<close>

fun seg_bound :: "vdev \<Rightarrow> nat" where
  "seg_bound (VDEV vd children) =
     (if vdev_op_leaf (vdev_ops_of vd) then nruns (vdev_dtl vd DTL_MISSING) + nruns (vdev_dtl vd DTL_SCRUB) + 1
      else (\<Sum>c\<leftarrow>children. seg_bound c))"

lemma vdev_dirty_dtl: "\<not> vdev_ishole tvd \<Longrightarrow> \<exists>d'. vdev_dirty tvd VDD_DTL a txg d = Inr d'"
  by (simp add: vdev_dirty_def ISP2_def VDD_DTL_def Let_def)

lemma dtl_leaf_inv:
  assumes maps: "\<forall>t. dtl_map (vdev_dtl vd t)" and fresh: "kmem_fresh (de_kernel env)" "alloc_fresh (de_ref_alloc env)"
    and txg: "scrub_txg \<noteq> -1" and few: "nruns (vdev_dtl vd DTL_MISSING) + nruns (vdev_dtl vd DTL_SCRUB) < 2 ^ 60"
    and hole: "\<not> vdev_ishole tvd"
  shows "\<exists>m d'. dtl_reassess_leaf env tvd txg scrub_txg scrub_done vd d = Inr (vd\<lparr>vdev_dtl := m\<rparr>, d')
     \<and> (\<forall>t. dtl_map (m t) \<and> sm_set (m t) = leaf_spec env scrub_txg scrub_done vd t) \<and> (txg = 0 \<longrightarrow> d' = d)"
proof -
  let ?D = "vdev_dtl vd" and ?k = "de_kernel env"
  let ?miss = "leaf_missing env scrub_txg vd"
  have "\<exists>m1. (if scrub_txg \<noteq> 0 \<and> (spa_scrub_started env \<or> spa_scrub_errors env = 0) then dtl_excise env scrub_txg vd else Inr vd)
      = Inr (set_dtl DTL_MISSING m1 vd) \<and> dtl_map m1 \<and> sm_set m1 = ?miss"
  proof (cases "scrub_txg \<noteq> 0 \<and> (spa_scrub_started env \<or> spa_scrub_errors env = 0)")
    case True
    then show ?thesis using dtl_excise_inv[OF _ _ fresh txg few] maps by (simp add: leaf_missing_def)
  next
    case False
    have "vd = set_dtl DTL_MISSING (?D DTL_MISSING) vd" by (simp add: set_dtl_def)
    with False show ?thesis using maps by (intro exI[of _ "?D DTL_MISSING"]) (auto simp: leaf_missing_def)
  qed
  then obtain m1 where m1: "(if scrub_txg \<noteq> 0 \<and> (spa_scrub_started env \<or> spa_scrub_errors env = 0) then dtl_excise env scrub_txg vd
      else Inr vd) = Inr (set_dtl DTL_MISSING m1 vd)" "dtl_map m1" "sm_set m1 = ?miss" by (elim exE conjE)
  let ?v1 = "set_dtl DTL_MISSING m1 vd"
  obtain m2 where m2: "dtl_vacate DTL_PARTIAL ?v1 = Inr (set_dtl DTL_PARTIAL m2 ?v1)" "dtl_map m2" "sm_set m2 = {}"
    using dtl_vacate_inv[of ?v1 DTL_PARTIAL] maps by auto
  let ?v2 = "set_dtl DTL_PARTIAL m2 ?v1"
  obtain m3 where m3: "dtl_copy env DTL_MISSING DTL_PARTIAL ?v2 = Inr (set_dtl DTL_PARTIAL m3 ?v2)" "dtl_map m3" "sm_set m3 = ?miss"
    using dtl_copy_inv[of ?v2 DTL_MISSING DTL_PARTIAL, OF _ _ _ fresh(1)] m1(2,3) m2(2,3) by auto
  let ?v3 = "set_dtl DTL_PARTIAL m3 ?v2"
  have "\<exists>m4. (if scrub_done then dtl_vacate DTL_SCRUB ?v3 else Inr ?v3) = Inr (set_dtl DTL_SCRUB m4 ?v3) \<and> dtl_map m4
      \<and> sm_set m4 = (if scrub_done then {} else sm_set (?D DTL_SCRUB))"
  proof (cases scrub_done)
    case True
    then show ?thesis using dtl_vacate_inv[of ?v3 DTL_SCRUB] maps by auto
  next
    case False
    have "?v3 = set_dtl DTL_SCRUB (?D DTL_SCRUB) ?v3" by (simp add: set_dtl_def fun_eq_iff)
    with False show ?thesis using maps by (intro exI[of _ "?D DTL_SCRUB"]) simp
  qed
  then obtain m4 where m4: "(if scrub_done then dtl_vacate DTL_SCRUB ?v3 else Inr ?v3) = Inr (set_dtl DTL_SCRUB m4 ?v3)" "dtl_map m4"
      "sm_set m4 = (if scrub_done then {} else sm_set (?D DTL_SCRUB))" by (elim exE conjE)
  let ?v4 = "set_dtl DTL_SCRUB m4 ?v3"
  obtain m5 where m5: "dtl_vacate DTL_OUTAGE ?v4 = Inr (set_dtl DTL_OUTAGE m5 ?v4)" "dtl_map m5" "sm_set m5 = {}"
    using dtl_vacate_inv[of ?v4 DTL_OUTAGE] maps by auto
  let ?v5 = "set_dtl DTL_OUTAGE m5 ?v4"
  have "\<exists>m6. (if \<not> vdev_readable ?v5
        then rbind (space_map_add ?k (vdev_dtl ?v5 DTL_OUTAGE) 0 (-1)) (\<lambda>sm. Inr (set_dtl DTL_OUTAGE sm ?v5))
        else dtl_copy env DTL_MISSING DTL_OUTAGE ?v5) = Inr (set_dtl DTL_OUTAGE m6 ?v5) \<and> dtl_map m6
      \<and> sm_set m6 = (if vdev_readable vd then ?miss else all_txgs)"
  proof (cases "vdev_readable vd")
    case True
    then show ?thesis
      using dtl_copy_inv[of ?v5 DTL_MISSING DTL_OUTAGE, OF _ _ _ fresh(1)] m1(2,3) m5(2,3) by auto
  next
    case False
    have "sm_inv m5" "sm_range m5 0 (-1)" using m5(2) dtl_fields[OF m5(2)] by (auto simp: dtl_map_def sm_range_def)
    then obtain m6 where "space_map_add ?k m5 0 (-1) = Inr m6" "sm_inv m6" "sm_set m6 = range_set 0 (-1)" "sm_same m5 m6"
      using space_map_add_inv[where sm = m5 and start = 0 and size' = "-1", OF _ fresh(1)] m5(3) by auto
    then show ?thesis
      using False dtl_map_same[OF m5(2)] by (intro exI[of _ m6]) (simp add: unat_minus_1_64)
  qed
  then obtain m6 where m6: "(if \<not> vdev_readable ?v5
        then rbind (space_map_add ?k (vdev_dtl ?v5 DTL_OUTAGE) 0 (-1)) (\<lambda>sm. Inr (set_dtl DTL_OUTAGE sm ?v5))
        else dtl_copy env DTL_MISSING DTL_OUTAGE ?v5) = Inr (set_dtl DTL_OUTAGE m6 ?v5)" "dtl_map m6"
      "sm_set m6 = (if vdev_readable vd then ?miss else all_txgs)" by (elim exE conjE)
  let ?v6 = "set_dtl DTL_OUTAGE m6 ?v5"
  obtain d' where d': "(if txg \<noteq> 0 then vdev_dirty tvd VDD_DTL (vdev_self ?v6) txg d else Inr d) = Inr d'" "txg = 0 \<longrightarrow> d' = d"
    using vdev_dirty_dtl[OF hole] by (cases "txg = 0") fastforce+
  have run: "dtl_reassess_leaf env tvd txg scrub_txg scrub_done vd d = Inr (?v6, d')"
    unfolding dtl_reassess_leaf_def m1(1) rbind.simps m2(1) m3(1) m4(1) m5(1) m6(1) d'(1) ..
  let ?m = "(?D)(DTL_MISSING := m1, DTL_PARTIAL := m3, DTL_SCRUB := m4, DTL_OUTAGE := m6)"
  have v6: "?v6 = vd\<lparr>vdev_dtl := ?m\<rparr>" by (simp add: set_dtl_def fun_eq_iff)
  have "dtl_map (?m t) \<and> sm_set (?m t) = leaf_spec env scrub_txg scrub_done vd t" for t
    using m1(2,3) m3(2,3) m4(2,3) m6(2,3) by (cases t) simp_all
  then show ?thesis using run d'(2) unfolding v6 by blast
qed

lemma sint_small: "unat x < 2 ^ 31 \<Longrightarrow> sint (signed_take_bit 31 x) = int (unat x)" for x :: s64
proof -
  assume x: "unat x < 2 ^ 31"
  then have t: "take_bit 31 x = x" by (simp add: word_unat_eq_iff unat_take_bit_64)
  have "\<not> bit (take_bit 31 x) i" if "31 \<le> i" for i using that by (simp add: bit_take_bit_iff)
  then have nb: "\<not> bit x i" if "31 \<le> i" for i using that unfolding t by blast
  have eq: "signed_take_bit 31 x = x" by (rule bit_eqI) (use nb in \<open>auto simp: bit_signed_take_bit_iff min_def\<close>)
  have "int (unat x) < int (2 ^ 31)" using x by (simp only: of_nat_less_iff)
  then have hi: "uint x < 2 ^ 63" by simp
  have lo: "- (2 ^ 63) \<le> uint x" by (rule order_trans[of _ 0]) simp_all
  have "signed_take_bit 63 (uint x) = uint x" by (rule signed_take_bit_int_eq_self[OF lo hi])
  then show ?thesis unfolding eq by (simp add: sint_uint)
qed

lemma dtl_minref_sint:
  assumes "children < 2 ^ 31" "unat (vdev_nparity vd) < 2 ^ 30"
  shows "sint (dtl_minref vd children t) = int (minref_nat vd children t)"
proof -
  let ?x = "if t = DTL_PARTIAL then 1 else if vdev_nparity vd \<noteq> 0 then vdev_nparity vd + 1 else of_nat children :: s64"
  have "unat (vdev_nparity vd + 1) = unat (vdev_nparity vd) + 1" using assms(2) by (subst unat_add_no_wrap) simp_all
  moreover have "unat (of_nat children :: s64) = children" using assms(1) by (simp add: unat_of_nat_64)
  ultimately have "unat ?x = minref_nat vd children t" by (simp add: minref_nat_def)
  moreover have "minref_nat vd children t < 2 ^ 31" using assms by (simp add: minref_nat_def)
  ultimately show ?thesis using sint_small[of ?x] by (simp add: dtl_minref_def Let_def)
qed

lemma dtl_type_inv:
  fixes t defines "s \<equiv> if t = DTL_MISSING then DTL_OUTAGE else t"
  assumes map: "dtl_map (vdev_dtl vd t)" and cmaps: "\<forall>c \<in> set children. dtl_map (vdev_dtl (vdev_info c) s)"
    and fresh: "kmem_fresh (de_kernel env)" "alloc_fresh (de_ref_alloc env)" and t: "t \<noteq> DTL_SCRUB"
    and n: "children \<noteq> []" "length children < 2 ^ 31" "unat (vdev_nparity vd) < 2 ^ 30"
    and few: "(\<Sum>c\<leftarrow>children. nruns (vdev_dtl (vdev_info c) s)) < 2 ^ 60"
  shows "\<exists>sm. dtl_reassess_type env children t vd = Inr (set_dtl t sm vd) \<and> dtl_map sm
     \<and> sm_set sm = {p. minref_nat vd (length children) t \<le> length (filter (\<lambda>c. p \<in> sm_set (vdev_dtl (vdev_info c) s)) children)}"
proof -
  let ?ms = "map (\<lambda>c. vdev_dtl (vdev_info c) s) children" and ?al = "de_ref_alloc env" and ?d = "vdev_dtl vd t"
  let ?m = "dtl_minref vd (length children) t"
  have inv: "sm_inv ?d" "sm_pp_root ?d = None" "sm_geometry ?d ?d" using map by (auto simp: dtl_map_def sm_geometry_def)
  have ms: "\<forall>sm \<in> set ?ms. sm_inv sm \<and> sm_geometry sm ?d" using cmaps map dtl_map_geometry by (auto simp: dtl_map_def)
  have num: "(\<Sum>sm\<leftarrow>?ms. avl_numnodes (sm_root sm)) = (\<Sum>c\<leftarrow>children. nruns (vdev_dtl (vdev_info c) s))"
    using ms runs_numnodes by (auto intro!: arg_cong[where f = sum_list])
  obtain rt where rt: "foldM (\<lambda>sm. space_map_ref_add_map ?al sm 1) ?ms space_map_ref_create = Inr rt"
    "ref_rep ?d rt (\<lambda>p. 0 + int (length (filter (\<lambda>sm. p \<in> sm_set sm) ?ms))) (0 + 2 * int (\<Sum>sm\<leftarrow>?ms. avl_numnodes (sm_root sm)))"
    using ref_add_maps[OF ref_create_rep ms fresh(2)] by blast
  have "0 + 2 * int (\<Sum>sm\<leftarrow>?ms. avl_numnodes (sm_root sm)) < 2 ^ 63" unfolding num using few by simp
  moreover have m: "sint ?m = int (minref_nat vd (length children) t)" by (rule dtl_minref_sint[OF n(2,3)])
  then have "0 < sint ?m" using n(1) by (simp add: minref_nat_def)
  ultimately obtain sm where sm: "space_map_ref_generate_map (de_kernel env) rt ?d ?m = Inr sm" "sm_inv sm" "sm_same ?d sm"
    "sm_set sm = {p. 0 + int (length (filter (\<lambda>sm. p \<in> sm_set sm) ?ms)) \<ge> sint ?m}"
    using ref_generate_map[OF rt(2) _ inv fresh(1)] by blast
  obtain xs where "ref_inv rt xs" using rt(2) by (auto simp: ref_rep_def)
  then obtain rt' where "space_map_ref_destroy rt = Inr rt'" using ref_destroy by blast
  moreover have "foldM (\<lambda>cvd. space_map_ref_add_map ?al (vdev_dtl (vdev_info cvd) s) 1) children space_map_ref_create = Inr rt"
    using rt(1) unfolding foldM_map .
  ultimately have "dtl_reassess_type env children t vd = Inr (set_dtl t sm vd)"
    using sm(1) t by (simp add: dtl_reassess_type_def Let_def s_def)
  moreover have "sm_set sm = {p. minref_nat vd (length children) t \<le> length (filter (\<lambda>c. p \<in> sm_set (vdev_dtl (vdev_info c) s)) children)}"
    unfolding sm(4) m by (simp add: filter_map comp_def)
  ultimately show ?thesis using dtl_map_same[OF map sm(2,3)] by blast
qed

section \<open>Whole trees\<close>

lemma mapM_all2:
  assumes "\<And>c d. c \<in> set cs \<Longrightarrow> \<exists>c' d'. f c d = Inr (c', d') \<and> Q c c' \<and> P d d'" "\<And>d. P d d" "\<And>a b c. P a b \<Longrightarrow> P b c \<Longrightarrow> P a c"
  shows "\<exists>cs' d'. mapM f cs d = Inr (cs', d') \<and> list_all2 Q cs cs' \<and> P d d'"
  using assms(1)
proof (induction cs arbitrary: d)
  case Nil
  then show ?case using assms(2) by simp
next
  case (Cons c cs)
  obtain c' d1 where c: "f c d = Inr (c', d1)" "Q c c'" "P d d1" using Cons.prems[of c d] by auto
  obtain cs' d2 where "mapM f cs d1 = Inr (cs', d2)" "list_all2 Q cs cs'" "P d1 d2" using Cons.IH[of d1] Cons.prems by auto
  then show ?case using c assms(3)[OF c(3)] by auto
qed

text \<open>The tree after the call: the same devices, with the logs that the specification says.\<close>

fun dtl_updated :: "(vdev \<Rightarrow> vdev_dtl_type \<Rightarrow> nat set) \<Rightarrow> vdev \<Rightarrow> vdev \<Rightarrow> bool" where
  "dtl_updated spec (VDEV vd children) (VDEV vd' children') \<longleftrightarrow>
     vd' = vd\<lparr>vdev_dtl := vdev_dtl vd'\<rparr> \<and> (\<forall>t. sm_set (vdev_dtl vd' t) = spec (VDEV vd children) t)
     \<and> list_all2 (dtl_updated spec) children children'"

lemma leaf_spec_runs:
  assumes "\<forall>t. dtl_map (vdev_dtl vd t)"
  shows "finite (runs (leaf_spec env scrub_txg scrub_done vd t))"
    "card (runs (leaf_spec env scrub_txg scrub_done vd t)) \<le> nruns (vdev_dtl vd DTL_MISSING) + nruns (vdev_dtl vd DTL_SCRUB) + 1"
proof -
  let ?M = "sm_set (vdev_dtl vd DTL_MISSING)" and ?S = "sm_set (vdev_dtl vd DTL_SCRUB)"
  have fin: "finite (runs ?M)" "finite (runs ?S)" using assms finite_runs by (auto simp: dtl_map_def)
  have "runs (?M - {..< s} \<union> ?S) \<subseteq> insert s (runs ?M) \<union> runs ?S" for s using runs_Un runs_from by blast
  moreover have "card (insert s (runs ?M) \<union> runs ?S) \<le> card (runs ?M) + card (runs ?S) + 1" for s
    using card_Un_le[of "insert s (runs ?M)" "runs ?S"] card_insert_le_m1[of "Suc (card (runs ?M))" "runs ?M" s] by simp
  ultimately have sub: "finite (runs (?M - {..< s} \<union> ?S))" "card (runs (?M - {..< s} \<union> ?S)) \<le> card (runs ?M) + card (runs ?S) + 1" for s
    using fin by (meson finite_UnI finite_insert finite_subset card_mono le_trans)+
  then have miss: "finite (runs (leaf_missing env scrub_txg vd))" "card (runs (leaf_missing env scrub_txg vd)) \<le> card (runs ?M) + card (runs ?S) + 1"
    using fin by (auto simp: leaf_missing_def)
  have "finite (runs all_txgs)" by (simp add: runs_def)
  then show "finite (runs (leaf_spec env scrub_txg scrub_done vd t))"
    using miss(1) fin by (cases t) (auto simp: runs_def)
  show "card (runs (leaf_spec env scrub_txg scrub_done vd t)) \<le> card (runs ?M) + card (runs ?S) + 1"
    using miss(2) runs_range[of "2 ^ 64 - 1"] by (cases t) (auto simp: runs_def)
qed

lemma spec_runs:
  assumes "vdev_wf env v" "t \<noteq> DTL_SCRUB"
  shows "finite (runs (dtl_spec env scrub_txg scrub_done v t)) \<and> card (runs (dtl_spec env scrub_txg scrub_done v t)) \<le> seg_bound v"
  using assms
proof (induction v arbitrary: t)
  case (VDEV vd cs)
  show ?case
  proof (cases "vdev_op_leaf (vdev_ops_of vd)")
    case True
    have "\<forall>t. dtl_map (vdev_dtl vd t)" using VDEV.prems(1) by simp
    from leaf_spec_runs[OF this] show ?thesis using True by simp
  next
    case False
    let ?s = "if t = DTL_MISSING then DTL_OUTAGE else t"
    let ?Ss = "map (\<lambda>c. dtl_spec env scrub_txg scrub_done c ?s) cs"
    have IH: "finite (runs (dtl_spec env scrub_txg scrub_done c ?s)) \<and> card (runs (dtl_spec env scrub_txg scrub_done c ?s)) \<le> seg_bound c"
      if "c \<in> set cs" for c using VDEV.IH[OF that] VDEV.prems False that by auto
    have pos: "0 < minref_nat vd (length cs) t" using VDEV.prems(1) False by (auto simp: minref_nat_def)
    have set: "dtl_spec env scrub_txg scrub_done (VDEV vd cs) t = {p. minref_nat vd (length cs) t \<le> length (filter (\<lambda>S. p \<in> S) ?Ss)}"
      using False VDEV.prems(2) by (simp add: filter_map comp_def)
    have fin: "\<forall>S \<in> set ?Ss. finite (runs S)" using IH by auto
    have "(\<Sum>S\<leftarrow>?Ss. card (runs S)) \<le> (\<Sum>c\<leftarrow>cs. seg_bound c)" using IH by (simp add: comp_def sum_list_mono)
    then have "card (runs (dtl_spec env scrub_txg scrub_done (VDEV vd cs) t)) \<le> seg_bound (VDEV vd cs)"
      unfolding set using runs_count[OF fin pos] False by simp
    moreover have "finite (runs (dtl_spec env scrub_txg scrub_done (VDEV vd cs) t))"
      unfolding set by (rule finite_subset[OF runs_count_subset[OF pos]]) (use fin in auto)
    ultimately show ?thesis by blast
  qed
qed

lemma minref_dtl [simp]: "minref_nat (vd\<lparr>vdev_dtl := m\<rparr>) n t = minref_nat vd n t" "minref_nat (set_dtl u sm vd) n t = minref_nat vd n t"
  by (simp_all add: minref_nat_def)

lemma dtl_updated_info:
  "dtl_updated spec v v' \<Longrightarrow> vdev_info v' = (vdev_info v)\<lparr>vdev_dtl := vdev_dtl (vdev_info v')\<rparr>
     \<and> (\<forall>t. sm_set (vdev_dtl (vdev_info v') t) = spec v t)"
  by (cases v; cases v') simp

lemma vdev_dtl_reassess_inv:
  assumes "vdev_wf env v" "kmem_fresh (de_kernel env)" "alloc_fresh (de_ref_alloc env)" "scrub_txg \<noteq> -1"
    and "seg_bound v < 2 ^ 60" "\<not> vdev_ishole tn"
  shows "\<exists>v' d'. vdev_dtl_reassess env (Some tn) txg scrub_txg scrub_done v d = Inr (v', d')
     \<and> (dtl_updated (dtl_spec env scrub_txg scrub_done) v v' \<and> vdev_wf env v') \<and> (txg = 0 \<longrightarrow> d' = d)"
  using assms(1,5)
proof (induction v arbitrary: d)
  case (VDEV vd cs)
  let ?spec = "dtl_spec env scrub_txg scrub_done"
  let ?run = "vdev_dtl_reassess env (Some tn) txg scrub_txg scrub_done"
  have wf: "\<forall>t. dtl_map (vdev_dtl vd t)" "vdev_self vd \<noteq> spa_root_vdev env" "\<not> vdev_ishole vd" "vdev_aux vd = None"
    using VDEV.prems(1) by auto
  show ?case
  proof (cases "vdev_op_leaf (vdev_ops_of vd)")
    case True
    then have cs: "cs = []" and few: "nruns (vdev_dtl vd DTL_MISSING) + nruns (vdev_dtl vd DTL_SCRUB) < 2 ^ 60"
      using VDEV.prems by auto
    obtain m d' where m: "dtl_reassess_leaf env tn txg scrub_txg scrub_done vd d = Inr (vd\<lparr>vdev_dtl := m\<rparr>, d')"
      "\<forall>t. dtl_map (m t) \<and> sm_set (m t) = leaf_spec env scrub_txg scrub_done vd t" "txg = 0 \<longrightarrow> d' = d"
      using dtl_leaf_inv[OF wf(1) assms(2-4) few assms(6)] by blast
    have "?run (VDEV vd cs) d = Inr (VDEV (vd\<lparr>vdev_dtl := m\<rparr>) [], d')"
      using True cs wf(2-4) m(1) by simp
    then show ?thesis using True cs wf(2-4) m(2,3) by (intro exI[of _ "VDEV (vd\<lparr>vdev_dtl := m\<rparr>) []"] exI[of _ d']) simp
  next
    case False
    have cs: "cs \<noteq> []" "length cs < 2 ^ 31" "unat (vdev_nparity vd) < 2 ^ 30" "\<forall>c \<in> set cs. vdev_wf env c"
      "(\<Sum>c\<leftarrow>cs. seg_bound c) < 2 ^ 60"
      using VDEV.prems False by auto
    have "seg_bound c \<le> (\<Sum>c\<leftarrow>cs. seg_bound c)" if "c \<in> set cs" for c
      using that by (simp add: member_le_sum_list)
    then have IH: "\<exists>v' d'. ?run c d = Inr (v', d') \<and> (dtl_updated ?spec c v' \<and> vdev_wf env v') \<and> (txg = 0 \<longrightarrow> d' = d)"
      if "c \<in> set cs" for c d using VDEV.IH[OF that] cs(4,5) that by (meson le_less_trans)
    have "\<exists>cs' d'. mapM ?run cs d = Inr (cs', d') \<and> list_all2 (\<lambda>c v'. dtl_updated ?spec c v' \<and> vdev_wf env v') cs cs'
        \<and> (txg = 0 \<longrightarrow> d' = d)"
    proof (rule mapM_all2[where P = "\<lambda>d d'. txg = 0 \<longrightarrow> d' = d"])
      show "\<exists>c' d'. ?run c d = Inr (c', d') \<and> (dtl_updated ?spec c c' \<and> vdev_wf env c') \<and> (txg = 0 \<longrightarrow> d' = d)"
        if "c \<in> set cs" for c d using IH[OF that] .
    qed simp_all
    then obtain cs' d' where cs': "mapM ?run cs d = Inr (cs', d')" "list_all2 (\<lambda>c v'. dtl_updated ?spec c v' \<and> vdev_wf env v') cs cs'"
      "txg = 0 \<longrightarrow> d' = d" by (elim exE conjE)
    have len: "length cs' = length cs" using cs'(2) by (auto dest: list_all2_lengthD)
    have wf': "\<forall>c \<in> set cs'. vdev_wf env c" and upd: "list_all2 (dtl_updated ?spec) cs cs'"
      using cs'(2) by (auto simp: list_all2_conv_all_nth set_conv_nth)
    then have cmaps: "\<forall>c \<in> set cs'. dtl_map (vdev_dtl (vdev_info c) s)" for s by (metis vdev.collapse vdev_wf.simps)
    have sets: "map (\<lambda>c. sm_set (vdev_dtl (vdev_info c) s)) cs' = map (\<lambda>c. ?spec c s) cs" for s
      using upd dtl_updated_info by (intro nth_equalityI) (auto simp: list_all2_conv_all_nth)
    have few: "(\<Sum>c\<leftarrow>cs'. nruns (vdev_dtl (vdev_info c) s)) < 2 ^ 60" if "s \<noteq> DTL_SCRUB" for s
    proof -
      have "(\<Sum>c\<leftarrow>cs'. nruns (vdev_dtl (vdev_info c) s)) = (\<Sum>S\<leftarrow>map (\<lambda>c. sm_set (vdev_dtl (vdev_info c) s)) cs'. card (runs S))"
        by (simp add: comp_def)
      also have "\<dots> = (\<Sum>c\<leftarrow>cs. card (runs (?spec c s)))" unfolding sets by (simp add: comp_def)
      also have "\<dots> \<le> (\<Sum>c\<leftarrow>cs. seg_bound c)" using spec_runs[OF _ that] cs(4) by (intro sum_list_mono) blast
      finally show ?thesis using cs(5) by simp
    qed
    have count: "length (filter (\<lambda>c. p \<in> sm_set (vdev_dtl (vdev_info c) s)) cs') = length (filter (\<lambda>c. p \<in> ?spec c s) cs)" for p s
    proof -
      have "length (filter (\<lambda>S. p \<in> S) (map (\<lambda>c. sm_set (vdev_dtl (vdev_info c) s)) cs')) = length (filter (\<lambda>S. p \<in> S) (map (\<lambda>c. ?spec c s) cs))"
        unfolding sets ..
      then show ?thesis by (simp add: filter_map comp_def)
    qed
    have type: "\<exists>sm. dtl_reassess_type env cs' t v = Inr (set_dtl t sm v) \<and> dtl_map sm \<and> sm_set sm = ?spec (VDEV vd cs) t"
      if "t \<noteq> DTL_SCRUB" "dtl_map (vdev_dtl v t)" "vdev_nparity v = vdev_nparity vd" for t v
    proof -
      have s: "(if t = DTL_MISSING then DTL_OUTAGE else t) \<noteq> DTL_SCRUB" using that(1) by simp
      have n: "cs' \<noteq> []" "length cs' < 2 ^ 31" "unat (vdev_nparity v) < 2 ^ 30" using cs(1-3) len that(3) by auto
      have "minref_nat v (length cs') t = minref_nat vd (length cs) t" using that(3) len by (simp add: minref_nat_def)
      then show ?thesis
        using dtl_type_inv[OF that(2) cmaps assms(2,3) that(1) n few[OF s]] False that(1) unfolding count by simp
    qed
    obtain m1 where m1: "dtl_reassess_type env cs' DTL_MISSING vd = Inr (set_dtl DTL_MISSING m1 vd)" "dtl_map m1"
      "sm_set m1 = ?spec (VDEV vd cs) DTL_MISSING" using type[of DTL_MISSING vd] wf(1) by auto
    obtain m2 where m2: "dtl_reassess_type env cs' DTL_PARTIAL (set_dtl DTL_MISSING m1 vd) = Inr (set_dtl DTL_PARTIAL m2 (set_dtl DTL_MISSING m1 vd))"
      "dtl_map m2" "sm_set m2 = ?spec (VDEV vd cs) DTL_PARTIAL" using type[of DTL_PARTIAL "set_dtl DTL_MISSING m1 vd"] wf(1) by auto
    let ?v2 = "set_dtl DTL_PARTIAL m2 (set_dtl DTL_MISSING m1 vd)"
    obtain m4 where m4: "dtl_reassess_type env cs' DTL_OUTAGE ?v2 = Inr (set_dtl DTL_OUTAGE m4 ?v2)"
      "dtl_map m4" "sm_set m4 = ?spec (VDEV vd cs) DTL_OUTAGE" using type[of DTL_OUTAGE ?v2] wf(1) by auto
    let ?m = "(vdev_dtl vd)(DTL_MISSING := m1, DTL_PARTIAL := m2, DTL_OUTAGE := m4)"
    have scrub: "dtl_reassess_type env cs' DTL_SCRUB v = Inr v" for v by (simp add: dtl_reassess_type_def)
    have eq: "set_dtl DTL_OUTAGE m4 ?v2 = vd\<lparr>vdev_dtl := ?m\<rparr>" by (simp add: set_dtl_def)
    have fold: "foldM (dtl_reassess_type env cs') [DTL_MISSING, DTL_PARTIAL, DTL_SCRUB, DTL_OUTAGE] vd = Inr (vd\<lparr>vdev_dtl := ?m\<rparr>)"
      using m1(1) m2(1) m4(1) scrub unfolding eq by simp
    have res: "?run (VDEV vd cs) d = Inr (VDEV (vd\<lparr>vdev_dtl := ?m\<rparr>) cs', d')"
      using False wf(2-4) cs'(1) fold by simp
    have "dtl_map (?m t) \<and> sm_set (?m t) = ?spec (VDEV vd cs) t" for t
      using m1(2,3) m2(2,3) m4(2,3) wf(1) False by (cases t) simp_all
    then show ?thesis
      using res False wf(2-4) cs cs'(3) wf' upd len
      by (intro exI[of _ "VDEV (vd\<lparr>vdev_dtl := ?m\<rparr>) cs'"] exI[of _ d']) auto
  qed
qed

section \<open>Reading data\<close>

text \<open>
  Data of transaction group \<open>p\<close> can be read: from a leaf that is readable and has it, from a mirror if one child can
  read it, from a RAID-Z vdev if no more than \<open>nparity\<close> children cannot.
\<close>

fun readable_at :: "nat \<Rightarrow> vdev \<Rightarrow> bool" where
  "readable_at p (VDEV vd children) \<longleftrightarrow>
     (if vdev_op_leaf (vdev_ops_of vd) then vdev_readable vd \<and> p \<notin> sm_set (vdev_dtl vd DTL_MISSING)
      else if vdev_nparity vd \<noteq> 0
        then length (filter (\<lambda>c. \<not> readable_at p c) children) \<le> unat (vdev_nparity vd)
      else \<exists>c \<in> set children. readable_at p c)"

lemma length_filter_all: "length xs \<le> length (filter P xs) \<longleftrightarrow> (\<forall>x \<in> set xs. P x)"
proof (induction xs)
  case (Cons x xs)
  have "length (filter P xs) \<le> length xs" by (rule length_filter_le)
  then have "\<not> Suc (length xs) \<le> length (filter P xs)" by linarith
  then show ?case using Cons.IH by simp
qed simp

lemma outage_readable:
  assumes "vdev_wf env v" "p < 2 ^ 64 - 1"
  shows "p \<in> dtl_spec env 0 False v DTL_OUTAGE \<longleftrightarrow> \<not> readable_at p v"
  using assms(1)
proof (induction v)
  case (VDEV vd cs)
  show ?case
  proof (cases "vdev_op_leaf (vdev_ops_of vd)")
    case True
    then show ?thesis using assms(2) by (simp add: leaf_missing_def)
  next
    case False
    have "\<forall>c \<in> set cs. p \<in> dtl_spec env 0 False c DTL_OUTAGE \<longleftrightarrow> \<not> readable_at p c" using VDEV False by auto
    then have "filter (\<lambda>c. p \<in> dtl_spec env 0 False c DTL_OUTAGE) cs = filter (\<lambda>c. \<not> readable_at p c) cs"
      by (intro filter_cong) auto
    then show ?thesis using False by (auto simp: minref_nat_def length_filter_all)
  qed
qed

lemma outage_bounded:
  assumes "vdev_wf env v"
  shows "dtl_spec env 0 False v DTL_OUTAGE \<subseteq> all_txgs"
  using assms
proof (induction v)
  case (VDEV vd cs)
  show ?case
  proof (cases "vdev_op_leaf (vdev_ops_of vd)")
    case True
    have "dtl_map (vdev_dtl vd DTL_MISSING)" using VDEV.prems by simp
    then have "sm_inv (vdev_dtl vd DTL_MISSING)" "sm_start (vdev_dtl vd DTL_MISSING) = 0" "sm_size (vdev_dtl vd DTL_MISSING) = -1"
      using dtl_fields by (auto simp: dtl_map_def)
    then have "sm_set (vdev_dtl vd DTL_MISSING) \<subseteq> all_txgs" using sm_set_range[of "vdev_dtl vd DTL_MISSING"] by (simp add: unat_minus_1_64)
    then show ?thesis using True by (simp add: leaf_missing_def)
  next
    case False
    have "\<exists>c \<in> set cs. p \<in> dtl_spec env 0 False c DTL_OUTAGE" if "p \<in> dtl_spec env 0 False (VDEV vd cs) DTL_OUTAGE" for p
    proof (rule ccontr)
      assume "\<not> (\<exists>c \<in> set cs. p \<in> dtl_spec env 0 False c DTL_OUTAGE)"
      then have "filter (\<lambda>c. p \<in> dtl_spec env 0 False c DTL_OUTAGE) cs = []" by (simp add: filter_empty_conv)
      then show False using that False VDEV.prems by (auto simp: minref_nat_def split: if_splits)
    qed
    then show ?thesis using VDEV False by fastforce
  qed
qed

section \<open>Asking whether a device is needed\<close>

lemma cant_read_info [simp]:
  "vdev_ops_of (if b then n\<lparr>vdev_cant_read := c\<rparr> else n) = vdev_ops_of n" "vdev_dtl (if b then n\<lparr>vdev_cant_read := c\<rparr> else n) = vdev_dtl n"
  "vdev_self (if b then n\<lparr>vdev_cant_read := c\<rparr> else n) = vdev_self n" "vdev_ishole (if b then n\<lparr>vdev_cant_read := c\<rparr> else n) = vdev_ishole n"
  "vdev_aux (if b then n\<lparr>vdev_cant_read := c\<rparr> else n) = vdev_aux n" "vdev_nparity (if b then n\<lparr>vdev_cant_read := c\<rparr> else n) = vdev_nparity n"
  by simp_all

lemma set_cant_read_wf [simp]: "vdev_wf env (set_cant_read a b v) = vdev_wf env v"
  by (induction v) auto

lemma set_cant_read_bound [simp]: "seg_bound (set_cant_read a b v) = seg_bound v"
proof (induction v)
  case (VDEV vd cs)
  then have "map (seg_bound \<circ> set_cant_read a b) cs = map seg_bound cs" by simp
  then show ?case by (simp del: map_eq_conv)
qed

fun cant_read_is :: "addr \<Rightarrow> bool \<Rightarrow> vdev \<Rightarrow> bool" where
  "cant_read_is a b (VDEV n children) \<longleftrightarrow> (vdev_self n = a \<longrightarrow> vdev_cant_read n = b) \<and> (\<forall>c \<in> set children. cant_read_is a b c)"

lemma updated_bound:
  "dtl_updated (dtl_spec env 0 False) v v' \<Longrightarrow> seg_bound v' = seg_bound v"
proof (induction v arbitrary: v')
  case (VDEV vd cs)
  obtain vd' cs' where v': "v' = VDEV vd' cs'" by (cases v')
  have u: "vd' = vd\<lparr>vdev_dtl := vdev_dtl vd'\<rparr>" "\<forall>t. sm_set (vdev_dtl vd' t) = dtl_spec env 0 False (VDEV vd cs) t"
    "list_all2 (dtl_updated (dtl_spec env 0 False)) cs cs'" using VDEV.prems v' by auto
  have ops: "vdev_ops_of vd' = vdev_ops_of vd" by (subst u(1)) simp
  have "map seg_bound cs' = map seg_bound cs"
    using u(3) VDEV.IH by (intro nth_equalityI) (auto simp: list_all2_conv_all_nth)
  then show ?case using u(2) ops by (simp add: v' leaf_missing_def del: map_eq_conv)
qed

lemma readable_restore:
  assumes "dtl_updated (dtl_spec env 0 False) (set_cant_read a True v) v1" "cant_read_is a b v"
  shows "readable_at p (set_cant_read a b v1) = readable_at p v"
  using assms
proof (induction v arbitrary: v1)
  case (VDEV vd cs)
  obtain vd1 cs1 where v1: "v1 = VDEV vd1 cs1" by (cases v1)
  let ?vd = "if vdev_self vd = a then vd\<lparr>vdev_cant_read := True\<rparr> else vd"
  have u: "vd1 = ?vd\<lparr>vdev_dtl := vdev_dtl vd1\<rparr>" "\<forall>t. sm_set (vdev_dtl vd1 t) = dtl_spec env 0 False (VDEV ?vd (map (set_cant_read a True) cs)) t"
    "list_all2 (dtl_updated (dtl_spec env 0 False)) (map (set_cant_read a True) cs) cs1" using VDEV.prems(1) v1 by auto
  have f: "vdev_ops_of vd1 = vdev_ops_of vd" "vdev_nparity vd1 = vdev_nparity vd" "vdev_self vd1 = vdev_self vd"
    "vdev_state vd1 = vdev_state vd" "vdev_ishole vd1 = vdev_ishole vd" "vdev_self vd \<noteq> a \<Longrightarrow> vdev_cant_read vd1 = vdev_cant_read vd"
    by (subst u(1); simp)+
  have "\<forall>i < length cs. readable_at p (set_cant_read a b (cs1 ! i)) = readable_at p (cs ! i)"
    using u(3) VDEV.IH VDEV.prems(2) by (auto simp: list_all2_conv_all_nth)
  moreover have len: "length cs1 = length cs" using u(3) by (auto dest: list_all2_lengthD)
  ultimately have maps: "map (\<lambda>c. readable_at p (set_cant_read a b c)) cs1 = map (readable_at p) cs"
    by (intro nth_equalityI) auto
  have "length (filter Not (map (\<lambda>c. readable_at p (set_cant_read a b c)) cs1)) = length (filter Not (map (readable_at p) cs))"
    "(True \<in> set (map (\<lambda>c. readable_at p (set_cant_read a b c)) cs1)) = (True \<in> set (map (readable_at p) cs))"
    unfolding maps by simp_all
  then have kids: "length (filter (\<lambda>c. \<not> readable_at p (set_cant_read a b c)) cs1) = length (filter (\<lambda>c. \<not> readable_at p c) cs)"
    "(\<exists>c \<in> set cs1. readable_at p (set_cant_read a b c)) = (\<exists>c \<in> set cs. readable_at p c)"
    by (auto simp: filter_map comp_def image_iff)
  let ?vd2 = "if vdev_self vd1 = a then vd1\<lparr>vdev_cant_read := b\<rparr> else vd1"
  have "vdev_readable ?vd2 = vdev_readable vd"
    using f VDEV.prems(2) by (auto simp: vdev_readable_def vdev_is_dead_def)
  then show ?case
    using f(1,2) u(2) kids by (simp add: v1 filter_map comp_def leaf_missing_def del: map_eq_conv)
qed

lemma vdev_dtl_required_inv:
  assumes wf: "vdev_wf env tvd" and fresh: "kmem_fresh (de_kernel env)" "alloc_fresh (de_ref_alloc env)"
    and few: "seg_bound tvd < 2 ^ 60"
    and vd: "vdev_self vd \<noteq> spa_root_vdev env" "vdev_self vd \<noteq> vdev_self (vdev_info tvd)" "cant_read_is (vdev_self vd) (vdev_cant_read vd) tvd"
  obtains tvd' where "vdev_dtl_required env vd tvd d
       = Inr (\<exists>p < 2 ^ 64 - 1. \<not> readable_at p (set_cant_read (vdev_self vd) True tvd), tvd', d)" "vdev_wf env tvd'"
    "sm_set (vdev_dtl (vdev_info tvd') DTL_OUTAGE) = {p. p < 2 ^ 64 - 1 \<and> \<not> readable_at p tvd}"
proof -
  let ?a = "vdev_self vd" and ?b = "vdev_cant_read vd" and ?spec = "dtl_spec env 0 False" and ?tn = "vdev_info tvd"
  have hole: "\<not> vdev_ishole ?tn" using wf by (cases tvd) simp
  have outage: "?spec v DTL_OUTAGE = {p. p < 2 ^ 64 - 1 \<and> \<not> readable_at p v}" if "vdev_wf env v" for v
    using outage_readable[OF that] outage_bounded[OF that] by auto
  let ?v0 = "set_cant_read ?a True tvd"
  obtain v1 where v1: "vdev_dtl_reassess env (Some ?tn) 0 0 False ?v0 d = Inr (v1, d)" "dtl_updated ?spec ?v0 v1" "vdev_wf env v1"
    using vdev_dtl_reassess_inv[of env ?v0 0 ?tn 0 False d] wf fresh few hole by auto
  let ?v2 = "set_cant_read ?a ?b v1"
  have "seg_bound v1 < 2 ^ 60" using updated_bound[OF v1(2)] few by simp
  then obtain v3 where v3: "vdev_dtl_reassess env (Some ?tn) 0 0 False ?v2 d = Inr (v3, d)" "dtl_updated ?spec ?v2 v3" "vdev_wf env v3"
    using vdev_dtl_reassess_inv[of env ?v2 0 ?tn 0 False d] v1(3) fresh hole by auto
  have inv1: "sm_inv (vdev_dtl (vdev_info v1) DTL_OUTAGE)" using v1(3) by (cases v1) (simp add: dtl_map_def)
  have "vdev_dtl_empty (vdev_info v1) DTL_OUTAGE \<longleftrightarrow> ?spec ?v0 DTL_OUTAGE = {}"
    using sm_inv_empty_space[OF inv1] dtl_updated_info[OF v1(2)] by (simp add: vdev_dtl_empty_def)
  then have req: "(\<not> vdev_dtl_empty (vdev_info v1) DTL_OUTAGE) = (\<exists>p < 2 ^ 64 - 1. \<not> readable_at p ?v0)"
    using outage[of ?v0] wf by auto
  have "sm_set (vdev_dtl (vdev_info v3) DTL_OUTAGE) = {p. p < 2 ^ 64 - 1 \<and> \<not> readable_at p ?v2}"
    using dtl_updated_info[OF v3(2)] outage[of ?v2] v1(3) by simp
  then have "sm_set (vdev_dtl (vdev_info v3) DTL_OUTAGE) = {p. p < 2 ^ 64 - 1 \<and> \<not> readable_at p tvd}"
    unfolding readable_restore[OF v1(2) vd(3)] .
  moreover have "vdev_dtl_required env vd tvd d = Inr (\<exists>p < 2 ^ 64 - 1. \<not> readable_at p ?v0, v3, d)"
    using vd(1,2) v1(1) v3(1) req by (simp add: vdev_dtl_required_def Let_def)
  ultimately show ?thesis using that v3(3) by blast
qed

end
