(* ===== verification/Vdev_Properties.thy ===== *)
theory Vdev_Properties
  imports Vdev_Dtl Space_Ref_Properties
begin

text \<open>What the dirty time logs guarantee. \<open>dtl_spec\<close> gives every log of a tree of devices as a set of transaction groups.\<close>

text \<open>A mirror of two disks, of which the second fails all reads.\<close>

definition example_env :: dtl_env where
  "example_env = \<lparr>de_kernel = example_kernel, de_ref_alloc = ref_alloc_example, spa_root_vdev = 1, spa_scrub_started = False,
     spa_scrub_errors = 0\<rparr>"

definition example_disk :: "addr \<Rightarrow> bool \<Rightarrow> vdev_node" where
  "example_disk a bad = \<lparr>vdev_self = a, vdev_id = 0, vdev_guid = of_nat a, vdev_asize = 2 ^ 30, vdev_min_asize = 0, vdev_ashift = 9,
     vdev_ms_shift = 24, vdev_state = VDEV_STATE_HEALTHY, vdev_ops_of = vdev_disk_ops, vdev_dtl = (\<lambda>_. vdev_dtl_create),
     vdev_dtl_smo = \<lparr>smo_object = 0, smo_objsize = 0, smo_alloc = 0\<rparr>, vdev_nparity = 0, vdev_ishole = False, vdev_aux = None,
     vdev_removing = False, vdev_detached = False, vdev_cant_read = bad, vdev_cant_write = False\<rparr>"

definition example_mirror :: vdev where
  "example_mirror = VDEV ((example_disk 2 False)\<lparr>vdev_ops_of := vdev_mirror_ops\<rparr>)
     [VDEV (example_disk 3 False) [], VDEV (example_disk 4 True) []]"

lemma example_mirror_wf: "vdev_wf example_env example_mirror"
  by (simp add: example_mirror_def example_disk_def example_env_def dtl_create_map)

lemma example_mirror_bound: "seg_bound example_mirror < 2 ^ 60"
  by (simp add: example_mirror_def example_disk_def dtl_create_map runs_def)

lemma example_env_fresh: "kmem_fresh (de_kernel example_env)" "alloc_fresh (de_ref_alloc example_env)"
  using example_kernel_fresh ref_alloc_example_fresh by (simp_all add: example_env_def)

lemma example_readable:
  "readable_at p (set_cant_read 3 b example_mirror) \<longleftrightarrow> \<not> b" "readable_at p example_mirror"
  by (simp_all add: example_mirror_def example_disk_def vdev_readable_def vdev_is_dead_def VDEV_STATE_HEALTHY_def
      VDEV_STATE_DEGRADED_def dtl_create_map)

text \<open>
  C23: \<open>vdev_dtl_reassess\<close> on the tree of a top-level vdev returns and sets the logs of every vdev of the tree. On a leaf, if
  \<open>scrub_txg\<close> is not 0 and the scrub was started since the pool was loaded or had no errors, the missing log is emptied below
  \<open>scrub_txg\<close> and the scrub log is folded into it; otherwise the missing log stays. The partial log becomes the missing log, the scrub log is emptied if
  \<open>scrub_done\<close> and else kept, and the outage log becomes everything if the leaf cannot be read and else the missing log. On a mirror or
  RAID-Z vdev both the missing and the outage log become the transaction groups in the outage logs of all children (mirror) or of more than
  \<open>nparity\<close> of them (RAID-Z), the partial log becomes the union of the children's partial logs, and the scrub log is left as it was. Nothing but the
  logs of the tree changes in it.
\<close>

theorem vdev_dtl_reassess_spec:
  assumes "vdev_wf env v" "kmem_fresh (de_kernel env)" "alloc_fresh (de_ref_alloc env)" "scrub_txg \<noteq> -1"
    and "seg_bound v < 2 ^ 60" "\<not> vdev_ishole tn"
  shows "\<exists>v' d'. vdev_dtl_reassess env (Some tn) txg scrub_txg scrub_done v d = Inr (v', d')
     \<and> dtl_updated (dtl_spec env scrub_txg scrub_done) v v' \<and> vdev_wf env v'"
  using vdev_dtl_reassess_inv[OF assms] by blast

theorem vdev_dtl_reassess_spec_witness:
  "\<forall>d. \<exists>v' d'. vdev_dtl_reassess example_env (Some (vdev_info example_mirror)) 7 5 True example_mirror d = Inr (v', d')
     \<and> dtl_updated (dtl_spec example_env 5 True) example_mirror v'"
proof
  fix d
  have "\<not> vdev_ishole (vdev_info example_mirror)" by (simp add: example_mirror_def example_disk_def)
  then show "\<exists>v' d'. vdev_dtl_reassess example_env (Some (vdev_info example_mirror)) 7 5 True example_mirror d = Inr (v', d')
     \<and> dtl_updated (dtl_spec example_env 5 True) example_mirror v'"
    using vdev_dtl_reassess_spec[OF example_mirror_wf example_env_fresh _ example_mirror_bound, of 5 "vdev_info example_mirror" 7 True d] by auto
qed

text \<open>
  C24: \<open>vdev_dtl_required\<close> returns, and answers that a device is needed exactly if without it some transaction group
  could not be read from the top-level vdev, where a mirror needs one readable child that has the data and a RAID-Z vdev all but \<open>nparity\<close>.
  So a device that is not required can be taken away without losing data. The device's flag is restored and the outage log of
  the top-level vdev is that of the tree as it was.
\<close>

theorem vdev_dtl_required_safe:
  assumes "vdev_wf env tvd" "kmem_fresh (de_kernel env)" "alloc_fresh (de_ref_alloc env)" "seg_bound tvd < 2 ^ 60"
    and "vdev_self vd \<noteq> spa_root_vdev env" "vdev_self vd \<noteq> vdev_self (vdev_info tvd)" "cant_read_is (vdev_self vd) (vdev_cant_read vd) tvd"
  shows "\<exists>required tvd'. vdev_dtl_required env vd tvd d = Inr (required, tvd', d)
     \<and> (required \<longleftrightarrow> (\<exists>p < 2 ^ 64 - 1. \<not> readable_at p (set_cant_read (vdev_self vd) True tvd)))
     \<and> vdev_wf env tvd' \<and> sm_set (vdev_dtl (vdev_info tvd') DTL_OUTAGE) = {p. p < 2 ^ 64 - 1 \<and> \<not> readable_at p tvd}"
proof -
  obtain tvd' where "vdev_dtl_required env vd tvd d
       = Inr (\<exists>p < 2 ^ 64 - 1. \<not> readable_at p (set_cant_read (vdev_self vd) True tvd), tvd', d)" "vdev_wf env tvd'"
    "sm_set (vdev_dtl (vdev_info tvd') DTL_OUTAGE) = {p. p < 2 ^ 64 - 1 \<and> \<not> readable_at p tvd}"
    using vdev_dtl_required_inv[OF assms] .
  then show ?thesis by blast
qed

theorem vdev_dtl_required_safe_witness:
  "\<forall>d. \<exists>tvd'. vdev_dtl_required example_env (example_disk 3 False) example_mirror d = Inr (True, tvd', d)
     \<and> sm_set (vdev_dtl (vdev_info tvd') DTL_OUTAGE) = {}"
proof
  fix d
  have "vdev_self (example_disk 3 False) \<noteq> spa_root_vdev example_env"
    "vdev_self (example_disk 3 False) \<noteq> vdev_self (vdev_info example_mirror)"
    "cant_read_is (vdev_self (example_disk 3 False)) (vdev_cant_read (example_disk 3 False)) example_mirror"
    by (simp_all add: example_mirror_def example_disk_def example_env_def)
  from vdev_dtl_required_safe[OF example_mirror_wf example_env_fresh example_mirror_bound this, of d]
  obtain required tvd' where r: "vdev_dtl_required example_env (example_disk 3 False) example_mirror d = Inr (required, tvd', d)"
    "required \<longleftrightarrow> (\<exists>p < 2 ^ 64 - 1 :: nat. \<not> readable_at p (set_cant_read (vdev_self (example_disk 3 False)) True example_mirror))"
    "sm_set (vdev_dtl (vdev_info tvd') DTL_OUTAGE) = {p. p < 2 ^ 64 - 1 \<and> \<not> readable_at p example_mirror}" by blast
  have "vdev_self (example_disk 3 False) = 3" by (simp add: example_disk_def)
  then have "required" using r(2) example_readable(1)[of _ True] by (metis nat_zero_less_power_iff one_less_numeral_iff
      one_less_power semiring_norm(76) zero_less_diff zero_less_numeral)
  then show "\<exists>tvd'. vdev_dtl_required example_env (example_disk 3 False) example_mirror d = Inr (True, tvd', d)
     \<and> sm_set (vdev_dtl (vdev_info tvd') DTL_OUTAGE) = {}"
    using r(1,3) example_readable(2) by auto
qed

end
