(* ===== verification/Metaslab.thy ===== *)
theory Metaslab
  imports Metaslab_Load Vdev Blkptr
begin

text \<open>
  Metaslabs (\<open>uts/common/fs/zfs/metaslab.c\<close>, \<open>sys/metaslab_impl.h\<close>): classes, groups and metaslabs, their weights,
  activation, and the two steps of a sync. The structures live in a heap (\<open>pool\<close>); a pointer that the code
  does not test is an address, one that may be NULL an \<open>addr option\<close>. Locks are not modelled: each routine is one step.
\<close>

section \<open>Data\<close>

record metaslab_class =
  mc_rotor :: "addr option"
  mc_ops :: sm_ops_table
  mc_aliquot :: u64
  mc_alloc :: u64
  mc_deferred :: u64
  mc_space :: u64
  mc_dspace :: u64

record metaslab_group =
  mg_metaslab_tree :: avl_tree
  mg_aliquot :: u64
  mg_bonus_area :: u64
  mg_bias :: s64
  mg_activation_count :: s64
  mg_class :: addr
  mg_vd :: addr
  mg_prev :: "addr option"
  mg_next :: "addr option"

record metaslab =
  ms_smo :: space_map_obj
  ms_smo_syncing :: space_map_obj
  ms_allocmap :: "nat \<Rightarrow> space_map"
  ms_freemap :: "nat \<Rightarrow> space_map"
  ms_defermap :: "nat \<Rightarrow> space_map"
  ms_map :: space_map
  ms_deferspace :: s64
  ms_weight :: u64
  ms_group :: "addr option"

record vdev_stat =
  vs_alloc :: u64
  vs_space :: u64
  vs_dspace :: u64
  vs_write_errors :: u64

text \<open>The state of a top-level vdev that metaslabs use; \<open>tv_tree\<close> is the vdev with its children.\<close>

record top_vdev =
  tv_tree :: vdev
  vdev_ms_array :: u64
  vdev_ms_count :: u64
  vdev_mg :: "addr option"
  vdev_ms :: "addr list"
  tv_ms_list :: txg_list
  tv_dtl_list :: txg_list
  vdev_deflate_ratio :: u64
  vdev_isl2cache :: bool
  vdev_stat_of :: vdev_stat

record 'os pool =
  p_ms :: "addr \<Rightarrow> metaslab"
  p_mg :: "addr \<Rightarrow> metaslab_group"
  p_mc :: "addr \<Rightarrow> metaslab_class"
  p_vd :: "addr \<Rightarrow> top_vdev"
  p_top :: "addr list"
  p_root_stat :: vdev_stat
  p_vdev_txg_list :: txg_list
  p_config_dirty :: "addr list"
  p_os :: 'os

text \<open>
  What the code uses of the rest of the system: memory, the DMU object set (the MOS), waiting for another thread, and
  what it reads of the pool.
\<close>

record 'os ms_env =
  me_kernel :: kernel
  me_dmu :: "'os dmu"
  me_object_alloc :: "'os \<Rightarrow> u64 \<times> 'os"
  me_bonus_write :: "u64 \<Rightarrow> space_map_obj \<Rightarrow> 'os \<Rightarrow> int \<times> 'os"
  me_cv_wait :: "space_map \<Rightarrow> space_map"
  metaslab_debug :: bool
  spa_sync_pass :: u64
  spa_normal_class :: addr
  spa_deflate :: bool
  spa_freeze_txg :: u64
  spa_writeable :: bool
  spa_syncing_txg :: u64
  spa_version :: u64
  me_object_free :: "u64 \<Rightarrow> 'os \<Rightarrow> int \<times> 'os"
  me_bonus_read :: "u64 \<Rightarrow> 'os \<Rightarrow> int \<times> space_map_obj"
  ddi_get_lbolt :: u64

abbreviation node_of :: "top_vdev \<Rightarrow> vdev_node" where
  "node_of vd \<equiv> vdev_info (tv_tree vd)"

definition upd_ms :: "addr \<Rightarrow> (metaslab \<Rightarrow> metaslab) \<Rightarrow> 'os pool \<Rightarrow> 'os pool" where
  "upd_ms a f p = p\<lparr>p_ms := (p_ms p)(a := f (p_ms p a))\<rparr>"

definition upd_mg :: "addr \<Rightarrow> (metaslab_group \<Rightarrow> metaslab_group) \<Rightarrow> 'os pool \<Rightarrow> 'os pool" where
  "upd_mg a f p = p\<lparr>p_mg := (p_mg p)(a := f (p_mg p a))\<rparr>"

definition upd_mc :: "addr \<Rightarrow> (metaslab_class \<Rightarrow> metaslab_class) \<Rightarrow> 'os pool \<Rightarrow> 'os pool" where
  "upd_mc a f p = p\<lparr>p_mc := (p_mc p)(a := f (p_mc p a))\<rparr>"

definition upd_vd :: "addr \<Rightarrow> (top_vdev \<Rightarrow> top_vdev) \<Rightarrow> 'os pool \<Rightarrow> 'os pool" where
  "upd_vd a f p = p\<lparr>p_vd := (p_vd p)(a := f (p_vd p a))\<rparr>"

text \<open>Memory from \<open>kmem_zalloc\<close>.\<close>

definition zero_map :: space_map where
  "zero_map = space_map_create 0 0 0 True"

definition zero_smo :: space_map_obj where
  "zero_smo = \<lparr>smo_object = 0, smo_objsize = 0, smo_alloc = 0\<rparr>"

section \<open>Metaslab classes\<close>

definition metaslab_aliquot :: u64 where
  "metaslab_aliquot = push_bit 10 512"

definition metaslab_class_create :: "addr \<Rightarrow> sm_ops_table \<Rightarrow> 'os pool \<Rightarrow> 'os pool" where
  "metaslab_class_create mc ops p =
     upd_mc mc (\<lambda>_. \<lparr>mc_rotor = None, mc_ops = ops, mc_aliquot = 0, mc_alloc = 0, mc_deferred = 0, mc_space = 0, mc_dspace = 0\<rparr>) p"

definition metaslab_class_destroy :: "metaslab_class \<Rightarrow> unit res" where
  "metaslab_class_destroy mc =
     ASSERT (mc_rotor mc = None) (
     ASSERT (mc_alloc mc = 0) (
     ASSERT (mc_deferred mc = 0) (
     ASSERT (mc_space mc = 0) (
     ASSERT (mc_dspace mc = 0) (Inr ())))))"

partial_function (option) class_validate_loop :: "'os pool \<Rightarrow> addr \<Rightarrow> addr option \<Rightarrow> int res option" where
  "class_validate_loop p mc mg =
     (case mg of
        None \<Rightarrow> Some (Inl NullDeref)
      | Some mg \<Rightarrow>
          let vd = p_vd p (mg_vd (p_mg p mg))
          in if vdev_mg vd \<noteq> None \<and> mg_class (p_mg p mg) = mc \<and> vdev_ops_of (node_of vd) \<noteq> vdev_hole_ops then
               (let mg = mg_next (p_mg p mg)
                in if mg = mc_rotor (p_mc p mc) then Some (Inr 0) else class_validate_loop p mc mg)
             else Some (Inl AssertFailed))"

definition metaslab_class_validate :: "'os pool \<Rightarrow> addr \<Rightarrow> int res" where
  "metaslab_class_validate p mc =
     (case mc_rotor (p_mc p mc) of
        None \<Rightarrow> Inr 0
      | Some mg \<Rightarrow> rbind (of_loop (class_validate_loop p mc (Some mg))) id)"

definition metaslab_class_space_update :: "addr \<Rightarrow> s64 \<Rightarrow> s64 \<Rightarrow> s64 \<Rightarrow> s64 \<Rightarrow> 'os pool \<Rightarrow> 'os pool" where
  "metaslab_class_space_update mc alloc_delta defer_delta space_delta dspace_delta p =
     upd_mc mc (\<lambda>c. c\<lparr>mc_alloc := mc_alloc c + alloc_delta, mc_deferred := mc_deferred c + defer_delta,
       mc_space := mc_space c + space_delta, mc_dspace := mc_dspace c + dspace_delta\<rparr>) p"

definition metaslab_class_get_alloc :: "metaslab_class \<Rightarrow> u64" where
  "metaslab_class_get_alloc mc = mc_alloc mc"

definition metaslab_class_get_deferred :: "metaslab_class \<Rightarrow> u64" where
  "metaslab_class_get_deferred mc = mc_deferred mc"

definition metaslab_class_get_space :: "metaslab_class \<Rightarrow> u64" where
  "metaslab_class_get_space mc = mc_space mc"

definition metaslab_class_get_dspace :: "'os ms_env \<Rightarrow> metaslab_class \<Rightarrow> u64" where
  "metaslab_class_get_dspace env mc = (if spa_deflate env then mc_dspace mc else mc_space mc)"

section \<open>Metaslab groups\<close>

text \<open>
  Metaslabs are compared by wt, heavier ones first, and by offset. The comparison ends with an assertion that only a
  metaslab and itself compare equal; a group has no two metaslabs with the same offset.
\<close>

definition metaslab_compare :: "u64 \<times> u64 \<Rightarrow> u64 \<times> u64 \<Rightarrow> int" where
  "metaslab_compare m1 m2 =
     (if fst m1 < fst m2 then 1
      else if fst m1 > fst m2 then -1
      else if snd m1 < snd m2 then -1
      else if snd m1 > snd m2 then 1
      else 0)"

definition ms_key :: "metaslab \<Rightarrow> u64 \<times> u64" where
  "ms_key m = (ms_weight m, sm_start (ms_map m))"

definition ms_compar :: "'os pool \<Rightarrow> addr \<Rightarrow> addr \<Rightarrow> int" where
  "ms_compar p a b = metaslab_compare (ms_key (p_ms p a)) (ms_key (p_ms p b))"

definition metaslab_group_create :: "addr \<Rightarrow> addr \<Rightarrow> addr \<Rightarrow> 'os pool \<Rightarrow> 'os pool" where
  "metaslab_group_create mg mc vd p =
     upd_mg mg (\<lambda>_. \<lparr>mg_metaslab_tree = avl_create (\<lambda>_. blank_node), mg_aliquot = 0, mg_bonus_area = 0, mg_bias = 0,
       mg_activation_count = 0, mg_class = mc, mg_vd = vd, mg_prev = None, mg_next = None\<rparr>) p"

definition metaslab_group_destroy :: "metaslab_group \<Rightarrow> unit res" where
  "metaslab_group_destroy mg =
     ASSERT (mg_prev mg = None) (
     ASSERT (mg_next mg = None) (
     ASSERT (sint (mg_activation_count mg) \<le> 0) (
     rbind (avl_destroy (mg_metaslab_tree mg)) (\<lambda>_. Inr ()))))"

definition metaslab_group_activate :: "addr \<Rightarrow> 'os pool \<Rightarrow> 'os pool res" where
  "metaslab_group_activate mg p =
     (let mc = mg_class (p_mg p mg)
      in
      ASSERT (mc_rotor (p_mc p mc) \<noteq> Some mg) (
      ASSERT (mg_prev (p_mg p mg) = None) (
      ASSERT (mg_next (p_mg p mg) = None) (
      ASSERT (sint (mg_activation_count (p_mg p mg)) \<le> 0) (
      let p = upd_mg mg (\<lambda>g. g\<lparr>mg_activation_count := mg_activation_count g + 1\<rparr>) p
      in
      if sint (mg_activation_count (p_mg p mg)) \<le> 0 then Inr p
      else
        let p = upd_mg mg (\<lambda>g. g\<lparr>mg_aliquot :=
              metaslab_aliquot * max 1 (of_nat (length (vdev_child (tv_tree (p_vd p (mg_vd g))))))\<rparr>) p
        in
        case mc_rotor (p_mc p mc) of
          None \<Rightarrow>
            (let p = upd_mg mg (\<lambda>g. g\<lparr>mg_prev := Some mg, mg_next := Some mg\<rparr>) p
             in Inr (upd_mc mc (\<lambda>c. c\<lparr>mc_rotor := Some mg\<rparr>) p))
        | Some mgprev \<Rightarrow>
            rbind (deref (mg_next (p_mg p mgprev))) (\<lambda>mgnext.
            let p = upd_mg mg (\<lambda>g. g\<lparr>mg_prev := Some mgprev, mg_next := Some mgnext\<rparr>) p;
                p = upd_mg mgprev (\<lambda>g. g\<lparr>mg_next := Some mg\<rparr>) p;
                p = upd_mg mgnext (\<lambda>g. g\<lparr>mg_prev := Some mg\<rparr>) p
            in Inr (upd_mc mc (\<lambda>c. c\<lparr>mc_rotor := Some mg\<rparr>) p)))))))"

definition metaslab_group_passivate :: "addr \<Rightarrow> 'os pool \<Rightarrow> 'os pool res" where
  "metaslab_group_passivate mg p =
     (let mc = mg_class (p_mg p mg);
          p = upd_mg mg (\<lambda>g. g\<lparr>mg_activation_count := mg_activation_count g - 1\<rparr>) p
      in
      if mg_activation_count (p_mg p mg) \<noteq> 0 then
        ASSERT (mc_rotor (p_mc p mc) \<noteq> Some mg) (
        ASSERT (mg_prev (p_mg p mg) = None) (
        ASSERT (mg_next (p_mg p mg) = None) (
        ASSERT (sint (mg_activation_count (p_mg p mg)) < 0) (
          Inr p))))
      else
        let mgprev = mg_prev (p_mg p mg);
            mgnext = mg_next (p_mg p mg)
        in
        rbind
          (if Some mg = mgnext then Inr (upd_mc mc (\<lambda>c. c\<lparr>mc_rotor := None\<rparr>) p)
           else
             rbind (deref mgprev) (\<lambda>prev.
             rbind (deref mgnext) (\<lambda>next'.
             let p = upd_mc mc (\<lambda>c. c\<lparr>mc_rotor := Some next'\<rparr>) p;
                 p = upd_mg prev (\<lambda>g. g\<lparr>mg_next := Some next'\<rparr>) p
             in Inr (upd_mg next' (\<lambda>g. g\<lparr>mg_prev := Some prev\<rparr>) p))))
          (\<lambda>p. Inr (upd_mg mg (\<lambda>g. g\<lparr>mg_prev := None, mg_next := None\<rparr>) p)))"

definition metaslab_group_add :: "addr \<Rightarrow> addr \<Rightarrow> 'os pool \<Rightarrow> 'os pool res" where
  "metaslab_group_add mg msp p =
     ASSERT (ms_group (p_ms p msp) = None) (
     let p = upd_ms msp (\<lambda>m. m\<lparr>ms_group := Some mg, ms_weight := 0\<rparr>) p
     in rbind (avl_add (ms_compar p msp) (mg_metaslab_tree (p_mg p mg)) msp) (\<lambda>t.
          Inr (upd_mg mg (\<lambda>g. g\<lparr>mg_metaslab_tree := t\<rparr>) p)))"

definition metaslab_group_remove :: "addr \<Rightarrow> addr \<Rightarrow> 'os pool \<Rightarrow> 'os pool res" where
  "metaslab_group_remove mg msp p =
     ASSERT (ms_group (p_ms p msp) = Some mg) (
     rbind (avl_remove (mg_metaslab_tree (p_mg p mg)) msp) (\<lambda>t.
     let p = upd_mg mg (\<lambda>g. g\<lparr>mg_metaslab_tree := t\<rparr>) p
     in Inr (upd_ms msp (\<lambda>m. m\<lparr>ms_group := None\<rparr>) p)))"

definition metaslab_group_sort :: "addr \<Rightarrow> addr \<Rightarrow> u64 \<Rightarrow> 'os pool \<Rightarrow> 'os pool res" where
  "metaslab_group_sort mg msp wt p =
     ASSERT (wt \<ge> SPA_MINBLOCKSIZE - 1 \<or> wt = 0) (
     ASSERT (ms_group (p_ms p msp) = Some mg) (
     rbind (avl_remove (mg_metaslab_tree (p_mg p mg)) msp) (\<lambda>t.
     let p = upd_mg mg (\<lambda>g. g\<lparr>mg_metaslab_tree := t\<rparr>) p;
         p = upd_ms msp (\<lambda>m. m\<lparr>ms_weight := wt\<rparr>) p
     in rbind (avl_add (ms_compar p msp) (mg_metaslab_tree (p_mg p mg)) msp) (\<lambda>t.
          Inr (upd_mg mg (\<lambda>g. g\<lparr>mg_metaslab_tree := t\<rparr>) p)))))"

section \<open>Statistics and dirty lists of a vdev\<close>

definition pool_dirty :: "addr \<Rightarrow> u64 \<Rightarrow> addr \<Rightarrow> u64 \<Rightarrow> 'os pool \<Rightarrow> 'os pool res" where
  "pool_dirty vd flags arg txg p =
     rbind (vdev_dirty (node_of (p_vd p vd)) flags arg txg
        \<lparr>vdev_ms_list = tv_ms_list (p_vd p vd), vdev_dtl_list = tv_dtl_list (p_vd p vd), spa_vdev_txg_list = p_vdev_txg_list p\<rparr>) (\<lambda>d.
     Inr ((upd_vd vd (\<lambda>v. v\<lparr>tv_ms_list := vdev_ms_list d, tv_dtl_list := vdev_dtl_list d\<rparr>) p)
        \<lparr>p_vdev_txg_list := spa_vdev_txg_list d\<rparr>))"

definition stat_update :: "s64 \<Rightarrow> s64 \<Rightarrow> s64 \<Rightarrow> vdev_stat \<Rightarrow> vdev_stat" where
  "stat_update alloc_delta space_delta dspace_delta vs =
     vs\<lparr>vs_alloc := vs_alloc vs + alloc_delta, vs_space := vs_space vs + space_delta, vs_dspace := vs_dspace vs + dspace_delta\<rparr>"

text \<open>\<open>x >> n\<close> of a signed number keeps the sign.\<close>

definition vdev_space_update :: "'os ms_env \<Rightarrow> addr \<Rightarrow> s64 \<Rightarrow> s64 \<Rightarrow> s64 \<Rightarrow> 'os pool \<Rightarrow> 'os pool res" where
  "vdev_space_update env vd alloc_delta defer_delta space_delta p =
     (let v = p_vd p vd;
          mc = map_option (\<lambda>mg. mg_class (p_mg p mg)) (vdev_mg v)
      in
      ASSERT (space_delta AND (SPA_MINBLOCKSIZE - 1) = 0) (
      ASSERT (vdev_deflate_ratio v \<noteq> 0 \<or> vdev_isl2cache v) (
      let dspace_delta = signed_drop_bit SPA_MINBLOCKSHIFT space_delta * vdev_deflate_ratio v;
          p = upd_vd vd (\<lambda>v. v\<lparr>vdev_stat_of := stat_update alloc_delta space_delta dspace_delta (vdev_stat_of v)\<rparr>) p;
          p = (if mc = Some (spa_normal_class env)
               then p\<lparr>p_root_stat := stat_update alloc_delta space_delta dspace_delta (p_root_stat p)\<rparr> else p)
      in case mc of
           None \<Rightarrow> Inr p
         | Some mc \<Rightarrow>
             ASSERT (vdev_ms_count v \<noteq> 0)
               (Inr (metaslab_class_space_update mc alloc_delta defer_delta space_delta dspace_delta p)))))"

section \<open>Weights\<close>

definition metaslab_smo_bonus_pct :: u64 where
  "metaslab_smo_bonus_pct = 150"

definition METASLAB_WEIGHT_PRIMARY :: u64 where
  "METASLAB_WEIGHT_PRIMARY = push_bit 63 1"

definition METASLAB_WEIGHT_SECONDARY :: u64 where
  "METASLAB_WEIGHT_SECONDARY = push_bit 62 1"

definition METASLAB_ACTIVE_MASK :: u64 where
  "METASLAB_ACTIVE_MASK = METASLAB_WEIGHT_PRIMARY OR METASLAB_WEIGHT_SECONDARY"

definition metaslab_weight :: "metaslab_group \<Rightarrow> top_vdev \<Rightarrow> metaslab \<Rightarrow> u64 res" where
  "metaslab_weight mg vd msp =
     (let sm = ms_map msp;
          smo = ms_smo msp;
          space = sm_size sm - smo_alloc smo;
          wt = 2 * space - (drop_bit (unat (vdev_ms_shift (node_of vd))) (sm_start sm) * space) div vdev_ms_count vd
      in
      ASSERT (wt \<ge> space \<and> wt \<le> 2 * space) (
      let wt = (if sm_start sm \<le> mg_bonus_area mg then wt * (metaslab_smo_bonus_pct div 100) else wt)
      in
      ASSERT (wt \<ge> space \<and> wt \<le> 2 * (metaslab_smo_bonus_pct div 100) * space) (
      rbind (if sm_loaded sm then rbind (deref (sm_ops sm)) (\<lambda>t. smop_fragmented (metaslab_ops t) sm) else Inr True) (\<lambda>fragmented.
      Inr (if sm_loaded sm \<and> \<not> fragmented then wt OR (ms_weight msp AND METASLAB_ACTIVE_MASK) else wt)))))"

text \<open>\<open>metaslab_group_sort(mg, msp, metaslab_weight(msp))\<close>.\<close>

definition reweigh :: "addr \<Rightarrow> addr \<Rightarrow> 'os pool \<Rightarrow> 'os pool res" where
  "reweigh mg msp p =
     rbind (metaslab_weight (p_mg p mg) (p_vd p (mg_vd (p_mg p mg))) (p_ms p msp)) (\<lambda>wt.
       metaslab_group_sort mg msp wt p)"

section \<open>Activation\<close>

definition ENOENT :: int where "ENOENT = 2"
definition ENXIO :: int where "ENXIO = 6"
definition ENOSPC :: int where "ENOSPC = 28"

definition claim_func :: "kernel \<Rightarrow> space_map space_map_func" where
  "claim_func k start size' d = space_map_claim k metaslab_ops d start size'"

definition free_func :: "kernel \<Rightarrow> space_map space_map_func" where
  "free_func k start size' d = space_map_free k metaslab_ops d start size'"

text \<open>
  Loading the map of a metaslab that is about to become active: the space map on disk without the deferred frees. The
  result is the map and the error of the read.
\<close>

definition activate_load :: "'os ms_env \<Rightarrow> sm_ops_table \<Rightarrow> metaslab \<Rightarrow> 'os \<Rightarrow> (space_map \<times> int) res" where
  "activate_load env sm_ops' msp os =
     rbind (rbind (of_loop (space_map_load_wait (me_cv_wait env) (ms_map msp))) id) (\<lambda>sm.
     if sm_loaded sm then Inr (sm, 0)
     else
       rbind (space_map_load (me_kernel env) metaslab_ops (me_dmu env) sm (Some sm_ops') SM_FREE (ms_smo msp) os) (\<lambda>(sm, error).
       if error \<noteq> 0 then Inr (sm, error)
       else rbind (foldM (\<lambda>t sm. space_map_walk (ms_defermap msp t) (claim_func (me_kernel env)) sm) [0 ..< TXG_DEFER_SIZE] sm)
              (\<lambda>sm. Inr (sm, 0))))"

definition metaslab_activate :: "'os ms_env \<Rightarrow> addr \<Rightarrow> u64 \<Rightarrow> u64 \<Rightarrow> 'os pool \<Rightarrow> ('os pool \<times> int) res" where
  "metaslab_activate env msp activation_weight size' p =
     rbind (deref (ms_group (p_ms p msp))) (\<lambda>mg.
     rbind
       (if ms_weight (p_ms p msp) AND METASLAB_ACTIVE_MASK = 0 then
          rbind (activate_load env (mc_ops (p_mc p (mg_class (p_mg p mg)))) (p_ms p msp) (p_os p)) (\<lambda>(sm, error).
          let p = upd_ms msp (\<lambda>m. m\<lparr>ms_map := sm\<rparr>) p
          in
          if error \<noteq> 0 then rbind (metaslab_group_sort mg msp 0 p) (\<lambda>p. Inr (p, error))
          else
            let p = (if sm_start sm > mg_bonus_area (p_mg p mg)
                     then upd_mg mg (\<lambda>g. g\<lparr>mg_bonus_area := sm_start sm\<rparr>) p else p)
            in
            if ms_weight (p_ms p msp) < size' then Inr (p, ENOSPC)
            else rbind (metaslab_group_sort mg msp (ms_weight (p_ms p msp) OR activation_weight) p) (\<lambda>p. Inr (p, 0)))
        else Inr (p, 0))
       (\<lambda>(p, error).
        if error \<noteq> 0 then Inr (p, error)
        else
          ASSERT (sm_loaded (ms_map (p_ms p msp))) (
          ASSERT (ms_weight (p_ms p msp) AND METASLAB_ACTIVE_MASK \<noteq> 0) (
            Inr (p, 0)))))"

definition metaslab_passivate :: "addr \<Rightarrow> u64 \<Rightarrow> 'os pool \<Rightarrow> 'os pool res" where
  "metaslab_passivate msp size' p =
     ASSERT (size' \<ge> SPA_MINBLOCKSIZE \<or> sm_space (ms_map (p_ms p msp)) = 0) (
     rbind (deref (ms_group (p_ms p msp))) (\<lambda>mg.
     rbind (metaslab_group_sort mg msp (min (ms_weight (p_ms p msp)) size') p) (\<lambda>p.
     ASSERT (ms_weight (p_ms p msp) AND METASLAB_ACTIVE_MASK = 0) (Inr p))))"

section \<open>Syncing\<close>

definition set_allocmap :: "nat \<Rightarrow> space_map \<Rightarrow> metaslab \<Rightarrow> metaslab" where
  "set_allocmap t sm m = m\<lparr>ms_allocmap := (ms_allocmap m)(t := sm)\<rparr>"

definition set_freemap :: "nat \<Rightarrow> space_map \<Rightarrow> metaslab \<Rightarrow> metaslab" where
  "set_freemap t sm m = m\<lparr>ms_freemap := (ms_freemap m)(t := sm)\<rparr>"

definition set_defermap :: "nat \<Rightarrow> space_map \<Rightarrow> metaslab \<Rightarrow> metaslab" where
  "set_defermap t sm m = m\<lparr>ms_defermap := (ms_defermap m)(t := sm)\<rparr>"

text \<open>The first sync of a metaslab allocates the object of its space map and enters it in the array of the vdev.\<close>

definition sync_object :: "'os ms_env \<Rightarrow> top_vdev \<Rightarrow> metaslab \<Rightarrow> 'os \<Rightarrow> (metaslab \<times> 'os) res" where
  "sync_object env vd m os =
     (let smo = ms_smo_syncing m
      in
      if smo_object smo = 0 then
        ASSERT (smo_objsize smo = 0) (
        ASSERT (smo_alloc smo = 0) (
        case me_object_alloc env os of
          (obj, os) \<Rightarrow>
            ASSERT (obj \<noteq> 0) (
            let os = dmu_write (me_dmu env) (vdev_ms_array vd)
                  (8 * drop_bit (unat (vdev_ms_shift (node_of vd))) (sm_start (ms_map m))) [obj] os
            in Inr (m\<lparr>ms_smo_syncing := smo\<lparr>smo_object := obj\<rparr>\<rparr>, os))))
      else Inr (m, os))"

text \<open>Whether the log is at least twice as long as the map in core, in the first pass.\<close>

definition should_condense :: "'os ms_env \<Rightarrow> metaslab \<Rightarrow> bool" where
  "should_condense env m \<longleftrightarrow> sm_loaded (ms_map m) \<and> spa_sync_pass env = 1
     \<and> smo_objsize (ms_smo_syncing m) \<ge> 2 * 8 * of_nat (avl_numnodes (sm_root (ms_map m)))"

text \<open>The map of all that is allocated, from first principles, and the log cut to nothing.\<close>

definition metaslab_condense :: "'os ms_env \<Rightarrow> u64 \<Rightarrow> metaslab \<Rightarrow> 'os \<Rightarrow> (metaslab \<times> 'os) res" where
  "metaslab_condense env txg m os =
     (let k = me_kernel env;
          t = TXG_IDX txg;
          freed_map = ms_freemap m (TXG_IDX (TXG_CLEAN txg))
      in
      rbind (space_map_vacate (ms_allocmap m t) None ()) (\<lambda>(allocmap, _).
      rbind (space_map_vacate (ms_freemap m t) None ()) (\<lambda>(freemap, _).
      rbind (space_map_add k allocmap (sm_start allocmap) (sm_size allocmap)) (\<lambda>allocmap.
      rbind (space_map_walk (ms_map m) (remove_func k) allocmap) (\<lambda>allocmap.
      rbind (space_map_walk freed_map (remove_func k) allocmap) (\<lambda>allocmap.
      rbind (foldM (\<lambda>i. space_map_walk (ms_defermap m i) (remove_func k)) [0 ..< TXG_DEFER_SIZE] allocmap) (\<lambda>allocmap.
      rbind (foldM (\<lambda>i. space_map_walk (ms_allocmap m (TXG_IDX (txg + of_nat i))) (remove_func k))
          [1 ..< TXG_CONCURRENT_STATES] allocmap) (\<lambda>allocmap.
      rbind (space_map_truncate (me_dmu env) (ms_smo_syncing m) os) (\<lambda>(smo, os).
      Inr (set_freemap t freemap (set_allocmap t allocmap (m\<lparr>ms_smo_syncing := smo\<rparr>)), os))))))))))"

definition sync_maps :: "'os ms_env \<Rightarrow> u64 \<Rightarrow> metaslab \<Rightarrow> 'os \<Rightarrow> (metaslab \<times> 'os) res" where
  "sync_maps env txg m os =
     (let t = TXG_IDX txg;
          c = TXG_IDX (TXG_CLEAN txg)
      in
      rbind (space_map_walk (ms_freemap m t) (add_func (me_kernel env)) (ms_freemap m c)) (\<lambda>freed_map.
      let m = set_freemap c freed_map m
      in
      rbind (if should_condense env m then metaslab_condense env txg m os else Inr (m, os)) (\<lambda>(m, os).
      rbind (space_map_sync (me_dmu env) (spa_sync_pass env) txg (ms_allocmap m t) SM_ALLOC (ms_smo_syncing m) os) (\<lambda>(allocmap, smo, os).
      let m = set_allocmap t allocmap (m\<lparr>ms_smo_syncing := smo\<rparr>)
      in
      rbind (space_map_sync (me_dmu env) (spa_sync_pass env) txg (ms_freemap m t) SM_FREE (ms_smo_syncing m) os) (\<lambda>(freemap, smo, os).
      Inr (set_freemap t freemap (m\<lparr>ms_smo_syncing := smo\<rparr>), os))))))"

definition metaslab_sync :: "'os ms_env \<Rightarrow> addr \<Rightarrow> u64 \<Rightarrow> 'os pool \<Rightarrow> 'os pool res" where
  "metaslab_sync env msp txg p =
     rbind (deref (ms_group (p_ms p msp))) (\<lambda>mg.
     let vd = p_vd p (mg_vd (p_mg p mg));
         m = p_ms p msp;
         t = TXG_IDX txg
     in
     ASSERT (\<not> vdev_ishole (node_of vd)) (
     if sm_space (ms_allocmap m t) = 0 \<and> sm_space (ms_freemap m t) = 0 then Inr p
     else
       rbind (sync_object env vd m (p_os p)) (\<lambda>(m, os).
       rbind (sync_maps env txg m os) (\<lambda>(m, os).
       case me_bonus_write env (smo_object (ms_smo_syncing m)) (ms_smo_syncing m) os of
         (error, os) \<Rightarrow>
           VERIFY (error = 0) (Inr ((upd_ms msp (\<lambda>_. m) p)\<lparr>p_os := os\<rparr>))))))"

text \<open>The maps of a metaslab that is just becoming available.\<close>

definition sync_done_create :: "metaslab \<Rightarrow> metaslab" where
  "sync_done_create m =
     (let sm = ms_map m;
          fresh = space_map_create (sm_start sm) (sm_size sm) (sm_shift sm) (sm_lock_held sm);
          create = (\<lambda>n f t. if t < n then fresh else f t)
      in m\<lparr>ms_allocmap := create TXG_SIZE (ms_allocmap m), ms_freemap := create TXG_SIZE (ms_freemap m),
           ms_defermap := create TXG_DEFER_SIZE (ms_defermap m)\<rparr>)"

text \<open>The oldest deferred frees go back to the map, the frees of this transaction group are deferred.\<close>

definition sync_done_defer :: "'os ms_env \<Rightarrow> u64 \<Rightarrow> metaslab \<Rightarrow> metaslab res" where
  "sync_done_defer env txg m =
     (let c = TXG_IDX (TXG_CLEAN txg);
          d = unat txg mod TXG_DEFER_SIZE;
          k = me_kernel env
      in
      rbind (rbind (of_loop (space_map_load_wait (me_cv_wait env) (ms_map m))) id) (\<lambda>sm.
      rbind (space_map_vacate (ms_defermap m d) (if sm_loaded sm then Some (free_func k) else None) sm) (\<lambda>(defer_map, sm).
      rbind (space_map_vacate (ms_freemap m c) (Some (add_func k)) defer_map) (\<lambda>(freed_map, defer_map).
      Inr ((set_defermap d defer_map (set_freemap c freed_map (m\<lparr>ms_map := sm\<rparr>)))\<lparr>ms_smo := ms_smo_syncing m\<rparr>)))))"

definition evictable :: "'os ms_env \<Rightarrow> u64 \<Rightarrow> metaslab \<Rightarrow> bool" where
  "evictable env txg m \<longleftrightarrow> sm_loaded (ms_map m) \<and> ms_weight m AND METASLAB_ACTIVE_MASK = 0
     \<and> (\<forall>t \<in> set [1 ..< TXG_CONCURRENT_STATES]. sm_space (ms_allocmap m (TXG_IDX (txg + of_nat t))) = 0)
     \<and> \<not> metaslab_debug env"

definition sync_done_space :: "'os ms_env \<Rightarrow> addr \<Rightarrow> addr \<Rightarrow> u64 \<Rightarrow> 'os pool \<Rightarrow> ('os pool \<times> s64) res" where
  "sync_done_space env vd msp txg p =
     (let c = TXG_IDX (TXG_CLEAN txg)
      in
      rbind
        (if sm_size (ms_freemap (p_ms p msp) c) = 0
         then vdev_space_update env vd 0 0 (sm_size (ms_map (p_ms p msp))) (upd_ms msp sync_done_create p)
         else Inr p) (\<lambda>p.
      let m = p_ms p msp;
          alloc_delta = smo_alloc (ms_smo_syncing m) - smo_alloc (ms_smo m);
          defer_delta = sm_space (ms_freemap m c) - sm_space (ms_defermap m (unat txg mod TXG_DEFER_SIZE))
      in rbind (vdev_space_update env vd (alloc_delta + defer_delta) defer_delta 0 p) (\<lambda>p. Inr (p, defer_delta))))"

definition metaslab_sync_done :: "'os ms_env \<Rightarrow> addr \<Rightarrow> u64 \<Rightarrow> 'os pool \<Rightarrow> 'os pool res" where
  "metaslab_sync_done env msp txg p =
     rbind (deref (ms_group (p_ms p msp))) (\<lambda>mg.
     let vd = mg_vd (p_mg p mg);
         t = TXG_IDX txg
     in
     ASSERT (\<not> vdev_ishole (node_of (p_vd p vd))) (
     rbind (sync_done_space env vd msp txg p) (\<lambda>(p, defer_delta).
     ASSERT (sm_space (ms_allocmap (p_ms p msp) t) = 0) (
     ASSERT (sm_space (ms_freemap (p_ms p msp) t) = 0) (
     rbind (sync_done_defer env txg (p_ms p msp)) (\<lambda>m.
     let m = m\<lparr>ms_deferspace := ms_deferspace m + defer_delta\<rparr>;
         p = upd_ms msp (\<lambda>_. m) p
     in
     ASSERT (sint (ms_deferspace m) \<ge> 0) (
     ASSERT (sint (ms_deferspace m) \<le> sint (sm_size (ms_map m))) (
     rbind (if ms_deferspace m \<noteq> 0 then pool_dirty vd VDD_METASLAB msp (txg + 1) p else Inr p) (\<lambda>p.
     rbind (if evictable env txg (p_ms p msp)
            then rbind (space_map_unload metaslab_ops (ms_map (p_ms p msp))) (\<lambda>sm. Inr (upd_ms msp (\<lambda>m. m\<lparr>ms_map := sm\<rparr>) p))
            else Inr p)
       (reweigh mg msp))))))))))"

text \<open>
  \<open>metaslab_prefetch\<close> only asks the DMU to read objects ahead; its result here is what it asks for, the object and
  the number of bytes.
\<close>

definition metaslab_prefetch_limit :: nat where
  "metaslab_prefetch_limit = SPA_DVAS_PER_BP"

partial_function (option) prefetch_loop ::
  "'os pool \<Rightarrow> avl_tree \<Rightarrow> addr option \<Rightarrow> nat \<Rightarrow> (u64 \<times> u64) list \<Rightarrow> (u64 \<times> u64) list res option" where
  "prefetch_loop p t msp m acc =
     (case msp of
        None \<Rightarrow> Some (Inr acc)
      | Some msp \<Rightarrow>
          if m \<ge> metaslab_prefetch_limit then Some (Inr acc)
          else
            let smo = ms_smo (p_ms p msp);
                acc = (if \<not> sm_loaded (ms_map (p_ms p msp)) \<and> smo_object smo \<noteq> 0
                       then acc @ [(smo_object smo, smo_objsize smo)] else acc)
            in case AVL_NEXT t msp of
                 Inl e \<Rightarrow> Some (Inl e)
               | Inr next' \<Rightarrow> prefetch_loop p t next' (m + 1) acc)"

definition metaslab_prefetch :: "addr \<Rightarrow> 'os pool \<Rightarrow> (u64 \<times> u64) list res" where
  "metaslab_prefetch mg p =
     (let t = mg_metaslab_tree (p_mg p mg)
      in rbind (avl_first t) (\<lambda>msp. rbind (of_loop (prefetch_loop p t msp 0 [])) id))"

fun reassess_loop :: "addr \<Rightarrow> addr list \<Rightarrow> 'os pool \<Rightarrow> 'os pool res" where
  "reassess_loop mg [] p = Inr p"
| "reassess_loop mg (msp # ms) p =
     (if sm_start (ms_map (p_ms p msp)) > mg_bonus_area (p_mg p mg) then Inr p
      else rbind (reweigh mg msp p) (reassess_loop mg ms))"

definition metaslab_sync_reassess :: "addr \<Rightarrow> 'os pool \<Rightarrow> ('os pool \<times> (u64 \<times> u64) list) res" where
  "metaslab_sync_reassess mg p =
     (let vd = p_vd p (mg_vd (p_mg p mg))
      in rbind (reassess_loop mg (take (unat (vdev_ms_count vd)) (vdev_ms vd)) p) (\<lambda>p.
         rbind (metaslab_prefetch mg p) (\<lambda>asked. Inr (p, asked))))"

section \<open>Creation and destruction\<close>

definition metaslab_init :: "'os ms_env \<Rightarrow> addr \<Rightarrow> addr \<Rightarrow> space_map_obj \<Rightarrow> u64 \<Rightarrow> u64 \<Rightarrow> u64 \<Rightarrow> 'os pool \<Rightarrow> 'os pool res" where
  "metaslab_init env msp mg smo start size' txg p =
     (let vd = mg_vd (p_mg p mg);
          p = upd_ms msp (\<lambda>_. \<lparr>ms_smo = zero_smo, ms_smo_syncing = smo, ms_allocmap = (\<lambda>_. zero_map), ms_freemap = (\<lambda>_. zero_map),
                ms_defermap = (\<lambda>_. zero_map),
                ms_map = space_map_create start size' (ucast (vdev_ashift (node_of (p_vd p vd)))) True,
                ms_deferspace = 0, ms_weight = 0, ms_group = None\<rparr>) p
      in
      rbind (metaslab_group_add mg msp p) (\<lambda>p.
      rbind
        (if metaslab_debug env \<and> smo_object smo \<noteq> 0 then
           rbind (space_map_load (me_kernel env) metaslab_ops (me_dmu env) (ms_map (p_ms p msp))
               (Some (mc_ops (p_mc p (mg_class (p_mg p mg))))) SM_FREE smo (p_os p)) (\<lambda>(sm, error).
           VERIFY (error = 0) (Inr (upd_ms msp (\<lambda>m. m\<lparr>ms_map := sm\<rparr>) p)))
         else Inr p) (\<lambda>p.
      rbind (if txg \<le> TXG_INITIAL then metaslab_sync_done env msp 0 p else Inr p) (\<lambda>p.
      if txg \<noteq> 0 then
        rbind (pool_dirty vd 0 0 txg p) (\<lambda>p. pool_dirty vd VDD_METASLAB msp txg p)
      else Inr p))))"

definition metaslab_fini :: "'os ms_env \<Rightarrow> addr \<Rightarrow> 'os pool \<Rightarrow> 'os pool res" where
  "metaslab_fini env msp p =
     rbind (deref (ms_group (p_ms p msp))) (\<lambda>mg.
     let m = p_ms p msp
     in
     rbind (vdev_space_update env (mg_vd (p_mg p mg)) (- smo_alloc (ms_smo m)) 0 (- sm_size (ms_map m)) p) (\<lambda>p.
     rbind (metaslab_group_remove mg msp p) (\<lambda>p.
     rbind (space_map_unload metaslab_ops (ms_map m)) (\<lambda>sm.
     rbind (space_map_destroy sm) (\<lambda>_.
     rbind (foldM (\<lambda>t _. rbind (space_map_destroy (ms_allocmap m t)) (\<lambda>_. space_map_destroy (ms_freemap m t))) [0 ..< TXG_SIZE] ()) (\<lambda>_.
     rbind (foldM (\<lambda>t _. space_map_destroy (ms_defermap m t)) [0 ..< TXG_DEFER_SIZE] ()) (\<lambda>_.
     ASSERT (ms_deferspace m = 0) (Inr p))))))))"

lemmas metaslab_loop_code [code] = class_validate_loop.simps prefetch_loop.simps

end
