(* ===== verification/Metaslab_Group.thy ===== *)
theory Metaslab_Group
  imports Metaslab
begin

text \<open>
  The tree of a metaslab group and the weights by which it is sorted: every operation that changes a weight puts the
  metaslab back at its place, and a weight lies between the free space of its metaslab and twice that.
\<close>

section \<open>Updates of the heap\<close>

lemma upd_simps [simp]:
  "p_ms (upd_ms a f p) = (p_ms p)(a := f (p_ms p a))" "p_mg (upd_ms a f p) = p_mg p" "p_mc (upd_ms a f p) = p_mc p"
  "p_vd (upd_ms a f p) = p_vd p" "p_os (upd_ms a f p) = p_os p" "p_top (upd_ms a f p) = p_top p"
  "p_root_stat (upd_ms a f p) = p_root_stat p" "p_vdev_txg_list (upd_ms a f p) = p_vdev_txg_list p"
  "p_ms (upd_mg a g p) = p_ms p" "p_mg (upd_mg a g p) = (p_mg p)(a := g (p_mg p a))" "p_mc (upd_mg a g p) = p_mc p"
  "p_vd (upd_mg a g p) = p_vd p" "p_os (upd_mg a g p) = p_os p" "p_top (upd_mg a g p) = p_top p"
  "p_root_stat (upd_mg a g p) = p_root_stat p" "p_vdev_txg_list (upd_mg a g p) = p_vdev_txg_list p"
  "p_ms (upd_mc a c p) = p_ms p" "p_mg (upd_mc a c p) = p_mg p" "p_mc (upd_mc a c p) = (p_mc p)(a := c (p_mc p a))"
  "p_vd (upd_mc a c p) = p_vd p" "p_os (upd_mc a c p) = p_os p" "p_top (upd_mc a c p) = p_top p"
  "p_root_stat (upd_mc a c p) = p_root_stat p" "p_vdev_txg_list (upd_mc a c p) = p_vdev_txg_list p"
  "p_ms (upd_vd a v p) = p_ms p" "p_mg (upd_vd a v p) = p_mg p" "p_mc (upd_vd a v p) = p_mc p"
  "p_vd (upd_vd a v p) = (p_vd p)(a := v (p_vd p a))" "p_os (upd_vd a v p) = p_os p" "p_top (upd_vd a v p) = p_top p"
  "p_root_stat (upd_vd a v p) = p_root_stat p" "p_vdev_txg_list (upd_vd a v p) = p_vdev_txg_list p"
  by (simp_all add: upd_ms_def upd_mg_def upd_mc_def upd_vd_def)

section \<open>The order of metaslabs\<close>

interpretation ms_order: comparator metaslab_compare
proof
  fix x y z :: "u64 \<times> u64"
  show "metaslab_compare x y \<in> {-1, 0, 1}" by (simp add: metaslab_compare_def)
  show "metaslab_compare x y = 0 \<longleftrightarrow> x = y" by (auto simp: metaslab_compare_def prod_eq_iff)
  show "metaslab_compare y x = - metaslab_compare x y" by (auto simp: metaslab_compare_def)
  show "metaslab_compare x y < 0 \<Longrightarrow> metaslab_compare y z < 0 \<Longrightarrow> metaslab_compare x z < 0"
    by (auto simp: metaslab_compare_def split: if_splits)
qed

text \<open>The group \<open>mg\<close> holds the metaslabs \<open>ms\<close>, heaviest first.\<close>

abbreviation key_at :: "'os pool \<Rightarrow> addr \<Rightarrow> u64 \<times> u64" where
  "key_at p a \<equiv> ms_key (p_ms p a)"

definition mg_inv :: "'os pool \<Rightarrow> addr \<Rightarrow> addr set \<Rightarrow> bool" where
  "mg_inv p mg ms \<longleftrightarrow>
     (\<exists>xs. avl_inv (mg_metaslab_tree (p_mg p mg)) xs \<and> set xs = ms
        \<and> sorted_wrt (\<lambda>a b. metaslab_compare (key_at p a) (key_at p b) < 0) xs)
     \<and> inj_on (\<lambda>a. sm_start (ms_map (p_ms p a))) ms \<and> (\<forall>a \<in> ms. ms_group (p_ms p a) = Some mg)"

lemma mg_invD:
  assumes "mg_inv p mg ms"
  obtains xs where "avl_inv (mg_metaslab_tree (p_mg p mg)) xs" "set xs = ms"
    "sorted_wrt (\<lambda>a b. metaslab_compare (key_at p a) (key_at p b) < 0) xs"
  using assms unfolding mg_inv_def by blast

lemma mg_invI:
  assumes "avl_inv (mg_metaslab_tree (p_mg p mg)) xs" "set xs = ms"
    and "sorted_wrt (\<lambda>a b. metaslab_compare (key_at p a) (key_at p b) < 0) xs"
    and "\<And>a b. a \<in> ms \<Longrightarrow> b \<in> ms \<Longrightarrow> sm_start (ms_map (p_ms p a)) = sm_start (ms_map (p_ms p b)) \<Longrightarrow> a = b"
    and "\<And>a. a \<in> ms \<Longrightarrow> ms_group (p_ms p a) = Some mg"
  shows "mg_inv p mg ms"
  unfolding mg_inv_def inj_on_def using assms by blast

lemma mg_inv_start:
  "mg_inv p mg ms \<Longrightarrow> a \<in> ms \<Longrightarrow> b \<in> ms \<Longrightarrow> sm_start (ms_map (p_ms p a)) = sm_start (ms_map (p_ms p b)) \<Longrightarrow> a = b"
  unfolding mg_inv_def inj_on_def by blast

lemma mg_inv_member: "mg_inv p mg ms \<Longrightarrow> a \<in> ms \<Longrightarrow> ms_group (p_ms p a) = Some mg"
  by (simp add: mg_inv_def)

lemma sorted_keys_cong:
  assumes "\<forall>a \<in> set xs. key' a = key a"
  shows "sorted_wrt (\<lambda>a b. metaslab_compare (key' a) (key' b) < 0) xs
     \<longleftrightarrow> sorted_wrt (\<lambda>a b. metaslab_compare (key a) (key b) < 0) xs"
  using assms by (induction xs) auto

lemma mg_inv_cong:
  assumes "mg_inv p mg ms" "mg_metaslab_tree (p_mg p' mg) = mg_metaslab_tree (p_mg p mg)"
    and "\<forall>a \<in> ms. key_at p' a = key_at p a \<and> ms_group (p_ms p' a) = ms_group (p_ms p a)"
  shows "mg_inv p' mg ms"
proof -
  obtain xs where xs: "avl_inv (mg_metaslab_tree (p_mg p mg)) xs" "set xs = ms"
    "sorted_wrt (\<lambda>a b. metaslab_compare (key_at p a) (key_at p b) < 0) xs" using mg_invD[OF assms(1)] .
  have "sorted_wrt (\<lambda>a b. metaslab_compare (key_at p' a) (key_at p' b) < 0) xs"
    using xs(3) sorted_keys_cong[of xs "key_at p'" "key_at p"] xs(2) assms(3) by blast
  moreover have "inj_on (\<lambda>a. sm_start (ms_map (p_ms p' a))) ms"
    using assms(1,3) unfolding mg_inv_def by (auto simp: inj_on_def ms_key_def)
  ultimately show ?thesis using xs(1,2) assms unfolding mg_inv_def by auto
qed

lemma fresh_key:
  assumes "\<And>b. b \<in> B \<Longrightarrow> sm_start (ms_map (p_ms p b)) \<noteq> sm_start (ms_map (p_ms p a))"
  shows "key_at p a \<notin> key_at p ` B"
  using assms by (auto simp: ms_key_def eq_commute[of "sm_start (ms_map (p_ms p a))"])

text \<open>Adding, removing and sorting.\<close>

definition set_tree :: "avl_tree \<Rightarrow> metaslab_group \<Rightarrow> metaslab_group" where
  "set_tree t g = g\<lparr>mg_metaslab_tree := t\<rparr>"

lemma set_tree_simps [simp]:
  "mg_metaslab_tree (set_tree t g) = t" "mg_aliquot (set_tree t g) = mg_aliquot g" "mg_bonus_area (set_tree t g) = mg_bonus_area g"
  "mg_bias (set_tree t g) = mg_bias g" "mg_activation_count (set_tree t g) = mg_activation_count g"
  "mg_class (set_tree t g) = mg_class g" "mg_vd (set_tree t g) = mg_vd g" "mg_prev (set_tree t g) = mg_prev g"
  "mg_next (set_tree t g) = mg_next g" "set_tree t (set_tree t' g) = set_tree t g"
  by (simp_all add: set_tree_def)

lemma set_tree_fun: "mg_metaslab_tree_update (\<lambda>_. t) = set_tree t"
  by (simp add: fun_eq_iff set_tree_def)

lemma metaslab_group_add_inv:
  assumes inv: "mg_inv p mg ms" and "ms_group (p_ms p msp) = None" "msp \<notin> ms" "msp \<noteq> avl_tmp"
    and "sm_start (ms_map (p_ms p msp)) \<notin> (\<lambda>a. sm_start (ms_map (p_ms p a))) ` ms"
  shows "\<exists>t. let p' = upd_mg mg (set_tree t) (upd_ms msp (\<lambda>m. m\<lparr>ms_group := Some mg, ms_weight := 0\<rparr>) p)
     in metaslab_group_add mg msp p = Inr p' \<and> mg_inv p' mg (insert msp ms)"
proof -
  let ?p = "upd_ms msp (\<lambda>m. m\<lparr>ms_group := Some mg, ms_weight := 0\<rparr>) p"
  obtain xs where xs: "avl_inv (mg_metaslab_tree (p_mg p mg)) xs" "set xs = ms"
    "sorted_wrt (\<lambda>a b. metaslab_compare (key_at p a) (key_at p b) < 0) xs" using mg_invD[OF inv] .
  have same: "key_at ?p a = key_at p a" if "a \<in> ms" for a using that assms(3) by auto
  have sorted: "sorted_wrt (\<lambda>a b. metaslab_compare (key_at ?p a) (key_at ?p b) < 0) xs"
    using xs(3) sorted_keys_cong[of xs "key_at ?p" "key_at p"] xs(2) same by blast
  have "key_at ?p msp \<notin> key_at ?p ` set xs"
  proof (rule fresh_key)
    fix b assume "b \<in> set xs"
    then show "sm_start (ms_map (p_ms ?p b)) \<noteq> sm_start (ms_map (p_ms ?p msp))"
      using assms(3,5) unfolding xs(2) by (cases "b = msp") (auto simp: image_iff)
  qed
  then obtain t ys where t: "avl_add (ms_compar ?p msp) (mg_metaslab_tree (p_mg p mg)) msp = Inr t" "avl_inv t ys"
    "set ys = insert msp (set xs)" "sorted_wrt (\<lambda>a b. metaslab_compare (key_at ?p a) (key_at ?p b) < 0) ys"
    using ms_order.avl_add_key[OF xs(1) sorted _ assms(4)] unfolding ms_compar_def by blast
  let ?q = "upd_mg mg (set_tree t) ?p"
  have fresh: "sm_start (ms_map (p_ms p a)) \<noteq> sm_start (ms_map (p_ms p msp))" if "a \<in> ms" for a
    using assms(5) that by (metis (mono_tags, lifting) imageI)
  have "mg_inv ?q mg (insert msp ms)"
  proof (rule mg_invI[of ?q mg ys])
    show "a = b" if "a \<in> insert msp ms" "b \<in> insert msp ms" "sm_start (ms_map (p_ms ?q a)) = sm_start (ms_map (p_ms ?q b))" for a b
      using that assms(3) fresh mg_inv_start[OF inv] by (auto split: if_splits)
  qed (use t xs(2) mg_inv_member[OF inv] in auto)
  moreover have "metaslab_group_add mg msp p = Inr ?q"
    using assms(2) t(1) by (simp add: metaslab_group_add_def Let_def set_tree_fun)
  ultimately show ?thesis unfolding Let_def by blast
qed

lemma metaslab_group_remove_inv:
  assumes inv: "mg_inv p mg ms" and "msp \<in> ms"
  shows "\<exists>t. let p' = upd_ms msp (\<lambda>m. m\<lparr>ms_group := None\<rparr>) (upd_mg mg (set_tree t) p)
     in metaslab_group_remove mg msp p = Inr p' \<and> mg_inv p' mg (ms - {msp})"
proof -
  obtain xs where xs: "avl_inv (mg_metaslab_tree (p_mg p mg)) xs" "set xs = ms"
    "sorted_wrt (\<lambda>a b. metaslab_compare (key_at p a) (key_at p b) < 0) xs" using mg_invD[OF inv] .
  obtain t ys where t: "avl_remove (mg_metaslab_tree (p_mg p mg)) msp = Inr t" "avl_inv t ys" "set ys = set xs - {msp}"
    "sorted_wrt (\<lambda>a b. metaslab_compare (key_at p a) (key_at p b) < 0) ys"
    using ms_order.avl_remove_key[OF xs(1,3)] assms(2) xs(2) by blast
  let ?q = "upd_ms msp (\<lambda>m. m\<lparr>ms_group := None\<rparr>) (upd_mg mg (set_tree t) p)"
  have "sorted_wrt (\<lambda>a b. metaslab_compare (key_at ?q a) (key_at ?q b) < 0) ys"
    using t(4) sorted_keys_cong[of ys "key_at ?q" "key_at p"] t(3) by auto
  then have "mg_inv ?q mg (ms - {msp})"
    using t(2,3) xs(2) mg_inv_start[OF inv] mg_inv_member[OF inv] by (intro mg_invI[of ?q mg ys]) simp_all
  moreover have "metaslab_group_remove mg msp p = Inr ?q"
    using mg_inv_member[OF inv assms(2)] t(1) by (simp add: metaslab_group_remove_def Let_def set_tree_fun)
  ultimately show ?thesis unfolding Let_def by blast
qed

definition set_weight :: "u64 \<Rightarrow> metaslab \<Rightarrow> metaslab" where
  "set_weight wt m = m\<lparr>ms_weight := wt\<rparr>"

lemma set_weight_simps [simp]:
  "ms_weight (set_weight wt m) = wt" "ms_map (set_weight wt m) = ms_map m" "ms_group (set_weight wt m) = ms_group m"
  "ms_smo (set_weight wt m) = ms_smo m" "ms_smo_syncing (set_weight wt m) = ms_smo_syncing m"
  "ms_allocmap (set_weight wt m) = ms_allocmap m" "ms_freemap (set_weight wt m) = ms_freemap m"
  "ms_defermap (set_weight wt m) = ms_defermap m" "ms_deferspace (set_weight wt m) = ms_deferspace m"
  by (simp_all add: set_weight_def)

lemma set_weight_fun: "ms_weight_update (\<lambda>_. wt) = set_weight wt"
  by (simp add: fun_eq_iff set_weight_def)

lemma metaslab_group_sort_inv:
  assumes inv: "mg_inv p mg ms" and "msp \<in> ms" "wt \<ge> SPA_MINBLOCKSIZE - 1 \<or> wt = 0"
  shows "\<exists>t. let p' = upd_mg mg (set_tree t) (upd_ms msp (set_weight wt) p)
     in metaslab_group_sort mg msp wt p = Inr p' \<and> mg_inv p' mg ms"
proof -
  obtain xs where xs: "avl_inv (mg_metaslab_tree (p_mg p mg)) xs" "set xs = ms"
    "sorted_wrt (\<lambda>a b. metaslab_compare (key_at p a) (key_at p b) < 0) xs" using mg_invD[OF inv] .
  obtain t1 ys where t1: "avl_remove (mg_metaslab_tree (p_mg p mg)) msp = Inr t1" "avl_inv t1 ys" "set ys = ms - {msp}"
    "sorted_wrt (\<lambda>a b. metaslab_compare (key_at p a) (key_at p b) < 0) ys"
    using ms_order.avl_remove_key[OF xs(1,3)] assms(2) xs(2) by blast
  let ?p = "upd_ms msp (set_weight wt) p"
  have sorted: "sorted_wrt (\<lambda>a b. metaslab_compare (key_at ?p a) (key_at ?p b) < 0) ys"
    using t1(4) sorted_keys_cong[of ys "key_at ?p" "key_at p"] t1(3) by auto
  have "key_at ?p msp \<notin> key_at ?p ` set ys"
  proof (rule fresh_key)
    fix b assume "b \<in> set ys"
    then have "b \<in> ms" "b \<noteq> msp" using t1(3) by auto
    then show "sm_start (ms_map (p_ms ?p b)) \<noteq> sm_start (ms_map (p_ms ?p msp))"
      using mg_inv_start[OF inv, of b msp] assms(2) by auto
  qed
  moreover have "msp \<noteq> avl_tmp" using avl_inv_distinct[OF xs(1)] xs(2) assms(2) by auto
  ultimately obtain t zs where t: "avl_add (ms_compar ?p msp) t1 msp = Inr t" "avl_inv t zs"
    "set zs = insert msp (set ys)" "sorted_wrt (\<lambda>a b. metaslab_compare (key_at ?p a) (key_at ?p b) < 0) zs"
    using ms_order.avl_add_key[OF t1(2) sorted] unfolding ms_compar_def by blast
  let ?q = "upd_mg mg (set_tree t) ?p"
  have "insert msp (set ys) = ms" using t1(3) assms(2) by auto
  then have "mg_inv ?q mg ms"
  proof (intro mg_invI[of ?q mg zs])
    show "a = b" if "a \<in> ms" "b \<in> ms" "sm_start (ms_map (p_ms ?q a)) = sm_start (ms_map (p_ms ?q b))" for a b
      using that mg_inv_start[OF inv, of a b] by (simp split: if_splits)
    show "ms_group (p_ms ?q a) = Some mg" if "a \<in> ms" for a
      using that mg_inv_member[OF inv that] by auto
  qed (use t(2-4) in simp_all)
  moreover have "metaslab_group_sort mg msp wt p = Inr ?q"
  proof -
    let ?r = "upd_ms msp (set_weight wt) (upd_mg mg (set_tree t1) p)"
    have "ms_compar ?r msp = ms_compar ?p msp" by (simp add: ms_compar_def fun_eq_iff)
    moreover have "upd_mg mg (set_tree t) ?r = ?q" by (simp add: upd_ms_def upd_mg_def)
    ultimately show ?thesis
      using mg_inv_member[OF inv assms(2)] assms(3) t1(1) t(1)
      by (simp add: metaslab_group_sort_def Let_def set_weight_fun set_tree_fun)
  qed
  ultimately show ?thesis unfolding Let_def by blast
qed

end
