(* ===== verification/Metaslab_Weight.thy ===== *)
theory Metaslab_Weight
  imports Metaslab_Group Space_Map_Sync
begin

text \<open>
  The weight of a metaslab lies between the free space of its committed space map and twice that, below the two bits
  that mark an active metaslab; sorting a metaslab by its weight keeps the group in order.
\<close>

section \<open>Sets of whole units\<close>

definition unit_aligned :: "nat \<Rightarrow> nat set \<Rightarrow> bool" where
  "unit_aligned K S \<longleftrightarrow> (\<forall>x. x \<in> S \<longleftrightarrow> K * (x div K) \<in> S)"

lemma unit_aligned_ops:
  "unit_aligned K {}" "unit_aligned K S \<Longrightarrow> unit_aligned K T \<Longrightarrow> unit_aligned K (S \<union> T)"
  "unit_aligned K S \<Longrightarrow> unit_aligned K T \<Longrightarrow> unit_aligned K (S - T)"
  unfolding unit_aligned_def by blast+

lemma unit_aligned_interval:
  assumes "K dvd a" "K dvd b" "0 < K"
  shows "unit_aligned K {a ..< b}"
proof -
  have "a \<le> x \<longleftrightarrow> a \<le> K * (x div K)" "x < b \<longleftrightarrow> K * (x div K) < b" for x
  proof -
    obtain i j where ij: "a = K * i" "b = K * j" using assms(1,2) unfolding dvd_def by blast
    have "a \<le> x \<longleftrightarrow> i \<le> x div K" using assms(3) ij(1) by (simp add: less_eq_div_iff_mult_less_eq mult.commute)
    moreover have "x < b \<longleftrightarrow> x div K < j" using assms(3) ij(2) by (simp add: div_less_iff_less_mult mult.commute)
    ultimately show "a \<le> x \<longleftrightarrow> a \<le> K * (x div K)" "x < b \<longleftrightarrow> K * (x div K) < b" using assms(3) ij by auto
  qed
  then show ?thesis unfolding unit_aligned_def atLeastLessThan_iff by blast
qed

lemma card_unit_aligned:
  assumes "unit_aligned K S" "finite S" "0 < K"
  shows "K dvd card S"
proof -
  let ?U = "(\<lambda>x. x div K) ` S"
  have S: "S = (\<Union>u \<in> ?U. {K * u ..< K * u + K})"
  proof (intro equalityI subsetI)
    fix x assume "x \<in> S"
    moreover have "K * (x div K) \<le> x" "x < K * (x div K) + K"
      using assms(3) by (metis mult_div_mod_eq le_add1, metis mult_div_mod_eq mod_less_divisor nat_add_left_cancel_less)
    ultimately show "x \<in> (\<Union>u \<in> ?U. {K * u ..< K * u + K})" unfolding UN_iff atLeastLessThan_iff by blast
  next
    fix x assume "x \<in> (\<Union>u \<in> ?U. {K * u ..< K * u + K})"
    then obtain y where y: "y \<in> S" "K * (y div K) \<le> x" "x < K * (y div K) + K" by auto
    then have "x div K = y div K" using assms(3)
      by (metis add.commute div_nat_eqI mult.commute mult_Suc_right)
    then show "x \<in> S" using y(1) assms(1) unfolding unit_aligned_def by metis
  qed
  have "card (\<Union>u \<in> ?U. {K * u ..< K * u + K}) = (\<Sum>u \<in> ?U. card {K * u ..< K * u + K})"
  proof (rule card_UN_disjoint)
    show "\<forall>i \<in> ?U. \<forall>j \<in> ?U. i \<noteq> j \<longrightarrow> {K * i ..< K * i + K} \<inter> {K * j ..< K * j + K} = {}"
    proof (intro ballI impI equals0I)
      fix i j x assume "i \<noteq> j" "x \<in> {K * i ..< K * i + K} \<inter> {K * j ..< K * j + K}"
      moreover from this have "x div K = i" "x div K = j"
        by (auto intro!: div_nat_eqI simp: mult.commute add.commute)
      ultimately show False by simp
    qed
  qed (use assms(2) in auto)
  also have "\<dots> = card ?U * K" by simp
  finally show ?thesis using S by simp
qed

lemma log_set_aligned:
  assumes "log_ok g mt es S" "unit_aligned (2 ^ unat (sm_shift g)) S"
  shows "unit_aligned (2 ^ unat (sm_shift g)) (log_set g mt es S)"
  using assms
proof (induction es arbitrary: S)
  case (Cons e es)
  let ?K = "2 ^ unat (sm_shift g) :: nat"
  have "unit_aligned ?K (e_set g e)" if "sm_range g (e_start g e) (e_size g e)"
    using that unit_aligned_interval[of ?K] by (auto simp: sm_range_def)
  then have "unit_aligned ?K (log_step g mt e S)"
    using Cons.prems unfolding log_step_def log_ok.simps log_fits_def
    by (auto intro: unit_aligned_ops split: if_splits)
  with Cons show ?case by simp
qed simp

section \<open>Weights\<close>

text \<open>A metaslab is one of the equal parts of \<open>2 ^ vdev_ms_shift\<close> bytes into which the vdev is divided.\<close>

definition ms_place :: "top_vdev \<Rightarrow> space_map \<Rightarrow> bool" where
  "ms_place vd sm \<longleftrightarrow>
     (let s = unat (vdev_ms_shift (node_of vd))
      in ucast (vdev_ashift (node_of vd)) = sm_shift sm \<and> 9 \<le> unat (sm_shift sm) \<and> unat (sm_shift sm) \<le> s \<and> s < 57 \<and> unat (sm_size sm) = 2 ^ s
         \<and> 2 ^ s dvd unat (sm_start sm) \<and> unat (sm_start sm) div 2 ^ s < unat (vdev_ms_count vd)
         \<and> unat (sm_start sm) + unat (sm_size sm) < 2 ^ 64)"

lemma ms_placeD:
  assumes "ms_place vd sm"
  shows "sm_range sm (sm_start sm) (sm_size sm)" "log_geometry sm" "2 ^ unat (sm_shift sm) dvd unat (sm_start sm)"
    "2 ^ unat (sm_shift sm) dvd unat (sm_size sm)" "unat (sm_size sm) < 2 ^ 57"
proof -
  let ?s = "unat (vdev_ms_shift (node_of vd))"
  have p: "9 \<le> unat (sm_shift sm)" "unat (sm_shift sm) \<le> ?s" "?s < 57" "unat (sm_size sm) = 2 ^ ?s" "2 ^ ?s dvd unat (sm_start sm)"
    "unat (sm_start sm) + unat (sm_size sm) < 2 ^ 64"
    using assms by (auto simp: ms_place_def Let_def)
  show k: "2 ^ unat (sm_shift sm) dvd unat (sm_size sm)" using p(2,4) by (simp add: le_imp_power_dvd)
  then show st: "2 ^ unat (sm_shift sm) dvd unat (sm_start sm)" using p(4,5) by (metis dvd_trans)
  show lt: "unat (sm_size sm) < 2 ^ 57" unfolding p(4) using p(3) by (rule power_strict_increasing) simp
  show "sm_range sm (sm_start sm) (sm_size sm)"
    using p(4) k st by (auto simp: sm_range_def simp flip: unat_gt_0)
  have "(2 :: nat) ^ ?s \<le> 2 ^ (47 + unat (sm_shift sm))" using p(1,3) by (intro power_increasing) simp_all
  then show "log_geometry sm"
    using p st by (simp add: log_geometry_def sm_fits_def power_add)
qed

lemma fragmented_returns:
  assumes "sm_active t sm"
  shows "\<exists>b. rbind (deref (sm_ops sm)) (\<lambda>t. smop_fragmented (metaslab_ops t) sm) = Inr b"
proof -
  have i: "sm_inv sm" "sm_ready sm" "sm_ops sm = Some t" "ops_good t sm" using assms by (auto simp: sm_active_def)
  obtain m where "space_map_maxsize metaslab_ops sm = Inr m" using sm_active_maxsize[OF assms] .
  then have "metaslab_pp_maxsize sm = Inr m" using i(3) by (cases t) (auto simp: space_map_maxsize_def metaslab_ff_ops_def
    metaslab_df_ops_def metaslab_cdf_ops_def metaslab_ndf_ops_def)
  moreover have "sm_size sm \<noteq> 0" if "t = metaslab_df" using i(4) that by simp
  ultimately show ?thesis using i(3)
    by (cases t) (auto simp: metaslab_ff_ops_def metaslab_df_ops_def metaslab_cdf_ops_def metaslab_ndf_ops_def
      metaslab_ff_fragmented_def metaslab_df_fragmented_def metaslab_cdf_fragmented_def metaslab_ndf_fragmented_def free_pct_def)
qed

text \<open>The free space that the committed space map leaves.\<close>

lemma smo_space:
  assumes "smo_ok contents sm SM_FREE smo os" "ms_place vd sm"
  shows "unat (sm_size sm - smo_alloc smo) = card (logged contents sm SM_FREE smo os)"
    and "512 dvd unat (sm_size sm - smo_alloc smo)" "unat (sm_size sm - smo_alloc smo) \<le> unat (sm_size sm)"
proof -
  let ?S = "logged contents sm SM_FREE smo os" and ?N = "unat (sm_size sm)" and ?K = "2 ^ unat (sm_shift sm) :: nat"
  note pl = ms_placeD[OF assms(2)]
  have ok: "unat (smo_alloc smo) = ?N - card ?S" "log_ok sm SM_FREE (contents os (smo_object smo)) (load_start sm SM_FREE)"
    using assms(1) by (auto simp: smo_ok_def Let_def)
  have sub: "?S \<subseteq> range_set (sm_start sm) (sm_size sm)"
    using log_set_range[OF ok(2)] pl(2) by (simp add: load_start_def log_geometry_def)
  then have le: "card ?S \<le> ?N" and fin: "finite ?S"
    using card_mono[of "range_set (sm_start sm) (sm_size sm)" ?S] finite_subset[OF sub] by auto
  show c: "unat (sm_size sm - smo_alloc smo) = card ?S"
    using ok(1) le by (simp add: unat_diff_le word_le_nat_alt)
  have "unit_aligned ?K (load_start sm SM_FREE)"
    using pl(3,4) by (auto simp: load_start_def intro!: unit_aligned_interval)
  then have "?K dvd card ?S" using log_set_aligned[OF ok(2)] fin by (intro card_unit_aligned) simp_all
  moreover have "(512 :: nat) dvd ?K"
    using assms(2) le_imp_power_dvd[of 9 "unat (sm_shift sm)" "2 :: nat"] by (simp add: ms_place_def Let_def)
  ultimately show "512 dvd unat (sm_size sm - smo_alloc smo)" unfolding c by (rule dvd_trans[rotated])
  show "unat (sm_size sm - smo_alloc smo) \<le> ?N" using c le by simp
qed

lemma base_weight:
  fixes space :: u64
  assumes "ms_place vd sm" "unat space \<le> unat (sm_size sm)"
  defines "wt \<equiv> 2 * space - (drop_bit (unat (vdev_ms_shift (node_of vd))) (sm_start sm) * space) div vdev_ms_count vd"
  shows "space \<le> wt" "wt \<le> 2 * space" "unat (2 * space) = 2 * unat space" "unat (2 * space) < 2 ^ 58"
proof -
  let ?s = "unat (vdev_ms_shift (node_of vd))" and ?i = "drop_bit (unat (vdev_ms_shift (node_of vd))) (sm_start sm)"
    and ?n = "vdev_ms_count vd"
  have p: "unat (sm_size sm) = 2 ^ ?s" "unat (sm_start sm) div 2 ^ ?s < unat ?n" using assms(1) by (auto simp: ms_place_def Let_def)
  have i: "unat ?i = unat (sm_start sm) div 2 ^ ?s" unfolding unat_drop_bit_eq by (rule drop_bit_eq_div)
  have lim: "unat space < 2 ^ 57" using assms(2) ms_placeD(5)[OF assms(1)] by simp
  have "unat ?i * unat space \<le> unat (sm_start sm) div 2 ^ ?s * 2 ^ ?s" using assms(2) p(1) unfolding i by (intro mult_le_mono) simp_all
  also have "\<dots> \<le> unat (sm_start sm)" by (rule div_times_less_eq_dividend)
  finally have prod: "unat (?i * space) = unat ?i * unat space" using unat_less_64[of "sm_start sm"]
    by (subst unat_mult_lem[THEN iffD1]) simp_all
  have "unat ?i * unat space div unat ?n \<le> unat space"
  proof -
    have "unat ?i * unat space \<le> unat ?n * unat space" using p(2) unfolding i by (intro mult_le_mono) simp_all
    then have "unat ?i * unat space div unat ?n \<le> unat ?n * unat space div unat ?n" by (rule div_le_mono)
    then show ?thesis using p(2) by simp
  qed
  then have q: "unat (?i * space div ?n) \<le> unat space" using prod by (simp add: unat_div)
  show two: "unat (2 * space) = 2 * unat space"
    using lim by (subst unat_mult_lem[THEN iffD1]) simp_all
  show "unat (2 * space) < 2 ^ 58" using two lim by simp
  have "unat wt = 2 * unat space - unat (?i * space div ?n)"
    unfolding wt_def using q two by (subst unat_diff_le) (simp_all add: word_le_nat_alt)
  then show "space \<le> wt" "wt \<le> 2 * space" using q two by (simp_all add: word_le_nat_alt)
qed

lemma bit_active_mask: "bit METASLAB_ACTIVE_MASK n \<longleftrightarrow> n = 62 \<or> n = 63"
  unfolding METASLAB_ACTIVE_MASK_def METASLAB_WEIGHT_PRIMARY_def METASLAB_WEIGHT_SECONDARY_def bit_or_iff bit_push_bit_iff bit_1_iff
  by auto

lemma active_mask_low:
  assumes "unat w < 2 ^ 62"
  shows "w AND METASLAB_ACTIVE_MASK = 0"
proof -
  have "\<not> bit w n" if "62 \<le> n" for n
  proof -
    have "unat w < 2 ^ n" using assms that by (rule order.strict_trans2[OF _ power_increasing]) simp
    then have "\<not> bit (unat w) n" by (simp add: bit_iff_odd)
    then show ?thesis using bit_imp_le_length[of w n] by (auto simp: bit_unsigned_iff)
  qed
  then show ?thesis
    by (intro bit_eqI) (auto simp: bit_and_iff bit_active_mask)
qed

text \<open>What the weight needs of the committed space map.\<close>

definition smo_fits :: "space_map \<Rightarrow> space_map_obj \<Rightarrow> bool" where
  "smo_fits sm smo \<longleftrightarrow> smo_alloc smo \<le> sm_size sm \<and> 512 dvd unat (sm_size sm - smo_alloc smo)"

lemma smo_ok_fits:
  assumes "smo_ok contents sm SM_FREE smo os" "ms_place vd sm"
  shows "smo_fits sm smo"
  using smo_space(2)[OF assms] assms(1) by (simp add: smo_fits_def smo_ok_def Let_def word_le_nat_alt)

lemma metaslab_weight_inv:
  assumes place: "ms_place vd (ms_map m)" and ok: "smo_fits (ms_map m) (ms_smo m)"
    and act: "sm_loaded (ms_map m) \<Longrightarrow> \<exists>t. sm_active t (ms_map m)"
  defines "space \<equiv> unat (sm_size (ms_map m) - smo_alloc (ms_smo m))"
  shows "\<exists>w0 b. metaslab_weight mg vd m = Inr (w0 OR (if b then ms_weight m AND METASLAB_ACTIVE_MASK else 0))
     \<and> space \<le> unat w0 \<and> unat w0 \<le> 2 * space \<and> w0 AND METASLAB_ACTIVE_MASK = 0 \<and> (b \<longrightarrow> sm_loaded (ms_map m)) \<and> 512 dvd space"
proof -
  let ?sp = "sm_size (ms_map m) - smo_alloc (ms_smo m)"
  define w0 where "w0 = 2 * ?sp - (drop_bit (unat (vdev_ms_shift (node_of vd))) (sm_start (ms_map m)) * ?sp) div vdev_ms_count vd"
  have sp: "unat ?sp \<le> unat (sm_size (ms_map m))" "512 dvd space"
    using ok unfolding smo_fits_def space_def by (simp add: unat_diff_le, blast)
  note w = base_weight[OF place sp(1), folded w0_def]
  have pct: "metaslab_smo_bonus_pct div 100 = 1" by (simp add: metaslab_smo_bonus_pct_def)
  obtain b where b: "(if sm_loaded (ms_map m) then rbind (deref (sm_ops (ms_map m))) (\<lambda>t. smop_fragmented (metaslab_ops t) (ms_map m))
      else Inr True) = Inr b"
    using fragmented_returns act by (cases "sm_loaded (ms_map m)") fastforce+
  have "metaslab_weight mg vd m = Inr (w0 OR (if sm_loaded (ms_map m) \<and> \<not> b then ms_weight m AND METASLAB_ACTIVE_MASK else 0))"
    unfolding metaslab_weight_def Let_def w0_def[symmetric] pct b using w(1,2) by simp
  moreover have "space \<le> unat w0" "unat w0 \<le> 2 * space"
    using w(1,2,3) by (simp_all add: space_def word_le_nat_alt)
  moreover have "w0 AND METASLAB_ACTIVE_MASK = 0"
    using w(2,4) by (intro active_mask_low) (simp add: word_le_nat_alt)
  ultimately show ?thesis using sp(2) by (intro exI[of _ w0] exI[of _ "sm_loaded (ms_map m) \<and> \<not> b"] conjI) simp_all
qed

lemma mask_weight_ok:
  assumes "512 dvd n" "n \<le> unat (w0 :: u64)" "unat w0 \<le> 2 * n"
  shows "w0 OR (if b then w AND METASLAB_ACTIVE_MASK else 0) \<ge> SPA_MINBLOCKSIZE - 1
    \<or> w0 OR (if b then w AND METASLAB_ACTIVE_MASK else 0) = 0"
proof (cases "n = 0")
  case False
  then have "512 \<le> unat w0" using assms by (auto dest: dvd_imp_le)
  then have "SPA_MINBLOCKSIZE - 1 \<le> w0" by (simp add: SPA_MINBLOCKSIZE_def SPA_MINBLOCKSHIFT_def word_le_nat_alt)
  then show ?thesis using le_word_or2 order_trans by blast
next
  case True
  then have w0: "w0 = 0" using assms(3) by (simp add: unat_eq_0)
  let ?x = "w AND METASLAB_ACTIVE_MASK"
  have "?x = 0" if "unat ?x < 2 ^ 62" using active_mask_low[OF that] by (simp add: and.assoc)
  moreover have "SPA_MINBLOCKSIZE - 1 \<le> ?x" if "2 ^ 62 \<le> unat ?x"
    using that by (simp add: SPA_MINBLOCKSIZE_def SPA_MINBLOCKSHIFT_def word_le_nat_alt)
  ultimately show ?thesis unfolding w0 by (cases "unat ?x < 2 ^ 62") (auto simp: not_less)
qed

text \<open>Sorting a metaslab by its new weight: the weight is that of its free space, with the active bits if it stays active.\<close>

lemma reweigh_inv:
  assumes inv: "mg_inv p mg ms" "msp \<in> ms" and place: "ms_place (p_vd p (mg_vd (p_mg p mg))) (ms_map (p_ms p msp))"
    and ok: "smo_fits (ms_map (p_ms p msp)) (ms_smo (p_ms p msp))"
    and act: "sm_loaded (ms_map (p_ms p msp)) \<Longrightarrow> \<exists>t. sm_active t (ms_map (p_ms p msp))"
  defines "space \<equiv> unat (sm_size (ms_map (p_ms p msp)) - smo_alloc (ms_smo (p_ms p msp)))"
  shows "\<exists>tr w0 b. let wt = w0 OR (if b then ms_weight (p_ms p msp) AND METASLAB_ACTIVE_MASK else 0);
       p' = upd_mg mg (set_tree tr) (upd_ms msp (set_weight wt) p)
     in reweigh mg msp p = Inr p' \<and> mg_inv p' mg ms
        \<and> space \<le> unat w0 \<and> unat w0 \<le> 2 * space \<and> w0 AND METASLAB_ACTIVE_MASK = 0 \<and> (b \<longrightarrow> sm_loaded (ms_map (p_ms p msp)))"
proof -
  obtain w0 b where w: "metaslab_weight (p_mg p mg) (p_vd p (mg_vd (p_mg p mg))) (p_ms p msp)
      = Inr (w0 OR (if b then ms_weight (p_ms p msp) AND METASLAB_ACTIVE_MASK else 0))"
    "space \<le> unat w0" "unat w0 \<le> 2 * space" "w0 AND METASLAB_ACTIVE_MASK = 0" "b \<longrightarrow> sm_loaded (ms_map (p_ms p msp))" "512 dvd space"
    using metaslab_weight_inv[OF place ok act, of "p_mg p mg"] unfolding space_def by blast
  let ?wt = "w0 OR (if b then ms_weight (p_ms p msp) AND METASLAB_ACTIVE_MASK else 0)"
  obtain tr where "metaslab_group_sort mg msp ?wt p = Inr (upd_mg mg (set_tree tr) (upd_ms msp (set_weight ?wt) p))"
    "mg_inv (upd_mg mg (set_tree tr) (upd_ms msp (set_weight ?wt) p)) mg ms"
    using metaslab_group_sort_inv[OF inv mask_weight_ok[OF w(6,2,3), of b "ms_weight (p_ms p msp)"]] unfolding Let_def by blast
  then show ?thesis using w unfolding Let_def reweigh_def by (intro exI[of _ tr] exI[of _ w0] exI[of _ b]) simp
qed

end
