(* ===== verification/Metaslab_Inv.thy ===== *)
theory Metaslab_Inv
  imports Metaslab_Weight Space_Map_Sync
begin

text \<open>
  What the maps of a metaslab mean (\<open>ms_view\<close>) and the invariant that ties them to the space map on disk (\<open>ms_inv\<close>), relative to
  the transaction group \<open>T\<close> that syncs next: \<open>T\<close>, \<open>T + 1\<close> and \<open>T + 2\<close> may be syncing, quiescing and open.
\<close>

section \<open>Slots\<close>

lemma TXG_IDX_mod: "TXG_IDX txg = unat txg mod 4"
proof -
  have "txg AND TXG_MASK = take_bit 2 txg"
    by (simp add: TXG_MASK_def TXG_SIZE_def take_bit_eq_mask mask_eq_exp_minus_1)
  then have "TXG_IDX txg = take_bit 2 (unat txg)" unfolding TXG_IDX_def by (simp only: unsigned_take_bit_eq)
  then show ?thesis by (simp add: take_bit_eq_mod)
qed

text \<open>The slot of \<open>T + i\<close>. The slot of \<open>T - 1\<close> is that of \<open>T + 3\<close>.\<close>

definition slot_at :: "u64 \<Rightarrow> nat \<Rightarrow> nat" where
  "slot_at T i = (unat T + i) mod 4"

lemma unat_add_mod4: "unat (T + of_nat i :: u64) mod 4 = (unat T + i) mod 4"
proof -
  have "unat (T + of_nat i) = (unat T + i) mod 2 ^ 64"
    by (simp add: unat_word_ariths unsigned_of_nat take_bit_eq_mod mod_simps)
  then show ?thesis by (simp add: mod_mod_cancel)
qed

lemma TXG_IDX_slot: "TXG_IDX (T + of_nat i) = slot_at T i"
  by (simp add: TXG_IDX_mod slot_at_def unat_add_mod4)

lemma TXG_IDX_now: "TXG_IDX T = slot_at T 0"
  using TXG_IDX_slot[of T 0] by simp

lemma TXG_IDX_clean: "TXG_IDX (TXG_CLEAN T) = slot_at T 3"
proof -
  have "T = TXG_CLEAN T + of_nat 1" by (simp add: TXG_CLEAN_def)
  then have "unat T mod 4 = (unat (TXG_CLEAN T) + 1) mod 4" using unat_add_mod4[of "TXG_CLEAN T" 1] by simp
  then have "(unat T + 3) mod 4 = (unat (TXG_CLEAN T) + 1 + 3) mod 4" by (rule mod_add_cong) simp
  then show ?thesis by (simp add: TXG_IDX_mod slot_at_def)
qed

lemma slot_at_add: "slot_at (T + of_nat j) i = slot_at T (j + i)"
  unfolding slot_at_def using unat_add_mod4[of T j] by (metis mod_add_left_eq add.assoc)

lemma slot_at_simps [simp]: "slot_at T i < 4" "slot_at T 4 = slot_at T 0" "slot_at T 5 = slot_at T 1"
proof -
  show "slot_at T i < 4" by (simp add: slot_at_def)
  have "(unat T + 4) mod 4 = unat T mod 4" "(unat T + 1 + 4) mod 4 = (unat T + 1) mod 4" by (rule mod_add_self2)+
  then show "slot_at T 4 = slot_at T 0" "slot_at T 5 = slot_at T 1" by (simp_all add: slot_at_def add.commute)
qed

lemma slot_at_eq:
  assumes "i < 4" "j < 4"
  shows "slot_at T i = slot_at T j \<longleftrightarrow> i = j"
proof -
  have "i = j" if "(a + i) mod 4 = (a + j) mod 4" for a
  proof -
    have cases4: "n = 0 \<or> n = 1 \<or> n = 2 \<or> n = 3" if "n < 4" for n :: nat using that by auto
    have "(a mod 4 + i) mod 4 = (a mod 4 + j) mod 4" using that by (simp add: mod_simps)
    moreover have "a mod 4 = 0 \<or> a mod 4 = 1 \<or> a mod 4 = 2 \<or> a mod 4 = 3" by (rule cases4) simp
    ultimately show ?thesis using cases4[OF assms(1)] cases4[OF assms(2)] by auto
  qed
  then show ?thesis by (auto simp: slot_at_def)
qed

lemma slot_at_onto:
  assumes "t < 4"
  shows "\<exists>i < 4. t = slot_at T i"
proof (intro exI conjI)
  let ?r = "unat T mod 4"
  have "(unat T + (t + (4 - ?r))) mod 4 = (?r + (t + (4 - ?r))) mod 4" by (simp only: mod_add_left_eq)
  also have "?r + (t + (4 - ?r)) = t + 4" by (simp add: less_imp_le)
  finally show "t = slot_at T ((t + (4 - ?r)) mod 4)" using assms by (simp add: slot_at_def mod_add_right_eq)
qed simp

lemma defer_index: "unat (T + 1 :: u64) mod 2 = (unat T + 1) mod 2"
proof -
  have "unat (T + 1 :: u64) mod 4 = (unat T + 1) mod 4" using unat_add_mod4[of T 1] by simp
  then have "unat (T + 1 :: u64) mod 4 mod 2 = (unat T + 1) mod 4 mod 2" by (rule arg_cong)
  then show ?thesis by (simp add: mod_mod_cancel)
qed

section \<open>The view of a metaslab\<close>

record ms_view =
  v_disk :: "nat set"
  v_avail :: "nat set"
  v_alloc :: "nat set list"
  v_free :: "nat set list"
  v_freed :: "nat set"
  v_defer :: "nat set list"

fun disjl :: "'a set list \<Rightarrow> bool" where
  "disjl [] = True"
| "disjl (x # xs) = (x \<inter> \<Union> (set xs) = {} \<and> disjl xs)"

text \<open>
  The space that is free on disk is available, or allocated in one of the three open transaction groups, or freed by the
  syncing one or deferred since earlier ones; and no two of these at once. What is being freed is not free on disk once the
  allocations up to that transaction group are, and nothing is freed twice.
\<close>

definition view_ok :: "ms_view \<Rightarrow> bool" where
  "view_ok v \<longleftrightarrow> length (v_alloc v) = 3 \<and> length (v_free v) = 3 \<and> length (v_defer v) = 2
     \<and> disjl (v_avail v # v_freed v # v_alloc v @ v_defer v)
     \<and> v_disk v = \<Union> (set (v_avail v # v_freed v # v_alloc v @ v_defer v))
     \<and> disjl (v_free v) \<and> (\<forall>i < 3. v_free v ! i \<inter> (v_disk v - \<Union> (set (take (Suc i) (v_alloc v)))) = {})"

text \<open>What a sync of \<open>T\<close> and its completion do.\<close>

definition spec_sync :: "ms_view \<Rightarrow> ms_view" where
  "spec_sync v = v\<lparr>v_disk := v_disk v - v_alloc v ! 0 \<union> v_free v ! 0, v_freed := v_freed v \<union> v_free v ! 0,
     v_alloc := (v_alloc v)[0 := {}], v_free := (v_free v)[0 := {}]\<rparr>"

definition spec_sync_done :: "ms_view \<Rightarrow> ms_view" where
  "spec_sync_done v = v\<lparr>v_avail := v_avail v \<union> v_defer v ! 0, v_defer := tl (v_defer v) @ [v_freed v], v_freed := {},
     v_alloc := tl (v_alloc v) @ [{}], v_free := tl (v_free v) @ [{}]\<rparr>"

text \<open>Allocating \<open>R\<close> in the transaction group \<open>T + i\<close>, giving it back at once, and freeing it.\<close>

definition spec_alloc :: "nat \<Rightarrow> nat set \<Rightarrow> ms_view \<Rightarrow> ms_view" where
  "spec_alloc i R v = v\<lparr>v_avail := v_avail v - R, v_alloc := (v_alloc v)[i := v_alloc v ! i \<union> R]\<rparr>"

definition spec_free_now :: "nat \<Rightarrow> nat set \<Rightarrow> ms_view \<Rightarrow> ms_view" where
  "spec_free_now i R v = v\<lparr>v_avail := v_avail v \<union> R, v_alloc := (v_alloc v)[i := v_alloc v ! i - R]\<rparr>"

definition spec_free :: "nat \<Rightarrow> nat set \<Rightarrow> ms_view \<Rightarrow> ms_view" where
  "spec_free i R v = v\<lparr>v_free := (v_free v)[i := v_free v ! i \<union> R]\<rparr>"

text \<open>What may be freed in \<open>T + i\<close>: space that is in use then and not being freed.\<close>

definition in_use :: "nat \<Rightarrow> nat set \<Rightarrow> ms_view \<Rightarrow> bool" where
  "in_use i R v \<longleftrightarrow> R \<inter> (v_disk v - \<Union> (set (take (Suc i) (v_alloc v)))) = {} \<and> (\<forall>F \<in> set (v_free v). R \<inter> F = {})"

lemma view_expand:
  assumes "view_ok v"
  obtains a0 a1 a2 f0 f1 f2 d0 d1 where "v_alloc v = [a0, a1, a2]" "v_free v = [f0, f1, f2]" "v_defer v = [d0, d1]"
proof -
  have "\<exists>x y z. xs = [x, y, z]" if "length xs = 3" for xs :: "nat set list"
    using that by (cases xs; cases "tl xs"; cases "tl (tl xs)") auto
  moreover have "\<exists>x y. xs = [x, y]" if "length xs = 2" for xs :: "nat set list"
    using that by (cases xs; cases "tl xs") auto
  ultimately show thesis using assms that unfolding view_ok_def by metis
qed

lemma all_less_3: "(\<forall>i < 3. P i) \<longleftrightarrow> P 0 \<and> P 1 \<and> P (2 :: nat)"
  by (metis One_nat_def Suc_1 less_2_cases_iff less_Suc_eq numeral_3_eq_3 zero_less_Suc)

text \<open>The same, point by point.\<close>

definition view_pt :: "bool \<Rightarrow> bool \<Rightarrow> bool \<Rightarrow> bool \<Rightarrow> bool \<Rightarrow> bool \<Rightarrow> bool \<Rightarrow> bool \<Rightarrow> bool \<Rightarrow> bool \<Rightarrow> bool \<Rightarrow> bool" where
  "view_pt S M a0 a1 a2 f0 f1 f2 R d0 d1 \<longleftrightarrow>
     (M \<longrightarrow> \<not> (R \<or> a0 \<or> a1 \<or> a2 \<or> d0 \<or> d1)) \<and> (R \<longrightarrow> \<not> (a0 \<or> a1 \<or> a2 \<or> d0 \<or> d1)) \<and> (a0 \<longrightarrow> \<not> (a1 \<or> a2 \<or> d0 \<or> d1))
     \<and> (a1 \<longrightarrow> \<not> (a2 \<or> d0 \<or> d1)) \<and> (a2 \<longrightarrow> \<not> (d0 \<or> d1)) \<and> (d0 \<longrightarrow> \<not> d1)
     \<and> (S \<longleftrightarrow> M \<or> R \<or> a0 \<or> a1 \<or> a2 \<or> d0 \<or> d1) \<and> (f0 \<longrightarrow> \<not> (f1 \<or> f2)) \<and> (f1 \<longrightarrow> \<not> f2)
     \<and> (S \<longrightarrow> f0 \<longrightarrow> a0) \<and> (S \<longrightarrow> f1 \<longrightarrow> a0 \<or> a1) \<and> (S \<longrightarrow> f2 \<longrightarrow> a0 \<or> a1 \<or> a2)"

lemma view_ok_lists:
  "view_ok \<lparr>v_disk = S, v_avail = M, v_alloc = [a0, a1, a2], v_free = [f0, f1, f2], v_freed = R, v_defer = [d0, d1]\<rparr> \<longleftrightarrow>
    (\<forall>x. view_pt (x \<in> S) (x \<in> M) (x \<in> a0) (x \<in> a1) (x \<in> a2) (x \<in> f0) (x \<in> f1) (x \<in> f2) (x \<in> R) (x \<in> d0) (x \<in> d1))"
proof -
  have "disjl [M, R, a0, a1, a2, d0, d1] \<longleftrightarrow> (\<forall>x. (x \<in> M \<longrightarrow> \<not> (x \<in> R \<or> x \<in> a0 \<or> x \<in> a1 \<or> x \<in> a2 \<or> x \<in> d0 \<or> x \<in> d1))
     \<and> (x \<in> R \<longrightarrow> \<not> (x \<in> a0 \<or> x \<in> a1 \<or> x \<in> a2 \<or> x \<in> d0 \<or> x \<in> d1)) \<and> (x \<in> a0 \<longrightarrow> \<not> (x \<in> a1 \<or> x \<in> a2 \<or> x \<in> d0 \<or> x \<in> d1))
     \<and> (x \<in> a1 \<longrightarrow> \<not> (x \<in> a2 \<or> x \<in> d0 \<or> x \<in> d1)) \<and> (x \<in> a2 \<longrightarrow> \<not> (x \<in> d0 \<or> x \<in> d1)) \<and> (x \<in> d0 \<longrightarrow> x \<notin> d1))"
    by (simp add: disjoint_iff) blast
  moreover have "disjl [f0, f1, f2] \<longleftrightarrow> (\<forall>x. (x \<in> f0 \<longrightarrow> \<not> (x \<in> f1 \<or> x \<in> f2)) \<and> (x \<in> f1 \<longrightarrow> x \<notin> f2))"
    by (simp add: disjoint_iff) blast
  ultimately show ?thesis
    unfolding view_ok_def all_less_3 view_pt_def by (simp add: disjoint_iff set_eq_iff all_conj_distrib)
qed

lemma view_cases:
  assumes "view_ok v"
  obtains S M a0 a1 a2 f0 f1 f2 R d0 d1 where
    "v = \<lparr>v_disk = S, v_avail = M, v_alloc = [a0, a1, a2], v_free = [f0, f1, f2], v_freed = R, v_defer = [d0, d1]\<rparr>"
proof -
  obtain a0 a1 a2 f0 f1 f2 d0 d1 where "v_alloc v = [a0, a1, a2]" "v_free v = [f0, f1, f2]" "v_defer v = [d0, d1]"
    using view_expand[OF assms] .
  then show thesis by (intro that[of "v_disk v" "v_avail v" a0 a1 a2 f0 f1 f2 "v_freed v" d0 d1]) simp
qed

lemma view_pt_steps:
  assumes "view_pt S M a0 a1 a2 f0 f1 f2 R d0 d1"
  shows "view_pt (S \<and> \<not> a0 \<or> f0) M False a1 a2 False f1 f2 (R \<or> f0) d0 d1"
    and "\<not> a0 \<Longrightarrow> \<not> f0 \<Longrightarrow> view_pt S (M \<or> d0) a1 a2 False f1 f2 False False d1 R"
    and "r \<longrightarrow> M \<Longrightarrow> view_pt S (M \<and> \<not> r) (a0 \<or> r) a1 a2 f0 f1 f2 R d0 d1"
    and "r \<longrightarrow> M \<Longrightarrow> view_pt S (M \<and> \<not> r) a0 (a1 \<or> r) a2 f0 f1 f2 R d0 d1"
    and "r \<longrightarrow> M \<Longrightarrow> view_pt S (M \<and> \<not> r) a0 a1 (a2 \<or> r) f0 f1 f2 R d0 d1"
    and "r \<longrightarrow> a0 \<and> \<not> f0 \<and> \<not> f1 \<and> \<not> f2 \<Longrightarrow> view_pt S (M \<or> r) (a0 \<and> \<not> r) a1 a2 f0 f1 f2 R d0 d1"
    and "r \<longrightarrow> a1 \<and> \<not> f0 \<and> \<not> f1 \<and> \<not> f2 \<Longrightarrow> view_pt S (M \<or> r) a0 (a1 \<and> \<not> r) a2 f0 f1 f2 R d0 d1"
    and "r \<longrightarrow> a2 \<and> \<not> f0 \<and> \<not> f1 \<and> \<not> f2 \<Longrightarrow> view_pt S (M \<or> r) a0 a1 (a2 \<and> \<not> r) f0 f1 f2 R d0 d1"
    and "r \<longrightarrow> (S \<longrightarrow> a0) \<and> \<not> f0 \<and> \<not> f1 \<and> \<not> f2 \<Longrightarrow> view_pt S M a0 a1 a2 (f0 \<or> r) f1 f2 R d0 d1"
    and "r \<longrightarrow> (S \<longrightarrow> a0 \<or> a1) \<and> \<not> f0 \<and> \<not> f1 \<and> \<not> f2 \<Longrightarrow> view_pt S M a0 a1 a2 f0 (f1 \<or> r) f2 R d0 d1"
    and "r \<longrightarrow> (S \<longrightarrow> a0 \<or> a1 \<or> a2) \<and> \<not> f0 \<and> \<not> f1 \<and> \<not> f2 \<Longrightarrow> view_pt S M a0 a1 a2 f0 f1 (f2 \<or> r) R d0 d1"
  using assms unfolding view_pt_def by argo+

lemma spec_sync_ok:
  assumes "view_ok v" shows "view_ok (spec_sync v)"
proof -
  obtain S M a0 a1 a2 f0 f1 f2 R d0 d1 where
    v: "v = \<lparr>v_disk = S, v_avail = M, v_alloc = [a0, a1, a2], v_free = [f0, f1, f2], v_freed = R, v_defer = [d0, d1]\<rparr>"
    using view_cases[OF assms] .
  show ?thesis using assms unfolding v by (auto simp: spec_sync_def view_ok_lists intro: view_pt_steps(1))
qed

lemma spec_sync_done_ok:
  assumes "view_ok v" "v_alloc v ! 0 = {}" "v_free v ! 0 = {}" shows "view_ok (spec_sync_done v)"
proof -
  obtain S M a0 a1 a2 f0 f1 f2 R d0 d1 where
    v: "v = \<lparr>v_disk = S, v_avail = M, v_alloc = [a0, a1, a2], v_free = [f0, f1, f2], v_freed = R, v_defer = [d0, d1]\<rparr>"
    using view_cases[OF assms(1)] .
  show ?thesis using assms unfolding v by (auto simp: spec_sync_done_def view_ok_lists intro: view_pt_steps(2)[of _ _ False _ _ False])
qed

lemma less_3_cases: "i < 3 \<Longrightarrow> i = 0 \<or> i = 1 \<or> i = (2 :: nat)"
  by auto

lemma spec_alloc_ok:
  assumes "view_ok v" "i < 3" "R \<subseteq> v_avail v" shows "view_ok (spec_alloc i R v)"
proof -
  obtain S M a0 a1 a2 f0 f1 f2 F d0 d1 where
    v: "v = \<lparr>v_disk = S, v_avail = M, v_alloc = [a0, a1, a2], v_free = [f0, f1, f2], v_freed = F, v_defer = [d0, d1]\<rparr>"
    using view_cases[OF assms(1)] .
  show ?thesis using assms(1,3) less_3_cases[OF assms(2)] unfolding v
    by (auto simp: spec_alloc_def view_ok_lists intro!: view_pt_steps(3-5))
qed

lemma spec_free_now_ok:
  assumes "view_ok v" "i < 3" "R \<subseteq> v_alloc v ! i" "\<forall>F \<in> set (v_free v). R \<inter> F = {}" shows "view_ok (spec_free_now i R v)"
proof -
  obtain S M a0 a1 a2 f0 f1 f2 F d0 d1 where
    v: "v = \<lparr>v_disk = S, v_avail = M, v_alloc = [a0, a1, a2], v_free = [f0, f1, f2], v_freed = F, v_defer = [d0, d1]\<rparr>"
    using view_cases[OF assms(1)] .
  show ?thesis using assms(1,3,4) less_3_cases[OF assms(2)] unfolding v
    by (auto simp: spec_free_now_def view_ok_lists intro!: view_pt_steps(6-8))
qed

lemma spec_free_ok:
  assumes "view_ok v" "i < 3" "in_use i R v" shows "view_ok (spec_free i R v)"
proof -
  obtain S M a0 a1 a2 f0 f1 f2 F d0 d1 where
    v: "v = \<lparr>v_disk = S, v_avail = M, v_alloc = [a0, a1, a2], v_free = [f0, f1, f2], v_freed = F, v_defer = [d0, d1]\<rparr>"
    using view_cases[OF assms(1)] .
  show ?thesis using assms(1,3) less_3_cases[OF assms(2)] unfolding v
    by (auto simp: spec_free_def in_use_def view_ok_lists intro!: view_pt_steps(9-11))
qed

section \<open>The invariant of a metaslab\<close>

definition alloc_at :: "u64 \<Rightarrow> metaslab \<Rightarrow> nat \<Rightarrow> nat set" where
  "alloc_at T m i = sm_set (ms_allocmap m (slot_at T i))"

definition free_at :: "u64 \<Rightarrow> metaslab \<Rightarrow> nat \<Rightarrow> nat set" where
  "free_at T m i = sm_set (ms_freemap m (slot_at T i))"

definition defer_at :: "u64 \<Rightarrow> metaslab \<Rightarrow> nat \<Rightarrow> nat set" where
  "defer_at T m i = sm_set (ms_defermap m ((unat T + i) mod 2))"

lemmas map_sets = alloc_at_def free_at_def defer_at_def

text \<open>
  The frees that are on disk but not yet deferred are in the freemap of the slot before \<open>T\<close>. A metaslab that is not loaded
  has available what a load would find.
\<close>

definition view_of :: "('os \<Rightarrow> u64 \<Rightarrow> u64 list) \<Rightarrow> 'os \<Rightarrow> u64 \<Rightarrow> metaslab \<Rightarrow> ms_view" where
  "view_of contents os T m =
     (let S = logged contents (ms_map m) SM_FREE (ms_smo_syncing m) os
      in \<lparr>v_disk = S,
          v_avail = (if sm_loaded (ms_map m) then sm_set (ms_map m) else S - (free_at T m 3 \<union> defer_at T m 0 \<union> defer_at T m 1)),
          v_alloc = [alloc_at T m 0, alloc_at T m 1, alloc_at T m 2], v_free = [free_at T m 0, free_at T m 1, free_at T m 2],
          v_freed = free_at T m 3, v_defer = [defer_at T m 0, defer_at T m 1]\<rparr>)"

text \<open>An allocmap, a freemap or a defermap of the metaslab with the map \<open>g\<close>.\<close>

definition ms_side :: "space_map \<Rightarrow> space_map \<Rightarrow> bool" where
  "ms_side g sm \<longleftrightarrow> sm_inv sm \<and> \<not> sm_loaded sm \<and> \<not> sm_loading sm \<and> sm_pp_root sm = None \<and> sm_geometry g sm"

text \<open>A metaslab that is not loaded can be loaded from the space map that was last committed.\<close>

definition ms_unloaded :: "('os \<Rightarrow> u64 \<Rightarrow> u64 list) \<Rightarrow> 'os \<Rightarrow> u64 \<Rightarrow> metaslab \<Rightarrow> bool" where
  "ms_unloaded contents os T m \<longleftrightarrow> sm_idle (ms_map m) \<and> (\<forall>i < 3. alloc_at T m i = {})
     \<and> smo_ok (contents_upto contents (ms_smo m)) (ms_map m) SM_FREE (ms_smo m) os
     \<and> (let C = logged (contents_upto contents (ms_smo m)) (ms_map m) SM_FREE (ms_smo m) os
        in C \<inter> free_at T m 3 = {} \<and> logged contents (ms_map m) SM_FREE (ms_smo_syncing m) os = C \<union> free_at T m 3)"

definition ms_inv :: "top_vdev \<Rightarrow> ('os \<Rightarrow> u64 \<Rightarrow> u64 list) \<Rightarrow> 'os \<Rightarrow> u64 \<Rightarrow> metaslab \<Rightarrow> bool" where
  "ms_inv vd contents os T m \<longleftrightarrow>
     ms_place vd (ms_map m)
     \<and> (\<forall>t < 4. ms_side (ms_map m) (ms_allocmap m t) \<and> ms_side (ms_map m) (ms_freemap m t))
     \<and> (\<forall>t < 2. ms_side (ms_map m) (ms_defermap m t))
     \<and> alloc_at T m 3 = {}
     \<and> smo_ok contents (ms_map m) SM_FREE (ms_smo_syncing m) os
     \<and> (smo_object (ms_smo_syncing m) = 0 \<longrightarrow> smo_objsize (ms_smo_syncing m) = 0 \<and> smo_alloc (ms_smo_syncing m) = 0)
     \<and> smo_fits (ms_map m) (ms_smo m) \<and> (smo_object (ms_smo m) = 0 \<or> smo_object (ms_smo m) = smo_object (ms_smo_syncing m))
     \<and> sint (ms_deferspace m) = int (card (defer_at T m 0) + card (defer_at T m 1))
     \<and> (if sm_loaded (ms_map m) then \<exists>t. sm_active t (ms_map m) else ms_unloaded contents os T m)
     \<and> view_ok (view_of contents os T m)"

lemma ms_invD:
  assumes "ms_inv vd contents os T m"
  shows "ms_place vd (ms_map m)" "t < 4 \<Longrightarrow> ms_side (ms_map m) (ms_allocmap m t)" "t < 4 \<Longrightarrow> ms_side (ms_map m) (ms_freemap m t)"
    "t < 2 \<Longrightarrow> ms_side (ms_map m) (ms_defermap m t)" "alloc_at T m 3 = {}" "smo_ok contents (ms_map m) SM_FREE (ms_smo_syncing m) os"
    "smo_object (ms_smo_syncing m) = 0 \<Longrightarrow> smo_objsize (ms_smo_syncing m) = 0 \<and> smo_alloc (ms_smo_syncing m) = 0"
    "smo_fits (ms_map m) (ms_smo m)" "smo_object (ms_smo m) = 0 \<or> smo_object (ms_smo m) = smo_object (ms_smo_syncing m)"
    "sint (ms_deferspace m) = int (card (defer_at T m 0) + card (defer_at T m 1))"
    "sm_loaded (ms_map m) \<Longrightarrow> \<exists>t. sm_active t (ms_map m)" "\<not> sm_loaded (ms_map m) \<Longrightarrow> ms_unloaded contents os T m"
    "view_ok (view_of contents os T m)"
  using assms unfolding ms_inv_def by auto

lemma ms_invI:
  assumes "ms_place vd (ms_map m)" "\<And>t. t < 4 \<Longrightarrow> ms_side (ms_map m) (ms_allocmap m t)"
    "\<And>t. t < 4 \<Longrightarrow> ms_side (ms_map m) (ms_freemap m t)" "\<And>t. t < 2 \<Longrightarrow> ms_side (ms_map m) (ms_defermap m t)" "alloc_at T m 3 = {}"
    "smo_ok contents (ms_map m) SM_FREE (ms_smo_syncing m) os"
    "smo_object (ms_smo_syncing m) = 0 \<Longrightarrow> smo_objsize (ms_smo_syncing m) = 0 \<and> smo_alloc (ms_smo_syncing m) = 0"
    "smo_fits (ms_map m) (ms_smo m)" "smo_object (ms_smo m) = 0 \<or> smo_object (ms_smo m) = smo_object (ms_smo_syncing m)"
    "sint (ms_deferspace m) = int (card (defer_at T m 0) + card (defer_at T m 1))"
    "sm_loaded (ms_map m) \<Longrightarrow> \<exists>t. sm_active t (ms_map m)" "\<not> sm_loaded (ms_map m) \<Longrightarrow> ms_unloaded contents os T m"
    "view_ok (view_of contents os T m)"
  shows "ms_inv vd contents os T m"
  using assms unfolding ms_inv_def by simp

text \<open>The sets of the view, as far as a sync needs them.\<close>

lemma view_of_sets:
  assumes "view_ok (view_of contents os T m)"
  defines "S \<equiv> logged contents (ms_map m) SM_FREE (ms_smo_syncing m) os" and "M \<equiv> v_avail (view_of contents os T m)"
  shows "disjl [M, free_at T m 3, alloc_at T m 0, alloc_at T m 1, alloc_at T m 2, defer_at T m 0, defer_at T m 1]"
    "S = M \<union> free_at T m 3 \<union> alloc_at T m 0 \<union> alloc_at T m 1 \<union> alloc_at T m 2 \<union> defer_at T m 0 \<union> defer_at T m 1"
    "disjl [free_at T m 0, free_at T m 1, free_at T m 2]" "free_at T m 0 \<inter> (S - alloc_at T m 0) = {}"
    "free_at T m 1 \<inter> (S - (alloc_at T m 0 \<union> alloc_at T m 1)) = {}"
    "free_at T m 2 \<inter> (S - (alloc_at T m 0 \<union> alloc_at T m 1 \<union> alloc_at T m 2)) = {}"
  using assms unfolding view_ok_def all_less_3 by (simp_all add: view_of_def Let_def Un_ac)

lemma ms_side_geometry: "ms_side g sm \<Longrightarrow> sm_geometry g g' \<Longrightarrow> ms_side g' sm"
  by (simp add: ms_side_def sm_geometry_def)

lemma ms_side_same:
  "ms_side g sm \<Longrightarrow> sm_inv sm' \<Longrightarrow> sm_same sm sm' \<Longrightarrow> ms_side g sm'"
  by (auto simp: ms_side_def sm_same_def sm_geometry_def)

lemma ms_side_range: "ms_side g sm \<Longrightarrow> sm_set sm \<subseteq> range_set (sm_start g) (sm_size g)"
  using sm_set_range[of sm] by (simp add: ms_side_def sm_geometry_def)

lemma ms_side_pair: "ms_side g a \<Longrightarrow> ms_side g b \<Longrightarrow> sm_geometry a b"
  by (simp add: ms_side_def sm_geometry_def)

end
