(* ===== verification/Metaslab_Sync.thy ===== *)
theory Metaslab_Sync
  imports Metaslab_Inv
begin

text \<open>
  \<open>metaslab_sync\<close>: whether it appends to the log or condenses it, the space map on disk loses the allocations and gains the
  frees of the transaction group, and the invariant of the metaslab is kept.
\<close>

section \<open>The object set\<close>

text \<open>
  What is relied on of the meta object set: an object holds what was appended to it until it is freed, objects do not overlap,
  a new object is empty, has a number other than 0 and is none of those allocated (\<open>objs\<close>).
\<close>

definition mos_ok :: "'os ms_env \<Rightarrow> ('os \<Rightarrow> u64 \<Rightarrow> u64 list) \<Rightarrow> ('os \<Rightarrow> u64 set) \<Rightarrow> bool" where
  "mos_ok env contents objs \<longleftrightarrow>
     dmu_appends (me_dmu env) contents
     \<and> (\<forall>os obj off ws o'. o' \<noteq> obj \<longrightarrow> contents (dmu_write (me_dmu env) obj off ws os) o' = contents os o')
     \<and> (\<forall>os obj off ws. objs (dmu_write (me_dmu env) obj off ws os) = objs os)
     \<and> (\<forall>os obj. \<exists>os'. dmu_free_range (me_dmu env) obj os = (0, os') \<and> contents os' = (contents os)(obj := []) \<and> objs os' = objs os)
     \<and> (\<forall>os. 0 \<notin> objs os)
     \<and> (\<forall>os. insert 0 (objs os) \<noteq> UNIV \<longrightarrow> (\<exists>obj os'. me_object_alloc env os = (obj, os') \<and> obj \<noteq> 0 \<and> obj \<notin> objs os
          \<and> contents os' = (contents os)(obj := []) \<and> objs os' = insert obj (objs os)))
     \<and> (\<forall>os obj smo. \<exists>os'. me_bonus_write env obj smo os = (0, os') \<and> contents os' = contents os \<and> objs os' = objs os)"

lemma mos_okD:
  assumes "mos_ok env contents objs"
  shows "dmu_appends (me_dmu env) contents" "o' \<noteq> obj \<Longrightarrow> contents (dmu_write (me_dmu env) obj off ws os) o' = contents os o'"
    "objs (dmu_write (me_dmu env) obj off ws os) = objs os"
    "\<exists>os'. dmu_free_range (me_dmu env) obj os = (0, os') \<and> contents os' = (contents os)(obj := []) \<and> objs os' = objs os"
    "0 \<notin> objs os" "insert 0 (objs os) \<noteq> UNIV \<Longrightarrow> \<exists>obj os'. me_object_alloc env os = (obj, os') \<and> obj \<noteq> 0 \<and> obj \<notin> objs os
          \<and> contents os' = (contents os)(obj := []) \<and> objs os' = insert obj (objs os)"
    "\<exists>os'. me_bonus_write env obj smo os = (0, os') \<and> contents os' = contents os \<and> objs os' = objs os"
  using assms by (simp_all add: mos_ok_def)

text \<open>Nothing but the object \<open>obj\<close> has changed.\<close>

definition only_changed :: "('os \<Rightarrow> u64 \<Rightarrow> u64 list) \<Rightarrow> ('os \<Rightarrow> u64 set) \<Rightarrow> u64 \<Rightarrow> 'os \<Rightarrow> 'os \<Rightarrow> bool" where
  "only_changed contents objs obj os os' \<longleftrightarrow> (\<forall>o'. o' \<noteq> obj \<longrightarrow> contents os' o' = contents os o') \<and> objs os' = objs os"

lemma only_changed_refl [simp]: "only_changed contents objs obj os os"
  by (simp add: only_changed_def)

lemma only_changed_trans:
  "only_changed contents objs obj os os' \<Longrightarrow> only_changed contents objs obj os' os'' \<Longrightarrow> only_changed contents objs obj os os''"
  by (simp add: only_changed_def)

lemma written_only_changed:
  assumes "mos_ok env contents objs" "written (me_dmu env) obj os os'"
  shows "only_changed contents objs obj os os'"
  unfolding only_changed_def
proof (intro conjI allI impI)
  fix o' assume "o' \<noteq> obj"
  then show "contents os' o' = contents os o'"
    by (intro written_keeps[OF assms(2), of "\<lambda>os. contents os o'"] mos_okD(2)[OF assms(1)])
next
  show "objs os' = objs os" by (intro written_keeps[OF assms(2), of objs] mos_okD(3)[OF assms(1)])
qed

section \<open>Writing a map, empty or not\<close>

lemma space_map_sync_any:
  assumes side: "ms_side g sm" and place: "ms_place vd g" and t: "t = SM_ALLOC \<or> t = SM_FREE"
    and mos: "mos_ok env contents objs" and smo: "smo_ok contents g SM_FREE smo os"
    and room: "8 * (length (contents os (smo_object smo)) + unat (sm_size g) + 1) + 4096 < 2 ^ 64"
    and S: "if t = SM_FREE then logged contents g SM_FREE smo os \<inter> sm_set sm = {}
      else sm_set sm \<subseteq> logged contents g SM_FREE smo os"
  shows "\<exists>sm' smo' os'. space_map_sync (me_dmu env) pass txg sm t smo os = Inr (sm', smo', os')
    \<and> ms_side g sm' \<and> sm_set sm' = {} \<and> smo_object smo' = smo_object smo \<and> smo_ok contents g SM_FREE smo' os'
    \<and> logged contents g SM_FREE smo' os' = (if t = SM_FREE then logged contents g SM_FREE smo os \<union> sm_set sm
         else logged contents g SM_FREE smo os - sm_set sm)
    \<and> (\<exists>es. contents os' (smo_object smo) = contents os (smo_object smo) @ es \<and> length es \<le> unat (sm_size g) + 1)
    \<and> only_changed contents objs (smo_object smo) os os'"
proof (cases "sm_set sm = {}")
  case True
  have "sm_space sm = 0" "sm_lock_held sm" using side True sm_inv_empty_space[of sm] by (auto simp: ms_side_def sm_inv_def)
  then have "space_map_sync (me_dmu env) pass txg sm t smo os = Inr (sm, smo, os)" by (simp add: space_map_sync_def)
  then show ?thesis using side True smo by (intro exI[of _ sm] exI[of _ smo] exI[of _ os] conjI) simp_all
next
  case False
  have s: "sm_inv sm" "sm_pp_root sm = None" "sm_geometry g sm" using side by (auto simp: ms_side_def)
  have geo: "log_geometry sm" using ms_placeD(2)[OF place] log_geometry_same[OF s(3)] by simp
  have smo': "smo_ok contents sm SM_FREE smo os" using smo unfolding smo_ok_geometry[OF s(3)] .
  have lg: "logged contents g SM_FREE smo os = logged contents sm SM_FREE smo os" for smo os
    using log_geometry_cong(1)[OF s(3)] load_start_geometry[OF s(3)] by simp
  have "card (sm_set sm) \<le> unat (sm_size g)"
    using card_mono[OF _ ms_side_range[OF side]] by simp
  then have room': "8 * (length (contents os (smo_object smo)) + card (sm_set sm) + 1) + 4096 < 2 ^ 64"
    and len: "\<And>n. n \<le> card (sm_set sm) + 1 \<Longrightarrow> n \<le> unat (sm_size g) + 1"
    using room by auto
  have t2: "unat t < 2" "unat SM_FREE < 2" using t by (auto simp: SM_ALLOC_def SM_FREE_def)
  obtain sm' smo' os' where w: "space_map_sync (me_dmu env) pass txg sm t smo os = Inr (sm', smo', os')"
    "sm_inv sm'" "sm_set sm' = {}" "sm_same sm sm'" "smo_object smo' = smo_object smo" "smo_ok contents sm SM_FREE smo' os'"
    "logged contents sm SM_FREE smo' os' = (if t = SM_FREE then logged contents sm SM_FREE smo os \<union> sm_set sm
         else logged contents sm SM_FREE smo os - sm_set sm)"
    "\<exists>es. contents os' (smo_object smo) = contents os (smo_object smo) @ es \<and> length es \<le> card (sm_set sm) + 1"
    "written (me_dmu env) (smo_object smo) os os'"
    using space_map_sync_inv[OF s(1,2) False geo t2(1,2) mos_okD(1)[OF mos] smo' room' S[unfolded lg], of pass txg]
    by blast
  have "\<exists>es. contents os' (smo_object smo) = contents os (smo_object smo) @ es \<and> length es \<le> unat (sm_size g) + 1"
    using w(8) len by blast
  then show ?thesis
    using w(1,3,5,7) ms_side_same[OF side w(2,4)] w(6)[unfolded smo_ok_geometry[OF s(3), symmetric]]
      written_only_changed[OF mos w(9)]
    unfolding lg by (intro exI[of _ sm'] exI[of _ smo'] exI[of _ os'] conjI) assumption+
qed

section \<open>Condensing\<close>

lemma side_vacate:
  assumes "ms_side g sm"
  shows "\<exists>sm'. space_map_vacate sm None d = Inr (sm', d) \<and> ms_side g sm' \<and> sm_set sm' = {}"
proof -
  have "sm_inv sm" "sm_pp_root sm = None" using assms by (auto simp: ms_side_def)
  then show ?thesis using space_map_vacate_all[of sm d] ms_side_same[OF assms] by auto
qed

lemma side_walk_remove:
  assumes "sm_inv sm" "sm_geometry g sm" "ms_side g d" "kmem_fresh k" "sm_set sm \<subseteq> sm_set d"
  shows "\<exists>d'. space_map_walk sm (remove_func k) d = Inr d' \<and> ms_side g d' \<and> sm_set d' = sm_set d - sm_set sm"
proof -
  have "sm_inv d" "sm_geometry sm d" using assms(2,3) by (auto simp: ms_side_def sm_geometry_def)
  then show ?thesis using space_map_walk_remove[OF assms(1) _ _ assms(4,5)] ms_side_same[OF assms(3)] by blast
qed

lemma side_walk_add:
  assumes "ms_side g sm" "ms_side g d" "kmem_fresh k" "sm_set sm \<inter> sm_set d = {}"
  shows "\<exists>d'. space_map_walk sm (add_func k) d = Inr d' \<and> ms_side g d' \<and> sm_set d' = sm_set d \<union> sm_set sm"
proof -
  have "sm_inv sm" "sm_inv d" using assms(1,2) by (auto simp: ms_side_def)
  then show ?thesis
    using space_map_walk_add[OF _ _ ms_side_pair[OF assms(1,2)] assms(3,4)] ms_side_same[OF assms(2)] by blast
qed

lemma foldM_walk_remove:
  assumes "ms_side g d" "kmem_fresh k" "\<And>i. i \<in> set js \<Longrightarrow> ms_side g (f i) \<and> sm_set (f i) \<subseteq> sm_set d"
    and "disjl (map (\<lambda>i. sm_set (f i)) js)"
  shows "\<exists>d'. foldM (\<lambda>i. space_map_walk (f i) (remove_func k)) js d = Inr d' \<and> ms_side g d'
    \<and> sm_set d' = sm_set d - (\<Union>i \<in> set js. sm_set (f i))"
  using assms
proof (induction js arbitrary: d)
  case (Cons i js)
  have i: "sm_inv (f i)" "sm_geometry g (f i)" "sm_set (f i) \<subseteq> sm_set d" using Cons.prems(3)[of i] by (auto simp: ms_side_def)
  obtain d1 where d1: "space_map_walk (f i) (remove_func k) d = Inr d1" "ms_side g d1" "sm_set d1 = sm_set d - sm_set (f i)"
    using side_walk_remove[OF i(1,2) Cons.prems(1,2) i(3)] by blast
  have "ms_side g (f j) \<and> sm_set (f j) \<subseteq> sm_set d1" if "j \<in> set js" for j
    using Cons.prems(3)[of j] Cons.prems(4) that d1(3) by auto
  moreover have "disjl (map (\<lambda>i. sm_set (f i)) js)" using Cons.prems(4) by simp
  ultimately obtain d2 where "foldM (\<lambda>i. space_map_walk (f i) (remove_func k)) js d1 = Inr d2" "ms_side g d2"
    "sm_set d2 = sm_set d1 - (\<Union>i \<in> set js. sm_set (f i))"
    using Cons.IH[OF d1(2) Cons.prems(2)] by blast
  then show ?case using d1 by (intro exI[of _ d2]) auto
qed simp

lemma space_map_full:
  assumes "ms_side g sm" "ms_place vd g" "sm_set sm = {}" "kmem_fresh k"
  shows "\<exists>sm'. space_map_add k sm (sm_start sm) (sm_size sm) = Inr sm' \<and> ms_side g sm'
    \<and> sm_set sm' = range_set (sm_start g) (sm_size g)"
proof -
  have s: "sm_inv sm" "sm_start sm = sm_start g" "sm_size sm = sm_size g" "sm_shift sm = sm_shift g"
    using assms(1) by (auto simp: ms_side_def sm_geometry_def)
  then have "sm_range sm (sm_start sm) (sm_size sm)"
    using ms_placeD(1)[OF assms(2)] by (simp add: sm_range_def)
  then obtain sm' where a: "space_map_add k sm (sm_start sm) (sm_size sm) = Inr sm'" "sm_inv sm'"
    "sm_set sm' = sm_set sm \<union> range_set (sm_start sm) (sm_size sm)" "sm_same sm sm'"
    using space_map_add_inv[OF s(1) assms(4)] assms(3) by blast
  then show ?thesis using ms_side_same[OF assms(1) a(2,4)] assms(3) s(2,3) by (intro exI[of _ sm']) simp
qed

lemma upto_lists: "[0 ..< TXG_DEFER_SIZE] = [0, 1]" "[1 ..< TXG_CONCURRENT_STATES] = [1, 2]"
  by (simp_all add: TXG_DEFER_SIZE_def TXG_CONCURRENT_STATES_def upt_rec)

lemma mod_2_swap: "(n mod 2 = 0 \<and> (n + 1) mod 2 = 1) \<or> (n mod 2 = 1 \<and> (n + 1) mod 2 = (0 :: nat))"
  by (cases "even n") (simp_all add: even_iff_mod_2_eq_zero odd_iff_mod_2_eq_one mod_Suc)

text \<open>The deferred frees, in the order of the array and in the order in which they come back.\<close>

lemma defer_sets:
  "(sm_set (ms_defermap m 0) = defer_at T m 0 \<and> sm_set (ms_defermap m 1) = defer_at T m 1)
    \<or> (sm_set (ms_defermap m 0) = defer_at T m 1 \<and> sm_set (ms_defermap m 1) = defer_at T m 0)"
  using mod_2_swap[of "unat T"] by (auto simp: defer_at_def)

lemma metaslab_condense_inv:
  assumes place: "ms_place vd (ms_map m)" and k: "kmem_fresh (me_kernel env)" and mos: "mos_ok env contents objs"
    and sides: "\<forall>t < 4. ms_side (ms_map m) (ms_allocmap m t) \<and> ms_side (ms_map m) (ms_freemap m t)"
      "\<forall>t < 2. ms_side (ms_map m) (ms_defermap m t)"
    and inv: "sm_inv (ms_map m)"
    and disj: "disjl [sm_set (ms_map m), free_at T m 3, alloc_at T m 1, alloc_at T m 2, defer_at T m 0, defer_at T m 1]"
  defines "obj \<equiv> smo_object (ms_smo_syncing m)"
  shows "\<exists>A F smo os'. metaslab_condense env T m os
       = Inr (set_freemap (slot_at T 0) F (set_allocmap (slot_at T 0) A (m\<lparr>ms_smo_syncing := smo\<rparr>)), os')
     \<and> ms_side (ms_map m) A \<and> ms_side (ms_map m) F \<and> sm_set F = {}
     \<and> sm_set A = range_set (sm_start (ms_map m)) (sm_size (ms_map m))
         - (sm_set (ms_map m) \<union> free_at T m 3 \<union> alloc_at T m 1 \<union> alloc_at T m 2 \<union> defer_at T m 0 \<union> defer_at T m 1)
     \<and> smo = \<lparr>smo_object = obj, smo_objsize = 0, smo_alloc = 0\<rparr> \<and> contents os' obj = [] \<and> only_changed contents objs obj os os'"
proof -
  let ?g = "ms_map m" and ?t = "slot_at T 0" and ?k = "me_kernel env"
  note side = sides[rule_format]
  have a: "ms_side ?g (ms_allocmap m ?t)" "ms_side ?g (ms_freemap m ?t)" "ms_side ?g (ms_freemap m (slot_at T 3))"
    by (simp_all add: side)
  have geo: "sm_geometry ?g ?g" by (simp add: sm_geometry_def)
  obtain A0 where A0: "space_map_vacate (ms_allocmap m ?t) None () = Inr (A0, ())" "ms_side ?g A0" "sm_set A0 = {}"
    using side_vacate[OF a(1), of "()"] by auto
  obtain F where F: "space_map_vacate (ms_freemap m ?t) None () = Inr (F, ())" "ms_side ?g F" "sm_set F = {}"
    using side_vacate[OF a(2), of "()"] by auto
  obtain A1 where A1: "space_map_add ?k A0 (sm_start A0) (sm_size A0) = Inr A1" "ms_side ?g A1"
    "sm_set A1 = range_set (sm_start ?g) (sm_size ?g)"
    using space_map_full[OF A0(2) place A0(3) k] by blast
  have rng: "sm_set ?g \<subseteq> sm_set A1" "\<And>sm. ms_side ?g sm \<Longrightarrow> sm_set sm \<subseteq> sm_set A1"
    unfolding A1(3) using sm_set_range[OF inv] ms_side_range by blast+
  obtain A2 where A2: "space_map_walk ?g (remove_func ?k) A1 = Inr A2" "ms_side ?g A2" "sm_set A2 = sm_set A1 - sm_set ?g"
    using side_walk_remove[OF inv geo A1(2) k rng(1)] by blast
  have f3: "sm_inv (ms_freemap m (slot_at T 3))" "sm_geometry ?g (ms_freemap m (slot_at T 3))" using a(3) by (auto simp: ms_side_def)
  have "sm_set (ms_freemap m (slot_at T 3)) \<subseteq> sm_set A2" using disj rng(2)[OF a(3)] unfolding A2(3) by (auto simp: free_at_def)
  then obtain A3 where A3: "space_map_walk (ms_freemap m (slot_at T 3)) (remove_func ?k) A2 = Inr A3" "ms_side ?g A3"
    "sm_set A3 = sm_set A2 - free_at T m 3"
    using side_walk_remove[OF f3 A2(2) k] unfolding free_at_def by blast
  have d: "ms_side ?g (ms_defermap m 0)" "ms_side ?g (ms_defermap m 1)" by (simp_all add: side)
  have dd: "ms_side ?g (ms_defermap m i) \<and> sm_set (ms_defermap m i) \<subseteq> sm_set A3" if "i \<in> set [0, 1]" for i
    using that d rng(2)[OF d(1)] rng(2)[OF d(2)] disj defer_sets[of m T] unfolding A3(3) A2(3) by auto
  have "disjl (map (\<lambda>i. sm_set (ms_defermap m i)) [0, 1])" using disj defer_sets[of m T] by auto
  then obtain A4 where A4: "foldM (\<lambda>i. space_map_walk (ms_defermap m i) (remove_func ?k)) [0, 1] A3 = Inr A4" "ms_side ?g A4"
    "sm_set A4 = sm_set A3 - (\<Union>i \<in> set [0, 1]. sm_set (ms_defermap m i))"
    using foldM_walk_remove[where f = "ms_defermap m" and js = "[0, 1]", OF A3(2) k dd] by blast
  have A4s: "sm_set A4 = sm_set A3 - (defer_at T m 0 \<union> defer_at T m 1)" using A4(3) defer_sets[of m T] by auto
  let ?am = "\<lambda>i. ms_allocmap m (TXG_IDX (T + of_nat i))"
  have am: "sm_set (?am i) = alloc_at T m i" "ms_side ?g (?am i)" for i unfolding TXG_IDX_slot by (simp_all add: alloc_at_def side)
  have aa: "ms_side ?g (?am i) \<and> sm_set (?am i) \<subseteq> sm_set A4" if "i \<in> set [1, 2]" for i
    using that am(2) rng(2)[OF am(2)[of i]] disj unfolding A4s A3(3) A2(3) am(1) by auto
  have "disjl (map (\<lambda>i. sm_set (?am i)) [1, 2])" unfolding am(1) using disj by auto
  then obtain A5 where A5: "foldM (\<lambda>i. space_map_walk (?am i) (remove_func ?k)) [1, 2] A4 = Inr A5" "ms_side ?g A5"
    "sm_set A5 = sm_set A4 - (\<Union>i \<in> set [1, 2]. sm_set (?am i))"
    using foldM_walk_remove[where f = ?am and js = "[1, 2]", OF A4(2) k aa] by blast
  obtain os' where os': "dmu_free_range (me_dmu env) obj os = (0, os')" "contents os' = (contents os)(obj := [])" "objs os' = objs os"
    using mos_okD(4)[OF mos, of obj os] by blast
  have "space_map_truncate (me_dmu env) (ms_smo_syncing m) os = Inr (\<lparr>smo_object = obj, smo_objsize = 0, smo_alloc = 0\<rparr>, os')"
    using os'(1) by (simp add: space_map_truncate_def obj_def)
  then have "metaslab_condense env T m os = Inr (set_freemap ?t F (set_allocmap ?t A5
      (m\<lparr>ms_smo_syncing := \<lparr>smo_object = obj, smo_objsize = 0, smo_alloc = 0\<rparr>\<rparr>)), os')"
    unfolding metaslab_condense_def Let_def TXG_IDX_clean TXG_IDX_now[of T] upto_lists
    using A0(1) F(1) A1(1) A2(1) A3(1) A4(1) A5(1) by (simp del: foldM.simps)
  moreover have "sm_set A5 = range_set (sm_start ?g) (sm_size ?g)
      - (sm_set ?g \<union> free_at T m 3 \<union> alloc_at T m 1 \<union> alloc_at T m 2 \<union> defer_at T m 0 \<union> defer_at T m 1)"
    unfolding A5(3) A4s A3(3) A2(3) A1(3) am(1) by auto
  ultimately show ?thesis using F(2,3) A5(2) os'(2,3)
    by (intro exI[of _ A5] exI[of _ F] exI[of _ "\<lparr>smo_object = obj, smo_objsize = 0, smo_alloc = 0\<rparr>"] exI[of _ os'])
      (simp add: only_changed_def)
qed

section \<open>Writing the maps of a transaction group\<close>

lemma set_map_simps [simp]:
  "ms_map (set_allocmap t a m) = ms_map m" "ms_map (set_freemap t a m) = ms_map m" "ms_map (set_defermap t a m) = ms_map m"
  "ms_smo (set_allocmap t a m) = ms_smo m" "ms_smo (set_freemap t a m) = ms_smo m" "ms_smo (set_defermap t a m) = ms_smo m"
  "ms_smo_syncing (set_allocmap t a m) = ms_smo_syncing m" "ms_smo_syncing (set_freemap t a m) = ms_smo_syncing m"
  "ms_smo_syncing (set_defermap t a m) = ms_smo_syncing m"
  "ms_allocmap (set_allocmap t a m) = (ms_allocmap m)(t := a)" "ms_allocmap (set_freemap t a m) = ms_allocmap m"
  "ms_allocmap (set_defermap t a m) = ms_allocmap m" "ms_freemap (set_allocmap t a m) = ms_freemap m"
  "ms_freemap (set_freemap t a m) = (ms_freemap m)(t := a)" "ms_freemap (set_defermap t a m) = ms_freemap m"
  "ms_defermap (set_allocmap t a m) = ms_defermap m" "ms_defermap (set_freemap t a m) = ms_defermap m"
  "ms_defermap (set_defermap t a m) = (ms_defermap m)(t := a)"
  "ms_weight (set_allocmap t a m) = ms_weight m" "ms_weight (set_freemap t a m) = ms_weight m" "ms_weight (set_defermap t a m) = ms_weight m"
  "ms_group (set_allocmap t a m) = ms_group m" "ms_group (set_freemap t a m) = ms_group m" "ms_group (set_defermap t a m) = ms_group m"
  "ms_deferspace (set_allocmap t a m) = ms_deferspace m" "ms_deferspace (set_freemap t a m) = ms_deferspace m"
  "ms_deferspace (set_defermap t a m) = ms_deferspace m"
  by (simp_all add: set_allocmap_def set_freemap_def set_defermap_def)

lemma slot_at_neq [simp]:
  "slot_at T 0 \<noteq> slot_at T (Suc 0)" "slot_at T 0 \<noteq> slot_at T 2" "slot_at T 0 \<noteq> slot_at T 3" "slot_at T (Suc 0) \<noteq> slot_at T 0"
  "slot_at T (Suc 0) \<noteq> slot_at T 2" "slot_at T (Suc 0) \<noteq> slot_at T 3" "slot_at T 2 \<noteq> slot_at T 0" "slot_at T 2 \<noteq> slot_at T (Suc 0)"
  "slot_at T 2 \<noteq> slot_at T 3" "slot_at T 3 \<noteq> slot_at T 0" "slot_at T 3 \<noteq> slot_at T (Suc 0)" "slot_at T 3 \<noteq> slot_at T 2"
  by (simp_all add: slot_at_eq)

lemma smo_empty_ok:
  assumes "contents os obj = []"
  shows "smo_ok contents g SM_FREE \<lparr>smo_object = obj, smo_objsize = 0, smo_alloc = 0\<rparr> os"
    "logged contents g SM_FREE \<lparr>smo_object = obj, smo_objsize = 0, smo_alloc = 0\<rparr> os = range_set (sm_start g) (sm_size g)"
  using assms by (simp_all add: smo_ok_def Let_def load_start_def)

text \<open>The state between the two halves: what remains to be written takes the log on disk to its new contents.\<close>

lemma sync_prepared:
  assumes inv: "ms_inv vd contents os T m" and k: "kmem_fresh (me_kernel env)" and mos: "mos_ok env contents objs"
    and freed: "ms_side (ms_map m) Fc" "sm_set Fc = free_at T m 3 \<union> free_at T m 0"
  defines "g \<equiv> ms_map m" and "m1 \<equiv> set_freemap (slot_at T 3) Fc m" and "obj \<equiv> smo_object (ms_smo_syncing m)"
    and "S \<equiv> logged contents (ms_map m) SM_FREE (ms_smo_syncing m) os"
  shows "\<exists>A F smo os'. (if should_condense env m1 then metaslab_condense env T m1 os else Inr (m1, os))
       = Inr (set_freemap (slot_at T 0) F (set_allocmap (slot_at T 0) A (m1\<lparr>ms_smo_syncing := smo\<rparr>)), os')
     \<and> ms_side g A \<and> ms_side g F \<and> smo_object smo = obj \<and> smo_ok contents g SM_FREE smo os'
     \<and> length (contents os' obj) \<le> length (contents os obj) \<and> only_changed contents objs obj os os'
     \<and> (\<not> sm_loaded g \<longrightarrow> contents os' obj = contents os obj)
     \<and> sm_set A \<subseteq> logged contents g SM_FREE smo os' \<and> sm_set F \<inter> (logged contents g SM_FREE smo os' - sm_set A) = {}
     \<and> logged contents g SM_FREE smo os' - sm_set A \<union> sm_set F = S - alloc_at T m 0 \<union> free_at T m 0"
proof -
  note i = ms_invD[OF inv]
  note v = view_of_sets[OF i(13), folded S_def]
  show ?thesis
  proof (cases "should_condense env m1")
    case False
    have "set_freemap (slot_at T 0) (ms_freemap m (slot_at T 0)) (set_allocmap (slot_at T 0) (ms_allocmap m (slot_at T 0))
        (m1\<lparr>ms_smo_syncing := ms_smo_syncing m\<rparr>)) = m1"
      by (simp add: m1_def set_freemap_def set_allocmap_def fun_upd_idem)
    moreover have "alloc_at T m 0 \<subseteq> S" using v(2) by blast
    ultimately show ?thesis
      using False i(2,3)[of "slot_at T 0"] i(6) v(4) unfolding g_def obj_def S_def[symmetric]
      by (intro exI[of _ "ms_allocmap m (slot_at T 0)"] exI[of _ "ms_freemap m (slot_at T 0)"] exI[of _ "ms_smo_syncing m"] exI[of _ os])
        (auto simp: alloc_at_def free_at_def S_def)
  next
    case True
    then have loaded: "sm_loaded g" by (simp add: should_condense_def m1_def g_def)
    then have inv_g: "sm_inv (ms_map m1)" and avail: "v_avail (view_of contents os T m) = sm_set g"
      using i(11) by (auto simp: g_def m1_def sm_active_def view_of_def Let_def)
    have at: "free_at T m1 3 = free_at T m 3 \<union> free_at T m 0" "alloc_at T m1 j = alloc_at T m j" "defer_at T m1 j = defer_at T m j" for j
      using freed(2) by (simp_all add: map_sets m1_def)
    have sides: "\<forall>t < 4. ms_side (ms_map m1) (ms_allocmap m1 t) \<and> ms_side (ms_map m1) (ms_freemap m1 t)"
      "\<forall>t < 2. ms_side (ms_map m1) (ms_defermap m1 t)"
      using i(2-4) freed(1) by (simp_all add: m1_def)
    have "sm_set g \<union> alloc_at T m 1 \<union> alloc_at T m 2 \<union> defer_at T m 0 \<union> defer_at T m 1 \<subseteq> S - alloc_at T m 0"
      unfolding v(2) avail using v(1) unfolding avail by auto
    then have f0: "free_at T m 0 \<inter> (sm_set g \<union> alloc_at T m 1 \<union> alloc_at T m 2 \<union> defer_at T m 0 \<union> defer_at T m 1) = {}"
      using v(4) by blast
    have "disjl [sm_set (ms_map m1), free_at T m1 3, alloc_at T m1 1, alloc_at T m1 2, defer_at T m1 0, defer_at T m1 1]"
      unfolding at using v(1) f0 unfolding avail by (auto simp: m1_def g_def)
    then obtain A F smo os' where c: "metaslab_condense env T m1 os
       = Inr (set_freemap (slot_at T 0) F (set_allocmap (slot_at T 0) A (m1\<lparr>ms_smo_syncing := smo\<rparr>)), os')"
      "ms_side (ms_map m1) A" "ms_side (ms_map m1) F" "sm_set F = {}"
      "sm_set A = range_set (sm_start (ms_map m1)) (sm_size (ms_map m1))
         - (sm_set (ms_map m1) \<union> free_at T m1 3 \<union> alloc_at T m1 1 \<union> alloc_at T m1 2 \<union> defer_at T m1 0 \<union> defer_at T m1 1)"
      "smo = \<lparr>smo_object = smo_object (ms_smo_syncing m1), smo_objsize = 0, smo_alloc = 0\<rparr>"
      "contents os' (smo_object (ms_smo_syncing m1)) = []" "only_changed contents objs (smo_object (ms_smo_syncing m1)) os os'"
      using metaslab_condense_inv[OF _ k mos sides inv_g, of vd T os] i(1) by (auto simp: m1_def)
    have m1: "ms_map m1 = g" "ms_smo_syncing m1 = ms_smo_syncing m" by (simp_all add: m1_def g_def)
    have A: "sm_set A = range_set (sm_start g) (sm_size g) - (S - alloc_at T m 0 \<union> free_at T m 0)"
      unfolding c(5) at m1 v(2) avail using v(1) unfolding avail by auto
    have sub: "S - alloc_at T m 0 \<union> free_at T m 0 \<subseteq> range_set (sm_start g) (sm_size g)"
    proof -
      have "S \<subseteq> range_set (sm_start g) (sm_size g)"
        using log_set_range[of g SM_FREE "contents os obj" "load_start g SM_FREE"] i(6) ms_placeD(2)[OF i(1)]
        unfolding S_def g_def obj_def smo_ok_def log_geometry_def Let_def by (auto simp: load_start_def)
      moreover have "free_at T m 0 \<subseteq> range_set (sm_start g) (sm_size g)"
        using ms_side_range[OF i(3)[of "slot_at T 0"]] by (simp add: free_at_def g_def)
      ultimately show ?thesis by blast
    qed
    note e = smo_empty_ok[of contents os' obj g, OF c(7)[unfolded m1(2), folded obj_def]]
    have smo: "smo = \<lparr>smo_object = obj, smo_objsize = 0, smo_alloc = 0\<rparr>" using c(6) m1 by (simp add: obj_def)
    have L: "logged contents g SM_FREE smo os' = range_set (sm_start g) (sm_size g)" unfolding smo by (rule e(2))
    have sets: "sm_set A \<subseteq> range_set (sm_start g) (sm_size g)"
      "range_set (sm_start g) (sm_size g) - sm_set A \<union> sm_set F = S - alloc_at T m 0 \<union> free_at T m 0"
      using sub unfolding A c(4) by blast+
    show ?thesis
    proof (rule exI[of _ A], rule exI[of _ F], rule exI[of _ smo], rule exI[of _ os'], intro conjI)
      show "smo_ok contents g SM_FREE smo os'" unfolding smo by (rule e(1))
      show "sm_set A \<subseteq> logged contents g SM_FREE smo os'" unfolding L by (rule sets(1))
      show "logged contents g SM_FREE smo os' - sm_set A \<union> sm_set F = S - alloc_at T m 0 \<union> free_at T m 0" unfolding L by (rule sets(2))
      show "sm_set F \<inter> (logged contents g SM_FREE smo os' - sm_set A) = {}" by (simp add: c(4))
    qed (use True c(1-4,8) c(7)[unfolded m1(2), folded obj_def] loaded in \<open>simp_all add: m1 smo obj_def\<close>)
  qed
qed

text \<open>The whole of \<open>sync_maps\<close> leaves the maps of the transaction group empty and the log on disk changed.\<close>

definition synced :: "u64 \<Rightarrow> space_map \<Rightarrow> space_map \<Rightarrow> space_map \<Rightarrow> space_map_obj \<Rightarrow> metaslab \<Rightarrow> metaslab" where
  "synced T Fc F A smo m =
     (set_freemap (slot_at T 0) F (set_allocmap (slot_at T 0) A (set_freemap (slot_at T 3) Fc m)))\<lparr>ms_smo_syncing := smo\<rparr>"

lemma synced_fields [simp]:
  "ms_map (synced T Fc F A smo m) = ms_map m" "ms_smo (synced T Fc F A smo m) = ms_smo m" "ms_smo_syncing (synced T Fc F A smo m) = smo"
  "ms_allocmap (synced T Fc F A smo m) = (ms_allocmap m)(slot_at T 0 := A)"
  "ms_freemap (synced T Fc F A smo m) = (ms_freemap m)(slot_at T 3 := Fc, slot_at T 0 := F)"
  "ms_defermap (synced T Fc F A smo m) = ms_defermap m" "ms_weight (synced T Fc F A smo m) = ms_weight m"
  "ms_group (synced T Fc F A smo m) = ms_group m" "ms_deferspace (synced T Fc F A smo m) = ms_deferspace m"
  by (simp_all add: synced_def)

lemma sync_maps_inv:
  assumes inv: "ms_inv vd contents os T m" and k: "kmem_fresh (me_kernel env)" and mos: "mos_ok env contents objs"
    and room: "8 * (length (contents os (smo_object (ms_smo_syncing m))) + 2 * unat (sm_size (ms_map m)) + 2) + 4096 < 2 ^ 64"
  shows "\<exists>Fc F A smo os'. sync_maps env T m os = Inr (synced T Fc F A smo m, os')
     \<and> ms_side (ms_map m) Fc \<and> sm_set Fc = free_at T m 3 \<union> free_at T m 0 \<and> ms_side (ms_map m) F \<and> sm_set F = {} \<and> ms_side (ms_map m) A \<and> sm_set A = {}
     \<and> smo_object smo = (smo_object (ms_smo_syncing m)) \<and> smo_ok contents (ms_map m) SM_FREE smo os'
     \<and> logged contents (ms_map m) SM_FREE smo os' = logged contents (ms_map m) SM_FREE (ms_smo_syncing m) os - alloc_at T m 0 \<union> free_at T m 0
     \<and> only_changed contents objs (smo_object (ms_smo_syncing m)) os os' \<and> (\<not> sm_loaded (ms_map m) \<longrightarrow> (\<exists>es. contents os' (smo_object (ms_smo_syncing m)) = contents os (smo_object (ms_smo_syncing m)) @ es))
     \<and> length (contents os' (smo_object (ms_smo_syncing m))) \<le> length (contents os (smo_object (ms_smo_syncing m))) + 2 * unat (sm_size (ms_map m)) + 2"
proof -
  let ?g = "ms_map m" and ?obj = "smo_object (ms_smo_syncing m)"
  note i = ms_invD[OF inv]
  let ?t = "slot_at T 0" and ?c = "slot_at T 3" and ?dm = "me_dmu env" and ?pass = "spa_sync_pass env"
  let ?N = "unat (sm_size ?g)" and ?S = "logged contents ?g SM_FREE (ms_smo_syncing m) os - alloc_at T m 0 \<union> free_at T m 0"
  have place: "ms_place vd ?g" using i(1) by simp
  have f: "ms_side ?g (ms_freemap m ?t)" "ms_side ?g (ms_freemap m ?c)" using i(3) by simp_all
  have "free_at T m 3 \<inter> free_at T m 0 = {}" using view_of_sets(1,2,4)[OF i(13)] by auto
  then obtain Fc where Fc: "space_map_walk (ms_freemap m ?t) (add_func (me_kernel env)) (ms_freemap m ?c) = Inr Fc" "ms_side ?g Fc"
    "sm_set Fc = free_at T m 3 \<union> free_at T m 0"
    using side_walk_add[OF f k] by (auto simp: free_at_def)
  let ?m1 = "set_freemap ?c Fc m"
  obtain A F smo os1 where p: "(if should_condense env ?m1 then metaslab_condense env T ?m1 os else Inr (?m1, os))
       = Inr (set_freemap ?t F (set_allocmap ?t A (?m1\<lparr>ms_smo_syncing := smo\<rparr>)), os1)"
    "ms_side ?g A" "ms_side ?g F" "smo_object smo = ?obj" "smo_ok contents ?g SM_FREE smo os1"
    "length (contents os1 ?obj) \<le> length (contents os ?obj)" "only_changed contents objs ?obj os os1"
    "\<not> sm_loaded ?g \<longrightarrow> contents os1 ?obj = contents os ?obj" "sm_set A \<subseteq> logged contents ?g SM_FREE smo os1"
    "sm_set F \<inter> (logged contents ?g SM_FREE smo os1 - sm_set A) = {}" "logged contents ?g SM_FREE smo os1 - sm_set A \<union> sm_set F = ?S"
    using sync_prepared[OF inv k mos Fc(2) Fc(3)] by (elim exE conjE) (rule that)
  have room1: "8 * (length (contents os1 (smo_object smo)) + ?N + 1) + 4096 < 2 ^ 64"
    using room p(6) unfolding p(4) by simp
  have "if SM_ALLOC = SM_FREE then logged contents ?g SM_FREE smo os1 \<inter> sm_set A = {} else sm_set A \<subseteq> logged contents ?g SM_FREE smo os1"
    using p(9) by (simp add: SM_ALLOC_def SM_FREE_def)
  then obtain A2 smo2 os2 where a: "space_map_sync ?dm ?pass T A SM_ALLOC smo os1 = Inr (A2, smo2, os2)" "ms_side ?g A2" "sm_set A2 = {}"
    "smo_object smo2 = smo_object smo" "smo_ok contents ?g SM_FREE smo2 os2"
    "logged contents ?g SM_FREE smo2 os2 = (if SM_ALLOC = SM_FREE then logged contents ?g SM_FREE smo os1 \<union> sm_set A
       else logged contents ?g SM_FREE smo os1 - sm_set A)"
    "\<exists>es. contents os2 (smo_object smo) = contents os1 (smo_object smo) @ es \<and> length es \<le> ?N + 1"
    "only_changed contents objs (smo_object smo) os1 os2"
    using space_map_sync_any[OF p(2) place _ mos p(5) room1, of SM_ALLOC ?pass T] by blast
  have L2: "logged contents ?g SM_FREE smo2 os2 = logged contents ?g SM_FREE smo os1 - sm_set A"
    using a(6) by (simp add: SM_ALLOC_def SM_FREE_def)
  have room2: "8 * (length (contents os2 (smo_object smo2)) + ?N + 1) + 4096 < 2 ^ 64"
    using a(7) room p(6) unfolding a(4) p(4) by auto
  have "if SM_FREE = SM_FREE then logged contents ?g SM_FREE smo2 os2 \<inter> sm_set F = {} else sm_set F \<subseteq> logged contents ?g SM_FREE smo2 os2"
    using p(10) unfolding L2 by auto
  then obtain F2 smo3 os3 where b: "space_map_sync ?dm ?pass T F SM_FREE smo2 os2 = Inr (F2, smo3, os3)" "ms_side ?g F2" "sm_set F2 = {}"
    "smo_object smo3 = smo_object smo2" "smo_ok contents ?g SM_FREE smo3 os3"
    "logged contents ?g SM_FREE smo3 os3 = (if SM_FREE = SM_FREE then logged contents ?g SM_FREE smo2 os2 \<union> sm_set F
       else logged contents ?g SM_FREE smo2 os2 - sm_set F)"
    "\<exists>es. contents os3 (smo_object smo2) = contents os2 (smo_object smo2) @ es \<and> length es \<le> ?N + 1"
    "only_changed contents objs (smo_object smo2) os2 os3"
    using space_map_sync_any[OF p(3) place _ mos a(5) room2, of SM_FREE ?pass T] by blast
  have "sync_maps env T m os = Inr (synced T Fc F2 A2 smo3 m, os3)"
  proof -
    have "set_freemap ?t F2 ((set_allocmap ?t A2 ((set_freemap ?t F (set_allocmap ?t A (?m1\<lparr>ms_smo_syncing := smo\<rparr>)))\<lparr>ms_smo_syncing := smo2\<rparr>))
       \<lparr>ms_smo_syncing := smo3\<rparr>) = synced T Fc F2 A2 smo3 m"
      by (simp add: synced_def set_freemap_def set_allocmap_def)
    then show ?thesis unfolding sync_maps_def Let_def TXG_IDX_clean TXG_IDX_now[of T] Fc(1) using p(1) a(1) b(1) by simp
  qed
  moreover have "\<exists>es. contents os3 ?obj = contents os ?obj @ es" if "\<not> sm_loaded ?g"
    using that p(8) a(7) b(7) unfolding a(4) p(4) by auto
  moreover have "length (contents os3 ?obj) \<le> length (contents os ?obj) + 2 * ?N + 2"
    using p(6) a(7) b(7) unfolding a(4) p(4) by auto
  moreover have "only_changed contents objs ?obj os os3"
    using only_changed_trans[OF only_changed_trans[OF p(7)]] a(8) b(8) unfolding a(4) p(4) by blast
  moreover have "logged contents ?g SM_FREE smo3 os3 = ?S" using b(6) p(11) unfolding L2 by simp
  moreover have "smo_object smo3 = ?obj" using b(4) a(4) p(4) by simp
  ultimately show ?thesis using Fc(2,3) a(2,3) b(2,3,5)
    by (rule_tac exI[of _ Fc], rule_tac exI[of _ F2], rule_tac exI[of _ A2], rule_tac exI[of _ smo3], rule_tac exI[of _ os3]) simp
qed

lemma unloaded_frame:
  assumes "ms_unloaded contents os T m" "ms_map m' = ms_map m" "ms_smo m' = ms_smo m"
    and "\<forall>i < 3. alloc_at T m' i = {}"
    and same: "contents os' (smo_object (ms_smo m)) = contents os (smo_object (ms_smo m)) @ es"
    and logged: "logged contents (ms_map m) SM_FREE (ms_smo_syncing m') os'
      = logged contents (ms_map m) SM_FREE (ms_smo_syncing m) os \<union> free_at T m' 3"
    and sub: "free_at T m 3 \<subseteq> free_at T m' 3" "(free_at T m' 3 - free_at T m 3) \<inter> logged contents (ms_map m) SM_FREE (ms_smo_syncing m) os = {}"
  shows "ms_unloaded contents os' T m'"
proof -
  let ?C = "contents_upto contents (ms_smo m)" and ?o = "smo_object (ms_smo m)"
  have u: "sm_idle (ms_map m)" "smo_ok ?C (ms_map m) SM_FREE (ms_smo m) os"
    "logged ?C (ms_map m) SM_FREE (ms_smo m) os \<inter> free_at T m 3 = {}"
    "logged contents (ms_map m) SM_FREE (ms_smo_syncing m) os = logged ?C (ms_map m) SM_FREE (ms_smo m) os \<union> free_at T m 3"
    using assms(1) unfolding ms_unloaded_def Let_def by blast+
  have "unat (smo_objsize (ms_smo m)) = 8 * length (?C os ?o)" using u(2) by (simp add: smo_ok_def Let_def)
  then have "unat (smo_objsize (ms_smo m)) div 8 \<le> length (contents os ?o)" by (simp add: contents_upto_def min_def split: if_splits)
  then have eq: "?C os' ?o = ?C os ?o" using same by (simp add: contents_upto_def)
  have "smo_ok ?C (ms_map m) SM_FREE (ms_smo m) os'" using u(2) by (simp add: smo_ok_def Let_def eq)
  moreover have "logged ?C (ms_map m) SM_FREE (ms_smo m) os' \<inter> free_at T m' 3 = {}"
    unfolding eq using u(3,4) sub(2) by blast
  moreover have "logged contents (ms_map m) SM_FREE (ms_smo_syncing m') os' = logged ?C (ms_map m) SM_FREE (ms_smo m) os' \<union> free_at T m' 3"
    unfolding logged eq using u(4) sub(1) by blast
  ultimately show ?thesis using u(1) assms(4) unfolding ms_unloaded_def Let_def assms(2,3) by blast
qed

lemma synced_inv:
  assumes inv: "ms_inv vd contents os T m" and obj: "smo_object (ms_smo_syncing m) \<noteq> 0"
    and s: "ms_side (ms_map m) Fc" "sm_set Fc = free_at T m 3 \<union> free_at T m 0" "ms_side (ms_map m) F" "sm_set F = {}"
      "ms_side (ms_map m) A" "sm_set A = {}" "smo_object smo = smo_object (ms_smo_syncing m)" "smo_ok contents (ms_map m) SM_FREE smo os'"
      "logged contents (ms_map m) SM_FREE smo os' = logged contents (ms_map m) SM_FREE (ms_smo_syncing m) os - alloc_at T m 0 \<union> free_at T m 0"
      "only_changed contents objs (smo_object (ms_smo_syncing m)) os os'"
      "\<not> sm_loaded (ms_map m) \<Longrightarrow> \<exists>es. contents os' (smo_object (ms_smo_syncing m)) = contents os (smo_object (ms_smo_syncing m)) @ es"
  shows "ms_inv vd contents os' T (synced T Fc F A smo m)"
    and "view_of contents os' T (synced T Fc F A smo m) = spec_sync (view_of contents os T m)"
proof -
  let ?m = "synced T Fc F A smo m"
  note i = ms_invD[OF inv]
  have at: "alloc_at T ?m 0 = {}" "alloc_at T ?m (Suc 0) = alloc_at T m 1" "alloc_at T ?m 2 = alloc_at T m 2" "alloc_at T ?m 3 = alloc_at T m 3"
    "free_at T ?m 0 = {}" "free_at T ?m (Suc 0) = free_at T m 1" "free_at T ?m 2 = free_at T m 2" "free_at T ?m 3 = free_at T m 3 \<union> free_at T m 0"
    "defer_at T ?m j = defer_at T m j" for j
    using s(2,4,6) by (simp_all add: map_sets)
  note v = view_of_sets[OF i(13)]
  have unl: "alloc_at T m 0 = {}" "alloc_at T m 1 = {}" "alloc_at T m 2 = {}" if "\<not> sm_loaded (ms_map m)"
    using i(12)[OF that] by (simp_all add: ms_unloaded_def)
  have avail: "v_avail (view_of contents os' T ?m) = v_avail (view_of contents os T m)"
  proof (cases "sm_loaded (ms_map m)")
    case False
    have f0: "free_at T m 0 \<inter> logged contents (ms_map m) SM_FREE (ms_smo_syncing m) os = {}" using v(4) unl[OF False] by simp
    then show ?thesis using False by (simp add: view_of_def Let_def s(9) at unl[OF False]) blast
  qed (simp add: view_of_def Let_def)
  show view: "view_of contents os' T ?m = spec_sync (view_of contents os T m)"
    using avail s(9) by (simp add: view_of_def spec_sync_def Let_def at)
  show "ms_inv vd contents os' T ?m"
  proof (rule ms_invI)
    show "view_ok (view_of contents os' T ?m)" unfolding view by (rule spec_sync_ok[OF i(13)])
    show "ms_unloaded contents os' T ?m" if "\<not> sm_loaded (ms_map ?m)"
    proof -
      have unloaded: "\<not> sm_loaded (ms_map m)" using that by simp
      have "\<exists>es. contents os' (smo_object (ms_smo m)) = contents os (smo_object (ms_smo m)) @ es"
      proof (cases "smo_object (ms_smo m) = smo_object (ms_smo_syncing m)")
        case True
        then show ?thesis using s(11)[OF unloaded] by simp
      next
        case False
        then show ?thesis using s(10) by (simp add: only_changed_def)
      qed
      then obtain es where es: "contents os' (smo_object (ms_smo m)) = contents os (smo_object (ms_smo m)) @ es" by blast
      have f0: "free_at T m 0 \<inter> logged contents (ms_map m) SM_FREE (ms_smo_syncing m) os = {}" using v(4) unl[OF unloaded] by simp
      have R: "free_at T m 3 \<subseteq> logged contents (ms_map m) SM_FREE (ms_smo_syncing m) os" unfolding v(2) by blast
      show ?thesis
      proof (rule unloaded_frame[OF i(12)[OF unloaded] _ _ _ es])
        show "\<forall>i < 3. alloc_at T ?m i = {}" unfolding all_less_3 using unl[OF unloaded] by (simp add: at)
        show "logged contents (ms_map m) SM_FREE (ms_smo_syncing ?m) os'
            = logged contents (ms_map m) SM_FREE (ms_smo_syncing m) os \<union> free_at T ?m 3"
          using R unfolding synced_fields at s(9) unl[OF unloaded] by blast
        show "(free_at T ?m 3 - free_at T m 3) \<inter> logged contents (ms_map m) SM_FREE (ms_smo_syncing m) os = {}"
          unfolding at using f0 by blast
      qed (simp_all add: at)
    qed
  qed (use i s(1,3,5,7,8) obj in \<open>simp_all add: at\<close>)
qed

text \<open>A metaslab depends on the objects of its own space map only.\<close>

lemma ms_inv_frame:
  assumes "contents os' (smo_object (ms_smo_syncing m)) = contents os (smo_object (ms_smo_syncing m))"
    and "contents os' (smo_object (ms_smo m)) = contents os (smo_object (ms_smo m))"
  shows "ms_inv vd contents os' T m = ms_inv vd contents os T m" "view_of contents os' T m = view_of contents os T m"
proof -
  show v: "view_of contents os' T m = view_of contents os T m" unfolding view_of_def assms(1) ..
  have "ms_unloaded contents os' T m = ms_unloaded contents os T m"
    unfolding ms_unloaded_def smo_ok_def contents_upto_def assms ..
  moreover have "smo_ok contents g mt (ms_smo_syncing m) os' = smo_ok contents g mt (ms_smo_syncing m) os" for g mt
    unfolding smo_ok_def assms(1) ..
  ultimately show "ms_inv vd contents os' T m = ms_inv vd contents os T m" unfolding ms_inv_def v by simp
qed

section \<open>A new object\<close>

lemma sync_object_inv:
  assumes inv: "ms_inv vd contents os T m" and mos: "mos_ok env contents objs" and arr: "vdev_ms_array vd' \<in> objs os"
    and more: "insert 0 (objs os) \<noteq> UNIV"
  shows "\<exists>smo os'. sync_object env vd' m os = Inr (m\<lparr>ms_smo_syncing := smo\<rparr>, os') \<and> smo_object smo \<noteq> 0
    \<and> (smo_object smo = smo_object (ms_smo_syncing m) \<or> smo_object smo \<notin> objs os \<and> smo_object smo \<in> objs os')
    \<and> ms_inv vd contents os' T (m\<lparr>ms_smo_syncing := smo\<rparr>)
    \<and> view_of contents os' T (m\<lparr>ms_smo_syncing := smo\<rparr>) = view_of contents os T m
    \<and> contents os' (smo_object smo) = contents os (smo_object (ms_smo_syncing m))
    \<and> (\<forall>o' \<in> objs os - {vdev_ms_array vd'}. contents os' o' = contents os o') \<and> objs os \<subseteq> objs os' \<and> objs os' \<subseteq> insert (smo_object smo) (objs os)
    \<and> contents os' 0 = contents os 0"
proof (cases "smo_object (ms_smo_syncing m) = 0")
  case False
  then show ?thesis using inv by (intro exI[of _ "ms_smo_syncing m"] exI[of _ os]) (simp add: sync_object_def Let_def subset_insertI)
next
  case True
  note i = ms_invD[OF inv]
  let ?arr = "vdev_ms_array vd'"
  have z: "smo_objsize (ms_smo_syncing m) = 0" "smo_alloc (ms_smo_syncing m) = 0" using i(7)[OF True] by auto
  have c0: "contents os 0 = []" using i(6) z(1) True by (simp add: smo_ok_def Let_def)
  obtain obj os1 where al: "me_object_alloc env os = (obj, os1)" "obj \<noteq> 0" "obj \<notin> objs os" "contents os1 = (contents os)(obj := [])"
    "objs os1 = insert obj (objs os)" using mos_okD(6)[OF mos more] by blast
  define os2 where "os2 = dmu_write (me_dmu env) ?arr (8 * drop_bit (unat (vdev_ms_shift (node_of vd'))) (sm_start (ms_map m))) [obj] os1"
  have c2: "contents os2 o' = contents os1 o'" if "o' \<noteq> ?arr" for o' unfolding os2_def using that by (rule mos_okD(2)[OF mos])
  have ne: "obj \<noteq> ?arr" "0 \<noteq> ?arr" using arr al(3) mos_okD(5)[OF mos, of os] by metis+
  let ?smo = "\<lparr>smo_object = obj, smo_objsize = 0, smo_alloc = 0\<rparr>"
  let ?m = "m\<lparr>ms_smo_syncing := ?smo\<rparr>"
  have smo: "(ms_smo_syncing m)\<lparr>smo_object := obj\<rparr> = ?smo" using z by (cases "ms_smo_syncing m") simp
  have c3: "contents os2 obj = []" "contents os2 0 = contents os 0" using c2 ne al(2,4) by auto
  note e = smo_empty_ok[of contents os2 obj "ms_map m", OF c3(1)]
  have old: "logged contents (ms_map m) SM_FREE (ms_smo_syncing m) os = range_set (sm_start (ms_map m)) (sm_size (ms_map m))"
    unfolding True using c0 by (simp add: load_start_def)
  have fields: "ms_map ?m = ms_map m" "ms_smo_syncing ?m = ?smo" by simp_all
  have at: "alloc_at T ?m = alloc_at T m" "free_at T ?m = free_at T m" "defer_at T ?m = defer_at T m"
    by (simp_all add: map_sets fun_eq_iff)
  have view: "view_of contents os2 T ?m = view_of contents os T m"
    unfolding view_of_def Let_def at fields e(2) old ..
  have "ms_inv vd contents os2 T ?m"
  proof (rule ms_invI)
    show "view_ok (view_of contents os2 T ?m)" unfolding view by (rule i(13))
    show "ms_unloaded contents os2 T ?m" if "\<not> sm_loaded (ms_map ?m)"
    proof -
      have u: "ms_unloaded contents os T m" using i(12) that by simp
      have "contents os2 (smo_object (ms_smo m)) = contents os (smo_object (ms_smo m)) @ []" using i(9) True c3(2) by auto
      then show ?thesis
      proof (rule unloaded_frame[OF u, rotated 3])
        show "logged contents (ms_map m) SM_FREE (ms_smo_syncing ?m) os2
            = logged contents (ms_map m) SM_FREE (ms_smo_syncing m) os \<union> free_at T ?m 3"
          unfolding fields e(2) old at using ms_side_range[OF i(3)[of "slot_at T 3"]] by (auto simp: free_at_def)
      qed (use u in \<open>simp_all add: at ms_unloaded_def\<close>)
    qed
    show "smo_ok contents (ms_map ?m) SM_FREE (ms_smo_syncing ?m) os2" using e(1) by simp
  qed (use i al(2) True in \<open>simp_all add: at\<close>)
  moreover have "sync_object env vd' m os = Inr (?m, os2)"
    unfolding sync_object_def Let_def al(1) os2_def[symmetric] smo using True z al(2) by (simp add: os2_def smo)
  moreover have "objs os \<subseteq> objs os2" "obj \<in> objs os2" "objs os2 \<subseteq> insert obj (objs os)" using al(5) mos_okD(3)[OF mos] unfolding os2_def by auto
  moreover have "contents os2 o' = contents os o'" if "o' \<in> objs os - {?arr}" for o'
    using that al(3) c2[of o'] unfolding al(4) by auto
  ultimately show ?thesis using view c3 c0 al(2,3) True by (intro exI[of _ ?smo] exI[of _ os2]) simp
qed

section \<open>The whole sync\<close>

text \<open>
  A sync of a metaslab leaves its other state, the other metaslabs and the rest of the pool alone, and writes only to the
  objects of its space map and of the vdev's array.
\<close>

lemma metaslab_sync_inv:
  assumes mg: "ms_group (p_ms p msp) = Some mg" and inv: "ms_inv vd contents (p_os p) T (p_ms p msp)"
    and k: "kmem_fresh (me_kernel env)" and mos: "mos_ok env contents objs"
    and room: "8 * (length (contents (p_os p) (smo_object (ms_smo_syncing (p_ms p msp)))) + 2 * unat (sm_size (ms_map (p_ms p msp))) + 2) + 4096 < 2 ^ 64"
  defines "arr \<equiv> vdev_ms_array (p_vd p (mg_vd (p_mg p mg)))"
  assumes hole: "\<not> vdev_ishole (node_of (p_vd p (mg_vd (p_mg p mg))))" and arr: "arr \<in> objs (p_os p)"
    and more: "insert 0 (objs (p_os p)) \<noteq> UNIV"
  shows "\<exists>m os. metaslab_sync env msp T p = Inr ((upd_ms msp (\<lambda>_. m) p)\<lparr>p_os := os\<rparr>)
    \<and> ms_inv vd contents os T m \<and> view_of contents os T m = spec_sync (view_of contents (p_os p) T (p_ms p msp))
    \<and> ms_map m = ms_map (p_ms p msp) \<and> ms_weight m = ms_weight (p_ms p msp) \<and> ms_group m = ms_group (p_ms p msp)
    \<and> ms_smo m = ms_smo (p_ms p msp)
    \<and> (smo_object (ms_smo_syncing m) = smo_object (ms_smo_syncing (p_ms p msp))
        \<or> smo_object (ms_smo_syncing m) \<notin> objs (p_os p) \<and> smo_object (ms_smo_syncing m) \<in> objs os)
    \<and> length (contents os (smo_object (ms_smo_syncing m)))
        \<le> length (contents (p_os p) (smo_object (ms_smo_syncing (p_ms p msp)))) + 2 * unat (sm_size (ms_map (p_ms p msp))) + 2
    \<and> (\<forall>o' \<in> objs (p_os p) - {arr, smo_object (ms_smo_syncing (p_ms p msp))}. contents os o' = contents (p_os p) o') \<and> objs (p_os p) \<subseteq> objs os
    \<and> objs os \<subseteq> insert (smo_object (ms_smo_syncing m)) (objs (p_os p)) \<and> contents os 0 = contents (p_os p) 0"
proof -
  let ?m = "p_ms p msp" and ?vd = "p_vd p (mg_vd (p_mg p mg))"
  note i = ms_invD[OF inv]
  have sp: "sm_space (ms_allocmap ?m (slot_at T 0)) = 0 \<longleftrightarrow> alloc_at T ?m 0 = {}"
    "sm_space (ms_freemap ?m (slot_at T 0)) = 0 \<longleftrightarrow> free_at T ?m 0 = {}"
    using i(2,3)[of "slot_at T 0"] sm_inv_empty_space by (auto simp: map_sets ms_side_def)
  show ?thesis
  proof (cases "alloc_at T ?m 0 = {} \<and> free_at T ?m 0 = {}")
    case True
    then have "metaslab_sync env msp T p = Inr p"
      using mg hole sp by (simp add: metaslab_sync_def Let_def TXG_IDX_now[of T])
    moreover have "(upd_ms msp (\<lambda>_. ?m) p)\<lparr>p_os := p_os p\<rparr> = p" by (simp add: upd_ms_def)
    moreover have "spec_sync (view_of contents (p_os p) T ?m) = view_of contents (p_os p) T ?m"
      using True by (simp add: spec_sync_def view_of_def Let_def)
    ultimately show ?thesis using inv by (intro exI[of _ ?m] exI[of _ "p_os p"]) (simp add: subset_insertI)
  next
    case False
    obtain smo os1 where o: "sync_object env ?vd ?m (p_os p) = Inr (?m\<lparr>ms_smo_syncing := smo\<rparr>, os1)" "smo_object smo \<noteq> 0"
      "smo_object smo = smo_object (ms_smo_syncing ?m) \<or> smo_object smo \<notin> objs (p_os p) \<and> smo_object smo \<in> objs os1"
      "ms_inv vd contents os1 T (?m\<lparr>ms_smo_syncing := smo\<rparr>)" "view_of contents os1 T (?m\<lparr>ms_smo_syncing := smo\<rparr>) = view_of contents (p_os p) T ?m"
      "contents os1 (smo_object smo) = contents (p_os p) (smo_object (ms_smo_syncing ?m))"
      "\<forall>o' \<in> objs (p_os p) - {arr}. contents os1 o' = contents (p_os p) o'" "objs (p_os p) \<subseteq> objs os1"
      "objs os1 \<subseteq> insert (smo_object smo) (objs (p_os p))" "contents os1 0 = contents (p_os p) 0"
      using sync_object_inv[OF inv mos _ more, of ?vd] arr unfolding arr_def by blast
    let ?m1 = "?m\<lparr>ms_smo_syncing := smo\<rparr>"
    have room1: "8 * (length (contents os1 (smo_object (ms_smo_syncing ?m1))) + 2 * unat (sm_size (ms_map ?m1)) + 2) + 4096 < 2 ^ 64"
      using room o(6) by simp
    obtain Fc F A smo2 os2 where s: "sync_maps env T ?m1 os1 = Inr (synced T Fc F A smo2 ?m1, os2)"
      "ms_side (ms_map ?m1) Fc" "sm_set Fc = free_at T ?m1 3 \<union> free_at T ?m1 0" "ms_side (ms_map ?m1) F" "sm_set F = {}"
      "ms_side (ms_map ?m1) A" "sm_set A = {}" "smo_object smo2 = smo_object (ms_smo_syncing ?m1)" "smo_ok contents (ms_map ?m1) SM_FREE smo2 os2"
      "logged contents (ms_map ?m1) SM_FREE smo2 os2 = logged contents (ms_map ?m1) SM_FREE (ms_smo_syncing ?m1) os1 - alloc_at T ?m1 0 \<union> free_at T ?m1 0"
      "only_changed contents objs (smo_object (ms_smo_syncing ?m1)) os1 os2"
      "\<not> sm_loaded (ms_map ?m1) \<longrightarrow> (\<exists>es. contents os2 (smo_object (ms_smo_syncing ?m1)) = contents os1 (smo_object (ms_smo_syncing ?m1)) @ es)"
      "length (contents os2 (smo_object (ms_smo_syncing ?m1))) \<le> length (contents os1 (smo_object (ms_smo_syncing ?m1))) + 2 * unat (sm_size (ms_map ?m1)) + 2"
      using sync_maps_inv[OF o(4) k mos room1] by (elim exE conjE) (rule that)
    have nz: "smo_object (ms_smo_syncing ?m1) \<noteq> 0" using o(2) by simp
    let ?m2 = "synced T Fc F A smo2 ?m1"
    obtain os3 where b: "me_bonus_write env (smo_object smo2) smo2 os2 = (0, os3)" "contents os3 = contents os2" "objs os3 = objs os2"
      using mos_okD(7)[OF mos, of "smo_object smo2" smo2 os2] by blast
    have inv2: "ms_inv vd contents os2 T ?m2" "view_of contents os2 T ?m2 = spec_sync (view_of contents (p_os p) T ?m)"
      using synced_inv[OF o(4) nz s(2-11)] s(12) o(5) by simp_all
    have inv3: "ms_inv vd contents os3 T ?m2" "view_of contents os3 T ?m2 = view_of contents os2 T ?m2"
      using inv2(1) ms_inv_frame[of contents os3 ?m2 os2] b(2) by simp_all
    have "\<not> (sm_space (ms_allocmap ?m (slot_at T 0)) = 0 \<and> sm_space (ms_freemap ?m (slot_at T 0)) = 0)" using False sp by blast
    then have "metaslab_sync env msp T p = Inr ((upd_ms msp (\<lambda>_. ?m2) p)\<lparr>p_os := os3\<rparr>)"
      using mg hole o(1) s(1) b(1) by (simp only: metaslab_sync_def Let_def TXG_IDX_now[of T] if_not_P) simp
    moreover have "contents os3 o' = contents (p_os p) o'" if "o' \<in> objs (p_os p) - {arr, smo_object (ms_smo_syncing ?m)}" for o'
    proof -
      have "o' \<noteq> smo_object smo" using that o(3) by auto
      then show ?thesis using that o(7) s(11) b(2) by (simp add: only_changed_def)
    qed
    moreover have "contents os3 0 = contents (p_os p) 0" using o(2,10) s(11) b(2) by (simp add: only_changed_def)
    moreover have "objs (p_os p) \<subseteq> objs os3" "objs os3 \<subseteq> insert (smo_object (ms_smo_syncing ?m2)) (objs (p_os p))"
      using o(8,9) s(8,11) b(3) by (simp_all add: only_changed_def)
    moreover have "smo_object (ms_smo_syncing ?m2) = smo_object (ms_smo_syncing ?m) \<or> smo_object (ms_smo_syncing ?m2) \<notin> objs (p_os p) \<and> smo_object (ms_smo_syncing ?m2) \<in> objs os3"
      using o(3) s(8,11) b(3) by (auto simp: only_changed_def)
    moreover have "length (contents os3 (smo_object (ms_smo_syncing ?m2))) \<le> length (contents (p_os p) (smo_object (ms_smo_syncing ?m))) + 2 * unat (sm_size (ms_map ?m)) + 2"
      using s(8,13) o(6) b(2) by simp
    ultimately show ?thesis using inv2(2) inv3 by (intro exI[of _ ?m2] exI[of _ os3]) simp
  qed
qed

end
