(* ===== verification/Metaslab_Done.thy ===== *)
theory Metaslab_Done
  imports Metaslab_Sync
begin

text \<open>
  \<open>metaslab_sync_done\<close>: the oldest deferred frees become available, the frees of the transaction group are deferred, and the
  metaslab is ready for the next transaction group.
\<close>

section \<open>Frees and claims in bulk\<close>

interpretation ms_free: range_adder "free_func k" "\<lambda>d. kmem_fresh k \<and> sm_active t d" for k t
proof
  fix d s z
  assume "kmem_fresh k \<and> sm_active t d" "sm_range d s z" "sm_set d \<inter> range_set s z = {}"
  then show "\<exists>d'. free_func k s z d = Inr d' \<and> (kmem_fresh k \<and> sm_active t d') \<and> sm_set d' = sm_set d \<union> range_set s z \<and> sm_geometry d d'"
    using sm_active_add[of t d k s z] unfolding free_func_def by blast
qed

interpretation ms_claim: range_remover "claim_func k" "\<lambda>d. kmem_fresh k \<and> sm_active t d \<and> sm_ppd d = Some (replicate 64 0)" for k t
proof
  fix d s z
  assume a: "kmem_fresh k \<and> sm_active t d \<and> sm_ppd d = Some (replicate 64 0)" "sm_range d s z" "range_set s z \<subseteq> sm_set d"
  then obtain d' where "space_map_claim k metaslab_ops d s z = Inr d'" "sm_active t d'" "sm_set d' = sm_set d - range_set s z"
    "sm_geometry d d'" "sm_ppd d' = sm_ppd d"
    using sm_active_claim[of t d k s z] by blast
  then show "\<exists>d'. claim_func k s z d = Inr d' \<and> (kmem_fresh k \<and> sm_active t d' \<and> sm_ppd d' = Some (replicate 64 0))
      \<and> sm_set d' = sm_set d - range_set s z \<and> sm_geometry d d'"
    using a(1) unfolding claim_func_def by (intro exI[of _ d']) simp
qed

section \<open>What a sync of a transaction group starts from\<close>

text \<open>The invariant without the committed space map, which is about to be replaced.\<close>

definition ms_core :: "top_vdev \<Rightarrow> ('os \<Rightarrow> u64 \<Rightarrow> u64 list) \<Rightarrow> 'os \<Rightarrow> u64 \<Rightarrow> metaslab \<Rightarrow> bool" where
  "ms_core vd contents os T m \<longleftrightarrow>
     ms_place vd (ms_map m)
     \<and> (\<forall>t < 4. ms_side (ms_map m) (ms_allocmap m t) \<and> ms_side (ms_map m) (ms_freemap m t))
     \<and> (\<forall>t < 2. ms_side (ms_map m) (ms_defermap m t))
     \<and> alloc_at T m 3 = {}
     \<and> smo_ok contents (ms_map m) SM_FREE (ms_smo_syncing m) os
     \<and> (smo_object (ms_smo_syncing m) = 0 \<longrightarrow> smo_objsize (ms_smo_syncing m) = 0 \<and> smo_alloc (ms_smo_syncing m) = 0)
     \<and> sint (ms_deferspace m) = int (card (defer_at T m 0) + card (defer_at T m 1))
     \<and> (if sm_loaded (ms_map m) then \<exists>t. sm_active t (ms_map m) else sm_idle (ms_map m) \<and> (\<forall>i < 3. alloc_at T m i = {}))
     \<and> view_ok (view_of contents os T m)"

lemma ms_inv_core: "ms_inv vd contents os T m \<Longrightarrow> ms_core vd contents os T m"
  unfolding ms_inv_def ms_core_def ms_unloaded_def by auto

lemma ms_coreD:
  assumes "ms_core vd contents os T m"
  shows "ms_place vd (ms_map m)" "t < 4 \<Longrightarrow> ms_side (ms_map m) (ms_allocmap m t)" "t < 4 \<Longrightarrow> ms_side (ms_map m) (ms_freemap m t)"
    "t < 2 \<Longrightarrow> ms_side (ms_map m) (ms_defermap m t)" "alloc_at T m 3 = {}" "smo_ok contents (ms_map m) SM_FREE (ms_smo_syncing m) os"
    "smo_object (ms_smo_syncing m) = 0 \<Longrightarrow> smo_objsize (ms_smo_syncing m) = 0 \<and> smo_alloc (ms_smo_syncing m) = 0"
    "sint (ms_deferspace m) = int (card (defer_at T m 0) + card (defer_at T m 1))"
    "sm_loaded (ms_map m) \<Longrightarrow> \<exists>t. sm_active t (ms_map m)" "\<not> sm_loaded (ms_map m) \<Longrightarrow> sm_idle (ms_map m)"
    "\<not> sm_loaded (ms_map m) \<Longrightarrow> i < 3 \<Longrightarrow> alloc_at T m i = {}" "view_ok (view_of contents os T m)"
  using assms unfolding ms_core_def by auto

section \<open>Moving the frees along\<close>

lemma load_wait_ready:
  assumes "sm_inv sm" "\<not> sm_loading sm"
  shows "rbind (of_loop (space_map_load_wait cv sm)) id = Inr sm"
  using assms by (simp add: space_map_load_wait.simps sm_inv_def of_loop_def)

lemma core_map:
  assumes "ms_core vd contents os T m"
  shows "sm_inv (ms_map m)" "\<not> sm_loading (ms_map m)"
  using ms_coreD(9,10)[OF assms] by (cases "sm_loaded (ms_map m)"; auto simp: sm_active_def sm_idle_def)+

text \<open>The metaslab when its frees have moved along.\<close>

definition deferred :: "u64 \<Rightarrow> space_map \<Rightarrow> space_map \<Rightarrow> space_map \<Rightarrow> s64 \<Rightarrow> metaslab \<Rightarrow> metaslab" where
  "deferred T sm D F ds m =
     (set_defermap (unat T mod 2) D (set_freemap (slot_at T 3) F (m\<lparr>ms_map := sm\<rparr>)))\<lparr>ms_smo := ms_smo_syncing m, ms_deferspace := ds\<rparr>"

lemma deferred_fields [simp]:
  "ms_map (deferred T sm D F ds m) = sm" "ms_smo (deferred T sm D F ds m) = ms_smo_syncing m"
  "ms_smo_syncing (deferred T sm D F ds m) = ms_smo_syncing m" "ms_allocmap (deferred T sm D F ds m) = ms_allocmap m"
  "ms_freemap (deferred T sm D F ds m) = (ms_freemap m)(slot_at T 3 := F)"
  "ms_defermap (deferred T sm D F ds m) = (ms_defermap m)(unat T mod 2 := D)" "ms_weight (deferred T sm D F ds m) = ms_weight m"
  "ms_group (deferred T sm D F ds m) = ms_group m" "ms_deferspace (deferred T sm D F ds m) = ds"
  "(deferred T sm D F ds m)\<lparr>ms_deferspace := ds'\<rparr> = deferred T sm D F ds' m"
  by (simp_all add: deferred_def)

lemma sync_done_defer_inv:
  assumes core: "ms_core vd contents os T m" and k: "kmem_fresh (me_kernel env)"
  shows "\<exists>sm D F. sync_done_defer env T m = Inr (deferred T sm D F (ms_deferspace m) m)
     \<and> sm_geometry (ms_map m) sm \<and> sm_loaded sm = sm_loaded (ms_map m)
     \<and> (if sm_loaded sm then (\<exists>t. sm_active t sm) \<and> sm_set sm = sm_set (ms_map m) \<union> defer_at T m 0 else sm = ms_map m)
     \<and> ms_side (ms_map m) D \<and> sm_set D = free_at T m 3 \<and> ms_side (ms_map m) F \<and> sm_set F = {} \<and> sm_ops sm = sm_ops (ms_map m)"
proof -
  note i = ms_coreD[OF core] and mi = core_map[OF core]
  let ?d = "unat T mod 2" and ?c = "slot_at T 3" and ?k = "me_kernel env"
  have s: "ms_side (ms_map m) (ms_defermap m ?d)" "ms_side (ms_map m) (ms_freemap m ?c)" using i(3,4) by simp_all
  have D0: "sm_set (ms_defermap m ?d) = defer_at T m 0" "sm_set (ms_freemap m ?c) = free_at T m 3" by (simp_all add: map_sets)
  obtain D sm where D: "space_map_vacate (ms_defermap m ?d) (if sm_loaded (ms_map m) then Some (free_func ?k) else None) (ms_map m) = Inr (D, sm)"
    "ms_side (ms_map m) D" "sm_set D = {}" "sm_geometry (ms_map m) sm" "sm_loaded sm = sm_loaded (ms_map m)"
    "if sm_loaded sm then (\<exists>t. sm_active t sm) \<and> sm_set sm = sm_set (ms_map m) \<union> defer_at T m 0 else sm = ms_map m"
    "sm_ops sm = sm_ops (ms_map m)"
  proof (cases "sm_loaded (ms_map m)")
    case True
    then obtain t where t: "sm_active t (ms_map m)" using i(9) by blast
    have "sm_set (ms_map m) \<inter> defer_at T m 0 = {}"
      using view_of_sets(1)[OF i(12)] True by (auto simp: view_of_def Let_def)
    moreover have "sm_inv (ms_defermap m ?d)" "sm_pp_root (ms_defermap m ?d) = None" "sm_geometry (ms_defermap m ?d) (ms_map m)"
      using s(1) by (auto simp: ms_side_def sm_geometry_def)
    ultimately obtain D sm where "space_map_vacate (ms_defermap m ?d) (Some (free_func ?k)) (ms_map m) = Inr (D, sm)" "sm_inv D"
      "kmem_fresh ?k \<and> sm_active t sm" "sm_set D = {}" "sm_set sm = sm_set (ms_map m) \<union> sm_set (ms_defermap m ?d)" "sm_same (ms_defermap m ?d) D"
      "sm_geometry (ms_map m) sm"
      using ms_free.vacate_adds[of "ms_defermap m ?d" ?k t "ms_map m"] k t D0(1) by blast
    then show ?thesis using True D0(1) ms_side_same[OF s(1)] t by (intro that[of D sm]) (simp_all, auto simp: sm_active_def)
  next
    case False
    obtain D where "space_map_vacate (ms_defermap m ?d) None (ms_map m) = Inr (D, ms_map m)" "ms_side (ms_map m) D" "sm_set D = {}"
      using side_vacate[OF s(1), of "ms_map m"] by (elim exE conjE) (rule that)
    then show ?thesis using False by (intro that[of D "ms_map m"]) (simp_all add: sm_geometry_def)
  qed
  have f: "sm_inv (ms_freemap m ?c)" "sm_pp_root (ms_freemap m ?c) = None" using s(2) by (auto simp: ms_side_def)
  have d: "sm_inv D" "sm_set (ms_freemap m ?c) \<inter> sm_set D = {}" using D(2,3) by (auto simp: ms_side_def)
  obtain F D' where F: "space_map_vacate (ms_freemap m ?c) (Some (add_func ?k)) D = Inr (F, D')" "sm_inv F" "sm_inv D'" "sm_set F = {}"
    "sm_set D' = free_at T m 3" "sm_same (ms_freemap m ?c) F" "sm_same D D'"
    using space_map_vacate_add[OF f d(1) ms_side_pair[OF s(2) D(2)] k d(2)] D(3) D0(2) by auto
  have "sync_done_defer env T m = Inr (deferred T sm D' F (ms_deferspace m) m)"
    unfolding sync_done_defer_def Let_def TXG_IDX_clean TXG_DEFER_SIZE_def load_wait_ready[OF mi]
    using D(1) F(1) by (simp add: deferred_def)
  then show ?thesis
    using D(4-7) F(4,5) ms_side_same[OF D(2) F(3,7)] ms_side_same[OF s(2) F(2,6)]
    by (rule_tac exI[of _ sm], rule_tac exI[of _ D'], rule_tac exI[of _ F]) (intro conjI, assumption+)
qed

lemma slots_next:
  "slot_at (T + 1) 0 = slot_at T 1" "slot_at (T + 1) (Suc 0) = slot_at T 2" "slot_at (T + 1) 2 = slot_at T 3" "slot_at (T + 1) 3 = slot_at T 0"
  using slot_at_add[of T 1 0] slot_at_add[of T 1 1] slot_at_add[of T 1 2] slot_at_add[of T 1 3] by (simp_all flip: numeral_2_eq_2 numeral_3_eq_3)

lemma defers_next:
  "(unat (T + 1 :: u64) + 0) mod 2 = (unat T + 1) mod 2" "(unat (T + 1 :: u64) + 1) mod 2 = unat T mod 2" "(unat T + 1) mod 2 \<noteq> unat T mod 2"
proof -
  show a: "(unat (T + 1 :: u64) + 0) mod 2 = (unat T + 1) mod 2" using defer_index[of T] by simp
  show "(unat T + 1) mod 2 \<noteq> unat T mod 2" using mod_2_swap[of "unat T"] by auto
  show "(unat (T + 1 :: u64) + 1) mod 2 = unat T mod 2"
    using a mod_2_swap[of "unat T"] mod_2_swap[of "unat (T + 1)"] by auto
qed

lemma sint_of_nat_64: "n < 2 ^ 63 \<Longrightarrow> sint (of_nat n :: u64) = int n"
  by (simp add: sint_uint uint_nat unat_of_nat_64 signed_take_bit_int_eq_self)

lemma word_of_sint: "sint (x :: u64) = int n \<Longrightarrow> x = of_nat n"
proof -
  assume "sint x = int n"
  then have "of_int (sint x) = (of_nat n :: u64)" by simp
  then show "x = of_nat n" by simp
qed

lemma ms_side_space: "ms_side g sm \<Longrightarrow> sm_space sm = of_nat (card (sm_set sm))"
  using sm_space_card[of sm] by (metis ms_side_def of_nat_unat)

lemma contents_upto_all:
  assumes "smo_ok contents g mt smo os"
  shows "contents_upto contents smo os (smo_object smo) = contents os (smo_object smo)"
  using assms by (simp add: contents_upto_def smo_ok_def Let_def)

lemma logged_range:
  assumes "smo_ok contents g SM_FREE smo os" "ms_place vd g"
  shows "logged contents g SM_FREE smo os \<subseteq> range_set (sm_start g) (sm_size g)"
  using log_set_range[of g SM_FREE "contents os (smo_object smo)" "load_start g SM_FREE"] assms(1) ms_placeD(2)[OF assms(2)]
  unfolding smo_ok_def log_geometry_def Let_def by (auto simp: load_start_def)

lemma ms_place_geometry: "sm_geometry g g' \<Longrightarrow> ms_place vd g = ms_place vd g'"
  by (simp add: ms_place_def sm_geometry_def)

text \<open>The space in the frees and the deferred frees is within the metaslab.\<close>

lemma defer_cards:
  assumes "ms_core vd contents os T m"
  shows "card (free_at T m 3) + card (defer_at T m 1) \<le> unat (sm_size (ms_map m))"
    "card (defer_at T m 0) + card (defer_at T m 1) \<le> unat (sm_size (ms_map m))"
proof -
  note i = ms_coreD[OF assms]
  let ?R = "range_set (sm_start (ms_map m)) (sm_size (ms_map m))"
  have rng: "logged contents (ms_map m) SM_FREE (ms_smo_syncing m) os \<subseteq> ?R" by (rule logged_range[OF i(6,1)])
  have d: "disjl [free_at T m 3, defer_at T m 0, defer_at T m 1]" using view_of_sets(1)[OF i(12)] by auto
  have sub: "free_at T m 3 \<union> defer_at T m 1 \<subseteq> ?R" "defer_at T m 0 \<union> defer_at T m 1 \<subseteq> ?R"
    using view_of_sets(2)[OF i(12)] rng by auto
  have fin: "finite (free_at T m 3)" "finite (defer_at T m 0)" "finite (defer_at T m 1)"
    using sub finite_subset[of _ ?R] by auto
  have "card (free_at T m 3 \<union> defer_at T m 1) \<le> card ?R" "card (defer_at T m 0 \<union> defer_at T m 1) \<le> card ?R"
    using card_mono[OF _ sub(1)] card_mono[OF _ sub(2)] by simp_all
  moreover have "free_at T m 3 \<inter> defer_at T m 1 = {}" "defer_at T m 0 \<inter> defer_at T m 1 = {}" using d by auto
  ultimately show "card (free_at T m 3) + card (defer_at T m 1) \<le> unat (sm_size (ms_map m))"
    "card (defer_at T m 0) + card (defer_at T m 1) \<le> unat (sm_size (ms_map m))"
    using fin by (simp_all add: card_Un_disjoint)
qed

lemma deferred_inv:
  assumes core: "ms_core vd contents os T m" and nil: "alloc_at T m 0 = {}" "free_at T m 0 = {}"
    and s: "sm_geometry (ms_map m) sm" "sm_loaded sm = sm_loaded (ms_map m)"
      "if sm_loaded sm then (\<exists>t. sm_active t sm) \<and> sm_set sm = sm_set (ms_map m) \<union> defer_at T m 0 else sm = ms_map m"
      "ms_side (ms_map m) D" "sm_set D = free_at T m 3" "ms_side (ms_map m) F" "sm_set F = {}"
  defines "ds \<equiv> ms_deferspace m + (sm_space (ms_freemap m (slot_at T 3)) - sm_space (ms_defermap m (unat T mod 2)))"
  shows "ms_inv vd contents os (T + 1) (deferred T sm D F ds m)"
    "view_of contents os (T + 1) (deferred T sm D F ds m) = spec_sync_done (view_of contents os T m)"
    "0 \<le> sint ds" "sint ds \<le> sint (sm_size sm)"
proof -
  let ?m = "deferred T sm D F ds m"
  note i = ms_coreD[OF core]
  note v = view_of_sets[OF i(12)]
  have at: "alloc_at (T + 1) ?m 0 = alloc_at T m 1" "alloc_at (T + 1) ?m (Suc 0) = alloc_at T m 2" "alloc_at (T + 1) ?m 2 = {}" "alloc_at (T + 1) ?m 3 = {}"
    "free_at (T + 1) ?m 0 = free_at T m 1" "free_at (T + 1) ?m (Suc 0) = free_at T m 2" "free_at (T + 1) ?m 2 = {}" "free_at (T + 1) ?m 3 = {}"
    using i(5) nil s(7) by (simp_all add: alloc_at_def free_at_def slots_next)
  have dt: "defer_at (T + 1) ?m 0 = defer_at T m 1" "defer_at (T + 1) ?m (Suc 0) = free_at T m 3"
    using s(5) defers_next[of T] by (simp_all add: defer_at_def)
  have side: "ms_side (ms_map m) x \<Longrightarrow> ms_side sm x" for x using ms_side_geometry[OF _ s(1)] .
  have lg: "logged contents sm SM_FREE smo os' = logged contents (ms_map m) SM_FREE smo os'" for smo os'
    using log_geometry_cong(1)[OF s(1)] load_start_geometry[OF s(1)] by simp
  have ok: "smo_ok contents sm SM_FREE (ms_smo_syncing m) os" using i(6) unfolding smo_ok_geometry[OF s(1)] .
  have place: "ms_place vd sm" using i(1) unfolding ms_place_geometry[OF s(1)] .
  have un: "alloc_at T m 1 = {}" "alloc_at T m 2 = {}" if "\<not> sm_loaded (ms_map m)" using i(11)[OF that] by simp_all
  have avail: "v_avail (view_of contents os (T + 1) ?m) = v_avail (view_of contents os T m) \<union> defer_at T m 0"
  proof (cases "sm_loaded (ms_map m)")
    case True
    then show ?thesis using s(2,3) by (simp add: view_of_def Let_def)
  next
    case False
    let ?S = "logged contents (ms_map m) SM_FREE (ms_smo_syncing m) os"
    have "v_avail (view_of contents os (T + 1) ?m) = ?S - (defer_at T m 1 \<union> free_at T m 3)"
      using False s(2) by (simp add: view_of_def Let_def lg at dt)
    moreover have "v_avail (view_of contents os T m) = ?S - (free_at T m 3 \<union> defer_at T m 0 \<union> defer_at T m 1)"
      using False by (simp add: view_of_def Let_def)
    moreover have "defer_at T m 0 \<subseteq> ?S" "defer_at T m 0 \<inter> (free_at T m 3 \<union> defer_at T m 1) = {}" using v(1,2) by auto
    ultimately show ?thesis by blast
  qed
  show view: "view_of contents os (T + 1) ?m = spec_sync_done (view_of contents os T m)"
    using avail lg by (simp add: view_of_def spec_sync_done_def Let_def at dt)
  have "card (free_at T m 3) + card (defer_at T m 1) \<le> unat (sm_size (ms_map m))"
    "card (defer_at T m 0) + card (defer_at T m 1) \<le> unat (sm_size (ms_map m))" using defer_cards[OF core] by simp_all
  moreover have "unat (sm_size (ms_map m)) < 2 ^ 57" by (rule ms_placeD(5)[OF i(1)])
  moreover have "ds = of_nat (card (free_at T m 3) + card (defer_at T m 1))"
    using word_of_sint[OF i(8)] ms_side_space[OF i(3)[of "slot_at T 3"]] ms_side_space[OF i(4)[of "unat T mod 2"]]
    by (simp add: ds_def free_at_def defer_at_def)
  moreover have "sint (sm_size sm) = int (unat (sm_size (ms_map m)))" if "unat (sm_size (ms_map m)) < 2 ^ 57"
    using that s(1) sint_of_nat_64[of "unat (sm_size sm)"] by (simp add: sm_geometry_def)
  ultimately have ds: "sint ds = int (card (free_at T m 3) + card (defer_at T m 1))" "sint (sm_size sm) = int (unat (sm_size (ms_map m)))"
    "card (free_at T m 3) + card (defer_at T m 1) \<le> unat (sm_size (ms_map m))"
    using sint_of_nat_64[of "card (free_at T m 3) + card (defer_at T m 1)"] by simp_all
  then show "0 \<le> sint ds" by simp
  show "sint ds \<le> sint (sm_size sm)" unfolding ds(1,2) using ds(3) by (simp only: of_nat_le_iff)
  show "ms_inv vd contents os (T + 1) ?m"
  proof (rule ms_invI)
    show "view_ok (view_of contents os (T + 1) ?m)"
      unfolding view using nil by (intro spec_sync_done_ok[OF i(12)]) (simp_all add: view_of_def Let_def)
    show "ms_unloaded contents os (T + 1) ?m" if "\<not> sm_loaded (ms_map ?m)"
    proof -
      have un': "\<not> sm_loaded (ms_map m)" using that s(2) by simp
      have "sm = ms_map m" using s(3) unfolding s(2) if_not_P[OF un'] .
      then have idle: "sm_idle sm" using i(10)[OF un'] by (rule ssubst)
      have "smo_ok (contents_upto contents (ms_smo_syncing m)) sm SM_FREE (ms_smo_syncing m) os"
        using ok unfolding smo_ok_def Let_def contents_upto_all[OF ok] .
      then show ?thesis unfolding ms_unloaded_def Let_def all_less_3 deferred_fields contents_upto_all[OF ok] at
        using idle un[OF un'] by (simp only: One_nat_def at) simp
    qed
    show "sint (ms_deferspace ?m) = int (card (defer_at (T + 1) ?m 0) + card (defer_at (T + 1) ?m 1))"
      unfolding deferred_fields One_nat_def dt using ds(1) by (simp only: add.commute One_nat_def)
    show "\<exists>t. sm_active t (ms_map ?m)" if "sm_loaded (ms_map ?m)"
      using s(3) that unfolding deferred_fields by (simp only: if_True)
    show "ms_side (ms_map ?m) (ms_allocmap ?m t)" if "t < 4" for t using side[OF i(2)[OF that]] unfolding deferred_fields .
    show "ms_side (ms_map ?m) (ms_freemap ?m t)" if "t < 4" for t
      using side[OF i(3)[OF that]] side[OF s(6)] unfolding deferred_fields by (simp only: fun_upd_apply split: if_splits) simp
    show "ms_side (ms_map ?m) (ms_defermap ?m t)" if "t < 2" for t
      using side[OF i(4)[OF that]] side[OF s(4)] unfolding deferred_fields by (simp only: fun_upd_apply split: if_splits) simp
    show "smo_fits (ms_map ?m) (ms_smo ?m)" using smo_ok_fits[OF ok place] unfolding deferred_fields .
    show "smo_object (ms_smo_syncing ?m) = 0 \<Longrightarrow> smo_objsize (ms_smo_syncing ?m) = 0 \<and> smo_alloc (ms_smo_syncing ?m) = 0"
      unfolding deferred_fields by (rule i(7))
  qed (use place ok at in simp_all)
qed

section \<open>Evicting the map\<close>

lemma evict_inv:
  assumes inv: "ms_inv vd contents os T m" and loaded: "sm_loaded (ms_map m)" and none: "\<forall>i < 3. alloc_at T m i = {}" "free_at T m 3 = {}"
    and smo: "ms_smo m = ms_smo_syncing m" and idle: "sm_idle sm" "sm_geometry (ms_map m) sm"
  shows "ms_inv vd contents os T (m\<lparr>ms_map := sm\<rparr>)" "view_of contents os T (m\<lparr>ms_map := sm\<rparr>) = view_of contents os T m"
proof -
  let ?m = "m\<lparr>ms_map := sm\<rparr>"
  note i = ms_invD[OF inv] and v = view_of_sets[OF ms_invD(13)[OF inv]]
  have at: "alloc_at T ?m = alloc_at T m" "free_at T ?m = free_at T m" "defer_at T ?m = defer_at T m" by (simp_all add: map_sets fun_eq_iff)
  have a: "alloc_at T m 0 = {}" "alloc_at T m 1 = {}" "alloc_at T m 2 = {}" using none(1) by simp_all
  have lg: "logged contents sm SM_FREE smo os' = logged contents (ms_map m) SM_FREE smo os'" for smo os'
    using log_geometry_cong(1)[OF idle(2)] load_start_geometry[OF idle(2)] by simp
  have ok: "smo_ok contents sm SM_FREE (ms_smo_syncing m) os" using i(6) unfolding smo_ok_geometry[OF idle(2)] .
  have un: "\<not> sm_loaded sm" using idle(1) by (simp add: sm_idle_def)
  have "v_avail (view_of contents os T m) = sm_set (ms_map m)" using loaded by (simp add: view_of_def Let_def)
  then have "sm_set (ms_map m) = logged contents (ms_map m) SM_FREE (ms_smo_syncing m) os - (free_at T m 3 \<union> defer_at T m 0 \<union> defer_at T m 1)"
    using v(1,2) unfolding a by auto
  then show view: "view_of contents os T ?m = view_of contents os T m"
    using loaded un lg by (simp add: view_of_def Let_def at)
  show "ms_inv vd contents os T ?m"
  proof (rule ms_invI)
    show "ms_unloaded contents os T ?m" if "\<not> sm_loaded (ms_map ?m)"
    proof -
      have "smo_ok (contents_upto contents (ms_smo_syncing m)) sm SM_FREE (ms_smo_syncing m) os"
        using ok by (simp add: smo_ok_def Let_def contents_upto_all[OF ok])
      then show ?thesis using idle(1) none smo by (simp add: ms_unloaded_def Let_def at contents_upto_all[OF ok])
    qed
    show "view_ok (view_of contents os T ?m)" unfolding view by (rule i(13))
    show "ms_place vd (ms_map ?m)" using i(1) ms_place_geometry[OF idle(2)] by simp
    show "smo_fits (ms_map ?m) (ms_smo ?m)" using i(8) idle(2) by (simp add: smo_fits_def sm_geometry_def)
  qed (use i ok un ms_side_geometry[OF _ idle(2)] in \<open>simp_all add: at\<close>)
qed

section \<open>What the step leaves alone\<close>

definition vd_same :: "top_vdev \<Rightarrow> top_vdev \<Rightarrow> bool" where
  "vd_same v v' \<longleftrightarrow> tv_tree v' = tv_tree v \<and> vdev_ms_array v' = vdev_ms_array v \<and> vdev_ms_count v' = vdev_ms_count v
     \<and> vdev_mg v' = vdev_mg v \<and> vdev_ms v' = vdev_ms v \<and> vdev_deflate_ratio v' = vdev_deflate_ratio v \<and> vdev_isl2cache v' = vdev_isl2cache v"

definition mg_same :: "metaslab_group \<Rightarrow> metaslab_group \<Rightarrow> bool" where
  "mg_same g g' \<longleftrightarrow> mg_aliquot g' = mg_aliquot g \<and> mg_bias g' = mg_bias g
     \<and> mg_activation_count g' = mg_activation_count g \<and> mg_class g' = mg_class g \<and> mg_vd g' = mg_vd g
     \<and> mg_prev g' = mg_prev g \<and> mg_next g' = mg_next g"

definition pool_same :: "'os pool \<Rightarrow> 'os pool \<Rightarrow> bool" where
  "pool_same p p' \<longleftrightarrow> (\<forall>a. vd_same (p_vd p a) (p_vd p' a)) \<and> (\<forall>a. mg_same (p_mg p a) (p_mg p' a))
     \<and> (\<forall>a. mc_rotor (p_mc p' a) = mc_rotor (p_mc p a) \<and> mc_ops (p_mc p' a) = mc_ops (p_mc p a) \<and> mc_aliquot (p_mc p' a) = mc_aliquot (p_mc p a))
     \<and> p_top p' = p_top p"

lemma pool_same_refl [simp]: "pool_same p p"
  by (simp add: pool_same_def vd_same_def mg_same_def)

lemma pool_same_trans: "pool_same p q \<Longrightarrow> pool_same q r \<Longrightarrow> pool_same p r"
  by (simp add: pool_same_def vd_same_def mg_same_def)

lemma pool_sameD:
  assumes "pool_same p p'"
  shows "node_of (p_vd p' a) = node_of (p_vd p a)" "vdev_ms_count (p_vd p' a) = vdev_ms_count (p_vd p a)" "mg_vd (p_mg p' a) = mg_vd (p_mg p a)"
    "vd_same (p_vd p a) (p_vd p' a)" "mg_class (p_mg p' a) = mg_class (p_mg p a)"
  using assms by (simp_all add: pool_same_def vd_same_def mg_same_def)

lemma ms_place_same: "vd_same v v' \<Longrightarrow> ms_place v' sm = ms_place v sm"
  by (simp add: ms_place_def vd_same_def)

lemma ms_inv_same: "vd_same v v' \<Longrightarrow> ms_inv v' contents os T m = ms_inv v contents os T m"
  by (simp add: ms_inv_def ms_place_same)

lemma pool_same_upd [simp]: "pool_same p (upd_ms a f p)" "pool_same p (upd_mg a (set_tree t) p)" "pool_same p (p\<lparr>p_os := os\<rparr>)"
  by (simp_all add: pool_same_def vd_same_def mg_same_def)

lemma vdev_space_update_same:
  assumes "space_delta AND (SPA_MINBLOCKSIZE - 1) = 0" "vdev_deflate_ratio (p_vd p vd) \<noteq> 0 \<or> vdev_isl2cache (p_vd p vd)" "vdev_ms_count (p_vd p vd) \<noteq> 0"
  shows "\<exists>p'. vdev_space_update env vd alloc_delta defer_delta space_delta p = Inr p' \<and> pool_same p p' \<and> p_ms p' = p_ms p \<and> p_mg p' = p_mg p
    \<and> p_os p' = p_os p \<and> (\<forall>a. tv_ms_list (p_vd p' a) = tv_ms_list (p_vd p a) \<and> tv_dtl_list (p_vd p' a) = tv_dtl_list (p_vd p a))
    \<and> p_vdev_txg_list p' = p_vdev_txg_list p"
  using assms by (cases "vdev_mg (p_vd p vd)")
    (auto simp: vdev_space_update_def Let_def pool_same_def vd_same_def mg_same_def metaslab_class_space_update_def)

text \<open>The metaslab \<open>a\<close> has been put on the dirty list of the vdev \<open>vd\<close>.\<close>

definition listed :: "addr \<Rightarrow> addr \<Rightarrow> u64 \<Rightarrow> 'os pool \<Rightarrow> 'os pool \<Rightarrow> bool" where
  "listed vd a txg p p' \<longleftrightarrow> (\<forall>x. tv_dtl_list (p_vd p' x) = tv_dtl_list (p_vd p x))
     \<and> (\<forall>x. x \<noteq> vd \<longrightarrow> tv_ms_list (p_vd p' x) = tv_ms_list (p_vd p x))
     \<and> tv_ms_list (p_vd p' vd) = fst (txg_list_add (tv_ms_list (p_vd p vd)) a txg)"

lemma listed_upd [simp]:
  "listed vd a txg p (upd_ms b f q) = listed vd a txg p q" "listed vd a txg p (upd_mg b g q) = listed vd a txg p q"
  "listed vd a txg (upd_ms b f p) q = listed vd a txg p q"
  by (simp_all add: listed_def)

lemma pool_dirty_same:
  assumes "\<not> vdev_ishole (node_of (p_vd p vd))"
  shows "\<exists>p'. pool_dirty vd VDD_METASLAB msp txg p = Inr p' \<and> pool_same p p' \<and> p_ms p' = p_ms p \<and> p_mg p' = p_mg p \<and> p_os p' = p_os p
    \<and> txg_list_member (tv_ms_list (p_vd p' vd)) msp txg \<and> txg_list_member (p_vdev_txg_list p') (vdev_self (node_of (p_vd p vd))) txg
    \<and> listed vd msp txg p p'"
proof -
  have "ISP2 VDD_METASLAB" "VDD_METASLAB AND VDD_METASLAB \<noteq> 0" "VDD_METASLAB AND VDD_DTL = 0"
    by (simp_all add: ISP2_def VDD_METASLAB_def VDD_DTL_def)
  moreover have "txg_list_member (fst (txg_list_add l q txg)) q txg" for l q
    by (simp add: txg_list_member_def txg_list_add_def Let_def set_head_def set_member_def set_next_def)
  ultimately show ?thesis
    using assms by (simp add: pool_dirty_def vdev_dirty_def Let_def listed_def pool_same_def vd_same_def mg_same_def)
qed

section \<open>The whole step\<close>

text \<open>
  What the code relies on about weights. A metaslab that carries one of the two active bits is loaded; without those bits a
  weight is 0 or at least the smallest block, and when it is 0 an active metaslab has nothing to give.
\<close>

definition weigh_ok :: "metaslab \<Rightarrow> bool" where
  "weigh_ok m \<longleftrightarrow> (let b = ms_weight m AND NOT METASLAB_ACTIVE_MASK
     in (b = 0 \<or> 512 \<le> unat b)
        \<and> (ms_weight m AND METASLAB_ACTIVE_MASK \<noteq> 0 \<longrightarrow>
             sm_loaded (ms_map m) \<and> (b = 0 \<longrightarrow> sm_set (ms_map m) = {} \<and> (\<forall>t < 4. sm_set (ms_allocmap m t) = {}))))"

lemma mask_split:
  assumes "w0 AND METASLAB_ACTIVE_MASK = 0"
  shows "(w0 OR (w AND METASLAB_ACTIVE_MASK)) AND NOT METASLAB_ACTIVE_MASK = w0"
    "(w0 OR (w AND METASLAB_ACTIVE_MASK)) AND METASLAB_ACTIVE_MASK = w AND METASLAB_ACTIVE_MASK"
proof -
  have b: "\<not> (bit w0 n \<and> bit METASLAB_ACTIVE_MASK n)" for n using assms bit_and_iff[of w0 METASLAB_ACTIVE_MASK n] by simp
  show "(w0 OR (w AND METASLAB_ACTIVE_MASK)) AND NOT METASLAB_ACTIVE_MASK = w0"
    by (rule bit_eqI) (use b in \<open>auto simp: bit_simps\<close>)
  show "(w0 OR (w AND METASLAB_ACTIVE_MASK)) AND METASLAB_ACTIVE_MASK = w AND METASLAB_ACTIVE_MASK"
    by (rule bit_eqI) (use b in \<open>auto simp: bit_simps\<close>)
qed

text \<open>The weight, apart from the flags, is at least the space that was free when the space map was committed.\<close>

definition heavy :: "metaslab \<Rightarrow> bool" where
  "heavy m \<longleftrightarrow> unat (sm_size (ms_map m) - smo_alloc (ms_smo m)) \<le> unat (ms_weight m AND NOT METASLAB_ACTIVE_MASK)"

text \<open>Then no block that is free can be missed because of the weight.\<close>

lemma heavy_block:
  assumes inv: "ms_inv vd contents os T m" and smo: "ms_smo m = ms_smo_syncing m" and h: "heavy m"
    and R: "range_set off size' \<subseteq> v_avail (view_of contents os T m)"
  shows "size' \<le> ms_weight m AND NOT METASLAB_ACTIVE_MASK"
proof -
  note i = ms_invD[OF inv]
  let ?S = "logged contents (ms_map m) SM_FREE (ms_smo_syncing m) os"
  have "v_avail (view_of contents os T m) \<subseteq> ?S" by (subst view_of_sets(2)[OF i(13)]) blast
  then have "range_set off size' \<subseteq> ?S" using R by (rule order_trans[rotated])
  moreover have "finite ?S" by (rule finite_subset[OF logged_range[OF i(6,1)]]) simp
  ultimately have "unat size' \<le> card ?S" using card_mono[of ?S "range_set off size'"] by simp
  then show ?thesis using h smo_space(1)[OF i(6,1)] unfolding heavy_def smo word_le_nat_alt by simp
qed

text \<open>The weight that a metaslab gets when its space map has just been committed.\<close>

lemma committed_weigh_ok:
  assumes inv: "ms_inv vd contents os T m" and smo: "ms_smo m = ms_smo_syncing m"
    and w: "unat (sm_size (ms_map m) - smo_alloc (ms_smo m)) \<le> unat w0" "unat w0 \<le> 2 * unat (sm_size (ms_map m) - smo_alloc (ms_smo m))"
      "w0 AND METASLAB_ACTIVE_MASK = 0" "b \<Longrightarrow> sm_loaded (ms_map m)"
  shows "weigh_ok (set_weight (w0 OR (if b then w AND METASLAB_ACTIVE_MASK else 0)) m)"
proof -
  note i = ms_invD[OF inv]
  let ?S = "logged contents (ms_map m) SM_FREE (ms_smo_syncing m) os"
  let ?mk = "if b then w else 0"
  have e: "(if b then w AND METASLAB_ACTIVE_MASK else 0) = ?mk AND METASLAB_ACTIVE_MASK" by simp
  note s = mask_split[OF w(3), of ?mk]
  note sp = smo_space[OF i(6,1)]
  have card: "unat w0 \<le> 2 * card ?S" "card ?S \<le> unat w0" "512 dvd card ?S" using w(1,2) sp(1,2) unfolding smo by simp_all
  have big: "w0 = 0 \<or> 512 \<le> unat w0"
  proof (cases "card ?S = 0")
    case True
    then show ?thesis using card(1) by (simp add: unat_eq_zero)
  next
    case False
    then have "512 \<le> card ?S" using card(3) by (simp add: dvd_imp_le)
    then show ?thesis using card(2) by linarith
  qed
  have none: "sm_set (ms_map m) = {} \<and> (\<forall>t < 4. sm_set (ms_allocmap m t) = {})" if "w0 = 0" "sm_loaded (ms_map m)"
  proof -
    have "finite ?S" by (rule finite_subset[OF logged_range[OF i(6,1)]]) simp
    then have S: "?S = {}" using that(1) card(2) by simp
    have av: "v_avail (view_of contents os T m) = sm_set (ms_map m)" using that(2) by (simp add: view_of_def Let_def)
    have "sm_set (ms_map m) = {}" "alloc_at T m 0 = {}" "alloc_at T m 1 = {}" "alloc_at T m 2 = {}" "alloc_at T m 3 = {}"
      using view_of_sets(2)[OF i(13)] i(5) unfolding S av by blast+
    moreover have "alloc_at T m j = {}" if "j < 4" for j
    proof -
      have "j = 0 \<or> j = 1 \<or> j = 2 \<or> j = 3" using that by auto
      then show ?thesis using calculation by auto
    qed
    ultimately show ?thesis using slot_at_onto[of _ T] unfolding alloc_at_def by metis
  qed
  show ?thesis unfolding weigh_ok_def Let_def set_weight_simps e s using big none w(4) by (cases b) auto
qed

text \<open>A metaslab's weight is not part of what it holds.\<close>

lemma weight_sets [simp]: "alloc_at T (set_weight w m) = alloc_at T m" "free_at T (set_weight w m) = free_at T m" "defer_at T (set_weight w m) = defer_at T m"
  by (simp_all add: map_sets fun_eq_iff)

lemma ms_inv_weight [simp]:
  "view_of contents os T (set_weight w m) = view_of contents os T m" "ms_unloaded contents os T (set_weight w m) = ms_unloaded contents os T m"
  "ms_inv vd contents os T (set_weight w m) = ms_inv vd contents os T m"
proof -
  show v: "view_of contents os T (set_weight w m) = view_of contents os T m" by (simp add: view_of_def Let_def)
  show u: "ms_unloaded contents os T (set_weight w m) = ms_unloaded contents os T m" by (simp add: ms_unloaded_def Let_def)
  show "ms_inv vd contents os T (set_weight w m) = ms_inv vd contents os T m" by (simp add: ms_inv_def u v)
qed

lemma evictable_none:
  assumes "evictable env T m" "alloc_at (T + 1) m 2 = {}" "\<And>t. t < 4 \<Longrightarrow> ms_side g (ms_allocmap m t)"
  shows "\<forall>i < 3. alloc_at (T + 1) m i = {}"
proof -
  have s: "sm_space (ms_allocmap m (slot_at T 1)) = 0" "sm_space (ms_allocmap m (slot_at T 2)) = 0"
    using assms(1) unfolding evictable_def upto_lists TXG_IDX_slot by simp_all
  have "sm_set (ms_allocmap m t) = {}" if "t < 4" "sm_space (ms_allocmap m t) = 0" for t
    using assms(3)[OF that(1)] that(2) sm_inv_empty_space[of "ms_allocmap m t"] by (simp add: ms_side_def)
  then have "alloc_at (T + 1) m 0 = {}" "alloc_at (T + 1) m 1 = {}" using s by (simp_all add: alloc_at_def slots_next)
  then show ?thesis unfolding all_less_3 using assms(2) by simp
qed

lemma metaslab_sync_done_inv:
  assumes grp: "mg_inv p mg ms" "msp \<in> ms" and k: "kmem_fresh (me_kernel env)"
  defines "vda \<equiv> mg_vd (p_mg p mg)"
  assumes core: "ms_core (p_vd p vda) contents (p_os p) T (p_ms p msp)" and nil: "alloc_at T (p_ms p msp) 0 = {}" "free_at T (p_ms p msp) 0 = {}"
    and hole: "\<not> vdev_ishole (node_of (p_vd p vda))" and defl: "vdev_deflate_ratio (p_vd p vda) \<noteq> 0 \<or> vdev_isl2cache (p_vd p vda)"
  shows "\<exists>p' m. metaslab_sync_done env msp T p = Inr p' \<and> p_ms p' = (p_ms p)(msp := m)
    \<and> ms_inv (p_vd p vda) contents (p_os p) (T + 1) m
    \<and> view_of contents (p_os p) (T + 1) m = spec_sync_done (view_of contents (p_os p) T (p_ms p msp))
    \<and> mg_inv p' mg ms \<and> p_os p' = p_os p \<and> pool_same p p' \<and> ms_smo m = ms_smo_syncing m \<and> ms_smo_syncing m = ms_smo_syncing (p_ms p msp)
    \<and> (if ms_deferspace m \<noteq> 0 then listed vda msp (T + 1) p p'
       else (\<forall>a. tv_ms_list (p_vd p' a) = tv_ms_list (p_vd p a) \<and> tv_dtl_list (p_vd p' a) = tv_dtl_list (p_vd p a)))
    \<and> weigh_ok m \<and> (sm_loaded (ms_map m) \<longrightarrow> sm_ops (ms_map m) = sm_ops (ms_map (p_ms p msp)))
    \<and> sm_start (ms_map m) = sm_start (ms_map (p_ms p msp)) \<and> heavy m
    \<and> sm_shift (ms_map m) = sm_shift (ms_map (p_ms p msp))"
proof -
  let ?m = "p_ms p msp"
  note i = ms_coreD[OF core]
  have grp_of: "ms_group ?m = Some mg" by (rule mg_inv_member[OF grp])
  have cnt: "vdev_ms_count (p_vd p vda) \<noteq> 0" using i(1) by (auto simp: ms_place_def Let_def)
  have "sm_size (ms_freemap ?m (slot_at T 3)) \<noteq> 0"
    using i(3)[of "slot_at T 3"] ms_placeD(1)[OF i(1)] by (auto simp: ms_side_def sm_geometry_def sm_range_def)
  note full = this
  let ?dd = "sm_space (ms_freemap ?m (slot_at T 3)) - sm_space (ms_defermap ?m (unat T mod 2))"
  obtain p1 where u: "vdev_space_update env vda (smo_alloc (ms_smo_syncing ?m) - smo_alloc (ms_smo ?m) + ?dd) ?dd 0 p = Inr p1"
    and p1': "pool_same p p1" "p_ms p1 = p_ms p" "p_mg p1 = p_mg p" "p_os p1 = p_os p"
      "\<forall>a. tv_ms_list (p_vd p1 a) = tv_ms_list (p_vd p a) \<and> tv_dtl_list (p_vd p1 a) = tv_dtl_list (p_vd p a)"
    using vdev_space_update_same[OF _ defl cnt, of 0] by fastforce
  have "sync_done_space env vda msp T p = Inr (p1, ?dd)"
    unfolding sync_done_space_def Let_def TXG_IDX_clean TXG_DEFER_SIZE_def using full u by simp
  note p1 = this p1'
  have sp: "sm_space (ms_allocmap ?m (slot_at T 0)) = 0" "sm_space (ms_freemap ?m (slot_at T 0)) = 0"
    using i(2,3)[of "slot_at T 0"] nil sm_inv_empty_space by (auto simp: map_sets ms_side_def)
  obtain sm D F where d: "sync_done_defer env T ?m = Inr (deferred T sm D F (ms_deferspace ?m) ?m)"
     "sm_geometry (ms_map ?m) sm" "sm_loaded sm = sm_loaded (ms_map ?m)"
     "if sm_loaded sm then (\<exists>t. sm_active t sm) \<and> sm_set sm = sm_set (ms_map ?m) \<union> defer_at T ?m 0 else sm = ms_map ?m"
     "ms_side (ms_map ?m) D" "sm_set D = free_at T ?m 3" "ms_side (ms_map ?m) F" "sm_set F = {}" "sm_ops sm = sm_ops (ms_map ?m)"
    using sync_done_defer_inv[OF core k] by (elim exE conjE) (rule that)
  define ds where "ds = ms_deferspace ?m + (sm_space (ms_freemap ?m (slot_at T 3)) - sm_space (ms_defermap ?m (unat T mod 2)))"
  let ?m2 = "deferred T sm D F ds ?m"
  note inv2 = deferred_inv[OF core nil d(2-8), folded ds_def]
  let ?p2 = "upd_ms msp (\<lambda>_. ?m2) p1"
  have hole2: "\<not> vdev_ishole (node_of (p_vd ?p2 vda))" using hole pool_sameD(1)[OF p1(2)] by simp
  obtain p3 where p3: "(if ds \<noteq> 0 then pool_dirty vda VDD_METASLAB msp (T + 1) ?p2 else Inr ?p2) = Inr p3" "pool_same ?p2 p3"
    "p_ms p3 = p_ms ?p2" "p_mg p3 = p_mg ?p2" "p_os p3 = p_os ?p2" "if ds \<noteq> 0 then listed vda msp (T + 1) ?p2 p3 else p3 = ?p2"
    using pool_dirty_same[OF hole2, of msp "T + 1"] by (cases "ds = 0") auto
  have lists: "if ds \<noteq> 0 then listed vda msp (T + 1) p p3
      else (\<forall>a. tv_ms_list (p_vd p3 a) = tv_ms_list (p_vd p a) \<and> tv_dtl_list (p_vd p3 a) = tv_dtl_list (p_vd p a))"
    using p3(6) p1(6) by (auto simp: listed_def)
  have same3: "pool_same p p3" using pool_same_trans[OF p1(2) pool_same_trans[OF pool_same_upd(1) p3(2)]] .
  have m3: "p_ms p3 = (p_ms p)(msp := ?m2)" using p3(3) p1(3) by simp
  have nil2: "alloc_at (T + 1) ?m2 2 = {}" "free_at (T + 1) ?m2 3 = {}"
    using i(5) nil(2) by (simp_all add: alloc_at_def free_at_def slots_next)
  have "\<exists>m4. (if evictable env T (p_ms p3 msp)
       then rbind (space_map_unload metaslab_ops (ms_map (p_ms p3 msp))) (\<lambda>sm. Inr (upd_ms msp (\<lambda>m. m\<lparr>ms_map := sm\<rparr>) p3)) else Inr p3)
       = Inr (upd_ms msp (\<lambda>_. m4) p3) \<and> ms_inv (p_vd p vda) contents (p_os p) (T + 1) m4
     \<and> view_of contents (p_os p) (T + 1) m4 = view_of contents (p_os p) (T + 1) ?m2 \<and> ms_smo m4 = ms_smo ?m2 \<and> ms_smo_syncing m4 = ms_smo_syncing ?m2
     \<and> ms_weight m4 = ms_weight ?m2 \<and> ms_group m4 = ms_group ?m2 \<and> sm_start (ms_map m4) = sm_start (ms_map ?m2) \<and> ms_deferspace m4 = ds
     \<and> (sm_loaded (ms_map m4) \<longrightarrow> sm_ops (ms_map m4) = sm_ops sm) \<and> sm_shift (ms_map m4) = sm_shift sm"
  proof (cases "evictable env T ?m2")
    case True
    then have loaded: "sm_loaded sm" by (simp add: evictable_def)
    then obtain t where "sm_active t sm" using d(4) by auto
    then obtain sm' where sm': "space_map_unload metaslab_ops sm = Inr sm'" "sm_idle sm'" "sm_geometry sm sm'"
      using space_map_unload_idle by blast
    have unl: "\<not> sm_loaded sm'" using sm'(2) by (simp add: sm_idle_def)
    have "\<forall>i < 3. alloc_at (T + 1) ?m2 i = {}" using evictable_none[OF True nil2(1)] ms_invD(2)[OF inv2(1)] by blast
    then show ?thesis
      using True m3 sm'(1,3) unl evict_inv[OF inv2(1) _ _ nil2(2) _ sm'(2), of] loaded
      by (intro exI[of _ "?m2\<lparr>ms_map := sm'\<rparr>"]) (simp add: upd_ms_def sm_geometry_def)
  next
    case False
    then show ?thesis using m3 inv2(1) by (intro exI[of _ ?m2]) (simp add: upd_ms_def)
  qed
  then obtain m4 where m4: "(if evictable env T (p_ms p3 msp)
       then rbind (space_map_unload metaslab_ops (ms_map (p_ms p3 msp))) (\<lambda>sm. Inr (upd_ms msp (\<lambda>m. m\<lparr>ms_map := sm\<rparr>) p3)) else Inr p3)
       = Inr (upd_ms msp (\<lambda>_. m4) p3)" "ms_inv (p_vd p vda) contents (p_os p) (T + 1) m4"
     "view_of contents (p_os p) (T + 1) m4 = view_of contents (p_os p) (T + 1) ?m2" "ms_smo m4 = ms_smo ?m2" "ms_smo_syncing m4 = ms_smo_syncing ?m2"
     "ms_weight m4 = ms_weight ?m2" "ms_group m4 = ms_group ?m2" "sm_start (ms_map m4) = sm_start (ms_map ?m2)" "ms_deferspace m4 = ds"
     "sm_loaded (ms_map m4) \<longrightarrow> sm_ops (ms_map m4) = sm_ops sm" "sm_shift (ms_map m4) = sm_shift sm"
    by (elim exE conjE) (rule that)
  let ?p4 = "upd_ms msp (\<lambda>_. m4) p3"
  have same4: "pool_same p ?p4" using pool_same_trans[OF same3 pool_same_upd(1)] .
  have mg4: "mg_inv ?p4 mg ms"
  proof (rule mg_inv_cong[OF grp(1)])
    show "mg_metaslab_tree (p_mg ?p4 mg) = mg_metaslab_tree (p_mg p mg)" using p3(4) p1(4) by simp
    show "\<forall>a \<in> ms. key_at ?p4 a = key_at p a \<and> ms_group (p_ms ?p4 a) = ms_group (p_ms p a)"
      using m3 m4(6-8) d(2) by (simp add: ms_key_def sm_geometry_def)
  qed
  have vd4: "mg_vd (p_mg ?p4 mg) = vda" using p3(4) p1(4) by (simp add: vda_def)
  have place4: "ms_place (p_vd ?p4 (mg_vd (p_mg ?p4 mg))) (ms_map (p_ms ?p4 msp))"
    using ms_invD(1)[OF m4(2)] ms_place_same[OF pool_sameD(4)[OF same4]] unfolding vd4 by simp
  let ?sp = "unat (sm_size (ms_map m4) - smo_alloc (ms_smo m4))"
  obtain tr w0 b where rw': "reweigh mg msp ?p4
        = Inr (upd_mg mg (set_tree tr) (upd_ms msp (set_weight (w0 OR (if b then ms_weight m4 AND METASLAB_ACTIVE_MASK else 0))) ?p4))"
    "mg_inv (upd_mg mg (set_tree tr) (upd_ms msp (set_weight (w0 OR (if b then ms_weight m4 AND METASLAB_ACTIVE_MASK else 0))) ?p4)) mg ms"
    "?sp \<le> unat w0" "unat w0 \<le> 2 * ?sp" "w0 AND METASLAB_ACTIVE_MASK = 0" "b \<longrightarrow> sm_loaded (ms_map m4)"
    using reweigh_inv[OF mg4 grp(2) place4] ms_invD(8,11)[OF m4(2)] unfolding Let_def upd_simps fun_upd_same by blast
  define w where "w = w0 OR (if b then ms_weight m4 AND METASLAB_ACTIVE_MASK else 0)"
  have smo4: "ms_smo m4 = ms_smo_syncing m4" using m4(4,5) by simp
  have wok: "weigh_ok (set_weight w m4)"
    unfolding w_def by (rule committed_weigh_ok[OF m4(2) smo4 rw'(3-5)]) (use rw'(6) in blast)
  note rw = rw'(1,2)[folded w_def]
  have "w AND NOT METASLAB_ACTIVE_MASK = w0"
    using mask_split(1)[OF rw'(5), of "if b then ms_weight m4 else 0"] by (auto simp: w_def)
  then have heavy: "heavy (set_weight w m4)" using rw'(3) by (simp add: heavy_def)
  let ?p5 = "upd_mg mg (set_tree tr) (upd_ms msp (set_weight w) ?p4)"
  have "metaslab_sync_done env msp T p = Inr ?p5"
    unfolding metaslab_sync_done_def grp_of Let_def deref_def
    using hole p1(1) sp d(1) inv2(3,4) p3(1) m4(1) rw(1)
    by (simp add: vda_def[symmetric] TXG_IDX_now[of T] p1(3) ds_def[symmetric] split del: if_split cong: if_cong)
  moreover have "p_ms ?p5 = (p_ms p)(msp := set_weight w m4)" using m3 by simp
  moreover have "ms_inv (p_vd p vda) contents (p_os p) (T + 1) (set_weight w m4)" "view_of contents (p_os p) (T + 1) (set_weight w m4) = view_of contents (p_os p) (T + 1) m4"
    using m4(2) by simp_all
  moreover have "pool_same p ?p5" by (rule pool_same_trans[OF same4 pool_same_trans[OF pool_same_upd(1) pool_same_upd(2)]])
  moreover have "p_os ?p5 = p_os p" using p3(5) p1(5) by simp
  ultimately show ?thesis using rw(2) inv2(2) m4(3-5,8-11) lists d(2,9) wok heavy
    by (intro exI[of _ ?p5] exI[of _ "set_weight w m4"]) (simp add: sm_geometry_def)
qed

end

