(* ===== verification/Metaslab_Activate.thy ===== *)
theory Metaslab_Activate
  imports Metaslab_Done
begin

text \<open>
  Making a metaslab active and passive again (\<open>metaslab_activate\<close>, \<open>metaslab_passivate\<close>): its map is loaded with exactly
  the space that is available, and the group stays sorted by weight.
\<close>

section \<open>Loading\<close>

lemma ms_inv_load:
  assumes inv: "ms_inv vd contents os T m" and sm: "sm_active t sm" "sm_geometry (ms_map m) sm"
    and set: "sm_set sm = v_avail (view_of contents os T m)"
  shows "ms_inv vd contents os T (m\<lparr>ms_map := sm\<rparr>)" "view_of contents os T (m\<lparr>ms_map := sm\<rparr>) = view_of contents os T m"
proof -
  let ?m = "m\<lparr>ms_map := sm\<rparr>"
  note i = ms_invD[OF inv]
  have at: "alloc_at T ?m = alloc_at T m" "free_at T ?m = free_at T m" "defer_at T ?m = defer_at T m" by (simp_all add: map_sets fun_eq_iff)
  have loaded: "sm_loaded sm" using sm(1) by (simp add: sm_active_def)
  have lg: "logged contents sm SM_FREE (ms_smo_syncing m) os = logged contents (ms_map m) SM_FREE (ms_smo_syncing m) os"
    using log_geometry_cong(1)[OF sm(2)] load_start_geometry[OF sm(2)] by simp
  show view: "view_of contents os T ?m = view_of contents os T m"
    using set loaded by (simp add: view_of_def Let_def at lg)
  show "ms_inv vd contents os T ?m"
  proof (rule ms_invI)
    show "view_ok (view_of contents os T ?m)" unfolding view by (rule i(13))
    show "ms_place vd (ms_map ?m)" using i(1) ms_place_geometry[OF sm(2)] by simp
    show "smo_fits (ms_map ?m) (ms_smo ?m)" using i(8) sm(2) by (simp add: smo_fits_def sm_geometry_def)
    show "smo_ok contents (ms_map ?m) SM_FREE (ms_smo_syncing ?m) os" using i(6) unfolding smo_ok_geometry[OF sm(2)] by simp
    show "\<exists>t. sm_active t (ms_map ?m)" using sm(1) by auto
    show "ms_unloaded contents os T ?m" if "\<not> sm_loaded (ms_map ?m)" using that loaded by simp
    show "ms_side (ms_map ?m) (ms_allocmap ?m s)" if "s < 4" for s using ms_side_geometry[OF i(2)[OF that] sm(2)] by simp
    show "ms_side (ms_map ?m) (ms_freemap ?m s)" if "s < 4" for s using ms_side_geometry[OF i(3)[OF that] sm(2)] by simp
    show "ms_side (ms_map ?m) (ms_defermap ?m s)" if "s < 2" for s using ms_side_geometry[OF i(4)[OF that] sm(2)] by simp
    show "sint (ms_deferspace ?m) = int (card (defer_at T ?m 0) + card (defer_at T ?m 1))" using i(10) by (simp add: at)
    show "smo_object (ms_smo ?m) = 0 \<or> smo_object (ms_smo ?m) = smo_object (ms_smo_syncing ?m)" using i(9) by simp
    show "smo_object (ms_smo_syncing ?m) = 0 \<Longrightarrow> smo_objsize (ms_smo_syncing ?m) = 0 \<and> smo_alloc (ms_smo_syncing ?m) = 0"
      using i(7) by simp
  qed (use i(5) in \<open>simp add: at\<close>)
qed

lemma claim_walk:
  assumes "ms_side (ms_map m) d" "kmem_fresh k" "sm_active t sm" "sm_ppd sm = Some (replicate 64 0)" "sm_geometry (ms_map m) sm" "sm_set d \<subseteq> sm_set sm"
  shows "\<exists>sm'. space_map_walk d (claim_func k) sm = Inr sm' \<and> sm_active t sm' \<and> sm_ppd sm' = Some (replicate 64 0)
     \<and> sm_set sm' = sm_set sm - sm_set d \<and> sm_geometry (ms_map m) sm'"
proof -
  have "sm_inv d" "sm_geometry d sm" using assms(1,5) by (auto simp: ms_side_def sm_geometry_def)
  then obtain sm' where "space_map_walk d (claim_func k) sm = Inr sm'" "sm_active t sm'" "sm_ppd sm' = Some (replicate 64 0)"
    "sm_set sm' = sm_set sm - sm_set d" "sm_geometry sm sm'"
    using ms_claim.walk_removes[of d k t sm] assms(2-4,6) by blast
  then show ?thesis using assms(5) by (intro exI[of _ sm']) (simp add: sm_geometry_def)
qed

lemma activate_load_inv:
  assumes inv: "ms_inv vd contents os T m" and k: "kmem_fresh (me_kernel env)" and dm: "dmu_appends (me_dmu env) contents"
  shows "\<exists>sm. activate_load env t m os = Inr (sm, 0) \<and> sm_geometry (ms_map m) sm \<and> sm_set sm = v_avail (view_of contents os T m)
     \<and> (if sm_loaded (ms_map m) then sm = ms_map m else sm_active t sm)"
proof -
  note i = ms_invD[OF inv]
  have geo: "sm_geometry (ms_map m) (ms_map m)" by (simp add: sm_geometry_def)
  note mi = core_map[OF ms_inv_core[OF inv]]
  show ?thesis
  proof (cases "sm_loaded (ms_map m)")
    case True
    then show ?thesis using geo
      by (intro exI[of _ "ms_map m"]) (simp add: activate_load_def load_wait_ready[OF mi] view_of_def Let_def)
  next
    case False
    let ?C = "logged (contents_upto contents (ms_smo m)) (ms_map m) SM_FREE (ms_smo m) os"
    have u: "sm_idle (ms_map m)" "smo_ok (contents_upto contents (ms_smo m)) (ms_map m) SM_FREE (ms_smo m) os"
      "?C \<inter> free_at T m 3 = {}" "logged contents (ms_map m) SM_FREE (ms_smo_syncing m) os = ?C \<union> free_at T m 3"
      using i(12)[OF False] unfolding ms_unloaded_def Let_def by blast+
    obtain s1 where s1: "space_map_load (me_kernel env) metaslab_ops (me_dmu env) (ms_map m) (Some t) SM_FREE (ms_smo m) os = Inr (s1, 0)"
      "sm_active t s1" "sm_set s1 = ?C" "sm_geometry (ms_map m) s1" "sm_ppd s1 = Some (replicate 64 0)"
      using space_map_load_active[OF u(1) k dmu_reads_upto[OF dmu_appends_reads[OF dm]] u(2) ms_placeD(1)[OF i(1)]] by blast
    have two: "{sm_set (ms_defermap m 0), sm_set (ms_defermap m 1)} = {defer_at T m 0, defer_at T m 1}"
      using mod_2_swap[of "unat T"] unfolding defer_at_def by (cases "unat T mod 2 = 0") auto
    have sub: "defer_at T m 0 \<union> defer_at T m 1 \<subseteq> ?C" "defer_at T m 0 \<inter> defer_at T m 1 = {}"
      using view_of_sets(1,2)[OF i(13)] u(4) by auto
    have d: "sm_set (ms_defermap m 0) \<union> sm_set (ms_defermap m 1) = defer_at T m 0 \<union> defer_at T m 1"
      "sm_set (ms_defermap m 0) \<inter> sm_set (ms_defermap m 1) = {}"
      using two sub(2) by (auto simp: doubleton_eq_iff)
    obtain s2 where s2: "space_map_walk (ms_defermap m 0) (claim_func (me_kernel env)) s1 = Inr s2" "sm_active t s2"
      "sm_ppd s2 = Some (replicate 64 0)" "sm_set s2 = ?C - sm_set (ms_defermap m 0)" "sm_geometry (ms_map m) s2"
      using claim_walk[OF i(4)[of 0] k s1(2,5,4)] d(1) sub(1) unfolding s1(3) by auto
    have sub1: "sm_set (ms_defermap m 1) \<subseteq> sm_set s2" using d sub(1) unfolding s2(4) by blast
    obtain s3 where s3: "space_map_walk (ms_defermap m 1) (claim_func (me_kernel env)) s2 = Inr s3" "sm_active t s3"
      "sm_set s3 = ?C - sm_set (ms_defermap m 0) - sm_set (ms_defermap m 1)" "sm_geometry (ms_map m) s3"
      using claim_walk[OF i(4)[of 1] k s2(2,3,5) sub1] unfolding s2(4) by auto
    have "[0 ..< TXG_DEFER_SIZE] = [0, 1]" by (simp add: TXG_DEFER_SIZE_def upt_rec)
    then have "activate_load env t m os = Inr (s3, 0)"
      unfolding activate_load_def load_wait_ready[OF mi] using False s1(1) s2(1) s3(1) by simp
    moreover have "sm_set s3 = v_avail (view_of contents os T m)"
      using s3(3) d(1) u(3,4) False by (auto simp: view_of_def Let_def)
    ultimately show ?thesis using s3(2,4) False by (intro exI[of _ s3]) simp
  qed
qed

section \<open>A group of metaslabs\<close>

text \<open>
  The invariant of a group: the tree is sorted, and every metaslab of it is in order, at the same transaction group, with
  its map - if loaded - under the block picker \<open>t\<close> of the class.
\<close>

definition group_ok :: "sm_ops_table \<Rightarrow> ('os \<Rightarrow> u64 \<Rightarrow> u64 list) \<Rightarrow> u64 \<Rightarrow> addr \<Rightarrow> addr set \<Rightarrow> 'os pool \<Rightarrow> bool" where
  "group_ok t contents T mg ms p \<longleftrightarrow> mg_inv p mg ms \<and> mc_ops (p_mc p (mg_class (p_mg p mg))) = t
     \<and> (\<forall>a \<in> ms. ms_inv (p_vd p (mg_vd (p_mg p mg))) contents (p_os p) T (p_ms p a) \<and> weigh_ok (p_ms p a)
          \<and> (sm_loaded (ms_map (p_ms p a)) \<longrightarrow> sm_active t (ms_map (p_ms p a))))"

lemma group_okD:
  assumes "group_ok t contents T mg ms p"
  shows "mg_inv p mg ms" "mc_ops (p_mc p (mg_class (p_mg p mg))) = t"
    "a \<in> ms \<Longrightarrow> ms_inv (p_vd p (mg_vd (p_mg p mg))) contents (p_os p) T (p_ms p a)" "a \<in> ms \<Longrightarrow> weigh_ok (p_ms p a)"
    "a \<in> ms \<Longrightarrow> sm_loaded (ms_map (p_ms p a)) \<Longrightarrow> sm_active t (ms_map (p_ms p a))"
    "a \<in> ms \<Longrightarrow> ms_group (p_ms p a) = Some mg"
  using assms mg_inv_member[of p mg ms] unfolding group_ok_def by blast+

text \<open>One metaslab has changed.\<close>

lemma group_okI:
  assumes ok: "group_ok t contents T mg ms p" and a: "a \<in> ms" and p': "p_ms p' = (p_ms p)(a := m)" "p_os p' = p_os p" "pool_same p p'" "mg_inv p' mg ms"
    and m: "ms_inv (p_vd p (mg_vd (p_mg p mg))) contents (p_os p) T m" "weigh_ok m" "sm_loaded (ms_map m) \<Longrightarrow> sm_active t (ms_map m)"
  shows "group_ok t contents T mg ms p'"
proof -
  have vd: "mg_vd (p_mg p' mg) = mg_vd (p_mg p mg)" "vd_same (p_vd p x) (p_vd p' x)" "mg_class (p_mg p' mg) = mg_class (p_mg p mg)" for x
    using pool_sameD(3-5)[OF p'(3)] by simp_all
  have mc: "mc_ops (p_mc p' x) = mc_ops (p_mc p x)" for x using p'(3) by (simp add: pool_same_def)
  show ?thesis unfolding group_ok_def vd(1,3) mc p'(1,2) ms_inv_same[OF vd(2)]
    using p'(4) group_okD[OF ok] m by auto
qed

lemma base_bits:
  shows "unat (w AND NOT METASLAB_ACTIVE_MASK) < 2 ^ 62" "(w AND NOT METASLAB_ACTIVE_MASK) AND METASLAB_ACTIVE_MASK = 0"
    "w AND METASLAB_ACTIVE_MASK = 0 \<Longrightarrow> w AND NOT METASLAB_ACTIVE_MASK = w" "w AND NOT METASLAB_ACTIVE_MASK \<le> w"
proof -
  have "take_bit 62 (w AND NOT METASLAB_ACTIVE_MASK) = w AND NOT METASLAB_ACTIVE_MASK"
    by (rule bit_eqI) (auto simp: bit_simps bit_active_mask)
  then have "unat (w AND NOT METASLAB_ACTIVE_MASK) = take_bit 62 (unat (w AND NOT METASLAB_ACTIVE_MASK))"
    by (metis unsigned_take_bit_eq)
  then show "unat (w AND NOT METASLAB_ACTIVE_MASK) < 2 ^ 62" using take_bit_nat_less_exp[of 62 "unat (w AND NOT METASLAB_ACTIVE_MASK)"] by simp
  show "(w AND NOT METASLAB_ACTIVE_MASK) AND METASLAB_ACTIVE_MASK = 0" by (rule bit_eqI) (auto simp: bit_simps)
  show "w AND NOT METASLAB_ACTIVE_MASK = w" if "w AND METASLAB_ACTIVE_MASK = 0"
    using mask_split(1)[OF that, of 0] by simp
  show "w AND NOT METASLAB_ACTIVE_MASK \<le> w" by (rule word_and_le2)
qed

text \<open>The space map objects are the same.\<close>

definition smo_same :: "'os pool \<Rightarrow> 'os pool \<Rightarrow> bool" where
  "smo_same p p' \<longleftrightarrow> (\<forall>b. ms_smo (p_ms p' b) = ms_smo (p_ms p b) \<and> ms_smo_syncing (p_ms p' b) = ms_smo_syncing (p_ms p b))"

lemma smo_same_upd:
  assumes "p_ms p' = (p_ms p)(a := m)" "ms_smo m = ms_smo (p_ms p a)" "ms_smo_syncing m = ms_smo_syncing (p_ms p a)"
  shows "smo_same p p'"
  using assms by (simp add: smo_same_def)

lemma smo_same_trans: "smo_same p q \<Longrightarrow> smo_same q r \<Longrightarrow> smo_same p r"
  by (simp add: smo_same_def)

lemma weigh_ok_weight:
  assumes "weigh_ok m"
  shows "ms_weight m = 0 \<or> 512 \<le> unat (ms_weight m)"
proof -
  let ?b = "ms_weight m AND NOT METASLAB_ACTIVE_MASK"
  have "unat ?b \<le> unat (ms_weight m)" using base_bits(4)[of "ms_weight m"] by (simp add: word_le_nat_alt)
  moreover have "?b = 0 \<or> 512 \<le> unat ?b" using assms by (simp add: weigh_ok_def Let_def)
  moreover have "ms_weight m = 0 \<or> 2 ^ 62 \<le> unat (ms_weight m)" if "?b = 0"
    using that base_bits(3)[of "ms_weight m"] active_mask_low[of "ms_weight m"] by (cases "unat (ms_weight m) < 2 ^ 62") auto
  ultimately show ?thesis by force
qed

lemma metaslab_passivate_ok:
  assumes ok: "group_ok t contents T mg ms p" and a: "a \<in> ms"
    and s: "512 \<le> unat s \<or> s = 0 \<and> sm_set (ms_map (p_ms p a)) = {}" "unat s < 2 ^ 62"
  shows "\<exists>p'. metaslab_passivate a s p = Inr p' \<and> group_ok t contents T mg ms p' \<and> p_os p' = p_os p \<and> pool_same p p'
     \<and> p_ms p' = (p_ms p)(a := set_weight (min (ms_weight (p_ms p a)) s) (p_ms p a)) \<and> p_vd p' = p_vd p"
proof -
  note g = group_okD[OF ok]
  let ?w = "min (ms_weight (p_ms p a)) s"
  have sp: "sm_space (ms_map (p_ms p a)) = 0" if "sm_set (ms_map (p_ms p a)) = {}"
    using that core_map(1)[OF ms_inv_core[OF g(3)[OF a]]] sm_inv_empty_space by blast
  have "SPA_MINBLOCKSIZE \<le> s" if "512 \<le> unat s"
    using that by (simp add: SPA_MINBLOCKSIZE_def SPA_MINBLOCKSHIFT_def word_le_nat_alt)
  then have big: "s \<ge> SPA_MINBLOCKSIZE \<or> sm_space (ms_map (p_ms p a)) = 0" using s(1) sp by blast
  have w: "?w = 0 \<or> 512 \<le> unat ?w" using s(1) weigh_ok_weight[OF g(4)[OF a]] by (auto simp: min_def)
  have "unat ?w < 2 ^ 62" using s(2) by (simp add: min_def word_le_nat_alt)
  then have low: "?w AND METASLAB_ACTIVE_MASK = 0" by (rule active_mask_low)
  have "?w \<ge> SPA_MINBLOCKSIZE - 1 \<or> ?w = 0"
    using w by (auto simp: SPA_MINBLOCKSIZE_def SPA_MINBLOCKSHIFT_def word_le_nat_alt)
  then obtain tr where tr: "metaslab_group_sort mg a ?w p = Inr (upd_mg mg (set_tree tr) (upd_ms a (set_weight ?w) p))"
    "mg_inv (upd_mg mg (set_tree tr) (upd_ms a (set_weight ?w) p)) mg ms"
    using metaslab_group_sort_inv[OF g(1) a] unfolding Let_def by blast
  let ?p = "upd_mg mg (set_tree tr) (upd_ms a (set_weight ?w) p)"
  have same: "pool_same p ?p" using pool_same_trans[OF pool_same_upd(1) pool_same_upd(2)] .
  have "metaslab_passivate a s p = Inr ?p" using big g(6)[OF a] tr(1) low by (simp add: metaslab_passivate_def)
  moreover have "weigh_ok (set_weight ?w (p_ms p a))"
    using w low base_bits(3)[OF low] by (auto simp: weigh_ok_def Let_def)
  then have "group_ok t contents T mg ms ?p"
    by (intro group_okI[OF ok a _ _ same tr(2), where m = "set_weight ?w (p_ms p a)"]) (use g(3,5) a in simp_all)
  ultimately show ?thesis using same by (intro exI[of _ ?p]) simp
qed

lemma act_bits:
  assumes "actw = METASLAB_WEIGHT_PRIMARY \<or> actw = METASLAB_WEIGHT_SECONDARY" "w AND METASLAB_ACTIVE_MASK = 0"
  shows "(w OR actw) AND METASLAB_ACTIVE_MASK = actw" "(w OR actw) AND NOT METASLAB_ACTIVE_MASK = w" "actw \<noteq> 0" "512 \<le> unat actw"
proof -
  have m: "actw AND METASLAB_ACTIVE_MASK = actw"
    using assms(1) by (auto intro!: bit_eqI simp: METASLAB_ACTIVE_MASK_def bit_simps)
  show "(w OR actw) AND METASLAB_ACTIVE_MASK = actw" "(w OR actw) AND NOT METASLAB_ACTIVE_MASK = w"
    using mask_split[OF assms(2), of actw] unfolding m by simp_all
  show big: "512 \<le> unat actw"
    using assms(1) by (auto simp: METASLAB_WEIGHT_PRIMARY_def METASLAB_WEIGHT_SECONDARY_def push_bit_eq_mult)
  then show "actw \<noteq> 0" by auto
qed

lemma metaslab_activate_ok:
  assumes ok: "group_ok t contents T mg ms p" and a: "a \<in> ms" and k: "kmem_fresh (me_kernel env)" and dm: "dmu_appends (me_dmu env) contents"
    and actw: "actw = METASLAB_WEIGHT_PRIMARY \<or> actw = METASLAB_WEIGHT_SECONDARY" and size': "size' \<le> ms_weight (p_ms p a)"
    and base: "ms_weight (p_ms p a) AND NOT METASLAB_ACTIVE_MASK = 0 \<Longrightarrow>
        v_avail (view_of contents (p_os p) T (p_ms p a)) = {} \<and> (\<forall>t < 4. sm_set (ms_allocmap (p_ms p a) t) = {})"
  shows "\<exists>p' m. metaslab_activate env a actw size' p = Inr (p', 0) \<and> p_ms p' = (p_ms p)(a := m) \<and> group_ok t contents T mg ms p'
     \<and> p_os p' = p_os p \<and> pool_same p p' \<and> sm_active t (ms_map m)
     \<and> view_of contents (p_os p) T m = view_of contents (p_os p) T (p_ms p a)
     \<and> ms_weight m = (if ms_weight (p_ms p a) AND METASLAB_ACTIVE_MASK = 0 then ms_weight (p_ms p a) OR actw else ms_weight (p_ms p a))
     \<and> ms_weight m AND METASLAB_ACTIVE_MASK \<noteq> 0 \<and> ms_allocmap m = ms_allocmap (p_ms p a)
     \<and> sm_geometry (ms_map (p_ms p a)) (ms_map m) \<and> p_vd p' = p_vd p \<and> ms_smo m = ms_smo (p_ms p a) \<and> ms_smo_syncing m = ms_smo_syncing (p_ms p a)"
proof (cases "ms_weight (p_ms p a) AND METASLAB_ACTIVE_MASK = 0")
  case False
  note g = group_okD[OF ok]
  have "sm_loaded (ms_map (p_ms p a))" using g(4)[OF a] False by (simp add: weigh_ok_def Let_def)
  moreover from this have "sm_active t (ms_map (p_ms p a))" by (rule g(5)[OF a])
  ultimately show ?thesis using False ok g(6)[OF a]
    by (intro exI[of _ p] exI[of _ "p_ms p a"]) (simp add: metaslab_activate_def sm_geometry_def)
next
  case True
  note g = group_okD[OF ok]
  let ?m = "p_ms p a" and ?w = "ms_weight (p_ms p a) OR actw"
  obtain sm where sm: "activate_load env t ?m (p_os p) = Inr (sm, 0)" "sm_geometry (ms_map ?m) sm"
    "sm_set sm = v_avail (view_of contents (p_os p) T ?m)" "if sm_loaded (ms_map ?m) then sm = ms_map ?m else sm_active t sm"
    using activate_load_inv[OF g(3)[OF a] k dm, of t] by blast
  have act: "sm_active t sm" using sm(4) g(5)[OF a] by (cases "sm_loaded (ms_map ?m)") auto
  let ?m1 = "?m\<lparr>ms_map := sm\<rparr>"
  let ?p1 = "upd_ms a (\<lambda>m. m\<lparr>ms_map := sm\<rparr>) p"
  define p2 where "p2 = (if sm_start sm > mg_bonus_area (p_mg p mg)
                     then upd_mg mg (\<lambda>g. g\<lparr>mg_bonus_area := sm_start sm\<rparr>) ?p1 else ?p1)"
  have p2: "p_ms p2 = (p_ms p)(a := ?m1)" "p_os p2 = p_os p" "pool_same p p2" "mg_metaslab_tree (p_mg p2 mg) = mg_metaslab_tree (p_mg p mg)" "p_vd p2 = p_vd p"
    by (simp_all add: p2_def pool_same_def mg_same_def vd_same_def)
  have mg2: "mg_inv p2 mg ms"
    by (rule mg_inv_cong[OF g(1) p2(4)]) (use sm(2) in \<open>simp add: p2(1) ms_key_def sm_geometry_def\<close>)
  note b = act_bits[OF actw True]
  have "512 \<le> unat ?w" using b(4) le_word_or1[of actw "ms_weight (p_ms p a)"] by (simp add: word_le_nat_alt)
  then have "?w \<ge> SPA_MINBLOCKSIZE - 1 \<or> ?w = 0" by (simp add: SPA_MINBLOCKSIZE_def SPA_MINBLOCKSHIFT_def word_le_nat_alt)
  then obtain tr where tr: "metaslab_group_sort mg a ?w p2 = Inr (upd_mg mg (set_tree tr) (upd_ms a (set_weight ?w) p2))"
    "mg_inv (upd_mg mg (set_tree tr) (upd_ms a (set_weight ?w) p2)) mg ms"
    using metaslab_group_sort_inv[OF mg2 a] unfolding Let_def by blast
  let ?p3 = "upd_mg mg (set_tree tr) (upd_ms a (set_weight ?w) p2)" and ?m3 = "set_weight ?w ?m1"
  have w2: "ms_weight (p_ms p2 a) = ms_weight ?m" by (simp add: p2(1))
  have same: "pool_same p ?p3" using pool_same_trans[OF p2(3) pool_same_trans[OF pool_same_upd(1) pool_same_upd(2)]] .
  have nl: "\<not> ms_weight ?m < size'" using size' by (simp add: not_less)
  have loaded: "sm_loaded sm" using act by (simp add: sm_active_def)
  have "metaslab_activate env a actw size' p = Inr (?p3, 0)"
    unfolding metaslab_activate_def using g(2) g(6)[OF a] True sm(1) nl tr(1) w2 b(1,3) loaded
    by (simp add: p2_def[symmetric] Let_def p2(1) split del: if_split)
  moreover have "p_ms ?p3 = (p_ms p)(a := ?m3)" by (simp add: p2(1))
  moreover have "weigh_ok ?m3"
    using g(4)[OF a] base b base_bits(3)[OF True] loaded sm(3) True unfolding weigh_ok_def Let_def by auto
  moreover note ms_inv_load[OF g(3)[OF a] act sm(2,3)]
  moreover from calculation have "group_ok t contents T mg ms ?p3"
    by (intro group_okI[OF ok a _ _ same tr(2), where m = ?m3]) (use act p2(2) in simp_all)
  ultimately show ?thesis using same act True b(1,3) p2(2,5) sm(2)
    by (intro exI[of _ ?p3] exI[of _ ?m3]) simp
qed

end

