(* ===== verification/Metaslab_Alloc.thy ===== *)
theory Metaslab_Alloc
  imports Metaslab "HOL-Library.Signed_Division"
begin

text \<open>
  Allocating, freeing and claiming blocks (\<open>uts/common/fs/zfs/metaslab.c\<close>, from \<open>metaslab_distance\<close> to
  \<open>metaslab_claim\<close>): the choice of a metaslab in a group, of a group in a class, and the operations on block pointers.
\<close>

unbundle bit_operations_syntax

definition METASLAB_HINTBP_FAVOR :: u64 where "METASLAB_HINTBP_FAVOR = 0"
definition METASLAB_HINTBP_AVOID :: u64 where "METASLAB_HINTBP_AVOID = 1"
definition METASLAB_GANG_HEADER :: u64 where "METASLAB_GANG_HEADER = 2"

definition metaslab_gang_bang :: u64 where
  "metaslab_gang_bang = SPA_MAXBLOCKSIZE + 1"

definition SPA_GANGBLOCKSIZE :: u64 where
  "SPA_GANGBLOCKSIZE = SPA_MINBLOCKSIZE"

definition spa_max_replication_override :: nat where
  "spa_max_replication_override = SPA_DVAS_PER_BP"

definition SPA_VERSION_DITTO_BLOCKS :: u64 where
  "SPA_VERSION_DITTO_BLOCKS = 2"

definition spa_max_replication :: "'os ms_env \<Rightarrow> nat" where
  "spa_max_replication env =
     (if spa_version env < SPA_VERSION_DITTO_BLOCKS then 1 else min SPA_DVAS_PER_BP spa_max_replication_override)"

text \<open>The top-level vdev with a given number.\<close>

definition pool_lookup_top :: "'os pool \<Rightarrow> u64 \<Rightarrow> addr option" where
  "pool_lookup_top p vdev = (if unat vdev < length (p_top p) then Some (p_top p ! unat vdev) else None)"

definition vd_asize :: "top_vdev \<Rightarrow> u64 \<Rightarrow> u64" where
  "vd_asize vd psize = vdev_psize_to_asize (vdev_ashift (node_of vd)) (tv_tree vd) psize"

section \<open>Choosing a metaslab\<close>

definition metaslab_distance :: "'os pool \<Rightarrow> addr \<Rightarrow> dva \<Rightarrow> u64 res" where
  "metaslab_distance p msp dva =
     rbind (deref (ms_group (p_ms p msp))) (\<lambda>mg.
     let vd = node_of (p_vd p (mg_vd (p_mg p mg)));
         ms_shift = unat (vdev_ms_shift vd);
         offset = drop_bit ms_shift (DVA_GET_OFFSET dva);
         start = drop_bit ms_shift (sm_start (ms_map (p_ms p msp)))
     in
     Inr (if vdev_id vd \<noteq> DVA_GET_VDEV dva then push_bit 63 1
          else if offset < start then push_bit ms_shift (start - offset)
          else if offset > start then push_bit ms_shift (offset - start)
          else 0))"

text \<open>Whether the metaslab is nearer than \<open>target_distance\<close> to one of the addresses.\<close>

fun too_close :: "'os pool \<Rightarrow> addr \<Rightarrow> u64 \<Rightarrow> dva list \<Rightarrow> bool res" where
  "too_close p msp target_distance [] = Inr False"
| "too_close p msp target_distance (dva # dvas) =
     rbind (metaslab_distance p msp dva) (\<lambda>distance.
       if distance < target_distance then Inr True else too_close p msp target_distance dvas)"

text \<open>
  The loop over the tree of a group, heaviest metaslab first. The result is the metaslab and \<open>was_active\<close>, which in the
  code is a \<open>boolean_t\<close> and so keeps the low 32 bits of the masked weight.
\<close>

partial_function (option) group_select ::
  "'os pool \<Rightarrow> avl_tree \<Rightarrow> u64 \<Rightarrow> u64 \<Rightarrow> u64 \<Rightarrow> dva list \<Rightarrow> addr option \<Rightarrow> (addr \<times> bool) option res option" where
  "group_select p t size' activation_weight min_distance dvas msp =
     (case msp of
        None \<Rightarrow> Some (Inr None)
      | Some a \<Rightarrow>
          let m = p_ms p a;
              was_active = (ucast (ms_weight m AND METASLAB_ACTIVE_MASK) :: 32 word) \<noteq> 0;
              target_distance = min_distance + (if smo_alloc (ms_smo m) \<noteq> 0 then 0 else drop_bit 1 min_distance)
          in
          if ms_weight m < size' then Some (Inr None)
          else if activation_weight = METASLAB_WEIGHT_PRIMARY then Some (Inr (Some (a, was_active)))
          else
            case too_close p a target_distance dvas of
              Inl e \<Rightarrow> Some (Inl e)
            | Inr close' \<Rightarrow>
                if \<not> close' then Some (Inr (Some (a, was_active)))
                else
                  case AVL_NEXT t a of
                    Inl e \<Rightarrow> Some (Inl e)
                  | Inr next' \<Rightarrow> group_select p t size' activation_weight min_distance dvas next')"

definition activation_weight_of :: "'os pool \<Rightarrow> addr \<Rightarrow> dva list \<Rightarrow> u64" where
  "activation_weight_of p mg dvas =
     (if list_ex (\<lambda>dva. DVA_GET_VDEV dva = vdev_id (node_of (p_vd p (mg_vd (p_mg p mg))))) dvas
      then METASLAB_WEIGHT_SECONDARY else METASLAB_WEIGHT_PRIMARY)"

text \<open>
  One turn of the loop: a metaslab is selected, made active, and the allocation is tried in its map. \<open>Some (Some (msp, offset))\<close>
  is a success, \<open>Some None\<close> that the group has no metaslab, and \<open>None\<close> that the loop goes on.
\<close>

definition group_alloc_step ::
  "'os ms_env \<Rightarrow> addr \<Rightarrow> u64 \<Rightarrow> u64 \<Rightarrow> u64 \<Rightarrow> dva list \<Rightarrow> 'os pool \<Rightarrow> ('os pool \<times> (addr \<times> u64) option option) res" where
  "group_alloc_step env mg size' activation_weight min_distance dvas p =
     (let t = mg_metaslab_tree (p_mg p mg)
      in
      rbind (avl_first t) (\<lambda>msp.
      rbind (rbind (of_loop (group_select p t size' activation_weight min_distance dvas msp)) id) (\<lambda>sel.
      case sel of
        None \<Rightarrow> Inr (p, Some None)
      | Some (msp, was_active) \<Rightarrow>
          let w = ms_weight (p_ms p msp)
          in
          if w < size' \<or> was_active \<and> w AND METASLAB_ACTIVE_MASK = 0 \<and> activation_weight = METASLAB_WEIGHT_PRIMARY then Inr (p, None)
          else if w AND METASLAB_WEIGHT_SECONDARY \<noteq> 0 \<and> activation_weight = METASLAB_WEIGHT_PRIMARY then
            rbind (metaslab_passivate msp (w AND NOT METASLAB_ACTIVE_MASK) p) (\<lambda>p. Inr (p, None))
          else
            rbind (metaslab_activate env msp activation_weight size' p) (\<lambda>(p, error).
            if error \<noteq> 0 then Inr (p, None)
            else
              rbind (space_map_alloc (me_kernel env) metaslab_ops (ms_map (p_ms p msp)) size') (\<lambda>(sm, offset).
              let p = upd_ms msp (\<lambda>m. m\<lparr>ms_map := sm\<rparr>) p
              in
              if offset \<noteq> -1 then Inr (p, Some (Some (msp, offset)))
              else
                rbind (space_map_maxsize metaslab_ops (ms_map (p_ms p msp))) (\<lambda>maxsize.
                rbind (metaslab_passivate msp maxsize p) (\<lambda>p. Inr (p, None))))))))"

partial_function (option) group_alloc_loop ::
  "'os ms_env \<Rightarrow> addr \<Rightarrow> u64 \<Rightarrow> u64 \<Rightarrow> u64 \<Rightarrow> dva list \<Rightarrow> 'os pool \<Rightarrow> ('os pool \<times> (addr \<times> u64) option) res option" where
  "group_alloc_loop env mg size' activation_weight min_distance dvas p =
     (case group_alloc_step env mg size' activation_weight min_distance dvas p of
        Inl e \<Rightarrow> Some (Inl e)
      | Inr (p, None) \<Rightarrow> group_alloc_loop env mg size' activation_weight min_distance dvas p
      | Inr (p, Some r) \<Rightarrow> Some (Inr (p, r)))"

definition alloc_dirty :: "'os ms_env \<Rightarrow> addr \<Rightarrow> addr \<Rightarrow> u64 \<Rightarrow> u64 \<Rightarrow> u64 \<Rightarrow> 'os pool \<Rightarrow> 'os pool res" where
  "alloc_dirty env vd msp txg offset size' p =
     (let t = TXG_IDX txg
      in
      rbind (if sm_space (ms_allocmap (p_ms p msp) t) = 0 then pool_dirty vd VDD_METASLAB msp txg p else Inr p) (\<lambda>p.
      rbind (space_map_add (me_kernel env) (ms_allocmap (p_ms p msp) t) offset size') (\<lambda>sm.
      Inr (upd_ms msp (set_allocmap t sm) p))))"

definition metaslab_group_alloc ::
  "'os ms_env \<Rightarrow> addr \<Rightarrow> u64 \<Rightarrow> u64 \<Rightarrow> u64 \<Rightarrow> dva list \<Rightarrow> nat \<Rightarrow> 'os pool \<Rightarrow> ('os pool \<times> u64) res" where
  "metaslab_group_alloc env mg size' txg min_distance dva d p =
     (let dvas = take d dva
      in
      rbind (rbind (of_loop (group_alloc_loop env mg size' (activation_weight_of p mg dvas) min_distance dvas p)) id) (\<lambda>(p, r).
      case r of
        None \<Rightarrow> Inr (p, -1)
      | Some (msp, offset) \<Rightarrow>
          rbind (alloc_dirty env (mg_vd (p_mg p mg)) msp txg offset size' p) (\<lambda>p. Inr (p, offset))))"

section \<open>Choosing a group\<close>

text \<open>Signed division, which rounds towards zero.\<close>

definition div_s64 :: "s64 \<Rightarrow> s64 \<Rightarrow> s64" where
  "div_s64 a b = word_of_int (sint a sdiv sint b)"

text \<open>After an allocation in the group: the bias when the group has just been selected, and the rotor.\<close>

definition rotor_advance :: "addr \<Rightarrow> addr \<Rightarrow> u64 \<Rightarrow> 'os pool \<Rightarrow> 'os pool" where
  "rotor_advance mc mg asize p =
     (let p = (if mc_aliquot (p_mc p mc) = 0 then
                 (let vs = vdev_stat_of (p_vd p (mg_vd (p_mg p mg)));
                      vu = push_bit 10 (vs_alloc vs) div (vs_space vs + 1);
                      cu = push_bit 10 (mc_alloc (p_mc p mc)) div (mc_space (p_mc p mc) + 1)
                  in upd_mg mg (\<lambda>g. g\<lparr>mg_bias := div_s64 ((cu - vu) * mg_aliquot g) (1024 * 4)\<rparr>) p)
               else p);
          g = p_mg p mg;
          p = upd_mc mc (\<lambda>c. c\<lparr>mc_aliquot := mc_aliquot c + asize\<rparr>) p
      in if mc_aliquot (p_mc p mc) \<ge> mg_aliquot g + mg_bias g
         then upd_mc mc (\<lambda>c. c\<lparr>mc_rotor := mg_next g, mc_aliquot := 0\<rparr>) p else p)"

definition make_dva :: "u64 \<Rightarrow> u64 \<Rightarrow> u64 \<Rightarrow> u64 \<Rightarrow> dva \<Rightarrow> dva" where
  "make_dva vid offset flags asize dva =
     DVA_SET_ASIZE asize (DVA_SET_GANG (if flags AND METASLAB_GANG_HEADER \<noteq> 0 then 1 else 0)
       (DVA_SET_OFFSET offset (DVA_SET_VDEV vid dva)))"

text \<open>
  One group of the ring. The result has \<open>all_zero\<close>, \<open>allocatable\<close> and the address when the allocation succeeded. The lock
  taken when \<open>zio_lock\<close> is set does not change what is read.
\<close>

definition alloc_dva_try ::
  "'os ms_env \<Rightarrow> addr \<Rightarrow> u64 \<Rightarrow> dva list \<Rightarrow> nat \<Rightarrow> u64 \<Rightarrow> u64 \<Rightarrow> addr \<Rightarrow> nat \<Rightarrow> bool \<Rightarrow> 'os pool
     \<Rightarrow> ('os pool \<times> bool \<times> bool \<times> dva option) res" where
  "alloc_dva_try env mc psize dva d txg flags mg dshift all_zero p =
     ASSERT (mg_activation_count (p_mg p mg) = 1) (
     let vd = p_vd p (mg_vd (p_mg p mg));
         n = node_of vd
     in
     if \<not> vdev_allocatable n then Inr (p, all_zero, False, None)
     else if (vs_write_errors (vdev_stat_of vd) > 0 \<or> vdev_state n < VDEV_STATE_HEALTHY) \<and> d = 0 \<and> dshift = 3
     then Inr (p, False, True, None)
     else
       ASSERT (mg_class (p_mg p mg) = mc) (
       let far = drop_bit dshift (vdev_asize n);
           near' = far \<le> push_bit (unat (vdev_ms_shift n)) 1;
           distance = (if near' then 0 else far);
           all_zero = (if near' then all_zero else False);
           asize = vd_asize vd psize
       in
       ASSERT (P2PHASE asize (push_bit (unat (vdev_ashift n)) 1) = 0) (
       rbind (metaslab_group_alloc env mg asize txg distance dva d p) (\<lambda>(p, offset).
       if offset \<noteq> -1 then
         Inr (rotor_advance mc mg asize p, all_zero, True, Some (make_dva (vdev_id n) offset flags asize (dva ! d)))
       else Inr (p, all_zero, True, None)))))"

partial_function (option) alloc_dva_loop ::
  "'os ms_env \<Rightarrow> addr \<Rightarrow> u64 \<Rightarrow> dva list \<Rightarrow> nat \<Rightarrow> u64 \<Rightarrow> u64 \<Rightarrow> addr \<Rightarrow> addr \<Rightarrow> nat \<Rightarrow> bool \<Rightarrow> bool \<Rightarrow> 'os pool
     \<Rightarrow> ('os pool \<times> dva list \<times> int) res option" where
  "alloc_dva_loop env mc psize dva d txg flags rotor mg dshift zio_lock all_zero p =
     (case alloc_dva_try env mc psize dva d txg flags mg dshift all_zero p of
        Inl e \<Rightarrow> Some (Inl e)
      | Inr (p, all_zero, allocatable, Some new) \<Rightarrow> Some (Inr (p, dva[d := new], 0))
      | Inr (p, all_zero, allocatable, None) \<Rightarrow>
          let next' = mg_next (p_mg p mg);
              p = upd_mc mc (\<lambda>c. c\<lparr>mc_rotor := next', mc_aliquot := 0\<rparr>) p
          in
          if next' \<noteq> Some rotor then
            (case next' of
               None \<Rightarrow> Some (Inl NullDeref)
             | Some mg \<Rightarrow> alloc_dva_loop env mc psize dva d txg flags rotor mg dshift zio_lock all_zero p)
          else if \<not> all_zero then
            (if dshift + 1 < 64 then alloc_dva_loop env mc psize dva d txg flags rotor rotor (dshift + 1) zio_lock True p
             else Some (Inl AssertFailed))
          else if \<not> allocatable \<and> \<not> zio_lock then alloc_dva_loop env mc psize dva d txg flags rotor rotor 3 True True p
          else Some (Inr (p, dva[d := zero_dva], ENOSPC)))"

definition first_group :: "addr \<Rightarrow> dva list \<Rightarrow> nat \<Rightarrow> dva list option \<Rightarrow> u64 \<Rightarrow> 'os pool \<Rightarrow> addr option res" where
  "first_group mc dva d hintdva flags p =
     (case hintdva of
        Some hint \<Rightarrow>
          (case pool_lookup_top p (DVA_GET_VDEV (hint ! d)) of
             Some vd \<Rightarrow>
               (if flags AND METASLAB_HINTBP_AVOID \<noteq> 0 then
                  rbind (deref (vdev_mg (p_vd p vd))) (\<lambda>mg.
                  Inr (if mg_next (p_mg p mg) \<noteq> None then mg_next (p_mg p mg) else Some mg))
                else Inr (vdev_mg (p_vd p vd)))
           | None \<Rightarrow> Inr (mc_rotor (p_mc p mc)))
      | None \<Rightarrow>
          if d \<noteq> 0 then
            rbind (deref (pool_lookup_top p (DVA_GET_VDEV (dva ! (d - 1))))) (\<lambda>vd.
            rbind (deref (vdev_mg (p_vd p vd))) (\<lambda>mg. Inr (mg_next (p_mg p mg))))
          else Inr (mc_rotor (p_mc p mc)))"

definition metaslab_alloc_dva ::
  "'os ms_env \<Rightarrow> addr \<Rightarrow> u64 \<Rightarrow> dva list \<Rightarrow> nat \<Rightarrow> dva list option \<Rightarrow> u64 \<Rightarrow> u64 \<Rightarrow> 'os pool \<Rightarrow> ('os pool \<times> dva list \<times> int) res" where
  "metaslab_alloc_dva env mc psize dva d hintdva txg flags p =
     ASSERT (\<not> DVA_IS_VALID (dva ! d)) (
     if psize \<ge> metaslab_gang_bang \<and> ddi_get_lbolt env AND 3 = 0 then Inr (p, dva, ENOSPC)
     else
       rbind (first_group mc dva d hintdva flags p) (\<lambda>mg.
       rbind (deref mg) (\<lambda>mg.
       let mg = (if mg_class (p_mg p mg) \<noteq> mc \<or> sint (mg_activation_count (p_mg p mg)) \<le> 0 then mc_rotor (p_mc p mc) else Some mg)
       in
       rbind (deref mg) (\<lambda>rotor.
       rbind (of_loop (alloc_dva_loop env mc psize dva d txg flags rotor rotor 3 False True p)) id))))"

section \<open>Freeing and claiming\<close>

definition free_size :: "top_vdev \<Rightarrow> dva \<Rightarrow> u64" where
  "free_size vd dva = (if DVA_GET_GANG dva \<noteq> 0 then vd_asize vd SPA_GANGBLOCKSIZE else DVA_GET_ASIZE dva)"

text \<open>The metaslab of an address, if the address is in the pool.\<close>

definition dva_metaslab :: "'os pool \<Rightarrow> dva \<Rightarrow> (addr \<times> addr) option" where
  "dva_metaslab p dva =
     (case pool_lookup_top p (DVA_GET_VDEV dva) of
        None \<Rightarrow> None
      | Some vd \<Rightarrow>
          let i = drop_bit (unat (vdev_ms_shift (node_of (p_vd p vd)))) (DVA_GET_OFFSET dva)
          in if i \<ge> vdev_ms_count (p_vd p vd) then None else Some (vd, vdev_ms (p_vd p vd) ! unat i))"

definition metaslab_free_dva :: "'os ms_env \<Rightarrow> dva \<Rightarrow> u64 \<Rightarrow> bool \<Rightarrow> 'os pool \<Rightarrow> 'os pool res" where
  "metaslab_free_dva env dva txg now p =
     ASSERT (DVA_IS_VALID dva) (
     if txg > spa_freeze_txg env then Inr p
     else
       case dva_metaslab p dva of
         None \<Rightarrow> Inl AssertFailed
       | Some (vd, msp) \<Rightarrow>
           let offset = DVA_GET_OFFSET dva;
               size' = free_size (p_vd p vd) dva;
               t = TXG_IDX txg
           in
           if now then
             rbind (space_map_remove (me_kernel env) (ms_allocmap (p_ms p msp) t) offset size') (\<lambda>am.
             rbind (space_map_free (me_kernel env) metaslab_ops (ms_map (p_ms p msp)) offset size') (\<lambda>sm.
             Inr (upd_ms msp (\<lambda>m. (set_allocmap t am m)\<lparr>ms_map := sm\<rparr>) p)))
           else
             rbind (if sm_space (ms_freemap (p_ms p msp) t) = 0 then pool_dirty vd VDD_METASLAB msp txg p else Inr p) (\<lambda>p.
             rbind (space_map_add (me_kernel env) (ms_freemap (p_ms p msp) t) offset size') (\<lambda>fm.
             Inr (upd_ms msp (set_freemap t fm) p))))"

definition metaslab_claim_dva :: "'os ms_env \<Rightarrow> dva \<Rightarrow> u64 \<Rightarrow> 'os pool \<Rightarrow> ('os pool \<times> int) res" where
  "metaslab_claim_dva env dva txg p =
     ASSERT (DVA_IS_VALID dva) (
     case dva_metaslab p dva of
       None \<Rightarrow> Inr (p, ENXIO)
     | Some (vd, msp) \<Rightarrow>
         let offset = DVA_GET_OFFSET dva;
             size' = free_size (p_vd p vd) dva
         in
         rbind
           (if txg \<noteq> 0 \<and> spa_writeable env \<or> \<not> sm_loaded (ms_map (p_ms p msp))
            then metaslab_activate env msp METASLAB_WEIGHT_SECONDARY 0 p else Inr (p, 0)) (\<lambda>(p, error).
         rbind
           (if error = 0 then rbind (space_map_contains (ms_map (p_ms p msp)) offset size') (\<lambda>b. Inr (if b then 0 else ENOENT))
            else Inr error) (\<lambda>error.
         if error \<noteq> 0 \<or> txg = 0 then Inr (p, error)
         else
           rbind (space_map_claim (me_kernel env) metaslab_ops (ms_map (p_ms p msp)) offset size') (\<lambda>sm.
           let p = upd_ms msp (\<lambda>m. m\<lparr>ms_map := sm\<rparr>) p
           in
           rbind (if spa_writeable env then alloc_dirty env vd msp txg offset size' p else Inr p) (\<lambda>p. Inr (p, 0))))))"

section \<open>Block pointers\<close>

text \<open>Taking back the first \<open>d\<close> addresses of a block pointer whose allocation failed, the last one first.\<close>

fun alloc_unwind :: "'os ms_env \<Rightarrow> u64 \<Rightarrow> nat \<Rightarrow> dva list \<Rightarrow> 'os pool \<Rightarrow> ('os pool \<times> dva list) res" where
  "alloc_unwind env txg 0 dva p = Inr (p, dva)"
| "alloc_unwind env txg (Suc d) dva p =
     rbind (metaslab_free_dva env (dva ! d) txg True p) (\<lambda>p. alloc_unwind env txg d (dva[d := zero_dva]) p)"

text \<open>The loop over the addresses of a block pointer; \<open>n\<close> are left.\<close>

fun alloc_loop ::
  "'os ms_env \<Rightarrow> addr \<Rightarrow> u64 \<Rightarrow> dva list option \<Rightarrow> u64 \<Rightarrow> u64 \<Rightarrow> nat \<Rightarrow> nat \<Rightarrow> dva list \<Rightarrow> 'os pool \<Rightarrow> ('os pool \<times> dva list \<times> int) res" where
  "alloc_loop env mc psize hintdva txg flags d 0 dva p = Inr (p, dva, 0)"
| "alloc_loop env mc psize hintdva txg flags d (Suc n) dva p =
     rbind (metaslab_alloc_dva env mc psize dva d hintdva txg flags p) (\<lambda>(p, dva, error).
     if error \<noteq> 0 then rbind (alloc_unwind env txg d dva p) (\<lambda>(p, dva). Inr (p, dva, error))
     else alloc_loop env mc psize hintdva txg flags (d + 1) n dva p)"

definition metaslab_alloc ::
  "'os ms_env \<Rightarrow> addr \<Rightarrow> u64 \<Rightarrow> blkptr \<Rightarrow> nat \<Rightarrow> u64 \<Rightarrow> blkptr option \<Rightarrow> u64 \<Rightarrow> 'os pool \<Rightarrow> ('os pool \<times> blkptr \<times> int) res" where
  "metaslab_alloc env mc psize bp ndvas txg hintbp flags p =
     ASSERT (blk_birth bp = 0) (
     ASSERT (BP_PHYSICAL_BIRTH bp = 0) (
     if mc_rotor (p_mc p mc) = None then Inr (p, bp, ENOSPC)
     else
       ASSERT (ndvas > 0 \<and> ndvas \<le> spa_max_replication env) (
       ASSERT (BP_GET_NDVAS bp = 0) (
       ASSERT (case hintbp of None \<Rightarrow> True | Some hintbp \<Rightarrow> ndvas \<le> BP_GET_NDVAS hintbp) (
       rbind (alloc_loop env mc psize (map_option blk_dva hintbp) txg flags 0 ndvas (blk_dva bp) p) (\<lambda>(p, dva, error).
       let bp = bp\<lparr>blk_dva := dva\<rparr>
       in
       if error \<noteq> 0 then Inr (p, bp, error)
       else ASSERT (BP_GET_NDVAS bp = ndvas) (Inr (p, BP_SET_BIRTH txg txg bp, 0))))))))"

definition metaslab_free :: "'os ms_env \<Rightarrow> blkptr \<Rightarrow> u64 \<Rightarrow> bool \<Rightarrow> 'os pool \<Rightarrow> 'os pool res" where
  "metaslab_free env bp txg now p =
     ASSERT (\<not> BP_IS_HOLE bp) (
     ASSERT (now \<longrightarrow> blk_birth bp \<ge> spa_syncing_txg env) (
     foldM (\<lambda>dva p. metaslab_free_dva env dva txg now p) (take (BP_GET_NDVAS bp) (blk_dva bp)) p))"

fun claim_loop :: "'os ms_env \<Rightarrow> u64 \<Rightarrow> dva list \<Rightarrow> 'os pool \<Rightarrow> ('os pool \<times> int) res" where
  "claim_loop env txg [] p = Inr (p, 0)"
| "claim_loop env txg (dva # dvas) p =
     rbind (metaslab_claim_dva env dva txg p) (\<lambda>(p, error). if error \<noteq> 0 then Inr (p, error) else claim_loop env txg dvas p)"

text \<open>The code first calls itself with transaction group 0, a dry run.\<close>

definition metaslab_claim :: "'os ms_env \<Rightarrow> blkptr \<Rightarrow> u64 \<Rightarrow> 'os pool \<Rightarrow> ('os pool \<times> int) res" where
  "metaslab_claim env bp txg p =
     ASSERT (\<not> BP_IS_HOLE bp) (
     let dvas = take (BP_GET_NDVAS bp) (blk_dva bp)
     in
     rbind (if txg \<noteq> 0 then claim_loop env 0 dvas p else Inr (p, 0)) (\<lambda>(p, error).
     if error \<noteq> 0 then Inr (p, error)
     else
       rbind (claim_loop env txg dvas p) (\<lambda>(p, error).
       ASSERT (error = 0 \<or> txg = 0) (Inr (p, error)))))"

lemmas metaslab_alloc_code [code] = group_select.simps group_alloc_loop.simps alloc_dva_loop.simps

end
