(* ===== verification/Metaslab_Use.thy ===== *)
theory Metaslab_Use
  imports Metaslab_Activate Metaslab_Alloc
begin

text \<open>
  What allocating in a group and freeing do to the space of its metaslabs: an allocation takes available space and
  nothing else, the search of the group ends, and a free is put off until its transaction group has synced.
\<close>

section \<open>One metaslab\<close>

lemma ms_inv_change:
  assumes inv: "ms_inv vd contents os T m"
    and same: "ms_smo m' = ms_smo m" "ms_smo_syncing m' = ms_smo_syncing m" "ms_defermap m' = ms_defermap m" "ms_deferspace m' = ms_deferspace m"
    and geo: "sm_geometry (ms_map m) (ms_map m')"
    and sides: "\<And>s. s < 4 \<Longrightarrow> ms_side (ms_map m) (ms_allocmap m' s)" "\<And>s. s < 4 \<Longrightarrow> ms_side (ms_map m) (ms_freemap m' s)"
    and a3: "alloc_at T m' 3 = {}" and view: "view_ok (view_of contents os T m')"
    and act: "sm_loaded (ms_map m') \<Longrightarrow> \<exists>t. sm_active t (ms_map m')" "\<not> sm_loaded (ms_map m') \<Longrightarrow> ms_unloaded contents os T m'"
  shows "ms_inv vd contents os T m'"
proof (rule ms_invI)
  note i = ms_invD[OF inv]
  show "ms_place vd (ms_map m')" using i(1) unfolding ms_place_geometry[OF geo] .
  show "ms_side (ms_map m') (ms_allocmap m' s)" if "s < 4" for s using ms_side_geometry[OF sides(1)[OF that] geo] .
  show "ms_side (ms_map m') (ms_freemap m' s)" if "s < 4" for s using ms_side_geometry[OF sides(2)[OF that] geo] .
  show "ms_side (ms_map m') (ms_defermap m' s)" if "s < 2" for s using ms_side_geometry[OF i(4)[OF that] geo] unfolding same .
  show "smo_ok contents (ms_map m') SM_FREE (ms_smo_syncing m') os" using i(6) unfolding smo_ok_geometry[OF geo] same .
  show "smo_fits (ms_map m') (ms_smo m')" using i(8) geo by (simp add: smo_fits_def sm_geometry_def same)
  show "sint (ms_deferspace m') = int (card (defer_at T m' 0) + card (defer_at T m' 1))" using i(10) by (simp add: same defer_at_def)
  show "smo_object (ms_smo m') = 0 \<or> smo_object (ms_smo m') = smo_object (ms_smo_syncing m')" using i(9) unfolding same .
  show "smo_object (ms_smo_syncing m') = 0 \<Longrightarrow> smo_objsize (ms_smo_syncing m') = 0 \<and> smo_alloc (ms_smo_syncing m') = 0"
    using i(7) unfolding same .
qed (use a3 view act in blast)+

lemma slot_upd:
  assumes "i < 4" "j < 4"
  shows "((f :: nat \<Rightarrow> 'a)(slot_at T i := x)) (slot_at T j) = (if i = j then x else f (slot_at T j))"
  using slot_at_eq[OF assms, of T] by auto

text \<open>Space that has been taken out of the map goes into the allocmap of the transaction group.\<close>

lemma alloc_inv:
  assumes inv: "ms_inv vd contents os T m" and act: "sm_loaded (ms_map m)" "sm_active t sm" "sm_geometry (ms_map m) sm"
    and R: "sm_range (ms_map m) off size'" "range_set off size' \<subseteq> sm_set (ms_map m)" "sm_set sm = sm_set (ms_map m) - range_set off size'"
    and i3: "i < 3" and k: "kmem_fresh k"
  shows "\<exists>A. space_map_add k (ms_allocmap m (slot_at T i)) off size' = Inr A \<and> ms_inv vd contents os T (set_allocmap (slot_at T i) A (m\<lparr>ms_map := sm\<rparr>))
    \<and> view_of contents os T (set_allocmap (slot_at T i) A (m\<lparr>ms_map := sm\<rparr>)) = spec_alloc i (range_set off size') (view_of contents os T m)"
proof -
  note i = ms_invD[OF inv]
  let ?R = "range_set off size'" and ?A = "ms_allocmap m (slot_at T i)"
  have side: "ms_side (ms_map m) ?A" using i(2) by simp
  have av: "v_avail (view_of contents os T m) = sm_set (ms_map m)" using act(1) by (simp add: view_of_def Let_def)
  have "sm_set (ms_map m) \<inter> alloc_at T m i = {}" using view_of_sets(1)[OF i(13)] less_3_cases[OF i3] unfolding av by auto
  then have disj: "sm_set ?A \<inter> ?R = {}" using R(2) by (auto simp: alloc_at_def)
  have "sm_range ?A off size'" using R(1) side by (simp add: sm_range_def ms_side_def sm_geometry_def)
  then obtain A where A: "space_map_add k ?A off size' = Inr A" "sm_inv A" "sm_set A = sm_set ?A \<union> ?R" "sm_same ?A A"
    using space_map_add_inv[OF _ k _ disj] side by (auto simp: ms_side_def)
  let ?m = "set_allocmap (slot_at T i) A (m\<lparr>ms_map := sm\<rparr>)"
  have fields: "ms_map ?m = sm" "ms_smo ?m = ms_smo m" "ms_smo_syncing ?m = ms_smo_syncing m" "ms_freemap ?m = ms_freemap m"
    "ms_allocmap ?m = (ms_allocmap m)(slot_at T i := A)" "ms_defermap ?m = ms_defermap m" "ms_deferspace ?m = ms_deferspace m"
    by (simp_all add: set_allocmap_def)
  have at: "alloc_at T ?m j = (if i = j then alloc_at T m i \<union> ?R else alloc_at T m j)" if "j < 4" for j
    using slot_upd[of i j "ms_allocmap m" T A] i3 that A(3) by (simp add: alloc_at_def fields)
  have at': "free_at T ?m = free_at T m" "defer_at T ?m = defer_at T m" by (simp_all add: map_sets fun_eq_iff fields)
  have loaded: "sm_loaded sm" using act(2) by (simp add: sm_active_def)
  have lg: "logged contents sm SM_FREE (ms_smo_syncing m) os = logged contents (ms_map m) SM_FREE (ms_smo_syncing m) os"
    using log_geometry_cong(1)[OF act(3)] load_start_geometry[OF act(3)] by simp
  have view: "view_of contents os T ?m = spec_alloc i ?R (view_of contents os T m)"
    using less_3_cases[OF i3] loaded act(1) R(3) by (auto simp: view_of_def spec_alloc_def Let_def at at' fields lg)
  have "ms_inv vd contents os T ?m"
  proof (rule ms_inv_change[OF inv fields(2,3,6,7)])
    show "sm_geometry (ms_map m) (ms_map ?m)" using act(3) by (simp add: fields)
    show "ms_side (ms_map m) (ms_allocmap ?m s)" if "s < 4" for s
      using i(2)[OF that] ms_side_same[OF side A(2,4)] by (simp add: fields)
    show "ms_side (ms_map m) (ms_freemap ?m s)" if "s < 4" for s using i(3)[OF that] by (simp add: fields)
    show "alloc_at T ?m 3 = {}" using at[of 3] i3 i(5) by simp
    show "view_ok (view_of contents os T ?m)" unfolding view by (rule spec_alloc_ok[OF i(13) i3]) (use R(2) av in simp)
    show "\<exists>t. sm_active t (ms_map ?m)" using act(2) by (auto simp: fields)
    show "ms_unloaded contents os T ?m" if "\<not> sm_loaded (ms_map ?m)" using that loaded by (simp add: fields)
  qed
  then show ?thesis using A(1) view by (intro exI[of _ A]) simp
qed

text \<open>A free.\<close>

lemma free_inv:
  assumes inv: "ms_inv vd contents os T m" and R: "sm_range (ms_map m) off size'" "in_use i (range_set off size') (view_of contents os T m)"
    and i3: "i < 3" and k: "kmem_fresh k"
  shows "\<exists>F. space_map_add k (ms_freemap m (slot_at T i)) off size' = Inr F \<and> ms_inv vd contents os T (set_freemap (slot_at T i) F m)
    \<and> view_of contents os T (set_freemap (slot_at T i) F m) = spec_free i (range_set off size') (view_of contents os T m)"
proof -
  note i = ms_invD[OF inv]
  let ?R = "range_set off size'" and ?F = "ms_freemap m (slot_at T i)"
  have side: "ms_side (ms_map m) ?F" using i(3) by simp
  have "free_at T m i \<in> set (v_free (view_of contents os T m))" using less_3_cases[OF i3] by (auto simp: view_of_def Let_def)
  then have disj: "sm_set ?F \<inter> ?R = {}" using R(2) by (auto simp: in_use_def free_at_def)
  have "sm_range ?F off size'" using R(1) side by (simp add: sm_range_def ms_side_def sm_geometry_def)
  then obtain F where F: "space_map_add k ?F off size' = Inr F" "sm_inv F" "sm_set F = sm_set ?F \<union> ?R" "sm_same ?F F"
    using space_map_add_inv[OF _ k _ disj] side by (auto simp: ms_side_def)
  let ?m = "set_freemap (slot_at T i) F m"
  have fields: "ms_map ?m = ms_map m" "ms_smo ?m = ms_smo m" "ms_smo_syncing ?m = ms_smo_syncing m" "ms_allocmap ?m = ms_allocmap m"
    "ms_freemap ?m = (ms_freemap m)(slot_at T i := F)" "ms_defermap ?m = ms_defermap m" "ms_deferspace ?m = ms_deferspace m"
    by (simp_all add: set_freemap_def)
  have at: "free_at T ?m j = (if i = j then free_at T m i \<union> ?R else free_at T m j)" if "j < 4" for j
    using slot_upd[of i j "ms_freemap m" T F] i3 that F(3) by (simp add: free_at_def fields)
  have at3: "free_at T ?m 3 = free_at T m 3" using at[of 3] i3 by simp
  have at': "alloc_at T ?m = alloc_at T m" "defer_at T ?m = defer_at T m" by (simp_all add: map_sets fun_eq_iff fields)
  have view: "view_of contents os T ?m = spec_free i ?R (view_of contents os T m)"
    using less_3_cases[OF i3] by (auto simp: view_of_def spec_free_def Let_def at at3 at' fields)
  have "ms_inv vd contents os T ?m"
  proof (rule ms_inv_change[OF inv fields(2,3,6,7)])
    show "sm_geometry (ms_map m) (ms_map ?m)" by (simp add: fields sm_geometry_def)
    show "ms_side (ms_map m) (ms_allocmap ?m s)" if "s < 4" for s using i(2)[OF that] by (simp add: fields)
    show "ms_side (ms_map m) (ms_freemap ?m s)" if "s < 4" for s
      using i(3)[OF that] ms_side_same[OF side F(2,4)] by (simp add: fields)
    show "alloc_at T ?m 3 = {}" using i(5) by (simp add: at')
    show "view_ok (view_of contents os T ?m)" unfolding view by (rule spec_free_ok[OF i(13) i3 R(2)])
    show "\<exists>t. sm_active t (ms_map ?m)" if "sm_loaded (ms_map ?m)" using i(11) that by (simp add: fields)
    show "ms_unloaded contents os T ?m" if "\<not> sm_loaded (ms_map ?m)"
      using i(12) that unfolding ms_unloaded_def Let_def fields at3 at' by blast
  qed
  then show ?thesis using F(1) view by (intro exI[of _ F]) simp
qed

text \<open>Giving back what was allocated in a transaction group that is still open.\<close>

lemma free_now_inv:
  assumes inv: "ms_inv vd contents os T m" and t: "sm_loaded (ms_map m) \<Longrightarrow> sm_active t (ms_map m)"
    and R: "sm_range (ms_map m) off size'" "range_set off size' \<subseteq> alloc_at T m i"
      "\<forall>F \<in> set (v_free (view_of contents os T m)). range_set off size' \<inter> F = {}"
    and i3: "i < 3" and k: "kmem_fresh k"
  shows "\<exists>A sm. space_map_remove k (ms_allocmap m (slot_at T i)) off size' = Inr A
    \<and> space_map_free k metaslab_ops (ms_map m) off size' = Inr sm \<and> sm_active t sm
    \<and> sm_geometry (ms_map m) sm \<and> ms_inv vd contents os T ((set_allocmap (slot_at T i) A m)\<lparr>ms_map := sm\<rparr>)
    \<and> view_of contents os T ((set_allocmap (slot_at T i) A m)\<lparr>ms_map := sm\<rparr>) = spec_free_now i (range_set off size') (view_of contents os T m)"
proof -
  note i = ms_invD[OF inv]
  let ?R = "range_set off size'" and ?A = "ms_allocmap m (slot_at T i)"
  have ne: "?R \<noteq> {}" using R(1) by (auto simp: sm_range_def unat_gt_0)
  have loaded: "sm_loaded (ms_map m)"
  proof (rule ccontr)
    assume "\<not> sm_loaded (ms_map m)"
    then have "alloc_at T m i = {}" using i(12) i3 by (simp add: ms_unloaded_def)
    then show False using R(2) ne by simp
  qed
  have side: "ms_side (ms_map m) ?A" using i(2) by simp
  have sub: "?R \<subseteq> sm_set ?A" using R(2) by (simp add: alloc_at_def)
  have "sm_range ?A off size'" using R(1) side by (simp add: sm_range_def ms_side_def sm_geometry_def)
  then obtain A where A: "space_map_remove k ?A off size' = Inr A" "sm_inv A" "sm_set A = sm_set ?A - ?R" "sm_same ?A A"
    using space_map_remove_inv[OF _ k _ sub] side by (auto simp: ms_side_def)
  have av: "v_avail (view_of contents os T m) = sm_set (ms_map m)" using loaded by (simp add: view_of_def Let_def)
  have "sm_set (ms_map m) \<inter> alloc_at T m i = {}" using view_of_sets(1)[OF i(13)] less_3_cases[OF i3] unfolding av by auto
  then have disj: "sm_set (ms_map m) \<inter> ?R = {}" using R(2) by auto
  obtain sm where sm: "space_map_free k metaslab_ops (ms_map m) off size' = Inr sm" "sm_active t sm"
    "sm_set sm = sm_set (ms_map m) \<union> ?R" "sm_geometry (ms_map m) sm"
    using sm_active_add[OF t[OF loaded] k R(1) disj] by blast
  let ?m = "(set_allocmap (slot_at T i) A m)\<lparr>ms_map := sm\<rparr>"
  have fields: "ms_map ?m = sm" "ms_smo ?m = ms_smo m" "ms_smo_syncing ?m = ms_smo_syncing m" "ms_freemap ?m = ms_freemap m"
    "ms_allocmap ?m = (ms_allocmap m)(slot_at T i := A)" "ms_defermap ?m = ms_defermap m" "ms_deferspace ?m = ms_deferspace m"
    by (simp_all add: set_allocmap_def)
  have at: "alloc_at T ?m j = (if i = j then alloc_at T m i - ?R else alloc_at T m j)" if "j < 4" for j
    using slot_upd[of i j "ms_allocmap m" T A] i3 that A(3) by (simp add: alloc_at_def fields)
  have at': "free_at T ?m = free_at T m" "defer_at T ?m = defer_at T m" by (simp_all add: map_sets fun_eq_iff fields)
  have ld: "sm_loaded sm" using sm(2) by (simp add: sm_active_def)
  have lg: "logged contents sm SM_FREE (ms_smo_syncing m) os = logged contents (ms_map m) SM_FREE (ms_smo_syncing m) os"
    using log_geometry_cong(1)[OF sm(4)] load_start_geometry[OF sm(4)] by simp
  have view: "view_of contents os T ?m = spec_free_now i ?R (view_of contents os T m)"
    using less_3_cases[OF i3] loaded ld sm(3) by (auto simp: view_of_def spec_free_now_def Let_def at at' fields lg)
  have vi: "?R \<subseteq> v_alloc (view_of contents os T m) ! i" using R(2) less_3_cases[OF i3] by (auto simp: view_of_def Let_def)
  have "ms_inv vd contents os T ?m"
  proof (rule ms_inv_change[OF inv fields(2,3,6,7)])
    show "sm_geometry (ms_map m) (ms_map ?m)" using sm(4) by (simp add: fields)
    show "ms_side (ms_map m) (ms_allocmap ?m s)" if "s < 4" for s
      using i(2)[OF that] ms_side_same[OF side A(2,4)] by (simp add: fields)
    show "ms_side (ms_map m) (ms_freemap ?m s)" if "s < 4" for s using i(3)[OF that] by (simp add: fields)
    show "alloc_at T ?m 3 = {}" using at[of 3] i3 i(5) by simp
    show "view_ok (view_of contents os T ?m)" unfolding view by (rule spec_free_now_ok[OF i(13) i3 vi R(3)])
    show "\<exists>t. sm_active t (ms_map ?m)" using sm(2) by (auto simp: fields)
    show "ms_unloaded contents os T ?m" if "\<not> sm_loaded (ms_map ?m)" using that ld by (simp add: fields)
  qed
  then show ?thesis using A(1) sm(1,2,4) view by (rule_tac exI[of _ A], rule_tac exI[of _ sm]) simp
qed

section \<open>Selecting a metaslab\<close>

lemma distance_returns:
  assumes "ms_group (p_ms p a) = Some mg"
  shows "\<exists>b. too_close p a target dvas = Inr b"
proof (induction dvas)
  case (Cons dva dvas)
  obtain x where "metaslab_distance p a dva = Inr x" using assms by (simp add: metaslab_distance_def Let_def)
  then show ?case using Cons by (cases "x < target") auto
qed (simp, blast)

lemma was_active_false: "(ucast (w AND METASLAB_ACTIVE_MASK) :: 32 word) = 0"
proof (rule bit_eqI)
  fix n
  assume "possible_bit TYPE(32 word) n"
  then have "n < 32" by (simp add: possible_bit_word)
  then show "bit (ucast (w AND METASLAB_ACTIVE_MASK) :: 32 word) n \<longleftrightarrow> bit (0 :: 32 word) n"
    by (simp add: bit_ucast_iff bit_and_iff bit_active_mask)
qed

lemma group_select_ok:
  assumes "avl_inv tr (ys @ zs)" "\<forall>a \<in> set zs. \<exists>mg. ms_group (p_ms p a) = Some mg"
  shows "\<exists>r. group_select p tr size' actw md dvas (hd_opt zs) = Some (Inr r)
    \<and> (case r of
         None \<Rightarrow> actw = METASLAB_WEIGHT_PRIMARY \<longrightarrow> (case zs of [] \<Rightarrow> True | a # _ \<Rightarrow> ms_weight (p_ms p a) < size')
       | Some (a, b) \<Rightarrow> a \<in> set zs \<and> size' \<le> ms_weight (p_ms p a) \<and> \<not> b)"
  using assms
proof (induction zs arbitrary: ys)
  case Nil
  then show ?case by (simp add: group_select.simps hd_opt_def)
next
  case (Cons a zs)
  note step = group_select.simps[of p tr size' actw md dvas "Some a"]
  show ?case
  proof (cases "ms_weight (p_ms p a) < size'")
    case True
    then show ?thesis unfolding hd_opt_def using step by simp
  next
    case light: False
    obtain mg where mg: "ms_group (p_ms p a) = Some mg" using Cons.prems(2) by auto
    let ?td = "md + (if smo_alloc (ms_smo (p_ms p a)) \<noteq> 0 then 0 else drop_bit 1 md)"
    obtain b where b: "too_close p a ?td dvas = Inr b" using distance_returns[of p a mg, OF mg] by blast
    have nx: "AVL_NEXT tr a = Inr (hd_opt zs)" using AVL_NEXT_inv[OF Cons.prems(1)] .
    have "avl_inv tr ((ys @ [a]) @ zs)" "\<forall>a \<in> set zs. \<exists>mg. ms_group (p_ms p a) = Some mg" using Cons.prems by simp_all
    then obtain r where r0: "group_select p tr size' actw md dvas (hd_opt zs) = Some (Inr r)"
      "case r of
         None \<Rightarrow> actw = METASLAB_WEIGHT_PRIMARY \<longrightarrow> (case zs of [] \<Rightarrow> True | a # _ \<Rightarrow> ms_weight (p_ms p a) < size')
       | Some (a, b) \<Rightarrow> a \<in> set zs \<and> size' \<le> ms_weight (p_ms p a) \<and> \<not> b"
      using Cons.IH by blast
    have "case r of None \<Rightarrow> True | Some (a, b) \<Rightarrow> a \<in> set zs \<and> size' \<le> ms_weight (p_ms p a) \<and> \<not> b"
      using r0(2) by (cases r) auto
    note r = r0(1) this
    show ?thesis
    proof (cases "actw = METASLAB_WEIGHT_PRIMARY \<or> \<not> b")
      case True
      then have "group_select p tr size' actw md dvas (Some a) = Some (Inr (Some (a, False)))"
        using step light b by (auto simp: Let_def was_active_false)
      then show ?thesis using light by (simp add: hd_opt_def not_less)
    next
      case False
      then have "group_select p tr size' actw md dvas (Some a) = Some (Inr r)"
        using step light b nx r(1) by (simp add: Let_def)
      then show ?thesis using False r(2) by (auto simp: hd_opt_def split: option.splits)
    qed
  qed
qed

text \<open>In a sorted group the first metaslab is the heaviest.\<close>

lemma first_heaviest:
  assumes "sorted_wrt (\<lambda>a b. metaslab_compare (key_at p a) (key_at p b) < 0) zs"
    and "case zs of [] \<Rightarrow> True | a # _ \<Rightarrow> ms_weight (p_ms p a) < size'" "a \<in> set zs"
  shows "ms_weight (p_ms p a) < size'"
  using assms by (cases zs) (auto simp: metaslab_compare_def ms_key_def split: if_splits)

section \<open>One turn of the search\<close>

text \<open>The group after part of the search: the space of every metaslab is what it was.\<close>

definition group_step :: "sm_ops_table \<Rightarrow> ('os \<Rightarrow> u64 \<Rightarrow> u64 list) \<Rightarrow> u64 \<Rightarrow> addr \<Rightarrow> addr set \<Rightarrow> 'os pool \<Rightarrow> 'os pool \<Rightarrow> bool" where
  "group_step t contents T mg ms p p' \<longleftrightarrow> group_ok t contents T mg ms p' \<and> p_os p' = p_os p \<and> pool_same p p'
     \<and> (\<forall>a \<in> ms. view_of contents (p_os p) T (p_ms p' a) = view_of contents (p_os p) T (p_ms p a) \<and> sm_geometry (ms_map (p_ms p a)) (ms_map (p_ms p' a)))
     \<and> (\<forall>a. a \<notin> ms \<longrightarrow> p_ms p' a = p_ms p a) \<and> p_vd p' = p_vd p \<and> smo_same p p'"

lemma group_step_refl: "group_ok t contents T mg ms p \<Longrightarrow> group_step t contents T mg ms p p"
  by (simp add: group_step_def sm_geometry_def smo_same_def)

lemma group_step_trans: "group_step t contents T mg ms p q \<Longrightarrow> group_step t contents T mg ms q r \<Longrightarrow> group_step t contents T mg ms p r"
  unfolding group_step_def by (auto simp: sm_geometry_def intro: pool_same_trans smo_same_trans)

lemma group_stepI:
  assumes "group_ok t contents T mg ms p'" "p_os p' = p_os p" "pool_same p p'" "p_ms p' = (p_ms p)(a := m)" "a \<in> ms"
    and "view_of contents (p_os p) T m = view_of contents (p_os p) T (p_ms p a)" "sm_geometry (ms_map (p_ms p a)) (ms_map m)" "p_vd p' = p_vd p" "ms_smo m = ms_smo (p_ms p a)" "ms_smo_syncing m = ms_smo_syncing (p_ms p a)"
  shows "group_step t contents T mg ms p p'"
  using assms smo_same_upd[OF assms(4,9,10)] by (auto simp: group_step_def sm_geometry_def)

text \<open>
  How much of the search is left: a metaslab that is too light will not be looked at again, and one that is active as a
  secondary may have to be looked at twice.
\<close>

definition rank :: "u64 \<Rightarrow> metaslab \<Rightarrow> nat" where
  "rank size' m = (if ms_weight m < size' then 0 else if ms_weight m AND METASLAB_WEIGHT_SECONDARY \<noteq> 0 then 2 else 1)"

lemma rank_sum:
  assumes "finite ms" "a \<in> ms" "f' = f(a := m)" "rank size' m < rank size' (f a)"
  shows "(\<Sum>x \<in> ms. rank size' (f' x)) < (\<Sum>x \<in> ms. rank size' (f x))"
  using assms by (intro sum_strict_mono_ex1) auto

lemma secondary_base:
  "((w :: u64) AND NOT METASLAB_ACTIVE_MASK) AND METASLAB_WEIGHT_SECONDARY = 0"
  by (rule bit_eqI) (auto simp: bit_simps METASLAB_ACTIVE_MASK_def)

text \<open>The weight of the metaslab tells of every free block of the size: one that holds such a block is heavy enough.\<close>

definition covers :: "('os \<Rightarrow> u64 \<Rightarrow> u64 list) \<Rightarrow> u64 \<Rightarrow> u64 \<Rightarrow> 'os pool \<Rightarrow> addr \<Rightarrow> bool" where
  "covers contents T size' p a \<longleftrightarrow> ((\<exists>off. range_set off size' \<subseteq> v_avail (view_of contents (p_os p) T (p_ms p a)))
     \<longrightarrow> size' \<le> ms_weight (p_ms p a) AND NOT METASLAB_ACTIVE_MASK)"

lemma covers_step:
  assumes "covers contents T size' p b" "p_os p' = p_os p" "p_ms p' = (p_ms p)(a := m)" "view_of contents (p_os p) T m = view_of contents (p_os p) T (p_ms p a)"
    and "ms_weight m AND NOT METASLAB_ACTIVE_MASK = ms_weight (p_ms p a) AND NOT METASLAB_ACTIVE_MASK
       \<or> (\<forall>off. \<not> range_set off size' \<subseteq> v_avail (view_of contents (p_os p) T (p_ms p a)))"
  shows "covers contents T size' p' b"
  using assms unfolding covers_def by (cases "b = a") auto

lemma covers_light:
  assumes "covers contents T size' p a" "ms_weight (p_ms p a) < size'"
  shows "\<not> range_set off size' \<subseteq> v_avail (view_of contents (p_os p) T (p_ms p a))"
  using assms base_bits(4)[of "ms_weight (p_ms p a)"] unfolding covers_def by (meson leD le_less_trans)

text \<open>The picker found nothing, so the longest free run is shorter than the request.\<close>

lemma no_room_maxsize:
  assumes t: "t \<noteq> metaslab_ff" and none: "\<forall>off. unat (ops_align t size') dvd unat off \<longrightarrow> \<not> range_set off size' \<subseteq> S"
    and m: "m \<noteq> 0 \<longrightarrow> (\<exists>off. sm_range sm off m \<and> range_set off m \<subseteq> S)" and z: "size' \<noteq> 0"
  shows "m < size'"
proof (rule ccontr)
  assume "\<not> m < size'"
  then have le: "unat size' \<le> unat m" by (simp add: word_le_nat_alt not_less)
  then have "m \<noteq> 0" using z by (metis le_zero_eq unat_0 unat_eq_zero)
  then obtain off where "range_set off m \<subseteq> S" using m by blast
  then have "range_set off size' \<subseteq> S" using le by auto
  moreover have "unat (ops_align t size') = 1" using t by (cases t) simp_all
  ultimately show False using none by (metis one_dvd)
qed

text \<open>What a successful turn gives: the block, taken out of the map of its metaslab.\<close>

definition found :: "sm_ops_table \<Rightarrow> ('os \<Rightarrow> u64 \<Rightarrow> u64 list) \<Rightarrow> u64 \<Rightarrow> addr \<Rightarrow> addr set \<Rightarrow> u64 \<Rightarrow> 'os pool \<Rightarrow> addr \<Rightarrow> u64 \<Rightarrow> 'os pool \<Rightarrow> bool" where
  "found t contents T mg ms size' p a off p' \<longleftrightarrow> (\<exists>p1 sm. group_step t contents T mg ms p p1 \<and> a \<in> ms \<and> off \<noteq> -1
     \<and> p' = upd_ms a (\<lambda>m. m\<lparr>ms_map := sm\<rparr>) p1 \<and> sm_active t (ms_map (p_ms p1 a)) \<and> sm_active t sm \<and> sm_geometry (ms_map (p_ms p1 a)) sm
     \<and> sm_range (ms_map (p_ms p1 a)) off size' \<and> range_set off size' \<subseteq> sm_set (ms_map (p_ms p1 a))
     \<and> sm_set sm = sm_set (ms_map (p_ms p1 a)) - range_set off size')"

lemma group_alloc_step_ok:
  assumes ok: "group_ok t contents T mg ms p" and k: "kmem_fresh (me_kernel env)" and dm: "dmu_appends (me_dmu env) contents"
    and t: "t \<noteq> metaslab_ff" and actw: "actw = METASLAB_WEIGHT_PRIMARY \<or> actw = METASLAB_WEIGHT_SECONDARY"
    and sz: "\<forall>a \<in> ms. size_ok (ms_map (p_ms p a)) size'" and fin: "finite ms"
  shows "\<exists>p' r. group_alloc_step env mg size' actw md dvas p = Inr (p', r)
    \<and> (case r of
         None \<Rightarrow> group_step t contents T mg ms p p' \<and> (\<Sum>x \<in> ms. rank size' (p_ms p' x)) < (\<Sum>x \<in> ms. rank size' (p_ms p x))
           \<and> (\<forall>b. covers contents T size' p b \<longrightarrow> covers contents T size' p' b)
       | Some None \<Rightarrow> p' = p \<and> (actw = METASLAB_WEIGHT_PRIMARY \<longrightarrow> (\<forall>a \<in> ms. ms_weight (p_ms p a) < size'))
       | Some (Some (a, off)) \<Rightarrow> found t contents T mg ms size' p a off p')"
proof -
  note g = group_okD[OF ok]
  obtain zs where zs: "avl_inv (mg_metaslab_tree (p_mg p mg)) zs" "set zs = ms"
    "sorted_wrt (\<lambda>a b. metaslab_compare (key_at p a) (key_at p b) < 0) zs" using mg_invD[OF g(1)] .
  have "\<forall>a \<in> set zs. \<exists>mg. ms_group (p_ms p a) = Some mg" using g(6) zs(2) by blast
  then obtain sel where sel: "group_select p (mg_metaslab_tree (p_mg p mg)) size' actw md dvas (hd_opt zs) = Some (Inr sel)"
    "case sel of
       None \<Rightarrow> actw = METASLAB_WEIGHT_PRIMARY \<longrightarrow> (case zs of [] \<Rightarrow> True | a # _ \<Rightarrow> ms_weight (p_ms p a) < size')
     | Some (a, b) \<Rightarrow> a \<in> set zs \<and> size' \<le> ms_weight (p_ms p a) \<and> \<not> b"
    using group_select_ok[of _ "[]" zs p size' actw md dvas] zs(1) by (auto simp del: list.case)
  have first: "avl_first (mg_metaslab_tree (p_mg p mg)) = Inr (hd_opt zs)" using avl_first_inv[OF zs(1)] .
  have start: "group_alloc_step env mg size' actw md dvas p = (case sel of
        None \<Rightarrow> Inr (p, Some None)
      | Some (msp, was_active) \<Rightarrow>
          let w = ms_weight (p_ms p msp)
          in
          if w < size' \<or> was_active \<and> w AND METASLAB_ACTIVE_MASK = 0 \<and> actw = METASLAB_WEIGHT_PRIMARY then Inr (p, None)
          else if w AND METASLAB_WEIGHT_SECONDARY \<noteq> 0 \<and> actw = METASLAB_WEIGHT_PRIMARY then
            rbind (metaslab_passivate msp (w AND NOT METASLAB_ACTIVE_MASK) p) (\<lambda>p. Inr (p, None))
          else
            rbind (metaslab_activate env msp actw size' p) (\<lambda>(p, error).
            if error \<noteq> 0 then Inr (p, None)
            else
              rbind (space_map_alloc (me_kernel env) metaslab_ops (ms_map (p_ms p msp)) size') (\<lambda>(sm, offset).
              let p = upd_ms msp (\<lambda>m. m\<lparr>ms_map := sm\<rparr>) p
              in
              if offset \<noteq> -1 then Inr (p, Some (Some (msp, offset)))
              else
                rbind (space_map_maxsize metaslab_ops (ms_map (p_ms p msp))) (\<lambda>maxsize.
                rbind (metaslab_passivate msp maxsize p) (\<lambda>p. Inr (p, None))))))"
    unfolding group_alloc_step_def Let_def first rbind.simps sel(1) of_loop_def option.rec id_apply ..
  show ?thesis
  proof (cases sel)
    case None
    then show ?thesis using start sel(2) first_heaviest[OF zs(3)] zs(2) by (intro exI[of _ p] exI[of _ "Some None"]) simp
  next
    case (Some ab)
    then obtain a where a: "sel = Some (a, False)" "a \<in> ms" "size' \<le> ms_weight (p_ms p a)" using sel(2) zs(2) by (cases ab) auto
    let ?w = "ms_weight (p_ms p a)" and ?b = "ms_weight (p_ms p a) AND NOT METASLAB_ACTIVE_MASK"
    have nl: "\<not> ?w < size'" using a(3) by (simp add: not_less)
    have z: "size' \<noteq> 0" using sz a(2) by (auto simp: size_ok_def size_room_def)
    note wok = g(4)[OF a(2)]
    show ?thesis
    proof (cases "?w AND METASLAB_WEIGHT_SECONDARY \<noteq> 0 \<and> actw = METASLAB_WEIGHT_PRIMARY")
      case True
      have "?w AND METASLAB_ACTIVE_MASK \<noteq> 0"
      proof
        assume "?w AND METASLAB_ACTIVE_MASK = 0"
        then have "?b = ?w" by (rule base_bits(3))
        then show False using True secondary_base[of ?w] by simp
      qed
      then have "512 \<le> unat ?b \<or> ?b = 0 \<and> sm_set (ms_map (p_ms p a)) = {}" using wok by (auto simp: weigh_ok_def Let_def)
      then obtain p' where p': "metaslab_passivate a ?b p = Inr p'" "group_ok t contents T mg ms p'" "p_os p' = p_os p" "pool_same p p'"
        "p_ms p' = (p_ms p)(a := set_weight (min ?w ?b) (p_ms p a))" "p_vd p' = p_vd p"
        using metaslab_passivate_ok[OF ok a(2) _ base_bits(1)] by blast
      have "min ?w ?b = ?b" using base_bits(4)[of ?w] by (simp add: min_def)
      then have "rank size' (set_weight (min ?w ?b) (p_ms p a)) < rank size' (p_ms p a)"
        using True nl secondary_base[of ?w] by (simp add: rank_def)
      then have "(\<Sum>x \<in> ms. rank size' (p_ms p' x)) < (\<Sum>x \<in> ms. rank size' (p_ms p x))" using rank_sum[OF fin a(2) p'(5)] by blast
      moreover have "group_step t contents T mg ms p p'"
        by (rule group_stepI[OF p'(2-5) a(2)]) (simp_all add: sm_geometry_def p'(6))
      moreover have "covers contents T size' p' b" if "covers contents T size' p b" for b
        by (rule covers_step[OF that p'(3,5)]) (simp_all add: \<open>min ?w ?b = ?b\<close>)
      ultimately show ?thesis using start a(1) nl True p'(1) by (intro exI[of _ p'] exI[of _ None]) (simp add: Let_def)
    next
      case False
      have base: "v_avail (view_of contents (p_os p) T (p_ms p a)) = {} \<and> (\<forall>t < 4. sm_set (ms_allocmap (p_ms p a) t) = {})" if "?b = 0"
      proof (cases "?w AND METASLAB_ACTIVE_MASK = 0")
        case True
        then have "?w = 0" using that base_bits(3)[OF True] by simp
        then show ?thesis using a(3) z by (simp add: word_le_nat_alt unat_eq_zero)
      next
        case False
        then show ?thesis using that wok by (auto simp: weigh_ok_def view_of_def Let_def)
      qed
      obtain p1 m1 where p1: "metaslab_activate env a actw size' p = Inr (p1, 0)" "p_ms p1 = (p_ms p)(a := m1)" "group_ok t contents T mg ms p1"
        "p_os p1 = p_os p" "pool_same p p1" "sm_active t (ms_map m1)" "view_of contents (p_os p) T m1 = view_of contents (p_os p) T (p_ms p a)"
        "ms_weight m1 = (if ?w AND METASLAB_ACTIVE_MASK = 0 then ?w OR actw else ?w)" "sm_geometry (ms_map (p_ms p a)) (ms_map m1)"
        "p_vd p1 = p_vd p" "ms_smo m1 = ms_smo (p_ms p a)" "ms_smo_syncing m1 = ms_smo_syncing (p_ms p a)"
        using metaslab_activate_ok[OF ok a(2) k dm actw a(3) base] by blast
      have step1: "group_step t contents T mg ms p p1" by (rule group_stepI[OF p1(3-5,2) a(2) p1(7,9-12)])
      have m1: "p_ms p1 a = m1" using p1(2) by simp
      have "size_ok (ms_map m1) size'" using sz a(2) sm_active_geometry_cong(2)[OF p1(9)] by blast
      then show ?thesis
      proof (rule sm_active_alloc[OF p1(6) _ k])
        fix sm off
        assume al: "space_map_alloc (me_kernel env) metaslab_ops (ms_map m1) size' = Inr (sm, off)" "off \<noteq> -1" "sm_active t sm"
          "sm_geometry (ms_map m1) sm" "sm_range (ms_map m1) off size'" "range_set off size' \<subseteq> sm_set (ms_map m1)"
          "sm_set sm = sm_set (ms_map m1) - range_set off size'"
        let ?p2 = "upd_ms a (\<lambda>m. m\<lparr>ms_map := sm\<rparr>) p1"
        have "group_alloc_step env mg size' actw md dvas p = Inr (?p2, Some (Some (a, off)))"
          using start a(1) nl False p1(1) al(1,2) m1 by (simp add: Let_def)
        moreover have "found t contents T mg ms size' p a off ?p2"
          unfolding found_def by (rule exI[of _ p1], rule exI[of _ sm]) (use step1 al p1(6) a(2) in \<open>simp add: m1\<close>)
        ultimately show ?thesis by (intro exI[of _ ?p2] exI[of _ "Some (Some (a, off))"]) simp
      next
        fix sm
        assume al: "space_map_alloc (me_kernel env) metaslab_ops (ms_map m1) size' = Inr (sm, -1)" "sm_active t sm" "sm_geometry (ms_map m1) sm"
          "sm_set sm = sm_set (ms_map m1)" "\<forall>off. unat (ops_align t size') dvd unat off \<longrightarrow> \<not> range_set off size' \<subseteq> sm_set (ms_map m1)"
        let ?p2 = "upd_ms a (\<lambda>m. m\<lparr>ms_map := sm\<rparr>) p1" and ?m2 = "m1\<lparr>ms_map := sm\<rparr>"
        have m2: "p_ms ?p2 = (p_ms p1)(a := ?m2)" using m1 by simp
        have av: "sm_set sm = v_avail (view_of contents (p_os p1) T m1)" using al(4) p1(6) by (simp add: view_of_def Let_def sm_active_def)
        note g1 = group_okD[OF p1(3)]
        note l = ms_inv_load[OF g1(3)[OF a(2), unfolded m1] al(2,3) av]
        have "mg_inv ?p2 mg ms"
          by (rule mg_inv_cong[OF g1(1)]) (use al(3) m1 in \<open>auto simp: ms_key_def sm_geometry_def\<close>)
        moreover have "weigh_ok ?m2" using g1(4)[OF a(2)] al(2,4) unfolding m1 by (simp add: weigh_ok_def Let_def sm_active_def)
        ultimately have ok2: "group_ok t contents T mg ms ?p2"
          by (intro group_okI[OF p1(3) a(2) m2]) (use l(1) al(2) in simp_all)
        have step2: "group_step t contents T mg ms p1 ?p2"
          by (rule group_stepI[OF ok2 _ _ m2 a(2)]) (use l(2) al(3) m1 in simp_all)
        obtain mx where mx: "space_map_maxsize metaslab_ops sm = Inr mx" "mx = 0 \<longleftrightarrow> sm_set sm = {}" "2 ^ unat (sm_shift sm) dvd unat mx"
          "mx \<noteq> 0 \<longrightarrow> (\<exists>off. sm_range sm off mx \<and> range_set off mx \<subseteq> sm_set sm)" using sm_active_maxsize[OF al(2)] by metis
        have less: "mx < size'" by (rule no_room_maxsize[OF t al(5)]) (use mx(4) al(4) z in auto)
        have "512 \<le> unat mx" if "mx \<noteq> 0"
        proof -
          have "9 \<le> unat (sm_shift sm)" using ms_invD(1)[OF l(1)] by (simp add: ms_place_def Let_def)
          then have "(2 :: nat) ^ 9 \<le> 2 ^ unat (sm_shift sm)" by (rule power_increasing) simp
          also have "\<dots> \<le> unat mx" using mx(3) that by (intro dvd_imp_le) (simp_all add: unat_gt_0)
          finally show ?thesis by simp
        qed
        then have big: "512 \<le> unat mx \<or> mx = 0 \<and> sm_set (ms_map (p_ms ?p2 a)) = {}" using mx(2) by auto
        have "unat size' \<le> 10485760" using sz a(2) min_alloc_nat by (auto simp: size_ok_def size_room_def)
        then have low: "unat mx < 2 ^ 62" using less by (simp add: word_less_nat_alt)
        obtain p3 where p3: "metaslab_passivate a mx ?p2 = Inr p3" "group_ok t contents T mg ms p3" "p_os p3 = p_os ?p2" "pool_same ?p2 p3"
          "p_ms p3 = (p_ms ?p2)(a := set_weight (min (ms_weight (p_ms ?p2 a)) mx) (p_ms ?p2 a))" "p_vd p3 = p_vd ?p2"
          using metaslab_passivate_ok[OF ok2 a(2) big low] by blast
        have "group_step t contents T mg ms ?p2 p3" by (rule group_stepI[OF p3(2-5) a(2)]) (simp_all add: sm_geometry_def p3(6))
        then have "group_step t contents T mg ms p p3" using group_step_trans[OF step1 group_step_trans[OF step2]] by blast
        moreover have "min (ms_weight (p_ms ?p2 a)) mx < size'" using less by (simp add: min_less_iff_disj)
        then have "rank size' (set_weight (min (ms_weight (p_ms ?p2 a)) mx) (p_ms ?p2 a)) < rank size' (p_ms p a)"
          using nl by (simp add: rank_def del: upd_simps)
        then have "(\<Sum>x \<in> ms. rank size' (p_ms p3 x)) < (\<Sum>x \<in> ms. rank size' (p_ms p x))"
          by (rule rank_sum[OF fin a(2), rotated]) (simp add: p3(5) p1(2) fun_eq_iff)
        moreover have "covers contents T size' p3 b" if "covers contents T size' p b" for b
        proof (rule covers_step[OF that])
          have "unat (ops_align t size') = 1" using t by (cases t) simp_all
          moreover have "sm_set (ms_map m1) = v_avail (view_of contents (p_os p) T (p_ms p a))" using p1(6,7) av al(4) p1(4) by simp
          ultimately show "ms_weight (p_ms p3 a) AND NOT METASLAB_ACTIVE_MASK = ms_weight (p_ms p a) AND NOT METASLAB_ACTIVE_MASK
              \<or> (\<forall>off. \<not> range_set off size' \<subseteq> v_avail (view_of contents (p_os p) T (p_ms p a)))" using al(5) by simp
          show "p_os p3 = p_os p" "p_ms p3 = (p_ms p)(a := p_ms p3 a)" using p3(3,5) p1(2,4) by (simp_all add: fun_eq_iff)
          show "view_of contents (p_os p) T (p_ms p3 a) = view_of contents (p_os p) T (p_ms p a)"
            using \<open>group_step t contents T mg ms p p3\<close> a(2) unfolding group_step_def by blast
        qed
        moreover have "group_alloc_step env mg size' actw md dvas p = Inr (p3, None)"
          using start a(1) nl False p1(1) al(1) m1 mx(1) p3(1) by (simp add: Let_def)
        ultimately show ?thesis by (intro exI[of _ p3] exI[of _ None]) simp
      qed
    qed
  qed
qed

section \<open>The search ends\<close>

lemma group_alloc_loop_ok:
  assumes k: "kmem_fresh (me_kernel env)" and dm: "dmu_appends (me_dmu env) contents" and t: "t \<noteq> metaslab_ff"
    and actw: "actw = METASLAB_WEIGHT_PRIMARY \<or> actw = METASLAB_WEIGHT_SECONDARY" and fin: "finite ms"
    and "group_ok t contents T mg ms p" "\<forall>a \<in> ms. size_ok (ms_map (p_ms p a)) size'"
  shows "\<exists>p' r. group_alloc_loop env mg size' actw md dvas p = Some (Inr (p', r))
    \<and> (case r of
         None \<Rightarrow> group_step t contents T mg ms p p' \<and> (actw = METASLAB_WEIGHT_PRIMARY \<longrightarrow> (\<forall>a \<in> ms. ms_weight (p_ms p' a) < size'))
           \<and> (\<forall>b. covers contents T size' p b \<longrightarrow> covers contents T size' p' b)
       | Some (a, off) \<Rightarrow> found t contents T mg ms size' p a off p')"
  using assms(6,7)
proof (induction "\<Sum>x \<in> ms. rank size' (p_ms p x)" arbitrary: p rule: less_induct)
  case less
  obtain p' r where step: "group_alloc_step env mg size' actw md dvas p = Inr (p', r)"
    "case r of
         None \<Rightarrow> group_step t contents T mg ms p p' \<and> (\<Sum>x \<in> ms. rank size' (p_ms p' x)) < (\<Sum>x \<in> ms. rank size' (p_ms p x))
           \<and> (\<forall>b. covers contents T size' p b \<longrightarrow> covers contents T size' p' b)
       | Some None \<Rightarrow> p' = p \<and> (actw = METASLAB_WEIGHT_PRIMARY \<longrightarrow> (\<forall>a \<in> ms. ms_weight (p_ms p a) < size'))
       | Some (Some (a, off)) \<Rightarrow> found t contents T mg ms size' p a off p'"
    using group_alloc_step_ok[OF less.prems(1) k dm t actw less.prems(2) fin] by blast
  note unf = group_alloc_loop.simps[of env mg size' actw md dvas p]
  show ?case
  proof (cases r)
    case None
    have go: "group_step t contents T mg ms p p'" "(\<Sum>x \<in> ms. rank size' (p_ms p' x)) < (\<Sum>x \<in> ms. rank size' (p_ms p x))"
      "\<forall>b. covers contents T size' p b \<longrightarrow> covers contents T size' p' b"
      using step(2) None by auto
    have sz': "\<forall>a \<in> ms. size_ok (ms_map (p_ms p' a)) size'"
      using less.prems(2) go(1) sm_active_geometry_cong(2) unfolding group_step_def by blast
    have ok': "group_ok t contents T mg ms p'" using go(1) by (simp add: group_step_def)
    obtain p2 r2 where r2: "group_alloc_loop env mg size' actw md dvas p' = Some (Inr (p2, r2))"
      "case r2 of
         None \<Rightarrow> group_step t contents T mg ms p' p2 \<and> (actw = METASLAB_WEIGHT_PRIMARY \<longrightarrow> (\<forall>a \<in> ms. ms_weight (p_ms p2 a) < size'))
           \<and> (\<forall>b. covers contents T size' p' b \<longrightarrow> covers contents T size' p2 b)
       | Some (a, off) \<Rightarrow> found t contents T mg ms size' p' a off p2"
      using less.hyps[OF go(2) ok' sz'] by blast
    have "found t contents T mg ms size' p a off p2" if "found t contents T mg ms size' p' a off p2" for a off
      using that group_step_trans[OF go(1)] unfolding found_def by blast
    then have "case r2 of
         None \<Rightarrow> group_step t contents T mg ms p p2 \<and> (actw = METASLAB_WEIGHT_PRIMARY \<longrightarrow> (\<forall>a \<in> ms. ms_weight (p_ms p2 a) < size'))
           \<and> (\<forall>b. covers contents T size' p b \<longrightarrow> covers contents T size' p2 b)
       | Some (a, off) \<Rightarrow> found t contents T mg ms size' p a off p2"
      using r2(2) go(3) group_step_trans[OF go(1)] by (cases r2) auto
    then show ?thesis using unf step(1) None r2(1) by (intro exI[of _ p2] exI[of _ r2]) simp
  next
    case (Some r')
    have "case r' of
         None \<Rightarrow> group_step t contents T mg ms p p' \<and> (actw = METASLAB_WEIGHT_PRIMARY \<longrightarrow> (\<forall>a \<in> ms. ms_weight (p_ms p' a) < size'))
           \<and> (\<forall>b. covers contents T size' p b \<longrightarrow> covers contents T size' p' b)
       | Some (a, off) \<Rightarrow> found t contents T mg ms size' p a off p'"
      using step(2) Some group_step_refl[OF less.prems(1)] by (cases r') auto
    then show ?thesis using unf step(1) Some by (intro exI[of _ p'] exI[of _ r']) simp
  qed
qed

lemma group_ok_same:
  assumes ok: "group_ok t contents T mg ms p" and p': "p_ms p' = p_ms p" "p_mg p' = p_mg p" "p_os p' = p_os p" "pool_same p p'"
  shows "group_ok t contents T mg ms p'"
proof -
  have vd: "vd_same (p_vd p x) (p_vd p' x)" for x using pool_sameD(4)[OF p'(4)] .
  have mc: "mc_ops (p_mc p' x) = mc_ops (p_mc p x)" for x using p'(4) by (simp add: pool_same_def)
  have "mg_inv p' mg ms" by (rule mg_inv_cong[OF group_okD(1)[OF ok]]) (simp_all add: p')
  then show ?thesis unfolding group_ok_def p'(1-3) mc ms_inv_same[OF vd] using group_okD(2-5)[OF ok] by blast
qed

text \<open>Marking a metaslab dirty unless it is already.\<close>

lemma dirty_unless:
  assumes ok: "group_ok t contents T mg ms p" and hole: "\<not> vdev_ishole (node_of (p_vd p vd))"
  shows "\<exists>p'. (if c then pool_dirty vd VDD_METASLAB msp txg p else Inr p) = Inr p' \<and> group_ok t contents T mg ms p'
    \<and> p_ms p' = p_ms p \<and> p_mg p' = p_mg p \<and> p_os p' = p_os p \<and> pool_same p p'
    \<and> (if c then listed vd msp txg p p' else p_vd p' = p_vd p)"
proof (cases c)
  case True
  obtain p' where "pool_dirty vd VDD_METASLAB msp txg p = Inr p'" "pool_same p p'" "p_ms p' = p_ms p" "p_mg p' = p_mg p" "p_os p' = p_os p"
    "listed vd msp txg p p'" using pool_dirty_same[OF hole] by blast
  then show ?thesis using True group_ok_same[OF ok] by (intro exI[of _ p']) simp
qed (use ok in simp)

lemma group_finite: "group_ok t contents T mg ms p \<Longrightarrow> finite ms"
  using mg_invD[OF group_okD(1)] by (metis List.finite_set)

lemma alloc_found:
  assumes f: "found t contents T mg ms size' p a off p1" and k: "kmem_fresh (me_kernel env)" and i3: "i < 3"
    and hole: "\<not> vdev_ishole (node_of (p_vd p vd))"
  shows "\<exists>p'. alloc_dirty env vd a (T + of_nat i) off size' p1 = Inr p' \<and> group_ok t contents T mg ms p' \<and> p_os p' = p_os p \<and> pool_same p p'
    \<and> (\<forall>b. b \<notin> ms \<longrightarrow> p_ms p' b = p_ms p b) \<and> sm_range (ms_map (p_ms p a)) off size'
    \<and> range_set off size' \<subseteq> v_avail (view_of contents (p_os p) T (p_ms p a))
    \<and> (\<forall>b \<in> ms. view_of contents (p_os p) T (p_ms p' b)
         = (if b = a then spec_alloc i (range_set off size') else id) (view_of contents (p_os p) T (p_ms p b)))
    \<and> (listed vd a (T + of_nat i) p p' \<or> p_vd p' = p_vd p \<and> alloc_at T (p_ms p a) i \<noteq> {}) \<and> smo_same p p'"
proof -
  obtain p0 sm where p0: "group_step t contents T mg ms p p0" "a \<in> ms" "p1 = upd_ms a (\<lambda>m. m\<lparr>ms_map := sm\<rparr>) p0"
    and act: "sm_active t (ms_map (p_ms p0 a))" "sm_active t sm" "sm_geometry (ms_map (p_ms p0 a)) sm"
    and R: "sm_range (ms_map (p_ms p0 a)) off size'" "range_set off size' \<subseteq> sm_set (ms_map (p_ms p0 a))"
      "sm_set sm = sm_set (ms_map (p_ms p0 a)) - range_set off size'"
    using f unfolding found_def by blast
  let ?m = "p_ms p0 a" and ?s = "slot_at T i" and ?R = "range_set off size'"
  have s0: "group_ok t contents T mg ms p0" "p_os p0 = p_os p" "pool_same p p0"
    "\<And>b. b \<in> ms \<Longrightarrow> view_of contents (p_os p) T (p_ms p0 b) = view_of contents (p_os p) T (p_ms p b)"
    "\<And>b. b \<notin> ms \<Longrightarrow> p_ms p0 b = p_ms p b" "sm_geometry (ms_map (p_ms p a)) (ms_map ?m)" "p_vd p0 = p_vd p" "smo_same p p0"
    using p0(1,2) unfolding group_step_def by blast+
  have loaded: "sm_loaded (ms_map ?m)" "sm_loaded sm" using act(1,2) by (simp_all add: sm_active_def)
  have inv: "ms_inv (p_vd p0 (mg_vd (p_mg p0 mg))) contents (p_os p0) T ?m" using group_okD(3)[OF s0(1) p0(2)] .
  obtain A where A: "space_map_add (me_kernel env) (ms_allocmap ?m ?s) off size' = Inr A"
    "ms_inv (p_vd p0 (mg_vd (p_mg p0 mg))) contents (p_os p0) T (set_allocmap ?s A (?m\<lparr>ms_map := sm\<rparr>))"
    "view_of contents (p_os p0) T (set_allocmap ?s A (?m\<lparr>ms_map := sm\<rparr>)) = spec_alloc i ?R (view_of contents (p_os p0) T ?m)"
    using alloc_inv[OF inv loaded(1) act(2,3) R i3 k] by blast
  let ?m' = "set_allocmap ?s A (?m\<lparr>ms_map := sm\<rparr>)"
  have hole1: "\<not> vdev_ishole (node_of (p_vd p1 vd))" using hole pool_sameD(1)[OF s0(3)] p0(3) by simp
  obtain p2 where p2: "(if sm_space (ms_allocmap (p_ms p1 a) ?s) = 0 then pool_dirty vd VDD_METASLAB a (T + of_nat i) p1 else Inr p1) = Inr p2"
    "p_ms p2 = p_ms p1" "p_mg p2 = p_mg p1" "p_os p2 = p_os p1" "pool_same p1 p2"
    "if sm_space (ms_allocmap (p_ms p1 a) ?s) = 0 then listed vd a (T + of_nat i) p1 p2 else p_vd p2 = p_vd p1"
    using pool_dirty_same[OF hole1, of a "T + of_nat i"] by (cases "sm_space (ms_allocmap (p_ms p1 a) ?s) = 0") auto
  let ?p3 = "upd_ms a (set_allocmap ?s A) p2"
  have m3: "p_ms ?p3 = (p_ms p0)(a := ?m')" by (simp add: p2(2) p0(3))
  have same: "pool_same p0 ?p3"
    using pool_same_trans[OF _ pool_same_trans[OF p2(5) pool_same_upd(1)], of p0] p0(3) by simp
  have run: "alloc_dirty env vd a (T + of_nat i) off size' p1 = Inr ?p3"
    using p2(1) A(1) unfolding alloc_dirty_def TXG_IDX_slot Let_def by (simp add: p2(2) p0(3))
  have "mg_inv ?p3 mg ms"
    by (rule mg_inv_cong[OF group_okD(1)[OF s0(1)]])
      (use act(3) in \<open>simp_all add: p2(2,3) p0(3) ms_key_def sm_geometry_def set_allocmap_def\<close>)
  moreover have "?R \<noteq> {}" using R(1) by (auto simp: sm_range_def unat_gt_0)
  then have "sm_set (ms_map ?m) \<noteq> {}" using R(2) by blast
  then have "weigh_ok ?m'" using group_okD(4)[OF s0(1) p0(2)] loaded by (auto simp: weigh_ok_def Let_def set_allocmap_def)
  ultimately have ok3: "group_ok t contents T mg ms ?p3"
    by (intro group_okI[OF s0(1) p0(2) m3 _ same]) (use A(2) act(2) in \<open>simp_all add: p2(4) p0(3) set_allocmap_def\<close>)
  have "range_set off size' \<subseteq> v_avail (view_of contents (p_os p) T ?m)" using R(2) loaded(1) by (simp add: view_of_def Let_def)
  then have R': "range_set off size' \<subseteq> v_avail (view_of contents (p_os p) T (p_ms p a))" using s0(4)[OF p0(2)] by simp
  have rng: "sm_range (ms_map (p_ms p a)) off size'" using R(1) sm_active_geometry_cong(1)[OF s0(6)] by simp
  have v: "view_of contents (p_os p) T (p_ms ?p3 b)
       = (if b = a then spec_alloc i ?R else id) (view_of contents (p_os p) T (p_ms p b))" if "b \<in> ms" for b
    using A(3) s0(2) s0(4)[OF that] unfolding m3 by auto
  have frame: "p_ms ?p3 b = p_ms p b" if "b \<notin> ms" for b using s0(5)[OF that] that p0(2) unfolding m3 by auto
  have "alloc_at T ?m i = alloc_at T (p_ms p a) i"
    using arg_cong[OF s0(4)[OF p0(2)], of v_alloc] less_3_cases[OF i3] by (auto simp: view_of_def Let_def)
  moreover have "sm_space (ms_allocmap ?m ?s) = 0" if "alloc_at T ?m i = {}"
    using that ms_invD(2)[OF inv, of ?s] sm_inv_empty_space by (simp add: alloc_at_def ms_side_def)
  ultimately have al0: "sm_space (ms_allocmap (p_ms p1 a) ?s) = 0" if "alloc_at T (p_ms p a) i = {}"
    using that p0(3) by simp
  have "listed vd a (T + of_nat i) p ?p3 \<or> p_vd ?p3 = p_vd p \<and> alloc_at T (p_ms p a) i \<noteq> {}"
  proof (cases "sm_space (ms_allocmap (p_ms p1 a) ?s) = 0")
    case True
    then have "listed vd a (T + of_nat i) p1 p2" using p2(6) by simp
    then show ?thesis using p0(3) s0(7) by (simp add: listed_def)
  next
    case False
    then have "p_vd p2 = p_vd p1" using p2(6) by simp
    then show ?thesis using al0 False p0(3) s0(7) by auto
  qed
  moreover have "smo_same p ?p3" by (rule smo_same_trans[OF s0(8) smo_same_upd[OF m3]]) (simp_all add: set_allocmap_def)
  moreover have "p_os ?p3 = p_os p" by (simp add: p2(4) p0(3) s0(2))
  ultimately show ?thesis using run ok3 pool_same_trans[OF s0(3) same] frame rng R' v by blast
qed

lemma metaslab_group_alloc_ok:
  assumes ok: "group_ok t contents T mg ms p" and k: "kmem_fresh (me_kernel env)" and dm: "dmu_appends (me_dmu env) contents"
    and t: "t \<noteq> metaslab_ff" and sz: "\<forall>a \<in> ms. size_ok (ms_map (p_ms p a)) size'" and i3: "i < 3"
    and hole: "\<not> vdev_ishole (node_of (p_vd p (mg_vd (p_mg p mg))))"
  shows "\<exists>p' off. metaslab_group_alloc env mg size' (T + of_nat i) md dva d p = Inr (p', off)
    \<and> group_ok t contents T mg ms p' \<and> p_os p' = p_os p \<and> pool_same p p' \<and> (\<forall>b. b \<notin> ms \<longrightarrow> p_ms p' b = p_ms p b) \<and> smo_same p p'
    \<and> (if off = -1
       then (\<forall>a \<in> ms. view_of contents (p_os p) T (p_ms p' a) = view_of contents (p_os p) T (p_ms p a))
          \<and> (d = 0 \<longrightarrow> (\<forall>a \<in> ms. ms_weight (p_ms p' a) < size')) \<and> p_vd p' = p_vd p
          \<and> (d = 0 \<longrightarrow> (\<forall>a \<in> ms. covers contents T size' p a \<longrightarrow> (\<forall>off. \<not> range_set off size' \<subseteq> v_avail (view_of contents (p_os p) T (p_ms p a)))))
       else \<exists>a \<in> ms. sm_range (ms_map (p_ms p a)) off size' \<and> range_set off size' \<subseteq> v_avail (view_of contents (p_os p) T (p_ms p a))
          \<and> (\<forall>b \<in> ms. view_of contents (p_os p) T (p_ms p' b)
               = (if b = a then spec_alloc i (range_set off size') else id) (view_of contents (p_os p) T (p_ms p b)))
          \<and> (listed (mg_vd (p_mg p mg)) a (T + of_nat i) p p' \<or> p_vd p' = p_vd p \<and> alloc_at T (p_ms p a) i \<noteq> {}))"
proof -
  let ?aw = "activation_weight_of p mg (take d dva)"
  have aw: "?aw = METASLAB_WEIGHT_PRIMARY \<or> ?aw = METASLAB_WEIGHT_SECONDARY" by (simp add: activation_weight_of_def)
  have aw0: "d = 0 \<longrightarrow> ?aw = METASLAB_WEIGHT_PRIMARY" by (simp add: activation_weight_of_def)
  obtain p1 r where r: "group_alloc_loop env mg size' ?aw md (take d dva) p = Some (Inr (p1, r))"
    "case r of
         None \<Rightarrow> group_step t contents T mg ms p p1 \<and> (?aw = METASLAB_WEIGHT_PRIMARY \<longrightarrow> (\<forall>a \<in> ms. ms_weight (p_ms p1 a) < size'))
           \<and> (\<forall>b. covers contents T size' p b \<longrightarrow> covers contents T size' p1 b)
       | Some (a, off) \<Rightarrow> found t contents T mg ms size' p a off p1"
    using group_alloc_loop_ok[OF k dm t aw group_finite[OF ok] ok sz] by blast
  show ?thesis
  proof (cases r)
    case None
    then have "metaslab_group_alloc env mg size' (T + of_nat i) md dva d p = Inr (p1, -1)"
      using r(1) by (simp add: metaslab_group_alloc_def Let_def)
    moreover have s: "group_step t contents T mg ms p p1" "d = 0 \<longrightarrow> (\<forall>a \<in> ms. ms_weight (p_ms p1 a) < size')"
      "\<forall>b. covers contents T size' p b \<longrightarrow> covers contents T size' p1 b"
      using r(2) None aw0 by auto
    moreover have "\<not> range_set off size' \<subseteq> v_avail (view_of contents (p_os p) T (p_ms p a))" if "d = 0" "a \<in> ms" "covers contents T size' p a" for a off
    proof -
      have "\<not> range_set off size' \<subseteq> v_avail (view_of contents (p_os p1) T (p_ms p1 a))"
        by (rule covers_light) (use s(2,3) that in blast)+
      then show ?thesis using s(1) that(2) unfolding group_step_def by simp
    qed
    ultimately show ?thesis unfolding group_step_def by (intro exI[of _ p1] exI[of _ "-1"]) simp
  next
    case (Some ao)
    then obtain a off where ao: "r = Some (a, off)" "found t contents T mg ms size' p a off p1" using r(2) by (cases ao) auto
    have off: "off \<noteq> -1" "a \<in> ms" and mgvd: "mg_vd (p_mg p1 mg) = mg_vd (p_mg p mg)"
      using ao(2) pool_sameD(3) unfolding found_def group_step_def by auto
    obtain p' where p': "alloc_dirty env (mg_vd (p_mg p mg)) a (T + of_nat i) off size' p1 = Inr p'" "group_ok t contents T mg ms p'" "p_os p' = p_os p"
      "pool_same p p'" "\<forall>b. b \<notin> ms \<longrightarrow> p_ms p' b = p_ms p b" "sm_range (ms_map (p_ms p a)) off size'"
      "range_set off size' \<subseteq> v_avail (view_of contents (p_os p) T (p_ms p a))"
      "\<forall>b \<in> ms. view_of contents (p_os p) T (p_ms p' b)
         = (if b = a then spec_alloc i (range_set off size') else id) (view_of contents (p_os p) T (p_ms p b))"
      "listed (mg_vd (p_mg p mg)) a (T + of_nat i) p p' \<or> p_vd p' = p_vd p \<and> alloc_at T (p_ms p a) i \<noteq> {}" "smo_same p p'"
      using alloc_found[OF ao(2) k i3 hole] by blast
    have "metaslab_group_alloc env mg size' (T + of_nat i) md dva d p = Inr (p', off)"
      using r(1) ao(1) p'(1) mgvd by (simp add: metaslab_group_alloc_def Let_def)
    then show ?thesis using p'(2-10) off by (intro exI[of _ p'] exI[of _ off]) auto
  qed
qed

section \<open>Freeing\<close>

lemma metaslab_free_dva_ok:
  assumes ok: "group_ok t contents T mg ms p" and k: "kmem_fresh (me_kernel env)" and i3: "i < 3"
    and hole: "\<not> vdev_ishole (node_of (p_vd p vd))" and dva: "DVA_IS_VALID dva" "dva_metaslab p dva = Some (vd, a)" "a \<in> ms"
    and txg: "T + of_nat i \<le> spa_freeze_txg env"
  defines "off \<equiv> DVA_GET_OFFSET dva" and "size' \<equiv> free_size (p_vd p vd) dva"
  assumes R: "sm_range (ms_map (p_ms p a)) off size'" "in_use i (range_set off size') (view_of contents (p_os p) T (p_ms p a))"
  shows "\<exists>p'. metaslab_free_dva env dva (T + of_nat i) False p = Inr p' \<and> group_ok t contents T mg ms p' \<and> p_os p' = p_os p \<and> pool_same p p'
    \<and> (\<forall>b. b \<noteq> a \<longrightarrow> p_ms p' b = p_ms p b)
    \<and> view_of contents (p_os p) T (p_ms p' a) = spec_free i (range_set off size') (view_of contents (p_os p) T (p_ms p a))
    \<and> (listed vd a (T + of_nat i) p p' \<or> p_vd p' = p_vd p \<and> free_at T (p_ms p a) i \<noteq> {}) \<and> smo_same p p'"
proof -
  let ?m = "p_ms p a" and ?s = "slot_at T i"
  obtain F where F: "space_map_add (me_kernel env) (ms_freemap ?m ?s) off size' = Inr F"
    "ms_inv (p_vd p (mg_vd (p_mg p mg))) contents (p_os p) T (set_freemap ?s F ?m)"
    "view_of contents (p_os p) T (set_freemap ?s F ?m) = spec_free i (range_set off size') (view_of contents (p_os p) T ?m)"
    using free_inv[OF group_okD(3)[OF ok dva(3)] R i3 k] by blast
  obtain p1 where p1: "(if sm_space (ms_freemap ?m ?s) = 0 then pool_dirty vd VDD_METASLAB a (T + of_nat i) p else Inr p) = Inr p1"
    "group_ok t contents T mg ms p1" "p_ms p1 = p_ms p" "p_mg p1 = p_mg p" "p_os p1 = p_os p" "pool_same p p1"
    "if sm_space (ms_freemap ?m ?s) = 0 then listed vd a (T + of_nat i) p p1 else p_vd p1 = p_vd p"
    using dirty_unless[OF ok hole] by blast
  let ?p2 = "upd_ms a (set_freemap ?s F) p1"
  have nl: "\<not> T + of_nat i > spa_freeze_txg env" using txg by (simp add: not_less)
  have "metaslab_free_dva env dva (T + of_nat i) False p = Inr ?p2"
    unfolding metaslab_free_dva_def TXG_IDX_slot Let_def using dva(1,2) nl p1(1) F(1)
    by (simp add: off_def[symmetric] size'_def[symmetric] p1(3))
  moreover have same: "pool_same p ?p2" using pool_same_trans[OF p1(6) pool_same_upd(1)] .
  moreover have "mg_inv ?p2 mg ms"
    by (rule mg_inv_cong[OF group_okD(1)[OF ok]]) (simp_all add: p1(3,4) ms_key_def set_freemap_def)
  moreover have "weigh_ok (set_freemap ?s F ?m)" using group_okD(4)[OF ok dva(3)] by (simp add: weigh_ok_def set_freemap_def)
  ultimately have "group_ok t contents T mg ms ?p2"
    by (intro group_okI[OF ok dva(3), where m = "set_freemap ?s F ?m"])
      (use F(2) group_okD(5)[OF ok dva(3)] in \<open>simp_all add: p1(3,5) set_freemap_def\<close>)
  moreover have "sm_space (ms_freemap ?m ?s) = 0" if "free_at T ?m i = {}"
    using that ms_invD(3)[OF group_okD(3)[OF ok dva(3)], of ?s] sm_inv_empty_space by (simp add: free_at_def ms_side_def)
  then have "listed vd a (T + of_nat i) p ?p2 \<or> p_vd ?p2 = p_vd p \<and> free_at T ?m i \<noteq> {}" 
    using p1(7) by (cases "sm_space (ms_freemap ?m ?s) = 0") auto
  moreover have "p_os ?p2 = p_os p" "\<forall>b. b \<noteq> a \<longrightarrow> p_ms ?p2 b = p_ms p b" "p_ms ?p2 a = set_freemap ?s F ?m" by (simp_all add: p1(3,5))
  ultimately show ?thesis using \<open>metaslab_free_dva env dva (T + of_nat i) False p = Inr ?p2\<close> same F(3)
    smo_same_upd[of ?p2 p a "set_freemap ?s F ?m"] by (intro exI[of _ ?p2]) (simp add: p1(3) set_freemap_def)
qed

lemma metaslab_free_dva_now_ok:
  assumes ok: "group_ok t contents T mg ms p" and k: "kmem_fresh (me_kernel env)" and i3: "i < 3"
    and dva: "DVA_IS_VALID dva" "dva_metaslab p dva = Some (vd, a)" "a \<in> ms" and txg: "T + of_nat i \<le> spa_freeze_txg env"
  defines "off \<equiv> DVA_GET_OFFSET dva" and "size' \<equiv> free_size (p_vd p vd) dva"
  assumes R: "sm_range (ms_map (p_ms p a)) off size'" "range_set off size' \<subseteq> alloc_at T (p_ms p a) i"
    "\<forall>F \<in> set (v_free (view_of contents (p_os p) T (p_ms p a))). range_set off size' \<inter> F = {}"
  shows "\<exists>p'. metaslab_free_dva env dva (T + of_nat i) True p = Inr p' \<and> group_ok t contents T mg ms p' \<and> p_os p' = p_os p \<and> pool_same p p'
    \<and> (\<forall>b. b \<noteq> a \<longrightarrow> p_ms p' b = p_ms p b)
    \<and> view_of contents (p_os p) T (p_ms p' a) = spec_free_now i (range_set off size') (view_of contents (p_os p) T (p_ms p a)) \<and> p_vd p' = p_vd p \<and> smo_same p p'"
proof -
  let ?m = "p_ms p a" and ?s = "slot_at T i"
  obtain A sm where A: "space_map_remove (me_kernel env) (ms_allocmap ?m ?s) off size' = Inr A"
    "space_map_free (me_kernel env) metaslab_ops (ms_map ?m) off size' = Inr sm" "sm_active t sm" "sm_geometry (ms_map ?m) sm"
    "ms_inv (p_vd p (mg_vd (p_mg p mg))) contents (p_os p) T ((set_allocmap ?s A ?m)\<lparr>ms_map := sm\<rparr>)"
    "view_of contents (p_os p) T ((set_allocmap ?s A ?m)\<lparr>ms_map := sm\<rparr>) = spec_free_now i (range_set off size') (view_of contents (p_os p) T ?m)"
    using free_now_inv[OF group_okD(3)[OF ok dva(3)] group_okD(5)[OF ok dva(3)] R i3 k] by blast
  let ?m' = "(set_allocmap ?s A ?m)\<lparr>ms_map := sm\<rparr>"
  let ?p2 = "upd_ms a (\<lambda>m. (set_allocmap ?s A m)\<lparr>ms_map := sm\<rparr>) p"
  have nl: "\<not> T + of_nat i > spa_freeze_txg env" using txg by (simp add: not_less)
  have run: "metaslab_free_dva env dva (T + of_nat i) True p = Inr ?p2"
    unfolding metaslab_free_dva_def TXG_IDX_slot Let_def using dva(1,2) nl A(1,2)
    by (simp add: off_def[symmetric] size'_def[symmetric])
  have mg: "mg_inv ?p2 mg ms"
    by (rule mg_inv_cong[OF group_okD(1)[OF ok]]) (use A(4) in \<open>simp_all add: ms_key_def set_allocmap_def sm_geometry_def\<close>)
  have "range_set off size' \<noteq> {}" using R(1) by (auto simp: sm_range_def unat_gt_0)
  then have "sm_set (ms_allocmap ?m ?s) \<noteq> {}" using R(2) by (auto simp: alloc_at_def)
  moreover have "sm_loaded sm" using A(3) by (simp add: sm_active_def)
  ultimately have w: "weigh_ok ?m'" using group_okD(4)[OF ok dva(3)] slot_at_simps(1)[of T i]
    unfolding weigh_ok_def Let_def by (auto simp: set_allocmap_def)
  have "group_ok t contents T mg ms ?p2"
    by (intro group_okI[OF ok dva(3), where m = ?m']) (use A(3,5) w mg in simp_all)
  then show ?thesis using run A(6) smo_same_upd[of ?p2 p a ?m'] by (intro exI[of _ ?p2]) (simp add: set_allocmap_def)
qed

end

