(* ===== verification/Vdev_Sync.thy ===== *)
theory Vdev_Sync
  imports Metaslab
begin

text \<open>
  The part of \<open>uts/common/fs/zfs/vdev.c\<close> that ties the metaslabs of a top-level vdev together: creating and destroying
  them, and syncing the dirty ones (\<open>vdev_sync\<close>, \<open>vdev_sync_done\<close>), with the dirty time logs of the leaves on disk.
\<close>

unbundle bit_operations_syntax

section \<open>The dirty configuration list\<close>

text \<open>A top-level vdev that is not an auxiliary device. Whether it is on the list is its link in the code.\<close>

definition config_dirty_top :: "addr \<Rightarrow> 'os pool \<Rightarrow> 'os pool" where
  "config_dirty_top vd p =
     (if vd \<notin> set (p_config_dirty p) \<and> \<not> vdev_ishole (node_of (p_vd p vd)) then p\<lparr>p_config_dirty := vd # p_config_dirty p\<rparr> else p)"

section \<open>Leaves\<close>

fun find_leaf :: "addr \<Rightarrow> vdev \<Rightarrow> vdev_node option" where
  "find_leaf a (VDEV n children) =
     (if vdev_self n = a then Some n
      else case filter (\<lambda>r. r \<noteq> None) (map (find_leaf a) children) of [] \<Rightarrow> None | r # _ \<Rightarrow> r)"

fun set_leaf :: "addr \<Rightarrow> vdev_node \<Rightarrow> vdev \<Rightarrow> vdev" where
  "set_leaf a n' (VDEV n children) = (if vdev_self n = a then VDEV n' children else VDEV n (map (set_leaf a n') children))"

definition vdev_dtl_load :: "'os ms_env \<Rightarrow> vdev \<Rightarrow> 'os \<Rightarrow> (vdev \<times> int) res" where
  "vdev_dtl_load env vd os =
     (let n = vdev_info vd
      in
      ASSERT (vdev_child vd = []) (
      if smo_object (vdev_dtl_smo n) = 0 then Inr (vd, 0)
      else
        ASSERT (\<not> vdev_ishole n) (
        case me_bonus_read env (smo_object (vdev_dtl_smo n)) os of
          (error, smo) \<Rightarrow>
            if error \<noteq> 0 then Inr (vd, error)
            else
              rbind (space_map_load (me_kernel env) metaslab_ops (me_dmu env) (vdev_dtl n DTL_MISSING) None SM_ALLOC smo os) (\<lambda>(sm, error).
              Inr (VDEV (set_dtl DTL_MISSING sm (n\<lparr>vdev_dtl_smo := smo\<rparr>)) [], error)))))"

text \<open>The result has the leaf, the object set and whether the configuration of the top-level vdev has become dirty.\<close>

definition dtl_object :: "'os ms_env \<Rightarrow> space_map_obj \<Rightarrow> 'os \<Rightarrow> (space_map_obj \<times> 'os \<times> bool) res" where
  "dtl_object env smo os =
     (if smo_object smo = 0 then
        ASSERT (smo_objsize smo = 0) (
        ASSERT (smo_alloc smo = 0) (
        case me_object_alloc env os of
          (obj, os) \<Rightarrow> ASSERT (obj \<noteq> 0) (Inr (smo\<lparr>smo_object := obj\<rparr>, os, True))))
      else Inr (smo, os, False))"

definition vdev_dtl_sync :: "'os ms_env \<Rightarrow> vdev_node \<Rightarrow> u64 \<Rightarrow> 'os \<Rightarrow> (vdev_node \<times> 'os \<times> bool) res" where
  "vdev_dtl_sync env vd txg os =
     (let smo = vdev_dtl_smo vd;
          sm = vdev_dtl vd DTL_MISSING
      in
      ASSERT (\<not> vdev_ishole vd) (
      if vdev_detached vd then
        (if smo_object smo \<noteq> 0 then
           case me_object_free env (smo_object smo) os of
             (err, os) \<Rightarrow> ASSERT (err = 0) (Inr (vd\<lparr>vdev_dtl_smo := smo\<lparr>smo_object := 0\<rparr>\<rparr>, os, False))
         else Inr (vd, os, False))
      else
        rbind (dtl_object env smo os) (\<lambda>(smo, os, dirty).
        rbind (space_map_walk sm (add_func (me_kernel env)) (space_map_create (sm_start sm) (sm_size sm) (sm_shift sm) True)) (\<lambda>smsync.
        rbind (space_map_truncate (me_dmu env) smo os) (\<lambda>(smo, os).
        rbind (space_map_sync (me_dmu env) (spa_sync_pass env) txg smsync SM_ALLOC smo os) (\<lambda>(smsync, smo, os).
        rbind (space_map_destroy smsync) (\<lambda>_.
        case me_bonus_write env (smo_object smo) smo os of
          (err, os) \<Rightarrow> VERIFY (err = 0) (Inr (vd\<lparr>vdev_dtl_smo := smo\<rparr>, os, dirty)))))))))"

section \<open>Metaslabs of a vdev\<close>

text \<open>The space map object of metaslab \<open>m\<close>, read through the array when a pool is opened (\<open>txg = 0\<close>).\<close>

definition read_smo :: "'os ms_env \<Rightarrow> u64 \<Rightarrow> u64 \<Rightarrow> 'os \<Rightarrow> (space_map_obj \<times> int) res" where
  "read_smo env ms_array m os =
     (case dmu_read (me_dmu env) os ms_array (m * 8) 8 of
        (error, ws) \<Rightarrow>
          let object = (case ws of [] \<Rightarrow> 0 | w # _ \<Rightarrow> w)
          in
          if error \<noteq> 0 then Inr (zero_smo, error)
          else if object = 0 then Inr (zero_smo, 0)
          else
            case me_bonus_read env object os of
              (error, smo) \<Rightarrow>
                if error \<noteq> 0 then Inr (zero_smo, error)
                else ASSERT (smo_object smo = object) (Inr (smo, 0)))"

text \<open>The loop from \<open>m\<close> on; \<open>mem\<close> are the addresses of the new metaslabs. \<open>vdev_ms\<close> holds those created so far.\<close>

fun metaslab_init_loop :: "'os ms_env \<Rightarrow> addr \<Rightarrow> u64 \<Rightarrow> u64 \<Rightarrow> addr list \<Rightarrow> 'os pool \<Rightarrow> ('os pool \<times> int) res" where
  "metaslab_init_loop env vd txg m [] p = Inr (p, 0)"
| "metaslab_init_loop env vd txg m (msp # mem) p =
     (let s = unat (vdev_ms_shift (node_of (p_vd p vd)))
      in
      rbind (if txg = 0 then read_smo env (vdev_ms_array (p_vd p vd)) m (p_os p) else Inr (zero_smo, 0)) (\<lambda>(smo, error).
      if error \<noteq> 0 then Inr (p, error)
      else
        rbind (deref (vdev_mg (p_vd p vd))) (\<lambda>mg.
        rbind (metaslab_init env msp mg smo (push_bit s m) (push_bit s 1) txg p) (\<lambda>p.
        metaslab_init_loop env vd txg (m + 1) mem (upd_vd vd (\<lambda>v. v\<lparr>vdev_ms := vdev_ms v @ [msp]\<rparr>) p)))))"

definition vdev_metaslab_init :: "'os ms_env \<Rightarrow> addr \<Rightarrow> u64 \<Rightarrow> (nat \<Rightarrow> addr list) \<Rightarrow> 'os pool \<Rightarrow> ('os pool \<times> int) res" where
  "vdev_metaslab_init env vd txg kmem p =
     (let v = p_vd p vd;
          n = node_of v;
          oldc = vdev_ms_count v;
          newc = drop_bit (unat (vdev_ms_shift n)) (vdev_asize n)
      in
      if vdev_ms_shift n = 0 then Inr (p, 0)
      else
        ASSERT (\<not> vdev_ishole n) (
        let ratio = push_bit 17 1 div drop_bit SPA_MINBLOCKSHIFT (vdev_psize_to_asize (vdev_ashift n) (tv_tree v) (push_bit 17 1))
        in
        ASSERT (oldc \<le> newc) (
        rbind (metaslab_init_loop env vd txg oldc (kmem (unat newc - unat oldc))
                 (upd_vd vd (\<lambda>v. v\<lparr>vdev_deflate_ratio := ratio, vdev_ms_count := newc\<rparr>) p)) (\<lambda>(p, error).
        if error \<noteq> 0 then Inr (p, error)
        else if oldc = 0 then
          rbind (deref (vdev_mg (p_vd p vd))) (\<lambda>mg.
          rbind (metaslab_group_activate mg p) (\<lambda>p. Inr (p, 0)))
        else Inr (p, 0)))))"

definition vdev_metaslab_fini :: "'os ms_env \<Rightarrow> addr \<Rightarrow> 'os pool \<Rightarrow> 'os pool res" where
  "vdev_metaslab_fini env vd p =
     (if vdev_ms (p_vd p vd) \<noteq> [] then
        rbind (deref (vdev_mg (p_vd p vd))) (\<lambda>mg.
        rbind (metaslab_group_passivate mg p) (\<lambda>p.
        rbind (foldM (metaslab_fini env) (take (unat (vdev_ms_count (p_vd p vd))) (vdev_ms (p_vd p vd))) p) (\<lambda>p.
        Inr (upd_vd vd (\<lambda>v. v\<lparr>vdev_ms := []\<rparr>) p))))
      else Inr p)"

section \<open>Removal\<close>

definition set_node :: "vdev_node \<Rightarrow> top_vdev \<Rightarrow> top_vdev" where
  "set_node n v = v\<lparr>tv_tree := VDEV n (vdev_child (tv_tree v))\<rparr>"

definition remove_ms_object :: "'os ms_env \<Rightarrow> addr \<Rightarrow> 'os pool \<Rightarrow> 'os pool res" where
  "remove_ms_object env msp p =
     (let smo = ms_smo (p_ms p msp)
      in
      if smo_object smo = 0 then Inr p
      else
        ASSERT (smo_alloc smo = 0) (
        case me_object_free env (smo_object smo) (p_os p) of
          (_, os) \<Rightarrow> Inr ((upd_ms msp (\<lambda>m. m\<lparr>ms_smo := smo\<lparr>smo_object := 0\<rparr>\<rparr>) p)\<lparr>p_os := os\<rparr>)))"

definition remove_dtl_object :: "'os ms_env \<Rightarrow> addr \<Rightarrow> 'os pool \<Rightarrow> 'os pool res" where
  "remove_dtl_object env vd p =
     (let n = node_of (p_vd p vd);
          smo = vdev_dtl_smo n
      in
      if smo_object smo \<noteq> 0 then
        ASSERT (smo_alloc smo = 0) (
        case me_object_free env (smo_object smo) (p_os p) of
          (_, os) \<Rightarrow> Inr ((upd_vd vd (set_node (n\<lparr>vdev_dtl_smo := smo\<lparr>smo_object := 0\<rparr>\<rparr>)) p)\<lparr>p_os := os\<rparr>))
      else Inr p)"

definition vdev_remove :: "'os ms_env \<Rightarrow> addr \<Rightarrow> 'os pool \<Rightarrow> 'os pool res" where
  "vdev_remove env vd p =
     rbind (remove_dtl_object env vd p) (\<lambda>p.
     rbind (foldM (remove_ms_object env) (take (unat (vdev_ms_count (p_vd p vd))) (vdev_ms (p_vd p vd))) p) (\<lambda>p.
     Inr (if vdev_ms_array (p_vd p vd) \<noteq> 0 then
            (case me_object_free env (vdev_ms_array (p_vd p vd)) (p_os p) of
               (_, os) \<Rightarrow>
                 (upd_vd vd (\<lambda>v. (set_node ((node_of v)\<lparr>vdev_ms_shift := 0\<rparr>) v)\<lparr>vdev_ms_array := 0\<rparr>) p)\<lparr>p_os := os\<rparr>)
          else p)))"

section \<open>Syncing\<close>

definition set_ms_list :: "txg_list \<Rightarrow> top_vdev \<Rightarrow> top_vdev" where
  "set_ms_list l v = v\<lparr>tv_ms_list := l\<rparr>"

partial_function (option) sync_done_loop :: "'os ms_env \<Rightarrow> addr \<Rightarrow> u64 \<Rightarrow> 'os pool \<Rightarrow> 'os pool res option" where
  "sync_done_loop env vd txg p =
     (case txg_list_remove (tv_ms_list (p_vd p vd)) (TXG_CLEAN txg) of
        (l, None) \<Rightarrow> Some (Inr p)
      | (l, Some msp) \<Rightarrow>
          case metaslab_sync_done env msp txg (upd_vd vd (set_ms_list l) p) of
            Inl e \<Rightarrow> Some (Inl e)
          | Inr p \<Rightarrow> sync_done_loop env vd txg p)"

definition vdev_sync_done :: "'os ms_env \<Rightarrow> addr \<Rightarrow> u64 \<Rightarrow> 'os pool \<Rightarrow> 'os pool res" where
  "vdev_sync_done env vd txg p =
     (let reassess = \<not> txg_list_empty (tv_ms_list (p_vd p vd)) (TXG_CLEAN txg)
      in
      ASSERT (\<not> vdev_ishole (node_of (p_vd p vd))) (
      rbind (rbind (of_loop (sync_done_loop env vd txg p)) id) (\<lambda>p.
      if reassess then
        rbind (deref (vdev_mg (p_vd p vd))) (\<lambda>mg.
        rbind (metaslab_sync_reassess mg p) (\<lambda>(p, _). Inr p))
      else Inr p)))"

partial_function (option) sync_ms_loop :: "'os ms_env \<Rightarrow> addr \<Rightarrow> u64 \<Rightarrow> 'os pool \<Rightarrow> 'os pool res option" where
  "sync_ms_loop env vd txg p =
     (case txg_list_remove (tv_ms_list (p_vd p vd)) txg of
        (l, None) \<Rightarrow> Some (Inr p)
      | (l, Some msp) \<Rightarrow>
          case metaslab_sync env msp txg (upd_vd vd (set_ms_list l) p) of
            Inl e \<Rightarrow> Some (Inl e)
          | Inr p \<Rightarrow>
              sync_ms_loop env vd txg
                (upd_vd vd (\<lambda>v. set_ms_list (fst (txg_list_add (tv_ms_list v) msp (TXG_CLEAN txg))) v) p))"

definition sync_leaf :: "'os ms_env \<Rightarrow> addr \<Rightarrow> u64 \<Rightarrow> addr \<Rightarrow> 'os pool \<Rightarrow> 'os pool res" where
  "sync_leaf env vd txg lvd p =
     rbind (deref (find_leaf lvd (tv_tree (p_vd p vd)))) (\<lambda>n.
     rbind (vdev_dtl_sync env n txg (p_os p)) (\<lambda>(n, os, dirty).
     let p = (upd_vd vd (\<lambda>v. v\<lparr>tv_tree := set_leaf lvd n (tv_tree v)\<rparr>) p)\<lparr>p_os := os\<rparr>
     in Inr (if dirty then config_dirty_top vd p else p)))"

partial_function (option) sync_dtl_loop :: "'os ms_env \<Rightarrow> addr \<Rightarrow> u64 \<Rightarrow> 'os pool \<Rightarrow> 'os pool res option" where
  "sync_dtl_loop env vd txg p =
     (case txg_list_remove (tv_dtl_list (p_vd p vd)) txg of
        (l, None) \<Rightarrow> Some (Inr p)
      | (l, Some lvd) \<Rightarrow>
          case sync_leaf env vd txg lvd (upd_vd vd (\<lambda>v. v\<lparr>tv_dtl_list := l\<rparr>) p) of
            Inl e \<Rightarrow> Some (Inl e)
          | Inr p \<Rightarrow> sync_dtl_loop env vd txg p)"

definition sync_array :: "'os ms_env \<Rightarrow> addr \<Rightarrow> 'os pool \<Rightarrow> 'os pool res" where
  "sync_array env vd p =
     (if vdev_ms_array (p_vd p vd) = 0 \<and> vdev_ms_shift (node_of (p_vd p vd)) \<noteq> 0 then
        (case me_object_alloc env (p_os p) of
           (obj, os) \<Rightarrow> ASSERT (obj \<noteq> 0) (Inr (config_dirty_top vd ((upd_vd vd (\<lambda>v. v\<lparr>vdev_ms_array := obj\<rparr>) p)\<lparr>p_os := os\<rparr>))))
      else Inr p)"

definition vdev_sync :: "'os ms_env \<Rightarrow> addr \<Rightarrow> u64 \<Rightarrow> 'os pool \<Rightarrow> 'os pool res" where
  "vdev_sync env vd txg p =
     ASSERT (\<not> vdev_ishole (node_of (p_vd p vd))) (
     rbind (sync_array env vd p) (\<lambda>p.
     rbind (if vdev_removing (node_of (p_vd p vd)) then vdev_remove env vd p else Inr p) (\<lambda>p.
     rbind (rbind (of_loop (sync_ms_loop env vd txg p)) id) (\<lambda>p.
     rbind (rbind (of_loop (sync_dtl_loop env vd txg p)) id) (\<lambda>p.
     Inr (p\<lparr>p_vdev_txg_list := fst (txg_list_add (p_vdev_txg_list p) (vdev_self (node_of (p_vd p vd))) (TXG_CLEAN txg))\<rparr>))))))"

lemmas vdev_sync_code [code] = sync_done_loop.simps sync_ms_loop.simps sync_dtl_loop.simps

end
