(* ===== verification/Vdev_Txg.thy ===== *)
theory Vdev_Txg
  imports Metaslab_Use Vdev_Sync
begin

text \<open>
  A transaction group of a top-level vdev: \<open>vdev_sync\<close> writes the dirty metaslabs out and \<open>vdev_sync_done\<close> completes them.
  The invariant \<open>vdev_ok\<close> holds between transaction groups, and allocating and freeing keep it.
\<close>

section \<open>The vdev and its objects\<close>

definition vd_ready :: "addr \<Rightarrow> addr \<Rightarrow> addr set \<Rightarrow> 'os pool \<Rightarrow> bool" where
  "vd_ready mg vda ms p \<longleftrightarrow> mg_vd (p_mg p mg) = vda \<and> vdev_mg (p_vd p vda) = Some mg \<and> \<not> vdev_ishole (node_of (p_vd p vda))
     \<and> \<not> vdev_removing (node_of (p_vd p vda)) \<and> (vdev_deflate_ratio (p_vd p vda) \<noteq> 0 \<or> vdev_isl2cache (p_vd p vda))
     \<and> set (take (unat (vdev_ms_count (p_vd p vda))) (vdev_ms (p_vd p vda))) \<subseteq> ms"

lemma vd_ready_same: "vd_ready mg vda ms p \<Longrightarrow> pool_same p p' \<Longrightarrow> vd_ready mg vda ms p'"
  by (simp add: vd_ready_def pool_same_def vd_same_def mg_same_def)

abbreviation obj_of :: "'os pool \<Rightarrow> addr \<Rightarrow> u64" where
  "obj_of p a \<equiv> smo_object (ms_smo_syncing (p_ms p a))"

text \<open>Every metaslab has an object of its own, or none yet; the array of objects is another one.\<close>

definition objects_ok :: "('os \<Rightarrow> u64 set) \<Rightarrow> addr \<Rightarrow> addr set \<Rightarrow> 'os pool \<Rightarrow> bool" where
  "objects_ok objs vda ms p \<longleftrightarrow> vdev_ms_array (p_vd p vda) \<in> objs (p_os p)
     \<and> (\<forall>a \<in> ms. obj_of p a = 0 \<or> obj_of p a \<in> objs (p_os p) - {vdev_ms_array (p_vd p vda)})
     \<and> (\<forall>a \<in> ms. \<forall>b \<in> ms. obj_of p a = obj_of p b \<longrightarrow> obj_of p a = 0 \<or> a = b)"

lemma objects_okD:
  assumes "objects_ok objs vda ms p"
  shows "vdev_ms_array (p_vd p vda) \<in> objs (p_os p)" "a \<in> ms \<Longrightarrow> obj_of p a \<noteq> 0 \<Longrightarrow> obj_of p a \<in> objs (p_os p)"
    "a \<in> ms \<Longrightarrow> obj_of p a \<noteq> 0 \<Longrightarrow> obj_of p a \<noteq> vdev_ms_array (p_vd p vda)"
    "a \<in> ms \<Longrightarrow> b \<in> ms \<Longrightarrow> a \<noteq> b \<Longrightarrow> obj_of p a \<noteq> 0 \<Longrightarrow> obj_of p a \<noteq> obj_of p b"
  using assms unfolding objects_ok_def by blast+

lemma objects_ok_same:
  assumes "objects_ok objs vda ms p" "pool_same p p'" "p_os p' = p_os p" "\<And>a. a \<in> ms \<Longrightarrow> ms_smo_syncing (p_ms p' a) = ms_smo_syncing (p_ms p a)"
  shows "objects_ok objs vda ms p'"
proof -
  have "vdev_ms_array (p_vd p' vda) = vdev_ms_array (p_vd p vda)" using assms(2) by (simp add: pool_same_def vd_same_def)
  then show ?thesis using assms(1,4) unfolding objects_ok_def assms(3) by simp
qed

lemma sync_one:
  assumes ok: "group_ok t contents T mg ms p" and rdy: "vd_ready mg vda ms p" and ob: "objects_ok objs vda ms p" and a: "a \<in> ms"
    and k: "kmem_fresh (me_kernel env)" and mos: "mos_ok env contents objs" and more: "insert 0 (objs (p_os p)) \<noteq> UNIV"
    and room: "8 * (length (contents (p_os p) (obj_of p a)) + 2 * unat (sm_size (ms_map (p_ms p a))) + 2) + 4096 < 2 ^ 64"
  shows "\<exists>p' m. metaslab_sync env a T p = Inr p' \<and> p_ms p' = (p_ms p)(a := m) \<and> p_mg p' = p_mg p \<and> p_vd p' = p_vd p \<and> pool_same p p'
    \<and> group_ok t contents T mg ms p' \<and> objects_ok objs vda ms p'
    \<and> view_of contents (p_os p') T m = spec_sync (view_of contents (p_os p) T (p_ms p a))
    \<and> (\<forall>b \<in> ms. b \<noteq> a \<longrightarrow> view_of contents (p_os p') T (p_ms p b) = view_of contents (p_os p) T (p_ms p b)
         \<and> contents (p_os p') (obj_of p b) = contents (p_os p) (obj_of p b))
    \<and> ms_map m = ms_map (p_ms p a) \<and> ms_smo m = ms_smo (p_ms p a)
    \<and> length (contents (p_os p') (smo_object (ms_smo_syncing m))) \<le> length (contents (p_os p) (obj_of p a)) + 2 * unat (sm_size (ms_map (p_ms p a))) + 2
    \<and> objs (p_os p') \<subseteq> insert (smo_object (ms_smo_syncing m)) (objs (p_os p))"
proof -
  note g = group_okD[OF ok]
  have vda: "mg_vd (p_mg p mg) = vda" "\<not> vdev_ishole (node_of (p_vd p (mg_vd (p_mg p mg))))" using rdy by (auto simp: vd_ready_def)
  let ?arr = "vdev_ms_array (p_vd p vda)"
  have arr: "vdev_ms_array (p_vd p (mg_vd (p_mg p mg))) \<in> objs (p_os p)" using ob vda(1) by (simp add: objects_ok_def)
  obtain m os where s: "metaslab_sync env a T p = Inr ((upd_ms a (\<lambda>_. m) p)\<lparr>p_os := os\<rparr>)"
    "ms_inv (p_vd p vda) contents os T m" "view_of contents os T m = spec_sync (view_of contents (p_os p) T (p_ms p a))"
    "ms_map m = ms_map (p_ms p a)" "ms_weight m = ms_weight (p_ms p a)" "ms_group m = ms_group (p_ms p a)" "ms_smo m = ms_smo (p_ms p a)"
    "smo_object (ms_smo_syncing m) = obj_of p a \<or> smo_object (ms_smo_syncing m) \<notin> objs (p_os p) \<and> smo_object (ms_smo_syncing m) \<in> objs os"
    "length (contents os (smo_object (ms_smo_syncing m))) \<le> length (contents (p_os p) (obj_of p a)) + 2 * unat (sm_size (ms_map (p_ms p a))) + 2"
    "\<forall>o' \<in> objs (p_os p) - {?arr, obj_of p a}. contents os o' = contents (p_os p) o'" "objs (p_os p) \<subseteq> objs os"
    "objs os \<subseteq> insert (smo_object (ms_smo_syncing m)) (objs (p_os p))" "contents os 0 = contents (p_os p) 0"
    using metaslab_sync_inv[OF g(6)[OF a] g(3)[OF a] k mos room vda(2) arr more] unfolding vda(1) by blast
  let ?p = "(upd_ms a (\<lambda>_. m) p)\<lparr>p_os := os\<rparr>"
  have pm: "p_ms ?p = (p_ms p)(a := m)" by simp
  have same: "pool_same p ?p" using pool_same_trans[OF pool_same_upd(1) pool_same_upd(3)] .
  have keep: "contents os (obj_of p b) = contents (p_os p) (obj_of p b)" if "b \<in> ms" "b \<noteq> a" for b
  proof (cases "obj_of p b = 0")
    case False
    then have "obj_of p b \<in> objs (p_os p) - {?arr, obj_of p a}" using objects_okD(2,3)[OF ob that(1)] objects_okD(4)[OF ob that(1) a that(2)] by simp
    then show ?thesis using s(10) by blast
  qed (use s(13) in simp)
  have frame: "ms_inv vd contents os T (p_ms p b) = ms_inv vd contents (p_os p) T (p_ms p b)"
    "view_of contents os T (p_ms p b) = view_of contents (p_os p) T (p_ms p b)" if "b \<in> ms" "b \<noteq> a" for b vd
  proof -
    have "contents os (smo_object (ms_smo (p_ms p b))) = contents (p_os p) (smo_object (ms_smo (p_ms p b)))"
      using ms_invD(9)[OF g(3)[OF that(1)]] keep[OF that] s(13) by auto
    note f = ms_inv_frame[OF keep[OF that] this]
    show "ms_inv vd contents os T (p_ms p b) = ms_inv vd contents (p_os p) T (p_ms p b)" by (rule f(1))
    show "view_of contents os T (p_ms p b) = view_of contents (p_os p) T (p_ms p b)" by (rule f(2))
  qed
  have mg: "mg_inv ?p mg ms" by (rule mg_inv_cong[OF g(1)]) (use s(4-6) in \<open>simp_all add: ms_key_def\<close>)
  have "\<forall>t < 4. sm_set (ms_allocmap m t) = {}" if none: "\<forall>t < 4. sm_set (ms_allocmap (p_ms p a) t) = {}"
  proof (intro allI impI)
    fix s' :: nat assume "s' < 4"
    then obtain j where j: "j < 4" "s' = slot_at T j" using slot_at_onto by blast
    have "alloc_at T (p_ms p a) i = {}" if "i < 4" for i using none by (simp add: alloc_at_def)
    then have "v_alloc (view_of contents os T m) = [{}, {}, {}]" unfolding s(3) by (simp add: spec_sync_def view_of_def Let_def)
    then have "alloc_at T m 0 = {}" "alloc_at T m 1 = {}" "alloc_at T m 2 = {}" by (simp_all add: view_of_def Let_def)
    moreover have "alloc_at T m 3 = {}" by (rule ms_invD(5)[OF s(2)])
    moreover have "j = 0 \<or> j = 1 \<or> j = 2 \<or> j = 3" using j(1) by auto
    ultimately have "alloc_at T m j = {}" by auto
    then show "sm_set (ms_allocmap m s') = {}" by (simp add: alloc_at_def j(2))
  qed
  then have w: "weigh_ok m" using g(4)[OF a] unfolding weigh_ok_def Let_def s(4,5) by blast
  have "group_ok t contents T mg ms ?p"
    unfolding group_ok_def using mg g(2) s(2,4) w frame g(3-5) vda(1) a by auto
  moreover have "objects_ok objs vda ms ?p"
  proof -
    have new: "smo_object (ms_smo_syncing m) = 0 \<or> smo_object (ms_smo_syncing m) \<in> objs os - {?arr}"
      using s(8,11) objects_okD(1)[OF ob] objects_okD(2,3)[OF ob a] by auto
    have "obj_of p b \<noteq> smo_object (ms_smo_syncing m) \<or> obj_of p b = 0" if "b \<in> ms" "b \<noteq> a" for b
      using s(8) objects_okD(2)[OF ob that(1)] objects_okD(4)[OF ob that(1) a that(2)] by (cases "obj_of p b = 0") auto
    moreover have "?arr \<in> objs os" using objects_okD(1)[OF ob] s(11) by blast
    moreover have "\<forall>a \<in> ms. \<forall>b \<in> ms. obj_of p a = obj_of p b \<longrightarrow> obj_of p a = 0 \<or> a = b"
      "\<forall>a \<in> ms. obj_of p a = 0 \<or> obj_of p a \<in> objs (p_os p) - {?arr}" using ob by (simp_all add: objects_ok_def)
    ultimately show ?thesis using s(11) new unfolding objects_ok_def by auto
  qed
  ultimately show ?thesis using s(1,3,4,7,9,12) same frame(2) keep by (intro exI[of _ ?p] exI[of _ m]) simp
qed

section \<open>Writing the dirty metaslabs out\<close>

lemma set_list_same:
  "pool_same p (upd_vd vda (\<lambda>v. set_ms_list (f v) v) p)" "tv_ms_list (p_vd (upd_vd vda (\<lambda>v. set_ms_list (f v) v) p) vda) = f (p_vd p vda)"
  "tv_dtl_list (p_vd (upd_vd vda (\<lambda>v. set_ms_list (f v) v) p) x) = tv_dtl_list (p_vd p x)"
  by (simp_all add: pool_same_def vd_same_def mg_same_def set_ms_list_def)

definition sync_room :: "('os \<Rightarrow> u64 \<Rightarrow> u64 list) \<Rightarrow> 'os pool \<Rightarrow> addr \<Rightarrow> bool" where
  "sync_room contents p a \<longleftrightarrow>
     8 * (length (contents (p_os p) (obj_of p a)) + 2 * unat (sm_size (ms_map (p_ms p a))) + 2) + 4096 < 2 ^ 64"

text \<open>How much the logs and the number of objects grow in a sync.\<close>

abbreviation log_len :: "('os \<Rightarrow> u64 \<Rightarrow> u64 list) \<Rightarrow> 'os pool \<Rightarrow> addr \<Rightarrow> nat" where
  "log_len contents p a \<equiv> length (contents (p_os p) (obj_of p a))"

definition grows :: "('os \<Rightarrow> u64 \<Rightarrow> u64 list) \<Rightarrow> ('os \<Rightarrow> u64 set) \<Rightarrow> addr set \<Rightarrow> nat \<Rightarrow> 'os pool \<Rightarrow> 'os pool \<Rightarrow> bool" where
  "grows contents objs ms n p p' \<longleftrightarrow> (\<forall>a \<in> ms. log_len contents p' a \<le> log_len contents p a + 2 * unat (sm_size (ms_map (p_ms p a))) + 2)
     \<and> card (objs (p_os p')) \<le> card (objs (p_os p)) + n"

lemma objs_left:
  fixes O' :: "u64 set"
  assumes "card O' + 1 < 2 ^ 64"
  shows "insert 0 O' \<noteq> UNIV"
proof
  assume "insert 0 O' = UNIV"
  then have "card (insert 0 O') = 2 ^ 64" by (simp add: card_word)
  moreover have "card (insert 0 O') \<le> card O' + 1" by (simp add: card_insert_if)
  ultimately show False using assms by simp
qed

lemma sync_ms_loop_ok:
  assumes k: "kmem_fresh (me_kernel env)" and mos: "mos_ok env contents objs"
    and "group_ok t contents T mg ms p" "vd_ready mg vda ms p" "objects_ok objs vda ms p" "tl_inv (tv_ms_list (p_vd p vda)) L"
    and "L (slot_at T 0) = xs" "set xs \<subseteq> ms" "set xs \<inter> set (L (slot_at T 3)) = {}" "\<forall>a \<in> set xs. sync_room contents p a"
    and "card (objs (p_os p)) + length xs + 1 < 2 ^ 64"
  shows "\<exists>p'. sync_ms_loop env vda T p = Some (Inr p') \<and> group_ok t contents T mg ms p' \<and> objects_ok objs vda ms p' \<and> pool_same p p'
    \<and> tl_inv (tv_ms_list (p_vd p' vda)) (L(slot_at T 0 := [], slot_at T 3 := rev xs @ L (slot_at T 3)))
    \<and> (\<forall>x. tv_dtl_list (p_vd p' x) = tv_dtl_list (p_vd p x))
    \<and> (\<forall>a \<in> ms. view_of contents (p_os p') T (p_ms p' a) = (if a \<in> set xs then spec_sync else id) (view_of contents (p_os p) T (p_ms p a))
         \<and> (a \<notin> set xs \<longrightarrow> p_ms p' a = p_ms p a))
    \<and> (\<forall>a \<in> ms. log_len contents p' a \<le> log_len contents p a + (if a \<in> set xs then 2 * unat (sm_size (ms_map (p_ms p a))) + 2 else 0))
    \<and> card (objs (p_os p')) \<le> card (objs (p_os p)) + length xs"
  using assms(3-)
proof (induction xs arbitrary: p L)
  case Nil
  have s0: "slot_at T 0 = TXG_IDX T" by (simp add: TXG_IDX_now)
  have "snd (txg_list_remove (tv_ms_list (p_vd p vda)) T) = None"
    using txg_list_remove_inv(1)[OF Nil.prems(4) s0] Nil.prems(5) by simp
  then have "sync_ms_loop env vda T p = Some (Inr p)" by (subst sync_ms_loop.simps) (cases "txg_list_remove (tv_ms_list (p_vd p vda)) T", simp)
  moreover have "L(slot_at T 0 := [], slot_at T 3 := rev [] @ L (slot_at T 3)) = L" using Nil.prems(5) by auto
  then have "tl_inv (tv_ms_list (p_vd p vda)) (L(slot_at T 0 := [], slot_at T 3 := rev [] @ L (slot_at T 3)))"
    using Nil.prems(4) by (simp only:)
  ultimately show ?case using Nil.prems(1,3) by (intro exI[of _ p] conjI) (assumption | simp)+
next
  case (Cons a xs)
  have s0: "slot_at T 0 = TXG_IDX T" and s3: "slot_at T 3 = TXG_IDX (TXG_CLEAN T)" by (rule TXG_IDX_now[symmetric], rule TXG_IDX_clean[symmetric])
  have ne: "slot_at T 0 \<noteq> slot_at T 3" using slot_at_eq[of 0 3 T] by simp
  let ?l = "tv_ms_list (p_vd p vda)"
  obtain l1 where l1: "txg_list_remove ?l T = (l1, Some a)" "tl_inv l1 (L(slot_at T 0 := xs))"
    using txg_list_remove_inv[OF Cons.prems(4) s0] Cons.prems(5) by (cases "txg_list_remove ?l T") auto
  let ?p1 = "upd_vd vda (set_ms_list l1) p"
  have same1: "pool_same p ?p1" "tv_ms_list (p_vd ?p1 vda) = l1" "\<And>x. tv_dtl_list (p_vd ?p1 x) = tv_dtl_list (p_vd p x)"
    using set_list_same[where p = p and vda = vda and f = "\<lambda>_. l1"] by simp_all
  have a: "a \<in> ms" "a \<notin> set xs" "a \<notin> set (L (slot_at T 3))" "set xs \<subseteq> ms"
    using Cons.prems(5-7) tl_invD(2)[OF Cons.prems(4), of T] unfolding s0[symmetric] by auto
  have ok1: "group_ok t contents T mg ms ?p1" by (rule group_ok_same[OF Cons.prems(1) _ _ _ same1(1)]) simp_all
  have rdy1: "vd_ready mg vda ms ?p1" by (rule vd_ready_same[OF Cons.prems(2) same1(1)])
  have ob1: "objects_ok objs vda ms ?p1" by (rule objects_ok_same[OF Cons.prems(3) same1(1)]) simp_all
  have more: "insert 0 (objs (p_os ?p1)) \<noteq> UNIV" using Cons.prems(9) by (intro objs_left) simp
  have room: "8 * (length (contents (p_os ?p1) (obj_of ?p1 a)) + 2 * unat (sm_size (ms_map (p_ms ?p1 a))) + 2) + 4096 < 2 ^ 64"
    using Cons.prems(8) by (simp add: sync_room_def)
  obtain p2 m where p2: "metaslab_sync env a T ?p1 = Inr p2" "p_ms p2 = (p_ms ?p1)(a := m)" "p_mg p2 = p_mg ?p1" "p_vd p2 = p_vd ?p1" "pool_same ?p1 p2"
    "group_ok t contents T mg ms p2" "objects_ok objs vda ms p2" "view_of contents (p_os p2) T m = spec_sync (view_of contents (p_os ?p1) T (p_ms ?p1 a))"
    "\<forall>b \<in> ms. b \<noteq> a \<longrightarrow> view_of contents (p_os p2) T (p_ms ?p1 b) = view_of contents (p_os ?p1) T (p_ms ?p1 b)
         \<and> contents (p_os p2) (obj_of ?p1 b) = contents (p_os ?p1) (obj_of ?p1 b)"
    "length (contents (p_os p2) (smo_object (ms_smo_syncing m))) \<le> length (contents (p_os ?p1) (obj_of ?p1 a)) + 2 * unat (sm_size (ms_map (p_ms ?p1 a))) + 2"
    "objs (p_os p2) \<subseteq> insert (smo_object (ms_smo_syncing m)) (objs (p_os ?p1))"
    using sync_one[OF ok1 rdy1 ob1 a(1) k mos more room] by blast
  let ?f = "\<lambda>v. fst (txg_list_add (tv_ms_list v) a (TXG_CLEAN T))"
  let ?p3 = "upd_vd vda (\<lambda>v. set_ms_list (?f v) v) p2" and ?L = "L(slot_at T 0 := xs, slot_at T 3 := a # L (slot_at T 3))"
  note same3 = set_list_same[where p = p2 and vda = vda and f = ?f]
  have "tl_inv (tv_ms_list (p_vd ?p3 vda)) ((L(slot_at T 0 := xs))(slot_at T 3 := a # (L(slot_at T 0 := xs)) (slot_at T 3)))"
    using txg_list_add_inv(2)[OF l1(2) s3, of a] a(3) ne unfolding same3(2) p2(4) same1(2) by simp
  then have tl3: "tl_inv (tv_ms_list (p_vd ?p3 vda)) ?L" using ne by simp
  have ok3: "group_ok t contents T mg ms ?p3" by (rule group_ok_same[OF p2(6) _ _ _ same3(1)]) simp_all
  have rdy3: "vd_ready mg vda ms ?p3" by (rule vd_ready_same[OF vd_ready_same[OF rdy1 p2(5)] same3(1)])
  have ob3: "objects_ok objs vda ms ?p3" by (rule objects_ok_same[OF p2(7) same3(1)]) simp_all
  have room3: "\<forall>b \<in> set xs. sync_room contents ?p3 b"
    using Cons.prems(8) p2(2,9) a(2,4) by (auto simp: sync_room_def)
  have "card (objs (p_os p2)) \<le> card (insert (smo_object (ms_smo_syncing m)) (objs (p_os p)))" using p2(11) by (intro card_mono) simp_all
  then have c3: "card (objs (p_os ?p3)) \<le> card (objs (p_os p)) + 1" by (simp add: card_insert_if split: if_splits)
  then have card3: "card (objs (p_os ?p3)) + length xs + 1 < 2 ^ 64" using Cons.prems(9) by simp
  have L3: "?L (slot_at T 0) = xs" "set xs \<inter> set (?L (slot_at T 3)) = {}" using ne a(2) Cons.prems(7) by auto
  obtain p' where p': "sync_ms_loop env vda T ?p3 = Some (Inr p')" "group_ok t contents T mg ms p'" "objects_ok objs vda ms p'" "pool_same ?p3 p'"
    "tl_inv (tv_ms_list (p_vd p' vda)) (?L(slot_at T 0 := [], slot_at T 3 := rev xs @ ?L (slot_at T 3)))"
    "\<forall>x. tv_dtl_list (p_vd p' x) = tv_dtl_list (p_vd ?p3 x)"
    "\<forall>b \<in> ms. view_of contents (p_os p') T (p_ms p' b) = (if b \<in> set xs then spec_sync else id) (view_of contents (p_os ?p3) T (p_ms ?p3 b))
         \<and> (b \<notin> set xs \<longrightarrow> p_ms p' b = p_ms ?p3 b)"
    "\<forall>b \<in> ms. log_len contents p' b \<le> log_len contents ?p3 b + (if b \<in> set xs then 2 * unat (sm_size (ms_map (p_ms ?p3 b))) + 2 else 0)"
    "card (objs (p_os p')) \<le> card (objs (p_os ?p3)) + length xs"
    using Cons.IH[OF ok3 rdy3 ob3 tl3 L3(1) a(4) L3(2) room3 card3] by blast
  have "sync_ms_loop env vda T p = sync_ms_loop env vda T ?p3" by (subst sync_ms_loop.simps) (simp add: l1(1) p2(1))
  moreover have "?L(slot_at T 0 := [], slot_at T 3 := rev xs @ ?L (slot_at T 3)) = L(slot_at T 0 := [], slot_at T 3 := rev (a # xs) @ L (slot_at T 3))"
    using ne by (auto simp: fun_eq_iff)
  moreover have "pool_same p p'" using pool_same_trans[OF same1(1) pool_same_trans[OF p2(5) pool_same_trans[OF same3(1) p'(4)]]] .
  moreover have "\<forall>x. tv_dtl_list (p_vd p' x) = tv_dtl_list (p_vd p x)" using p'(6) same3(3) same1(3) p2(4) by simp
  moreover have "view_of contents (p_os p') T (p_ms p' b) = (if b \<in> set (a # xs) then spec_sync else id) (view_of contents (p_os p) T (p_ms p b))
      \<and> (b \<notin> set (a # xs) \<longrightarrow> p_ms p' b = p_ms p b)" if "b \<in> ms" for b
    using p'(7)[rule_format, OF that] p2(2,8) p2(9)[rule_format, OF that] a(2) by (cases "b = a") auto
  moreover have "log_len contents p' b \<le> log_len contents p b + (if b \<in> set (a # xs) then 2 * unat (sm_size (ms_map (p_ms p b))) + 2 else 0)" if "b \<in> ms" for b
    using p'(8)[rule_format, OF that] p2(2,10) p2(9)[rule_format, OF that] a(2) by (cases "b = a") auto
  moreover have "card (objs (p_os p')) \<le> card (objs (p_os p)) + length (a # xs)" using p'(9) c3 by simp
  ultimately show ?case using p'(1-3,5) by (intro exI[of _ p'] conjI) (simp only: | blast)+
qed

section \<open>A metaslab that is left alone\<close>

lemma ms_inv_idle:
  assumes inv: "ms_inv vd contents os T m" and nil: "alloc_at T m 0 = {}" "free_at T m 0 = {}" "free_at T m 3 = {}" "defer_at T m 0 = {}"
  shows "ms_inv vd contents os (T + 1) m" "view_of contents os (T + 1) m = spec_sync_done (view_of contents os T m)"
proof -
  note i = ms_invD[OF inv]
  have at: "alloc_at (T + 1) m 0 = alloc_at T m 1" "alloc_at (T + 1) m (Suc 0) = alloc_at T m 2" "alloc_at (T + 1) m 2 = {}" "alloc_at (T + 1) m 3 = {}"
    "free_at (T + 1) m 0 = free_at T m 1" "free_at (T + 1) m (Suc 0) = free_at T m 2" "free_at (T + 1) m 2 = {}" "free_at (T + 1) m 3 = {}"
    using i(5) nil by (simp_all add: alloc_at_def free_at_def slots_next)
  have dt: "defer_at (T + 1) m 0 = defer_at T m 1" "defer_at (T + 1) m (Suc 0) = {}"
    using nil(4) defers_next[of T] by (simp_all add: defer_at_def)
  show view: "view_of contents os (T + 1) m = spec_sync_done (view_of contents os T m)"
    using nil by (auto simp: view_of_def spec_sync_done_def Let_def at dt)
  show "ms_inv vd contents os (T + 1) m"
  proof (rule ms_invI)
    show "view_ok (view_of contents os (T + 1) m)"
      unfolding view using nil by (intro spec_sync_done_ok[OF i(13)]) (simp_all add: view_of_def Let_def)
    show "ms_unloaded contents os (T + 1) m" if "\<not> sm_loaded (ms_map m)"
      using i(12)[OF that] nil(3) unfolding ms_unloaded_def Let_def all_less_3 One_nat_def at by simp
    show "sint (ms_deferspace m) = int (card (defer_at (T + 1) m 0) + card (defer_at (T + 1) m 1))"
      using i(10) nil(4) unfolding One_nat_def dt by simp
  qed (use i at in simp_all)
qed

section \<open>Completing\<close>

text \<open>The metaslabs of a group while some of them have been completed.\<close>

definition group_at :: "sm_ops_table \<Rightarrow> ('os \<Rightarrow> u64 \<Rightarrow> u64 list) \<Rightarrow> (addr \<Rightarrow> u64) \<Rightarrow> addr \<Rightarrow> addr set \<Rightarrow> 'os pool \<Rightarrow> bool" where
  "group_at t contents Tf mg ms p \<longleftrightarrow> mg_inv p mg ms \<and> mc_ops (p_mc p (mg_class (p_mg p mg))) = t
     \<and> (\<forall>a \<in> ms. ms_inv (p_vd p (mg_vd (p_mg p mg))) contents (p_os p) (Tf a) (p_ms p a) \<and> weigh_ok (p_ms p a)
          \<and> (sm_loaded (ms_map (p_ms p a)) \<longrightarrow> sm_active t (ms_map (p_ms p a))))"

lemma group_at_ok: "group_at t contents (\<lambda>_. T) mg ms p = group_ok t contents T mg ms p"
  by (simp add: group_at_def group_ok_def)

lemma group_at_cong: "(\<And>a. a \<in> ms \<Longrightarrow> Tf a = Tf' a) \<Longrightarrow> group_at t contents Tf mg ms p = group_at t contents Tf' mg ms p"
  by (simp add: group_at_def)

lemma group_at_same:
  assumes ok: "group_at t contents Tf mg ms p" and p': "p_ms p' = p_ms p" "p_mg p' = p_mg p" "p_os p' = p_os p" "pool_same p p'"
  shows "group_at t contents Tf mg ms p'"
proof -
  have vd: "vd_same (p_vd p x) (p_vd p' x)" for x using pool_sameD(4)[OF p'(4)] .
  have mc: "mc_ops (p_mc p' x) = mc_ops (p_mc p x)" for x using p'(4) by (simp add: pool_same_def)
  have "mg_inv p' mg ms" by (rule mg_inv_cong[of p]) (use ok in \<open>simp_all add: p' group_at_def\<close>)
  then show ?thesis using ok unfolding group_at_def p'(1-3) mc ms_inv_same[OF vd] by blast
qed

lemma sync_done_one:
  assumes ok: "group_at t contents Tf mg ms p" and rdy: "vd_ready mg vda ms p" and a: "a \<in> ms" "Tf a = T" and k: "kmem_fresh (me_kernel env)"
    and nil: "alloc_at T (p_ms p a) 0 = {}" "free_at T (p_ms p a) 0 = {}"
  shows "\<exists>p' m. metaslab_sync_done env a T p = Inr p' \<and> p_ms p' = (p_ms p)(a := m) \<and> group_at t contents (Tf(a := T + 1)) mg ms p'
    \<and> p_os p' = p_os p \<and> pool_same p p' \<and> ms_smo m = ms_smo_syncing m \<and> ms_smo_syncing m = ms_smo_syncing (p_ms p a)
    \<and> view_of contents (p_os p) (T + 1) m = spec_sync_done (view_of contents (p_os p) T (p_ms p a))
    \<and> (if ms_deferspace m \<noteq> 0 then listed vda a (T + 1) p p'
       else (\<forall>x. tv_ms_list (p_vd p' x) = tv_ms_list (p_vd p x) \<and> tv_dtl_list (p_vd p' x) = tv_dtl_list (p_vd p x)))"
proof -
  have vda: "mg_vd (p_mg p mg) = vda" "\<not> vdev_ishole (node_of (p_vd p (mg_vd (p_mg p mg))))"
    "vdev_deflate_ratio (p_vd p (mg_vd (p_mg p mg))) \<noteq> 0 \<or> vdev_isl2cache (p_vd p (mg_vd (p_mg p mg)))" using rdy by (auto simp: vd_ready_def)
  have g: "mg_inv p mg ms" "mc_ops (p_mc p (mg_class (p_mg p mg))) = t" "ms_inv (p_vd p (mg_vd (p_mg p mg))) contents (p_os p) T (p_ms p a)"
    "sm_loaded (ms_map (p_ms p a)) \<Longrightarrow> sm_active t (ms_map (p_ms p a))"
    using ok a unfolding group_at_def by auto
  obtain p' m where s: "metaslab_sync_done env a T p = Inr p'" "p_ms p' = (p_ms p)(a := m)" "ms_inv (p_vd p vda) contents (p_os p) (T + 1) m"
    "view_of contents (p_os p) (T + 1) m = spec_sync_done (view_of contents (p_os p) T (p_ms p a))" "mg_inv p' mg ms" "p_os p' = p_os p" "pool_same p p'"
    "ms_smo m = ms_smo_syncing m" "ms_smo_syncing m = ms_smo_syncing (p_ms p a)"
    "if ms_deferspace m \<noteq> 0 then listed vda a (T + 1) p p'
     else (\<forall>x. tv_ms_list (p_vd p' x) = tv_ms_list (p_vd p x) \<and> tv_dtl_list (p_vd p' x) = tv_dtl_list (p_vd p x))"
    "weigh_ok m" "sm_loaded (ms_map m) \<longrightarrow> sm_ops (ms_map m) = sm_ops (ms_map (p_ms p a))"
    using metaslab_sync_done_inv[OF g(1) a(1) k ms_inv_core[OF g(3)] nil vda(2,3)] unfolding vda(1) by (elim exE conjE) (rule that)
  have act: "sm_active t (ms_map m)" if ld: "sm_loaded (ms_map m)"
  proof -
    obtain t' where t': "sm_active t' (ms_map m)" using ms_invD(11)[OF s(3) ld] by blast
    then have ops: "sm_ops (ms_map (p_ms p a)) = Some t'" using s(12) ld by (simp add: sm_active_def)
    have "sm_loaded (ms_map (p_ms p a))"
      using ops ms_invD(12)[OF g(3)] by (cases "sm_loaded (ms_map (p_ms p a))") (auto simp: ms_unloaded_def sm_idle_def)
    then have "t' = t" using g(4) ops by (simp add: sm_active_def)
    then show ?thesis using t' by simp
  qed
  have same: "mg_vd (p_mg p' mg) = vda" "vd_same (p_vd p x) (p_vd p' x)" "mg_class (p_mg p' mg) = mg_class (p_mg p mg)" for x
    using pool_sameD(3-5)[OF s(7)] vda(1) by simp_all
  have mc: "mc_ops (p_mc p' x) = mc_ops (p_mc p x)" for x using s(7) by (simp add: pool_same_def)
  have "group_at t contents (Tf(a := T + 1)) mg ms p'"
    unfolding group_at_def same(1,3) mc s(2,6) ms_inv_same[OF same(2)]
    using s(3,5,11) act ok unfolding group_at_def vda(1) by auto
  then show ?thesis using s(1,2,4,6-10) by (intro exI[of _ p'] exI[of _ m]) simp
qed

lemma sync_done_loop_ok:
  assumes k: "kmem_fresh (me_kernel env)"
    and "group_at t contents Tf mg ms p" "vd_ready mg vda ms p" "tl_inv (tv_ms_list (p_vd p vda)) L" "L (slot_at T 3) = zs"
    and "\<forall>a \<in> set zs. a \<in> ms \<and> Tf a = T \<and> alloc_at T (p_ms p a) 0 = {} \<and> free_at T (p_ms p a) 0 = {}"
  shows "\<exists>p' ys. sync_done_loop env vda T p = Some (Inr p') \<and> group_at t contents (\<lambda>a. if a \<in> set zs then T + 1 else Tf a) mg ms p'
    \<and> p_os p' = p_os p \<and> pool_same p p'
    \<and> tl_inv (tv_ms_list (p_vd p' vda)) (L(slot_at T 1 := ys, slot_at T 3 := [])) \<and> set (L (slot_at T 1)) \<subseteq> set ys \<and> set ys \<subseteq> set (L (slot_at T 1)) \<union> set zs
    \<and> (\<forall>x. tv_dtl_list (p_vd p' x) = tv_dtl_list (p_vd p x)) \<and> (\<forall>a. a \<notin> set zs \<longrightarrow> p_ms p' a = p_ms p a)
    \<and> (\<forall>a \<in> set zs. view_of contents (p_os p) (T + 1) (p_ms p' a) = spec_sync_done (view_of contents (p_os p) T (p_ms p a))
         \<and> ms_smo (p_ms p' a) = ms_smo_syncing (p_ms p' a) \<and> ms_smo_syncing (p_ms p' a) = ms_smo_syncing (p_ms p a)
         \<and> (ms_deferspace (p_ms p' a) \<noteq> 0 \<longrightarrow> a \<in> set ys))"
  using assms(2-)
proof (induction zs arbitrary: p L Tf)
  case Nil
  have s3: "slot_at T 3 = TXG_IDX (TXG_CLEAN T)" by (rule TXG_IDX_clean[symmetric])
  have "snd (txg_list_remove (tv_ms_list (p_vd p vda)) (TXG_CLEAN T)) = None"
    using txg_list_remove_inv(1)[OF Nil.prems(3) s3] Nil.prems(4) by simp
  then have "sync_done_loop env vda T p = Some (Inr p)"
    by (subst sync_done_loop.simps) (cases "txg_list_remove (tv_ms_list (p_vd p vda)) (TXG_CLEAN T)", simp)
  moreover have "L(slot_at T 1 := L (slot_at T 1), slot_at T 3 := []) = L" using Nil.prems(4) by auto
  then have "tl_inv (tv_ms_list (p_vd p vda)) (L(slot_at T 1 := L (slot_at T 1), slot_at T 3 := []))" using Nil.prems(3) by (simp only:)
  moreover have "group_at t contents (\<lambda>a. if a \<in> set [] then T + 1 else Tf a) mg ms p" using Nil.prems(1) by simp
  ultimately show ?case by (intro exI[of _ p] exI[of _ "L (slot_at T 1)"] conjI) (assumption | simp)+
next
  case (Cons a zs)
  have s3: "slot_at T 3 = TXG_IDX (TXG_CLEAN T)" by (rule TXG_IDX_clean[symmetric])
  have s1: "slot_at T 1 = TXG_IDX (T + 1)" using TXG_IDX_slot[of T 1] by simp
  have ne: "slot_at T 1 \<noteq> slot_at T 3" using slot_at_eq[of 1 3 T] by simp
  let ?l = "tv_ms_list (p_vd p vda)"
  obtain l1 where l1: "txg_list_remove ?l (TXG_CLEAN T) = (l1, Some a)" "tl_inv l1 (L(slot_at T 3 := zs))"
    using txg_list_remove_inv[OF Cons.prems(3) s3] Cons.prems(4) by (cases "txg_list_remove ?l (TXG_CLEAN T)") auto
  let ?p1 = "upd_vd vda (set_ms_list l1) p"
  have same1: "pool_same p ?p1" "tv_ms_list (p_vd ?p1 vda) = l1" "\<And>x. tv_dtl_list (p_vd ?p1 x) = tv_dtl_list (p_vd p x)"
    using set_list_same[where p = p and vda = vda and f = "\<lambda>_. l1"] by simp_all
  have a: "a \<in> ms" "a \<notin> set zs" "Tf a = T" "alloc_at T (p_ms ?p1 a) 0 = {}" "free_at T (p_ms ?p1 a) 0 = {}"
    using Cons.prems(4,5) tl_invD(2)[OF Cons.prems(3), of "TXG_CLEAN T"] unfolding s3[symmetric] by auto
  have ok1: "group_at t contents Tf mg ms ?p1" by (rule group_at_same[OF Cons.prems(1) _ _ _ same1(1)]) simp_all
  have rdy1: "vd_ready mg vda ms ?p1" by (rule vd_ready_same[OF Cons.prems(2) same1(1)])
  obtain p2 m where p2: "metaslab_sync_done env a T ?p1 = Inr p2" "p_ms p2 = (p_ms ?p1)(a := m)" "group_at t contents (Tf(a := T + 1)) mg ms p2"
    "p_os p2 = p_os ?p1" "pool_same ?p1 p2" "ms_smo m = ms_smo_syncing m" "ms_smo_syncing m = ms_smo_syncing (p_ms ?p1 a)"
    "view_of contents (p_os ?p1) (T + 1) m = spec_sync_done (view_of contents (p_os ?p1) T (p_ms ?p1 a))"
    "if ms_deferspace m \<noteq> 0 then listed vda a (T + 1) ?p1 p2
     else (\<forall>x. tv_ms_list (p_vd p2 x) = tv_ms_list (p_vd ?p1 x) \<and> tv_dtl_list (p_vd p2 x) = tv_dtl_list (p_vd ?p1 x))"
    using sync_done_one[OF ok1 rdy1 a(1,3) k a(4,5)] by (elim exE conjE) (rule that)
  define y where "y = (if ms_deferspace m \<noteq> 0 \<and> a \<notin> set (L (slot_at T 1)) then a # L (slot_at T 1) else L (slot_at T 1))"
  let ?L = "L(slot_at T 1 := y, slot_at T 3 := zs)"
  have tl2: "tl_inv (tv_ms_list (p_vd p2 vda)) ?L"
  proof (cases "ms_deferspace m = 0")
    case True
    then have "tv_ms_list (p_vd p2 vda) = l1" "y = L (slot_at T 1)" using p2(9) same1(2) by (auto simp: y_def)
    moreover have "?L = L(slot_at T 3 := zs)" if "y = L (slot_at T 1)" using that by auto
    ultimately show ?thesis using l1(2) by (simp only:)
  next
    case False
    then have "tv_ms_list (p_vd p2 vda) = fst (txg_list_add l1 a (T + 1))" using p2(9) same1(2) by (simp add: listed_def)
    moreover have "?L = (L(slot_at T 3 := zs))(slot_at T 1 := (if a \<in> set ((L(slot_at T 3 := zs)) (slot_at T 1))
        then (L(slot_at T 3 := zs)) (slot_at T 1) else a # (L(slot_at T 3 := zs)) (slot_at T 1)))"
      using ne False by (auto simp: y_def fun_eq_iff)
    ultimately show ?thesis using txg_list_add_inv(2)[OF l1(2) s1, of a] by (simp only:)
  qed
  have d2: "tv_dtl_list (p_vd p2 x) = tv_dtl_list (p_vd p x)" for x
    using p2(9) same1(3) by (cases "ms_deferspace m = 0") (auto simp: listed_def)
  have rdy2: "vd_ready mg vda ms p2" by (rule vd_ready_same[OF rdy1 p2(5)])
  have L2: "?L (slot_at T 3) = zs" by simp
  have all2: "\<forall>b \<in> set zs. b \<in> ms \<and> (Tf(a := T + 1)) b = T \<and> alloc_at T (p_ms p2 b) 0 = {} \<and> free_at T (p_ms p2 b) 0 = {}"
    using Cons.prems(5) a(2) p2(2) by auto
  obtain p' ys where p': "sync_done_loop env vda T p2 = Some (Inr p')"
    "group_at t contents (\<lambda>b. if b \<in> set zs then T + 1 else (Tf(a := T + 1)) b) mg ms p'" "p_os p' = p_os p2" "pool_same p2 p'"
    "tl_inv (tv_ms_list (p_vd p' vda)) (?L(slot_at T 1 := ys, slot_at T 3 := []))" "set (?L (slot_at T 1)) \<subseteq> set ys" "set ys \<subseteq> set (?L (slot_at T 1)) \<union> set zs"
    "\<forall>x. tv_dtl_list (p_vd p' x) = tv_dtl_list (p_vd p2 x)" "\<forall>b. b \<notin> set zs \<longrightarrow> p_ms p' b = p_ms p2 b"
    "\<forall>b \<in> set zs. view_of contents (p_os p2) (T + 1) (p_ms p' b) = spec_sync_done (view_of contents (p_os p2) T (p_ms p2 b))
         \<and> ms_smo (p_ms p' b) = ms_smo_syncing (p_ms p' b) \<and> ms_smo_syncing (p_ms p' b) = ms_smo_syncing (p_ms p2 b)
         \<and> (ms_deferspace (p_ms p' b) \<noteq> 0 \<longrightarrow> b \<in> set ys)"
    using Cons.IH[OF p2(3) rdy2 tl2 L2 all2] by (elim exE conjE) (rule that)
  have "sync_done_loop env vda T p = sync_done_loop env vda T p2" by (subst sync_done_loop.simps) (simp add: l1(1) p2(1))
  then have run: "sync_done_loop env vda T p = Some (Inr p')" using p'(1) by simp
  have "(\<lambda>b. if b \<in> set zs then T + 1 else (Tf(a := T + 1)) b) = (\<lambda>b. if b \<in> set (a # zs) then T + 1 else Tf b)" by auto
  then have at: "group_at t contents (\<lambda>b. if b \<in> set (a # zs) then T + 1 else Tf b) mg ms p'" using p'(2) by (simp only:)
  have "?L(slot_at T 1 := ys, slot_at T 3 := []) = L(slot_at T 1 := ys, slot_at T 3 := [])" using ne by (auto simp: fun_eq_iff)
  then have tl: "tl_inv (tv_ms_list (p_vd p' vda)) (L(slot_at T 1 := ys, slot_at T 3 := []))" using p'(5) by (simp only:)
  have y1: "?L (slot_at T 1) = y" using ne by simp
  have sub: "set (L (slot_at T 1)) \<subseteq> set ys" "set ys \<subseteq> set (L (slot_at T 1)) \<union> set (a # zs)"
    using p'(6,7) unfolding y1 by (auto simp: y_def split: if_splits)
  have amem: "a \<in> set ys" if "ms_deferspace m \<noteq> 0" using p'(6) that unfolding y1 by (auto simp: y_def split: if_splits)
  have pa: "p_ms p' a = m" using p'(9) a(2) p2(2) by simp
  have all: "\<forall>b \<in> set (a # zs). view_of contents (p_os p) (T + 1) (p_ms p' b) = spec_sync_done (view_of contents (p_os p) T (p_ms p b))
         \<and> ms_smo (p_ms p' b) = ms_smo_syncing (p_ms p' b) \<and> ms_smo_syncing (p_ms p' b) = ms_smo_syncing (p_ms p b)
         \<and> (ms_deferspace (p_ms p' b) \<noteq> 0 \<longrightarrow> b \<in> set ys)"
  proof
    fix b assume b: "b \<in> set (a # zs)"
    show "view_of contents (p_os p) (T + 1) (p_ms p' b) = spec_sync_done (view_of contents (p_os p) T (p_ms p b))
         \<and> ms_smo (p_ms p' b) = ms_smo_syncing (p_ms p' b) \<and> ms_smo_syncing (p_ms p' b) = ms_smo_syncing (p_ms p b)
         \<and> (ms_deferspace (p_ms p' b) \<noteq> 0 \<longrightarrow> b \<in> set ys)"
    proof (cases "b = a")
      case True
      then show ?thesis using p2(6-8) amem by (simp add: pa)
    next
      case False
      then have "b \<in> set zs" using b by simp
      then show ?thesis using p'(10) False p2(2,4) by simp
    qed
  qed
  have frame: "\<forall>b. b \<notin> set (a # zs) \<longrightarrow> p_ms p' b = p_ms p b" using p'(9) p2(2) by simp
  have "pool_same p p'" using pool_same_trans[OF same1(1) pool_same_trans[OF p2(5) p'(4)]] .
  moreover have "p_os p' = p_os p" using p'(3) p2(4) by simp
  moreover have "\<forall>x. tv_dtl_list (p_vd p' x) = tv_dtl_list (p_vd p x)" using p'(8) d2 by simp
  ultimately show ?case using run at tl sub frame all by (intro exI[of _ p'] exI[of _ ys] conjI) assumption+
qed

section \<open>Reassessing\<close>

lemma reassess_loop_ok:
  assumes "group_ok t contents T mg ms p" "set xs \<subseteq> ms" "\<forall>a \<in> ms. ms_smo (p_ms p a) = ms_smo_syncing (p_ms p a)"
  shows "\<exists>p'. reassess_loop mg xs p = Inr p' \<and> group_step t contents T mg ms p p'"
  using assms
proof (induction xs arbitrary: p)
  case Nil
  then show ?case using group_step_refl[OF Nil.prems(1)] by simp
next
  case (Cons a xs)
  note g = group_okD[OF Cons.prems(1)]
  have a: "a \<in> ms" using Cons.prems(2) by simp
  show ?case
  proof (cases "sm_start (ms_map (p_ms p a)) > mg_bonus_area (p_mg p mg)")
    case True
    then show ?thesis using group_step_refl[OF Cons.prems(1)] by simp
  next
    case False
    note i = ms_invD[OF g(3)[OF a]]
    let ?sp = "unat (sm_size (ms_map (p_ms p a)) - smo_alloc (ms_smo (p_ms p a)))"
    obtain tr w0 b where rw: "reweigh mg a p
        = Inr (upd_mg mg (set_tree tr) (upd_ms a (set_weight (w0 OR (if b then ms_weight (p_ms p a) AND METASLAB_ACTIVE_MASK else 0))) p))"
      "mg_inv (upd_mg mg (set_tree tr) (upd_ms a (set_weight (w0 OR (if b then ms_weight (p_ms p a) AND METASLAB_ACTIVE_MASK else 0))) p)) mg ms"
      "?sp \<le> unat w0" "unat w0 \<le> 2 * ?sp" "w0 AND METASLAB_ACTIVE_MASK = 0" "b \<longrightarrow> sm_loaded (ms_map (p_ms p a))"
      using reweigh_inv[OF g(1) a i(1,8,11)] unfolding Let_def by blast
    define w where "w = w0 OR (if b then ms_weight (p_ms p a) AND METASLAB_ACTIVE_MASK else 0)"
    let ?p = "upd_mg mg (set_tree tr) (upd_ms a (set_weight w) p)"
    have wok: "weigh_ok (set_weight w (p_ms p a))"
      unfolding w_def by (rule committed_weigh_ok[OF g(3)[OF a] _ rw(3-5)]) (use rw(6) Cons.prems(3) a in auto)
    have same: "pool_same p ?p" using pool_same_trans[OF pool_same_upd(1) pool_same_upd(2)] .
    have pm: "p_ms ?p = (p_ms p)(a := set_weight w (p_ms p a))" by simp
    have ok: "group_ok t contents T mg ms ?p"
      by (rule group_okI[OF Cons.prems(1) a pm _ same]) (use rw(2) g(3,5) a wok in \<open>simp_all add: w_def\<close>)
    have step: "group_step t contents T mg ms p ?p"
      by (rule group_stepI[OF ok _ same pm a]) (simp_all add: sm_geometry_def)
    have "\<forall>b \<in> ms. ms_smo (p_ms ?p b) = ms_smo_syncing (p_ms ?p b)" using Cons.prems(3) a by auto
    then obtain p' where "reassess_loop mg xs ?p = Inr p'" "group_step t contents T mg ms ?p p'"
      using Cons.IH[OF ok] Cons.prems(2) by auto
    then show ?thesis using False rw(1) group_step_trans[OF step] by (intro exI[of _ p']) (simp add: w_def)
  qed
qed

lemma prefetch_returns:
  assumes "avl_inv tr (ys @ zs)"
  shows "\<exists>r. prefetch_loop p tr (hd_opt zs) m acc = Some (Inr r)"
  using assms
proof (induction zs arbitrary: ys m acc)
  case Nil
  then show ?case by (simp add: prefetch_loop.simps hd_opt_def)
next
  case (Cons a zs)
  note step = prefetch_loop.simps[of p tr "Some a" m acc]
  have nx: "AVL_NEXT tr a = Inr (hd_opt zs)" using AVL_NEXT_inv[OF Cons.prems] .
  have "avl_inv tr ((ys @ [a]) @ zs)" using Cons.prems by simp
  then have "\<exists>r. prefetch_loop p tr (hd_opt zs) (m + 1) acc' = Some (Inr r)" for acc' using Cons.IH by blast
  then show ?case unfolding hd_opt_def using step nx by (simp add: Let_def hd_opt_def)
qed

lemma metaslab_sync_reassess_ok:
  assumes ok: "group_ok t contents T mg ms p" and rdy: "vd_ready mg vda ms p" and smo: "\<forall>a \<in> ms. ms_smo (p_ms p a) = ms_smo_syncing (p_ms p a)"
  shows "\<exists>p' asked. metaslab_sync_reassess mg p = Inr (p', asked) \<and> group_step t contents T mg ms p p'"
proof -
  have "mg_vd (p_mg p mg) = vda" "set (take (unat (vdev_ms_count (p_vd p vda))) (vdev_ms (p_vd p vda))) \<subseteq> ms" using rdy by (auto simp: vd_ready_def)
  then obtain p' where p': "reassess_loop mg (take (unat (vdev_ms_count (p_vd p (mg_vd (p_mg p mg))))) (vdev_ms (p_vd p (mg_vd (p_mg p mg))))) p = Inr p'"
    "group_step t contents T mg ms p p'" using reassess_loop_ok[OF ok _ smo] by auto
  have "group_ok t contents T mg ms p'" using p'(2) by (simp add: group_step_def)
  then obtain xs where xs: "avl_inv (mg_metaslab_tree (p_mg p' mg)) xs" using mg_invD[OF group_okD(1)] by metis
  obtain r where "prefetch_loop p' (mg_metaslab_tree (p_mg p' mg)) (hd_opt xs) 0 [] = Some (Inr r)"
    using prefetch_returns[of "mg_metaslab_tree (p_mg p' mg)" "[]" xs p' 0 "[]"] xs by auto
  then have "metaslab_prefetch mg p' = Inr r" by (simp add: metaslab_prefetch_def avl_first_inv[OF xs])
  then show ?thesis using p' by (intro exI[of _ p'] exI[of _ r]) (simp add: metaslab_sync_reassess_def Let_def)
qed

section \<open>A transaction group\<close>

text \<open>
  The dirty lists: a metaslab with allocations or frees in an open transaction group is on the list of that group, one with
  deferred frees on the list of the next group to sync, and the list of completed metaslabs is empty.
\<close>

definition lists_ok :: "u64 \<Rightarrow> addr set \<Rightarrow> (addr \<Rightarrow> metaslab) \<Rightarrow> (nat \<Rightarrow> addr list) \<Rightarrow> bool" where
  "lists_ok T ms f L \<longleftrightarrow> (\<forall>s < 4. set (L s) \<subseteq> ms) \<and> L (slot_at T 3) = []
     \<and> (\<forall>a \<in> ms. (\<forall>i < 3. alloc_at T (f a) i \<noteq> {} \<or> free_at T (f a) i \<noteq> {} \<longrightarrow> a \<in> set (L (slot_at T i)))
          \<and> (defer_at T (f a) 0 \<noteq> {} \<or> defer_at T (f a) 1 \<noteq> {} \<longrightarrow> a \<in> set (L (slot_at T 0))))"

text \<open>Before the first sync of a new vdev there is no array of objects and no object.\<close>

definition array_new :: "addr \<Rightarrow> addr set \<Rightarrow> 'os pool \<Rightarrow> bool" where
  "array_new vda ms p \<longleftrightarrow> vdev_ms_array (p_vd p vda) = 0 \<and> vdev_ms_shift (node_of (p_vd p vda)) \<noteq> 0 \<and> (\<forall>a \<in> ms. obj_of p a = 0)"

lemma array_new_same:
  assumes "array_new vda ms p" "pool_same p p'" "\<And>a. a \<in> ms \<Longrightarrow> ms_smo_syncing (p_ms p' a) = ms_smo_syncing (p_ms p a)"
  shows "array_new vda ms p'"
  using assms by (simp add: array_new_def pool_same_def vd_same_def)

definition vdev_ok ::
  "sm_ops_table \<Rightarrow> ('os \<Rightarrow> u64 \<Rightarrow> u64 list) \<Rightarrow> ('os \<Rightarrow> u64 set) \<Rightarrow> addr \<Rightarrow> addr \<Rightarrow> addr set \<Rightarrow> u64 \<Rightarrow> 'os pool \<Rightarrow> bool" where
  "vdev_ok t contents objs vda mg ms T p \<longleftrightarrow> group_ok t contents T mg ms p \<and> vd_ready mg vda ms p
     \<and> (objects_ok objs vda ms p \<or> array_new vda ms p)
     \<and> (\<forall>a \<in> ms. ms_smo (p_ms p a) = ms_smo_syncing (p_ms p a) \<and> free_at T (p_ms p a) 3 = {})
     \<and> (\<exists>L. tl_inv (tv_ms_list (p_vd p vda)) L \<and> lists_ok T ms (p_ms p) L)"

text \<open>There is room on disk for the logs of a sync, and no dirty time log is waiting.\<close>

definition txg_ready :: "('os \<Rightarrow> u64 \<Rightarrow> u64 list) \<Rightarrow> ('os \<Rightarrow> u64 set) \<Rightarrow> addr \<Rightarrow> addr set \<Rightarrow> u64 \<Rightarrow> 'os pool \<Rightarrow> bool" where
  "txg_ready contents objs vda ms T p \<longleftrightarrow> txg_list_empty (tv_dtl_list (p_vd p vda)) T \<and> (\<forall>a \<in> ms. sync_room contents p a)
     \<and> card (objs (p_os p)) + card ms + 2 < 2 ^ 64"

definition vdev_txg :: "'os ms_env \<Rightarrow> addr \<Rightarrow> u64 \<Rightarrow> 'os pool \<Rightarrow> 'os pool res" where
  "vdev_txg env vda T p = rbind (vdev_sync env vda T p) (vdev_sync_done env vda T)"

lemma view_sets_eq:
  assumes "view_of contents os T m = view_of contents os' T m'"
  shows "i < 3 \<Longrightarrow> alloc_at T m i = alloc_at T m' i" "i < 3 \<Longrightarrow> free_at T m i = free_at T m' i" "free_at T m 3 = free_at T m' 3"
    "defer_at T m 0 = defer_at T m' 0" "defer_at T m 1 = defer_at T m' 1"
proof -
  have e: "v_alloc (view_of contents os T m) = v_alloc (view_of contents os' T m')" "v_free (view_of contents os T m) = v_free (view_of contents os' T m')"
    "v_freed (view_of contents os T m) = v_freed (view_of contents os' T m')" "v_defer (view_of contents os T m) = v_defer (view_of contents os' T m')"
    using assms by simp_all
  show "alloc_at T m i = alloc_at T m' i" if "i < 3" using e(1) less_3_cases[OF that] by (auto simp: view_of_def Let_def)
  show "free_at T m i = free_at T m' i" if "i < 3" using e(2) less_3_cases[OF that] by (auto simp: view_of_def Let_def)
  show "free_at T m 3 = free_at T m' 3" "defer_at T m 0 = defer_at T m' 0" "defer_at T m 1 = defer_at T m' 1"
    using e(3,4) by (simp_all add: view_of_def Let_def)
qed

lemma view_sync_sets:
  assumes "view_of contents os' T m' = spec_sync (view_of contents os T m)"
  shows "alloc_at T m' 0 = {}" "free_at T m' 0 = {}" "free_at T m' 3 = free_at T m 3 \<union> free_at T m 0" "alloc_at T m' 1 = alloc_at T m 1"
    "alloc_at T m' 2 = alloc_at T m 2" "free_at T m' 1 = free_at T m 1" "free_at T m' 2 = free_at T m 2"
    "defer_at T m' 0 = defer_at T m 0" "defer_at T m' 1 = defer_at T m 1"
proof -
  have e: "v_alloc (view_of contents os' T m') = (v_alloc (view_of contents os T m))[0 := {}]" "v_free (view_of contents os' T m') = (v_free (view_of contents os T m))[0 := {}]"
    "v_freed (view_of contents os' T m') = v_freed (view_of contents os T m) \<union> v_free (view_of contents os T m) ! 0"
    "v_defer (view_of contents os' T m') = v_defer (view_of contents os T m)"
    using assms by (simp_all add: spec_sync_def)
  show "alloc_at T m' 0 = {}" "alloc_at T m' 1 = alloc_at T m 1" "alloc_at T m' 2 = alloc_at T m 2" using e(1) by (simp_all add: view_of_def Let_def)
  show "free_at T m' 0 = {}" "free_at T m' 1 = free_at T m 1" "free_at T m' 2 = free_at T m 2" using e(2) by (simp_all add: view_of_def Let_def)
  show "free_at T m' 3 = free_at T m 3 \<union> free_at T m 0" using e(3) by (simp add: view_of_def Let_def)
  show "defer_at T m' 0 = defer_at T m 0" "defer_at T m' 1 = defer_at T m 1" using e(4) by (simp_all add: view_of_def Let_def)
qed

lemma view_done_sets:
  assumes "view_of contents os' (T + 1) m' = spec_sync_done (view_of contents os T m)"
  shows "alloc_at (T + 1) m' 0 = alloc_at T m 1" "alloc_at (T + 1) m' 1 = alloc_at T m 2" "alloc_at (T + 1) m' 2 = {}"
    "free_at (T + 1) m' 0 = free_at T m 1" "free_at (T + 1) m' 1 = free_at T m 2" "free_at (T + 1) m' 2 = {}" "free_at (T + 1) m' 3 = {}"
    "defer_at (T + 1) m' 0 = defer_at T m 1" "defer_at (T + 1) m' 1 = free_at T m 3"
proof -
  have e: "v_alloc (view_of contents os' (T + 1) m') = tl (v_alloc (view_of contents os T m)) @ [{}]"
    "v_free (view_of contents os' (T + 1) m') = tl (v_free (view_of contents os T m)) @ [{}]" "v_freed (view_of contents os' (T + 1) m') = {}"
    "v_defer (view_of contents os' (T + 1) m') = tl (v_defer (view_of contents os T m)) @ [v_freed (view_of contents os T m)]"
    using assms by (simp_all add: spec_sync_done_def)
  show "alloc_at (T + 1) m' 0 = alloc_at T m 1" "alloc_at (T + 1) m' 1 = alloc_at T m 2" "alloc_at (T + 1) m' 2 = {}" using e(1) by (simp_all add: view_of_def Let_def)
  show "free_at (T + 1) m' 0 = free_at T m 1" "free_at (T + 1) m' 1 = free_at T m 2" "free_at (T + 1) m' 2 = {}" using e(2) by (simp_all add: view_of_def Let_def)
  show "free_at (T + 1) m' 3 = {}" using e(3) by (simp add: view_of_def Let_def)
  show "defer_at (T + 1) m' 0 = defer_at T m 1" "defer_at (T + 1) m' 1 = free_at T m 3" using e(4) by (simp_all add: view_of_def Let_def)
qed

lemma zero_less_3: "(0::nat) < 3" by simp

lemma vdev_sync_ok:
  assumes ok: "vdev_ok t contents objs vda mg ms T p" and k: "kmem_fresh (me_kernel env)" and mos: "mos_ok env contents objs"
    and ob: "objects_ok objs vda ms p" and dtl: "txg_list_empty (tv_dtl_list (p_vd p vda)) T" and room: "\<forall>a \<in> ms. sync_room contents p a"
    and cards: "card (objs (p_os p)) + card ms + 1 < 2 ^ 64"
  shows "\<exists>p' L. vdev_sync env vda T p = Inr p' \<and> tl_inv (tv_ms_list (p_vd p vda)) L \<and> lists_ok T ms (p_ms p) L
    \<and> group_ok t contents T mg ms p' \<and> objects_ok objs vda ms p' \<and> pool_same p p'
    \<and> tl_inv (tv_ms_list (p_vd p' vda)) (L(slot_at T 0 := [], slot_at T 3 := rev (L (slot_at T 0))))
    \<and> (\<forall>x. tv_dtl_list (p_vd p' x) = tv_dtl_list (p_vd p x))
    \<and> (\<forall>a \<in> ms. view_of contents (p_os p') T (p_ms p' a) = spec_sync (view_of contents (p_os p) T (p_ms p a))
         \<and> (a \<notin> set (L (slot_at T 0)) \<longrightarrow> p_ms p' a = p_ms p a))
    \<and> grows contents objs ms (card ms) p p'"
proof -
  have o: "group_ok t contents T mg ms p" "vd_ready mg vda ms p" "objects_ok objs vda ms p" using ok ob by (auto simp: vdev_ok_def)
  obtain L where L: "tl_inv (tv_ms_list (p_vd p vda)) L" "lists_ok T ms (p_ms p) L" using ok by (auto simp: vdev_ok_def)
  let ?xs = "L (slot_at T 0)"
  have sub: "set ?xs \<subseteq> ms" using L(2) slot_at_simps(1)[of T 0] unfolding lists_ok_def by blast
  have xs: "set ?xs \<subseteq> ms" "set ?xs \<inter> set (L (slot_at T 3)) = {}" "\<forall>a \<in> set ?xs. sync_room contents p a"
    subgoal by (rule sub)
    subgoal using L(2) by (simp add: lists_ok_def)
    subgoal using sub room by blast
    done
  have "distinct ?xs" using tl_invD(2)[OF L(1), of T] TXG_IDX_now[of T] by simp
  then have len: "length ?xs \<le> card ms" using xs(1) group_finite[OF o(1)] by (metis card_mono distinct_card)
  then have card: "card (objs (p_os p)) + length ?xs + 1 < 2 ^ 64" using cards by simp
  obtain p1 where p1: "sync_ms_loop env vda T p = Some (Inr p1)" "group_ok t contents T mg ms p1" "objects_ok objs vda ms p1" "pool_same p p1"
    "tl_inv (tv_ms_list (p_vd p1 vda)) (L(slot_at T 0 := [], slot_at T 3 := rev ?xs @ L (slot_at T 3)))"
    "\<forall>x. tv_dtl_list (p_vd p1 x) = tv_dtl_list (p_vd p x)"
    "\<forall>a \<in> ms. view_of contents (p_os p1) T (p_ms p1 a) = (if a \<in> set ?xs then spec_sync else id) (view_of contents (p_os p) T (p_ms p a))
         \<and> (a \<notin> set ?xs \<longrightarrow> p_ms p1 a = p_ms p a)"
    "\<forall>a \<in> ms. log_len contents p1 a \<le> log_len contents p a + (if a \<in> set ?xs then 2 * unat (sm_size (ms_map (p_ms p a))) + 2 else 0)"
    "card (objs (p_os p1)) \<le> card (objs (p_os p)) + length ?xs"
    using sync_ms_loop_ok[OF k mos o L(1) refl xs card] by blast
  let ?p = "p1\<lparr>p_vdev_txg_list := fst (txg_list_add (p_vdev_txg_list p1) (vdev_self (node_of (p_vd p1 vda))) (TXG_CLEAN T))\<rparr>"
  have same: "pool_same p1 ?p" by (simp add: pool_same_def vd_same_def mg_same_def)
  have arr: "vdev_ms_array (p_vd p vda) \<noteq> 0" using objects_okD(1)[OF o(3)] mos_okD(5)[OF mos, of "p_os p"] by metis
  have r: "\<not> vdev_ishole (node_of (p_vd p vda))" "\<not> vdev_removing (node_of (p_vd p vda))" using o(2) by (auto simp: vd_ready_def)
  have "tl_head (tv_dtl_list (p_vd p1 vda)) (TXG_IDX T) = None" using dtl p1(6) by (simp add: txg_list_empty_def)
  then have "sync_dtl_loop env vda T p1 = Some (Inr p1)" by (subst sync_dtl_loop.simps) (simp add: txg_list_remove_def Let_def)
  then have run: "vdev_sync env vda T p = Inr ?p" using arr r p1(1) by (simp add: vdev_sync_def sync_array_def)
  have all: "view_of contents (p_os ?p) T (p_ms ?p a) = spec_sync (view_of contents (p_os p) T (p_ms p a)) \<and> (a \<notin> set ?xs \<longrightarrow> p_ms ?p a = p_ms p a)"
    if "a \<in> ms" for a
  proof (cases "a \<in> set ?xs")
    case True
    then show ?thesis using p1(7) that by simp
  next
    case False
    then have "alloc_at T (p_ms p a) 0 = {}" "free_at T (p_ms p a) 0 = {}" using L(2) that zero_less_3 unfolding lists_ok_def by blast+
    then have "spec_sync (view_of contents (p_os p) T (p_ms p a)) = view_of contents (p_os p) T (p_ms p a)"
      by (simp add: spec_sync_def view_of_def Let_def)
    moreover have "view_of contents (p_os p1) T (p_ms p1 a) = view_of contents (p_os p) T (p_ms p a)"
      using bspec[OF p1(7) that, THEN conjunct1] False by simp
    ultimately show ?thesis using p1(7) that by simp
  qed
  have "L (slot_at T 3) = []" using L(2) by (simp add: lists_ok_def)
  then have tl: "tl_inv (tv_ms_list (p_vd ?p vda)) (L(slot_at T 0 := [], slot_at T 3 := rev ?xs))" using p1(5) by simp
  have ok': "group_ok t contents T mg ms ?p" by (rule group_ok_same[OF p1(2) _ _ _ same]) simp_all
  have ob': "objects_ok objs vda ms ?p" by (rule objects_ok_same[OF p1(3) same]) simp_all
  have dt: "\<forall>x. tv_dtl_list (p_vd ?p x) = tv_dtl_list (p_vd p x)" using p1(6) by simp
  have gr: "grows contents objs ms (card ms) p ?p"
    using p1(8,9) len unfolding grows_def by (auto split: if_splits intro: order_trans)
  show ?thesis using run L ok' ob' pool_same_trans[OF p1(4) same] tl dt all gr
    by (intro exI[of _ ?p] exI[of _ L] conjI ballI) (assumption | blast)+
qed

lemma defer_none:
  assumes "ms_inv vd contents os T m" "ms_deferspace m = 0"
  shows "defer_at T m 0 = {}" "defer_at T m 1 = {}"
proof -
  note i = ms_invD[OF assms(1)]
  have "card (defer_at T m 0) + card (defer_at T m 1) = 0" using i(10) assms(2) by simp
  moreover have "finite (defer_at T m j)" for j
    using ms_side_range[OF i(4), of "(unat T + j) mod 2"] by (auto simp: defer_at_def intro: finite_subset)
  ultimately show "defer_at T m 0 = {}" "defer_at T m 1 = {}" by auto
qed

text \<open>What \<open>vdev_sync\<close> has left is completed for every metaslab, whether it was dirty or not.\<close>

lemma vdev_sync_done_ok:
  assumes k: "kmem_fresh (me_kernel env)" and ok: "group_ok t contents T mg ms p" and rdy: "vd_ready mg vda ms p" and ob: "objects_ok objs vda ms p"
    and L: "tl_inv (tv_ms_list (p_vd p vda)) L" "L (slot_at T 0) = []" "\<forall>s < 4. set (L s) \<subseteq> ms"
    and nil: "\<forall>a \<in> ms. alloc_at T (p_ms p a) 0 = {} \<and> free_at T (p_ms p a) 0 = {}"
    and idle: "\<forall>a \<in> ms. a \<notin> set (L (slot_at T 3)) \<longrightarrow>
        free_at T (p_ms p a) 3 = {} \<and> defer_at T (p_ms p a) 0 = {} \<and> defer_at T (p_ms p a) 1 = {} \<and> ms_smo (p_ms p a) = ms_smo_syncing (p_ms p a)"
    and dirty: "\<forall>a \<in> ms. \<forall>i \<in> {1, 2}. alloc_at T (p_ms p a) i \<noteq> {} \<or> free_at T (p_ms p a) i \<noteq> {} \<longrightarrow> a \<in> set (L (slot_at T i))"
  shows "\<exists>p'. vdev_sync_done env vda T p = Inr p' \<and> vdev_ok t contents objs vda mg ms (T + 1) p' \<and> pool_same p p' \<and> p_os p' = p_os p
    \<and> (\<forall>x. tv_dtl_list (p_vd p' x) = tv_dtl_list (p_vd p x))
    \<and> (\<forall>a \<in> ms. view_of contents (p_os p) (T + 1) (p_ms p' a) = spec_sync_done (view_of contents (p_os p) T (p_ms p a)))
    \<and> (\<forall>a \<in> ms. ms_smo_syncing (p_ms p' a) = ms_smo_syncing (p_ms p a))"
proof -
  let ?zs = "L (slot_at T 3)" and ?VD = "p_vd p (mg_vd (p_mg p mg))"
  note g = group_okD[OF ok]
  have zs: "set ?zs \<subseteq> ms" using L(3) slot_at_simps(1)[of T 3] by blast
  define Tf where "Tf = (\<lambda>a. if a \<in> set ?zs then T else T + 1)"
  have adv: "ms_inv ?VD contents (p_os p) (T + 1) (p_ms p a)"
    "view_of contents (p_os p) (T + 1) (p_ms p a) = spec_sync_done (view_of contents (p_os p) T (p_ms p a))" if "a \<in> ms" "a \<notin> set ?zs" for a
    using ms_inv_idle[OF g(3)[OF that(1)]] nil idle that by blast+
  have at: "group_at t contents Tf mg ms p" using g(1-5) adv(1) unfolding group_at_def Tf_def by auto
  have all: "\<forall>a \<in> set ?zs. a \<in> ms \<and> Tf a = T \<and> alloc_at T (p_ms p a) 0 = {} \<and> free_at T (p_ms p a) 0 = {}"
    using zs nil by (auto simp: Tf_def)
  obtain p1 ys where p1: "sync_done_loop env vda T p = Some (Inr p1)" "group_at t contents (\<lambda>a. if a \<in> set ?zs then T + 1 else Tf a) mg ms p1"
    "p_os p1 = p_os p" "pool_same p p1"
    "tl_inv (tv_ms_list (p_vd p1 vda)) (L(slot_at T 1 := ys, slot_at T 3 := []))" "set (L (slot_at T 1)) \<subseteq> set ys" "set ys \<subseteq> set (L (slot_at T 1)) \<union> set ?zs"
    "\<forall>x. tv_dtl_list (p_vd p1 x) = tv_dtl_list (p_vd p x)" "\<forall>a. a \<notin> set ?zs \<longrightarrow> p_ms p1 a = p_ms p a"
    "\<forall>a \<in> set ?zs. view_of contents (p_os p) (T + 1) (p_ms p1 a) = spec_sync_done (view_of contents (p_os p) T (p_ms p a))
         \<and> ms_smo (p_ms p1 a) = ms_smo_syncing (p_ms p1 a) \<and> ms_smo_syncing (p_ms p1 a) = ms_smo_syncing (p_ms p a)
         \<and> (ms_deferspace (p_ms p1 a) \<noteq> 0 \<longrightarrow> a \<in> set ys)"
    using sync_done_loop_ok[OF k at rdy L(1) refl all] by (elim exE conjE) (rule that)
  have "(\<lambda>a. if a \<in> set ?zs then T + 1 else Tf a) = (\<lambda>_. T + 1)" by (auto simp: Tf_def)
  then have ok1: "group_ok t contents (T + 1) mg ms p1" using p1(2) by (simp add: group_at_ok)
  have v1: "view_of contents (p_os p) (T + 1) (p_ms p1 a) = spec_sync_done (view_of contents (p_os p) T (p_ms p a))"
    and smo1: "ms_smo (p_ms p1 a) = ms_smo_syncing (p_ms p1 a)" "ms_smo_syncing (p_ms p1 a) = ms_smo_syncing (p_ms p a)" if "a \<in> ms" for a
    using p1(9,10) adv(2) idle that by (cases "a \<in> set ?zs"; simp)+
  have rdy1: "vd_ready mg vda ms p1" by (rule vd_ready_same[OF rdy p1(4)])
  have ob1: "objects_ok objs vda ms p1" by (rule objects_ok_same[OF ob p1(4,3)]) (use smo1(2) in simp)
  let ?L = "L(slot_at T 1 := ys, slot_at T 3 := [])"
  have slots: "slot_at T i = slot_at T j \<longleftrightarrow> i = j" if "i < 4" "j < 4" for i j using slot_at_eq[OF that] .
  have lists: "lists_ok (T + 1) ms (p_ms p1) ?L"
  proof -
    have "set (?L s) \<subseteq> ms" if "s < 4" for s
    proof -
      have "set (L (slot_at T 1)) \<subseteq> ms" using L(3) slot_at_simps(1)[of T 1] by blast
      then have "set ys \<subseteq> ms" using p1(7) zs by blast
      then show ?thesis using L(3) that by (simp add: fun_upd_def)
    qed
    moreover have "?L (slot_at (T + 1) 3) = []" using slots[of 0 1] slots[of 0 3] L(2) by (simp add: slots_next)
    moreover have "a \<in> set (?L (slot_at (T + 1) i))"
      if a: "a \<in> ms" and i: "i < 3" and d: "alloc_at (T + 1) (p_ms p1 a) i \<noteq> {} \<or> free_at (T + 1) (p_ms p1 a) i \<noteq> {}" for a i
    proof -
      note s = view_done_sets[OF v1[OF a]]
      have "i \<noteq> 2" using d s(3,6) by auto
      then have "i = 0 \<or> i = 1" using i by auto
      then show ?thesis
      proof
        assume "i = 0"
        then have "a \<in> set (L (slot_at T 1))" using d s(1,4) dirty a by auto
        then show ?thesis using p1(6) slots[of 1 3] \<open>i = 0\<close> by (auto simp: slots_next)
      next
        assume "i = 1"
        then have "a \<in> set (L (slot_at T 2))" using d s(2,5) dirty a by auto
        then show ?thesis using slots[of 2 1] slots[of 2 3] \<open>i = 1\<close> by (simp add: slots_next)
      qed
    qed
    moreover have "a \<in> set (?L (slot_at (T + 1) 0))"
      if a: "a \<in> ms" and d: "defer_at (T + 1) (p_ms p1 a) 0 \<noteq> {} \<or> defer_at (T + 1) (p_ms p1 a) 1 \<noteq> {}" for a
    proof -
      have z: "a \<in> set ?zs" using d view_done_sets(8,9)[OF v1[OF a]] idle a by auto
      have "ms_deferspace (p_ms p1 a) \<noteq> 0" using d defer_none[OF group_okD(3)[OF ok1 a]] by auto
      then have "a \<in> set ys" using p1(10) z by blast
      then show ?thesis using slots[of 1 3] by (simp add: slots_next)
    qed
    ultimately show ?thesis unfolding lists_ok_def by blast
  qed
  have "\<exists>p'. vdev_sync_done env vda T p = Inr p' \<and> group_step t contents (T + 1) mg ms p1 p'"
  proof (cases "txg_list_empty (tv_ms_list (p_vd p vda)) (TXG_CLEAN T)")
    case True
    then show ?thesis using p1(1) rdy group_step_refl[OF ok1] by (intro exI[of _ p1]) (simp add: vdev_sync_done_def vd_ready_def)
  next
    case False
    obtain p' asked where "metaslab_sync_reassess mg p1 = Inr (p', asked)" "group_step t contents (T + 1) mg ms p1 p'"
      using metaslab_sync_reassess_ok[OF ok1 rdy1] smo1(1) by blast
    then show ?thesis using False p1(1) rdy rdy1 by (intro exI[of _ p']) (simp add: vdev_sync_done_def vd_ready_def)
  qed
  then obtain p' where p': "vdev_sync_done env vda T p = Inr p'" "group_step t contents (T + 1) mg ms p1 p'" by blast
  have st: "group_ok t contents (T + 1) mg ms p'" "p_os p' = p_os p1" "pool_same p1 p'" "p_vd p' = p_vd p1" "smo_same p1 p'"
    "\<And>a. a \<in> ms \<Longrightarrow> view_of contents (p_os p1) (T + 1) (p_ms p' a) = view_of contents (p_os p1) (T + 1) (p_ms p1 a)"
    using p'(2) unfolding group_step_def by blast+
  have "lists_ok (T + 1) ms (p_ms p') ?L"
    using lists view_sets_eq[OF st(6)] unfolding lists_ok_def by simp
  moreover have "free_at (T + 1) (p_ms p' a) 3 = {}" if "a \<in> ms" for a
    using view_sets_eq(3)[OF st(6)[OF that]] view_done_sets(7)[OF v1[OF that]] by simp
  moreover have "objects_ok objs vda ms p'" by (rule objects_ok_same[OF ob1 st(3,2)]) (use st(5) in \<open>simp add: smo_same_def\<close>)
  moreover have "ms_smo (p_ms p' a) = ms_smo_syncing (p_ms p' a)" if "a \<in> ms" for a using st(5) smo1(1)[OF that] by (simp add: smo_same_def)
  ultimately have "vdev_ok t contents objs vda mg ms (T + 1) p'"
    unfolding vdev_ok_def using st(1,4) vd_ready_same[OF rdy1 st(3)] p1(5) by auto
  moreover have "ms_smo_syncing (p_ms p' a) = ms_smo_syncing (p_ms p a)" if "a \<in> ms" for a using st(5) smo1(2)[OF that] by (simp add: smo_same_def)
  ultimately show ?thesis using p'(1) pool_same_trans[OF p1(4) st(3)] st(2,4,6) p1(3,8) v1 by (intro exI[of _ p']) simp
qed

text \<open>The first sync of a new vdev allocates the array of objects; then it goes on as always.\<close>

lemma vdev_sync_first:
  assumes ok: "vdev_ok t contents objs vda mg ms T p" and mos: "mos_ok env contents objs" and cards: "card (objs (p_os p)) + 1 < 2 ^ 64"
  shows "\<exists>p1. vdev_sync env vda T p = vdev_sync env vda T p1 \<and> vdev_ok t contents objs vda mg ms T p1 \<and> objects_ok objs vda ms p1 \<and> p_ms p1 = p_ms p \<and> tv_tree (p_vd p1 vda) = tv_tree (p_vd p vda) \<and> vdev_ms_count (p_vd p1 vda) = vdev_ms_count (p_vd p vda)
    \<and> card (objs (p_os p1)) \<le> card (objs (p_os p)) + 1 \<and> (\<forall>x. tv_dtl_list (p_vd p1 x) = tv_dtl_list (p_vd p x))
    \<and> (\<forall>a \<in> ms. view_of contents (p_os p1) T (p_ms p a) = view_of contents (p_os p) T (p_ms p a) \<and> log_len contents p1 a = log_len contents p a)"
proof (cases "objects_ok objs vda ms p")
  case True
  then show ?thesis using ok by (intro exI[of _ p]) simp
next
  case False
  then have new: "array_new vda ms p" using ok by (auto simp: vdev_ok_def)
  have o: "group_ok t contents T mg ms p" "vd_ready mg vda ms p" "\<forall>a \<in> ms. ms_smo (p_ms p a) = ms_smo_syncing (p_ms p a) \<and> free_at T (p_ms p a) 3 = {}"
    using ok by (simp_all add: vdev_ok_def)
  obtain obj os where a: "me_object_alloc env (p_os p) = (obj, os)" "obj \<noteq> 0" "obj \<notin> objs (p_os p)" "contents os = (contents (p_os p))(obj := [])"
    "objs os = insert obj (objs (p_os p))" using mos_okD(6)[OF mos objs_left[OF cards]] by blast
  let ?p = "config_dirty_top vda ((upd_vd vda (\<lambda>v. v\<lparr>vdev_ms_array := obj\<rparr>) p)\<lparr>p_os := os\<rparr>)"
  have f: "p_ms ?p = p_ms p" "p_mg ?p = p_mg p" "p_mc ?p = p_mc p" "p_os ?p = os" "vdev_ms_array (p_vd ?p vda) = obj"
    "tv_tree (p_vd ?p x) = tv_tree (p_vd p x)" "vdev_ms_count (p_vd ?p x) = vdev_ms_count (p_vd p x)" "vdev_mg (p_vd ?p x) = vdev_mg (p_vd p x)"
    "vdev_ms (p_vd ?p x) = vdev_ms (p_vd p x)" "vdev_deflate_ratio (p_vd ?p x) = vdev_deflate_ratio (p_vd p x)"
    "vdev_isl2cache (p_vd ?p x) = vdev_isl2cache (p_vd p x)" "tv_ms_list (p_vd ?p x) = tv_ms_list (p_vd p x)" "tv_dtl_list (p_vd ?p x) = tv_dtl_list (p_vd p x)" for x
    by (simp_all add: config_dirty_top_def)
  have z: "obj_of p b = 0" "smo_object (ms_smo (p_ms p b)) = 0" if "b \<in> ms" for b using new o(3) that by (auto simp: array_new_def)
  have fr: "ms_inv v contents os T (p_ms p b) = ms_inv v contents (p_os p) T (p_ms p b)" "view_of contents os T (p_ms p b) = view_of contents (p_os p) T (p_ms p b)"
    if "b \<in> ms" for b v by (rule ms_inv_frame; use z[OF that] a(2,4) in simp)+
  have pl: "ms_inv (p_vd ?p x) contents os' T m = ms_inv (p_vd p x) contents os' T m" for x os' m
    using f(6,7)[of x] by (simp add: ms_inv_def ms_place_def)
  have "mg_inv ?p mg ms" by (rule mg_inv_cong[OF group_okD(1)[OF o(1)]]) (simp_all add: f)
  then have "group_ok t contents T mg ms ?p"
    using group_okD[OF o(1)] unfolding group_ok_def f(1-4) pl by (simp add: fr)
  moreover have rdy: "vd_ready mg vda ms ?p" using o(2) unfolding vd_ready_def f by simp
  moreover have ob: "objects_ok objs vda ms ?p" using z(1) unfolding objects_ok_def f a(5) by simp
  moreover have "\<exists>L. tl_inv (tv_ms_list (p_vd ?p vda)) L \<and> lists_ok T ms (p_ms ?p) L" using ok unfolding vdev_ok_def f by blast
  ultimately have "vdev_ok t contents objs vda mg ms T ?p" using o(3) unfolding vdev_ok_def f by blast
  moreover have "sync_array env vda p = Inr ?p" using new a(1,2) by (simp add: sync_array_def array_new_def)
  then have "vdev_sync env vda T p = vdev_sync env vda T ?p"
    using o(2) rdy a(2) f(5) by (simp add: vdev_sync_def vd_ready_def sync_array_def)
  moreover have "log_len contents ?p b = log_len contents p b" if "b \<in> ms" for b using z(1)[OF that] a(2,4) unfolding f by simp
  moreover have "card (objs os) \<le> card (objs (p_os p)) + 1" using a(5) by (simp add: card_insert_if)
  ultimately show ?thesis using ob f fr by (intro exI[of _ ?p]) simp
qed

lemma vdev_txg_ready:
  assumes ok: "vdev_ok t contents objs vda mg ms T p" and k: "kmem_fresh (me_kernel env)" and mos: "mos_ok env contents objs"
    and ob: "objects_ok objs vda ms p" and dtl: "txg_list_empty (tv_dtl_list (p_vd p vda)) T" and room: "\<forall>a \<in> ms. sync_room contents p a"
    and cards: "card (objs (p_os p)) + card ms + 1 < 2 ^ 64"
  shows "\<exists>p'. vdev_txg env vda T p = Inr p' \<and> vdev_ok t contents objs vda mg ms (T + 1) p'
    \<and> (\<forall>x. tv_dtl_list (p_vd p' x) = tv_dtl_list (p_vd p x))
    \<and> (\<forall>a \<in> ms. view_of contents (p_os p') (T + 1) (p_ms p' a) = spec_sync_done (spec_sync (view_of contents (p_os p) T (p_ms p a))))
    \<and> grows contents objs ms (card ms) p p' \<and> tv_tree (p_vd p' vda) = tv_tree (p_vd p vda) \<and> vdev_ms_count (p_vd p' vda) = vdev_ms_count (p_vd p vda)"
proof -
  obtain p1 L where s: "vdev_sync env vda T p = Inr p1" "tl_inv (tv_ms_list (p_vd p vda)) L" "lists_ok T ms (p_ms p) L"
    "group_ok t contents T mg ms p1" "objects_ok objs vda ms p1" "pool_same p p1"
    "tl_inv (tv_ms_list (p_vd p1 vda)) (L(slot_at T 0 := [], slot_at T 3 := rev (L (slot_at T 0))))" "\<forall>x. tv_dtl_list (p_vd p1 x) = tv_dtl_list (p_vd p x)"
    "\<forall>a \<in> ms. view_of contents (p_os p1) T (p_ms p1 a) = spec_sync (view_of contents (p_os p) T (p_ms p a))
         \<and> (a \<notin> set (L (slot_at T 0)) \<longrightarrow> p_ms p1 a = p_ms p a)" "grows contents objs ms (card ms) p p1"
    using vdev_sync_ok[OF ok k mos ob dtl room cards] by (elim exE conjE) (rule that)
  let ?L = "L(slot_at T 0 := [], slot_at T 3 := rev (L (slot_at T 0)))"
  have slots: "slot_at T i = slot_at T j \<longleftrightarrow> i = j" if "i < 4" "j < 4" for i j using slot_at_eq[OF that] .
  have rdy1: "vd_ready mg vda ms p1" using ok s(6) vd_ready_same by (auto simp: vdev_ok_def)
  have v: "view_of contents (p_os p1) T (p_ms p1 a) = spec_sync (view_of contents (p_os p) T (p_ms p a))" if "a \<in> ms" for a using s(9) that by blast
  have old: "ms_smo (p_ms p a) = ms_smo_syncing (p_ms p a)" "free_at T (p_ms p a) 3 = {}" if "a \<in> ms" for a using ok that by (auto simp: vdev_ok_def)
  have L0: "?L (slot_at T 0) = []" using slots[of 0 3] by simp
  have sub: "\<forall>u < 4. set (?L u) \<subseteq> ms" using s(3) slot_at_simps(1)[of T 0] unfolding lists_ok_def by auto
  have nil: "\<forall>a \<in> ms. alloc_at T (p_ms p1 a) 0 = {} \<and> free_at T (p_ms p1 a) 0 = {}" using view_sync_sets(1,2)[OF v] by blast
  have idle: "\<forall>a \<in> ms. a \<notin> set (?L (slot_at T 3)) \<longrightarrow>
        free_at T (p_ms p1 a) 3 = {} \<and> defer_at T (p_ms p1 a) 0 = {} \<and> defer_at T (p_ms p1 a) 1 = {} \<and> ms_smo (p_ms p1 a) = ms_smo_syncing (p_ms p1 a)"
  proof (intro ballI impI)
    fix a assume a: "a \<in> ms" "a \<notin> set (?L (slot_at T 3))"
    then have n: "a \<notin> set (L (slot_at T 0))" by simp
    then have "p_ms p1 a = p_ms p a" using s(9) a(1) by blast
    moreover have "defer_at T (p_ms p a) 0 = {} \<and> defer_at T (p_ms p a) 1 = {}" using n s(3) a(1) by (auto simp: lists_ok_def)
    ultimately show "free_at T (p_ms p1 a) 3 = {} \<and> defer_at T (p_ms p1 a) 0 = {} \<and> defer_at T (p_ms p1 a) 1 = {} \<and> ms_smo (p_ms p1 a) = ms_smo_syncing (p_ms p1 a)"
      using old[OF a(1)] by simp
  qed
  have dirty: "\<forall>a \<in> ms. \<forall>i \<in> {1, 2}. alloc_at T (p_ms p1 a) i \<noteq> {} \<or> free_at T (p_ms p1 a) i \<noteq> {} \<longrightarrow> a \<in> set (?L (slot_at T i))"
  proof (intro ballI impI)
    fix a i assume a: "a \<in> ms" "i \<in> {1, 2 :: nat}" "alloc_at T (p_ms p1 a) i \<noteq> {} \<or> free_at T (p_ms p1 a) i \<noteq> {}"
    then have "alloc_at T (p_ms p a) i \<noteq> {} \<or> free_at T (p_ms p a) i \<noteq> {}" using view_sync_sets[OF v[OF a(1)]] by auto
    moreover have "i < 3" using a(2) by auto
    ultimately have "a \<in> set (L (slot_at T i))" using s(3) a(1) unfolding lists_ok_def by blast
    then show "a \<in> set (?L (slot_at T i))" using slots[of i 0] slots[of i 3] a(2) by auto
  qed
  obtain p' where d: "vdev_sync_done env vda T p1 = Inr p'" "vdev_ok t contents objs vda mg ms (T + 1) p'" "pool_same p1 p'" "p_os p' = p_os p1"
    "\<forall>x. tv_dtl_list (p_vd p' x) = tv_dtl_list (p_vd p1 x)"
    "\<forall>a \<in> ms. view_of contents (p_os p1) (T + 1) (p_ms p' a) = spec_sync_done (view_of contents (p_os p1) T (p_ms p1 a))"
    "\<forall>a \<in> ms. ms_smo_syncing (p_ms p' a) = ms_smo_syncing (p_ms p1 a)"
    using vdev_sync_done_ok[OF k s(4) rdy1 s(5,7) L0 sub nil idle dirty] by (elim exE conjE) (rule that)
  moreover have "grows contents objs ms (card ms) p p'" using s(10) d(4,7) by (simp add: grows_def)
  moreover have "tv_tree (p_vd p' vda) = tv_tree (p_vd p vda)" "vdev_ms_count (p_vd p' vda) = vdev_ms_count (p_vd p vda)" using pool_same_trans[OF s(6) d(3)] by (simp_all add: pool_same_def vd_same_def)
  ultimately show ?thesis using s(1,8) v by (intro exI[of _ p']) (simp add: vdev_txg_def)
qed

lemma vdev_txg_ok:
  assumes ok: "vdev_ok t contents objs vda mg ms T p" and k: "kmem_fresh (me_kernel env)" and mos: "mos_ok env contents objs"
    and room: "txg_ready contents objs vda ms T p"
  shows "\<exists>p'. vdev_txg env vda T p = Inr p' \<and> vdev_ok t contents objs vda mg ms (T + 1) p'
    \<and> (\<forall>x. tv_dtl_list (p_vd p' x) = tv_dtl_list (p_vd p x))
    \<and> (\<forall>a \<in> ms. view_of contents (p_os p') (T + 1) (p_ms p' a) = spec_sync_done (spec_sync (view_of contents (p_os p) T (p_ms p a))))
    \<and> grows contents objs ms (card ms + 1) p p' \<and> tv_tree (p_vd p' vda) = tv_tree (p_vd p vda) \<and> vdev_ms_count (p_vd p' vda) = vdev_ms_count (p_vd p vda)"
proof -
  obtain p1 where p1: "vdev_sync env vda T p = vdev_sync env vda T p1" "vdev_ok t contents objs vda mg ms T p1" "objects_ok objs vda ms p1" "p_ms p1 = p_ms p"
    "tv_tree (p_vd p1 vda) = tv_tree (p_vd p vda)" "vdev_ms_count (p_vd p1 vda) = vdev_ms_count (p_vd p vda)"
    "card (objs (p_os p1)) \<le> card (objs (p_os p)) + 1" "\<forall>x. tv_dtl_list (p_vd p1 x) = tv_dtl_list (p_vd p x)"
    "\<forall>a \<in> ms. view_of contents (p_os p1) T (p_ms p a) = view_of contents (p_os p) T (p_ms p a) \<and> log_len contents p1 a = log_len contents p a"
    using vdev_sync_first[OF ok mos] room by (auto simp: txg_ready_def)
  have len: "log_len contents p1 a = log_len contents p a" if "a \<in> ms" for a using p1(9) that by blast
  have r: "txg_list_empty (tv_dtl_list (p_vd p1 vda)) T" "\<forall>a \<in> ms. sync_room contents p a" "card (objs (p_os p1)) + card ms + 1 < 2 ^ 64"
    using room p1(7,8) by (auto simp: txg_ready_def)
  have "\<forall>a \<in> ms. sync_room contents p1 a" using r(2) len p1(4) unfolding sync_room_def by simp
  note r = vdev_txg_ready[OF p1(2) k mos p1(3) r(1) this r(3)]
  have "grows contents objs ms (card ms + 1) p p'" if "grows contents objs ms (card ms) p1 p'" for p'
    using that len p1(4,7) unfolding grows_def by auto
  moreover have "vdev_txg env vda T p = vdev_txg env vda T p1" by (simp add: vdev_txg_def p1(1))
  ultimately show ?thesis using r p1(4,5,6,8,9) by auto
qed

section \<open>Room for more syncs\<close>

text \<open>
  There is room for \<open>N\<close> more syncs: space in the logs, numbers for objects, and no dirty time log is
  waiting to be written.
\<close>

definition room :: "('os \<Rightarrow> u64 \<Rightarrow> u64 list) \<Rightarrow> ('os \<Rightarrow> u64 set) \<Rightarrow> addr \<Rightarrow> addr set \<Rightarrow> nat \<Rightarrow> 'os pool \<Rightarrow> bool" where
  "room contents objs vda ms N p \<longleftrightarrow>
     (\<forall>a \<in> ms. 8 * (log_len contents p a + N * (2 * 2 ^ unat (vdev_ms_shift (node_of (p_vd p vda))) + 2)) + 4096 < 2 ^ 64)
     \<and> card (objs (p_os p)) + N * (card ms + 1) + 1 < 2 ^ 64 \<and> (\<forall>T. txg_list_empty (tv_dtl_list (p_vd p vda)) T)"

lemma vdev_ok_size:
  assumes "vdev_ok t contents objs vda mg ms T p" "a \<in> ms"
  shows "unat (sm_size (ms_map (p_ms p a))) = 2 ^ unat (vdev_ms_shift (node_of (p_vd p vda)))"
proof -
  have "group_ok t contents T mg ms p" "mg_vd (p_mg p mg) = vda" using assms(1) by (auto simp: vdev_ok_def vd_ready_def)
  then show ?thesis using ms_invD(1)[OF group_okD(3)] assms(2) by (fastforce simp: ms_place_def Let_def)
qed

lemma room_ready:
  assumes "vdev_ok t contents objs vda mg ms T p" "room contents objs vda ms (Suc N) p"
  shows "txg_ready contents objs vda ms T p"
proof -
  have "sync_room contents p a" if "a \<in> ms" for a
    using assms(2) that vdev_ok_size[OF assms(1) that] by (auto simp: room_def sync_room_def algebra_simps dest: bspec)
  then show ?thesis using assms(2) by (simp add: txg_ready_def room_def)
qed

lemma room_txg:
  assumes ok: "vdev_ok t contents objs vda mg ms T p" and room: "room contents objs vda ms (Suc N) p"
    and p': "grows contents objs ms (card ms + 1) p p'" "tv_tree (p_vd p' vda) = tv_tree (p_vd p vda)" "tv_dtl_list (p_vd p' vda) = tv_dtl_list (p_vd p vda)"
  shows "room contents objs vda ms N p'"
proof -
  let ?K = "2 * 2 ^ unat (vdev_ms_shift (node_of (p_vd p vda))) + 2 :: nat"
  have "8 * (log_len contents p' a + N * ?K) + 4096 < 2 ^ 64" if "a \<in> ms" for a
  proof -
    have "log_len contents p' a \<le> log_len contents p a + ?K" using p'(1) that vdev_ok_size[OF ok that] by (auto simp: grows_def dest: bspec)
    moreover have "8 * (log_len contents p a + Suc N * ?K) + 4096 < 2 ^ 64" using room that by (auto simp: room_def dest: bspec)
    ultimately show ?thesis by (simp add: algebra_simps)
  qed
  moreover have "card (objs (p_os p')) + N * (card ms + 1) + 1 < 2 ^ 64" using p'(1) room by (simp add: grows_def room_def)
  ultimately show ?thesis using room p'(2,3) by (simp add: room_def)
qed

end
