(* ===== verification/Vdev_Run.thy ===== *)
theory Vdev_Run
  imports Vdev_Txg
begin

text \<open>
  A top-level vdev in service: the requests that its metaslabs serve between two syncs, the runs
  made of requests and syncs, what every run keeps, and when freed space comes back.
\<close>

section \<open>Requests\<close>

text \<open>
  Allocations and frees of the transaction groups \<open>T\<close> (syncing), \<open>T + 1\<close> and \<open>T + 2\<close>: \<open>i\<close> says
  which one.
\<close>

datatype request =
    Alloc (req_size: u64) (req_i: nat) (req_distance: u64) (req_dva: "dva list") (req_d: nat)
  | Free (req_blk: dva) (req_i: nat)
  | Free_Now (req_blk: dva) (req_i: nat)

fun run_request :: "'os ms_env \<Rightarrow> addr \<Rightarrow> u64 \<Rightarrow> request \<Rightarrow> 'os pool \<Rightarrow> 'os pool res" where
  "run_request env mg T (Alloc size' i md dva d) p = rbind (metaslab_group_alloc env mg size' (T + of_nat i) md dva d p) (\<lambda>(p, off). Inr p)"
| "run_request env mg T (Free dva i) p = metaslab_free_dva env dva (T + of_nat i) False p"
| "run_request env mg T (Free_Now dva i) p = metaslab_free_dva env dva (T + of_nat i) True p"

text \<open>What the callers must see to: sizes in the unit of the map and at most 10 MiB; only space in use is freed.\<close>

fun permitted :: "'os ms_env \<Rightarrow> ('os \<Rightarrow> u64 \<Rightarrow> u64 list) \<Rightarrow> addr \<Rightarrow> addr set \<Rightarrow> u64 \<Rightarrow> 'os pool \<Rightarrow> request \<Rightarrow> bool" where
  "permitted env contents vda ms T p (Alloc size' i md dva d) \<longleftrightarrow> i < 3 \<and> (\<forall>a \<in> ms. size_ok (ms_map (p_ms p a)) size')"
| "permitted env contents vda ms T p (Free dva i) \<longleftrightarrow> i < 3 \<and> DVA_IS_VALID dva \<and> T + of_nat i \<le> spa_freeze_txg env
     \<and> (\<exists>a \<in> ms. dva_metaslab p dva = Some (vda, a) \<and> sm_range (ms_map (p_ms p a)) (DVA_GET_OFFSET dva) (free_size (p_vd p vda) dva)
          \<and> in_use i (range_set (DVA_GET_OFFSET dva) (free_size (p_vd p vda) dva)) (view_of contents (p_os p) T (p_ms p a)))"
| "permitted env contents vda ms T p (Free_Now dva i) \<longleftrightarrow> i < 3 \<and> DVA_IS_VALID dva \<and> T + of_nat i \<le> spa_freeze_txg env
     \<and> (\<exists>a \<in> ms. dva_metaslab p dva = Some (vda, a) \<and> sm_range (ms_map (p_ms p a)) (DVA_GET_OFFSET dva) (free_size (p_vd p vda) dva)
          \<and> range_set (DVA_GET_OFFSET dva) (free_size (p_vd p vda) dva) \<subseteq> alloc_at T (p_ms p a) i
          \<and> (\<forall>F \<in> set (v_free (view_of contents (p_os p) T (p_ms p a))). range_set (DVA_GET_OFFSET dva) (free_size (p_vd p vda) dva) \<inter> F = {}))"

text \<open>The space that a request gives back.\<close>

fun freed_by :: "addr \<Rightarrow> 'os pool \<Rightarrow> request \<Rightarrow> nat set" where
  "freed_by vda p (Alloc size' i md dva d) = {}"
| "freed_by vda p (Free dva i) = range_set (DVA_GET_OFFSET dva) (free_size (p_vd p vda) dva)"
| "freed_by vda p (Free_Now dva i) = range_set (DVA_GET_OFFSET dva) (free_size (p_vd p vda) dva)"

text \<open>What a request does to the view of a metaslab: nothing, an allocation, or a free of \<open>F\<close>.\<close>

inductive view_step :: "nat set \<Rightarrow> ms_view \<Rightarrow> ms_view \<Rightarrow> bool" for F v where
  same: "view_step F v v"
| alloc: "i < 3 \<Longrightarrow> R \<subseteq> v_avail v \<Longrightarrow> view_step F v (spec_alloc i R v)"
| free: "i < 3 \<Longrightarrow> in_use i F v \<Longrightarrow> view_step F v (spec_free i F v)"
| free_now: "i < 3 \<Longrightarrow> F \<subseteq> v_alloc v ! i \<Longrightarrow> \<forall>G \<in> set (v_free v). F \<inter> G = {} \<Longrightarrow> view_step F v (spec_free_now i F v)"

section \<open>Requests keep the vdev in order\<close>

lemma vdev_ok_use:
  assumes ok: "vdev_ok t contents objs vda mg ms T p" and p': "group_ok t contents T mg ms p'" "p_os p' = p_os p" "pool_same p p'" "smo_same p p'"
    and i3: "i < 3" and lst: "p_vd p' = p_vd p \<or> (\<exists>a \<in> ms. listed vda a (T + of_nat i) p p')"
    and sets: "\<And>b j. b \<in> ms \<Longrightarrow> j < 3 \<Longrightarrow> alloc_at T (p_ms p' b) j \<noteq> {} \<or> free_at T (p_ms p' b) j \<noteq> {} \<Longrightarrow>
        alloc_at T (p_ms p b) j \<noteq> {} \<or> free_at T (p_ms p b) j \<noteq> {} \<or> j = i \<and> listed vda b (T + of_nat i) p p'"
    and keep: "\<And>b. b \<in> ms \<Longrightarrow> free_at T (p_ms p' b) 3 = free_at T (p_ms p b) 3 \<and> defer_at T (p_ms p' b) 0 = defer_at T (p_ms p b) 0
        \<and> defer_at T (p_ms p' b) 1 = defer_at T (p_ms p b) 1"
  shows "vdev_ok t contents objs vda mg ms T p'"
proof -
  have o: "vd_ready mg vda ms p" "objects_ok objs vda ms p \<or> array_new vda ms p" "\<forall>a \<in> ms. ms_smo (p_ms p a) = ms_smo_syncing (p_ms p a) \<and> free_at T (p_ms p a) 3 = {}"
    using ok by (simp_all add: vdev_ok_def)
  obtain L where L: "tl_inv (tv_ms_list (p_vd p vda)) L" "lists_ok T ms (p_ms p) L" using ok by (auto simp: vdev_ok_def)
  have smo: "ms_smo (p_ms p' b) = ms_smo (p_ms p b)" "ms_smo_syncing (p_ms p' b) = ms_smo_syncing (p_ms p b)" for b using p'(4) by (simp_all add: smo_same_def)
  have idx: "slot_at T i = TXG_IDX (T + of_nat i)" by (simp add: TXG_IDX_slot)
  obtain L' where L': "tl_inv (tv_ms_list (p_vd p' vda)) L'" "\<And>s. set (L s) \<subseteq> set (L' s)" "\<And>s. s \<noteq> slot_at T i \<Longrightarrow> L' s = L s"
    "\<And>s. set (L' s) \<subseteq> set (L s) \<union> ms" "\<And>b. b \<in> ms \<Longrightarrow> listed vda b (T + of_nat i) p p' \<Longrightarrow> b \<in> set (L' (slot_at T i))"
  proof (cases "\<exists>a \<in> ms. listed vda a (T + of_nat i) p p'")
    case True
    then obtain a where a: "a \<in> ms" "listed vda a (T + of_nat i) p p'" by blast
    let ?s = "slot_at T i"
    let ?L = "L(?s := (if a \<in> set (L ?s) then L ?s else a # L ?s))"
    have tl: "tl_inv (tv_ms_list (p_vd p' vda)) ?L"
      using txg_list_add_inv(2)[OF L(1) idx, where p = a] a(2) by (simp add: listed_def)
    have "b \<in> set (?L ?s)" if "listed vda b (T + of_nat i) p p'" for b
    proof -
      have "tn_member (tl_mem (tv_ms_list (p_vd p' vda)) b) (TXG_IDX (T + of_nat i))"
        using that by (simp add: listed_def txg_list_add_def Let_def set_head_def set_member_def set_next_def)
      then show ?thesis using tl_invD(3)[OF tl, where txg = "T + of_nat i"] by (simp add: idx)
    qed
    then show thesis using tl a(1) by (intro that[of ?L]) auto
  qed (use lst L(1) in \<open>auto intro: that[of L]\<close>)
  have "lists_ok T ms (p_ms p') L'"
    unfolding lists_ok_def
  proof (intro conjI ballI allI impI)
    fix s :: nat assume "s < 4"
    then show "set (L' s) \<subseteq> ms" using L(2) L'(4)[of s] unfolding lists_ok_def by blast
  next
    show "L' (slot_at T 3) = []" using L(2) L'(3)[of "slot_at T 3"] slot_at_eq[of 3 i T] i3 by (simp add: lists_ok_def)
  next
    fix b j assume b: "b \<in> ms" "j < (3::nat)" "alloc_at T (p_ms p' b) j \<noteq> {} \<or> free_at T (p_ms p' b) j \<noteq> {}"
    from sets[OF b] consider "j = i" "listed vda b (T + of_nat i) p p'" | "alloc_at T (p_ms p b) j \<noteq> {} \<or> free_at T (p_ms p b) j \<noteq> {}" by blast
    then show "b \<in> set (L' (slot_at T j))"
    proof cases
      case 2
      then have "b \<in> set (L (slot_at T j))" using L(2) b(1,2) unfolding lists_ok_def by blast
      then show ?thesis using L'(2) by blast
    qed (use L'(5) b(1) in blast)
  next
    fix b assume b: "b \<in> ms" "defer_at T (p_ms p' b) 0 \<noteq> {} \<or> defer_at T (p_ms p' b) 1 \<noteq> {}"
    then have "defer_at T (p_ms p b) 0 \<noteq> {} \<or> defer_at T (p_ms p b) 1 \<noteq> {}" using keep[OF b(1)] by simp
    then have "b \<in> set (L (slot_at T 0))" using L(2) b(1) unfolding lists_ok_def by blast
    then show "b \<in> set (L' (slot_at T 0))" using L'(2) by blast
  qed
  moreover have ob: "objects_ok objs vda ms p' \<or> array_new vda ms p'"
    using o(2) objects_ok_same[OF _ p'(3,2)] array_new_same[OF _ p'(3)] smo(2) by blast
  ultimately show ?thesis unfolding vdev_ok_def using p'(1) vd_ready_same[OF o(1) p'(3)] o(3) smo keep L'(1) ob by auto
qed

lemma view_lists [simp]:
  "i < 3 \<Longrightarrow> v_alloc (view_of contents os T m) ! i = alloc_at T m i" "i < 3 \<Longrightarrow> v_free (view_of contents os T m) ! i = free_at T m i"
  "v_freed (view_of contents os T m) = free_at T m 3" "v_defer (view_of contents os T m) = [defer_at T m 0, defer_at T m 1]"
  "length (v_alloc (view_of contents os T m)) = 3" "length (v_free (view_of contents os T m)) = 3"
  using less_3_cases[of i] by (auto simp: view_of_def Let_def)

text \<open>The maps of a metaslab, read off what a request does to the view.\<close>

lemma view_op_sets:
  assumes v: "view_of contents os T m' = f (view_of contents os T m)"
    and f: "f = id \<or> f = spec_alloc i R \<or> f = spec_free i R \<or> f = spec_free_now i R" and ij: "i < 3" "j < 3"
  shows "alloc_at T m' j \<noteq> {} \<or> free_at T m' j \<noteq> {} \<Longrightarrow>
      alloc_at T m j \<noteq> {} \<or> free_at T m j \<noteq> {} \<or> j = i \<and> (f = spec_alloc i R \<or> f = spec_free i R)"
    "free_at T m' 3 = free_at T m 3 \<and> defer_at T m' 0 = defer_at T m 0 \<and> defer_at T m' 1 = defer_at T m 1"
proof -
  let ?v = "view_of contents os T m" and ?v' = "view_of contents os T m'"
  have a: "alloc_at T m' j = v_alloc ?v' ! j" "free_at T m' j = v_free ?v' ! j" using ij by simp_all
  show "alloc_at T m j \<noteq> {} \<or> free_at T m j \<noteq> {} \<or> j = i \<and> (f = spec_alloc i R \<or> f = spec_free i R)"
    if "alloc_at T m' j \<noteq> {} \<or> free_at T m' j \<noteq> {}"
    using that f ij unfolding a v by (auto simp: spec_alloc_def spec_free_def spec_free_now_def nth_list_update split: if_splits)
  have "v_freed ?v' = v_freed ?v" "v_defer ?v' = v_defer ?v" using v f by (auto simp: spec_alloc_def spec_free_def spec_free_now_def)
  then show "free_at T m' 3 = free_at T m 3 \<and> defer_at T m' 0 = defer_at T m 0 \<and> defer_at T m' 1 = defer_at T m 1" by simp
qed

text \<open>A request changes one metaslab; that metaslab is on the dirty list when it has something to write.\<close>

lemma vdev_ok_request:
  assumes ok: "vdev_ok t contents objs vda mg ms T p" and p': "group_ok t contents T mg ms p'" "p_os p' = p_os p" "pool_same p p'" "smo_same p p'"
    and i3: "i < 3" and a: "a \<in> ms" and f: "f = id \<or> f = spec_alloc i R \<or> f = spec_free i R \<or> f = spec_free_now i R"
    and v: "\<And>b. b \<in> ms \<Longrightarrow> view_of contents (p_os p) T (p_ms p' b) = (if b = a then f else id) (view_of contents (p_os p) T (p_ms p b))"
    and lst: "listed vda a (T + of_nat i) p p' \<or> p_vd p' = p_vd p \<and> (f = id \<or> f = spec_free_now i R \<or> alloc_at T (p_ms p a) i \<noteq> {} \<or> free_at T (p_ms p a) i \<noteq> {})"
  shows "vdev_ok t contents objs vda mg ms T p'"
proof (rule vdev_ok_use[OF ok p' i3])
  show "p_vd p' = p_vd p \<or> (\<exists>a \<in> ms. listed vda a (T + of_nat i) p p')" using lst a by blast
next
  fix b j assume b: "b \<in> ms" "j < (3::nat)" "alloc_at T (p_ms p' b) j \<noteq> {} \<or> free_at T (p_ms p' b) j \<noteq> {}"
  have g: "(if b = a then f else id) = id \<or> (if b = a then f else id) = spec_alloc i R \<or> (if b = a then f else id) = spec_free i R
      \<or> (if b = a then f else id) = spec_free_now i R" using f by auto
  note s = view_op_sets(1)[where f = "if b = a then f else id" and R = R, OF v[OF b(1)] g i3 b(2,3)]
  show "alloc_at T (p_ms p b) j \<noteq> {} \<or> free_at T (p_ms p b) j \<noteq> {} \<or> j = i \<and> listed vda b (T + of_nat i) p p'"
  proof (cases "b = a \<and> \<not> listed vda a (T + of_nat i) p p' \<and> (f = id \<or> f = spec_free_now i R)")
    case True
    then show ?thesis
    proof -
      have "alloc_at T (p_ms p' b) j \<subseteq> alloc_at T (p_ms p b) j" "free_at T (p_ms p' b) j = free_at T (p_ms p b) j"
        using arg_cong[OF v[OF b(1)], of "\<lambda>v. v_alloc v ! j"] arg_cong[OF v[OF b(1)], of "\<lambda>v. v_free v ! j"] True b(2) i3
        by (auto simp: spec_free_now_def nth_list_update split: if_splits)
      then show ?thesis using b(3) by blast
    qed
  next
    case False
    show ?thesis
    proof (cases "b = a")
      case True
      then show ?thesis using s lst False by auto
    next
      case False
      then have "view_of contents (p_os p) T (p_ms p' b) = view_of contents (p_os p) T (p_ms p b)" using v[OF b(1)] by simp
      note e = view_sets_eq(1,2)[OF this b(2)]
      show ?thesis using b(3) unfolding e by blast
    qed
  qed
next
  fix b assume b: "b \<in> ms"
  have "(if b = a then f else id) = id \<or> (if b = a then f else id) = spec_alloc i R \<or> (if b = a then f else id) = spec_free i R
        \<or> (if b = a then f else id) = spec_free_now i R" using f by auto
  then show "free_at T (p_ms p' b) 3 = free_at T (p_ms p b) 3 \<and> defer_at T (p_ms p' b) 0 = defer_at T (p_ms p b) 0
        \<and> defer_at T (p_ms p' b) 1 = defer_at T (p_ms p b) 1"
    by (rule view_op_sets(2)[where f = "if b = a then f else id" and R = R, OF v[OF b] _ i3 i3])
qed

text \<open>Every permitted request is served, whatever the state of the metaslabs.\<close>

lemma run_request_ok:
  assumes ok: "vdev_ok t contents objs vda mg ms T p" and k: "kmem_fresh (me_kernel env)" and dm: "dmu_appends (me_dmu env) contents"
    and t: "t \<noteq> metaslab_ff" and rq: "permitted env contents vda ms T p rq"
  shows "\<exists>p'. run_request env mg T rq p = Inr p' \<and> vdev_ok t contents objs vda mg ms T p' \<and> p_os p' = p_os p \<and> pool_same p p' \<and> smo_same p p'
    \<and> tv_dtl_list (p_vd p' vda) = tv_dtl_list (p_vd p vda)
    \<and> (\<forall>b \<in> ms. view_step (freed_by vda p rq) (view_of contents (p_os p) T (p_ms p b)) (view_of contents (p_os p) T (p_ms p' b)))"
proof -
  have o: "group_ok t contents T mg ms p" "vd_ready mg vda ms p" using ok by (simp_all add: vdev_ok_def)
  have vda: "mg_vd (p_mg p mg) = vda" and hole: "\<not> vdev_ishole (node_of (p_vd p vda))" using o(2) by (auto simp: vd_ready_def)
  let ?V = "\<lambda>p' b. view_of contents (p_os p) T (p_ms p' b)"
  show ?thesis
  proof (cases rq)
    case (Alloc size' i md dva d)
    then have i3: "i < 3" and sz: "\<forall>a \<in> ms. size_ok (ms_map (p_ms p a)) size'" using rq by auto
    obtain p' off where r: "metaslab_group_alloc env mg size' (T + of_nat i) md dva d p = Inr (p', off)"
      "group_ok t contents T mg ms p'" "p_os p' = p_os p" "pool_same p p'" "smo_same p p'"
      "if off = -1 then (\<forall>a \<in> ms. ?V p' a = ?V p a) \<and> (d = 0 \<longrightarrow> (\<forall>a \<in> ms. ms_weight (p_ms p' a) < size')) \<and> p_vd p' = p_vd p
         \<and> (d = 0 \<longrightarrow> (\<forall>a \<in> ms. covers contents T size' p a \<longrightarrow> (\<forall>off. \<not> range_set off size' \<subseteq> v_avail (?V p a))))
       else \<exists>a \<in> ms. sm_range (ms_map (p_ms p a)) off size' \<and> range_set off size' \<subseteq> v_avail (?V p a)
          \<and> (\<forall>b \<in> ms. ?V p' b = (if b = a then spec_alloc i (range_set off size') else id) (?V p b))
          \<and> (listed vda a (T + of_nat i) p p' \<or> p_vd p' = p_vd p \<and> alloc_at T (p_ms p a) i \<noteq> {})"
      using metaslab_group_alloc_ok[OF o(1) k dm t sz i3, unfolded vda, OF hole, of md dva d] by (elim exE conjE) (rule that)
    have run: "run_request env mg T rq p = Inr p'" using r(1) Alloc by simp
    show ?thesis
    proof (cases "off = -1")
      case True
      then have s: "\<And>a. a \<in> ms \<Longrightarrow> ?V p' a = ?V p a" "p_vd p' = p_vd p" using r(6) by auto
      have "vdev_ok t contents objs vda mg ms T p'"
        by (rule vdev_ok_use[OF ok r(2-5) i3]) (use s view_sets_eq[OF s(1)] in auto)
      then show ?thesis using run r(3-5) s by (auto intro: view_step.same)
    next
      case False
      then obtain a where a: "a \<in> ms" "range_set off size' \<subseteq> v_avail (?V p a)" "\<And>b. b \<in> ms \<Longrightarrow> ?V p' b = (if b = a then spec_alloc i (range_set off size') else id) (?V p b)"
        "listed vda a (T + of_nat i) p p' \<or> p_vd p' = p_vd p \<and> alloc_at T (p_ms p a) i \<noteq> {}" using r(6) by auto
      have "vdev_ok t contents objs vda mg ms T p'"
        by (rule vdev_ok_request[OF ok r(2-5) i3 a(1), of "spec_alloc i (range_set off size')" "range_set off size'"]) (use a in auto)
      moreover have "tv_dtl_list (p_vd p' vda) = tv_dtl_list (p_vd p vda)" using a(4) by (auto simp: listed_def)
      ultimately show ?thesis using run r(3-5) a i3 by (auto intro: view_step.intros)
    qed
  next
    case (Free dva i)
    let ?R = "range_set (DVA_GET_OFFSET dva) (free_size (p_vd p vda) dva)"
    obtain a where a: "i < 3" "DVA_IS_VALID dva" "T + of_nat i \<le> spa_freeze_txg env" "a \<in> ms" "dva_metaslab p dva = Some (vda, a)"
      "sm_range (ms_map (p_ms p a)) (DVA_GET_OFFSET dva) (free_size (p_vd p vda) dva)" "in_use i ?R (?V p a)" using rq Free by auto
    obtain p' where r: "metaslab_free_dva env dva (T + of_nat i) False p = Inr p'" "group_ok t contents T mg ms p'" "p_os p' = p_os p" "pool_same p p'"
      "\<forall>b. b \<noteq> a \<longrightarrow> p_ms p' b = p_ms p b" "?V p' a = spec_free i ?R (?V p a)"
      "listed vda a (T + of_nat i) p p' \<or> p_vd p' = p_vd p \<and> free_at T (p_ms p a) i \<noteq> {}" "smo_same p p'"
      using metaslab_free_dva_ok[OF o(1) k a(1) hole a(2,5,4,3,6,7)] by (elim exE conjE) (rule that)
    have v: "?V p' b = (if b = a then spec_free i ?R else id) (?V p b)" for b using r(5,6) by auto
    have "vdev_ok t contents objs vda mg ms T p'"
      by (rule vdev_ok_request[OF ok r(2-4,8) a(1,4) _ v, of ?R]) (use r(7) in auto)
    moreover have "tv_dtl_list (p_vd p' vda) = tv_dtl_list (p_vd p vda)" using r(7) by (auto simp: listed_def)
    ultimately show ?thesis using r(1,3,4,8) a v Free by (auto intro: view_step.intros)
  next
    case (Free_Now dva i)
    let ?R = "range_set (DVA_GET_OFFSET dva) (free_size (p_vd p vda) dva)"
    obtain a where a: "i < 3" "DVA_IS_VALID dva" "T + of_nat i \<le> spa_freeze_txg env" "a \<in> ms" "dva_metaslab p dva = Some (vda, a)"
      "sm_range (ms_map (p_ms p a)) (DVA_GET_OFFSET dva) (free_size (p_vd p vda) dva)" "?R \<subseteq> alloc_at T (p_ms p a) i"
      "\<forall>F \<in> set (v_free (?V p a)). ?R \<inter> F = {}" using rq Free_Now by auto
    obtain p' where r: "metaslab_free_dva env dva (T + of_nat i) True p = Inr p'" "group_ok t contents T mg ms p'" "p_os p' = p_os p" "pool_same p p'"
      "\<forall>b. b \<noteq> a \<longrightarrow> p_ms p' b = p_ms p b" "?V p' a = spec_free_now i ?R (?V p a)" "p_vd p' = p_vd p" "smo_same p p'"
      using metaslab_free_dva_now_ok[OF o(1) k a(1,2,5,4,3,6,7,8)] by (elim exE conjE) (rule that)
    have v: "?V p' b = (if b = a then spec_free_now i ?R else id) (?V p b)" for b using r(5,6) by auto
    have "vdev_ok t contents objs vda mg ms T p'"
      by (rule vdev_ok_request[OF ok r(2-4,8) a(1,4) _ v, of ?R]) (use r(7) in auto)
    moreover have "view_step ?R (?V p a) (spec_free_now i ?R (?V p a))" by (rule view_step.free_now[OF a(1)]) (use a in simp_all)
    ultimately show ?thesis using r(1,3,4,7,8) v Free_Now by (auto intro: view_step.same)
  qed
qed

section \<open>Runs\<close>

text \<open>
  A run of a vdev: permitted requests served and transaction groups synced, one after the other. Its
  states are the number of syncs and the pool. The requests of the run free nothing of \<open>K\<close>.
\<close>

inductive vdev_run ::
  "'os ms_env \<Rightarrow> ('os \<Rightarrow> u64 \<Rightarrow> u64 list) \<Rightarrow> ('os \<Rightarrow> u64 set) \<Rightarrow> addr \<Rightarrow> addr \<Rightarrow> addr set \<Rightarrow> nat set \<Rightarrow> u64 \<Rightarrow> 'os pool \<Rightarrow> nat \<Rightarrow> 'os pool \<Rightarrow> bool"
  for env contents objs vda mg ms K T p where
  start: "vdev_run env contents objs vda mg ms K T p 0 p"
| request: "vdev_run env contents objs vda mg ms K T p n q \<Longrightarrow> permitted env contents vda ms (T + of_nat n) q rq \<Longrightarrow> freed_by vda q rq \<inter> K = {} \<Longrightarrow>
    run_request env mg (T + of_nat n) rq q = Inr q' \<Longrightarrow> vdev_run env contents objs vda mg ms K T p n q'"
| txg: "vdev_run env contents objs vda mg ms K T p n q \<Longrightarrow> txg_ready contents objs vda ms (T + of_nat n) q \<Longrightarrow>
    vdev_txg env vda (T + of_nat n) q = Inr q' \<Longrightarrow> vdev_run env contents objs vda mg ms K T p (Suc n) q'"

lemma vdev_run_ok:
  assumes "vdev_run env contents objs vda mg ms K T p n q" and ok: "vdev_ok t contents objs vda mg ms T p"
    and k: "kmem_fresh (me_kernel env)" and mos: "mos_ok env contents objs" and t: "t \<noteq> metaslab_ff"
  shows "vdev_ok t contents objs vda mg ms (T + of_nat n) q"
  using assms(1)
proof induction
  case (request n q rq q')
  then show ?case using run_request_ok[OF request.IH k mos_okD(1)[OF mos] t request.hyps(2)] by auto
next
  case (txg n q q')
  then show ?case using vdev_txg_ok[OF txg.IH k mos txg.hyps(2)] by (auto simp: ac_simps)
qed (use ok in simp)

lemma room_request:
  assumes "room contents objs vda ms N p" "p_os p' = p_os p" "pool_same p p'" "smo_same p p'" "tv_dtl_list (p_vd p' vda) = tv_dtl_list (p_vd p vda)"
  shows "room contents objs vda ms N p'"
  using assms by (simp add: room_def pool_same_def vd_same_def smo_same_def)

text \<open>A run uses up one unit of room with every sync.\<close>

lemma vdev_run_room:
  assumes "vdev_run env contents objs vda mg ms K T p n q" and ok: "vdev_ok t contents objs vda mg ms T p"
    and k: "kmem_fresh (me_kernel env)" and mos: "mos_ok env contents objs" and t: "t \<noteq> metaslab_ff" and N: "room contents objs vda ms (n + N) p"
  shows "room contents objs vda ms N q"
  using assms(1) N
proof (induction arbitrary: N)
  case (request n q rq q')
  have okq: "vdev_ok t contents objs vda mg ms (T + of_nat n) q" by (rule vdev_run_ok[OF request.hyps(1) ok k mos t])
  show ?case
    using run_request_ok[OF okq k mos_okD(1)[OF mos] t request.hyps(2)] request.hyps(4) room_request[OF request.IH[OF request.prems]] by auto
next
  case (txg n q q')
  have okq: "vdev_ok t contents objs vda mg ms (T + of_nat n) q" by (rule vdev_run_ok[OF txg.hyps(1) ok k mos t])
  have "room contents objs vda ms (Suc N) q" using txg.IH[of "Suc N"] txg.prems by simp
  note room = room_txg[OF okq this]
  show ?case using vdev_txg_ok[OF okq k mos txg.hyps(2)] txg.hyps(3) room by auto
qed simp

lemma vdev_ok_view: "vdev_ok t contents objs vda mg ms T p \<Longrightarrow> a \<in> ms \<Longrightarrow> view_ok (view_of contents (p_os p) T (p_ms p a))"
  unfolding vdev_ok_def by (blast intro: ms_invD(13) group_okD(3))

text \<open>What requests and syncs keep of the view of a metaslab, a run keeps.\<close>

lemma vdev_run_view:
  assumes "vdev_run env contents objs vda mg ms K T p n q" and ok: "vdev_ok t contents objs vda mg ms T p"
    and k: "kmem_fresh (me_kernel env)" and mos: "mos_ok env contents objs" and t: "t \<noteq> metaslab_ff" and a: "a \<in> ms"
    and start: "Q 0 (view_of contents (p_os p) T (p_ms p a))"
    and step: "\<And>n v w F. Q n v \<Longrightarrow> view_ok v \<Longrightarrow> view_step F v w \<Longrightarrow> F \<inter> K = {} \<Longrightarrow> Q n w"
    and sync: "\<And>n v. Q n v \<Longrightarrow> view_ok v \<Longrightarrow> v_freed v = {} \<Longrightarrow> Q (Suc n) (spec_sync_done (spec_sync v))"
  shows "Q n (view_of contents (p_os q) (T + of_nat n) (p_ms q a))"
  using assms(1)
proof induction
  case (request n q rq q')
  have okq: "vdev_ok t contents objs vda mg ms (T + of_nat n) q" by (rule vdev_run_ok[OF request.hyps(1) ok k mos t])
  have "p_os q' = p_os q"
    "view_step (freed_by vda q rq) (view_of contents (p_os q) (T + of_nat n) (p_ms q a)) (view_of contents (p_os q) (T + of_nat n) (p_ms q' a))"
    using run_request_ok[OF okq k mos_okD(1)[OF mos] t request.hyps(2)] request.hyps(4) a by auto
  then show ?case using step[OF request.IH vdev_ok_view[OF okq a] _ request.hyps(3)] by simp
next
  case (txg n q q')
  have okq: "vdev_ok t contents objs vda mg ms (T + of_nat n) q" by (rule vdev_run_ok[OF txg.hyps(1) ok k mos t])
  then have "v_freed (view_of contents (p_os q) (T + of_nat n) (p_ms q a)) = {}" using a by (simp add: vdev_ok_def)
  note Q = sync[OF txg.IH vdev_ok_view[OF okq a] this]
  have "view_of contents (p_os q') (T + of_nat n + 1) (p_ms q' a) = spec_sync_done (spec_sync (view_of contents (p_os q) (T + of_nat n) (p_ms q a)))"
    using vdev_txg_ok[OF okq k mos txg.hyps(2)] txg.hyps(3) a by auto
  then show ?case using Q by (simp add: ac_simps)
qed (use start in simp)

section \<open>Sizes that can be asked for\<close>

text \<open>A size in the unit of the vdev and at most 10 MiB; the vdev does not reach to the end of the 64-bit offsets.\<close>

definition vd_size_ok :: "top_vdev \<Rightarrow> u64 \<Rightarrow> bool" where
  "vd_size_ok vd size' \<longleftrightarrow> size' \<noteq> 0 \<and> unat size' \<le> unat metaslab_min_alloc_size \<and> 2 ^ unat (vdev_ashift (node_of vd)) dvd unat size'
     \<and> unat (vdev_ashift (node_of vd)) < 64 \<and> unat (vdev_ms_count vd) * 2 ^ unat (vdev_ms_shift (node_of vd)) + 2 ^ 25 < 2 ^ 64"

lemma place_size_ok:
  assumes "ms_place vd g" "vd_size_ok vd size'"
  shows "size_ok g size'"
proof -
  let ?K = "2 ^ unat (vdev_ms_shift (node_of vd)) :: nat"
  have p: "sm_shift g = ucast (vdev_ashift (node_of vd))" "unat (sm_size g) = ?K" "?K dvd unat (sm_start g)" "unat (sm_start g) div ?K < unat (vdev_ms_count vd)"
    using assms(1) by (auto simp: ms_place_def Let_def)
  obtain i where i: "unat (sm_start g) = ?K * i" using p(3) by (elim dvdE)
  have "?K * (i + 1) \<le> ?K * unat (vdev_ms_count vd)" using p(4) i by (intro mult_left_mono) simp_all
  then have "unat (sm_start g) + unat (sm_size g) \<le> unat (vdev_ms_count vd) * ?K" using i p(2) by (simp add: algebra_simps)
  moreover have "unat (sm_shift g) = unat (vdev_ashift (node_of vd))"
    using assms(2) unfolding p(1) vd_size_ok_def by (simp add: unsigned_ucast_eq take_bit_nat_eq_self)
  ultimately show ?thesis using assms(2) by (simp add: size_ok_def size_room_def vd_size_ok_def)
qed

lemma vd_size_ok_cong: "tv_tree vd' = tv_tree vd \<Longrightarrow> vdev_ms_count vd' = vdev_ms_count vd \<Longrightarrow> vd_size_ok vd' size' = vd_size_ok vd size'"
  by (simp add: vd_size_ok_def)

lemma vdev_run_vd:
  assumes "vdev_run env contents objs vda mg ms K T p n q" and ok: "vdev_ok t contents objs vda mg ms T p"
    and k: "kmem_fresh (me_kernel env)" and mos: "mos_ok env contents objs" and t: "t \<noteq> metaslab_ff"
  shows "tv_tree (p_vd q vda) = tv_tree (p_vd p vda) \<and> vdev_ms_count (p_vd q vda) = vdev_ms_count (p_vd p vda)"
  using assms(1)
proof (induction rule: vdev_run.induct)
  case (request n q rq q')
  have okq: "vdev_ok t contents objs vda mg ms (T + of_nat n) q" by (rule vdev_run_ok[OF request.hyps(1) ok k mos t])
  have "dmu_appends (me_dmu env) contents" using mos by (simp add: mos_ok_def)
  from run_request_ok[OF okq k this t request.hyps(2)] have "pool_same q q'" using request.hyps(4) by auto
  then show ?case using request.IH by (simp add: pool_same_def vd_same_def)
next
  case (txg n q q')
  have okq: "vdev_ok t contents objs vda mg ms (T + of_nat n) q" by (rule vdev_run_ok[OF txg.hyps(1) ok k mos t])
  show ?case using vdev_txg_ok[OF okq k mos txg.hyps(2)] txg.hyps(3) txg.IH by auto
qed simp

text \<open>Then the size can be asked for of every metaslab, at any time.\<close>

lemma vdev_run_size:
  assumes run: "vdev_run env contents objs vda mg ms K T p n q" and ok: "vdev_ok t contents objs vda mg ms T p"
    and k: "kmem_fresh (me_kernel env)" and mos: "mos_ok env contents objs" and t: "t \<noteq> metaslab_ff" and sz: "vd_size_ok (p_vd p vda) size'"
  shows "\<forall>a \<in> ms. size_ok (ms_map (p_ms q a)) size'"
proof
  fix a assume a: "a \<in> ms"
  have okq: "vdev_ok t contents objs vda mg ms (T + of_nat n) q" by (rule vdev_run_ok[OF run ok k mos t])
  then have "group_ok t contents (T + of_nat n) mg ms q" "mg_vd (p_mg q mg) = vda" by (simp_all add: vdev_ok_def vd_ready_def)
  then have "ms_place (p_vd q vda) (ms_map (p_ms q a))" using ms_invD(1)[OF group_okD(3)] a by blast
  moreover have "vd_size_ok (p_vd q vda) size'" using sz vdev_run_vd[OF run ok k mos t] vd_size_ok_cong by blast
  ultimately show "size_ok (ms_map (p_ms q a)) size'" by (rule place_size_ok)
qed

section \<open>Freed space comes back\<close>

text \<open>The unit \<open>x\<close> is free for allocation after \<open>n\<close> more syncs.\<close>

fun pending :: "nat \<Rightarrow> nat \<Rightarrow> ms_view \<Rightarrow> bool" where
  "pending 0 x v = (x \<in> v_avail v)"
| "pending (Suc 0) x v = (x \<in> v_defer v ! 0)"
| "pending (Suc (Suc 0)) x v = (x \<in> v_defer v ! 1)"
| "pending (Suc (Suc (Suc i))) x v = (i < 3 \<and> x \<in> v_free v ! i)"

lemma pending_step:
  assumes "view_step F v w" "view_ok v" "pending (Suc n) x v"
  shows "pending (Suc n) x w"
  using assms(1)
proof cases
  case (free i)
  then show ?thesis using assms(2,3) by (cases "(n, x, v)" rule: pending.cases) (auto simp: spec_free_def nth_list_update view_ok_def split: nat.splits)
qed (use assms in \<open>cases n; cases "n - 1"; cases "n - 2"; auto simp: spec_alloc_def spec_free_now_def\<close>)+

lemma pending_txg:
  assumes "view_ok v" "v_freed v = {}" "pending (Suc n) x v"
  shows "pending n x (spec_sync_done (spec_sync v))"
proof -
  obtain a0 a1 a2 f0 f1 f2 d0 d1 where v: "v_alloc v = [a0, a1, a2]" "v_free v = [f0, f1, f2]" "v_defer v = [d0, d1]"
    by (rule view_expand[OF assms(1)])
  show ?thesis using assms(3) v less_3_cases[of "n - 2"]
    by (cases n; cases "n - 1"; cases "n - 2") (auto simp: spec_sync_def spec_sync_done_def)
qed

lemma pending_unavailable:
  assumes "view_ok v" "pending (Suc n) x v"
  shows "x \<notin> v_avail v"
proof -
  obtain a0 a1 a2 f0 f1 f2 d0 d1 where v: "v_alloc v = [a0, a1, a2]" "v_free v = [f0, f1, f2]" "v_defer v = [d0, d1]"
    by (rule view_expand[OF assms(1)])
  show ?thesis using assms v less_3_cases[of "n - 2"]
    by (cases n; cases "n - 1"; cases "n - 2") (auto simp: view_ok_def all_less_3)
qed

text \<open>
  However requests and syncs are interleaved, a unit that was freed in \<open>T + i\<close> waits to be given
  back; the sync of \<open>T + i + 2\<close> makes it free for allocation.
\<close>

lemma vdev_run_pending:
  assumes run: "vdev_run env contents objs vda mg ms K T p n q" and ok: "vdev_ok t contents objs vda mg ms T p"
    and k: "kmem_fresh (me_kernel env)" and mos: "mos_ok env contents objs" and t: "t \<noteq> metaslab_ff"
    and a: "a \<in> ms" and x: "pending (Suc (n + j)) x (view_of contents (p_os p) T (p_ms p a))"
  shows "pending (Suc j) x (view_of contents (p_os q) (T + of_nat n) (p_ms q a))"
proof -
  let ?Q = "\<lambda>l v. l \<le> n + j \<longrightarrow> pending (Suc (n + j - l)) x v"
  have "?Q n (view_of contents (p_os q) (T + of_nat n) (p_ms q a))"
  proof (rule vdev_run_view[OF run ok k mos t a, where Q = ?Q])
    show "?Q 0 (view_of contents (p_os p) T (p_ms p a))" using x by simp
    show "?Q l w" if "?Q l v" "view_ok v" "view_step F v w" "F \<inter> K = {}" for l v w F using pending_step that by blast
    show "?Q (Suc l) (spec_sync_done (spec_sync v))" if "?Q l v" "view_ok v" "v_freed v = {}" for l v
    proof
      assume "Suc l \<le> n + j"
      then have "Suc (n + j - l) = Suc (Suc (n + j - Suc l))" by simp
      then show "pending (Suc (n + j - Suc l)) x (spec_sync_done (spec_sync v))" using pending_txg[OF that(2,3)] that(1) \<open>Suc l \<le> n + j\<close> by simp
    qed
  qed
  then show ?thesis by simp
qed

section \<open>Allocated space stays allocated\<close>

text \<open>The unit \<open>x\<close> is neither free nor on its way to being free.\<close>

definition spent :: "nat \<Rightarrow> ms_view \<Rightarrow> bool" where
  "spent x v \<longleftrightarrow> x \<notin> v_avail v \<and> x \<notin> v_freed v \<and> (\<forall>F \<in> set (v_free v). x \<notin> F) \<and> (\<forall>D \<in> set (v_defer v). x \<notin> D)"

lemma spent_step:
  assumes "view_step F v w" "spent x v" "x \<notin> F" "view_ok v"
  shows "spent x w"
proof -
  obtain a0 a1 a2 f0 f1 f2 d0 d1 where v: "v_alloc v = [a0, a1, a2]" "v_free v = [f0, f1, f2]" "v_defer v = [d0, d1]"
    by (rule view_expand[OF assms(4)])
  show ?thesis using assms(1-3) v
    by cases (auto simp: spent_def spec_alloc_def spec_free_def spec_free_now_def dest!: less_3_cases)
qed

lemma spent_txg:
  assumes "spent x v" "view_ok v"
  shows "spent x (spec_sync_done (spec_sync v))"
proof -
  obtain a0 a1 a2 f0 f1 f2 d0 d1 where "v_alloc v = [a0, a1, a2]" "v_free v = [f0, f1, f2]" "v_defer v = [d0, d1]"
    by (rule view_expand[OF assms(2)])
  then show ?thesis using assms(1) by (simp add: spent_def spec_sync_def spec_sync_done_def)
qed

lemma vdev_run_spent:
  assumes run: "vdev_run env contents objs vda mg ms K T p n q" and ok: "vdev_ok t contents objs vda mg ms T p"
    and k: "kmem_fresh (me_kernel env)" and mos: "mos_ok env contents objs" and t: "t \<noteq> metaslab_ff"
    and x: "x \<in> K" "a \<in> ms" "spent x (view_of contents (p_os p) T (p_ms p a))"
  shows "spent x (view_of contents (p_os q) (T + of_nat n) (p_ms q a))"
  by (rule vdev_run_view[OF run ok k mos t x(2), where Q = "\<lambda>_. spent x"]) (use x(1,3) spent_step spent_txg in blast)+

lemma alloc_spent:
  assumes "view_ok v" "R \<subseteq> v_avail v" "i < 3" "x \<in> R"
  shows "spent x (spec_alloc i R v)"
proof -
  obtain a0 a1 a2 f0 f1 f2 d0 d1 where v: "v_alloc v = [a0, a1, a2]" "v_free v = [f0, f1, f2]" "v_defer v = [d0, d1]"
    by (rule view_expand[OF assms(1)])
  have x: "x \<in> v_avail v" using assms(2,4) by blast
  then have n: "x \<notin> v_freed v" "x \<notin> a0" "x \<notin> a1" "x \<notin> a2" "x \<notin> d0" "x \<notin> d1" "x \<in> v_disk v"
    using assms(1) v by (auto simp: view_ok_def)
  then have "x \<notin> f0" "x \<notin> f1" "x \<notin> f2" using assms(1) v unfolding view_ok_def all_less_3 by auto
  then show ?thesis using n v assms(4) by (simp add: spent_def spec_alloc_def)
qed

text \<open>The metaslabs of a group do not overlap.\<close>

lemma place_apart:
  assumes "ms_place vd g" "ms_place vd h" "sm_start g \<noteq> sm_start h"
  shows "range_set (sm_start g) (sm_size g) \<inter> range_set (sm_start h) (sm_size h) = {}"
proof -
  let ?K = "2 ^ unat (vdev_ms_shift (node_of vd)) :: nat"
  have g: "unat (sm_size g) = ?K" "unat (sm_size h) = ?K" "?K dvd unat (sm_start g)" "?K dvd unat (sm_start h)"
    using assms(1,2) by (simp_all add: ms_place_def Let_def)
  obtain i j where ij: "unat (sm_start g) = ?K * i" "unat (sm_start h) = ?K * j" using g(3,4) by (elim dvdE)
  have "i \<noteq> j" using ij assms(3) by (auto simp: word_unat_eq_iff)
  then consider "i + 1 \<le> j" | "j + 1 \<le> i" by linarith
  then show ?thesis
  proof cases
    case 1
    then have "?K * (i + 1) \<le> ?K * j" by (rule mult_left_mono) simp
    then show ?thesis using g(1,2) ij by auto
  next
    case 2
    then have "?K * (j + 1) \<le> ?K * i" by (rule mult_left_mono) simp
    then show ?thesis using g(1,2) ij by auto
  qed
qed

lemma outside_spent:
  assumes inv: "ms_inv vd contents os T m" and x: "x \<notin> range_set (sm_start (ms_map m)) (sm_size (ms_map m))"
  shows "spent x (view_of contents os T m)"
proof -
  note i = ms_invD[OF inv]
  have "x \<notin> v_disk (view_of contents os T m)" using logged_range[OF i(6,1)] x by (auto simp: view_of_def Let_def)
  moreover have "x \<notin> free_at T m j" for j
    using ms_side_range[OF i(3)[OF slot_at_simps(1)], of T j] x by (auto simp: free_at_def)
  moreover obtain a0 a1 a2 f0 f1 f2 d0 d1 where "v_alloc (view_of contents os T m) = [a0, a1, a2]" "v_free (view_of contents os T m) = [f0, f1, f2]"
    "v_defer (view_of contents os T m) = [d0, d1]" by (rule view_expand[OF i(13)])
  ultimately show ?thesis using i(13) unfolding spent_def view_ok_def
    by (auto simp: view_of_def Let_def)
qed

end
