(* ===== verification/Metaslab_Create.thy ===== *)
theory Metaslab_Create
  imports Vdev_Run
begin

text \<open>
  New metaslabs: what \<open>metaslab_init\<close> and \<open>vdev_metaslab_init\<close> build satisfies the invariant of a
  metaslab, of a group and of a vdev, and the first sync of a new vdev.
\<close>

section \<open>A metaslab with nothing going on\<close>

definition quiet :: "metaslab \<Rightarrow> bool" where
  "quiet m \<longleftrightarrow> (\<forall>s < 4. sm_set (ms_allocmap m s) = {} \<and> sm_set (ms_freemap m s) = {}) \<and> (\<forall>s < 2. sm_set (ms_defermap m s) = {})"

lemma quiet_sets: "quiet m \<Longrightarrow> alloc_at T m i = {}" "quiet m \<Longrightarrow> free_at T m i = {}" "quiet m \<Longrightarrow> defer_at T m i = {}"
  by (simp_all add: quiet_def map_sets)

lemma quiet_inv:
  assumes "quiet m"
  shows "view_of contents os T m = view_of contents os T' m" "ms_inv vd contents os T m = ms_inv vd contents os T' m"
proof -
  show v: "view_of contents os T m = view_of contents os T' m" using quiet_sets[OF assms] by (simp add: view_of_def Let_def)
  show "ms_inv vd contents os T m = ms_inv vd contents os T' m"
    using quiet_sets[OF assms] v by (simp add: ms_inv_def ms_unloaded_def Let_def)
qed

text \<open>The view of a metaslab that only has what its log says.\<close>

definition plain_view :: "nat set \<Rightarrow> ms_view" where
  "plain_view S = \<lparr>v_disk = S, v_avail = S, v_alloc = [{}, {}, {}], v_free = [{}, {}, {}], v_freed = {}, v_defer = [{}, {}]\<rparr>"

lemma plain_view_ok [simp]: "view_ok (plain_view S)"
  by (simp add: view_ok_def plain_view_def all_less_3)

lemma plain_quiet:
  assumes inv: "ms_inv vd contents os T m" and v: "view_of contents os T m = plain_view S"
  shows "quiet m"
proof -
  have "alloc_at T m i = {}" "free_at T m i = {}" if "i < 4" for i
  proof -
    have "i < 3 \<or> i = 3" using that by auto
    then show "alloc_at T m i = {}" "free_at T m i = {}"
      using arg_cong[OF v, of "\<lambda>v. v_alloc v ! i"] arg_cong[OF v, of "\<lambda>v. v_free v ! i"] arg_cong[OF v, of v_freed] ms_invD(5)[OF inv] less_3_cases[of i]
      by (auto simp: plain_view_def)
  qed
  then have "sm_set (ms_allocmap m s) = {} \<and> sm_set (ms_freemap m s) = {}" if "s < 4" for s
    using slot_at_onto[OF that, of T] by (auto simp: map_sets)
  moreover have "sm_set (ms_defermap m s) = {}" if "s < 2" for s
  proof -
    have "defer_at T m 0 = {}" "defer_at T m 1 = {}" using arg_cong[OF v, of v_defer] by (simp_all add: plain_view_def)
    moreover have "s = (unat T + 0) mod 2 \<or> s = (unat T + 1) mod 2" using that by presburger
    ultimately show ?thesis by (auto simp: defer_at_def)
  qed
  ultimately show ?thesis by (simp add: quiet_def)
qed

section \<open>The maps of a new metaslab\<close>

abbreviation fresh_map :: "space_map \<Rightarrow> space_map" where
  "fresh_map g \<equiv> space_map_create (sm_start g) (sm_size g) (sm_shift g) True"

lemma fresh_map_side:
  assumes "ms_place vd g"
  shows "ms_side g (fresh_map g)" "sm_set (fresh_map g) = {}" "sm_size (fresh_map g) \<noteq> 0"
proof -
  have s: "unat (sm_shift g) < 64" "unat (sm_start g) + unat (sm_size g) < 2 ^ 64" "sm_size g \<noteq> 0"
    using assms by (auto simp: ms_place_def Let_def)
  note f = space_map_create_inv[OF s(2,1)]
  show "ms_side g (fresh_map g)" using f(1) by (simp add: ms_side_def sm_geometry_def space_map_create_def)
  show "sm_set (fresh_map g) = {}" by (rule f(2))
  show "sm_size (fresh_map g) \<noteq> 0" using s(3) by (simp add: space_map_create_def)
qed

lemma created_core:
  assumes pl: "ms_place vd (ms_map m)" and idle: "sm_idle (ms_map m)" "sm_lock_held (ms_map m)" and ds: "ms_deferspace m = 0"
    and smo: "smo_ok contents (ms_map m) SM_FREE (ms_smo_syncing m) os"
      "smo_object (ms_smo_syncing m) = 0 \<Longrightarrow> smo_objsize (ms_smo_syncing m) = 0 \<and> smo_alloc (ms_smo_syncing m) = 0"
  shows "ms_core vd contents os T (sync_done_create m)"
    "view_of contents os T (sync_done_create m) = plain_view (logged contents (ms_map m) SM_FREE (ms_smo_syncing m) os)" "quiet (sync_done_create m)"
proof -
  let ?m = "sync_done_create m"
  note f = fresh_map_side[OF pl]
  have m: "ms_map ?m = ms_map m" "ms_smo_syncing ?m = ms_smo_syncing m" "ms_deferspace ?m = 0"
    "s < 4 \<Longrightarrow> ms_allocmap ?m s = fresh_map (ms_map m)" "s < 4 \<Longrightarrow> ms_freemap ?m s = fresh_map (ms_map m)"
    "s < 2 \<Longrightarrow> ms_defermap ?m s = fresh_map (ms_map m)" for s
    using idle(2) ds by (simp_all add: sync_done_create_def Let_def TXG_SIZE_def TXG_DEFER_SIZE_def)
  show q: "quiet ?m" using f(2) m(4-6) by (simp add: quiet_def)
  note s = quiet_sets[OF q]
  have nl: "\<not> sm_loaded (ms_map m)" using idle(1) by (simp add: sm_idle_def)
  show v: "view_of contents os T ?m = plain_view (logged contents (ms_map m) SM_FREE (ms_smo_syncing m) os)"
    by (simp add: view_of_def Let_def s m nl plain_view_def)
  show "ms_core vd contents os T ?m" unfolding ms_core_def m(1-3) v using pl m(4-6) f(1) s smo idle(1) nl by simp
qed

lemma size_unit:
  assumes "ms_place vd g"
  shows "sm_size g AND (SPA_MINBLOCKSIZE - 1) = 0"
proof -
  let ?s = "unat (vdev_ms_shift (node_of vd))"
  have p: "9 \<le> ?s" "unat (sm_size g) = 2 ^ ?s" using assms by (auto simp: ms_place_def Let_def)
  have "(2::nat) ^ 9 dvd 2 ^ ?s" using p(1) by (rule le_imp_power_dvd)
  then have "unat (sm_size g) mod 512 = 0" using p(2) by (simp add: dvd_eq_mod_eq_0)
  then have "sm_size g mod 512 = 0" by (simp add: unat_eq_zero[symmetric] unat_mod)
  moreover have "sm_size g AND (SPA_MINBLOCKSIZE - 1) = take_bit 9 (sm_size g)"
    by (simp add: SPA_MINBLOCKSIZE_def SPA_MINBLOCKSHIFT_def take_bit_eq_mask mask_eq_exp_minus_1)
  ultimately show ?thesis by (simp add: take_bit_eq_mod)
qed

text \<open>The first completion of a sync makes the maps and counts the space; then it goes on as always.\<close>

lemma metaslab_sync_done_first:
  assumes grp: "mg_inv p mg ms" "msp \<in> ms" and k: "kmem_fresh (me_kernel env)"
  defines "vda \<equiv> mg_vd (p_mg p mg)" and "m \<equiv> p_ms p msp"
  assumes pl: "ms_place (p_vd p vda) (ms_map m)" and idle: "sm_idle (ms_map m)" "sm_lock_held (ms_map m)" and ds: "ms_deferspace m = 0"
    and none: "\<And>s. s < 4 \<Longrightarrow> sm_size (ms_freemap m s) = 0" and smo: "smo_ok contents (ms_map m) SM_FREE (ms_smo_syncing m) (p_os p)"
      "smo_object (ms_smo_syncing m) = 0 \<Longrightarrow> smo_objsize (ms_smo_syncing m) = 0 \<and> smo_alloc (ms_smo_syncing m) = 0"
    and hole: "\<not> vdev_ishole (node_of (p_vd p vda))" and defl: "vdev_deflate_ratio (p_vd p vda) \<noteq> 0 \<or> vdev_isl2cache (p_vd p vda)"
  shows "\<exists>p' m'. metaslab_sync_done env msp T p = Inr p' \<and> p_ms p' = (p_ms p)(msp := m') \<and> ms_inv (p_vd p vda) contents (p_os p) T' m'
    \<and> view_of contents (p_os p) T' m' = plain_view (logged contents (ms_map m) SM_FREE (ms_smo_syncing m) (p_os p))
    \<and> mg_inv p' mg ms \<and> p_os p' = p_os p \<and> pool_same p p' \<and> ms_smo m' = ms_smo_syncing m \<and> ms_smo_syncing m' = ms_smo_syncing m
    \<and> (\<forall>a. tv_ms_list (p_vd p' a) = tv_ms_list (p_vd p a) \<and> tv_dtl_list (p_vd p' a) = tv_dtl_list (p_vd p a))
    \<and> weigh_ok m' \<and> \<not> sm_loaded (ms_map m') \<and> quiet m' \<and> sm_start (ms_map m') = sm_start (ms_map m) \<and> heavy m'
    \<and> sm_shift (ms_map m') = sm_shift (ms_map m)"
proof -
  let ?c = "sync_done_create m" and ?S = "logged contents (ms_map m) SM_FREE (ms_smo_syncing m) (p_os p)"
  let ?q = "upd_ms msp sync_done_create p"
  note core = created_core[OF pl idle ds smo]
  have cnt: "vdev_ms_count (p_vd p vda) \<noteq> 0" using pl by (auto simp: ms_place_def Let_def)
  have mm: "ms_map ?c = ms_map m" "ms_group ?c = ms_group m" "ms_weight ?c = ms_weight m" "ms_smo_syncing ?c = ms_smo_syncing m"
    by (simp_all add: sync_done_create_def Let_def)
  obtain p0 where p0: "vdev_space_update env vda 0 0 (sm_size (ms_map m)) ?q = Inr p0" "pool_same ?q p0" "p_ms p0 = p_ms ?q" "p_mg p0 = p_mg ?q" "p_os p0 = p_os ?q"
    "\<forall>a. tv_ms_list (p_vd p0 a) = tv_ms_list (p_vd ?q a) \<and> tv_dtl_list (p_vd p0 a) = tv_dtl_list (p_vd ?q a)"
    using vdev_space_update_same[of "sm_size (ms_map m)" ?q vda env 0 0] size_unit[OF pl] defl cnt by auto
  have same: "pool_same p p0" using pool_same_trans[OF pool_same_upd(1) p0(2)] .
  have m0: "p_ms p0 = (p_ms p)(msp := ?c)" using p0(3) by (simp add: m_def)
  have g0: "mg_inv p0 mg ms" by (rule mg_inv_cong[OF grp(1)]) (use p0(4) mm in \<open>simp_all add: m0 ms_key_def m_def\<close>)
  have vd0: "mg_vd (p_mg p0 mg) = vda" using p0(4) by (simp add: vda_def)
  have full: "sm_size (ms_freemap ?c (slot_at T 3)) \<noteq> 0" "sm_size (ms_freemap m (slot_at T 3)) = 0"
    using none[of "slot_at T 3"] fresh_map_side(3)[OF pl] idle(2) by (simp_all add: sync_done_create_def Let_def TXG_SIZE_def)
  have sp: "sync_done_space env vda msp T p = sync_done_space env vda msp T p0"
    unfolding sync_done_space_def Let_def TXG_IDX_clean using full p0(1) by (simp add: m0 m_def[symmetric])
  have d: "deref (ms_group (p_ms p msp)) = Inr mg" "deref (ms_group (p_ms p0 msp)) = Inr mg"
    using mg_inv_member[OF grp] mg_inv_member[OF g0 grp(2)] by (simp_all add: deref_def)
  have eq: "metaslab_sync_done env msp T p = metaslab_sync_done env msp T p0"
    unfolding metaslab_sync_done_def d
    unfolding rbind.simps Let_def
    unfolding vd0 vda_def[symmetric] sp
    using hole pool_sameD(1)[OF same] by simp
  have "ms_core (p_vd p0 (mg_vd (p_mg p0 mg))) contents (p_os p0) T (p_ms p0 msp)"
  proof -
    have "ms_place (p_vd p0 vda) (ms_map m)" using pl ms_place_same[OF pool_sameD(4)[OF same]] by simp
    then show ?thesis unfolding vd0 m0 using created_core(1)[OF _ idle ds smo] p0(5) by simp
  qed
  note d = metaslab_sync_done_inv[OF g0 grp(2) k this]
  have "\<exists>p' m'. metaslab_sync_done env msp T p0 = Inr p' \<and> p_ms p' = (p_ms p0)(msp := m')
    \<and> ms_inv (p_vd p0 vda) contents (p_os p0) (T + 1) m'
    \<and> view_of contents (p_os p0) (T + 1) m' = spec_sync_done (view_of contents (p_os p0) T (p_ms p0 msp))
    \<and> mg_inv p' mg ms \<and> p_os p' = p_os p0 \<and> pool_same p0 p' \<and> ms_smo m' = ms_smo_syncing m' \<and> ms_smo_syncing m' = ms_smo_syncing (p_ms p0 msp)
    \<and> (if ms_deferspace m' \<noteq> 0 then listed vda msp (T + 1) p0 p'
       else (\<forall>a. tv_ms_list (p_vd p' a) = tv_ms_list (p_vd p0 a) \<and> tv_dtl_list (p_vd p' a) = tv_dtl_list (p_vd p0 a)))
    \<and> weigh_ok m' \<and> (sm_loaded (ms_map m') \<longrightarrow> sm_ops (ms_map m') = sm_ops (ms_map (p_ms p0 msp)))
    \<and> sm_start (ms_map m') = sm_start (ms_map (p_ms p0 msp)) \<and> heavy m' \<and> sm_shift (ms_map m') = sm_shift (ms_map (p_ms p0 msp))"
    using d quiet_sets[OF core(3)] hole pool_sameD(1)[OF same] defl same unfolding vd0
    by (simp add: m0 pool_same_def vd_same_def)
  then obtain p' m' where r: "metaslab_sync_done env msp T p0 = Inr p'" "p_ms p' = (p_ms p0)(msp := m')"
    "ms_inv (p_vd p0 vda) contents (p_os p0) (T + 1) m'" "view_of contents (p_os p0) (T + 1) m' = spec_sync_done (view_of contents (p_os p0) T (p_ms p0 msp))"
    "mg_inv p' mg ms" "p_os p' = p_os p0" "pool_same p0 p'" "ms_smo m' = ms_smo_syncing m'" "ms_smo_syncing m' = ms_smo_syncing (p_ms p0 msp)"
    "if ms_deferspace m' \<noteq> 0 then listed vda msp (T + 1) p0 p'
       else (\<forall>a. tv_ms_list (p_vd p' a) = tv_ms_list (p_vd p0 a) \<and> tv_dtl_list (p_vd p' a) = tv_dtl_list (p_vd p0 a))"
    "weigh_ok m'" "sm_loaded (ms_map m') \<longrightarrow> sm_ops (ms_map m') = sm_ops (ms_map (p_ms p0 msp))" "sm_start (ms_map m') = sm_start (ms_map (p_ms p0 msp))" "heavy m'" "sm_shift (ms_map m') = sm_shift (ms_map (p_ms p0 msp))"
    by (elim exE conjE) (rule that)
  have v: "view_of contents (p_os p) (T + 1) m' = plain_view ?S"
    using r(4) p0(5) core(2) by (simp add: m0) (simp add: plain_view_def spec_sync_done_def)
  have i: "ms_inv (p_vd p vda) contents (p_os p) (T + 1) m'"
    using r(3)[unfolded ms_inv_same[OF pool_sameD(4)[OF same]] p0(5)] by simp
  note q = plain_quiet[OF i v]
  have "sint (ms_deferspace m') = 0" using ms_invD(10)[OF i] quiet_sets(3)[OF q] by simp
  then have "ms_deferspace m' = 0" by (simp add: signed_eq_0_iff)
  moreover have "\<not> sm_loaded (ms_map m')"
    using r(12) idle(1) ms_invD(11)[OF i] by (auto simp: m0 mm sm_idle_def sm_active_def)
  moreover have "ms_inv (p_vd p vda) contents (p_os p) T' m'" "view_of contents (p_os p) T' m' = plain_view ?S"
    using i v unfolding quiet_inv[OF q, where T = T' and T' = "T + 1"] by simp_all
  ultimately show ?thesis
    using r eq q pool_same_trans[OF same r(7)] p0(5,6) mm
    by (intro exI[of _ p'] exI[of _ m']) (simp add: m0)
qed

section \<open>A new metaslab joins its group\<close>

lemma pool_dirty_none:
  assumes "\<not> vdev_ishole (node_of (p_vd p vd))"
  shows "\<exists>p'. pool_dirty vd 0 x txg p = Inr p' \<and> pool_same p p' \<and> p_ms p' = p_ms p \<and> p_mg p' = p_mg p \<and> p_os p' = p_os p
    \<and> (\<forall>a. tv_ms_list (p_vd p' a) = tv_ms_list (p_vd p a) \<and> tv_dtl_list (p_vd p' a) = tv_dtl_list (p_vd p a))"
proof -
  have "ISP2 0" by (simp add: ISP2_def)
  then show ?thesis using assms by (simp add: pool_dirty_def vdev_dirty_def Let_def pool_same_def vd_same_def mg_same_def)
qed

abbreviation new_map :: "top_vdev \<Rightarrow> u64 \<Rightarrow> u64 \<Rightarrow> space_map" where
  "new_map vd start size' \<equiv> space_map_create start size' (ucast (vdev_ashift (node_of vd))) True"

text \<open>
  Opening a metaslab (\<open>txg\<close> = 0, the space map object from disk) or creating one in the first
  transaction group: everything that its log says to be free is available at once.
\<close>

lemma metaslab_init_ok:
  fixes size' :: u64 and p :: "'os pool"
  assumes ok: "group_ok t contents T mg ms p" and k: "kmem_fresh (me_kernel env)" and new: "msp \<notin> ms" "msp \<noteq> avl_tmp"
    and st: "\<And>a. a \<in> ms \<Longrightarrow> sm_start (ms_map (p_ms p a)) \<noteq> start"
  defines "vda \<equiv> mg_vd (p_mg p mg)"
  defines "g \<equiv> new_map (p_vd p vda) start size'"
  assumes pl: "ms_place (p_vd p vda) g" and txg: "txg \<le> TXG_INITIAL" and dbg: "\<not> metaslab_debug env \<or> smo_object smo = 0"
    and smo: "smo_ok contents g SM_FREE smo (p_os p)" "smo_object smo = 0 \<Longrightarrow> smo_objsize smo = 0 \<and> smo_alloc smo = 0"
    and hole: "\<not> vdev_ishole (node_of (p_vd p vda))" and defl: "vdev_deflate_ratio (p_vd p vda) \<noteq> 0 \<or> vdev_isl2cache (p_vd p vda)"
  shows "\<exists>p' m. metaslab_init env msp mg smo start size' txg p = Inr p' \<and> p_ms p' = (p_ms p)(msp := m) \<and> group_ok t contents T mg (insert msp ms) p'
    \<and> view_of contents (p_os p) T m = plain_view (logged contents g SM_FREE smo (p_os p)) \<and> quiet m \<and> heavy m \<and> sm_shift (ms_map m) = sm_shift g
    \<and> ms_smo m = smo \<and> ms_smo_syncing m = smo \<and> sm_start (ms_map m) = start \<and> sm_size (ms_map m) = size' \<and> p_os p' = p_os p \<and> pool_same p p'
    \<and> (if txg \<noteq> 0 then listed vda msp txg p p'
       else \<forall>a. tv_ms_list (p_vd p' a) = tv_ms_list (p_vd p a) \<and> tv_dtl_list (p_vd p' a) = tv_dtl_list (p_vd p a))"
proof -
  define m0 where "m0 = \<lparr>ms_smo = zero_smo, ms_smo_syncing = smo, ms_allocmap = (\<lambda>_. zero_map), ms_freemap = (\<lambda>_. zero_map),
    ms_defermap = (\<lambda>_. zero_map), ms_map = g, ms_deferspace = 0, ms_weight = 0, ms_group = None\<rparr>"
  let ?q = "upd_ms msp (\<lambda>_. m0) p" and ?m = "m0\<lparr>ms_group := Some mg, ms_weight := 0\<rparr>"
  note o = group_okD[OF ok]
  have gst: "sm_start g = start" "sm_size g = size'" "sm_lock_held g" by (simp_all add: g_def space_map_create_def)
  have q: "mg_inv ?q mg ms" by (rule mg_inv_cong[OF o(1)]) (use new(1) in auto)
  have "ms_group (p_ms ?q msp) = None" "sm_start (ms_map (p_ms ?q msp)) \<notin> (\<lambda>a. sm_start (ms_map (p_ms ?q a))) ` ms"
    using st new(1) by (auto simp: m0_def gst(1) image_iff)
  note add = metaslab_group_add_inv[OF q this(1) new this(2)]
  obtain tr where tr: "metaslab_group_add mg msp ?q = Inr (upd_mg mg (set_tree tr) (upd_ms msp (\<lambda>m. m\<lparr>ms_group := Some mg, ms_weight := 0\<rparr>) ?q))"
    "mg_inv (upd_mg mg (set_tree tr) (upd_ms msp (\<lambda>m. m\<lparr>ms_group := Some mg, ms_weight := 0\<rparr>) ?q)) mg (insert msp ms)"
    using add unfolding Let_def by blast
  let ?r = "upd_mg mg (set_tree tr) (upd_ms msp (\<lambda>m. m\<lparr>ms_group := Some mg, ms_weight := 0\<rparr>) ?q)"
  have same: "pool_same p ?r" by (rule pool_same_trans[OF pool_same_trans[OF pool_same_upd(1) pool_same_upd(1)] pool_same_upd(2)])
  have r: "p_ms ?r = (p_ms p)(msp := ?m)" "p_os ?r = p_os p" "p_vd ?r = p_vd p" "mg_vd (p_mg ?r mg) = vda" by (simp_all add: vda_def)
  have idle: "sm_idle (ms_map (p_ms ?r msp))"
  proof -
    have "unat start + unat size' < 2 ^ 64" "unat (sm_shift g) < 64" using pl gst by (auto simp: ms_place_def Let_def)
    then show ?thesis using space_map_create_inv[of start size'] by (simp add: m0_def sm_idle_def g_def space_map_create_def)
  qed
  have none: "sm_size (ms_freemap (p_ms ?r msp) s) = 0" for s by (simp add: m0_def zero_map_def space_map_create_def)
  obtain p1 m where d: "metaslab_sync_done env msp 0 ?r = Inr p1" "p_ms p1 = (p_ms ?r)(msp := m)" "ms_inv (p_vd p vda) contents (p_os p) T m"
    "view_of contents (p_os p) T m = plain_view (logged contents g SM_FREE smo (p_os p))"
    "mg_inv p1 mg (insert msp ms)" "p_os p1 = p_os p" "pool_same ?r p1" "ms_smo m = smo" "ms_smo_syncing m = smo"
    "\<forall>a. tv_ms_list (p_vd p1 a) = tv_ms_list (p_vd p a) \<and> tv_dtl_list (p_vd p1 a) = tv_dtl_list (p_vd p a)"
    "weigh_ok m" "\<not> sm_loaded (ms_map m)" "quiet m" "sm_start (ms_map m) = start" "heavy m" "sm_shift (ms_map m) = sm_shift g"
    using metaslab_sync_done_first[OF tr(2) insertI1 k _ idle _ _ none, of contents 0 T] pl gst(3) smo hole defl unfolding r
    by (auto simp: m0_def gst(1))
  have hole1: "\<not> vdev_ishole (node_of (p_vd p1 vda))" using hole pool_sameD(1)[OF d(7)] by simp
  obtain p' where p': "(if txg \<noteq> 0 then rbind (pool_dirty vda 0 0 txg p1) (\<lambda>p. pool_dirty vda VDD_METASLAB msp txg p) else Inr p1) = Inr p'"
    "pool_same p1 p'" "p_ms p' = p_ms p1" "p_mg p' = p_mg p1" "p_os p' = p_os p1"
    "if txg \<noteq> 0 then listed vda msp txg p1 p' else p' = p1"
  proof (cases "txg = 0")
    case False
    obtain p2 where p2: "pool_dirty vda 0 0 txg p1 = Inr p2" "pool_same p1 p2" "p_ms p2 = p_ms p1" "p_mg p2 = p_mg p1" "p_os p2 = p_os p1"
      "\<forall>a. tv_ms_list (p_vd p2 a) = tv_ms_list (p_vd p1 a) \<and> tv_dtl_list (p_vd p2 a) = tv_dtl_list (p_vd p1 a)"
      using pool_dirty_none[OF hole1] by blast
    have hole2: "\<not> vdev_ishole (node_of (p_vd p2 vda))" using hole1 pool_sameD(1)[OF p2(2)] by simp
    obtain p3 where p3: "pool_dirty vda VDD_METASLAB msp txg p2 = Inr p3" "pool_same p2 p3" "p_ms p3 = p_ms p2" "p_mg p3 = p_mg p2" "p_os p3 = p_os p2"
      "listed vda msp txg p2 p3" using pool_dirty_same[OF hole2] by blast
    show thesis by (rule that[of p3]) (use False p2 p3 pool_same_trans[OF p2(2) p3(2)] in \<open>auto simp: listed_def\<close>)
  qed (auto intro: that)
  have same': "pool_same p p'" using pool_same_trans[OF same pool_same_trans[OF d(7) p'(2)]] .
  have m': "p_ms p' = (p_ms p)(msp := m)" using p'(3) d(2) r(1) by simp
  have geo: "sm_start (ms_map m) = start" "sm_size (ms_map m) = size'"
    using d(14) ms_invD(1)[OF d(3)] pl gst(2) by (auto simp: ms_place_def Let_def intro: word_unat_eq_iff[THEN iffD2])
  have "mg_inv p' mg (insert msp ms)" by (rule mg_inv_cong[OF d(5)]) (simp_all add: p'(3,4))
  moreover have "mg_vd (p_mg p' mg) = vda" using pool_sameD(3)[OF same'] by (simp add: vda_def)
  moreover have "mc_ops (p_mc p' (mg_class (p_mg p' mg))) = t" using o(2) same' by (simp add: pool_same_def mg_same_def)
  moreover have "ms_inv (p_vd p' vda) contents (p_os p') T (p_ms p' a)" if "a \<in> insert msp ms" for a
    using that d(3,6) p'(5) o(3)[of a] unfolding m' ms_inv_same[OF pool_sameD(4)[OF same']] vda_def by auto
  ultimately have "group_ok t contents T mg (insert msp ms) p'"
    unfolding group_ok_def using o(4,5) d(11,12) by (auto simp: m')
  moreover have "metaslab_init env msp mg smo start size' txg p = Inr p'"
    unfolding metaslab_init_def Let_def vda_def[symmetric] g_def[symmetric] m0_def[symmetric] using tr(1) dbg txg d(1) p'(1)
    by (auto split del: if_split)
  moreover have "if txg \<noteq> 0 then listed vda msp txg p p'
       else \<forall>a. tv_ms_list (p_vd p' a) = tv_ms_list (p_vd p a) \<and> tv_dtl_list (p_vd p' a) = tv_dtl_list (p_vd p a)"
    using p'(6) d(10) by (auto simp: listed_def)
  ultimately show ?thesis using m' d(4,6,8,9,13,15,16) geo p'(5) same' by (intro exI[of _ p'] exI[of _ m]) simp
qed

end
