(* ===== verification/Vdev_Create.thy ===== *)
theory Vdev_Create
  imports Metaslab_Create
begin

text \<open>
  A new top-level vdev: \<open>vdev_metaslab_init\<close> cuts it into metaslabs, all of whose space is free, and
  leaves the vdev ready for requests and for its first sync.
\<close>

unbundle bit_operations_syntax

section \<open>The metaslabs one by one\<close>

abbreviation add_ms :: "addr list \<Rightarrow> top_vdev \<Rightarrow> top_vdev" where
  "add_ms xs v \<equiv> v\<lparr>vdev_ms := vdev_ms v @ xs\<rparr>"

lemma add_ms_same: "pool_same p q \<Longrightarrow> pool_same (upd_vd vda (add_ms xs) p) (upd_vd vda (add_ms xs) q)"
  by (simp add: pool_same_def vd_same_def mg_same_def)

lemma add_ms_add: "upd_vd vda (add_ms ys) (upd_vd vda (add_ms xs) p) = upd_vd vda (add_ms (xs @ ys)) p"
  by (simp add: upd_vd_def)

lemma add_ms_group:
  assumes "group_ok t contents T mg ms p"
  shows "group_ok t contents T mg ms (upd_vd vda (add_ms xs) p)"
proof -
  have "ms_inv (p_vd (upd_vd vda (add_ms xs) p) x) contents os T m = ms_inv (p_vd p x) contents os T m" for x os m
    by (simp add: ms_inv_def ms_place_def)
  moreover have "mg_inv (upd_vd vda (add_ms xs) p) mg ms" by (rule mg_inv_cong[OF group_okD(1)[OF assms]]) simp_all
  ultimately show ?thesis using assms by (simp add: group_ok_def)
qed

text \<open>A metaslab as it has just been created as one of the first \<open>n\<close>.\<close>

definition new_ms :: "('os \<Rightarrow> u64 \<Rightarrow> u64 list) \<Rightarrow> u64 \<Rightarrow> nat \<Rightarrow> nat \<Rightarrow> 'os pool \<Rightarrow> addr \<Rightarrow> bool" where
  "new_ms contents T s n p a \<longleftrightarrow> quiet (p_ms p a) \<and> ms_smo (p_ms p a) = zero_smo \<and> ms_smo_syncing (p_ms p a) = zero_smo
     \<and> (\<exists>j < n. unat (sm_start (ms_map (p_ms p a))) = j * 2 ^ s)
     \<and> view_of contents (p_os p) T (p_ms p a) = plain_view (range_set (sm_start (ms_map (p_ms p a))) (sm_size (ms_map (p_ms p a))))"

text \<open>Only the list of transaction group \<open>txg\<close> has entries, and they are in \<open>ms\<close>.\<close>

definition only_listed :: "u64 \<Rightarrow> addr set \<Rightarrow> txg_list \<Rightarrow> bool" where
  "only_listed txg ms l \<longleftrightarrow> (\<exists>L. tl_inv l L \<and> (\<forall>s. s \<noteq> TXG_IDX txg \<longrightarrow> L s = []) \<and> set (L (TXG_IDX txg)) \<subseteq> ms)"

lemma only_listed_add:
  assumes "only_listed txg ms l"
  shows "only_listed txg (insert a ms) (fst (txg_list_add l a txg))"
proof -
  obtain L where L: "tl_inv l L" "\<forall>s. s \<noteq> TXG_IDX txg \<longrightarrow> L s = []" "set (L (TXG_IDX txg)) \<subseteq> ms" using assms by (auto simp: only_listed_def)
  show ?thesis unfolding only_listed_def
    by (rule exI, rule conjI, rule txg_list_add_inv(2)[OF L(1) refl]) (use L(2,3) in auto)
qed

text \<open>What the loop needs of the vdev: units of at least 512 bytes, and as many metaslabs as fit in 64 bits.\<close>

definition vd_shape :: "addr \<Rightarrow> addr \<Rightarrow> nat \<Rightarrow> 'os pool \<Rightarrow> bool" where
  "vd_shape mg vda s p \<longleftrightarrow> mg_vd (p_mg p mg) = vda \<and> vdev_mg (p_vd p vda) = Some mg \<and> \<not> vdev_ishole (node_of (p_vd p vda))
     \<and> (vdev_deflate_ratio (p_vd p vda) \<noteq> 0 \<or> vdev_isl2cache (p_vd p vda)) \<and> unat (vdev_ms_shift (node_of (p_vd p vda))) = s
     \<and> 9 \<le> unat (vdev_ashift (node_of (p_vd p vda))) \<and> unat (vdev_ashift (node_of (p_vd p vda))) \<le> s \<and> s < 57
     \<and> unat (vdev_ms_count (p_vd p vda)) * 2 ^ s < 2 ^ 64"

lemma vd_shape_same: "vd_shape mg vda s p \<Longrightarrow> pool_same p p' \<Longrightarrow> vd_shape mg vda s p'"
  by (simp add: vd_shape_def pool_same_def vd_same_def mg_same_def)

lemma vd_shape_add: "vd_shape mg vda s (upd_vd vda (add_ms xs) p) = vd_shape mg vda s p"
  by (simp add: vd_shape_def)

lemma shape_place:
  assumes sh: "vd_shape mg vda s p" and m: "unat m < unat (vdev_ms_count (p_vd p vda))"
  defines "g \<equiv> new_map (p_vd p vda) (push_bit s m) (push_bit s 1)"
  shows "ms_place (p_vd p vda) g" "unat (push_bit s m) = unat m * 2 ^ s" "sm_size g = push_bit s 1" "sm_start g = push_bit s m"
proof -
  let ?n = "node_of (p_vd p vda)"
  have h: "unat (vdev_ms_shift ?n) = s" "9 \<le> unat (vdev_ashift ?n)" "unat (vdev_ashift ?n) \<le> s" "s < 57" "unat (vdev_ms_count (p_vd p vda)) * 2 ^ s < 2 ^ 64"
    using sh by (auto simp: vd_shape_def)
  have "(unat m + 1) * 2 ^ s \<le> unat (vdev_ms_count (p_vd p vda)) * 2 ^ s" using m by (intro mult_right_mono) auto
  then have le: "unat m * 2 ^ s + 2 ^ s < 2 ^ 64" using h(5) by (simp add: algebra_simps)
  show st: "unat (push_bit s m) = unat m * 2 ^ s" using le by (intro unat_push_bit_64) simp
  have sz: "unat (push_bit s 1 :: u64) = 2 ^ s" using h(4) by (simp add: unat_pow2_64)
  have sh8: "unat (ucast (vdev_ashift ?n) :: u8) = unat (vdev_ashift ?n)"
    using h(3,4) by (simp add: unsigned_ucast_eq take_bit_nat_eq_self)
  show "sm_size g = push_bit s 1" "sm_start g = push_bit s m" by (simp_all add: g_def space_map_create_def)
  then show "ms_place (p_vd p vda) g"
    using h le st sz sh8 m by (simp add: ms_place_def Let_def g_def space_map_create_def)
qed

lemma zero_smo_ok:
  assumes "contents os 0 = []"
  shows "smo_ok contents g SM_FREE zero_smo os" "logged contents g SM_FREE zero_smo os = range_set (sm_start g) (sm_size g)"
  using assms by (simp_all add: smo_ok_def zero_smo_def load_start_def Let_def)

lemma metaslab_init_loop_ok:
  assumes k: "kmem_fresh (me_kernel env)" and txg: "txg \<noteq> 0" "txg \<le> TXG_INITIAL"
    and "group_ok t contents txg mg ms p" "vd_shape mg vda s p" "contents (p_os p) 0 = []" "\<forall>a \<in> ms. new_ms contents txg s (unat m) p a"
    and "only_listed txg ms (tv_ms_list (p_vd p vda))" "distinct mem" "set mem \<inter> ms = {}" "avl_tmp \<notin> set mem"
    and "unat m + length mem \<le> unat (vdev_ms_count (p_vd p vda))"
  shows "\<exists>p'. metaslab_init_loop env vda txg m mem p = Inr (p', 0) \<and> group_ok t contents txg mg (ms \<union> set mem) p'
    \<and> pool_same (upd_vd vda (add_ms mem) p) p' \<and> p_os p' = p_os p \<and> (\<forall>a \<in> ms \<union> set mem. new_ms contents txg s (unat m + length mem) p' a)
    \<and> only_listed txg (ms \<union> set mem) (tv_ms_list (p_vd p' vda)) \<and> (\<forall>x. tv_dtl_list (p_vd p' x) = tv_dtl_list (p_vd p x))"
  using assms(4-)
proof (induction mem arbitrary: m ms p)
  case Nil
  then show ?case by (intro exI[of _ p]) (simp add: pool_same_def vd_same_def mg_same_def)
next
  case (Cons a mem)
  have vda: "mg_vd (p_mg p mg) = vda" "vdev_mg (p_vd p vda) = Some mg" "\<not> vdev_ishole (node_of (p_vd p vda))"
    "vdev_deflate_ratio (p_vd p vda) \<noteq> 0 \<or> vdev_isl2cache (p_vd p vda)" "unat (vdev_ms_shift (node_of (p_vd p vda))) = s"
    using Cons.prems(2) by (auto simp: vd_shape_def)
  have m: "unat m < unat (vdev_ms_count (p_vd p vda))" using Cons.prems(9) by simp
  note pl = shape_place[OF Cons.prems(2) m]
  note z = zero_smo_ok[of contents "p_os p", OF Cons.prems(3)]
  have st: "sm_start (ms_map (p_ms p b)) \<noteq> push_bit s m" if "b \<in> ms" for b
    using Cons.prems(4) that pl(2) by (auto simp: new_ms_def)
  have new: "a \<notin> ms" "a \<noteq> avl_tmp" using Cons.prems(7,8) by auto
  obtain p1 x where p1: "metaslab_init env a mg zero_smo (push_bit s m) (push_bit s 1) txg p = Inr p1" "p_ms p1 = (p_ms p)(a := x)"
    "group_ok t contents txg mg (insert a ms) p1" "view_of contents (p_os p) txg x = plain_view (range_set (push_bit s m) (push_bit s 1))" "quiet x"
    "ms_smo x = zero_smo" "ms_smo_syncing x = zero_smo" "sm_start (ms_map x) = push_bit s m" "sm_size (ms_map x) = push_bit s 1"
    "p_os p1 = p_os p" "pool_same p p1" "listed vda a txg p p1"
    using metaslab_init_ok[OF Cons.prems(1) k new st, unfolded vda(1), OF _ pl(1) txg(2) _ z(1) _ vda(3,4)] txg(1) pl(3,4) z(2)
    by (auto simp: zero_smo_def)
  let ?q = "upd_vd vda (add_ms [a]) p1"
  have same: "pool_same (upd_vd vda (add_ms [a]) p) ?q" by (rule add_ms_same[OF p1(11)])
  have fit: "unat (m + 1) = unat m + 1"
    using m unat_less_64[of "vdev_ms_count (p_vd p vda)"] by (subst unat_add_no_wrap) simp_all
  have vq: "tv_ms_list (p_vd ?q vda) = fst (txg_list_add (tv_ms_list (p_vd p vda)) a txg)" "tv_dtl_list (p_vd ?q y) = tv_dtl_list (p_vd p y)"
    "vdev_ms_count (p_vd ?q vda) = vdev_ms_count (p_vd p vda)" for y
    using p1(11,12) by (auto simp: listed_def pool_same_def vd_same_def)
  have nq: "\<forall>b \<in> insert a ms. new_ms contents txg s (unat (m + 1)) ?q b"
  proof
    fix b assume b: "b \<in> insert a ms"
    show "new_ms contents txg s (unat (m + 1)) ?q b"
    proof (cases "b = a")
      case True
      then show ?thesis using p1 pl(2) unfolding new_ms_def fit by (auto simp: Suc_le_eq)
    next
      case False
      then have "new_ms contents txg s (unat m) p b" using b Cons.prems(4) by simp
      then show ?thesis using False unfolding new_ms_def fit by (auto simp: p1(2,10) intro: less_SucI)
    qed
  qed
  obtain p' where p': "metaslab_init_loop env vda txg (m + 1) mem ?q = Inr (p', 0)" "group_ok t contents txg mg (insert a ms \<union> set mem) p'"
    "pool_same (upd_vd vda (add_ms mem) ?q) p'" "p_os p' = p_os ?q" "\<forall>b \<in> insert a ms \<union> set mem. new_ms contents txg s (unat (m + 1) + length mem) p' b"
    "only_listed txg (insert a ms \<union> set mem) (tv_ms_list (p_vd p' vda))" "\<forall>x. tv_dtl_list (p_vd p' x) = tv_dtl_list (p_vd ?q x)"
    using Cons.IH[of "insert a ms" ?q "m + 1"] add_ms_group[OF p1(3)] Cons.prems vd_shape_same[OF Cons.prems(2) p1(11)] nq only_listed_add[OF Cons.prems(5), of a] vq fit
    by (auto simp: vd_shape_add p1(10))
  have "pool_same (upd_vd vda (add_ms (a # mem)) p) p'"
    using pool_same_trans[OF add_ms_same[OF same, of vda mem] p'(3)] by (simp add: add_ms_add)
  moreover have "metaslab_init_loop env vda txg m (a # mem) p = Inr (p', 0)"
    using p1(1) p'(1) vda(2,5) txg(1) by (simp add: deref_def Let_def)
  ultimately show ?case using p' vq(2) fit by (intro exI[of _ p']) (simp add: p1(10))
qed

section \<open>The whole vdev\<close>

lemma metaslab_group_activate_ok:
  assumes "group_ok t contents T mg ms p" "mg_prev (p_mg p mg) = None" "mg_next (p_mg p mg) = None" "mg_activation_count (p_mg p mg) = 0"
    and "mc_rotor (p_mc p (mg_class (p_mg p mg))) = None"
  shows "\<exists>p'. metaslab_group_activate mg p = Inr p' \<and> group_ok t contents T mg ms p' \<and> p_ms p' = p_ms p \<and> p_vd p' = p_vd p \<and> p_os p' = p_os p
    \<and> p_top p' = p_top p \<and> mg_vd (p_mg p' mg) = mg_vd (p_mg p mg) \<and> mg_class (p_mg p' mg) = mg_class (p_mg p mg)
    \<and> mg_next (p_mg p' mg) = Some mg \<and> mg_prev (p_mg p' mg) = Some mg \<and> mc_rotor (p_mc p' (mg_class (p_mg p mg))) = Some mg"
proof -
  let ?al = "metaslab_aliquot * max 1 (of_nat (length (vdev_child (tv_tree (p_vd p (mg_vd (p_mg p mg)))))))"
  let ?p = "upd_mc (mg_class (p_mg p mg)) (\<lambda>c. c\<lparr>mc_rotor := Some mg\<rparr>)
      (upd_mg mg (\<lambda>g. g\<lparr>mg_activation_count := 1, mg_aliquot := ?al, mg_prev := Some mg, mg_next := Some mg\<rparr>) p)"
  have run: "metaslab_group_activate mg p = Inr ?p"
    using assms(2-5) by (simp add: metaslab_group_activate_def Let_def upd_mg_def upd_mc_def)
  have "mg_inv ?p mg ms" by (rule mg_inv_cong[OF group_okD(1)[OF assms(1)]]) simp_all
  then have "group_ok t contents T mg ms ?p" using group_okD(2-5)[OF assms(1)] unfolding group_ok_def by simp
  then show ?thesis using run by (intro exI[of _ ?p]) simp
qed

text \<open>A vdev that has no metaslabs yet, with a group of its own that is not active.\<close>

definition vdev_new :: "addr \<Rightarrow> addr \<Rightarrow> sm_ops_table \<Rightarrow> 'os pool \<Rightarrow> bool" where
  "vdev_new mg vda t p \<longleftrightarrow> (let v = p_vd p vda; n = node_of v; g = p_mg p mg in
     vdev_mg v = Some mg \<and> vdev_ms v = [] \<and> vdev_ms_count v = 0 \<and> vdev_ms_array v = 0 \<and> \<not> vdev_ishole n \<and> \<not> vdev_removing n
     \<and> 9 \<le> unat (vdev_ashift n) \<and> unat (vdev_ashift n) \<le> unat (vdev_ms_shift n) \<and> unat (vdev_ms_shift n) < 57
     \<and> (\<exists>L. tl_inv (tv_ms_list v) L \<and> (\<forall>s. L s = []))
     \<and> mg_vd g = vda \<and> avl_inv (mg_metaslab_tree g) [] \<and> mg_prev g = None \<and> mg_next g = None \<and> mg_activation_count g = 0
     \<and> mc_ops (p_mc p (mg_class g)) = t \<and> mc_rotor (p_mc p (mg_class g)) = None)"

definition ms_total :: "top_vdev \<Rightarrow> nat" where
  "ms_total v = unat (vdev_asize (node_of v)) div 2 ^ unat (vdev_ms_shift (node_of v))"

lemma vdev_metaslab_init_ok:
  assumes new: "vdev_new mg vda t p" and k: "kmem_fresh (me_kernel env)" and txg: "txg \<noteq> 0" "txg \<le> TXG_INITIAL"
    and c0: "contents (p_os p) 0 = []" and mem: "length mem = ms_total (p_vd p vda)" "distinct mem" "avl_tmp \<notin> set mem"
    and defl: "push_bit 17 1 div drop_bit SPA_MINBLOCKSHIFT (vd_asize (p_vd p vda) (push_bit 17 1)) \<noteq> 0"
  shows "\<exists>p'. vdev_metaslab_init env vda txg (\<lambda>_. mem) p = Inr (p', 0) \<and> vdev_ok t contents objs vda mg (set mem) txg p' \<and> p_os p' = p_os p \<and> p_top p' = p_top p
    \<and> vdev_ms (p_vd p' vda) = mem \<and> tv_tree (p_vd p' vda) = tv_tree (p_vd p vda) \<and> tv_dtl_list (p_vd p' vda) = tv_dtl_list (p_vd p vda)
    \<and> vdev_ms_count (p_vd p' vda) = of_nat (ms_total (p_vd p vda))
    \<and> (\<forall>a \<in> set mem. new_ms contents txg (unat (vdev_ms_shift (node_of (p_vd p vda)))) (length mem) p' a)"
proof -
  let ?v = "p_vd p vda"
  let ?n = "node_of ?v" and ?g = "p_mg p mg"
  let ?newc = "drop_bit (unat (vdev_ms_shift ?n)) (vdev_asize ?n)"
  let ?ratio = "push_bit 17 1 div drop_bit SPA_MINBLOCKSHIFT (vdev_psize_to_asize (vdev_ashift ?n) (tv_tree ?v) (push_bit 17 1)) :: u64"
  let ?q = "upd_vd vda (\<lambda>v. v\<lparr>vdev_deflate_ratio := ?ratio, vdev_ms_count := ?newc\<rparr>) p"
  have h: "vdev_mg ?v = Some mg" "vdev_ms ?v = []" "vdev_ms_count ?v = 0" "vdev_ms_array ?v = 0" "\<not> vdev_ishole ?n" "\<not> vdev_removing ?n"
    "9 \<le> unat (vdev_ashift ?n)" "unat (vdev_ashift ?n) \<le> unat (vdev_ms_shift ?n)" "unat (vdev_ms_shift ?n) < 57"
    "mg_vd ?g = vda" "avl_inv (mg_metaslab_tree ?g) []" "mg_prev ?g = None" "mg_next ?g = None" "mg_activation_count ?g = 0"
    "mc_ops (p_mc p (mg_class ?g)) = t" "mc_rotor (p_mc p (mg_class ?g)) = None" "only_listed txg {} (tv_ms_list ?v)"
    using new unfolding vdev_new_def Let_def only_listed_def by auto
  have newc: "unat ?newc = ms_total ?v" by (simp add: ms_total_def unat_drop_bit_64)
  have fits: "unat ?newc * 2 ^ unat (vdev_ms_shift ?n) < 2 ^ 64"
    unfolding newc ms_total_def using unat_less_64[of "vdev_asize ?n"] div_times_less_eq_dividend[of "unat (vdev_asize ?n)"] by (meson le_less_trans)
  have "mg_inv ?q mg {}" using h(11) by (simp add: mg_inv_def)
  then have okq: "group_ok t contents txg mg {} ?q" using h(15) by (simp add: group_ok_def)
  have shq: "vd_shape mg vda (unat (vdev_ms_shift ?n)) ?q" using h defl fits by (simp add: vd_shape_def vd_asize_def)
  obtain p1 where p1: "metaslab_init_loop env vda txg 0 mem ?q = Inr (p1, 0)" "group_ok t contents txg mg (set mem) p1"
    "pool_same (upd_vd vda (add_ms mem) ?q) p1" "p_os p1 = p_os p" "\<forall>a \<in> set mem. new_ms contents txg (unat (vdev_ms_shift ?n)) (length mem) p1 a"
    "only_listed txg (set mem) (tv_ms_list (p_vd p1 vda))" "\<forall>x. tv_dtl_list (p_vd p1 x) = tv_dtl_list (p_vd p x)"
    using metaslab_init_loop_ok[OF k txg okq shq, of 0 mem] c0 mem h(17) newc by auto
  have f: "mg_vd (p_mg p1 mg) = vda" "mg_class (p_mg p1 mg) = mg_class ?g" "mg_prev (p_mg p1 mg) = None" "mg_next (p_mg p1 mg) = None"
    "mg_activation_count (p_mg p1 mg) = 0" "mc_rotor (p_mc p1 (mg_class ?g)) = None" "vdev_mg (p_vd p1 vda) = Some mg" "tv_tree (p_vd p1 vda) = tv_tree ?v"
    "vdev_ms (p_vd p1 vda) = mem" "vdev_ms_count (p_vd p1 vda) = ?newc" "vdev_ms_array (p_vd p1 vda) = 0" "vdev_deflate_ratio (p_vd p1 vda) = ?ratio"
    "p_top p1 = p_top p"
    using p1(3) h by (simp_all add: pool_same_def vd_same_def mg_same_def)
  obtain p' where p': "metaslab_group_activate mg p1 = Inr p'" "group_ok t contents txg mg (set mem) p'" "p_ms p' = p_ms p1" "p_vd p' = p_vd p1" "p_os p' = p_os p1"
    "p_top p' = p_top p1" "mg_vd (p_mg p' mg) = mg_vd (p_mg p1 mg)"
    using metaslab_group_activate_ok[OF p1(2) f(3,4,5)] f(2,6) by auto
  have sh0: "vdev_ms_shift ?n \<noteq> 0" using h(7,8) by auto
  have run: "vdev_metaslab_init env vda txg (\<lambda>_. mem) p = Inr (p', 0)"
    unfolding vdev_metaslab_init_def Let_def using sh0 h(3,5) p1(1) p'(1) f(7) by (simp add: deref_def)
  have nw: "new_ms contents txg s n p' a = new_ms contents txg s n p1 a" for s n a unfolding new_ms_def p'(3,5) ..
  have rdy: "vd_ready mg vda (set mem) p'"
    using h(5,6) defl unfolding vd_ready_def p'(4,7) f by (auto simp: vd_asize_def dest: in_set_takeD)
  have arr: "array_new vda (set mem) p'"
    using sh0 p1(5) unfolding array_new_def p'(3,4) f by (auto simp: new_ms_def zero_smo_def)
  obtain L where L: "tl_inv (tv_ms_list (p_vd p1 vda)) L" "\<forall>s. s \<noteq> TXG_IDX txg \<longrightarrow> L s = []" "set (L (TXG_IDX txg)) \<subseteq> set mem"
    using p1(6) by (auto simp: only_listed_def)
  have q: "quiet (p_ms p1 a)" "ms_smo (p_ms p1 a) = ms_smo_syncing (p_ms p1 a)" if "a \<in> set mem" for a using p1(5) that by (auto simp: new_ms_def)
  have "lists_ok txg (set mem) (p_ms p1) L"
    unfolding lists_ok_def
  proof (intro conjI allI impI ballI)
    fix s show "set (L s) \<subseteq> set mem" using L(2,3) by (cases "s = TXG_IDX txg") auto
  next
    have "slot_at txg 3 \<noteq> TXG_IDX txg" using slot_at_eq[of 3 0 txg] by (simp add: TXG_IDX_now)
    then show "L (slot_at txg 3) = []" using L(2) by blast
  qed (use quiet_sets[OF q(1)] in auto)
  then have "\<exists>L. tl_inv (tv_ms_list (p_vd p' vda)) L \<and> lists_ok txg (set mem) (p_ms p') L" unfolding p'(3,4) using L(1) by blast
  then have "vdev_ok t contents objs vda mg (set mem) txg p'"
    unfolding vdev_ok_def using p'(2) rdy arr q quiet_sets(2)[OF q(1)] by (auto simp: p'(3))
  moreover have "vdev_ms_count (p_vd p' vda) = of_nat (ms_total ?v)" unfolding p'(4) f newc[symmetric] by simp
  ultimately show ?thesis using run p' f p1(4,5,7) nw by (intro exI[of _ p']) simp
qed

end
