(* ===== verification/Pool_Example.thy ===== *)
theory Pool_Example
  imports Vdev_Create Space_Map_Properties
begin

text \<open>
  Two small pools on which the properties of metaslabs and vdevs are instantiated: one with a disk of
  128 KiB that has no metaslabs yet, and one that is opened with a metaslab of 64 KiB, the first 512 bytes
  of which are in use.
\<close>

section \<open>An object set\<close>

text \<open>The contents of the objects and the number of the next object; 0 when the numbers are used up.\<close>

type_synonym object_set = "(u64 \<Rightarrow> u64 list) \<times> u64"

definition object_store :: "object_set dmu" where
  "object_store = \<lparr>
     dmu_read = (\<lambda>os. dmu_read word_store (fst os)),
     dmu_write = (\<lambda>obj off ws os. (dmu_write word_store obj off ws (fst os), snd os)),
     dmu_free_range = (\<lambda>obj os. (0, ((fst os)(obj := []), snd os)))\<rparr>"

definition objects_of :: "object_set \<Rightarrow> u64 set" where
  "objects_of os = {obj. obj \<noteq> 0 \<and> (snd os = 0 \<or> obj < snd os)}"

definition example_ms_env :: "object_set ms_env" where
  "example_ms_env = \<lparr>me_kernel = example_kernel, me_dmu = object_store,
     me_object_alloc = (\<lambda>os. (snd os, ((fst os)(snd os := []), snd os + 1))),
     me_bonus_write = (\<lambda>obj smo os. (0, os)), me_cv_wait = id, metaslab_debug = False, spa_sync_pass = 1, spa_normal_class = 2,
     spa_deflate = True, spa_freeze_txg = -1, spa_writeable = True, spa_syncing_txg = 4, spa_version = 22,
     me_object_free = (\<lambda>obj os. (0, os)), me_bonus_read = (\<lambda>obj os. (0, zero_smo)), ddi_get_lbolt = 1\<rparr>"

lemma object_store_appends: "dmu_appends object_store fst"
  by (auto simp: dmu_appends_def object_store_def word_store_def)

lemma example_ms_kernel: "kmem_fresh (me_kernel example_ms_env)"
  using example_kernel_fresh by (simp add: example_ms_env_def)

lemma objects_of_next:
  assumes "n \<noteq> 0"
  shows "n \<notin> objects_of (f, n)" "objects_of (g, n + 1) = insert n (objects_of (f, n))"
proof -
  show "n \<notin> objects_of (f, n)" using assms by (simp add: objects_of_def)
  have "obj < n + 1 \<longleftrightarrow> obj < n \<or> obj = n" if "n + 1 \<noteq> 0" for obj
  proof -
    have "unat (n + 1) = Suc (unat n)" using that unatSuc[of n] by (simp add: add.commute)
    then show ?thesis by (auto simp: word_less_nat_alt less_Suc_eq word_unat_eq_iff)
  qed
  moreover have "obj < n \<or> obj = n" if "n + 1 = 0" for obj :: u64
  proof -
    have "n = -1" using that by (simp add: eq_neg_iff_add_eq_0)
    then show ?thesis using word_order.extremum[of obj] by (auto simp: order_le_less)
  qed
  ultimately show "objects_of (g, n + 1) = insert n (objects_of (f, n))"
    using assms unfolding objects_of_def fst_conv snd_conv by (cases "n + 1 = 0") auto
qed

lemma example_mos: "mos_ok example_ms_env fst objects_of"
proof -
  have "snd os \<noteq> 0" if "insert 0 (objects_of os) \<noteq> UNIV" for os using that by (auto simp: objects_of_def)
  then have "\<exists>obj os'. me_object_alloc example_ms_env os = (obj, os') \<and> obj \<noteq> 0 \<and> obj \<notin> objects_of os
      \<and> fst os' = (fst os)(obj := []) \<and> objects_of os' = insert obj (objects_of os)" if "insert 0 (objects_of os) \<noteq> UNIV" for os
    using that objects_of_next(1)[where n = "snd os" and f = "fst os"]
      objects_of_next(2)[where n = "snd os" and f = "fst os" and g = "(fst os)(snd os := [])"] by (simp add: example_ms_env_def)
  then show ?thesis using object_store_appends unfolding mos_ok_def
    by (auto simp: example_ms_env_def object_store_def word_store_def objects_of_def)
qed

section \<open>A pool with an empty disk\<close>

definition example_vd_node :: vdev_node where
  "example_vd_node = \<lparr>vdev_self = 3, vdev_id = 0, vdev_guid = 99, vdev_asize = 131072, vdev_min_asize = 131072, vdev_ashift = 9, vdev_ms_shift = 16,
     vdev_state = VDEV_STATE_HEALTHY, vdev_ops_of = vdev_disk_ops, vdev_dtl = (\<lambda>_. vdev_dtl_create), vdev_dtl_smo = zero_smo, vdev_nparity = 0,
     vdev_ishole = False, vdev_aux = None, vdev_removing = False, vdev_detached = False, vdev_cant_read = False, vdev_cant_write = False\<rparr>"

definition no_dirty :: txg_list where
  "no_dirty = txg_list_create (\<lambda>_. \<lparr>tn_next = (\<lambda>_. None), tn_member = (\<lambda>_. False)\<rparr>)"

definition example_vdev :: top_vdev where
  "example_vdev = \<lparr>tv_tree = VDEV example_vd_node [], vdev_ms_array = 0, vdev_ms_count = 0, vdev_mg = Some 1, vdev_ms = [],
     tv_ms_list = no_dirty, tv_dtl_list = no_dirty, vdev_deflate_ratio = 0, vdev_isl2cache = False,
     vdev_stat_of = \<lparr>vs_alloc = 0, vs_space = 0, vs_dspace = 0, vs_write_errors = 0\<rparr>\<rparr>"

definition zero_ms :: metaslab where
  "zero_ms = \<lparr>ms_smo = zero_smo, ms_smo_syncing = zero_smo, ms_allocmap = (\<lambda>_. zero_map), ms_freemap = (\<lambda>_. zero_map), ms_defermap = (\<lambda>_. zero_map),
     ms_map = zero_map, ms_deferspace = 0, ms_weight = 0, ms_group = None\<rparr>"

definition zero_mg :: metaslab_group where
  "zero_mg = \<lparr>mg_metaslab_tree = avl_create (\<lambda>_. blank_node), mg_aliquot = 0, mg_bonus_area = 0, mg_bias = 0, mg_activation_count = 0,
     mg_class = 0, mg_vd = 0, mg_prev = None, mg_next = None\<rparr>"

definition zero_mc :: metaslab_class where
  "zero_mc = \<lparr>mc_rotor = None, mc_ops = metaslab_df, mc_aliquot = 0, mc_alloc = 0, mc_deferred = 0, mc_space = 0, mc_dspace = 0\<rparr>"

text \<open>The class at 2, the group at 1 and the vdev at 3, which is the only top-level vdev.\<close>

definition example_new_pool :: "object_set pool" where
  "example_new_pool = metaslab_group_create 1 2 3 (metaslab_class_create 2 metaslab_df
     \<lparr>p_ms = (\<lambda>_. zero_ms), p_mg = (\<lambda>_. zero_mg), p_mc = (\<lambda>_. zero_mc), p_vd = (\<lambda>_. example_vdev), p_top = [3],
      p_root_stat = \<lparr>vs_alloc = 0, vs_space = 0, vs_dspace = 0, vs_write_errors = 0\<rparr>, p_vdev_txg_list = no_dirty, p_config_dirty = [],
      p_os = (\<lambda>_. [], 1)\<rparr>)"

lemma no_dirty_lists: "tl_inv no_dirty (\<lambda>_. [])" "txg_list_empty no_dirty T"
  unfolding no_dirty_def by (rule tl_create_inv) (simp_all add: txg_list_create_def txg_list_empty_def)

lemma empty_tree: "avl_inv (avl_create (\<lambda>_. blank_node)) []"
  by (rule avl_create_inv)

lemma example_vdev_new: "vdev_new 1 3 metaslab_df example_new_pool"
  using no_dirty_lists(1) empty_tree
  by (auto simp: vdev_new_def Let_def example_new_pool_def metaslab_group_create_def metaslab_class_create_def example_vdev_def example_vd_node_def)

section \<open>A pool that is opened\<close>

definition example_closed_pool :: "object_set pool" where
  "example_closed_pool = (upd_vd 3 (\<lambda>v. v\<lparr>vdev_ms_array := 1, vdev_ms_count := 1, vdev_ms := [10], vdev_deflate_ratio := 512\<rparr>) example_new_pool)
     \<lparr>p_os := ((\<lambda>_. [])(7 := [example_entry]), 8)\<rparr>"

definition example_pool :: "object_set pool" where
  "example_pool = (case metaslab_init example_ms_env 10 1 example_smo 0 65536 0 example_closed_pool of Inr p \<Rightarrow> p | Inl _ \<Rightarrow> example_closed_pool)"


lemma example_closed_fields:
  "p_mg example_closed_pool 1 = \<lparr>mg_metaslab_tree = avl_create (\<lambda>_. blank_node), mg_aliquot = 0, mg_bonus_area = 0, mg_bias = 0,
     mg_activation_count = 0, mg_class = 2, mg_vd = 3, mg_prev = None, mg_next = None\<rparr>"
  "p_vd example_closed_pool 3 = example_vdev\<lparr>vdev_ms_array := 1, vdev_ms_count := 1, vdev_ms := [10], vdev_deflate_ratio := 512\<rparr>"
  "mc_ops (p_mc example_closed_pool 2) = metaslab_df" "p_os example_closed_pool = ((\<lambda>_. [])(7 := [example_entry]), 8)" "p_top example_closed_pool = [3]"
  by (simp_all add: example_closed_pool_def example_new_pool_def metaslab_group_create_def metaslab_class_create_def)

lemma example_map: "new_map (p_vd example_closed_pool 3) 0 65536 = empty_map"
  by (simp add: empty_map_def example_closed_fields example_vdev_def example_vd_node_def)

lemma example_map_place: "ms_place (p_vd example_closed_pool 3) empty_map"
  unfolding ms_place_def empty_map_fields
  by (simp add: example_closed_fields example_vdev_def example_vd_node_def empty_map_def space_map_create_def)

lemma example_open:
  "\<exists>m. metaslab_init example_ms_env 10 1 example_smo 0 65536 0 example_closed_pool = Inr example_pool \<and> p_ms example_pool = (p_ms example_closed_pool)(10 := m)
    \<and> group_ok metaslab_df fst T 1 {10} example_pool \<and> view_of fst (p_os example_closed_pool) T m = plain_view {512 ..< 65536} \<and> quiet m \<and> heavy m \<and> sm_shift (ms_map m) = 9
    \<and> ms_smo m = example_smo \<and> ms_smo_syncing m = example_smo \<and> sm_start (ms_map m) = 0 \<and> sm_size (ms_map m) = 65536
    \<and> p_os example_pool = p_os example_closed_pool \<and> pool_same example_closed_pool example_pool
    \<and> (\<forall>a. tv_ms_list (p_vd example_pool a) = tv_ms_list (p_vd example_closed_pool a) \<and> tv_dtl_list (p_vd example_pool a) = tv_dtl_list (p_vd example_closed_pool a))"
proof -
  have "mg_inv example_closed_pool 1 {}" using empty_tree by (simp add: mg_inv_def example_closed_fields[unfolded One_nat_def])
  then have ok: "group_ok metaslab_df fst T 1 {} example_closed_pool" by (simp add: group_ok_def example_closed_fields[unfolded One_nat_def])
  have c: "fst (p_os example_closed_pool) (smo_object example_smo) = [example_entry]" by (simp add: example_closed_fields example_smo_def)
  have sh: "sm_shift empty_map = 9" by (simp add: empty_map_def space_map_create_def)
  have vd: "mg_vd (p_mg example_closed_pool 1) = 3" "\<not> vdev_ishole (node_of (p_vd example_closed_pool 3))"
    "vdev_deflate_ratio (p_vd example_closed_pool 3) \<noteq> 0 \<or> vdev_isl2cache (p_vd example_closed_pool 3)"
    by (simp_all add: example_closed_fields[unfolded One_nat_def] example_vdev_def example_vd_node_def)
  have "(10::addr) \<noteq> avl_tmp" "(0::u64) \<le> TXG_INITIAL" "\<not> metaslab_debug example_ms_env \<or> smo_object example_smo = 0"
    "smo_object example_smo = 0 \<Longrightarrow> smo_objsize example_smo = 0 \<and> smo_alloc example_smo = 0"
    by (simp_all add: avl_tmp_def example_ms_env_def example_smo_def)
  note i = metaslab_init_ok[OF ok example_ms_kernel, of 10 0 65536 0 example_smo, unfolded vd(1) example_map, OF _ this(1) _ example_map_place this(2,3)
    example_log(2)[of fst, OF c] this(4) vd(2,3), unfolded example_log(1)[of fst, OF c] sh]
  show ?thesis using i by (auto simp: example_pool_def)
qed

lemma example_same: "pool_same example_closed_pool example_pool" "p_os example_pool = ((\<lambda>_. [])(7 := [example_entry]), 8)"
  using example_open[of 0] example_closed_fields(4) by auto

lemma example_vd:
  "vdev_ms_array (p_vd example_pool 3) = 1" "vdev_ms_count (p_vd example_pool 3) = 1" "vdev_ms (p_vd example_pool 3) = [10]"
  "vdev_mg (p_vd example_pool 3) = Some 1" "vdev_deflate_ratio (p_vd example_pool 3) = 512" "node_of (p_vd example_pool 3) = example_vd_node"
  "tv_tree (p_vd example_pool 3) = VDEV example_vd_node []" "mg_vd (p_mg example_pool 1) = 3" "p_top example_pool = [3]"
  using example_same(1) by (simp_all add: pool_same_def vd_same_def mg_same_def example_closed_fields[unfolded One_nat_def] example_vdev_def)

lemma objects_of_card:
  assumes "snd os \<noteq> 0"
  shows "card (objects_of os) \<le> unat (snd os)"
proof -
  have "unat ` objects_of os \<subseteq> {..< unat (snd os)}" using assms by (auto simp: objects_of_def word_less_nat_alt)
  then have "card (unat ` objects_of os) \<le> unat (snd os)" by (metis card_lessThan card_mono finite_lessThan)
  moreover have "card (unat ` objects_of os) = card (objects_of os)" by (rule card_image) (simp add: inj_on_def word_unat_eq_iff)
  ultimately show ?thesis by simp
qed

lemma example_pool_ok: "vdev_ok metaslab_df fst objects_of 3 1 {10} 4 example_pool"
proof -
  obtain m where m: "p_ms example_pool = (p_ms example_closed_pool)(10 := m)" "group_ok metaslab_df fst 4 1 {10} example_pool" "quiet m"
    "ms_smo m = example_smo" "ms_smo_syncing m = example_smo"
    "\<forall>a. tv_ms_list (p_vd example_pool a) = tv_ms_list (p_vd example_closed_pool a) \<and> tv_dtl_list (p_vd example_pool a) = tv_dtl_list (p_vd example_closed_pool a)"
    using example_open[of 4] by (elim exE conjE) (rule that)
  have "vd_ready 1 3 {10} example_pool" by (simp add: vd_ready_def example_vd[unfolded One_nat_def]) (simp add: example_vd_node_def)
  moreover have "objects_ok objects_of 3 {10} example_pool"
    by (simp add: objects_ok_def m(1,5) example_vd example_same(2) objects_of_def example_smo_def)
  moreover have "tl_inv (tv_ms_list (p_vd example_pool 3)) (\<lambda>_. [])"
    using m(6) no_dirty_lists(1) by (simp add: example_closed_fields example_vdev_def)
  moreover have "lists_ok 4 {10} (p_ms example_pool) (\<lambda>_. [])" by (simp add: lists_ok_def m(1) quiet_sets[OF m(3)])
  ultimately show ?thesis unfolding vdev_ok_def using m(2) by (auto simp: m(1,4,5) quiet_sets[OF m(3)])
qed

lemma example_pool_room: "room fst objects_of 3 {10} 10 example_pool"
proof -
  obtain m where m: "p_ms example_pool = (p_ms example_closed_pool)(10 := m)" "ms_smo_syncing m = example_smo"
    "\<forall>a. tv_ms_list (p_vd example_pool a) = tv_ms_list (p_vd example_closed_pool a) \<and> tv_dtl_list (p_vd example_pool a) = tv_dtl_list (p_vd example_closed_pool a)"
    using example_open[of 4] by (elim exE conjE) (rule that)
  have "card (objects_of (p_os example_pool)) \<le> 8" using objects_of_card[of "p_os example_pool"] by (simp add: example_same(2))
  then show ?thesis using no_dirty_lists(2) m(3)
    by (simp add: room_def example_vd example_vd_node_def m(1,2) example_same(2) example_smo_def example_closed_fields example_vdev_def)
qed

lemma example_pool_view: "view_of fst (p_os example_pool) 4 (p_ms example_pool 10) = plain_view {512 ..< 65536}"
  "sm_start (ms_map (p_ms example_pool 10)) = 0" "sm_size (ms_map (p_ms example_pool 10)) = 65536" "sm_shift (ms_map (p_ms example_pool 10)) = 9"
  "heavy (p_ms example_pool 10)" "ms_smo (p_ms example_pool 10) = ms_smo_syncing (p_ms example_pool 10)"
proof -
  obtain m where m: "p_ms example_pool = (p_ms example_closed_pool)(10 := m)" "view_of fst (p_os example_closed_pool) 4 m = plain_view {512 ..< 65536}"
    "sm_start (ms_map m) = 0" "sm_size (ms_map m) = 65536" "p_os example_pool = p_os example_closed_pool" "sm_shift (ms_map m) = 9" "heavy m"
    "ms_smo m = example_smo" "ms_smo_syncing m = example_smo"
    using example_open[of 4] by (elim exE conjE) (rule that)
  show "view_of fst (p_os example_pool) 4 (p_ms example_pool 10) = plain_view {512 ..< 65536}"
    "sm_start (ms_map (p_ms example_pool 10)) = 0" "sm_size (ms_map (p_ms example_pool 10)) = 65536" "sm_shift (ms_map (p_ms example_pool 10)) = 9"
    "heavy (p_ms example_pool 10)" "ms_smo (p_ms example_pool 10) = ms_smo_syncing (p_ms example_pool 10)" using m by simp_all
qed

lemma example_vd_size: "vd_size_ok (p_vd example_pool 3) 512"
  by (simp add: vd_size_ok_def example_vd example_vd_node_def min_alloc_nat)

section \<open>The same pool after a free\<close>

text \<open>The address of the first unit.\<close>

definition example_dva :: dva where
  "example_dva = \<lparr>dva_word0 = 1, dva_word1 = 0\<rparr>"

lemma example_dva_fields:
  "DVA_GET_VDEV example_dva = 0" "DVA_GET_OFFSET example_dva = 0" "DVA_GET_GANG example_dva = 0" "DVA_GET_ASIZE example_dva = 512" "DVA_IS_VALID example_dva"
  by (simp_all add: example_dva_def DVA_GET_VDEV_def DVA_GET_OFFSET_def DVA_GET_GANG_def DVA_GET_ASIZE_def DVA_IS_VALID_def BF64_GET_def BF64_GET_SB_def BF64_DECODE_def
      SPA_MINBLOCKSHIFT_def P2PHASE_def)

lemma example_free_permitted: "permitted example_ms_env fst 3 {10} 4 example_pool (Free example_dva 0)" "freed_by 3 example_pool (Free example_dva 0) = {0 ..< 512}"
proof -
  have sz: "free_size (p_vd example_pool 3) example_dva = 512" by (simp add: free_size_def example_dva_fields)
  have "dva_metaslab example_pool example_dva = Some (3, 10)"
    by (simp add: dva_metaslab_def pool_lookup_top_def example_dva_fields example_vd Let_def)
  moreover have "sm_range (ms_map (p_ms example_pool 10)) 0 512" by (simp add: sm_range_def example_pool_view)
  moreover have "in_use 0 {0 ..< 512} (plain_view {512 ..< 65536})" by (auto simp: in_use_def plain_view_def)
  ultimately show "permitted example_ms_env fst 3 {10} 4 example_pool (Free example_dva 0)" 
    by (simp add: sz example_dva_fields example_pool_view(1)) (simp add: example_ms_env_def)
  show "freed_by 3 example_pool (Free example_dva 0) = {0 ..< 512}" by (simp add: sz example_dva_fields)
qed

definition example_freed :: "object_set pool" where
  "example_freed = (case metaslab_free_dva example_ms_env example_dva 4 False example_pool of Inr p \<Rightarrow> p | Inl _ \<Rightarrow> example_pool)"

lemma example_freed_ok: "vdev_ok metaslab_df fst objects_of 3 1 {10} 4 example_freed" "room fst objects_of 3 {10} 10 example_freed"
  "0 \<in> v_free (view_of fst (p_os example_freed) 4 (p_ms example_freed 10)) ! 0" "vd_size_ok (p_vd example_freed 3) 512"
  and example_freed_array: "vdev_ms_array (p_vd example_freed 3) \<in> objects_of (p_os example_freed)"
proof -
  have df: "metaslab_df \<noteq> metaslab_ff" by simp
  have dm: "dmu_appends (me_dmu example_ms_env) fst" using object_store_appends by (simp add: example_ms_env_def)
  have rq: "run_request example_ms_env 1 4 (Free example_dva 0) example_pool = metaslab_free_dva example_ms_env example_dva 4 False example_pool" by simp
  obtain p where p: "metaslab_free_dva example_ms_env example_dva 4 False example_pool = Inr p" "vdev_ok metaslab_df fst objects_of 3 1 {10} 4 p"
    "p_os p = p_os example_pool" "pool_same example_pool p" "smo_same example_pool p" "tv_dtl_list (p_vd p 3) = tv_dtl_list (p_vd example_pool 3)"
    using run_request_ok[OF example_pool_ok example_ms_kernel dm df example_free_permitted(1)] unfolding rq by (elim exE conjE) (rule that)
  have e: "example_freed = p" by (simp add: example_freed_def p(1))
  show "vdev_ok metaslab_df fst objects_of 3 1 {10} 4 example_freed" "room fst objects_of 3 {10} 10 example_freed"
    unfolding e using p(2) room_request[OF example_pool_room p(3-6)] .
  show "vdev_ms_array (p_vd example_freed 3) \<in> objects_of (p_os example_freed)"
    unfolding e p(3) using p(4) by (simp add: pool_same_def vd_same_def example_vd(1) example_same(2) objects_of_def)
  show "vd_size_ok (p_vd example_freed 3) 512"
    using example_vd_size p(4) unfolding e by (simp add: pool_same_def vd_same_def vd_size_ok_def)
  have sz: "free_size (p_vd example_pool 3) example_dva = 512" by (simp add: free_size_def example_dva_fields)
  have g: "group_ok metaslab_df fst 4 1 {10} example_pool" "\<not> vdev_ishole (node_of (p_vd example_pool 3))"
    using example_pool_ok by (simp_all add: vdev_ok_def vd_ready_def)
  have "view_of fst (p_os example_pool) 4 (p_ms p 10) = spec_free 0 {0 ..< 512} (plain_view {512 ..< 65536})"
    using metaslab_free_dva_ok[OF g(1) example_ms_kernel _ g(2), of 0 example_dva 10] example_free_permitted(1) p(1)
    by (simp add: sz example_dva_fields example_pool_view(1))
  then show "0 \<in> v_free (view_of fst (p_os example_freed) 4 (p_ms example_freed 10)) ! 0"
    unfolding e p(3) by (simp add: spec_free_def plain_view_def)
qed

section \<open>The same pool after an allocation\<close>

definition example_alloced :: "object_set pool \<times> u64" where
  "example_alloced = (case metaslab_group_alloc example_ms_env 1 512 4 0 [] 0 example_pool of Inr r \<Rightarrow> r | Inl _ \<Rightarrow> (example_pool, -1))"

lemma example_covers: "covers fst 4 size' example_pool 10"
proof -
  have "group_ok metaslab_df fst 4 1 {10} example_pool" using example_pool_ok by (simp add: vdev_ok_def)
  then have "ms_inv (p_vd example_pool 3) fst (p_os example_pool) 4 (p_ms example_pool 10)"
    using group_okD(3)[of metaslab_df fst 4 1 "{10}" example_pool 10] example_vd(8) by simp
  from heavy_block[OF this example_pool_view(6,5)] show ?thesis unfolding covers_def by blast
qed

lemma example_size: "\<forall>a \<in> {10}. size_ok (ms_map (p_ms example_pool a)) 512"
  by (simp add: size_ok_def size_room_def example_pool_view(2-4) min_alloc_nat)

lemma example_alloc: "metaslab_group_alloc example_ms_env 1 512 4 0 [] 0 example_pool = Inr example_alloced" "snd example_alloced \<noteq> -1"
  "vdev_ok metaslab_df fst objects_of 3 1 {10} 4 (fst example_alloced)"
proof -
  have df: "metaslab_df \<noteq> metaslab_ff" by simp
  have dm: "dmu_appends (me_dmu example_ms_env) fst" using object_store_appends by (simp add: example_ms_env_def)
  have g: "group_ok metaslab_df fst 4 1 {10} example_pool" "\<not> vdev_ishole (node_of (p_vd example_pool (mg_vd (p_mg example_pool 1))))"
    using example_pool_ok by (simp_all add: vdev_ok_def vd_ready_def)
  have fits: "range_set 512 512 \<subseteq> v_avail (view_of fst (p_os example_pool) 4 (p_ms example_pool 10))" by (auto simp: example_pool_view(1) plain_view_def)
  have z3: "0 < (3::nat)" by simp
  obtain p off where a: "metaslab_group_alloc example_ms_env 1 512 (4 + of_nat 0) 0 [] 0 example_pool = Inr (p, off)"
    "off = -1 \<Longrightarrow> \<forall>a \<in> {10}. covers fst 4 512 example_pool a \<longrightarrow> (\<forall>off. \<not> range_set off 512 \<subseteq> v_avail (view_of fst (p_os example_pool) 4 (p_ms example_pool a)))"
    using metaslab_group_alloc_ok[OF g(1) example_ms_kernel dm df example_size z3 g(2), where md = 0 and dva = "[]" and d = 0]
    by (elim exE conjE) (rule that, assumption, simp only: if_True simp_thms, elim conjE)
  have "off \<noteq> -1" using a(2) example_covers[of 512] fits by blast
  then have "\<exists>p off. metaslab_group_alloc example_ms_env 1 512 4 0 [] 0 example_pool = Inr (p, off) \<and> off \<noteq> -1" using a(1) by auto
  then show r: "metaslab_group_alloc example_ms_env 1 512 4 0 [] 0 example_pool = Inr example_alloced" "snd example_alloced \<noteq> -1"
    by (auto simp: example_alloced_def)
  have "permitted example_ms_env fst 3 {10} 4 example_pool (Alloc 512 0 0 [] 0)" using example_size by simp
  from run_request_ok[OF example_pool_ok example_ms_kernel dm df this]
  show "vdev_ok metaslab_df fst objects_of 3 1 {10} 4 (fst example_alloced)" using r(1) by (auto simp: case_prod_unfold)
qed

lemma example_mos_appends: "dmu_appends (me_dmu example_ms_env) fst"
  using object_store_appends by (simp add: example_ms_env_def)

lemma example_alloced_room: "room fst objects_of 3 {10} 10 (fst example_alloced)"
proof -
  have "permitted example_ms_env fst 3 {10} 4 example_pool (Alloc 512 0 0 [] 0)" using example_size by simp
  then obtain p where p: "run_request example_ms_env 1 4 (Alloc 512 0 0 [] 0) example_pool = Inr p" "p_os p = p_os example_pool" "pool_same example_pool p"
    "smo_same example_pool p" "tv_dtl_list (p_vd p 3) = tv_dtl_list (p_vd example_pool 3)"
    using run_request_ok[OF example_pool_ok example_ms_kernel example_mos_appends] by blast
  have "p = fst example_alloced" using p(1) example_alloc(1) by (auto simp: case_prod_unfold)
  then show ?thesis using room_request[OF example_pool_room p(2-5)] by simp
qed

text \<open>The first sync after the allocation.\<close>

definition example_synced :: "object_set pool" where
  "example_synced = (case vdev_txg example_ms_env 3 4 (fst example_alloced) of Inr p \<Rightarrow> p | Inl _ \<Rightarrow> fst example_alloced)"

lemma example_sync: "txg_ready fst objects_of 3 {10} 4 (fst example_alloced)" "vdev_txg example_ms_env 3 4 (fst example_alloced) = Inr example_synced"
proof -
  show r: "txg_ready fst objects_of 3 {10} 4 (fst example_alloced)"
    by (rule room_ready[OF example_alloc(3), of 9]) (use example_alloced_room in simp)
  from vdev_txg_ok[OF example_alloc(3) example_ms_kernel example_mos r]
  show "vdev_txg example_ms_env 3 4 (fst example_alloced) = Inr example_synced" by (auto simp: example_synced_def)
qed

end
