(* ===== verification/Pool_Properties.thy ===== *)
theory Pool_Properties
  imports Pool_Example
begin

text \<open>
  What a top-level vdev guarantees for its space: the life of a vdev from its creation through allocations, frees and syncs in any
  order. \<open>vdev_ok t contents objs vda mg ms T p\<close> says that the vdev at \<open>vda\<close> with the group \<open>mg\<close> of metaslabs \<open>ms\<close> and the allocation
  policy \<open>t\<close> is in order when the transaction group \<open>T\<close> is the next to be synced, and \<open>view_of contents os T m\<close> is the abstract
  state of a metaslab: what is free on disk and available, allocated or freed in \<open>T\<close>, \<open>T + 1\<close> and \<open>T + 2\<close>, and deferred.
\<close>

section \<open>Runs\<close>

lemma vdev_okD:
  assumes "vdev_ok t contents objs vda mg ms T p"
  shows "group_ok t contents T mg ms p" "\<not> vdev_ishole (node_of (p_vd p vda))" "mg_vd (p_mg p mg) = vda"
    "vdev_deflate_ratio (p_vd p vda) \<noteq> 0 \<or> vdev_isl2cache (p_vd p vda)"
  using assms by (simp_all add: vdev_ok_def vd_ready_def)

text \<open>The metaslabs do not overlap, so what is not available in its own metaslab is not available in another.\<close>

lemma unavailable_elsewhere:
  assumes ok: "vdev_ok t contents objs vda mg ms T p" and ab: "a \<in> ms" "b \<in> ms"
    and x: "x \<notin> v_avail (view_of contents (p_os p) T (p_ms p a))" "x \<in> range_set (sm_start (ms_map (p_ms p a))) (sm_size (ms_map (p_ms p a)))"
  shows "x \<notin> v_avail (view_of contents (p_os p) T (p_ms p b))"
proof (cases "a = b")
  case False
  note g = group_okD[OF vdev_okD(1)[OF ok]]
  have "sm_start (ms_map (p_ms p a)) \<noteq> sm_start (ms_map (p_ms p b))" using g(1) ab False by (auto simp: mg_inv_def inj_on_def)
  from place_apart[OF ms_invD(1)[OF g(3)[OF ab(1)]] ms_invD(1)[OF g(3)[OF ab(2)]] this]
  have "x \<notin> range_set (sm_start (ms_map (p_ms p b))) (sm_size (ms_map (p_ms p b)))" using x(2) by blast
  from outside_spent[OF g(3)[OF ab(2)] this] show ?thesis by (simp add: spent_def)
qed (use x(1) in simp)

text \<open>The geometry of the metaslabs does not change.\<close>

lemma vdev_ok_place: "vdev_ok t contents objs vda mg ms T p \<Longrightarrow> a \<in> ms \<Longrightarrow> ms_inv (p_vd p vda) contents (p_os p) T (p_ms p a)"
  using group_okD(3)[OF vdev_okD(1)] vdev_okD(3) by metis

lemma not_spent_range:
  assumes "vdev_ok t contents objs vda mg ms T p" "a \<in> ms" "\<not> spent x (view_of contents (p_os p) T (p_ms p a))"
  shows "x \<in> range_set (sm_start (ms_map (p_ms p a))) (sm_size (ms_map (p_ms p a)))"
  using outside_spent[OF vdev_ok_place[OF assms(1,2)]] assms(3) by blast

lemma pending_not_spent:
  assumes "view_ok v" "pending (Suc n) x v"
  shows "\<not> spent x v"
proof -
  obtain a0 a1 a2 f0 f1 f2 d0 d1 where v: "v_alloc v = [a0, a1, a2]" "v_free v = [f0, f1, f2]" "v_defer v = [d0, d1]"
    by (rule view_expand[OF assms(1)])
  show ?thesis using assms(2) v less_3_cases[of "n - 2"]
    by (cases n; cases "n - 1"; cases "n - 2") (auto simp: spent_def)
qed

text \<open>What an allocation of the vdev takes was available in one of its metaslabs.\<close>

lemma group_alloc_available:
  assumes ok: "vdev_ok t contents objs vda mg ms T p" and k: "kmem_fresh (me_kernel env)" and dm: "dmu_appends (me_dmu env) contents"
    and t: "t \<noteq> metaslab_ff" and sz: "\<forall>a \<in> ms. size_ok (ms_map (p_ms p a)) size'" and i3: "i < 3"
  shows "\<exists>p' off. metaslab_group_alloc env mg size' (T + of_nat i) md dva d p = Inr (p', off)
    \<and> (off \<noteq> -1 \<longrightarrow> (\<exists>a \<in> ms. range_set off size' \<subseteq> v_avail (view_of contents (p_os p) T (p_ms p a))))"
proof -
  note o = vdev_okD[OF ok]
  obtain p' off where "metaslab_group_alloc env mg size' (T + of_nat i) md dva d p = Inr (p', off)"
    "off \<noteq> -1 \<longrightarrow> (\<exists>a \<in> ms. range_set off size' \<subseteq> v_avail (view_of contents (p_os p) T (p_ms p a)))"
    using metaslab_group_alloc_ok[OF o(1) k dm t sz i3, of md dva d] o(2,3) by (auto split: if_splits)
  then show ?thesis by blast
qed

lemma alloc_weaken:
  assumes "if c then A \<and> B \<and> C \<and> D else \<exists>a \<in> ms. E a \<and> F a \<and> G a \<and> H a"
  shows "if c then A \<and> D else \<exists>a \<in> ms. E a \<and> F a \<and> G a"
  using assms by (cases c) auto

section \<open>Properties\<close>



text \<open>
  C27: the sync of a transaction group by a top-level vdev (\<open>vdev_sync\<close>, then \<open>vdev_sync_done\<close>) returns if the logs and the object
  numbers have room for it and no leaf has a dirty time log to write, keeps the vdev in order, and does to every metaslab what the specification says: the allocations and frees of the
  transaction group reach the disk, what was deferred two syncs ago becomes available, and what this one frees is deferred.
\<close>

theorem vdev_txg_refines:
  assumes "vdev_ok t contents objs vda mg ms T p" "kmem_fresh (me_kernel env)" "mos_ok env contents objs" "txg_ready contents objs vda ms T p"
  shows "\<exists>p1 p2. vdev_sync env vda T p = Inr p1 \<and> vdev_sync_done env vda T p1 = Inr p2 \<and> vdev_ok t contents objs vda mg ms (T + 1) p2
    \<and> (\<forall>a \<in> ms. view_of contents (p_os p2) (T + 1) (p_ms p2 a) = spec_sync_done (spec_sync (view_of contents (p_os p) T (p_ms p a))))"
proof -
  obtain p2 where p2: "vdev_txg env vda T p = Inr p2" "vdev_ok t contents objs vda mg ms (T + 1) p2"
    "\<forall>a \<in> ms. view_of contents (p_os p2) (T + 1) (p_ms p2 a) = spec_sync_done (spec_sync (view_of contents (p_os p) T (p_ms p a)))"
    using vdev_txg_ok[OF assms] by (elim exE conjE) (rule that)
  then obtain p1 where "vdev_sync env vda T p = Inr p1" "vdev_sync_done env vda T p1 = Inr p2" unfolding vdev_txg_def rbind_Inr_iff by blast
  then show ?thesis using p2(2,3) by blast
qed

theorem vdev_txg_refines_witness:
  "\<exists>p1 p2. vdev_sync example_ms_env 3 4 example_freed = Inr p1 \<and> vdev_sync_done example_ms_env 3 4 p1 = Inr p2
    \<and> vdev_ok metaslab_df fst objects_of 3 1 {10} 5 p2
    \<and> view_of fst (p_os p2) 5 (p_ms p2 10) = spec_sync_done (spec_sync (view_of fst (p_os example_freed) 4 (p_ms example_freed 10)))"
proof -
  have "txg_ready fst objects_of 3 {10} 4 example_freed" by (rule room_ready[OF example_freed_ok(1), of 9]) (use example_freed_ok(2) in simp)
  from vdev_txg_refines[OF example_freed_ok(1) example_ms_kernel example_mos this] show ?thesis by simp
qed

text \<open>
  C28: \<open>metaslab_group_alloc\<close> with a best-fit policy returns: its search over the metaslabs ends. It answers an
  offset of a block that is aligned, lies in one metaslab and was available there; the block is then allocated in the transaction group
  and nothing else has changed. Or it answers -1 and no space has changed; for the first copy of a block (\<open>d = 0\<close>) no metaslab has
  then a free block of the size, if the weight of every metaslab covers its free blocks.
\<close>

theorem metaslab_group_alloc_spec:
  assumes "group_ok t contents T mg ms p" "kmem_fresh (me_kernel env)" "dmu_appends (me_dmu env) contents" "t \<noteq> metaslab_ff"
    and "\<forall>a \<in> ms. size_ok (ms_map (p_ms p a)) size'" "i < 3" "\<not> vdev_ishole (node_of (p_vd p (mg_vd (p_mg p mg))))"
  shows "\<exists>p' off. metaslab_group_alloc env mg size' (T + of_nat i) min_distance dva d p = Inr (p', off)
    \<and> group_ok t contents T mg ms p' \<and> p_os p' = p_os p
    \<and> (if off = -1
       then (\<forall>a \<in> ms. view_of contents (p_os p) T (p_ms p' a) = view_of contents (p_os p) T (p_ms p a))
          \<and> (d = 0 \<longrightarrow> (\<forall>a \<in> ms. covers contents T size' p a \<longrightarrow> (\<forall>off. \<not> range_set off size' \<subseteq> v_avail (view_of contents (p_os p) T (p_ms p a)))))
       else \<exists>a \<in> ms. sm_range (ms_map (p_ms p a)) off size' \<and> range_set off size' \<subseteq> v_avail (view_of contents (p_os p) T (p_ms p a))
          \<and> (\<forall>b \<in> ms. view_of contents (p_os p) T (p_ms p' b)
               = (if b = a then spec_alloc i (range_set off size') else id) (view_of contents (p_os p) T (p_ms p b))))"
  using metaslab_group_alloc_ok[OF assms, of min_distance dva d]
  by (elim exE conjE) (intro exI conjI, assumption, assumption, assumption, rule alloc_weaken)

theorem metaslab_group_alloc_spec_witness:
  "\<exists>p' off. metaslab_group_alloc example_ms_env 1 512 4 0 [] 0 example_pool = Inr (p', off) \<and> off \<noteq> -1 \<and> range_set off 512 \<subseteq> {512 ..< 65536}
     \<and> view_of fst (p_os example_pool) 4 (p_ms p' 10) = spec_alloc 0 (range_set off 512) (plain_view {512 ..< 65536})"
proof -
  have df: "metaslab_df \<noteq> metaslab_ff" and z3: "0 < (3::nat)" by simp_all
  have g: "group_ok metaslab_df fst 4 1 {10} example_pool" "\<not> vdev_ishole (node_of (p_vd example_pool (mg_vd (p_mg example_pool 1))))"
    using example_pool_ok by (simp_all add: vdev_ok_def vd_ready_def)
  have fits: "range_set 512 512 \<subseteq> v_avail (view_of fst (p_os example_pool) 4 (p_ms example_pool 10))" by (auto simp: example_pool_view(1) plain_view_def)
  have av: "v_avail (plain_view {512 ..< 65536}) = {512 ..< 65536}" by (simp add: plain_view_def)
  obtain p' off where r: "metaslab_group_alloc example_ms_env 1 512 (4 + of_nat 0) 0 [] 0 example_pool = Inr (p', off)"
    "if off = -1
       then (\<forall>a \<in> {10}. view_of fst (p_os example_pool) 4 (p_ms p' a) = view_of fst (p_os example_pool) 4 (p_ms example_pool a))
          \<and> ((0::nat) = 0 \<longrightarrow> (\<forall>a \<in> {10}. covers fst 4 512 example_pool a \<longrightarrow>
               (\<forall>off. \<not> range_set off 512 \<subseteq> v_avail (view_of fst (p_os example_pool) 4 (p_ms example_pool a)))))
       else \<exists>a \<in> {10}. sm_range (ms_map (p_ms example_pool a)) off 512 \<and> range_set off 512 \<subseteq> v_avail (view_of fst (p_os example_pool) 4 (p_ms example_pool a))
          \<and> (\<forall>b \<in> {10}. view_of fst (p_os example_pool) 4 (p_ms p' b)
               = (if b = a then spec_alloc 0 (range_set off 512) else id) (view_of fst (p_os example_pool) 4 (p_ms example_pool b)))"
    using metaslab_group_alloc_spec[OF g(1) example_ms_kernel example_mos_appends df example_size z3 g(2), of 0 "[]" 0] by (elim exE conjE) (rule that)
  have "off \<noteq> -1"
  proof
    assume "off = -1"
    then have "\<forall>off. \<not> range_set off 512 \<subseteq> v_avail (view_of fst (p_os example_pool) 4 (p_ms example_pool 10))" using r(2) example_covers[of 512] by simp
    then show False using fits by blast
  qed
  then show ?thesis using r av unfolding example_pool_view(1) by (intro exI[of _ p'] exI[of _ off]) (simp add: example_pool_view(1))
qed



text \<open>
  C30: a vdev in order stays in order and never gets stuck. After any sequence of permitted requests and completed syncs, the vdev
  is in order for the transaction group that is due; every request that is permitted then is served without a fault and keeps it in order,
  and the next sync, if the logs and object numbers have room and no leaf has a dirty time log to write, completes and leaves it in order for the transaction group after.
\<close>

theorem vdev_service_sound:
  assumes "vdev_ok t contents objs vda mg ms T p" "kmem_fresh (me_kernel env)" "mos_ok env contents objs" "t \<noteq> metaslab_ff"
    and "vdev_run env contents objs vda mg ms K T p n q"
  shows "vdev_ok t contents objs vda mg ms (T + of_nat n) q
    \<and> (\<forall>rq. permitted env contents vda ms (T + of_nat n) q rq \<longrightarrow>
         (\<exists>q'. run_request env mg (T + of_nat n) rq q = Inr q' \<and> vdev_ok t contents objs vda mg ms (T + of_nat n) q'))
    \<and> (txg_ready contents objs vda ms (T + of_nat n) q \<longrightarrow>
         (\<exists>q'. vdev_txg env vda (T + of_nat n) q = Inr q' \<and> vdev_ok t contents objs vda mg ms (T + of_nat n + 1) q'))"
proof -
  have ok: "vdev_ok t contents objs vda mg ms (T + of_nat n) q" by (rule vdev_run_ok[OF assms(5,1-4)])
  have "dmu_appends (me_dmu env) contents" using assms(3) by (simp add: mos_ok_def)
  then show ?thesis using ok run_request_ok[OF ok assms(2) _ assms(4)] vdev_txg_ok[OF ok assms(2,3)] by blast
qed

theorem vdev_service_sound_witness:
  "vdev_ok metaslab_df fst objects_of 3 1 {10} 5 example_synced
    \<and> (\<exists>q'. run_request example_ms_env 1 4 (Free example_dva 0) example_pool = Inr q' \<and> vdev_ok metaslab_df fst objects_of 3 1 {10} 4 q')"
proof -
  have df: "metaslab_df \<noteq> metaslab_ff" by simp
  have "vdev_run example_ms_env fst objects_of 3 1 {10} {} 4 (fst example_alloced) (Suc 0) example_synced"
    by (rule vdev_run.txg[OF vdev_run.start]) (use example_sync in simp_all)
  from vdev_service_sound[OF example_alloc(3) example_ms_kernel example_mos df this]
  have "vdev_ok metaslab_df fst objects_of 3 1 {10} 5 example_synced" by simp
  moreover have "permitted example_ms_env fst 3 {10} (4 + of_nat 0) example_pool (Free example_dva 0)" using example_free_permitted(1) by simp
  then have "\<exists>q'. run_request example_ms_env 1 (4 + of_nat 0) (Free example_dva 0) example_pool = Inr q' \<and> vdev_ok metaslab_df fst objects_of 3 1 {10} (4 + of_nat 0) q'"
    using vdev_service_sound[OF example_pool_ok example_ms_kernel example_mos df vdev_run.start[where K = "{}"]] by blast
  ultimately show ?thesis by simp
qed

text \<open>
  C31: freed space comes back. A unit that is freed in the transaction group \<open>T + i\<close> is available for allocation when \<open>i + 3\<close> more
  transaction groups have been synced, whatever permitted requests (allocations from the group and frees of blocks in use) are served in between; and no sync on the way can fail, if the logs
  and the object numbers have room for \<open>i + 3\<close> syncs and no leaf has a dirty time log to write.
\<close>

theorem freed_space_returns:
  assumes "vdev_ok t contents objs vda mg ms T p" "kmem_fresh (me_kernel env)" "mos_ok env contents objs" "t \<noteq> metaslab_ff"
    and "a \<in> ms" "i < 3" "x \<in> v_free (view_of contents (p_os p) T (p_ms p a)) ! i" "room contents objs vda ms (i + 3) p"
  shows "(\<forall>n q. n < i + 3 \<longrightarrow> vdev_run env contents objs vda mg ms {} T p n q \<longrightarrow>
         (\<exists>q'. vdev_txg env vda (T + of_nat n) q = Inr q' \<and> vdev_run env contents objs vda mg ms {} T p (Suc n) q'))
    \<and> (\<forall>q q'. vdev_run env contents objs vda mg ms {} T p (i + 2) q \<longrightarrow> vdev_txg env vda (T + of_nat (i + 2)) q = Inr q' \<longrightarrow>
         x \<in> v_avail (view_of contents (p_os q') (T + of_nat (i + 3)) (p_ms q' a)))"
proof (intro conjI allI impI)
  fix n q assume n: "n < i + 3" "vdev_run env contents objs vda mg ms {} T p n q"
  have ok: "vdev_ok t contents objs vda mg ms (T + of_nat n) q" by (rule vdev_run_ok[OF n(2) assms(1-4)])
  have e: "n + Suc (i + 2 - n) = i + 3" using n(1) by simp
  have "room contents objs vda ms (Suc (i + 2 - n)) q" by (rule vdev_run_room[OF n(2) assms(1-4)]) (unfold e, rule assms(8))
  note r = room_ready[OF ok this]
  then show "\<exists>q'. vdev_txg env vda (T + of_nat n) q = Inr q' \<and> vdev_run env contents objs vda mg ms {} T p (Suc n) q'"
    using vdev_txg_ok[OF ok assms(2,3) r] vdev_run.txg[OF n(2) r] by blast
next
  fix q q' assume q: "vdev_run env contents objs vda mg ms {} T p (i + 2) q" "vdev_txg env vda (T + of_nat (i + 2)) q = Inr q'"
  have ok: "vdev_ok t contents objs vda mg ms (T + of_nat (i + 2)) q" by (rule vdev_run_ok[OF q(1) assms(1-4)])
  have "pending (Suc (i + 2 + 0)) x (view_of contents (p_os p) T (p_ms p a))" using assms(6,7) by (simp add: numeral_2_eq_2)
  from vdev_run_pending[OF q(1) assms(1-5) this]
  have p: "pending (Suc 0) x (view_of contents (p_os q) (T + of_nat (i + 2)) (p_ms q a))" .
  have "room contents objs vda ms (Suc 0) q"
    by (rule vdev_run_room[OF q(1) assms(1-4)]) (use assms(8) in \<open>simp add: numeral_3_eq_3\<close>)
  note r = room_ready[OF ok this]
  have "view_of contents (p_os q') (T + of_nat (i + 2) + 1) (p_ms q' a) = spec_sync_done (spec_sync (view_of contents (p_os q) (T + of_nat (i + 2)) (p_ms q a)))"
    using vdev_txg_ok[OF ok assms(2,3) r] q(2) assms(5) by auto
  moreover have "v_freed (view_of contents (p_os q) (T + of_nat (i + 2)) (p_ms q a)) = {}" using ok assms(5) by (simp add: vdev_ok_def)
  moreover have e: "T + of_nat (i + 2) + 1 = T + of_nat (i + 3)" by (simp add: ac_simps)
  ultimately show "x \<in> v_avail (view_of contents (p_os q') (T + of_nat (i + 3)) (p_ms q' a))"
    using pending_txg[OF vdev_ok_view[OF ok assms(5)] _ p] unfolding e by (simp del: of_nat_add)
qed

theorem freed_space_returns_witness:
  "\<exists>q q'. vdev_run example_ms_env fst objects_of 3 1 {10} {} 4 example_freed 2 q \<and> vdev_txg example_ms_env 3 6 q = Inr q'
     \<and> 0 \<in> v_avail (view_of fst (p_os q') 7 (p_ms q' 10))"
proof -
  have df: "metaslab_df \<noteq> metaslab_ff" and i3: "0 < (3::nat)" by simp_all
  have "room fst objects_of 3 {10} (0 + 3) example_freed" using example_freed_ok(2) by (auto simp: room_def)
  note f = freed_space_returns[OF example_freed_ok(1) example_ms_kernel example_mos df singletonI i3 example_freed_ok(3) this]
  have go: "\<exists>q'. vdev_txg example_ms_env 3 (4 + of_nat n) q = Inr q' \<and> vdev_run example_ms_env fst objects_of 3 1 {10} {} 4 example_freed (Suc n) q'"
    if "n < 3" "vdev_run example_ms_env fst objects_of 3 1 {10} {} 4 example_freed n q" for n q using conjunct1[OF f] that by simp
  obtain q1 where "vdev_run example_ms_env fst objects_of 3 1 {10} {} 4 example_freed (Suc 0) q1"
    using go[OF _ vdev_run.start] by auto
  then obtain q2 where q2: "vdev_run example_ms_env fst objects_of 3 1 {10} {} 4 example_freed 2 q2"
    using go[of "Suc 0"] by (auto simp: numeral_2_eq_2)
  then obtain q3 where q3: "vdev_txg example_ms_env 3 (4 + of_nat 2) q2 = Inr q3" using go[of 2] by auto
  then have "0 \<in> v_avail (view_of fst (p_os q3) (4 + of_nat 3) (p_ms q3 10))" using conjunct2[OF f] q2 unfolding add_0 by blast
  then show ?thesis using q2 q3 by auto
qed

text \<open>
  C32: freed space is not handed out early. As long as fewer than \<open>i + 3\<close> syncs have been done since a unit was freed in the transaction
  group \<open>T + i\<close>, an allocation by any of the three open transaction groups returns, and the block it gets does not contain
  the unit, whatever permitted requests were served in between.
\<close>

theorem freed_space_not_reused:
  assumes "vdev_ok t contents objs vda mg ms T p" "kmem_fresh (me_kernel env)" "mos_ok env contents objs" "t \<noteq> metaslab_ff"
    and "a \<in> ms" "i < 3" "x \<in> v_free (view_of contents (p_os p) T (p_ms p a)) ! i"
    and "vdev_run env contents objs vda mg ms K T p n q" "n < i + 3" "vd_size_ok (p_vd p vda) size'" "j < 3"
  shows "\<exists>q' off. metaslab_group_alloc env mg size' (T + of_nat n + of_nat j) min_distance dva d q = Inr (q', off)
    \<and> (off \<noteq> -1 \<longrightarrow> x \<notin> range_set off size')"
proof -
  have ok: "vdev_ok t contents objs vda mg ms (T + of_nat n) q" by (rule vdev_run_ok[OF assms(8,1-4)])
  have dm: "dmu_appends (me_dmu env) contents" using assms(3) by (simp add: mos_ok_def)
  have e: "Suc (n + (i + 2 - n)) = Suc (Suc (Suc i))" using assms(9) by simp
  have "pending (Suc (n + (i + 2 - n))) x (view_of contents (p_os p) T (p_ms p a))" unfolding e using assms(6,7) by simp
  from vdev_run_pending[OF assms(8,1-5) this]
  have p: "pending (Suc (i + 2 - n)) x (view_of contents (p_os q) (T + of_nat n) (p_ms q a))" .
  note v = vdev_ok_view[OF ok assms(5)]
  have "x \<notin> v_avail (view_of contents (p_os q) (T + of_nat n) (p_ms q b))" if "b \<in> ms" for b
    by (rule unavailable_elsewhere[OF ok assms(5) that pending_unavailable[OF v p] not_spent_range[OF ok assms(5) pending_not_spent[OF v p]]])
  then show ?thesis using group_alloc_available[OF ok assms(2) dm assms(4) vdev_run_size[OF assms(8,1-4,10)] assms(11), of min_distance dva d] by blast
qed

theorem freed_space_not_reused_witness:
  "\<exists>q' off. metaslab_group_alloc example_ms_env 1 512 4 0 [] 0 example_freed = Inr (q', off) \<and> (off \<noteq> -1 \<longrightarrow> 0 \<notin> range_set off 512)"
proof -
  have df: "metaslab_df \<noteq> metaslab_ff" and i3: "0 < (3::nat)" by simp_all
  show ?thesis
    using freed_space_not_reused[OF example_freed_ok(1) example_ms_kernel example_mos df _ i3 example_freed_ok(3) vdev_run.start _ example_freed_ok(4) i3,
        of 0 "[]" 0] by simp
qed

text \<open>
  C33: no space is allocated twice. After an allocation by \<open>metaslab_group_alloc\<close> and any further permitted requests and syncs that do not free the block, another
  allocation returns, and the block it gets does not overlap the first one.
\<close>

theorem no_double_allocation:
  assumes "vdev_ok t contents objs vda mg ms T p" "kmem_fresh (me_kernel env)" "mos_ok env contents objs" "t \<noteq> metaslab_ff"
    and "vd_size_ok (p_vd p vda) size1" "i < 3"
    and "metaslab_group_alloc env mg size1 (T + of_nat i) md1 dva1 d1 p = Inr (p', off1)" "off1 \<noteq> -1"
    and "vdev_run env contents objs vda mg ms (range_set off1 size1) T p' n q"
    and "vd_size_ok (p_vd p vda) size2" "j < 3"
  shows "\<exists>q' off2. metaslab_group_alloc env mg size2 (T + of_nat n + of_nat j) md2 dva2 d2 q = Inr (q', off2)
    \<and> (off2 \<noteq> -1 \<longrightarrow> range_set off1 size1 \<inter> range_set off2 size2 = {})"
proof -
  have dm: "dmu_appends (me_dmu env) contents" using assms(3) by (simp add: mos_ok_def)
  have sz: "\<forall>b \<in> ms. size_ok (ms_map (p_ms p b)) size1" by (rule vdev_run_size[OF vdev_run.start assms(1-5)])
  then have "permitted env contents vda ms T p (Alloc size1 i md1 dva1 d1)" using assms(6) by simp
  from run_request_ok[OF assms(1,2) dm assms(4) this]
  have ok': "vdev_ok t contents objs vda mg ms T p'" and os: "p_os p' = p_os p" and same: "pool_same p p'" using assms(7) by auto
  have "vd_size_ok (p_vd p' vda) size2" using assms(10) same by (simp add: pool_same_def vd_same_def vd_size_ok_def)
  note sz2 = vdev_run_size[OF assms(9) ok' assms(2-4) this]
  have ok: "vdev_ok t contents objs vda mg ms (T + of_nat n) q" by (rule vdev_run_ok[OF assms(9) ok' assms(2-4)])
  note o = vdev_okD[OF assms(1)]
  obtain a where a: "a \<in> ms" "sm_range (ms_map (p_ms p a)) off1 size1" "range_set off1 size1 \<subseteq> v_avail (view_of contents (p_os p) T (p_ms p a))"
    "\<forall>b \<in> ms. view_of contents (p_os p) T (p_ms p' b) = (if b = a then spec_alloc i (range_set off1 size1) else id) (view_of contents (p_os p) T (p_ms p b))"
    using metaslab_group_alloc_ok[OF o(1) assms(2) dm assms(4) sz assms(6), of md1 dva1 d1] o(2,3) assms(7,8) by auto
  have sp: "spent x (view_of contents (p_os p') T (p_ms p' b))" if x: "x \<in> range_set off1 size1" and b: "b \<in> ms" for x b
  proof (cases "b = a")
    case True
    then show ?thesis using alloc_spent[OF vdev_ok_view[OF assms(1) a(1)] a(3) assms(6) x] a(1,4) os by simp
  next
    case False
    have "x \<notin> range_set (sm_start (ms_map (p_ms p b))) (sm_size (ms_map (p_ms p b)))"
    proof -
      note g = group_okD[OF o(1)]
      have "sm_start (ms_map (p_ms p a)) \<noteq> sm_start (ms_map (p_ms p b))" using g(1) a(1) b False by (auto simp: mg_inv_def inj_on_def)
      moreover have "x \<in> range_set (sm_start (ms_map (p_ms p a))) (sm_size (ms_map (p_ms p a)))" using a(2) x by (auto simp: sm_range_def)
      ultimately show ?thesis using place_apart[OF ms_invD(1)[OF g(3)[OF a(1)]] ms_invD(1)[OF g(3)[OF b]]] by blast
    qed
    from outside_spent[OF vdev_ok_place[OF assms(1) b] this] show ?thesis using a(4) b False os by simp
  qed
  have "x \<notin> v_avail (view_of contents (p_os q) (T + of_nat n) (p_ms q b))" if "x \<in> range_set off1 size1" "b \<in> ms" for x b
    using vdev_run_spent[OF assms(9) ok' assms(2-4) that sp[OF that]] by (simp add: spent_def)
  then show ?thesis using group_alloc_available[OF ok assms(2) dm assms(4) sz2 assms(11), of md2 dva2 d2] by blast
qed

theorem no_double_allocation_witness:
  "snd example_alloced \<noteq> -1
    \<and> (\<exists>q' off2. metaslab_group_alloc example_ms_env 1 512 5 0 [] 0 example_synced = Inr (q', off2)
         \<and> (off2 \<noteq> -1 \<longrightarrow> range_set (snd example_alloced) 512 \<inter> range_set off2 512 = {}))"
proof -
  have df: "metaslab_df \<noteq> metaslab_ff" and i3: "0 < (3::nat)" by simp_all
  have al: "metaslab_group_alloc example_ms_env 1 512 (4 + of_nat 0) 0 [] 0 example_pool = Inr (fst example_alloced, snd example_alloced)"
    using example_alloc(1) by simp
  have "vdev_run example_ms_env fst objects_of 3 1 {10} (range_set (snd example_alloced) 512) 4 (fst example_alloced) (Suc 0) example_synced"
    by (rule vdev_run.txg[OF vdev_run.start]) (use example_sync in simp_all)
  from no_double_allocation[OF example_pool_ok example_ms_kernel example_mos df example_vd_size i3 al example_alloc(2) this example_vd_size i3, of 0 "[]" 0]
  show ?thesis using example_alloc(2) by simp
qed

text \<open>
  C34: \<open>metaslab_sync\<close> of a metaslab writes the allocations and the frees of the syncing transaction group to its log, creating the
  object of the log if there is none and rewriting (condensing) the log when that is shorter, and leaves a well-formed metaslab:
  the space free on disk loses what was allocated and gains what was freed, and the freed space waits for the completion of the sync. Other
  metaslabs are not touched. The log must have room, the array of log objects must exist, and an object number must be left.
\<close>

theorem metaslab_sync_refines:
  assumes "vdev_ok t contents objs vda mg ms T p" "kmem_fresh (me_kernel env)" "mos_ok env contents objs" "a \<in> ms" "sync_room contents p a"
    and "vdev_ms_array (p_vd p vda) \<in> objs (p_os p)" "card (objs (p_os p)) + 1 < 2 ^ 64"
  shows "\<exists>p'. metaslab_sync env a T p = Inr p' \<and> (\<forall>b. b \<noteq> a \<longrightarrow> p_ms p' b = p_ms p b) \<and> p_vd p' = p_vd p
    \<and> ms_inv (p_vd p vda) contents (p_os p') T (p_ms p' a)
    \<and> view_of contents (p_os p') T (p_ms p' a) = spec_sync (view_of contents (p_os p) T (p_ms p a))"
proof -
  note o = vdev_okD[OF assms(1)]
  obtain m os where "metaslab_sync env a T p = Inr ((upd_ms a (\<lambda>_. m) p)\<lparr>p_os := os\<rparr>)" "ms_inv (p_vd p vda) contents os T m"
    "view_of contents os T m = spec_sync (view_of contents (p_os p) T (p_ms p a))"
    using metaslab_sync_inv[OF mg_inv_member[OF group_okD(1)[OF o(1)] assms(4)] vdev_ok_place[OF assms(1,4)] assms(2,3) _ _ _ objs_left[OF assms(7)]]
      assms(5,6) o(2,3) by (auto simp: sync_room_def)
  then show ?thesis by (intro exI[of _ "(upd_ms a (\<lambda>_. m) p)\<lparr>p_os := os\<rparr>"]) simp
qed

theorem metaslab_sync_refines_witness:
  "\<exists>p'. metaslab_sync example_ms_env 10 4 example_freed = Inr p'
    \<and> view_of fst (p_os p') 4 (p_ms p' 10) = spec_sync (view_of fst (p_os example_freed) 4 (p_ms example_freed 10))"
proof -
  have "txg_ready fst objects_of 3 {10} 4 example_freed" by (rule room_ready[OF example_freed_ok(1), of 9]) (use example_freed_ok(2) in simp)
  then have "sync_room fst example_freed 10" "card (objects_of (p_os example_freed)) + 1 < 2 ^ 64" by (simp_all add: txg_ready_def)
  from metaslab_sync_refines[OF example_freed_ok(1) example_ms_kernel example_mos singletonI this(1) example_freed_array this(2)]
  show ?thesis by blast
qed

text \<open>
  C35: \<open>metaslab_sync_done\<close> of a metaslab whose maps of the syncing transaction group have been written, on a vdev that is not a hole
  and has a deflate ratio, returns and leaves a
  well-formed metaslab for the next transaction group: what was deferred two syncs ago becomes available, what the sync freed is deferred,
  and nothing else changes. The metaslab may be unloaded, and it has a new weight that its group is sorted by; the weight is at least the
  free space on disk, so that it covers every free block.
\<close>

theorem metaslab_sync_done_refines:
  assumes "mg_inv p mg ms" "a \<in> ms" "kmem_fresh (me_kernel env)" "ms_inv (p_vd p (mg_vd (p_mg p mg))) contents (p_os p) T (p_ms p a)"
    and "alloc_at T (p_ms p a) 0 = {}" "free_at T (p_ms p a) 0 = {}" "\<not> vdev_ishole (node_of (p_vd p (mg_vd (p_mg p mg))))"
    and "vdev_deflate_ratio (p_vd p (mg_vd (p_mg p mg))) \<noteq> 0 \<or> vdev_isl2cache (p_vd p (mg_vd (p_mg p mg)))"
  shows "\<exists>p'. metaslab_sync_done env a T p = Inr p' \<and> (\<forall>b. b \<noteq> a \<longrightarrow> p_ms p' b = p_ms p b) \<and> p_os p' = p_os p \<and> mg_inv p' mg ms
    \<and> ms_inv (p_vd p (mg_vd (p_mg p mg))) contents (p_os p) (T + 1) (p_ms p' a)
    \<and> view_of contents (p_os p) (T + 1) (p_ms p' a) = spec_sync_done (view_of contents (p_os p) T (p_ms p a))
    \<and> ms_smo (p_ms p' a) = ms_smo_syncing (p_ms p a) \<and> (\<forall>size'. covers contents (T + 1) size' p' a)"
proof -
  obtain p' m where p': "metaslab_sync_done env a T p = Inr p'" "p_ms p' = (p_ms p)(a := m)"
    "ms_inv (p_vd p (mg_vd (p_mg p mg))) contents (p_os p) (T + 1) m"
    "view_of contents (p_os p) (T + 1) m = spec_sync_done (view_of contents (p_os p) T (p_ms p a))" "mg_inv p' mg ms" "p_os p' = p_os p"
    "ms_smo m = ms_smo_syncing m" "ms_smo_syncing m = ms_smo_syncing (p_ms p a)" "heavy m"
    using metaslab_sync_done_inv[OF assms(1-3) ms_inv_core[OF assms(4)] assms(5-8)] by (elim exE conjE) (rule that)
  moreover have "covers contents (T + 1) size' p' a" for size' using heavy_block[OF p'(3,7,9)] p'(2,6) unfolding covers_def by auto
  ultimately show ?thesis by (intro exI[of _ p']) simp
qed

theorem metaslab_sync_done_refines_witness:
  "\<exists>p1 p2. metaslab_sync example_ms_env 10 4 example_freed = Inr p1 \<and> metaslab_sync_done example_ms_env 10 4 p1 = Inr p2
    \<and> view_of fst (p_os p2) 5 (p_ms p2 10) = spec_sync_done (spec_sync (view_of fst (p_os example_freed) 4 (p_ms example_freed 10)))"
proof -
  let ?p = example_freed
  have rdy: "txg_ready fst objects_of 3 {10} 4 ?p" by (rule room_ready[OF example_freed_ok(1), of 9]) (use example_freed_ok(2) in simp)
  have room: "8 * (length (fst (p_os ?p) (smo_object (ms_smo_syncing (p_ms ?p 10)))) + 2 * unat (sm_size (ms_map (p_ms ?p 10))) + 2) + 4096 < 2 ^ 64"
    using rdy by (simp add: txg_ready_def sync_room_def)
  have left: "insert 0 (objects_of (p_os ?p)) \<noteq> UNIV" by (rule objs_left) (use rdy in \<open>simp add: txg_ready_def\<close>)
  note o = vdev_okD[OF example_freed_ok(1)]
  note g = group_okD(1)[OF o(1)]
  note inv = vdev_ok_place[OF example_freed_ok(1) singletonI]
  obtain m os where m: "metaslab_sync example_ms_env 10 4 ?p = Inr ((upd_ms 10 (\<lambda>_. m) ?p)\<lparr>p_os := os\<rparr>)" "ms_inv (p_vd ?p 3) fst os 4 m"
    "view_of fst os 4 m = spec_sync (view_of fst (p_os ?p) 4 (p_ms ?p 10))" "ms_map m = ms_map (p_ms ?p 10)" "ms_weight m = ms_weight (p_ms ?p 10)"
    "ms_group m = ms_group (p_ms ?p 10)"
    using metaslab_sync_inv[OF mg_inv_member[OF g singletonI] inv example_ms_kernel example_mos room _ _ left] o(2,3) example_freed_array
    by (auto simp: o(3))
  let ?p1 = "(upd_ms 10 (\<lambda>_. m) ?p)\<lparr>p_os := os\<rparr>"
  have mg1: "mg_inv ?p1 1 {10}" by (rule mg_inv_cong[OF g]) (use m(4-6) in \<open>simp_all add: ms_key_def\<close>)
  have nil: "alloc_at 4 (p_ms ?p1 10) 0 = {}" "free_at 4 (p_ms ?p1 10) 0 = {}" using view_sync_sets(1,2)[OF m(3)] by simp_all
  from metaslab_sync_done_refines[OF mg1 singletonI example_ms_kernel _ nil] m(2) o(2-4)
  obtain p2 where "metaslab_sync_done example_ms_env 10 4 ?p1 = Inr p2" "p_os p2 = os" "view_of fst os (4 + 1) (p_ms p2 10) = spec_sync_done (view_of fst os 4 m)"
    by auto
  then show ?thesis using m(1,3) by (intro exI[of _ ?p1] exI[of _ p2]) simp
qed

text \<open>
  C36: \<open>metaslab_weight\<close> of a well-formed metaslab returns a weight that, apart from the flags, lies between the space that its
  committed space map says to be free and twice that space; the flags are those it had, or none.
\<close>

theorem metaslab_weight_bounds:
  assumes "ms_inv vd contents os T m"
  shows "\<exists>w. metaslab_weight mg vd m = Inr w
    \<and> unat (sm_size (ms_map m) - smo_alloc (ms_smo m)) \<le> unat (w AND NOT METASLAB_ACTIVE_MASK)
    \<and> unat (w AND NOT METASLAB_ACTIVE_MASK) \<le> 2 * unat (sm_size (ms_map m) - smo_alloc (ms_smo m))
    \<and> (w AND METASLAB_ACTIVE_MASK = 0 \<or> sm_loaded (ms_map m) \<and> w AND METASLAB_ACTIVE_MASK = ms_weight m AND METASLAB_ACTIVE_MASK)"
proof -
  note i = ms_invD[OF assms]
  obtain w0 b where w: "metaslab_weight mg vd m = Inr (w0 OR (if b then ms_weight m AND METASLAB_ACTIVE_MASK else 0))"
    "unat (sm_size (ms_map m) - smo_alloc (ms_smo m)) \<le> unat w0" "unat w0 \<le> 2 * unat (sm_size (ms_map m) - smo_alloc (ms_smo m))"
    "w0 AND METASLAB_ACTIVE_MASK = 0" "b \<longrightarrow> sm_loaded (ms_map m)"
    by (rule metaslab_weight_inv[OF i(1,8,11), of mg, THEN exE], assumption) (elim exE conjE, rule that)
  have "(w0 OR (if b then ms_weight m AND METASLAB_ACTIVE_MASK else 0)) AND NOT METASLAB_ACTIVE_MASK = w0"
    "(w0 OR (if b then ms_weight m AND METASLAB_ACTIVE_MASK else 0)) AND METASLAB_ACTIVE_MASK = (if b then ms_weight m AND METASLAB_ACTIVE_MASK else 0)"
    using mask_split[OF w(4), of "if b then ms_weight m else 0"] by (auto split: if_splits)
  then show ?thesis using w(1-3,5) by (intro exI[of _ "w0 OR (if b then ms_weight m AND METASLAB_ACTIVE_MASK else 0)"]) auto
qed

theorem metaslab_weight_bounds_witness:
  "\<exists>w. metaslab_weight (p_mg example_pool 1) (p_vd example_pool 3) (p_ms example_pool 10) = Inr w
    \<and> 65024 \<le> unat (w AND NOT METASLAB_ACTIVE_MASK) \<and> unat (w AND NOT METASLAB_ACTIVE_MASK) \<le> 130048"
proof -
  have "unat (sm_size (ms_map (p_ms example_pool 10)) - smo_alloc (ms_smo (p_ms example_pool 10))) = 65024"
    using example_open[of 4] by (auto simp: example_smo_def)
  then show ?thesis using metaslab_weight_bounds[OF vdev_ok_place[OF example_pool_ok singletonI], of "p_mg example_pool 1"] by auto
qed

text \<open>
  C37: activating an unloaded metaslab (the loading part of \<open>metaslab_activate\<close>) loads its map from the log, takes out what has been freed
  but not yet been given back, and ends with exactly the available space in the map, ready to be allocated from with the policy of the class.
  A map that is loaded already holds exactly that and is not changed.
\<close>

theorem activate_load_available:
  assumes "ms_inv vd contents os T m" "kmem_fresh (me_kernel env)" "dmu_appends (me_dmu env) contents"
  shows "\<exists>sm. activate_load env t m os = Inr (sm, 0) \<and> sm_set sm = v_avail (view_of contents os T m) \<and> sm_geometry (ms_map m) sm
    \<and> (if sm_loaded (ms_map m) then sm = ms_map m else sm_active t sm)"
  using activate_load_inv[OF assms, of t] by blast

theorem activate_load_available_witness:
  "\<exists>sm. activate_load example_ms_env metaslab_df (p_ms example_pool 10) (p_os example_pool) = Inr (sm, 0) \<and> sm_set sm = {512 ..< 65536}"
  using activate_load_available[OF vdev_ok_place[OF example_pool_ok singletonI] example_ms_kernel example_mos_appends, of metaslab_df]
  unfolding example_pool_view(1) by (auto simp: plain_view_def)

end
