(* ===== verification/Spec2Isabelle.thy ===== *)
theory Spec2Isabelle
  imports Avl_Properties Space_Map_Properties Space_Ref_Properties Metaslab_Properties Txg_List Blkptr
    Vdev_Properties Pool_Properties
begin

text \<open>
  Verification of the storage allocation core of ZFS in OpenSolaris b134 (\<open>src/usr/src\<close>), from the AVL trees of the kernel up to the
  syncing of a top-level virtual device. Paths below are relative to \<open>src/usr/src\<close>, and ZFS files to \<open>uts/common/fs/zfs\<close>.

  \<^bold>\<open>The program.\<close> A pool is a tree of virtual devices (vdevs). A top-level vdev is cut into metaslabs, which are kept in a group
  sorted by weight. The free space of a metaslab is a space map: in memory an AVL tree of disjoint segments, on disk a log of
  allocations and frees in an object of the DMU. An allocation picks a metaslab from the group, loads its map if necessary and takes a
  block from it with one of four policies; a free is recorded for its transaction group. When the transaction group is synced,
  its allocations and frees are appended to the log or the log is rewritten, and freed space is deferred for two more transaction
  groups before it can be allocated. Dirty objects wait on per-txg lists for their sync. Blocks are addressed by the DVAs of a block pointer.
  The dirty time logs (DTLs) of a vdev are space maps of transaction groups for which it lacks data.

  \<^bold>\<open>Conventions.\<close> A routine is a function into \<open>'a res = fault + 'a\<close>: \<open>Inl\<close> is a panic, a failed assertion, a bad pointer or a loop
  that does not end, and \<open>Inr\<close> a return. The ASSERTs and VERIFYs of the code are tests in the model, so a theorem that a routine returns
  \<open>Inr\<close> says that they all hold. 64-bit quantities are words that wrap around. Loops over pointers are
  \<open>partial_function (option)\<close>, where running forever is \<open>None\<close> (\<open>Diverges\<close> after \<open>of_loop\<close>); there is no fuel, and every theorem that a
  routine returns includes that its loops end. Structures that the code shares by pointer live in a record of maps from addresses
  (\<open>avl_mem\<close> of a tree, \<open>sm_segs\<close> of a space map, \<open>pool\<close> for classes, groups, vdevs and metaslabs).

  \<^bold>\<open>Theories.\<close>
  \<^item> \<open>Kernel_Prelude\<close>: words, addresses, results, and lemmas on lists, options and words. \<open>Sysmacros\<close>: the macros of
    \<open>uts/common/sys/sysmacros.h\<close>, the bit fields of \<open>sys/spa.h\<close>, \<open>highbit\<close>, with their arithmetic meaning.
  \<^item> \<open>Avl_Tree\<close>: all of \<open>common/avl/avl.c\<close> on pointers. \<open>Avl_Shape\<close> has balanced trees as a datatype and rebalancing along a path;
    \<open>Avl_Refine\<close>, \<open>Avl_Search\<close>, \<open>Avl_Delete\<close> and \<open>Avl_Destroy\<close> show that the pointer code implements it; \<open>Avl_Interface\<close> gives the
    contracts that clients use (\<open>avl_inv t xs\<close>: the tree is balanced and its nodes in order are \<open>xs\<close>), and \<open>Comparator\<close> the locale of
    comparison functions, interpreted for segments, segments by size, reference nodes and metaslabs. \<open>Avl_Properties\<close> states the results.
  \<^item> \<open>Space_Map\<close>: the in-core part of \<open>space_map.c\<close>; \<open>Space_Map_Log\<close>: entries, \<open>space_map_load\<close>, \<open>space_map_sync\<close>. \<open>Space_Map_Inv\<close> has the
    invariant \<open>sm_inv\<close> and the set \<open>sm_set\<close> that a map stands for; \<open>Space_Map_Bulk\<close> has walking and vacating, with locales for the
    functions that are called per segment (\<open>range_adder\<close>, \<open>range_remover\<close>); \<open>Space_Map_Disk\<close> and \<open>Space_Map_Sync\<close> have replaying
    and appending. \<open>Space_Map_Properties\<close> states the results, also for a log that cannot be read. \<open>Space_Ref\<close> and
    \<open>Space_Ref_Properties\<close>: reference trees.
  \<^item> \<open>Metaslab_Ops\<close>: the block pickers of \<open>metaslab.c\<close>. \<open>Metaslab_Fit\<close> shows with the locale \<open>alloc_policy\<close> that each policy returns free space
    and when it gives up, and \<open>Metaslab_Load\<close> and \<open>Metaslab_Properties\<close> do so for a map loaded from its log.
  \<^item> \<open>Txg_List\<close>: the per-txg lists of \<open>txg.c\<close>, refining one list of distinct objects per slot. \<open>Blkptr\<close>: DVAs, checksums and
    block pointers of \<open>sys/spa.h\<close>.
  \<^item> \<open>Vdev\<close>: the vdev tree, sizes and DTLs of \<open>vdev.c\<close>. \<open>Vdev_Dtl\<close> and \<open>Vdev_Properties\<close>: what \<open>vdev_dtl_reassess\<close> computes, and that
    \<open>vdev_dtl_required\<close> tells whether data would become unreadable.
  \<^item> \<open>Metaslab\<close>, \<open>Metaslab_Alloc\<close> and \<open>Vdev_Sync\<close>: the rest of \<open>metaslab.c\<close> and the part of \<open>vdev.c\<close> that creates and syncs metaslabs.
  \<^item> \<open>Metaslab_Inv\<close>: the abstract state \<open>ms_view\<close> of a metaslab relative to the transaction group \<open>T\<close> that syncs next (space free on disk,
    available, allocated and freed in \<open>T\<close>, \<open>T + 1\<close>, \<open>T + 2\<close>, and deferred) with the operations \<open>spec_alloc\<close>, \<open>spec_free\<close>,
    \<open>spec_sync\<close>, \<open>spec_sync_done\<close> on it, and the invariant \<open>ms_inv\<close>. \<open>Metaslab_Group\<close>, \<open>Metaslab_Weight\<close>, \<open>Metaslab_Activate\<close>,
    \<open>Metaslab_Sync\<close>, \<open>Metaslab_Done\<close>, \<open>Metaslab_Use\<close> and \<open>Metaslab_Create\<close> show that the code keeps the invariant and does what the
    abstract operations say.
  \<^item> \<open>Vdev_Txg\<close>: the invariant \<open>vdev_ok\<close> of a top-level vdev between syncs, and a whole sync. \<open>Vdev_Run\<close>: runs of requests and syncs
    (the inductive relation \<open>vdev_run\<close>). \<open>Vdev_Create\<close>: new vdevs. \<open>Pool_Properties\<close> states the results, on the pools of \<open>Pool_Example\<close>:
    no space is allocated twice, freed space is not reused before its frees are safe, and it does come back.

  \<^bold>\<open>Parameters.\<close> Memory allocation (\<open>kmem_fresh\<close>, \<open>alloc_fresh\<close>: an address not in use), the DMU and the meta object set (\<open>dmu_appends\<close>:
  what is appended can be read; \<open>mos_ok\<close>: a write changes one object only, a new object is empty and has an unused number while
  there is one; \<open>dmu_reads_or_fails\<close> where a read may fail), waiting for a load, and tunables of the kernel are arguments.

  \<^bold>\<open>Bounds.\<close> A sync appends at most \<open>2 * size + 2\<close> words to the log of a metaslab of \<open>size\<close> bytes, so that \<open>sync_room\<close> and \<open>room\<close>
  ask for that much below the limit of \<open>2 ^ 64\<close> bytes, and for object numbers left for new logs. The results on runs are for the
  three best-fit policies: with first fit the search of a group need not end, because a block may fit a segment but not its alignment.
  A vdev that is synced in these results has no dirty DTL to write (\<open>vdev_dtl_sync\<close> is modelled).

  \<^bold>\<open>Not modelled.\<close> Locks and threads: each routine is one step, so the release of a lock in \<open>space_map_load\<close> around reads and in
  \<open>metaslab_group_alloc\<close> between choosing and locking a metaslab does not show. The packed AVL node of 64-bit kernels (the structure
  with separate fields is used), and the offset of a node in its object. Prefetching, except for what \<open>metaslab_prefetch\<close> asks for. Big-endian
  hosts. \<open>metaslab_alloc_dva\<close>, \<open>metaslab_alloc\<close> and the claiming of blocks are translated, but the theorems are about the group and
  the vdev below them. Opening and configuring vdevs, I/O, RAID-Z parity, the threads of \<open>txg.c\<close>, the DMU and everything
  above it, and the rest of the operating system are outside this development.
\<close>

end
